(* ===== verification/Ferret_Prelude.thy ===== *)
theory Ferret_Prelude
  imports Main "HOL-Library.Word" "HOL-Library.Sublist"
begin

text \<open>
  Shared vocabulary of the development: bytes and byte strings, the slice
  operations of the Rust standard library that the sources call
  (\<open>starts_with\<close>, \<open>ends_with\<close>, \<open>strip_prefix\<close>, \<open>windows\<close>, \<open>rposition\<close>,
  \<open>split\<close>), the ASCII classifications of \<open>u8\<close>, and the generic list lemmas
  the components share. The named collections carry the automation:
  \<open>slice_simps\<close> unfolds the slice operations to \<open>take\<close>/\<open>drop\<close>,
  \<open>wf_intros\<close> gathers the well-formedness rules of the compiled patterns.
\<close>

named_theorems slice_simps \<open>slice operations of the standard library, unfolded\<close>
named_theorems wf_intros \<open>well-formedness of what the compilers build\<close>

section \<open>Bytes and slices\<close>

type_synonym byte = "8 word"
type_synonym bytes = "byte list"

text \<open>\<open>[T]::starts_with\<close>, \<open>[T]::ends_with\<close> and \<open>strip_prefix\<close>.\<close>

definition starts_with :: "'a list \<Rightarrow> 'a list \<Rightarrow> bool" where
  [slice_simps]: "starts_with xs needle \<longleftrightarrow> take (length needle) xs = needle"

definition ends_with :: "'a list \<Rightarrow> 'a list \<Rightarrow> bool" where
  [slice_simps]: "ends_with xs needle \<longleftrightarrow>
     length needle \<le> length xs \<and> drop (length xs - length needle) xs = needle"

definition strip_prefix :: "'a list \<Rightarrow> 'a list \<Rightarrow> 'a list option" where
  "strip_prefix needle xs =
     (if starts_with xs needle then Some (drop (length needle) xs) else None)"

definition strip_suffix :: "'a list \<Rightarrow> 'a list \<Rightarrow> 'a list option" where
  "strip_suffix needle xs =
     (if ends_with xs needle then Some (take (length xs - length needle) xs) else None)"

text \<open>\<open>[T]::windows(n)\<close>, for a positive width (the source panics on zero).\<close>

definition windows :: "nat \<Rightarrow> 'a list \<Rightarrow> 'a list list" where
  "windows n xs = map (\<lambda>i. take n (drop i xs)) [0..<Suc (length xs) - n]"

text \<open>\<open>iter().rposition(p)\<close>: the last index whose element satisfies \<open>p\<close>.\<close>

fun rposition :: "('a \<Rightarrow> bool) \<Rightarrow> 'a list \<Rightarrow> nat option" where
  "rposition p [] = None"
| "rposition p (x # xs) =
     (case rposition p xs of Some i \<Rightarrow> Some (Suc i) | None \<Rightarrow> if p x then Some 0 else None)"

text \<open>\<open>str::split(c)\<close>: the pieces between occurrences of a separator, never none.\<close>

fun split_at :: "'a \<Rightarrow> 'a list \<Rightarrow> 'a list list" where
  "split_at c [] = [[]]"
| "split_at c (x # xs) =
     (if x = c then [] # split_at c xs
      else (case split_at c xs of p # ps \<Rightarrow> (x # p) # ps | [] \<Rightarrow> [[x]]))"

text \<open>\<open>usize::checked_sub\<close>, \<open>u32::checked_add\<close>.\<close>

definition checked_sub :: "nat \<Rightarrow> nat \<Rightarrow> nat option" where
  "checked_sub a b = (if b \<le> a then Some (a - b) else None)"

definition checked_add_u32 :: "nat \<Rightarrow> nat \<Rightarrow> nat option" where
  "checked_add_u32 a b = (if a + b < 2 ^ 32 then Some (a + b) else None)"

text \<open>\<open>slice::partition_point\<close>, for a slice partitioned by the predicate.\<close>

definition partition_point :: "('a \<Rightarrow> bool) \<Rightarrow> 'a list \<Rightarrow> nat" where
  "partition_point p xs = length (takeWhile p xs)"

section \<open>ASCII classes of a byte\<close>

definition is_ascii_uppercase :: "byte \<Rightarrow> bool" where
  "is_ascii_uppercase b \<longleftrightarrow> 0x41 \<le> b \<and> b \<le> 0x5A"

definition is_ascii_lowercase :: "byte \<Rightarrow> bool" where
  "is_ascii_lowercase b \<longleftrightarrow> 0x61 \<le> b \<and> b \<le> 0x7A"

definition is_ascii_digit :: "byte \<Rightarrow> bool" where
  "is_ascii_digit b \<longleftrightarrow> 0x30 \<le> b \<and> b \<le> 0x39"

definition is_ascii_alphabetic :: "byte \<Rightarrow> bool" where
  "is_ascii_alphabetic b \<longleftrightarrow> is_ascii_uppercase b \<or> is_ascii_lowercase b"

definition is_ascii_alphanumeric :: "byte \<Rightarrow> bool" where
  "is_ascii_alphanumeric b \<longleftrightarrow> is_ascii_alphabetic b \<or> is_ascii_digit b"

definition is_ascii_hexdigit :: "byte \<Rightarrow> bool" where
  "is_ascii_hexdigit b \<longleftrightarrow>
     is_ascii_digit b \<or> (0x41 \<le> b \<and> b \<le> 0x46) \<or> (0x61 \<le> b \<and> b \<le> 0x66)"

definition is_ascii_graphic :: "byte \<Rightarrow> bool" where
  "is_ascii_graphic b \<longleftrightarrow> 0x21 \<le> b \<and> b \<le> 0x7E"

definition is_ascii_control :: "byte \<Rightarrow> bool" where
  "is_ascii_control b \<longleftrightarrow> b \<le> 0x1F \<or> b = 0x7F"

definition is_ascii_punctuation :: "byte \<Rightarrow> bool" where
  "is_ascii_punctuation b \<longleftrightarrow>
     (0x21 \<le> b \<and> b \<le> 0x2F) \<or> (0x3A \<le> b \<and> b \<le> 0x40) \<or>
     (0x5B \<le> b \<and> b \<le> 0x60) \<or> (0x7B \<le> b \<and> b \<le> 0x7E)"

lemmas ascii_class_defs =
  is_ascii_uppercase_def is_ascii_lowercase_def is_ascii_digit_def is_ascii_alphabetic_def
  is_ascii_alphanumeric_def is_ascii_hexdigit_def is_ascii_graphic_def is_ascii_control_def
  is_ascii_punctuation_def

section \<open>List lemmas\<close>

lemma starts_with_iff_prefix: "starts_with xs p \<longleftrightarrow> prefix p xs"
  unfolding starts_with_def by (metis append_take_drop_id prefixI prefixE append_eq_conv_conj)

lemma ends_with_iff_suffix: "ends_with xs p \<longleftrightarrow> suffix p xs"
proof
  assume "ends_with xs p"
  then show "suffix p xs"
    unfolding ends_with_def by (metis suffix_drop)
next
  assume "suffix p xs"
  then obtain zs where "xs = zs @ p" by (rule suffixE)
  then show "ends_with xs p" by (simp add: ends_with_def)
qed

lemma rposition_None: "rposition p xs = None \<longleftrightarrow> (\<forall>x\<in>set xs. \<not> p x)"
  by (induction xs) (auto split: option.splits)

lemma rposition_Some:
  "rposition p xs = Some i \<Longrightarrow>
     i < length xs \<and> p (xs ! i) \<and> (\<forall>x\<in>set (drop (Suc i) xs). \<not> p x)"
  by (induction xs arbitrary: i)
     (auto simp: rposition_None split: option.splits if_splits)

lemma rposition_unique:
  assumes "i < length xs" "p (xs ! i)" "\<forall>x\<in>set (drop (Suc i) xs). \<not> p x"
  shows "rposition p xs = Some i"
  using assms
proof (induction xs arbitrary: i)
  case Nil
  then show ?case by simp
next
  case (Cons x xs)
  show ?case
  proof (cases i)
    case 0
    with Cons.prems have "rposition p xs = None" by (simp add: rposition_None)
    with 0 Cons.prems show ?thesis by simp
  next
    case (Suc j)
    with Cons show ?thesis by simp
  qed
qed

lemma partition_point_le:
  assumes "i < length xs" "\<And>i j. i \<le> j \<Longrightarrow> j < length xs \<Longrightarrow> P (xs ! j) \<Longrightarrow> P (xs ! i)"
  shows "partition_point P xs \<le> i \<longleftrightarrow> \<not> P (xs ! i)"
proof
  assume "partition_point P xs \<le> i"
  then have n: "length (takeWhile P xs) \<le> i" by (simp add: partition_point_def)
  then have "\<not> P (xs ! length (takeWhile P xs))" using assms(1) by (intro nth_length_takeWhile) simp
  with assms n show "\<not> P (xs ! i)" by blast
next
  assume "\<not> P (xs ! i)"
  then show "partition_point P xs \<le> i"
    unfolding partition_point_def by (metis not_le nth_mem set_takeWhileD takeWhile_nth)
qed

lemma partition_point_length: "partition_point P xs \<le> length xs"
  by (simp add: partition_point_def length_takeWhile_le)

lemma partition_point_mono: "(\<And>x. P x \<Longrightarrow> Q x) \<Longrightarrow> partition_point P xs \<le> partition_point Q xs"
  unfolding partition_point_def by (induction xs) auto

lemma split_at_not_Nil [simp]: "split_at c xs \<noteq> []"
  by (induction xs) (auto split: list.splits)

lemma split_at_no_separator: "p \<in> set (split_at c xs) \<Longrightarrow> c \<notin> set p"
  by (induction xs arbitrary: p) (auto split: list.splits if_splits)

lemma set_windows_iff:
  assumes "0 < n"
  shows "w \<in> set (windows n xs) \<longleftrightarrow> (length w = n \<and> sublist w xs)"
proof
  assume "w \<in> set (windows n xs)"
  then obtain i where "i < Suc (length xs) - n" "w = take n (drop i xs)"
    by (auto simp: windows_def)
  then have "i + n \<le> length xs" "w = take n (drop i xs)" by auto
  moreover have "xs = take i xs @ take n (drop i xs) @ drop n (drop i xs)"
    by (metis append_take_drop_id)
  ultimately show "length w = n \<and> sublist w xs"
    unfolding sublist_def by auto
next
  assume w: "length w = n \<and> sublist w xs"
  then obtain ps ss where xs: "xs = ps @ w @ ss" by (auto simp: sublist_def)
  with w have "w = take n (drop (length ps) xs)" "length ps < Suc (length xs) - n"
    by auto
  then show "w \<in> set (windows n xs)"
    unfolding windows_def by (force simp: image_iff)
qed

end
