(* ===== verification/Glob.thy ===== *)
theory Glob
  imports Ferret_Prelude
begin

text \<open>
  One path component's glob (\<open>ferret-policy/src/gitignore/pattern/glob.rs\<close>):
  character classes, the compiler from pattern bytes to atoms, and the
  last-star retry loop that matches a name. Data types carry the source's
  constructors; a \<open>Box<[T]>\<close> is a list, a one-field struct its field.

  Results: the loop always returns within \<open>(|atoms| + 1) * (|name| + 1)\<close>
  iterations and decides exactly the declarative relation \<open>glob_spec\<close>, and a
  compiled component accepts exactly the names that reading the pattern bytes
  from left to right (\<open>part_spec\<close>) accepts.
\<close>

section \<open>Data\<close>

record pattern_byte =
  pb_value :: byte
  pb_escaped :: bool

definition pb_is :: "pattern_byte \<Rightarrow> byte \<Rightarrow> bool" where
  "pb_is b v \<longleftrightarrow> \<not> pb_escaped b \<and> pb_value b = v"

definition bare :: "pattern_byte list \<Rightarrow> nat \<Rightarrow> byte \<Rightarrow> bool" where
  "bare part at v \<longleftrightarrow> at < length part \<and> pb_is (part ! at) v"

datatype posix_class =
  Alnum | Alpha | Blank | Cntrl | Digit | Graph | Lower | Print | Punct | Space | Upper | Xdigit

datatype class_term = CT_Byte byte | CT_Range byte byte | CT_Posix posix_class

record character_class =
  cc_negated :: bool
  cc_terms :: "class_term list"

datatype class_member = CM_Byte pattern_byte | CM_Posix posix_class

datatype atom = Literal bytes | Any | Star | Class character_class

type_synonym component_glob = "atom list"

datatype component = Globstar (allow_zero: bool) | Glob component_glob | Never

datatype glob_syntax = Ignore_Syntax | Override_Syntax

section \<open>Matching one byte\<close>

definition posix_parse :: "bytes \<Rightarrow> posix_class option" where
  "posix_parse name =
     (if name = [0x61, 0x6C, 0x6E, 0x75, 0x6D] then Some Alnum
      else if name = [0x61, 0x6C, 0x70, 0x68, 0x61] then Some Alpha
      else if name = [0x62, 0x6C, 0x61, 0x6E, 0x6B] then Some Blank
      else if name = [0x63, 0x6E, 0x74, 0x72, 0x6C] then Some Cntrl
      else if name = [0x64, 0x69, 0x67, 0x69, 0x74] then Some Digit
      else if name = [0x67, 0x72, 0x61, 0x70, 0x68] then Some Graph
      else if name = [0x6C, 0x6F, 0x77, 0x65, 0x72] then Some Lower
      else if name = [0x70, 0x72, 0x69, 0x6E, 0x74] then Some Print
      else if name = [0x70, 0x75, 0x6E, 0x63, 0x74] then Some Punct
      else if name = [0x73, 0x70, 0x61, 0x63, 0x65] then Some Space
      else if name = [0x75, 0x70, 0x70, 0x65, 0x72] then Some Upper
      else if name = [0x78, 0x64, 0x69, 0x67, 0x69, 0x74] then Some Xdigit
      else None)"

fun posix_matches :: "posix_class \<Rightarrow> byte \<Rightarrow> bool" where
  "posix_matches Alnum b = is_ascii_alphanumeric b"
| "posix_matches Alpha b = is_ascii_alphabetic b"
| "posix_matches Blank b = (b = 0x20 \<or> b = 0x09)"
| "posix_matches Cntrl b = is_ascii_control b"
| "posix_matches Digit b = is_ascii_digit b"
| "posix_matches Graph b = is_ascii_graphic b"
| "posix_matches Lower b = is_ascii_lowercase b"
| "posix_matches Print b = (is_ascii_graphic b \<or> b = 0x20)"
| "posix_matches Punct b = is_ascii_punctuation b"
| "posix_matches Space b = (b = 0x20 \<or> b = 0x09 \<or> b = 0x0A \<or> b = 0x0D)"
| "posix_matches Upper b = is_ascii_uppercase b"
| "posix_matches Xdigit b = is_ascii_hexdigit b"

fun class_term_matches :: "class_term \<Rightarrow> byte \<Rightarrow> bool" where
  "class_term_matches (CT_Byte want) b = (b = want)"
| "class_term_matches (CT_Range lo hi) b = (lo \<le> b \<and> b \<le> hi)"
| "class_term_matches (CT_Posix c) b = posix_matches c b"

definition class_matches :: "character_class \<Rightarrow> byte \<Rightarrow> bool" where
  "class_matches c b \<longleftrightarrow> list_ex (\<lambda>term. class_term_matches term b) (cc_terms c) \<noteq> cc_negated c"

section \<open>Atoms\<close>

fun consumes :: "atom \<Rightarrow> bytes \<Rightarrow> nat option" where
  "consumes (Literal run) text = (if starts_with text run then Some (length run) else None)"
| "consumes Any text = (if text \<noteq> [] then Some 1 else None)"
| "consumes Star text = None"
| "consumes (Class c) text =
     (case text of b # _ \<Rightarrow> if class_matches c b then Some 1 else None | [] \<Rightarrow> None)"

fun fixed_width :: "atom \<Rightarrow> nat option" where
  "fixed_width (Literal run) = Some (length run)"
| "fixed_width Any = Some 1"
| "fixed_width (Class _) = Some 1"
| "fixed_width Star = None"

fun atom_has_witness :: "atom \<Rightarrow> bool" where
  "atom_has_witness (Class c) = list_ex (\<lambda>n. class_matches c (word_of_nat n)) [0..<256]"
| "atom_has_witness _ = True"

text \<open>\<open>?*\<close>: every non-empty name.\<close>

definition any_glob :: component_glob where
  "any_glob = [Any, Star]"

definition normalize_star :: "component_glob \<Rightarrow> component_glob" where
  "normalize_star glob = (if glob = [Star] then any_glob else glob)"

fun literal_bytes :: "component_glob \<Rightarrow> bytes option" where
  "literal_bytes [] = Some []"
| "literal_bytes (Literal run # atoms) = map_option (\<lambda>rest. run @ rest) (literal_bytes atoms)"
| "literal_bytes _ = None"

section \<open>The last-star retry loop\<close>

text \<open>
  \<open>matches_observed\<close>. The loop keeps an atom index, a text index and the last
  star as (atom after it, text index to retry from); \<open>steps\<close> counts the calls
  of the observer. \<open>None\<close> is "out of fuel"; \<open>match_fuel\<close> below is always
  enough (\<open>matches_observed_returns\<close>).
\<close>

definition nth_atom :: "component_glob \<Rightarrow> nat \<Rightarrow> atom option" where
  "nth_atom atoms i = (if i < length atoms then Some (atoms ! i) else None)"

fun skip_stars :: "component_glob \<Rightarrow> bool" where
  "skip_stars [] = True"
| "skip_stars (a # atoms) = (a = Star \<and> skip_stars atoms)"

fun match_loop ::
  "nat \<Rightarrow> component_glob \<Rightarrow> bytes \<Rightarrow> nat \<Rightarrow> nat \<Rightarrow> (nat \<times> nat) option \<Rightarrow> nat \<Rightarrow> (bool \<times> nat) option"
where
  "match_loop 0 atoms text atom_at text_at star steps = None"
| "match_loop (Suc fuel) atoms text atom_at text_at star steps =
     (if text_at < length text then
        (if nth_atom atoms atom_at = Some Star
         then match_loop fuel atoms text (atom_at + 1) text_at (Some (atom_at + 1, text_at)) (steps + 1)
         else (case Option.bind (nth_atom atoms atom_at) (\<lambda>a. consumes a (drop text_at text)) of
                 Some consumed \<Rightarrow>
                   match_loop fuel atoms text (atom_at + 1) (text_at + consumed) star (steps + 1)
               | None \<Rightarrow>
                   (case star of
                      None \<Rightarrow> Some (False, steps + 1)
                    | Some (after_star, retry_at) \<Rightarrow>
                        if retry_at = length text then Some (False, steps + 1)
                        else match_loop fuel atoms text after_star (retry_at + 1)
                               (Some (after_star, retry_at + 1)) (steps + 1))))
      else Some (skip_stars (drop atom_at atoms), steps))"

definition match_fuel :: "component_glob \<Rightarrow> bytes \<Rightarrow> nat" where
  "match_fuel atoms text = Suc ((length text + 1) * (length atoms + 1))"

definition matches_observed :: "component_glob \<Rightarrow> bytes \<Rightarrow> (bool \<times> nat) option" where
  "matches_observed atoms text = match_loop (match_fuel atoms text) atoms text 0 0 None 0"

definition glob_matches :: "component_glob \<Rightarrow> bytes \<Rightarrow> bool" where
  "glob_matches atoms text = (case matches_observed atoms text of Some (m, _) \<Rightarrow> m | None \<Rightarrow> False)"

fun component_matches :: "component \<Rightarrow> bytes \<Rightarrow> bool" where
  "component_matches (Globstar _) text = True"
| "component_matches (Glob glob) text = glob_matches glob text"
| "component_matches Never text = False"

fun component_has_witness :: "component \<Rightarrow> bool" where
  "component_has_witness (Globstar _) = True"
| "component_has_witness (Glob glob) = list_all atom_has_witness glob"
| "component_has_witness Never = False"

section \<open>Compiling a component\<close>

text \<open>\<open>class_terms\<close>: members as terms, joining \<open>a-z\<close> into a range.\<close>

fun class_terms :: "class_member list \<Rightarrow> glob_syntax \<Rightarrow> class_term list option" where
  "class_terms [] syn = Some []"
| "class_terms (CM_Byte first # CM_Byte hyphen # CM_Byte final # rest) syn =
     (if pb_is hyphen 0x2D then
        (if pb_value first \<le> pb_value final
         then map_option (Cons (CT_Range (pb_value first) (pb_value final))) (class_terms rest syn)
         else if syn = Override_Syntax then None
         else map_option (Cons (CT_Byte (pb_value first))) (class_terms rest syn))
      else map_option (Cons (CT_Byte (pb_value first)))
             (class_terms (CM_Byte hyphen # CM_Byte final # rest) syn))"
| "class_terms (CM_Byte b # rest) syn = map_option (Cons (CT_Byte (pb_value b))) (class_terms rest syn)"
| "class_terms (CM_Posix c # rest) syn = map_option (Cons (CT_Posix c)) (class_terms rest syn)"

text \<open>The scan for the \<open>:]\<close> that closes a POSIX class name.\<close>

function posix_name_end :: "pattern_byte list \<Rightarrow> nat \<Rightarrow> nat option" where
  "posix_name_end part name_end =
     (if bare part name_end 0x3A \<and> bare part (name_end + 1) 0x5D then Some name_end
      else if name_end + 1 < length part then posix_name_end part (name_end + 1)
      else None)"
  by pat_completeness auto
termination
  by (relation "measure (\<lambda>(part, name_end). length part - name_end)") auto

declare posix_name_end.simps [simp del]

definition ends_in_hyphen :: "class_member list \<Rightarrow> bool" where
  "ends_in_hyphen members =
     (case rev members of CM_Byte hyphen # _ \<Rightarrow> pb_is hyphen 0x2D | _ \<Rightarrow> False)"

definition byte_terms :: "class_member list \<Rightarrow> class_term list" where
  "byte_terms members =
     List.map_filter (\<lambda>m. case m of CM_Byte b \<Rightarrow> Some (CT_Byte (pb_value b)) | CM_Posix _ \<Rightarrow> None) members"

lemma posix_name_end_ge: "posix_name_end part n = Some e \<Longrightarrow> n \<le> e"
proof (induction part n rule: posix_name_end.induct)
  case (1 part n)
  then show ?case
    by (subst (asm) (2) posix_name_end.simps) (auto split: if_splits)
qed

function class_loop ::
  "pattern_byte list \<Rightarrow> glob_syntax \<Rightarrow> bool \<Rightarrow> class_member list \<Rightarrow> nat \<Rightarrow> (character_class \<times> nat) option"
where
  "class_loop part syn negated members at =
     (if length part \<le> at then None
      else if pb_is (part ! at) 0x5D then
        (if members = [] then None
         else map_option (\<lambda>terms. (\<lparr>cc_negated = negated, cc_terms = terms\<rparr>, at + 1))
                (class_terms members syn))
      else if syn = Ignore_Syntax \<and> pb_is (part ! at) 0x5B \<and> bare part (at + 1) 0x3A then
        (case posix_name_end part (at + 2) of
           None \<Rightarrow> None
         | Some name_end \<Rightarrow>
             (let name = take (name_end - (at + 2)) (drop (at + 2) part) in
              if list_ex pb_escaped name then None
              else if ends_in_hyphen members then
                (let members = butlast members in
                 if members = [] then None
                 else Some (\<lparr>cc_negated = negated, cc_terms = byte_terms members\<rparr>, name_end + 2))
              else (case posix_parse (map pb_value name) of
                      None \<Rightarrow> None
                    | Some c \<Rightarrow> class_loop part syn negated (members @ [CM_Posix c]) (name_end + 2))))
      else class_loop part syn negated (members @ [CM_Byte (part ! at)]) (at + 1))"
  by pat_completeness auto
termination
  by (relation "measure (\<lambda>(part, syn, negated, members, at). length part - at)")
     (auto dest: posix_name_end_ge)

declare class_loop.simps [simp del]

definition compile_class :: "pattern_byte list \<Rightarrow> nat \<Rightarrow> glob_syntax \<Rightarrow> (character_class \<times> nat) option" where
  "compile_class part start syn =
     (let at = start + 1;
          negated = bare part at 0x21 \<or> bare part at 0x5E;
          at = (if negated then at + 1 else at)
      in if bare part at 0x5D
         then class_loop part syn negated [CM_Byte (part ! at)] (at + 1)
         else class_loop part syn negated [] at)"

definition flush_literal :: "atom list \<Rightarrow> bytes \<Rightarrow> atom list" where
  "flush_literal atoms literal = (if literal \<noteq> [] then atoms @ [Literal literal] else atoms)"

lemma class_loop_next: "class_loop part syn negated members at = Some (c, next) \<Longrightarrow> at < next"
proof (induction "length part - at" arbitrary: syn members at rule: less_induct)
  case less
  note step = less.hyps [rotated]
  have "at < length part"
    using less.prems by (subst (asm) class_loop.simps) (simp split: if_splits)
  then show ?case
    using less.prems
    by (subst (asm) class_loop.simps)
       (auto simp: Let_def split: if_splits option.splits dest!: posix_name_end_ge,
        (drule step, simp, simp)+)
qed

lemma compile_class_next: "compile_class part start syn = Some (c, next) \<Longrightarrow> start < next"
  by (auto simp: compile_class_def Let_def split: if_splits dest!: class_loop_next)

function compile_atoms ::
  "pattern_byte list \<Rightarrow> glob_syntax \<Rightarrow> nat \<Rightarrow> atom list \<Rightarrow> bytes \<Rightarrow> component"
where
  "compile_atoms part syn at atoms literal =
     (if at < length part then
        (let byte = part ! at in
         if pb_escaped byte then compile_atoms part syn (at + 1) atoms (literal @ [pb_value byte])
         else if pb_value byte = 0x2A then
           (let atoms = flush_literal atoms literal in
            compile_atoms part syn (at + 1)
              (if atoms \<noteq> [] \<and> last atoms = Star then atoms else atoms @ [Star]) [])
         else if pb_value byte = 0x3F then
           compile_atoms part syn (at + 1) (flush_literal atoms literal @ [Any]) []
         else if pb_value byte = 0x5B then
           (case compile_class part at syn of
              None \<Rightarrow> Never
            | Some (class, next) \<Rightarrow>
                compile_atoms part syn next (flush_literal atoms literal @ [Class class]) [])
         else compile_atoms part syn (at + 1) atoms (literal @ [pb_value byte]))
      else Glob (flush_literal atoms literal))"
  by pat_completeness auto
termination
  by (relation "measure (\<lambda>(part, syn, at, atoms, literal). length part - at)")
     (auto dest: compile_class_next)

declare compile_atoms.simps [simp del]

definition compile_component :: "pattern_byte list \<Rightarrow> bool \<Rightarrow> glob_syntax \<Rightarrow> component" where
  "compile_component part anchored syn =
     (if anchored \<and> 2 \<le> length part \<and> list_all (\<lambda>b. pb_is b 0x2A) part then Globstar True
      else if part = [] then Never
      else compile_atoms part syn 0 [] [])"

section \<open>The declarative relation\<close>

text \<open>
  What a sequence of atoms matches, with no loop state: a star takes any
  number of bytes, every other atom the bytes it consumes, and the whole name
  is used.
\<close>

fun glob_spec :: "component_glob \<Rightarrow> bytes \<Rightarrow> bool" where
  "glob_spec [] text = (text = [])"
| "glob_spec (Star # atoms) [] = glob_spec atoms []"
| "glob_spec (Star # atoms) (b # text) = (glob_spec atoms (b # text) \<or> glob_spec (Star # atoms) text)"
| "glob_spec (a # atoms) text =
     (case consumes a text of None \<Rightarrow> False | Some k \<Rightarrow> glob_spec atoms (drop k text))"

definition wf_glob :: "component_glob \<Rightarrow> bool" where
  "wf_glob atoms \<longleftrightarrow> Literal [] \<notin> set atoms"

lemma consumes_width: "consumes a t = Some k \<Longrightarrow> fixed_width a = Some k \<and> k \<le> length t"
  by (cases a) (auto simp: starts_with_iff_prefix split: if_splits list.splits dest: prefix_length_le simp: Suc_le_eq)

lemma glob_spec_Star:
  "glob_spec (Star # atoms) t \<longleftrightarrow> (\<exists>k\<le>length t. glob_spec atoms (drop k t))"
proof (induction t)
  case Nil
  then show ?case by simp
next
  case (Cons b t)
  have "(\<exists>k\<le>length (b # t). glob_spec atoms (drop k (b # t))) \<longleftrightarrow>
        glob_spec atoms (b # t) \<or> (\<exists>k\<le>length t. glob_spec atoms (drop k t))"
    by (metis (no_types, lifting) Suc_le_mono drop0 drop_Suc_Cons le0 length_Cons not0_implies_Suc)
  with Cons show ?case by simp
qed

lemma glob_spec_not_Star:
  "a \<noteq> Star \<Longrightarrow> glob_spec (a # atoms) t \<longleftrightarrow>
     (\<exists>k. consumes a t = Some k \<and> glob_spec atoms (drop k t))"
  by (cases a) (auto split: option.splits)

lemma glob_spec_Star_mono:
  assumes "glob_spec (Star # atoms) (drop j t)" and "i \<le> j"
  shows "glob_spec (Star # atoms) (drop i t)"
proof -
  from assms(1) obtain k where k: "k \<le> length t - j" "glob_spec atoms (drop (j + k) t)"
    by (auto simp: glob_spec_Star add.commute)
  show ?thesis
  proof (cases "j \<le> length t")
    case True
    with k assms(2) have "j + k - i \<le> length (drop i t)" "glob_spec atoms (drop (j + k - i) (drop i t))"
      by auto
    then show ?thesis unfolding glob_spec_Star by blast
  next
    case False
    with k have "glob_spec atoms []" by simp
    then show ?thesis unfolding glob_spec_Star
      by (intro exI [of _ "length (drop i t)"]) simp
  qed
qed

text \<open>At the end of the name only stars are left to match, when no literal is empty.\<close>

lemma glob_spec_Nil_text: "wf_glob atoms \<Longrightarrow> glob_spec atoms [] \<longleftrightarrow> skip_stars atoms"
proof (induction atoms)
  case Nil
  then show ?case by simp
next
  case (Cons a atoms)
  then show ?case
    by (cases a) (auto simp: wf_glob_def starts_with_def)
qed

section \<open>Runs of fixed-width atoms\<close>

fun run_fixed :: "component_glob \<Rightarrow> bytes \<Rightarrow> nat option" where
  "run_fixed [] text = Some 0"
| "run_fixed (a # atoms) text =
     (case consumes a text of None \<Rightarrow> None
      | Some k \<Rightarrow> map_option ((+) k) (run_fixed atoms (drop k text)))"

lemma run_fixed_snoc:
  "run_fixed xs t = Some w \<Longrightarrow> consumes a (drop w t) = Some k \<Longrightarrow>
     run_fixed (xs @ [a]) t = Some (w + k)"
  by (induction xs arbitrary: t w) (auto split: option.splits simp: add.commute)

lemma run_fixed_length: "run_fixed xs t = Some w \<Longrightarrow> w \<le> length t"
  by (induction xs arbitrary: t w) (force split: option.splits dest: consumes_width)+

lemma run_fixed_same_width:
  "run_fixed xs t = Some w \<Longrightarrow> run_fixed xs u = Some w' \<Longrightarrow> w = w'"
  by (induction xs arbitrary: t u w w')
     (force split: option.splits dest: consumes_width)+

lemma run_fixed_no_Star: "run_fixed xs t = Some w \<Longrightarrow> Star \<notin> set xs"
  by (induction xs arbitrary: t w) (auto split: option.splits)

lemma glob_spec_run_fixed:
  "Star \<notin> set xs \<Longrightarrow> glob_spec (xs @ ys) t \<longleftrightarrow>
     (\<exists>w. run_fixed xs t = Some w \<and> glob_spec ys (drop w t))"
proof (induction xs arbitrary: t)
  case Nil
  then show ?case by simp
next
  case (Cons a xs)
  then have "glob_spec ((a # xs) @ ys) t \<longleftrightarrow>
      (\<exists>k. consumes a t = Some k \<and> glob_spec (xs @ ys) (drop k t))"
    by (auto simp: glob_spec_not_Star)
  with Cons show ?case
    by (auto simp: add.commute split: option.splits)
qed


section \<open>The loop decides the relation\<close>

text \<open>
  What the loop still has to decide in a state: the rest of the pattern here,
  or the pattern after the last star at a later position.
\<close>

fun retries :: "component_glob \<Rightarrow> bytes \<Rightarrow> (nat \<times> nat) option \<Rightarrow> bool" where
  "retries atoms t None = False"
| "retries atoms t (Some (after_star, retry_at)) =
     (\<exists>r. retry_at < r \<and> r \<le> length t \<and> glob_spec (drop after_star atoms) (drop r t))"

fun star_inv :: "component_glob \<Rightarrow> bytes \<Rightarrow> nat \<Rightarrow> nat \<Rightarrow> (nat \<times> nat) option \<Rightarrow> bool" where
  "star_inv atoms t i j None = True"
| "star_inv atoms t i j (Some (a, r)) =
     (a \<le> i \<and> r \<le> j \<and> run_fixed (take (i - a) (drop a atoms)) (drop r t) = Some (j - r))"

text \<open>The pair (retry position, atom index) grows lexicographically at every iteration.\<close>

fun potential :: "component_glob \<Rightarrow> bytes \<Rightarrow> nat \<Rightarrow> (nat \<times> nat) option \<Rightarrow> nat" where
  "potential atoms t i None = length t * (length atoms + 1) + (length atoms - i)"
| "potential atoms t i (Some (a, r)) = (length t - r) * (length atoms + 1) + (length atoms - i)"

lemma drop_split_at: "a \<le> i \<Longrightarrow> drop a xs = take (i - a) (drop a xs) @ drop i xs"
  by (metis append_take_drop_id drop_drop le_add_diff_inverse2)

text \<open>A later retry of a segment that already matched ends further right.\<close>

lemma segment_later:
  assumes "run_fixed seg (drop r t) = Some w" and "glob_spec (seg @ rest) (drop r' t)"
  shows "glob_spec rest (drop (r' + w) t) \<and> r' + w \<le> max r' (length t)"
proof -
  have "Star \<notin> set seg" using assms(1) by (rule run_fixed_no_Star)
  then obtain w' where w': "run_fixed seg (drop r' t) = Some w'" "glob_spec rest (drop w' (drop r' t))"
    using assms(2) by (auto simp: glob_spec_run_fixed)
  with assms(1) have "w' = w" by (metis run_fixed_same_width)
  with w' show ?thesis using run_fixed_length [OF w'(1)] by (auto simp: add.commute)
qed

lemma retries_absorbed:
  assumes "star_inv atoms t i j star" and "i < length atoms" "atoms ! i = Star" and "retries atoms t star"
  shows "glob_spec (drop i atoms) (drop j t)"
proof -
  obtain a r where star: "star = Some (a, r)" using assms(4) by (cases star) auto
  with assms(1) have inv: "a \<le> i" "r \<le> j" "run_fixed (take (i - a) (drop a atoms)) (drop r t) = Some (j - r)"
    by auto
  from assms(4) star obtain r' where r': "r < r'" "r' \<le> length t" "glob_spec (drop a atoms) (drop r' t)"
    by auto
  have i: "drop i atoms = Star # drop (Suc i) atoms"
    using assms(2,3) by (metis Cons_nth_drop_Suc)
  have "glob_spec (drop i atoms) (drop (r' + (j - r)) t)"
    using segment_later [OF inv(3), of "drop i atoms" r'] r'(3) drop_split_at [OF inv(1), of atoms] by metis
  then show ?thesis
    unfolding i using r'(1) inv(2) by (elim glob_spec_Star_mono) simp
qed

lemma retries_exhausted:
  assumes "star_inv atoms t i j star" and "length t \<le> j" "wf_glob atoms"
  shows "\<not> retries atoms t star"
proof
  assume "retries atoms t star"
  then obtain a r r' where star: "star = Some (a, r)" and r': "r < r'" "r' \<le> length t"
      "glob_spec (drop a atoms) (drop r' t)"
    by (cases star) auto
  with assms(1) have inv: "a \<le> i" "r \<le> j" "run_fixed (take (i - a) (drop a atoms)) (drop r t) = Some (j - r)"
    by auto
  have "r' + (j - r) \<le> length t"
    using segment_later [OF inv(3), of "drop i atoms" r'] r' drop_split_at [OF inv(1), of atoms] by (metis max.absorb2)
  with r' inv(2) assms(2) show False by simp
qed

lemma nth_atom_Some: "nth_atom atoms i = Some a \<Longrightarrow> i < length atoms \<and> drop i atoms = a # drop (Suc i) atoms"
  by (auto simp: nth_atom_def Cons_nth_drop_Suc split: if_splits)

lemma retries_step:
  "r < length t \<Longrightarrow> retries atoms t (Some (a, r)) \<longleftrightarrow>
     glob_spec (drop a atoms) (drop (Suc r) t) \<or> retries atoms t (Some (a, Suc r))"
  by (simp only: retries.simps) (metis Suc_leI Suc_lessD Suc_lessI lessI)

lemma potential_star:
  fixes n m :: nat
  assumes "r \<le> j" "i < m"
  shows "(n - j) * (m + 1) + (m - Suc i) < (n - r) * (m + 1) + (m - i)"
  using assms by (intro add_le_less_mono mult_le_mono1 diff_le_mono2) auto

lemma potential_retry:
  fixes n m :: nat
  assumes "r < n"
  shows "(n - Suc r) * (m + 1) + (m - a) < (n - r) * (m + 1) + (m - i)"
proof -
  have "n - r = Suc (n - Suc r)" using assms by (simp add: Suc_diff_Suc)
  then have "(n - r) * (m + 1) = (n - Suc r) * (m + 1) + (m + 1)" by simp
  then show ?thesis by linarith
qed

text \<open>The three kinds of iteration, on what is left to decide.\<close>

lemma decide_star:
  assumes "star_inv atoms t i j star" "nth_atom atoms i = Some Star" "j < length t"
  shows "glob_spec (drop i atoms) (drop j t) \<or> retries atoms t star \<longleftrightarrow>
         glob_spec (drop (Suc i) atoms) (drop j t) \<or> retries atoms t (Some (Suc i, j))"
proof -
  note i = nth_atom_Some [OF assms(2)]
  have "retries atoms t star \<Longrightarrow> glob_spec (drop i atoms) (drop j t)"
    using assms(1,2) retries_absorbed by (auto simp: nth_atom_def split: if_splits)
  moreover have "glob_spec (drop i atoms) (drop j t) \<longleftrightarrow>
      (\<exists>r\<ge>j. r \<le> length t \<and> glob_spec (drop (Suc i) atoms) (drop r t))"
  proof -
    have "glob_spec (drop i atoms) (drop j t) \<longleftrightarrow>
        (\<exists>k\<le>length t - j. glob_spec (drop (Suc i) atoms) (drop (k + j) t))"
      using i by (simp add: glob_spec_Star)
    also have "\<dots> \<longleftrightarrow> (\<exists>r\<ge>j. r \<le> length t \<and> glob_spec (drop (Suc i) atoms) (drop r t))"
      using assms(3) by (metis (no_types, lifting) add_le_cancel_right le_add2 le_add_diff_inverse2 less_imp_le)
    finally show ?thesis .
  qed
  ultimately show ?thesis
    using assms(3) by (auto simp: le_less)
qed

lemma decide_eat:
  assumes "nth_atom atoms i = Some a" "a \<noteq> Star" "consumes a (drop j t) = Some k"
  shows "glob_spec (drop i atoms) (drop j t) \<longleftrightarrow> glob_spec (drop (Suc i) atoms) (drop (j + k) t)"
  using nth_atom_Some [OF assms(1)] assms(2,3) by (simp add: glob_spec_not_Star add.commute)

lemma decide_stuck:
  assumes "nth_atom atoms i \<noteq> Some Star" "j < length t" "i \<le> length atoms"
    "Option.bind (nth_atom atoms i) (\<lambda>a. consumes a (drop j t)) = None"
  shows "\<not> glob_spec (drop i atoms) (drop j t)"
proof (cases "nth_atom atoms i")
  case None
  with assms(2,3) show ?thesis by (auto simp: nth_atom_def split: if_splits)
next
  case (Some a)
  with nth_atom_Some [OF Some] assms(1,4) show ?thesis by (simp add: glob_spec_not_Star)
qed

lemma star_inv_eat:
  assumes "star_inv atoms t i j star" "nth_atom atoms i = Some a" "consumes a (drop j t) = Some k"
  shows "star_inv atoms t (Suc i) (j + k) star"
proof (cases star)
  case None
  then show ?thesis by simp
next
  case (Some ar)
  obtain c r where ar: "ar = (c, r)" by (cases ar)
  with Some assms(1) have inv: "c \<le> i" "r \<le> j" "run_fixed (take (i - c) (drop c atoms)) (drop r t) = Some (j - r)"
    by auto
  have "take (Suc i - c) (drop c atoms) = take (i - c) (drop c atoms) @ [a]"
    using inv(1) nth_atom_Some [OF assms(2)] assms(2)
    by (auto simp: Suc_diff_le take_Suc_conv_app_nth nth_atom_def split: if_splits)
  then show ?thesis
    using Some ar inv run_fixed_snoc [OF inv(3), of a k] assms(3) by simp
qed

theorem match_loop_decides:
  assumes "wf_glob atoms" and "star_inv atoms t i j star" and "i \<le> length atoms" "j \<le> length t"
    and "potential atoms t i star < fuel"
  shows "\<exists>s. match_loop fuel atoms t i j star steps =
             Some (glob_spec (drop i atoms) (drop j t) \<or> retries atoms t star, s) \<and>
             s \<le> steps + potential atoms t i star"
  using assms(2-)
proof (induction fuel arbitrary: i j star steps)
  case 0
  then show ?case by simp
next
  case (Suc fuel)
  note inv = Suc.prems(1) and bound = Suc.prems(2,3,4)
  show ?case
  proof (cases "j < length t")
    case False
    have "wf_glob (drop i atoms)" using assms(1) by (auto simp: wf_glob_def dest: in_set_dropD)
    with False retries_exhausted [OF inv _ assms(1)] show ?thesis
      by (simp add: glob_spec_Nil_text)
  next
    case True
    consider (star) "nth_atom atoms i = Some Star"
      | (eat) a k where "nth_atom atoms i = Some a" "a \<noteq> Star" "consumes a (drop j t) = Some k"
      | (stuck) "nth_atom atoms i \<noteq> Some Star"
          "Option.bind (nth_atom atoms i) (\<lambda>a. consumes a (drop j t)) = None"
      by (cases "nth_atom atoms i") (force, metis bind.bind_lunit not_None_eq)
    then show ?thesis
    proof cases
      case star
      note i = nth_atom_Some [OF star]
      have less: "potential atoms t (Suc i) (Some (Suc i, j)) < potential atoms t i star"
        using i inv potential_star [of _ j i "length atoms" "length t"] potential_star [of 0 j i "length atoms" "length t"]
        by (cases star) auto
      then show ?thesis
        using Suc.IH [of "Suc i" j "Some (Suc i, j)" "Suc steps"] star True i bound decide_star [OF inv star True]
        by force
    next
      case eat
      note i = nth_atom_Some [OF eat(1)]
      have less: "potential atoms t (Suc i) star < potential atoms t i star"
        using i by (cases star) auto
      have "j + k \<le> length t" using consumes_width [OF eat(3)] True by auto
      with less show ?thesis
        using Suc.IH [of "Suc i" "j + k" star "Suc steps"] eat True i bound star_inv_eat [OF inv eat(1,3)] decide_eat [OF eat]
        by force
    next
      case stuck
      show ?thesis
      proof (cases star)
        case None
        with stuck True decide_stuck [OF stuck(1) True bound(1) stuck(2)] bound(3) show ?thesis by auto
      next
        case (Some ar)
        then obtain a r where star: "star = Some (a, r)" by (cases ar) auto
        with inv True have r: "a \<le> i" "r < length t" by auto
        have less: "potential atoms t a (Some (a, Suc r)) < potential atoms t i star"
          using potential_retry [OF r(2), of "length atoms" a i] by (simp only: star potential.simps)
        have "star_inv atoms t a (Suc r) (Some (a, Suc r))" by simp
        moreover have "a \<le> length atoms" "Suc r \<le> length t" using r bound(1) by auto
        moreover have "potential atoms t a (Some (a, Suc r)) < fuel" using less bound(3) by simp
        ultimately obtain s where s: "match_loop fuel atoms t a (Suc r) (Some (a, Suc r)) (Suc steps) =
            Some (retries atoms t star, s)" "s \<le> Suc steps + potential atoms t a (Some (a, Suc r))"
          using Suc.IH [of a "Suc r" "Some (a, Suc r)" "Suc steps"]
          unfolding star retries_step [OF r(2)] by blast
        then show ?thesis
          using less star stuck True r(2) decide_stuck [OF stuck(1) True bound(1) stuck(2)]
          by (simp del: potential.simps)
      qed
    qed
  qed
qed


text \<open>\<open>matches_observed\<close> returns, within the stated number of observed steps, the relation.\<close>

lemma matches_observed_returns:
  assumes "wf_glob atoms"
  shows "\<exists>steps. matches_observed atoms t = Some (glob_spec atoms t, steps) \<and>
                 steps \<le> (length t + 1) * (length atoms + 1)"
proof -
  have "potential atoms t 0 None < match_fuel atoms t" by (simp add: match_fuel_def)
  then obtain s where "matches_observed atoms t = Some (glob_spec atoms t, s)" "s \<le> potential atoms t 0 None"
    using match_loop_decides [OF assms, of t 0 0 None "match_fuel atoms t" 0] by (auto simp: matches_observed_def)
  then show ?thesis by auto
qed

lemma glob_matches_spec: "wf_glob atoms \<Longrightarrow> glob_matches atoms t \<longleftrightarrow> glob_spec atoms t"
  using matches_observed_returns [of atoms t] by (auto simp: glob_matches_def)

section \<open>The compiler\<close>

text \<open>
  The meaning of a component's pattern bytes, read from left to right without
  compiling: an escaped byte stands for itself, \<open>*\<close> takes any run, \<open>?\<close> one
  byte, \<open>[...]\<close> one byte of the class (nothing when the class is malformed).
\<close>

function part_spec :: "pattern_byte list \<Rightarrow> glob_syntax \<Rightarrow> nat \<Rightarrow> bytes \<Rightarrow> bool" where
  "part_spec part syn at t =
     (if length part \<le> at then t = []
      else if pb_is (part ! at) 0x2A then
        part_spec part syn (at + 1) t \<or> (case t of [] \<Rightarrow> False | _ # u \<Rightarrow> part_spec part syn at u)
      else (case t of
              [] \<Rightarrow> False
            | b # u \<Rightarrow>
                if pb_is (part ! at) 0x3F then part_spec part syn (at + 1) u
                else if pb_is (part ! at) 0x5B then
                  (case compile_class part at syn of
                     None \<Rightarrow> False
                   | Some (class, next) \<Rightarrow> class_matches class b \<and> part_spec part syn next u)
                else b = pb_value (part ! at) \<and> part_spec part syn (at + 1) u))"
  by pat_completeness auto
termination
  by (relation "measure (\<lambda>(part, syn, at, t). (length part - at) + length t)")
     (auto dest!: compile_class_next)

declare part_spec.simps [simp del]

text \<open>Atoms in front of a continuation, to relate the compiler's accumulators to the rest.\<close>

fun glob_then :: "component_glob \<Rightarrow> (bytes \<Rightarrow> bool) \<Rightarrow> bytes \<Rightarrow> bool" where
  "glob_then [] k t = k t"
| "glob_then (Star # atoms) k [] = glob_then atoms k []"
| "glob_then (Star # atoms) k (b # t) = (glob_then atoms k (b # t) \<or> glob_then (Star # atoms) k t)"
| "glob_then (a # atoms) k t =
     (case consumes a t of None \<Rightarrow> False | Some n \<Rightarrow> glob_then atoms k (drop n t))"

lemma glob_spec_then: "glob_spec atoms t \<longleftrightarrow> glob_then atoms (\<lambda>t. t = []) t"
  by (induction atoms t rule: glob_spec.induct) (auto split: option.splits)

lemma glob_then_append: "glob_then (xs @ ys) k t \<longleftrightarrow> glob_then xs (glob_then ys k) t"
  by (induction xs "glob_then ys k" t rule: glob_then.induct) (auto split: option.splits)

lemma glob_then_Star: "glob_then [Star] k t \<longleftrightarrow> k t \<or> (t \<noteq> [] \<and> glob_then [Star] k (tl t))"
  by (cases t) auto

lemma glob_then_Star_idem: "glob_then [Star] (glob_then [Star] k) t \<longleftrightarrow> glob_then [Star] k t"
  by (induction t) auto

definition literal_then :: "bytes \<Rightarrow> (bytes \<Rightarrow> bool) \<Rightarrow> bytes \<Rightarrow> bool" where
  "literal_then literal k t \<longleftrightarrow> starts_with t literal \<and> k (drop (length literal) t)"

lemma literal_then_Nil [simp]: "literal_then [] k = k"
  by (simp add: literal_then_def starts_with_def fun_eq_iff)

lemma glob_then_flush: "glob_then (flush_literal atoms literal) k t \<longleftrightarrow> glob_then atoms (literal_then literal k) t"
proof (cases "literal = []")
  case True
  then have "literal_then literal k = k" by (simp add: literal_then_def starts_with_def fun_eq_iff)
  with True show ?thesis by (simp add: flush_literal_def)
next
  case False
  then have "glob_then (flush_literal atoms literal) k t \<longleftrightarrow> glob_then atoms (glob_then [Literal literal] k) t"
    by (simp add: flush_literal_def glob_then_append)
  also have "glob_then [Literal literal] k = literal_then literal k"
    by (auto simp: literal_then_def fun_eq_iff)
  finally show ?thesis .
qed

lemma literal_then_snoc:
  "literal_then (literal @ [b]) k t \<longleftrightarrow> literal_then literal (\<lambda>t. t \<noteq> [] \<and> hd t = b \<and> k (tl t)) t"
proof (cases "length literal < length t")
  case True
  then obtain u v where t: "t = u @ v" "length u = length literal" "v \<noteq> []"
    by (metis append_take_drop_id drop_eq_Nil leD length_take min.absorb4)
  then show ?thesis by (cases v) (auto simp: literal_then_def starts_with_def)
next
  case False
  then show ?thesis
    by (auto simp: literal_then_def starts_with_def dest: arg_cong [where f = length])
qed

lemma wf_glob_append [simp]: "wf_glob (xs @ ys) \<longleftrightarrow> wf_glob xs \<and> wf_glob ys"
  by (auto simp: wf_glob_def)

lemma wf_glob_single [simp]: "wf_glob [Star]" "wf_glob [Any]" "wf_glob [Class c]" "wf_glob []"
  by (auto simp: wf_glob_def)

lemma wf_flush_literal [wf_intros]: "wf_glob atoms \<Longrightarrow> wf_glob (flush_literal atoms literal)"
  by (auto simp: flush_literal_def wf_glob_def)

lemma compile_atoms_wf [wf_intros]:
  "compile_atoms part syn at atoms literal = Glob glob \<Longrightarrow> wf_glob atoms \<Longrightarrow> wf_glob glob"
proof (induction "length part - at" arbitrary: at atoms literal rule: less_induct)
  case less
  from less.prems show ?case
    by (subst (asm) compile_atoms.simps)
       (auto simp: Let_def wf_intros split: if_splits option.splits
             dest!: compile_class_next intro: less.hyps [rotated])
qed

lemma compile_component_wf [wf_intros]: "compile_component part anchored syn = Glob glob \<Longrightarrow> wf_glob glob"
  by (auto simp: compile_component_def split: if_splits intro: wf_intros)


text \<open>What the rest of the component accepts, after one more pattern byte.\<close>

lemma part_spec_end: "length part \<le> at \<Longrightarrow> part_spec part syn at = (\<lambda>t. t = [])"
  by (rule ext, subst part_spec.simps) simp

lemma part_spec_star:
  assumes "at < length part" "pb_is (part ! at) 0x2A"
  shows "part_spec part syn at = glob_then [Star] (part_spec part syn (Suc at))"
proof (rule ext)
  show "part_spec part syn at t = glob_then [Star] (part_spec part syn (Suc at)) t" for t
    using assms by (induction t; subst part_spec.simps; simp)
qed

lemma part_spec_any:
  assumes "at < length part" "pb_is (part ! at) 0x3F"
  shows "part_spec part syn at = glob_then [Any] (part_spec part syn (Suc at))"
  using assms by (intro ext, subst part_spec.simps) (auto simp: pb_is_def split: list.splits)

lemma part_spec_class:
  assumes "at < length part" "pb_is (part ! at) 0x5B" "compile_class part at syn = Some (c, nx)"
  shows "part_spec part syn at = glob_then [Class c] (part_spec part syn nx)"
  using assms by (intro ext, subst part_spec.simps) (auto simp: pb_is_def split: list.splits)

lemma part_spec_byte:
  assumes "at < length part" "\<not> pb_is (part ! at) 0x2A" "\<not> pb_is (part ! at) 0x3F" "\<not> pb_is (part ! at) 0x5B"
  shows "part_spec part syn at =
     (\<lambda>t. t \<noteq> [] \<and> hd t = pb_value (part ! at) \<and> part_spec part syn (Suc at) (tl t))"
  using assms by (intro ext, subst part_spec.simps) (auto split: list.splits)

lemma last_Star_absorbs:
  assumes "atoms \<noteq> [] \<and> last atoms = Star"
  shows "glob_then atoms (glob_then [Star] k) t \<longleftrightarrow> glob_then atoms k t"
proof -
  obtain xs where xs: "atoms = xs @ [Star]" using assms by (metis append_butlast_last_id)
  have "glob_then [Star] (glob_then [Star] k) = glob_then [Star] k"
    by (rule ext) (rule glob_then_Star_idem)
  then show ?thesis unfolding xs glob_then_append by simp
qed

lemma glob_then_push_star:
  "glob_then (if fl \<noteq> [] \<and> last fl = Star then fl else fl @ [Star]) k t \<longleftrightarrow>
     glob_then fl (glob_then [Star] k) t"
  using last_Star_absorbs [of fl k t] by (cases "fl \<noteq> [] \<and> last fl = Star") (auto simp: glob_then_append)

text \<open>One iteration of the compiler, by the kind of the pattern byte.\<close>

lemma compile_atoms_end: "length part \<le> at \<Longrightarrow> compile_atoms part syn at atoms literal = Glob (flush_literal atoms literal)"
  by (subst compile_atoms.simps) simp

lemma compile_atoms_star:
  "at < length part \<Longrightarrow> pb_is (part ! at) 0x2A \<Longrightarrow>
     compile_atoms part syn at atoms literal =
     (let fl = flush_literal atoms literal in
      compile_atoms part syn (Suc at) (if fl \<noteq> [] \<and> last fl = Star then fl else fl @ [Star]) [])"
  by (subst compile_atoms.simps) (simp add: pb_is_def Let_def)

lemma compile_atoms_any:
  "at < length part \<Longrightarrow> pb_is (part ! at) 0x3F \<Longrightarrow>
     compile_atoms part syn at atoms literal =
     compile_atoms part syn (Suc at) (flush_literal atoms literal @ [Any]) []"
  by (subst compile_atoms.simps) (simp add: pb_is_def Let_def)

lemma compile_atoms_class:
  "at < length part \<Longrightarrow> pb_is (part ! at) 0x5B \<Longrightarrow>
     compile_atoms part syn at atoms literal =
     (case compile_class part at syn of None \<Rightarrow> Never
      | Some (c, nx) \<Rightarrow> compile_atoms part syn nx (flush_literal atoms literal @ [Class c]) [])"
  by (subst compile_atoms.simps) (simp add: pb_is_def Let_def)

lemma compile_atoms_byte:
  assumes "at < length part" "\<not> pb_is (part ! at) 0x2A" "\<not> pb_is (part ! at) 0x3F" "\<not> pb_is (part ! at) 0x5B"
  shows "compile_atoms part syn at atoms literal =
     compile_atoms part syn (Suc at) atoms (literal @ [pb_value (part ! at)])"
  using assms by (subst compile_atoms.simps) (auto simp: pb_is_def Let_def)

lemmas part_spec_step = part_spec_end part_spec_star part_spec_any part_spec_class part_spec_byte
lemmas compile_atoms_step =
  compile_atoms_end compile_atoms_star compile_atoms_any compile_atoms_class compile_atoms_byte

text \<open>The kinds of pattern byte, each with a shorter rest to compile.\<close>

lemma pattern_byte_cases:
  obtains (at_end) "length part \<le> at"
  | (star) "at < length part" "pb_is (part ! at) 0x2A"
  | (any) "at < length part" "pb_is (part ! at) 0x3F"
  | (bad_class) "at < length part" "pb_is (part ! at) 0x5B" "compile_class part at syn = None"
  | (good_class) c nx where "at < length part" "pb_is (part ! at) 0x5B"
      "compile_class part at syn = Some (c, nx)" "length part - nx < length part - at"
  | (byte) "at < length part" "\<not> pb_is (part ! at) 0x2A" "\<not> pb_is (part ! at) 0x3F" "\<not> pb_is (part ! at) 0x5B"
proof (cases "compile_class part at syn")
  case (Some a)
  obtain c nx where a: "a = (c, nx)" by (cases a)
  have "at < length part \<Longrightarrow> length part - nx < length part - at"
    using compile_class_next [of part at syn c nx] Some a by auto
  with that Some a show thesis by (metis not_le)
qed (metis not_le that)

lemma compile_atoms_spec:
  "compile_atoms part syn at atoms literal = Glob glob \<Longrightarrow>
     glob_spec glob t \<longleftrightarrow> glob_then atoms (literal_then literal (part_spec part syn at)) t"
proof (induction "length part - at" arbitrary: at atoms literal rule: less_induct)
  case less
  note step = less.hyps [rotated]
  show ?case
  proof (cases rule: pattern_byte_cases [where part = part and at = at and syn = syn])
    case at_end
    with less.prems show ?thesis
      by (auto simp: glob_spec_then glob_then_flush part_spec_end compile_atoms_end)
  next
    case star
    let ?fl = "flush_literal atoms literal"
    from star less.prems have "compile_atoms part syn (Suc at)
        (if ?fl \<noteq> [] \<and> last ?fl = Star then ?fl else ?fl @ [Star]) [] = Glob glob"
      by (simp only: compile_atoms_star Let_def)
    with star have "glob_spec glob t \<longleftrightarrow> glob_then ?fl (glob_then [Star] (part_spec part syn (Suc at))) t"
      by (subst step) (assumption, simp, simp only: glob_then_push_star literal_then_Nil)
    with star show ?thesis by (simp add: glob_then_flush part_spec_star)
  next
    case any
    with less.prems have "compile_atoms part syn (Suc at) (flush_literal atoms literal @ [Any]) [] = Glob glob"
      by (simp add: compile_atoms_any)
    from step [OF this] any show ?thesis by (simp add: glob_then_append glob_then_flush part_spec_any)
  next
    case bad_class
    with less.prems show ?thesis by (simp add: compile_atoms_class)
  next
    case (good_class c nx)
    with less.prems have "compile_atoms part syn nx (flush_literal atoms literal @ [Class c]) [] = Glob glob"
      by (simp add: compile_atoms_class)
    from step [OF this] good_class show ?thesis by (simp add: glob_then_append glob_then_flush part_spec_class)
  next
    case byte
    with less.prems have "compile_atoms part syn (Suc at) atoms (literal @ [pb_value (part ! at)]) = Glob glob"
      by (simp add: compile_atoms_byte)
    from step [OF this] byte show ?thesis by (simp add: literal_then_snoc [abs_def] part_spec_byte)
  qed
qed

lemma glob_then_False: "(\<And>t. \<not> k t) \<Longrightarrow> \<not> glob_then xs k t"
  by (induction xs k t rule: glob_then.induct) (auto split: option.splits)

text \<open>A component that compiles to \<open>Never\<close> holds a class the parser rejects, and accepts no name.\<close>

lemma compile_atoms_Never: "compile_atoms part syn at atoms literal = Never \<Longrightarrow> \<not> part_spec part syn at t"
proof (induction "length part - at" arbitrary: at atoms literal t rule: less_induct)
  case less
  note step = less.hyps [rotated]
  show ?case
  proof (cases rule: pattern_byte_cases [where part = part and at = at and syn = syn])
    case at_end
    with less.prems show ?thesis by (simp add: compile_atoms_end)
  next
    case star
    with less.prems show ?thesis
      by (simp only: compile_atoms_star Let_def part_spec_star) (rule glob_then_False, erule step, simp)
  next
    case any
    with less.prems show ?thesis
      by (simp only: compile_atoms_any part_spec_any) (rule glob_then_False, erule step, simp)
  next
    case bad_class
    then show ?thesis by (subst part_spec.simps) (auto simp: pb_is_def split: list.splits)
  next
    case (good_class c nx)
    with less.prems have "compile_atoms part syn nx (flush_literal atoms literal @ [Class c]) [] = Never"
      by (simp add: compile_atoms_class)
    with good_class show ?thesis
      by (simp only: part_spec_class) (rule glob_then_False, erule step, simp)
  next
    case byte
    with less.prems have "compile_atoms part syn (Suc at) atoms (literal @ [pb_value (part ! at)]) = Never"
      by (simp add: compile_atoms_byte)
    with byte show ?thesis by (simp add: part_spec_byte step)
  qed
qed

lemma compile_atoms_not_Globstar [simp]: "compile_atoms part syn at atoms literal \<noteq> Globstar z"
proof (induction "length part - at" arbitrary: at atoms literal rule: less_induct)
  case less
  then show ?case
    by (cases rule: pattern_byte_cases [where part = part and at = at and syn = syn])
       (simp_all add: compile_atoms_step Let_def)
qed

lemma compile_component_spec:
  assumes "part \<noteq> []" and "\<not> (anchored \<and> 2 \<le> length part \<and> list_all (\<lambda>b. pb_is b 0x2A) part)"
  shows "component_matches (compile_component part anchored syn) t \<longleftrightarrow> part_spec part syn 0 t"
proof (cases "compile_component part anchored syn")
  case (Globstar z)
  with assms show ?thesis by (auto simp: compile_component_def split: if_splits)
next
  case (Glob glob)
  with assms have "glob_spec glob t \<longleftrightarrow> part_spec part syn 0 t"
    by (auto simp: compile_component_def compile_atoms_spec)
  with Glob show ?thesis by (simp add: glob_matches_spec wf_intros)
next
  case Never
  with assms show ?thesis by (auto simp: compile_component_def compile_atoms_Never)
qed

section \<open>Properties\<close>

text \<open>
  C17: the last-star retry loop of \<open>matches_observed\<close> terminates on every
  compiled glob and every name, within (name length + 1) times (atom count + 1)
  observed steps, and answers whether the atoms can be laid over the whole name.
\<close>

theorem glob_matcher_decides:
  assumes "wf_glob atoms"
  shows "\<exists>steps. matches_observed atoms name = Some (glob_spec atoms name, steps) \<and>
                 steps \<le> (length name + 1) * (length atoms + 1)"
  using matches_observed_returns [OF assms] .

theorem glob_matcher_decides_witness:
  "wf_glob [Star, Literal [0x62], Any] \<and>
   (\<exists>steps. matches_observed [Star, Literal [0x62], Any] [0x62, 0x62, 0x63] = Some (True, steps) \<and> steps \<le> 16)"
  using glob_matcher_decides [of "[Star, Literal [0x62], Any]" "[0x62, 0x62, 0x63]"]
  by (simp add: wf_glob_def starts_with_def numeral_eq_Suc)

text \<open>
  C18: compiling a component and matching with the compiled atoms accepts
  exactly the names its pattern bytes stand for, escapes, wildcards and
  classes included; a malformed class accepts nothing. (A run of two or more
  bare stars in an anchored pattern is a globstar and is not matched against
  one name.)
\<close>

theorem component_compiler_correct:
  assumes "part \<noteq> []" "\<not> (anchored \<and> 2 \<le> length part \<and> list_all (\<lambda>b. pb_is b 0x2A) part)"
  shows "component_matches (compile_component part anchored syn) name \<longleftrightarrow> part_spec part syn 0 name"
  using compile_component_spec [OF assms] .

theorem component_compiler_correct_witness:
  "component_matches (compile_component [\<lparr>pb_value = 0x2A, pb_escaped = True\<rparr>, \<lparr>pb_value = 0x3F, pb_escaped = False\<rparr>] True Ignore_Syntax)
     [0x2A, 0x61] \<longleftrightarrow>
   part_spec [\<lparr>pb_value = 0x2A, pb_escaped = True\<rparr>, \<lparr>pb_value = 0x3F, pb_escaped = False\<rparr>] Ignore_Syntax 0 [0x2A, 0x61]"
  by (rule component_compiler_correct) (simp_all add: pb_is_def)

end
