(* ===== verification/Bit_Words.thy ===== *)
theory Bit_Words
  imports Ferret_Prelude
begin

unbundle bit_operations_syntax

text \<open>
  Sets of small numbers kept as vectors of \<open>u64\<close> words, as the cursor marks of
  \<open>gitignore/pattern.rs\<close>, the document sets of \<open>ferret-index/src/live.rs\<close> and
  other components keep them: reading, setting and clearing one bit, and
  walking the set bits with \<open>trailing_zeros\<close> and \<open>rest &= rest - 1\<close>. The
  lemmas reduce each operation to its effect on the set of members.
\<close>

type_synonym u64 = "64 word"

section \<open>One word\<close>

text \<open>\<open>u64::trailing_zeros\<close>.\<close>

definition trailing_zeros :: "u64 \<Rightarrow> nat" where
  "trailing_zeros w = length (takeWhile (\<lambda>i. \<not> bit w i) [0..<64])"

lemma trailing_zeros_bit:
  assumes "w \<noteq> 0"
  shows "trailing_zeros w < 64" "bit w (trailing_zeros w)" "n < trailing_zeros w \<Longrightarrow> \<not> bit w n"
proof -
  let ?p = "\<lambda>i. \<not> bit w i"
  obtain i where i: "i < 64" "bit w i"
    using assms by (auto simp: bit_eq_iff bit_imp_le_length dest: bit_imp_le_length)
  then have "takeWhile ?p [0..<64] \<noteq> [0..<64]"
    by (auto simp: takeWhile_eq_all_conv)
  then have "length (takeWhile ?p [0..<64]) < length [0..<64]"
    by (metis length_takeWhile_le nat_less_le takeWhile_eq_take take_all_iff order_refl)
  then show lt: "trailing_zeros w < 64" by (simp add: trailing_zeros_def)
  show "bit w (trailing_zeros w)"
    using nth_length_takeWhile [of ?p "[0..<64]"] lt by (simp add: trailing_zeros_def)
  show "\<not> bit w n" if "n < trailing_zeros w"
    using that nth_mem [of n "takeWhile ?p [0..<64]"] lt
    by (auto simp: trailing_zeros_def takeWhile_nth dest: set_takeWhileD)
qed

lemma clear_lowest:
  assumes "w \<noteq> (0 :: u64)"
  shows "bit (w AND (w - 1)) n \<longleftrightarrow> bit w n \<and> n \<noteq> trailing_zeros w"
proof -
  let ?k = "trailing_zeros w" and ?hi = "unset_bit (trailing_zeros w) w"
  note k = trailing_zeros_bit [OF assms]
  have "?hi + 2 ^ ?k = ?hi OR 2 ^ ?k"
    by (rule disjunctive_add_eq_or) (auto simp: bit_eq_iff bit_simps)
  also have "\<dots> = w"
    using k(1,2) by (intro bit_word_eqI) (auto simp: bit_simps)
  finally have "w - 1 = ?hi + mask ?k"
    by (simp add: mask_eq_exp_minus_1 algebra_simps)
  also have "\<dots> = ?hi OR mask ?k"
    using k(3) by (intro disjunctive_add_eq_or) (auto simp: bit_eq_iff bit_simps)
  finally show ?thesis
    using k by (auto simp: bit_simps)
qed

lemma clear_lowest_less: "w \<noteq> (0 :: u64) \<Longrightarrow> unat (w AND (w - 1)) < unat w"
  by (metis (no_types) word_and_le1 and.commute word_le_nat_alt le_less_trans measure_unat)

text \<open>
  The loop \<open>while rest != 0 { bit = rest.trailing_zeros(); rest &= rest - 1; ... }\<close>:
  the set bits, lowest first.
\<close>

function word_bits :: "u64 \<Rightarrow> nat list" where
  "word_bits rest = (if rest = 0 then [] else trailing_zeros rest # word_bits (rest AND (rest - 1)))"
  by pat_completeness auto
termination
  by (relation "measure unat") (auto simp: clear_lowest_less)

declare word_bits.simps [simp del]

lemma word_bits_filter: "word_bits w = filter (bit w) [0..<64]"
proof (induction w rule: word_bits.induct)
  case (1 w)
  show ?case
  proof (cases "w = 0")
    case True
    then show ?thesis by (simp add: word_bits.simps)
  next
    case False
    let ?k = "trailing_zeros w"
    note k = trailing_zeros_bit [OF False]
    have split: "[0..<64] = [0..<?k] @ ?k # [Suc ?k..<64]"
      using k(1) upt_add_eq_append [of 0 ?k "64 - ?k"] by (simp add: upt_conv_Cons)
    have "filter (bit w) [0..<64] = ?k # filter (bit w) [Suc ?k..<64]"
      unfolding split using k(2,3) by simp
    moreover have "filter (bit (w AND (w - 1))) [0..<64] = filter (bit w) [Suc ?k..<64]"
      unfolding split using k(3) by (auto simp: clear_lowest [OF False] intro!: filter_cong)
    ultimately show ?thesis
      using "1.IH" [OF False] False by (simp add: word_bits.simps [of w])
  qed
qed

section \<open>Sequences of words\<close>

text \<open>
  A set of small numbers as a vector of words: number \<open>n\<close> is bit \<open>n % 64\<close> of
  word \<open>n / 64\<close>. The sources index with \<open>words[n / 64]\<close>, so setting a bit is
  only asked for a number the vector has room for.
\<close>

definition bits_get :: "u64 list \<Rightarrow> nat \<Rightarrow> bool" where
  "bits_get ws n \<longleftrightarrow> n div 64 < length ws \<and> bit (ws ! (n div 64)) (n mod 64)"

definition bits_set :: "u64 list \<Rightarrow> nat \<Rightarrow> u64 list" where
  "bits_set ws n = ws[n div 64 := ws ! (n div 64) OR push_bit (n mod 64) 1]"

definition bits_clear :: "u64 list \<Rightarrow> nat \<Rightarrow> u64 list" where
  "bits_clear ws n = ws[n div 64 := ws ! (n div 64) AND NOT (push_bit (n mod 64) 1)]"

definition bits_list :: "u64 list \<Rightarrow> nat list" where
  "bits_list ws = concat (map (\<lambda>(w, bits). map (\<lambda>b. w * 64 + b) (word_bits bits)) (enumerate 0 ws))"

definition bits_room :: "u64 list \<Rightarrow> nat \<Rightarrow> bool" where
  "bits_room ws n \<longleftrightarrow> n div 64 < length ws"

lemma length_bits_set [simp]: "length (bits_set ws n) = length ws"
  by (simp add: bits_set_def)

lemma length_bits_clear [simp]: "length (bits_clear ws n) = length ws"
  by (simp add: bits_clear_def)

lemma same_slot: "m div 64 = n div 64 \<Longrightarrow> m mod 64 = n mod 64 \<longleftrightarrow> m = (n :: nat)"
  by (metis div_mult_mod_eq)

lemma bits_get_set: "bits_room ws n \<Longrightarrow> bits_get (bits_set ws n) m \<longleftrightarrow> m = n \<or> bits_get ws m"
  by (cases "m div 64 = n div 64")
     (auto simp: bits_get_def bits_set_def bits_room_def bit_simps nth_list_update same_slot)

lemma bits_get_clear: "bits_room ws n \<Longrightarrow> bits_get (bits_clear ws n) m \<longleftrightarrow> m \<noteq> n \<and> bits_get ws m"
  by (cases "m div 64 = n div 64")
     (auto simp: bits_get_def bits_clear_def bits_room_def bit_simps nth_list_update same_slot)

lemma bits_get_zero [simp]: "\<not> bits_get (replicate k 0) n"
  by (simp add: bits_get_def)

lemma bits_list_filter: "bits_list ws = filter (bits_get ws) [0..<64 * length ws]"
proof (induction ws rule: rev_induct)
  case Nil
  then show ?case by (simp add: bits_list_def)
next
  case (snoc w ws)
  let ?n = "length ws"
  have same: "filter (bits_get (ws @ [w])) [0..<64 * ?n] = filter (bits_get ws) [0..<64 * ?n]"
    by (rule filter_cong) (auto simp: bits_get_def nth_append)
  have "[64 * ?n..<64 * Suc ?n] = map (\<lambda>b. b + 64 * ?n) [0..<64]"
    by (simp only: map_add_upt mult_Suc_right)
  then have "filter (bits_get (ws @ [w])) [64 * ?n..<64 * Suc ?n] =
      map (\<lambda>b. b + 64 * ?n) (filter (bits_get (ws @ [w]) \<circ> (\<lambda>b. b + 64 * ?n)) [0..<64])"
    by (simp only: filter_map)
  also have "filter (bits_get (ws @ [w]) \<circ> (\<lambda>b. b + 64 * ?n)) [0..<64] = filter (bit w) [0..<64]"
    by (rule filter_cong) (auto simp: bits_get_def)
  finally have last: "filter (bits_get (ws @ [w])) [64 * ?n..<64 * Suc ?n] =
      map (\<lambda>b. ?n * 64 + b) (word_bits w)"
    by (simp add: word_bits_filter mult.commute add.commute)
  have "[0..<64 * length (ws @ [w])] = [0..<64 * ?n] @ [64 * ?n..<64 * Suc ?n]"
    using upt_add_eq_append [of 0 "64 * ?n" 64] by (simp add: add.commute [of 64])
  with snoc same last show ?case
    by (simp add: bits_list_def enumerate_append_eq)
qed

lemma set_bits_list: "set (bits_list ws) = {n. bits_get ws n}"
  by (auto simp: bits_list_filter bits_get_def)

lemma sorted_bits_list: "sorted_wrt (<) (bits_list ws)"
  by (simp add: bits_list_filter sorted_wrt_filter strict_sorted_iff)

end
