(* ===== verification/Pattern.thy ===== *)
theory Pattern
  imports Glob Bit_Words
begin

text \<open>
  One gitignore pattern (\<open>ferret-policy/src/gitignore/pattern.rs\<close>): splitting a
  line into components, compiling it, and applying an anchored pattern one
  directory at a time with cursors. A cursor is a position in the component
  list, with \<open>fed\<close> saying that the globstar it stands on has already taken a
  directory; positions reached in one step are collected in bit sets
  (\<open>marks\<close>). A \<open>&str\<close> is its UTF-8 bytes; the \<open>OnceLock\<close> that caches
  \<open>projections\<close> holds no information of its own and has no field here.

  Results: stepping the cursors through the parents of a path and projecting
  them onto its last name decides the declarative relation \<open>path_spec\<close>;
  collapsing runs of \<open>**/\<close> keeps that relation; a step's work is bounded.
\<close>

unbundle bit_operations_syntax

section \<open>Data\<close>

datatype match_result = Ignore | Whitelist

record pattern =
  pt_index :: nat
  pt_result :: match_result
  directory_only :: bool
  basename_only :: bool
  components :: "component list"

datatype pattern_error = Trailing_backslash | No_component | Invalid_class

record split_pattern =
  leading_separator :: bool
  trailing_separator :: bool
  parts :: "pattern_byte list list"
  separators :: "bool list"
  escaped_edge :: bool

record rule_text =
  rt_glob :: "component_glob option"
  rt_whitelist :: bool
  rt_directory_only :: bool

section \<open>Parsing a line\<close>

definition trailing_backslashes :: "bytes \<Rightarrow> nat" where
  "trailing_backslashes bytes_before = length (takeWhile (\<lambda>b. b = 0x5C) (rev bytes_before))"

function trim_trailing_spaces :: "bytes \<Rightarrow> bytes" where
  "trim_trailing_spaces line =
     (if line \<noteq> [] \<and> last line = 0x20 \<and> even (trailing_backslashes (butlast line))
      then trim_trailing_spaces (butlast line) else line)"
  by pat_completeness auto
termination
  by (relation "measure length") (auto simp: length_greater_0_conv [symmetric] simp del: length_greater_0_conv)

declare trim_trailing_spaces.simps [simp del]

definition push_byte :: "pattern_byte list list \<Rightarrow> byte \<Rightarrow> bool \<Rightarrow> pattern_error + pattern_byte list list" where
  "push_byte ps value escaped =
     (if ps = [] then Inl No_component
      else Inr (butlast ps @ [last ps @ [\<lparr>pb_value = value, pb_escaped = escaped\<rparr>]]))"

fun split_loop ::
  "bytes \<Rightarrow> pattern_byte list list \<Rightarrow> bool list \<Rightarrow> pattern_error + (pattern_byte list list \<times> bool list)"
where
  "split_loop [] ps seps = Inr (ps, seps)"
| "split_loop (b # rest) ps seps =
     (if b = 0x5C then
        (case rest of
           [] \<Rightarrow> Inl Trailing_backslash
         | escaped # rest \<Rightarrow>
             if escaped = 0x2F then split_loop rest (ps @ [[]]) (seps @ [False])
             else (case push_byte ps escaped True of
                     Inl e \<Rightarrow> Inl e | Inr ps \<Rightarrow> split_loop rest ps seps))
      else if b = 0x2F then split_loop rest (ps @ [[]]) (seps @ [True])
      else (case push_byte ps b False of Inl e \<Rightarrow> Inl e | Inr ps \<Rightarrow> split_loop rest ps seps))"

definition split_components :: "bytes \<Rightarrow> pattern_error + split_pattern" where
  "split_components pat =
     (case split_loop pat [[]] [] of
        Inl e \<Rightarrow> Inl e
      | Inr (ps, seps) \<Rightarrow>
          (let leading = (ps \<noteq> [] \<and> hd ps = [] \<and> 1 < length ps \<and> seps \<noteq> [] \<and> hd seps);
               edge = (starts_with pat [0x5C, 0x2F] \<or> ends_with pat [0x5C, 0x2F]);
               ps = (if leading then tl ps else ps);
               seps = (if leading then tl seps else seps);
               trailing = (ps \<noteq> [] \<and> last ps = [] \<and> 1 < length ps \<and> seps \<noteq> [] \<and> last seps)
           in Inr \<lparr>leading_separator = leading, trailing_separator = trailing,
                   parts = (if trailing then butlast ps else ps),
                   separators = (if trailing then butlast seps else seps),
                   escaped_edge = edge\<rparr>))"

fun set_allow_zero :: "bool list \<Rightarrow> component list \<Rightarrow> component list" where
  "set_allow_zero seps [] = []"
| "set_allow_zero seps (c # cs) =
     (case c of Globstar _ \<Rightarrow> Globstar (case seps of s # _ \<Rightarrow> s | [] \<Rightarrow> True) | _ \<Rightarrow> c)
     # set_allow_zero (tl seps) cs"

text \<open>\<open>dedup_by\<close>: an element is dropped when it and the last kept one are zero-allowing globstars.\<close>

fun dedup_globstars :: "component list \<Rightarrow> component list" where
  "dedup_globstars (a # b # cs) =
     (if a = Globstar True \<and> b = Globstar True then dedup_globstars (a # cs)
      else a # dedup_globstars (b # cs))"
| "dedup_globstars cs = cs"

definition compile_syntax :: "nat \<Rightarrow> bytes \<Rightarrow> glob_syntax \<Rightarrow> pattern_error + pattern option" where
  "compile_syntax index original syn =
     (let line = trim_trailing_spaces original in
      if line = [] \<or> hd line = 0x23 then Inr None
      else if line = [0x21] then Inr None
      else
        (let (result, body) = (if hd line = 0x21 then (Whitelist, tl line) else (Ignore, line)) in
         case split_components body of
           Inl e \<Rightarrow> Inl e
         | Inr parsed \<Rightarrow>
             if parts parsed = [] then Inr None
             else
               (let base = (\<not> leading_separator parsed \<and> length (parts parsed) = 1);
                    cs = map (\<lambda>part. compile_component part (\<not> base) syn) (parts parsed)
                in if syn = Override_Syntax \<and> Never \<in> set cs then Inl Invalid_class
                   else
                     (let cs = (if escaped_edge parsed \<and> cs \<noteq> [] then Never # tl cs else cs);
                          cs = dedup_globstars (set_allow_zero (separators parsed) cs)
                      in Inr (Some \<lparr>pt_index = index, pt_result = result,
                                    directory_only = trailing_separator parsed,
                                    basename_only = base, components = cs\<rparr>)))))"

definition compile_pattern :: "nat \<Rightarrow> bytes \<Rightarrow> pattern_error + pattern option" where
  "compile_pattern index original = compile_syntax index original Ignore_Syntax"

definition compile_override :: "bytes \<Rightarrow> pattern_error + pattern option" where
  "compile_override original = compile_syntax 0 original Override_Syntax"

section \<open>Shapes of a basename pattern\<close>

definition matches_name :: "pattern \<Rightarrow> bytes \<Rightarrow> bool \<Rightarrow> bool" where
  "matches_name p name is_dir \<longleftrightarrow>
     (\<not> directory_only p \<or> is_dir) \<and> component_matches (hd (components p)) name"

definition is_whitelist :: "pattern \<Rightarrow> bool" where
  "is_whitelist p \<longleftrightarrow> pt_result p = Whitelist"

definition basename_glob :: "pattern \<Rightarrow> component_glob option" where
  "basename_glob p =
     (case components p of [Glob glob] \<Rightarrow> if basename_only p then Some glob else None | _ \<Rightarrow> None)"

definition literal_basename :: "pattern \<Rightarrow> bytes option" where
  "literal_basename p = Option.bind (basename_glob p) literal_bytes"

definition simple_extension :: "pattern \<Rightarrow> bytes option" where
  "simple_extension p =
     (case basename_glob p of
        Some [Star, Literal sfx] \<Rightarrow>
          if length sfx < 2 \<or> hd sfx \<noteq> 0x2E \<or> 0x2E \<in> set (tl sfx) then None else Some sfx
      | _ \<Rightarrow> None)"

definition basename_prefix :: "pattern \<Rightarrow> bytes option" where
  "basename_prefix p =
     (case basename_glob p of Some [Literal pfx, Star] \<Rightarrow> Some pfx | _ \<Rightarrow> None)"

definition basename_suffix :: "pattern \<Rightarrow> bytes option" where
  "basename_suffix p =
     (case basename_glob p of Some [Star, Literal sfx] \<Rightarrow> Some sfx | _ \<Rightarrow> None)"

definition basename_contains :: "pattern \<Rightarrow> bytes option" where
  "basename_contains p =
     (case basename_glob p of Some [Star, Literal needle, Star] \<Rightarrow> Some needle | _ \<Rightarrow> None)"

fun sum_widths :: "component_glob \<Rightarrow> nat option" where
  "sum_widths [] = Some 0"
| "sum_widths (a # atoms) =
     (case fixed_width a of None \<Rightarrow> None | Some w \<Rightarrow> map_option ((+) w) (sum_widths atoms))"

definition fixed_basename_suffix_width :: "pattern \<Rightarrow> nat option" where
  "fixed_basename_suffix_width p =
     (case basename_glob p of Some (Star # atoms) \<Rightarrow> sum_widths atoms | _ \<Rightarrow> None)"

fun consume_all :: "component_glob \<Rightarrow> bytes \<Rightarrow> bool" where
  "consume_all [] rest = (rest = [])"
| "consume_all (a # atoms) rest =
     (case consumes a rest of None \<Rightarrow> False | Some n \<Rightarrow> consume_all atoms (drop n rest))"

definition matches_fixed_basename_suffix :: "pattern \<Rightarrow> bytes \<Rightarrow> bool \<Rightarrow> nat \<Rightarrow> bool" where
  "matches_fixed_basename_suffix p name is_dir width =
     (if directory_only p \<and> \<not> is_dir then False
      else (case basename_glob p of
              None \<Rightarrow> False
            | Some glob \<Rightarrow>
                (case checked_sub (length name) width of
                   None \<Rightarrow> False
                 | Some start \<Rightarrow> consume_all (tl glob) (drop start name))))"

definition is_anchored_reinclude :: "pattern \<Rightarrow> bool" where
  "is_anchored_reinclude p \<longleftrightarrow>
     pt_result p = Whitelist \<and> \<not> basename_only p \<and> 2 \<le> length (components p) \<and>
     \<not> is_Globstar (hd (components p)) \<and> list_all component_has_witness (components p)"

definition is_superseded_by :: "pattern \<Rightarrow> pattern \<Rightarrow> bool" where
  "is_superseded_by p later \<longleftrightarrow>
     pt_result p = Whitelist \<and> pt_result later = Ignore \<and>
     basename_only p = basename_only later \<and> components p = components later \<and>
     (\<not> directory_only later \<or> directory_only p)"

definition is_shared_basename :: "pattern \<Rightarrow> bool" where
  "is_shared_basename p \<longleftrightarrow>
     basename_only p \<or> (case components p of [Globstar z, _] \<Rightarrow> z | _ \<Rightarrow> False)"

definition as_basename :: "pattern \<Rightarrow> component_glob \<Rightarrow> pattern" where
  "as_basename p glob =
     \<lparr>pt_index = pt_index p, pt_result = pt_result p, directory_only = directory_only p,
      basename_only = True, components = [Glob glob]\<rparr>"

definition renumbered :: "pattern \<Rightarrow> nat \<Rightarrow> pattern" where
  "renumbered p index = p\<lparr>pt_index := index\<rparr>"

definition pattern_text :: "pattern \<Rightarrow> rule_text" where
  "pattern_text p =
     \<lparr>rt_glob = (case hd (components p) of Glob glob \<Rightarrow> Some glob | _ \<Rightarrow> None),
      rt_whitelist = is_whitelist p, rt_directory_only = directory_only p\<rparr>"

section \<open>Marks\<close>

record marks =
  reached :: "u64 list"
  fed_bits :: "u64 list"
  expanded :: "u64 list"

definition marks_new :: "nat \<Rightarrow> marks" where
  "marks_new count =
     (let words = (count + 63) div 64 in
      \<lparr>reached = replicate words 0, fed_bits = replicate words 0, expanded = replicate words 0\<rparr>)"

definition mark :: "marks \<Rightarrow> nat \<Rightarrow> bool \<Rightarrow> marks" where
  "mark m pos fed =
     (let m = m\<lparr>reached := bits_set (reached m) pos\<rparr> in
      if fed then m\<lparr>fed_bits := bits_set (fed_bits m) pos\<rparr> else m)"

definition expand :: "marks \<Rightarrow> nat \<Rightarrow> bool \<times> marks" where
  "expand m pos =
     ((expanded m ! (pos div 64)) AND push_bit (pos mod 64) 1 = 0,
      m\<lparr>expanded := bits_set (expanded m) pos\<rparr>)"

definition drain :: "marks \<Rightarrow> (nat \<times> bool) list \<times> nat" where
  "drain m =
     (concat (map (\<lambda>(word, bits).
                map (\<lambda>b. (word * 64 + b, drop_bit b (fed_bits m ! word) AND 1 = 1)) (word_bits bits))
                (enumerate 0 (reached m))),
      length (reached m))"

section \<open>Cursor steps\<close>

type_synonym cursor = "nat \<times> bool"

function step_cursor ::
  "component list \<Rightarrow> bytes \<Rightarrow> nat \<Rightarrow> bool \<Rightarrow> marks \<Rightarrow> nat \<Rightarrow> marks \<times> nat"
where
  "step_cursor cs name pos fed m work =
     (if length cs \<le> pos then (m, work)
      else (case cs ! pos of
              Globstar z \<Rightarrow>
                (let m = mark m pos True in
                 if \<not> (z \<or> fed) then (m, work + 1)
                 else (let (fresh, m) = expand m pos in
                       if \<not> fresh then (m, work + 1)
                       else step_cursor cs name (pos + 1) False m (work + 1)))
            | c \<Rightarrow>
                (if pos + 1 < length cs \<and> component_matches c name then mark m (pos + 1) False else m,
                 work + 1)))"
  by pat_completeness auto
termination
  by (relation "measure (\<lambda>(cs, name, pos, fed, m, work). length cs - pos)") auto

declare step_cursor.simps [simp del]

fun step_cursors ::
  "component list \<Rightarrow> bytes \<Rightarrow> cursor list \<Rightarrow> marks \<Rightarrow> nat \<Rightarrow> marks \<times> nat"
where
  "step_cursors cs name [] m work = (m, work)"
| "step_cursors cs name ((pos, fed) # cursors) m work =
     (let (m, work) = step_cursor cs name pos fed m work in step_cursors cs name cursors m work)"

definition step :: "pattern \<Rightarrow> cursor list \<Rightarrow> bytes \<Rightarrow> cursor list \<times> nat" where
  "step p cursors name =
     (let (m, work) = step_cursors (components p) name cursors (marks_new (length (components p))) 0;
          (out, scanned) = drain m
      in (out, work + scanned))"

section \<open>Projections\<close>

datatype target = ANY | At nat

text \<open>\<open>tail[i]\<close>, filled from the end: what a cursor at \<open>i\<close> that is not fed projects to.\<close>

fun tails :: "component list \<Rightarrow> nat \<Rightarrow> target option list" where
  "tails [] at = []"
| "tails (c # cs) at =
     (let rest = tails cs (at + 1) in
      (case c of
         Globstar z \<Rightarrow> if cs = [] then Some ANY else if z then hd rest else None
       | Glob _ \<Rightarrow> if cs = [] then Some (At at) else None
       | Never \<Rightarrow> None)
      # rest)"

definition project :: "pattern \<Rightarrow> target option \<Rightarrow> pattern option" where
  "project p target =
     (case target of
        None \<Rightarrow> None
      | Some ANY \<Rightarrow> Some (as_basename p any_glob)
      | Some (At at) \<Rightarrow>
          (case components p ! at of
             Glob glob \<Rightarrow> Some (as_basename p (normalize_star glob))
           | _ \<Rightarrow> None))"

definition fed_target :: "component list \<Rightarrow> target option list \<Rightarrow> nat \<Rightarrow> target option" where
  "fed_target cs tail pos =
     (case cs ! pos of
        Globstar _ \<Rightarrow> if pos + 1 = length cs then Some ANY else tail ! (pos + 1)
      | _ \<Rightarrow> None)"

definition projections :: "pattern \<Rightarrow> pattern option list" where
  "projections p =
     (let cs = components p; tail = tails cs 0 in
      concat (map (\<lambda>pos. [project p (tail ! pos), project p (fed_target cs tail pos)]) [0..<length cs]))"

section \<open>Override matching\<close>

fun step_all :: "pattern \<Rightarrow> cursor list \<Rightarrow> bytes list \<Rightarrow> cursor list" where
  "step_all p cursors [] = cursors"
| "step_all p cursors (parent # parents) = step_all p (fst (step p cursors parent)) parents"

definition matches_override :: "pattern \<Rightarrow> bytes list \<Rightarrow> bool \<Rightarrow> bool" where
  "matches_override p names directory =
     (if names = [] then False
      else
        (let name = last names; parents = butlast names in
         if basename_only p then matches_name p name directory
         else
           (let projs = projections p;
                accepts = (\<lambda>i. case projs ! i of Some q \<Rightarrow> matches_name q name directory | None \<Rightarrow> False)
            in if is_shared_basename p then accepts 0
               else list_ex (\<lambda>(pos, fed). accepts (pos * 2 + (if fed then 1 else 0)))
                      (step_all p [(0, False)] parents))))"

definition matches_empty_path :: "pattern \<Rightarrow> bool" where
  "matches_empty_path p =
     (case dropWhile (\<lambda>c. c = Globstar True) (components p) of
        [] \<Rightarrow> True
      | [Glob glob] \<Rightarrow> list_all (\<lambda>a. a = Star) glob
      | _ \<Rightarrow> False)"

section \<open>What a pattern means\<close>

text \<open>
  A component list against the names of a path: a globstar takes whole
  directories, at least one unless it allows zero, and a trailing one at least
  one name; every other component takes one name.
\<close>

fun path_spec :: "component list \<Rightarrow> bytes list \<Rightarrow> bool" where
  "path_spec [] ns = (ns = [])"
| "path_spec [Globstar z] ns = (ns \<noteq> [])"
| "path_spec (Globstar z # c # cs) [] = (z \<and> path_spec (c # cs) [])"
| "path_spec (Globstar z # c # cs) (n # ns) =
     ((z \<and> path_spec (c # cs) (n # ns)) \<or> path_spec (Globstar True # c # cs) ns)"
| "path_spec (c # cs) [] = False"
| "path_spec (c # cs) (n # ns) = (component_matches c n \<and> path_spec cs ns)"

definition pattern_spec :: "pattern \<Rightarrow> bytes list \<Rightarrow> bool \<Rightarrow> bool" where
  "pattern_spec p ns is_dir \<longleftrightarrow>
     ns \<noteq> [] \<and> (\<not> directory_only p \<or> is_dir) \<and>
     (if basename_only p then component_matches (hd (components p)) (last ns)
      else path_spec (components p) ns)"

lemma path_spec_Nil: "cs \<noteq> [] \<Longrightarrow> \<not> path_spec cs []"
  by (induction cs "[] :: bytes list" rule: path_spec.induct) auto

lemma path_spec_Globstar:
  "path_spec (Globstar z # cs) (n # ns) \<longleftrightarrow>
     (if cs = [] then True else (z \<and> path_spec cs (n # ns)) \<or> path_spec (Globstar True # cs) ns)"
  by (cases cs) auto

lemma path_spec_other:
  "\<not> is_Globstar c \<Longrightarrow> path_spec (c # cs) (n # ns) \<longleftrightarrow> component_matches c n \<and> path_spec cs ns"
  by (cases c) auto

lemma path_spec_Globstar_weaken:
  "path_spec (Globstar z # cs) ns \<Longrightarrow> path_spec (Globstar True # cs) ns"
  by (cases ns; cases cs) auto

lemma path_spec_Globstar_skip: "path_spec cs ns \<Longrightarrow> cs \<noteq> [] \<Longrightarrow> path_spec (Globstar True # cs) ns"
  by (cases ns; cases cs) auto

text \<open>\<open>**/**\<close> is \<open>**\<close>: collapsing a run of zero-allowing globstars keeps the relation.\<close>

lemma path_spec_Globstar_twice:
  "path_spec (Globstar True # Globstar True # cs) ns \<longleftrightarrow> path_spec (Globstar True # cs) ns"
proof (induction ns)
  case Nil
  then show ?case using path_spec_Nil by blast
next
  case (Cons n ns)
  then show ?case
    by (cases "cs = []") (auto simp: path_spec_Globstar path_spec_Nil dest: path_spec_Globstar_skip)
qed

lemma path_spec_Cons_cong:
  assumes "\<And>ns. path_spec cs ns \<longleftrightarrow> path_spec ds ns" "cs = [] \<longleftrightarrow> ds = []"
  shows "path_spec (c # cs) ns \<longleftrightarrow> path_spec (c # ds) ns"
proof (cases "is_Globstar c")
  case False
  then show ?thesis using assms by (cases ns) (auto simp: path_spec_other path_spec_Nil)
next
  case True
  then obtain z where c: "c = Globstar z" by (cases c) auto
  have "path_spec (Globstar z # cs) ns \<longleftrightarrow> path_spec (Globstar z # ds) ns" for z
    using assms by (induction ns arbitrary: z) (auto simp: path_spec_Globstar path_spec_Nil)
  then show ?thesis unfolding c .
qed

lemma dedup_globstars_Nil [simp]: "dedup_globstars cs = [] \<longleftrightarrow> cs = []"
  by (induction cs rule: dedup_globstars.induct) auto

lemma path_spec_dedup: "path_spec (dedup_globstars cs) ns \<longleftrightarrow> path_spec cs ns"
proof (induction cs arbitrary: ns rule: dedup_globstars.induct)
  case (1 a b cs)
  show ?case
  proof (cases "a = Globstar True \<and> b = Globstar True")
    case True
    with 1 show ?thesis by (simp add: path_spec_Globstar_twice)
  next
    case False
    with 1 show ?thesis
      by (simp only: dedup_globstars.simps if_False) (rule path_spec_Cons_cong, auto)
  qed
qed auto

section \<open>Marks as sets of positions\<close>

definition marks_ok :: "nat \<Rightarrow> marks \<Rightarrow> bool" where
  "marks_ok count m \<longleftrightarrow>
     length (reached m) = (count + 63) div 64 \<and> length (fed_bits m) = (count + 63) div 64 \<and>
     length (expanded m) = (count + 63) div 64"

abbreviation reached_at :: "marks \<Rightarrow> nat \<Rightarrow> bool" where
  "reached_at m \<equiv> bits_get (reached m)"

abbreviation fed_at :: "marks \<Rightarrow> nat \<Rightarrow> bool" where
  "fed_at m \<equiv> bits_get (fed_bits m)"

abbreviation expanded_at :: "marks \<Rightarrow> nat \<Rightarrow> bool" where
  "expanded_at m \<equiv> bits_get (expanded m)"

lemma marks_room: "pos < count \<Longrightarrow> length ws = (count + 63) div 64 \<Longrightarrow> bits_room ws pos"
  unfolding bits_room_def by simp

lemma marks_new_ok [simp]: "marks_ok count (marks_new count)"
  by (simp add: marks_ok_def marks_new_def Let_def)

lemma marks_new_empty [simp]:
  "\<not> reached_at (marks_new count) n" "\<not> fed_at (marks_new count) n" "\<not> expanded_at (marks_new count) n"
  by (simp_all add: marks_new_def Let_def)

lemma mark_sets:
  assumes "marks_ok count m" "pos < count"
  shows "marks_ok count (mark m pos fed)"
    "reached_at (mark m pos fed) n \<longleftrightarrow> n = pos \<or> reached_at m n"
    "fed_at (mark m pos fed) n \<longleftrightarrow> (fed \<and> n = pos) \<or> fed_at m n"
    "expanded_at (mark m pos fed) n \<longleftrightarrow> expanded_at m n"
  using assms by (auto simp: mark_def Let_def marks_ok_def bits_get_set marks_room)

lemma expand_sets:
  assumes "marks_ok count m" "pos < count"
  shows "fst (expand m pos) \<longleftrightarrow> \<not> expanded_at m pos"
    "marks_ok count (snd (expand m pos))"
    "reached_at (snd (expand m pos)) n \<longleftrightarrow> reached_at m n"
    "fed_at (snd (expand m pos)) n \<longleftrightarrow> fed_at m n"
    "expanded_at (snd (expand m pos)) n \<longleftrightarrow> n = pos \<or> expanded_at m n"
  using assms marks_room [of pos count "expanded m"]
  by (auto simp: expand_def marks_ok_def bits_get_set and_exp_eq_0_iff_not_bit bits_get_def [of "expanded m" pos] bits_room_def)

lemma drop_bit_odd: "(drop_bit b w AND 1 = 1) \<longleftrightarrow> bit w b" for w :: u64
  by (simp add: and_one_eq bit_iff_odd_drop_bit odd_iff_mod_2_eq_one)

lemma drain_list:
  assumes "length (fed_bits m) = length (reached m)"
  shows "fst (drain m) = map (\<lambda>n. (n, fed_at m n)) (bits_list (reached m))"
proof -
  have "(drop_bit b (fed_bits m ! word) AND 1 = 1) = fed_at m (word * 64 + b)"
    if "(word, bits) \<in> set (enumerate 0 (reached m))" "b \<in> set (word_bits bits)" for word bits b
    using that assms
    by (auto simp: word_bits_filter drop_bit_odd bits_get_def in_set_enumerate_eq)
  then show ?thesis
    by (auto simp: drain_def bits_list_def map_concat intro!: arg_cong [where f = concat] map_cong)
qed

section \<open>One step on sets of cursors\<close>

text \<open>
  What visiting a cursor marks, with no bookkeeping of positions already
  expanded: the loop of \<open>step_cursor\<close> adds exactly this to the marks.
\<close>

function effect :: "component list \<Rightarrow> bytes \<Rightarrow> nat \<Rightarrow> bool \<Rightarrow> cursor set" where
  "effect cs name pos fed =
     (if length cs \<le> pos then {}
      else (case cs ! pos of
              Globstar z \<Rightarrow> insert (pos, True) (if z \<or> fed then effect cs name (pos + 1) False else {})
            | c \<Rightarrow> if pos + 1 < length cs \<and> component_matches c name then {(pos + 1, False)} else {}))"
  by pat_completeness auto
termination
  by (relation "measure (\<lambda>(cs, name, pos, fed). length cs - pos)") auto

declare effect.simps [simp del]

definition marked :: "marks \<Rightarrow> cursor set \<Rightarrow> bool" where
  "marked m S \<longleftrightarrow> (\<forall>(pos, fed)\<in>S. reached_at m pos \<and> (fed \<longrightarrow> fed_at m pos))"

definition adds :: "marks \<Rightarrow> cursor set \<Rightarrow> marks \<Rightarrow> bool" where
  "adds m S m' \<longleftrightarrow>
     (\<forall>n. reached_at m' n \<longleftrightarrow> reached_at m n \<or> n \<in> fst ` S) \<and>
     (\<forall>n. fed_at m' n \<longleftrightarrow> fed_at m n \<or> (n, True) \<in> S)"

definition expanded_from :: "component list \<Rightarrow> bytes \<Rightarrow> nat \<Rightarrow> marks \<Rightarrow> bool" where
  "expanded_from cs name pos m \<longleftrightarrow>
     (\<forall>q\<ge>pos. expanded_at m q \<longrightarrow> marked m (effect cs name (Suc q) False))"

lemma adds_marked: "adds m S m' \<Longrightarrow> marked m' S"
  by (force simp: adds_def marked_def)

lemma adds_mono: "adds m S m' \<Longrightarrow> marked m T \<Longrightarrow> marked m' T"
  by (force simp: adds_def marked_def)

lemma adds_refl: "marked m S \<Longrightarrow> adds m S m"
  by (force simp: adds_def marked_def)

lemma adds_trans: "adds m S m1 \<Longrightarrow> adds m1 T m2 \<Longrightarrow> adds m (S \<union> T) m2"
  by (auto simp: adds_def)

lemma effect_bounds: "(q, f) \<in> effect cs name pos fed \<Longrightarrow> q < length cs \<and> (f \<longrightarrow> is_Globstar (cs ! q))"
proof (induction "length cs - pos" arbitrary: pos fed rule: less_induct)
  case less
  from less.prems show ?case
    by (subst (asm) effect.simps) (auto split: if_splits component.splits dest: less.hyps [rotated])
qed

definition step_post :: "component list \<Rightarrow> bytes \<Rightarrow> nat \<Rightarrow> marks \<Rightarrow> cursor set \<Rightarrow> marks \<Rightarrow> bool" where
  "step_post cs name pos m S m' \<longleftrightarrow>
     marks_ok (length cs) m' \<and> adds m S m' \<and> expanded_from cs name pos m' \<and>
     (\<forall>q<pos. expanded_at m' q \<longleftrightarrow> expanded_at m q)"

lemma mark_adds: "marks_ok count m \<Longrightarrow> pos < count \<Longrightarrow> adds m {(pos, fed)} (mark m pos fed)"
  by (auto simp: adds_def mark_sets)

lemma expanded_from_adds:
  assumes "expanded_from cs name pos m" "adds m S m'" "\<And>q. pos \<le> q \<Longrightarrow> expanded_at m' q \<Longrightarrow> expanded_at m q"
  shows "expanded_from cs name pos m'"
  using assms adds_mono unfolding expanded_from_def by blast

lemma step_post_mark:
  assumes "marks_ok (length cs) m" "expanded_from cs name pos m" "q < length cs"
  shows "step_post cs name pos m {(q, fed)} (mark m q fed)"
  using assms expanded_from_adds [OF assms(2) mark_adds [OF assms(1,3)]]
  by (simp add: step_post_def mark_sets mark_adds)

lemma step_post_refl:
  "marks_ok (length cs) m \<Longrightarrow> expanded_from cs name pos m \<Longrightarrow> step_post cs name pos m {} m"
  by (simp add: step_post_def adds_def)

text \<open>A globstar that may continue: already expanded, or expanded now.\<close>

lemma step_post_again:
  assumes m: "marks_ok (length cs) m" "expanded_from cs name pos m" "pos < length cs" and "expanded_at m pos"
  shows "step_post cs name pos m (insert (pos, True) (effect cs name (Suc pos) False)) (snd (expand (mark m pos True) pos))"
proof -
  let ?m = "mark m pos True"
  note sets = mark_sets [OF m(1,3)] expand_sets [OF mark_sets(1) [OF m(1,3)] m(3)]
  have eff: "marked m (effect cs name (Suc pos) False)" using assms by (auto simp: expanded_from_def)
  then have adds: "adds m (insert (pos, True) (effect cs name (Suc pos) False)) (snd (expand ?m pos))"
    by (force simp: adds_def marked_def sets)
  have "expanded_from cs name pos (snd (expand ?m pos))"
    by (rule expanded_from_adds [OF m(2) adds]) (auto simp: sets assms(4))
  with adds show ?thesis using assms(4) by (auto simp: step_post_def sets)
qed

lemma step_post_fresh:
  assumes m: "marks_ok (length cs) m" "expanded_from cs name pos m" "pos < length cs"
    and rest: "step_post cs name (Suc pos) (snd (expand (mark m pos True) pos)) (effect cs name (Suc pos) False) m'"
  shows "step_post cs name pos m (insert (pos, True) (effect cs name (Suc pos) False)) m'"
proof -
  let ?m2 = "snd (expand (mark m pos True) pos)"
  note sets = mark_sets [OF m(1,3)] expand_sets [OF mark_sets(1) [OF m(1,3)] m(3)]
  have "adds m {(pos, True)} ?m2" by (auto simp: adds_def sets)
  with rest have "adds m (insert (pos, True) (effect cs name (Suc pos) False)) m'"
    using adds_trans by (fastforce simp: step_post_def)
  moreover have "expanded_from cs name pos m'"
    using rest adds_marked unfolding step_post_def expanded_from_def
    by (metis Suc_leI le_neq_implies_less)
  ultimately show ?thesis
    using rest by (auto simp: step_post_def sets)
qed

lemma step_cursor_effect:
  assumes "marks_ok (length cs) m" "expanded_from cs name pos m"
  shows "step_post cs name pos m (effect cs name pos fed) (fst (step_cursor cs name pos fed m work))"
  using assms
proof (induction "length cs - pos" arbitrary: pos fed m work rule: less_induct)
  case less
  note m = less.prems
  show ?case
  proof (cases "pos < length cs")
    case False
    then show ?thesis
      using step_post_refl [OF m] by (simp add: effect.simps [of cs name pos] step_cursor.simps [of cs name pos])
  next
    case True
    note eqs = effect.simps [of cs name pos] step_cursor.simps [of cs name pos]
    show ?thesis
    proof (cases "cs ! pos")
      case (Globstar z)
      let ?m1 = "mark m pos True" and ?m2 = "snd (expand (mark m pos True) pos)"
      note sets = mark_sets [OF m(1) True] expand_sets [OF mark_sets(1) [OF m(1) True] True]
      have "adds m {(pos, True)} ?m2" by (auto simp: adds_def sets)
      moreover have "expanded_from cs name (Suc pos) m" using m(2) by (auto simp: expanded_from_def)
      ultimately have from2: "expanded_from cs name (Suc pos) ?m2"
        by (elim expanded_from_adds [rotated]) (auto simp: sets)
      have "length cs - Suc pos < length cs - pos" using True by simp
      note fresh = step_post_fresh [OF m True less.hyps [OF this sets(6) from2, of False "Suc work"]]
      show ?thesis
        using True Globstar step_post_mark [OF m True, of True] step_post_again [OF m True] fresh
        by (cases "z \<or> fed"; cases "expanded_at m pos")
           (simp_all add: eqs Let_def split_beta sets(4,5))
    qed (use True step_post_mark [OF m, of "Suc pos" False] step_post_refl [OF m] in \<open>auto simp: eqs\<close>)
  qed
qed


text \<open>All cursors of one directory, in turn.\<close>

definition effects :: "component list \<Rightarrow> bytes \<Rightarrow> cursor list \<Rightarrow> cursor set" where
  "effects cs name cursors = (\<Union>(pos, fed)\<in>set cursors. effect cs name pos fed)"

lemma step_cursors_effects:
  assumes "marks_ok (length cs) m" "expanded_from cs name 0 m"
  shows "step_post cs name 0 m (effects cs name cursors) (fst (step_cursors cs name cursors m work))"
  using assms
proof (induction cursors arbitrary: m work)
  case Nil
  then show ?case by (simp add: effects_def step_post_refl)
next
  case (Cons c cursors)
  obtain pos fed where c: "c = (pos, fed)" by (cases c)
  let ?m1 = "fst (step_cursor cs name pos fed m work)"
  have "expanded_from cs name pos m" using Cons.prems(2) by (auto simp: expanded_from_def)
  note post = step_cursor_effect [OF Cons.prems(1) this, of fed work]
  then have "expanded_from cs name 0 ?m1"
    using Cons.prems(2) adds_mono unfolding step_post_def expanded_from_def by (metis not_le zero_le)
  with post have "step_post cs name 0 ?m1 (effects cs name cursors)
      (fst (step_cursors cs name cursors ?m1 (snd (step_cursor cs name pos fed m work))))"
    by (intro Cons.IH) (auto simp: step_post_def)
  with post show ?case
    using adds_trans by (fastforce simp: c effects_def step_post_def Let_def split_beta)
qed

text \<open>The cursors a step writes out: each marked position once, in order, fed if marked fed.\<close>

lemma step_out:
  "map fst (fst (step p cursors name)) = filter (\<lambda>n. n \<in> fst ` effects (components p) name cursors) [0..<length (components p)]"
  "(pos, fed) \<in> set (fst (step p cursors name)) \<longleftrightarrow>
     pos \<in> fst ` effects (components p) name cursors \<and> (fed \<longleftrightarrow> (pos, True) \<in> effects (components p) name cursors)"
proof -
  let ?cs = "components p" and ?E = "effects (components p) name cursors"
  define m where "m = fst (step_cursors ?cs name cursors (marks_new (length ?cs)) 0)"
  have "expanded_from ?cs name 0 (marks_new (length ?cs))" by (simp add: expanded_from_def)
  from step_cursors_effects [OF marks_new_ok this, of cursors 0]
  have ok: "marks_ok (length ?cs) m" and sets: "\<And>n. reached_at m n \<longleftrightarrow> n \<in> fst ` ?E"
      "\<And>n. fed_at m n \<longleftrightarrow> (n, True) \<in> ?E"
    by (simp_all add: step_post_def m_def adds_def)
  have out: "fst (step p cursors name) = map (\<lambda>n. (n, fed_at m n)) (bits_list (reached m))"
    using ok drain_list [of m] by (simp add: step_def m_def split_beta Let_def marks_ok_def)
  have bound: "n < length ?cs" if "n \<in> fst ` ?E" for n
    using that effect_bounds by (fastforce simp: effects_def)
  have "length ?cs \<le> 64 * length (reached m)" using ok by (simp add: marks_ok_def)
  then have "[0..<64 * length (reached m)] = [0..<length ?cs] @ [length ?cs..<64 * length (reached m)]"
    by (metis le_add_diff_inverse upt_add_eq_append zero_le)
  moreover have "filter (\<lambda>n. n \<in> fst ` ?E) [length ?cs..<64 * length (reached m)] = []"
    by (metis (no_types, lifting) atLeastLessThan_iff bound filter_False leD set_upt)
  moreover have "reached_at m = (\<lambda>n. n \<in> fst ` ?E)" by (rule ext) (rule sets)
  ultimately have "bits_list (reached m) = filter (\<lambda>n. n \<in> fst ` ?E) [0..<length ?cs]"
    by (simp add: bits_list_filter)
  then show "map fst (fst (step p cursors name)) = filter (\<lambda>n. n \<in> fst ` ?E) [0..<length ?cs]"
    by (simp add: out comp_def)
  show "(pos, fed) \<in> set (fst (step p cursors name)) \<longleftrightarrow> pos \<in> fst ` ?E \<and> (fed \<longleftrightarrow> (pos, True) \<in> ?E)"
    by (auto simp: out set_bits_list sets)
qed


section \<open>Cursors decide the relation\<close>

text \<open>What a cursor stands for: the rest of the pattern, its globstar free to take nothing when fed.\<close>

definition cursor_spec :: "component list \<Rightarrow> cursor \<Rightarrow> bytes list \<Rightarrow> bool" where
  "cursor_spec cs c ns =
     (case c of (pos, fed) \<Rightarrow>
        pos < length cs \<and> path_spec (if fed then Globstar True # drop (Suc pos) cs else drop pos cs) ns)"

definition cursor_ok :: "component list \<Rightarrow> cursor \<Rightarrow> bool" where
  "cursor_ok cs c \<longleftrightarrow> fst c < length cs \<and> (snd c \<longrightarrow> is_Globstar (cs ! fst c))"

lemma drop_Cons_nth: "pos < length cs \<Longrightarrow> drop pos cs = cs ! pos # drop (Suc pos) cs"
  by (simp add: Cons_nth_drop_Suc)

lemma cursor_spec_effect:
  assumes "ns \<noteq> []" "cursor_ok cs (pos, fed)"
  shows "cursor_spec cs (pos, fed) (n # ns) \<longleftrightarrow> (\<exists>c\<in>effect cs n pos fed. cursor_spec cs c ns)"
  using assms(2)
proof (induction "length cs - pos" arbitrary: pos fed rule: less_induct)
  case less
  then have pos: "pos < length cs" by (simp add: cursor_ok_def)
  have last: "Suc pos < length cs \<longleftrightarrow> drop (Suc pos) cs \<noteq> []" by auto
  show ?case
  proof (cases "cs ! pos")
    case (Globstar z)
    have IH: "cursor_spec cs (Suc pos, False) (n # ns) \<longleftrightarrow> (\<exists>c\<in>effect cs n (Suc pos) False. cursor_spec cs c ns)"
      if "Suc pos < length cs"
      using less.hyps [of "Suc pos" False] that by (simp add: cursor_ok_def)
    have "cursor_spec cs (pos, fed) (n # ns) \<longleftrightarrow>
        drop (Suc pos) cs = [] \<or> ((z \<or> fed) \<and> cursor_spec cs (Suc pos, False) (n # ns)) \<or> cursor_spec cs (pos, True) ns"
      using pos Globstar last by (auto simp: cursor_spec_def drop_Cons_nth path_spec_Globstar)
    moreover have "cursor_spec cs (pos, True) ns" if "drop (Suc pos) cs = []"
      using that pos assms(1) by (simp add: cursor_spec_def)
    moreover have "effect cs n (Suc pos) False = {}" if "\<not> Suc pos < length cs"
      using that by (simp add: effect.simps [of cs n "Suc pos"])
    moreover have "effect cs n pos fed = insert (pos, True) (if z \<or> fed then effect cs n (Suc pos) False else {})"
      using pos Globstar by (simp add: effect.simps [of cs n pos])
    ultimately show ?thesis
      using IH last by (cases "Suc pos < length cs"; cases "z \<or> fed") (simp_all add: disj_commute)
  qed (use pos less.prems assms(1) in \<open>auto simp: cursor_spec_def cursor_ok_def effect.simps [of cs n pos] drop_Cons_nth path_spec_Nil\<close>)
qed

lemma cursor_spec_fed: "is_Globstar (cs ! pos) \<Longrightarrow> cursor_spec cs (pos, fed) ns \<Longrightarrow> cursor_spec cs (pos, True) ns"
  by (cases "cs ! pos") (auto simp: cursor_spec_def drop_Cons_nth dest: path_spec_Globstar_weaken split: if_splits)

text \<open>
  One directory down: the cursors written for a child stand for what the
  parent's cursors stood for, below that child.
\<close>

lemma step_spec:
  assumes "ns \<noteq> []" and "\<forall>c\<in>set cursors. cursor_ok (components p) c"
  shows "(\<exists>c\<in>set cursors. cursor_spec (components p) c (n # ns)) \<longleftrightarrow>
         (\<exists>c\<in>set (fst (step p cursors n)). cursor_spec (components p) c ns)"
    and "\<forall>c\<in>set (fst (step p cursors n)). cursor_ok (components p) c"
proof -
  let ?cs = "components p" and ?E = "effects (components p) n cursors"
  have E: "q < length ?cs \<and> (f \<longrightarrow> is_Globstar (?cs ! q))" if "(q, f) \<in> ?E" for q f
    using that effect_bounds by (fastforce simp: effects_def)
  have "(\<exists>c\<in>set cursors. cursor_spec ?cs c (n # ns)) \<longleftrightarrow> (\<exists>c\<in>?E. cursor_spec ?cs c ns)"
    using assms cursor_spec_effect by (fastforce simp: effects_def)
  also have "\<dots> \<longleftrightarrow> (\<exists>c\<in>set (fst (step p cursors n)). cursor_spec ?cs c ns)"
  proof
    assume "\<exists>c\<in>?E. cursor_spec ?cs c ns"
    then obtain q f where c: "(q, f) \<in> ?E" "cursor_spec ?cs (q, f) ns" by auto
    then have "cursor_spec ?cs (q, (q, True) \<in> ?E) ns"
      using E cursor_spec_fed by (cases "(q, True) \<in> ?E") (auto, metis)
    moreover have "(q, (q, True) \<in> ?E) \<in> set (fst (step p cursors n))"
      using c(1) by (force simp: step_out(2))
    ultimately show "\<exists>c\<in>set (fst (step p cursors n)). cursor_spec ?cs c ns" by blast
  next
    assume "\<exists>c\<in>set (fst (step p cursors n)). cursor_spec ?cs c ns"
    then show "\<exists>c\<in>?E. cursor_spec ?cs c ns"
      by (auto simp: step_out(2)) (metis (full_types))
  qed
  finally show "(\<exists>c\<in>set cursors. cursor_spec ?cs c (n # ns)) \<longleftrightarrow> (\<exists>c\<in>set (fst (step p cursors n)). cursor_spec ?cs c ns)" .
  show "\<forall>c\<in>set (fst (step p cursors n)). cursor_ok ?cs c"
    using E by (force simp: step_out(2) cursor_ok_def)
qed


section \<open>Projections\<close>

definition wf_components :: "component list \<Rightarrow> bool" where
  "wf_components cs \<longleftrightarrow> (\<forall>glob. Glob glob \<in> set cs \<longrightarrow> wf_glob glob)"

definition wf_pattern :: "pattern \<Rightarrow> bool" where
  "wf_pattern p \<longleftrightarrow>
     wf_components (components p) \<and> components p \<noteq> [] \<and>
     (basename_only p \<longrightarrow> length (components p) = 1 \<and> \<not> is_Globstar (hd (components p)))"

definition accepts :: "pattern option \<Rightarrow> bytes \<Rightarrow> bool" where
  "accepts q n = (case q of None \<Rightarrow> False | Some q \<Rightarrow> component_matches (hd (components q)) n)"

lemma any_glob_matches: "glob_matches any_glob n \<longleftrightarrow> n \<noteq> []"
proof -
  have "glob_spec [Star] t" for t by (induction t) auto
  then show ?thesis
    by (cases n) (auto simp: glob_matches_spec any_glob_def wf_glob_def)
qed

lemma normalize_star_matches: "n \<noteq> [] \<Longrightarrow> glob_matches (normalize_star glob) n \<longleftrightarrow> glob_matches glob n"
proof -
  assume "n \<noteq> []"
  moreover have "glob_matches [Star] n"
    by (simp add: glob_matches_spec glob_spec_Star) (auto intro: exI [of _ "length n"])
  ultimately show ?thesis by (simp add: normalize_star_def any_glob_matches)
qed

lemma length_tails [simp]: "length (tails cs at) = length cs"
  by (induction cs arbitrary: at) (auto simp: Let_def)

lemma accepts_project_ANY: "accepts (project p (Some ANY)) n \<longleftrightarrow> n \<noteq> []"
  by (simp add: accepts_def project_def as_basename_def any_glob_matches)

lemma accepts_project_At:
  "n \<noteq> [] \<Longrightarrow> components p ! at = Glob glob \<Longrightarrow> accepts (project p (Some (At at))) n \<longleftrightarrow> glob_matches glob n"
  by (simp add: accepts_def project_def as_basename_def normalize_star_matches)

lemma accepts_project_None [simp]: "\<not> accepts (project p None) n"
  by (simp add: accepts_def project_def)

lemma tails_spec:
  assumes "n \<noteq> []" "components p = pre @ cs" "i < length cs"
  shows "accepts (project p (tails cs (length pre) ! i)) n \<longleftrightarrow> path_spec (drop i cs) [n]"
  using assms(2,3)
proof (induction cs arbitrary: pre i)
  case Nil
  then show ?case by simp
next
  case (Cons c cs)
  have rest: "accepts (project p (tails cs (Suc (length pre)) ! j)) n \<longleftrightarrow> path_spec (drop j cs) [n]"
    if "j < length cs" for j
    using Cons.IH [of "pre @ [c]" j] Cons.prems(1) that by simp
  show ?case
  proof (cases i)
    case (Suc j)
    with rest [of j] Cons.prems(2) show ?thesis by (simp add: Let_def)
  next
    case 0
    have hd: "hd (tails cs (Suc (length pre))) = tails cs (Suc (length pre)) ! 0" if "cs \<noteq> []"
      using that by (metis hd_conv_nth length_0_conv length_tails)
    have "components p ! length pre = c" using Cons.prems(1) by simp
    with 0 assms(1) rest [of 0] hd show ?thesis
      by (cases c; cases "cs = []")
         (auto simp: Let_def accepts_project_ANY accepts_project_At path_spec_Globstar path_spec_Nil)
  qed
qed

lemma fed_target_spec:
  assumes "n \<noteq> []" "pos < length (components p)" "is_Globstar (components p ! pos)"
  shows "accepts (project p (fed_target (components p) (tails (components p) 0) pos)) n \<longleftrightarrow>
         path_spec (Globstar True # drop (Suc pos) (components p)) [n]"
proof (cases "Suc pos = length (components p)")
  case True
  with assms show ?thesis
    by (cases "components p ! pos") (auto simp: fed_target_def accepts_project_ANY)
next
  case False
  with assms tails_spec [of n p "[]" "components p" "Suc pos"] show ?thesis
    by (cases "components p ! pos") (auto simp: fed_target_def path_spec_Globstar path_spec_Nil)
qed

lemma nth_concat_pairs: "i < n \<Longrightarrow> concat (map (\<lambda>k. [f k, g k]) [0..<n]) ! (2 * i) = f i \<and>
    concat (map (\<lambda>k. [f k, g k]) [0..<n]) ! (2 * i + 1) = g i"
proof (induction n)
  case 0
  then show ?case by simp
next
  case (Suc n)
  have len: "length (concat (map (\<lambda>k. [f k, g k]) [0..<n])) = 2 * n"
    by (induction n) auto
  show ?case
  proof (cases "i < n")
    case True
    with Suc len show ?thesis by (simp add: nth_append)
  next
    case False
    with Suc.prems have "i = n" by simp
    with len show ?thesis by (simp add: nth_append)
  qed
qed

lemma projections_nth:
  "pos < length (components p) \<Longrightarrow> projections p ! (pos * 2 + (if fed then 1 else 0)) =
     project p (if fed then fed_target (components p) (tails (components p) 0) pos else tails (components p) 0 ! pos)"
  using nth_concat_pairs [of pos "length (components p)" "\<lambda>k. project p (tails (components p) 0 ! k)"
      "\<lambda>k. project p (fed_target (components p) (tails (components p) 0) k)"]
  by (simp add: projections_def Let_def mult.commute)

text \<open>A cursor's projection accepts the names the cursor accepts in its directory.\<close>

lemma projections_spec:
  assumes "n \<noteq> []" "cursor_ok (components p) (pos, fed)"
  shows "accepts (projections p ! (pos * 2 + (if fed then 1 else 0))) n \<longleftrightarrow> cursor_spec (components p) (pos, fed) [n]"
  using assms fed_target_spec [of n pos p] tails_spec [of n p "[]" "components p" pos]
  by (auto simp: projections_nth cursor_ok_def cursor_spec_def)

section \<open>Whole paths\<close>

lemma step_all_spec:
  assumes "\<forall>c\<in>set cursors. cursor_ok (components p) c"
  shows "((\<exists>c\<in>set cursors. cursor_spec (components p) c (parents @ [n])) \<longleftrightarrow>
          (\<exists>c\<in>set (step_all p cursors parents). cursor_spec (components p) c [n])) \<and>
         (\<forall>c\<in>set (step_all p cursors parents). cursor_ok (components p) c)"
  using assms
proof (induction parents arbitrary: cursors)
  case Nil
  then show ?case by simp
next
  case (Cons parent parents)
  note one = step_spec [of "parents @ [n]" cursors p parent]
  with Cons.prems Cons.IH [of "fst (step p cursors parent)"] show ?case by simp
qed

lemma matches_name_accepts:
  "(case project p t of Some q \<Rightarrow> matches_name q n is_dir | None \<Rightarrow> False) \<longleftrightarrow>
     (\<not> directory_only p \<or> is_dir) \<and> accepts (project p t) n"
  by (auto simp: project_def matches_name_def accepts_def as_basename_def split: option.splits target.splits component.splits)

lemma path_spec_shared:
  "path_spec [Globstar True, c] (parents @ [n]) \<longleftrightarrow> path_spec [Globstar True, c] [n]"
proof (induction parents)
  case (Cons m ms)
  have "path_spec [c] (m # ms @ [n]) \<Longrightarrow> path_spec [Globstar True, c] [n]"
    by (cases c) auto
  with Cons show ?case by (auto simp: path_spec_Globstar)
qed simp

lemma is_shared_basename_iff:
  "is_shared_basename p \<longleftrightarrow> basename_only p \<or> (\<exists>c. components p = [Globstar True, c])"
proof -
  have "(case cs of [Globstar z, _] \<Rightarrow> z | _ \<Rightarrow> False) \<longleftrightarrow> (\<exists>c. cs = [Globstar True, c])" for cs
    by (cases cs; cases "hd cs"; cases "tl cs"; cases "tl (tl cs)") auto
  then show ?thesis by (simp add: is_shared_basename_def)
qed

lemma cursor_start:
  assumes "components p \<noteq> []"
  shows "cursor_ok (components p) (0, False)" "cursor_spec (components p) (0, False) = path_spec (components p)"
  using assms by (auto simp: cursor_ok_def cursor_spec_def fun_eq_iff)

definition projected_match :: "pattern \<Rightarrow> cursor \<Rightarrow> bytes \<Rightarrow> bool \<Rightarrow> bool" where
  "projected_match p c n is_dir \<longleftrightarrow>
     (case projections p ! (fst c * 2 + (if snd c then 1 else 0)) of
        Some q \<Rightarrow> matches_name q n is_dir | None \<Rightarrow> False)"

lemma cursor_projection:
  assumes "n \<noteq> []" "cursor_ok (components p) c"
  shows "projected_match p c n is_dir \<longleftrightarrow> (\<not> directory_only p \<or> is_dir) \<and> cursor_spec (components p) c [n]"
proof -
  obtain pos fed where c: "c = (pos, fed)" by fastforce
  from assms(2) have ok: "cursor_ok (components p) (pos, fed)" by (simp only: c)
  then have "pos < length (components p)" by (simp add: cursor_ok_def)
  with projections_spec [OF assms(1) ok] show ?thesis
    unfolding projected_match_def c fst_conv snd_conv by (simp only: projections_nth matches_name_accepts)
qed

lemma walk_projection:
  assumes "components p \<noteq> []" "n \<noteq> []"
  shows "(\<exists>c\<in>set (step_all p [(0, False)] parents). projected_match p c n is_dir) \<longleftrightarrow>
    (\<not> directory_only p \<or> is_dir) \<and> path_spec (components p) (parents @ [n])"
  using step_all_spec [of "[(0, False)]" p parents n] cursor_start [OF assms(1)] cursor_projection [OF assms(2)]
  by auto

lemma matches_override_path_spec:
  assumes "components p \<noteq> []" and names: "\<forall>n\<in>set names. n \<noteq> []"
  shows "matches_override p names is_dir \<longleftrightarrow> pattern_spec p names is_dir"
proof (cases "names = []")
  case True
  then show ?thesis by (simp add: matches_override_def pattern_spec_def)
next
  case False
  then obtain parents n where ns: "names = parents @ [n]" by (metis rev_exhaust)
  with names have n: "n \<noteq> []" by simp
  have matches: "matches_override p names is_dir \<longleftrightarrow>
     (if basename_only p then matches_name p n is_dir
      else if is_shared_basename p then projected_match p (0, False) n is_dir
      else \<exists>c\<in>set (step_all p [(0, False)] parents). projected_match p c n is_dir)"
    by (simp add: matches_override_def ns Let_def projected_match_def list_ex_iff split_beta)
  show ?thesis
  proof (cases "\<not> basename_only p \<and> is_shared_basename p")
    case True
    then obtain c where c: "components p = [Globstar True, c]" by (auto simp: is_shared_basename_iff)
    have "path_spec (components p) names \<longleftrightarrow> path_spec (components p) [n]"
      unfolding c ns by (rule path_spec_shared)
    with True matches cursor_projection [OF n cursor_start(1) [OF assms(1)]] cursor_start(2) [OF assms(1)]
    show ?thesis by (simp add: pattern_spec_def ns)
  next
    case False
    with matches walk_projection [OF assms(1) n] show ?thesis
      by (auto simp: pattern_spec_def ns matches_name_def)
  qed
qed

section \<open>Compiled patterns are well formed\<close>

definition no_adjacent :: "component list \<Rightarrow> bool" where
  "no_adjacent cs \<longleftrightarrow> successively (\<lambda>a b. \<not> (a = Globstar True \<and> b = Globstar True)) cs"

lemma hd_dedup_globstars: "cs \<noteq> [] \<Longrightarrow> hd (dedup_globstars cs) = hd cs"
  by (induction cs rule: dedup_globstars.induct) auto

lemma no_adjacent_dedup: "no_adjacent (dedup_globstars cs)"
  by (induction cs rule: dedup_globstars.induct)
     (auto simp: no_adjacent_def successively_Cons hd_dedup_globstars)

lemma set_dedup_globstars: "set (dedup_globstars cs) \<subseteq> set cs"
  by (induction cs rule: dedup_globstars.induct) auto

lemma set_allow_zero_Glob: "Glob glob \<in> set (set_allow_zero seps cs) \<longleftrightarrow> Glob glob \<in> set cs"
  by (induction seps cs rule: set_allow_zero.induct) (auto split: component.splits)

lemma set_allow_zero_Nil [simp]: "set_allow_zero seps cs = [] \<longleftrightarrow> cs = []"
  by (cases cs) auto

lemma compile_component_unanchored: "\<not> is_Globstar (compile_component part False syn)"
  by (cases "compile_component part False syn") (auto simp: compile_component_def split: if_splits)

text \<open>What a compiled line is made of, once its text has been split.\<close>

definition compiled_components :: "split_pattern \<Rightarrow> glob_syntax \<Rightarrow> component list" where
  "compiled_components parsed syn =
     (let base = (\<not> leading_separator parsed \<and> length (parts parsed) = 1);
          cs = map (\<lambda>part. compile_component part (\<not> base) syn) (parts parsed)
      in dedup_globstars (set_allow_zero (separators parsed)
           (if escaped_edge parsed \<and> cs \<noteq> [] then Never # tl cs else cs)))"

definition rule_body :: "bytes \<Rightarrow> match_result \<times> bytes" where
  "rule_body line = (if hd line = 0x21 then (Whitelist, tl line) else (Ignore, line))"

lemma compile_syntax_Some:
  assumes "compile_syntax index original syn = Inr (Some p)"
  shows "\<exists>parsed. split_components (snd (rule_body (trim_trailing_spaces original))) = Inr parsed \<and>
     parts parsed \<noteq> [] \<and>
     p = \<lparr>pt_index = index, pt_result = fst (rule_body (trim_trailing_spaces original)),
          directory_only = trailing_separator parsed,
          basename_only = (\<not> leading_separator parsed \<and> length (parts parsed) = 1),
          components = compiled_components parsed syn\<rparr>"
proof -
  let ?body = "rule_body (trim_trailing_spaces original)"
  show ?thesis
  proof (cases "split_components (snd ?body)")
    case (Inl e)
    with assms show ?thesis
      by (auto simp: compile_syntax_def rule_body_def Let_def split_beta split: if_splits)
  next
    case (Inr parsed)
    with assms show ?thesis
      unfolding compile_syntax_def rule_body_def [symmetric] Let_def compiled_components_def
      by (auto simp: split_beta split: if_splits)
  qed
qed

lemma compiled_components_wf:
  assumes "parts parsed \<noteq> []"
  shows "wf_components (compiled_components parsed syn)" "compiled_components parsed syn \<noteq> []"
    "\<not> leading_separator parsed \<Longrightarrow> length (parts parsed) = 1 \<Longrightarrow>
       length (compiled_components parsed syn) = 1 \<and> \<not> is_Globstar (hd (compiled_components parsed syn))"
proof -
  let ?base = "\<not> leading_separator parsed \<and> length (parts parsed) = 1"
  let ?cs = "map (\<lambda>part. compile_component part (\<not> ?base) syn) (parts parsed)"
  let ?ds = "if escaped_edge parsed \<and> ?cs \<noteq> [] then Never # tl ?cs else ?cs"
  have comps: "compiled_components parsed syn = dedup_globstars (set_allow_zero (separators parsed) ?ds)"
    by (simp add: compiled_components_def Let_def)
  have "wf_glob glob" if "Glob glob \<in> set ?ds" for glob
  proof -
    from that have "Glob glob \<in> set ?cs" by (cases ?cs) (auto split: if_splits)
    then show ?thesis by (auto intro: compile_component_wf [OF sym])
  qed
  then show "wf_components (compiled_components parsed syn)"
    unfolding wf_components_def comps using set_dedup_globstars set_allow_zero_Glob by blast
  show "compiled_components parsed syn \<noteq> []" using assms by (simp add: comps)
  assume base: "\<not> leading_separator parsed" "length (parts parsed) = 1"
  then obtain part where "parts parsed = [part]" by (auto simp: length_Suc_conv)
  with base compile_component_unanchored [of part syn]
  show "length (compiled_components parsed syn) = 1 \<and> \<not> is_Globstar (hd (compiled_components parsed syn))"
    by (cases "compile_component part False syn") (auto simp: comps)
qed

lemma compile_syntax_wf:
  assumes "compile_syntax index original syn = Inr (Some p)"
  shows "wf_pattern p" "no_adjacent (components p)" "pt_index p = index"
proof -
  from compile_syntax_Some [OF assms] obtain parsed where ne: "parts parsed \<noteq> []"
    and p: "components p = compiled_components parsed syn" "pt_index p = index"
      "basename_only p = (\<not> leading_separator parsed \<and> length (parts parsed) = 1)" by auto
  show "wf_pattern p"
    using compiled_components_wf [OF ne, of syn] by (auto simp: wf_pattern_def p)
  show "no_adjacent (components p)"
    by (simp add: p compiled_components_def Let_def no_adjacent_dedup)
  show "pt_index p = index" by (rule p(2))
qed

section \<open>A slash after an escaped backslash\<close>

lemma trailing_backslashes_all: "set w \<subseteq> {0x5C} \<Longrightarrow> trailing_backslashes (w' @ w) = trailing_backslashes w' + length w"
proof -
  assume "set w \<subseteq> {0x5C}"
  then have "takeWhile (\<lambda>b. b = 0x5C) (rev w @ rev w') = rev w @ takeWhile (\<lambda>b. b = 0x5C) (rev w')" by (intro takeWhile_append2) auto
  then show ?thesis by (simp add: trailing_backslashes_def)
qed

lemma trailing_backslashes_Cons:
  "trailing_backslashes (b # w) = (if b = 0x5C \<and> set w \<subseteq> {0x5C} then Suc (length w) else trailing_backslashes w)"
proof (cases "set w \<subseteq> {0x5C}")
  case True
  from trailing_backslashes_all [OF this, of "[b]"] trailing_backslashes_all [OF this, of "[]"] True show ?thesis
    by (simp add: trailing_backslashes_def)
next
  case False
  then obtain c where "c \<in> set w" "c \<noteq> 0x5C" by auto
  with takeWhile_append1 [of c "rev w" "\<lambda>b. b = 0x5C" "[b]"] False show ?thesis by (simp add: trailing_backslashes_def)
qed

lemma trailing_backslashes_pair: "even (trailing_backslashes (0x5C # b # w)) \<Longrightarrow> even (trailing_backslashes w)"
  using trailing_backslashes_all [of w "[]"]
  by (cases "set w \<subseteq> {0x5C}") (auto simp: trailing_backslashes_Cons trailing_backslashes_def [of "[]"] split: if_splits)

lemma edge_body:
  assumes "even (trailing_backslashes w)"
  obtains w' where "snd (rule_body (w @ [0x5C, 0x5C, 0x2F])) = w' @ [0x5C, 0x5C, 0x2F]" "even (trailing_backslashes w')"
proof (cases "w \<noteq> [] \<and> hd w = 0x21")
  case True
  then obtain w' where "w = 0x21 # w'" by (cases w) auto
  with assms that [of w'] show ?thesis by (simp add: rule_body_def trailing_backslashes_Cons)
next
  case False
  with assms that [of w] show ?thesis by (cases w) (auto simp: rule_body_def)
qed

lemma push_byte_Inr: "push_byte ps b esc = Inr ps' \<Longrightarrow> ps \<noteq> [] \<and> ps' = butlast ps @ [last ps @ [\<lparr>pb_value = b, pb_escaped = esc\<rparr>]]"
  by (auto simp: push_byte_def split: if_splits)

lemma split_loop_length: "split_loop bs ps seps = Inr (ps', seps') \<Longrightarrow> length ps' + length seps = length seps' + length ps"
proof (induction bs ps seps rule: split_loop.induct)
  case (2 b rest ps seps)
  show ?case
  proof (cases "b = 0x5C")
    case True
    with "2.prems" obtain e bs where rest: "rest = e # bs" by (cases rest) auto
    with 2 True show ?thesis by (cases "e = 0x2F") (auto dest!: push_byte_Inr split: sum.splits)
  qed (use 2 in \<open>auto dest!: push_byte_Inr split: sum.splits if_splits\<close>)
qed simp

text \<open>The last part is empty, the one before it is not, and the slash between them is a separator.\<close>

definition slash_ended :: "pattern_byte list list \<Rightarrow> bool list \<Rightarrow> bool" where
  "slash_ended ps seps \<longleftrightarrow> 2 \<le> length ps \<and> last ps = [] \<and> last (butlast ps) \<noteq> [] \<and> seps \<noteq> [] \<and> last seps"

lemma split_loop_edge:
  assumes "split_loop (w @ [0x5C, 0x5C, 0x2F]) ps seps = Inr (ps', seps')" "even (trailing_backslashes w)"
  shows "slash_ended ps' seps'"
  using assms
proof (induction w arbitrary: ps seps rule: length_induct)
  case (1 w)
  show ?case
  proof (cases w)
    case Nil
    with "1.prems"(1) show ?thesis by (auto simp: slash_ended_def butlast_append Suc_le_eq dest!: push_byte_Inr split: sum.splits)
  next
    case (Cons b w1)
    have step: ?thesis if "split_loop (w2 @ [0x5C, 0x5C, 0x2F]) ps2 seps2 = Inr (ps', seps')" "even (trailing_backslashes w2)"
      "length w2 < length w" for w2 ps2 seps2
      using "1.IH" that by blast
    show ?thesis
    proof (cases "b = 0x5C")
      case True
      with Cons "1.prems"(2) obtain e w2 where w1: "w1 = e # w2" by (cases w1) (auto simp: trailing_backslashes_def)
      have "even (trailing_backslashes w2)" using "1.prems"(2) trailing_backslashes_pair unfolding Cons w1 True by blast
      with "1.prems"(1) Cons w1 True show ?thesis
        by (cases "e = 0x2F"; cases "push_byte ps e True") (auto intro: step)
    next
      case False
      then have "even (trailing_backslashes w1)" using "1.prems"(2) Cons by (simp add: trailing_backslashes_Cons)
      with "1.prems"(1) Cons False show ?thesis
        by (cases "b = 0x2F"; cases "push_byte ps b False") (auto intro: step)
    qed
  qed
qed

lemma split_edge:
  assumes "split_components (w @ [0x5C, 0x5C, 0x2F]) = Inr parsed" "even (trailing_backslashes w)"
  shows "trailing_separator parsed" "escaped_edge parsed"
proof -
  let ?pat = "w @ [0x5C, 0x5C, 0x2F]"
  from assms(1) obtain ps seps where loop: "split_loop ?pat [[]] [] = Inr (ps, seps)"
    by (auto simp: split_components_def split: sum.splits)
  have edge: "ends_with ?pat [0x5C, 0x2F]" by (simp add: ends_with_def)
  show "escaped_edge parsed" using assms(1) loop edge by (auto simp: split_components_def Let_def)
  have ended: "slash_ended ps seps" by (rule split_loop_edge [OF loop assms(2)])
  have len: "length ps = Suc (length seps)" using split_loop_length [OF loop] by simp
  define leading where "leading = (ps \<noteq> [] \<and> hd ps = [] \<and> 1 < length ps \<and> seps \<noteq> [] \<and> hd seps)"
  have "slash_ended (if leading then tl ps else ps) (if leading then tl seps else seps)"
  proof (cases leading)
    case True
    with ended have "3 \<le> length ps" by (cases ps; cases "tl ps"; cases "tl (tl ps)") (auto simp: slash_ended_def leading_def)
    with True ended len show ?thesis
      by (cases ps; cases "tl ps"; cases seps) (auto simp: slash_ended_def leading_def split: if_splits)
  qed (use ended in simp)
  then show "trailing_separator parsed"
    using assms(1) loop unfolding split_components_def Let_def leading_def slash_ended_def by auto
qed

section \<open>The work of one step\<close>

lemma step_cursor_work:
  assumes "no_adjacent cs"
  shows "snd (step_cursor cs name pos False m work) \<le> work + 2"
    and "snd (step_cursor cs name pos fed m work) \<le> work + 3"
proof -
  have one: "snd (step_cursor cs name pos False m work) \<le> work + 1"
    if "length cs \<le> pos \<or> cs ! pos \<noteq> Globstar True" for pos m work
    using that by (subst step_cursor.simps) (auto simp: Let_def split_beta split: component.splits)
  have two: "snd (step_cursor cs name pos False m work) \<le> work + 2" for pos m work
  proof (cases "pos < length cs \<and> cs ! pos = Globstar True")
    case True
    then have "length cs \<le> Suc pos \<or> cs ! Suc pos \<noteq> Globstar True"
      using assms by (auto simp: no_adjacent_def successively_conv_nth not_le)
    note one [OF this, of "snd (expand (mark m pos True) pos)" "Suc work"]
    with True show ?thesis by (subst step_cursor.simps) (auto simp: Let_def split_beta)
  next
    case False
    then show ?thesis using one [of pos m work] by auto
  qed
  then show "snd (step_cursor cs name pos False m work) \<le> work + 2" .
  show "snd (step_cursor cs name pos fed m work) \<le> work + 3"
    using two [of "Suc pos" "snd (expand (mark m pos True) pos)" "Suc work"]
    by (subst step_cursor.simps) (auto simp: Let_def split_beta split: component.splits)
qed

lemma step_cursors_work:
  "no_adjacent cs \<Longrightarrow> snd (step_cursors cs name cursors m work) \<le> work + 3 * length cursors"
proof (induction cs name cursors m work rule: step_cursors.induct)
  case (2 cs name pos fed cursors m work)
  obtain m1 w1 where step: "step_cursor cs name pos fed m work = (m1, w1)" by fastforce
  with step_cursor_work(2) [OF "2.prems", of name pos fed m work] "2.IH" [OF step [symmetric] refl "2.prems"]
  show ?case by simp
qed simp

lemma step_cursors_marks_ok:
  assumes "marks_ok (length cs) m" "expanded_from cs name 0 m"
  shows "marks_ok (length cs) (fst (step_cursors cs name cursors m work))"
  using step_cursors_effects [OF assms] by (simp add: step_post_def)

lemma step_work:
  assumes "no_adjacent (components p)"
  shows "snd (step p cursors name) \<le> 3 * length cursors + (length (components p) + 63) div 64"
proof -
  have "expanded_from (components p) name 0 (marks_new (length (components p)))"
    by (simp add: expanded_from_def)
  note ok = step_cursors_marks_ok [OF marks_new_ok this, of cursors 0]
  show ?thesis
    using ok step_cursors_work [OF assms, of name cursors "marks_new (length (components p))" 0]
    by (simp add: step_def Let_def split_beta drain_def marks_ok_def)
qed

section \<open>Properties\<close>

text \<open>
  C25: every line that compiles to a pattern compiles to a well-formed one: it
  has a component, no empty literal, a basename pattern is one component that
  is no globstar, and no two adjacent globstars both allow zero directories.
\<close>

theorem compiled_pattern_wf:
  assumes "compile_syntax index original syn = Inr (Some p)"
  shows "wf_pattern p \<and> no_adjacent (components p) \<and> pt_index p = index"
  using compile_syntax_wf [OF assms] by simp

theorem compiled_pattern_wf_witness:
  "\<exists>p. compile_syntax 3 [0x61, 0x2F, 0x2A, 0x2A] Ignore_Syntax = Inr (Some p) \<and>
     wf_pattern p \<and> no_adjacent (components p) \<and> pt_index p = 3"
proof -
  have "compile_syntax 3 [0x61, 0x2F, 0x2A, 0x2A] Ignore_Syntax =
     Inr (Some \<lparr>pt_index = 3, pt_result = Ignore, directory_only = False, basename_only = False, components = [Glob [Literal [0x61]], Globstar True]\<rparr>)" by code_simp
  with compiled_pattern_wf [OF this] show ?thesis by blast
qed

text \<open>
  C19: an override glob applied to a whole path, by stepping cursors through
  the parents and projecting them onto the last name, accepts exactly the
  paths its components describe.
\<close>

theorem override_matches_whole_paths:
  assumes "compile_override original = Inr (Some p)" "\<forall>n\<in>set names. n \<noteq> []"
  shows "matches_override p names is_dir \<longleftrightarrow> pattern_spec p names is_dir"
proof -
  have "wf_pattern p" using assms(1) compile_syntax_wf(1) by (simp add: compile_override_def)
  then show ?thesis using matches_override_path_spec [OF _ assms(2)] by (simp add: wf_pattern_def)
qed

theorem override_matches_whole_paths_witness:
  "\<exists>p. compile_override [0x2A, 0x2A, 0x2F, 0x61] = Inr (Some p) \<and>
     (matches_override p [[0x62], [0x61]] False \<longleftrightarrow> pattern_spec p [[0x62], [0x61]] False)"
proof -
  have "compile_override [0x2A, 0x2A, 0x2F, 0x61] =
     Inr (Some \<lparr>pt_index = 0, pt_result = Ignore, directory_only = False, basename_only = False, components = [Globstar True, Glob [Literal [0x61]]]\<rparr>)" by code_simp
  with override_matches_whole_paths [OF this, of "[[0x62], [0x61]]" False] show ?thesis by auto
qed

text \<open>
  C20: following an anchored pattern's cursors through any parents and asking
  the projection of each cursor left about a name decides the pattern on the
  whole path.
\<close>

theorem cursor_walk_decides:
  assumes "compile_pattern index original = Inr (Some p)" "\<not> basename_only p" "name \<noteq> []"
  shows "(\<exists>c\<in>set (step_all p [(0, False)] parents). projected_match p c name is_dir) \<longleftrightarrow>
    pattern_spec p (parents @ [name]) is_dir"
proof -
  have "wf_pattern p" using assms(1) compile_syntax_wf(1) by (simp add: compile_pattern_def)
  then show ?thesis using walk_projection [OF _ assms(3)] assms(2) by (simp add: wf_pattern_def pattern_spec_def)
qed

theorem cursor_walk_decides_witness:
  "\<exists>p. compile_pattern 0 [0x61, 0x2F, 0x2A, 0x2A, 0x2F, 0x62] = Inr (Some p) \<and>
     ((\<exists>c\<in>set (step_all p [(0, False)] [[0x61], [0x63]]). projected_match p c [0x62] False) \<longleftrightarrow>
      pattern_spec p [[0x61], [0x63], [0x62]] False)"
proof -
  have "compile_pattern 0 [0x61, 0x2F, 0x2A, 0x2A, 0x2F, 0x62] =
     Inr (Some \<lparr>pt_index = 0, pt_result = Ignore, directory_only = False, basename_only = False, components = [Glob [Literal [0x61]], Globstar True, Glob [Literal [0x62]]]\<rparr>)" by code_simp
  with cursor_walk_decides [OF this, of "[0x62]" "[[0x61], [0x63]]" False] show ?thesis by auto
qed

text \<open>
  Collapsing a run of zero-allowing globstars to one, as the compiler
  does, keeps the set of paths a component list accepts.
\<close>

theorem globstar_runs_collapse: "path_spec (dedup_globstars cs) names \<longleftrightarrow> path_spec cs names"
  by (rule path_spec_dedup)

text \<open>
  C26: one step of a compiled pattern visits at most three components per
  cursor and scans one word per sixty-four components, whatever the pattern.
\<close>

theorem step_work_bounded:
  assumes "compile_syntax index original syn = Inr (Some p)"
  shows "snd (step p cursors name) \<le> 3 * length cursors + (length (components p) + 63) div 64"
  using step_work [OF compile_syntax_wf(2) [OF assms]] .

theorem step_work_bounded_witness:
  "\<exists>p. compile_syntax 0 [0x61, 0x2F, 0x2A, 0x2A] Ignore_Syntax = Inr (Some p) \<and>
     snd (step p [(0, False)] [0x61]) \<le> 3 * length [(0::nat, False)] + (length (components p) + 63) div 64"
proof -
  have "compile_syntax 0 [0x61, 0x2F, 0x2A, 0x2A] Ignore_Syntax =
     Inr (Some \<lparr>pt_index = 0, pt_result = Ignore, directory_only = False, basename_only = False, components = [Glob [Literal [0x61]], Globstar True]\<rparr>)" by code_simp
  with step_work_bounded [OF this, of "[(0, False)]" "[0x61]"] show ?thesis by blast
qed

text \<open>
  C28: a line that ends in an escaped backslash and an ordinary slash compiles to a pattern that matches no path at all, although the split
  has read a directory-only pattern: the test for an escaped slash at the edge looks at the last two bytes only. The backslashes before
  the slash pair up from the left, so the last two are an escaped backslash when the rest of the line ends in an even number of them.
\<close>

theorem escaped_backslash_then_slash_never_matches:
  assumes "compile_pattern index (w @ [0x5C, 0x5C, 0x2F]) = Inr (Some p)" "even (trailing_backslashes w)"
  shows "directory_only p \<and> (\<forall>names is_dir. \<not> pattern_spec p names is_dir)"
proof -
  let ?line = "w @ [0x5C, 0x5C, 0x2F]"
  have trim: "trim_trailing_spaces ?line = ?line" by (simp add: trim_trailing_spaces.simps)
  obtain w' where body: "snd (rule_body ?line) = w' @ [0x5C, 0x5C, 0x2F]" "even (trailing_backslashes w')"
    by (rule edge_body [OF assms(2)])
  from compile_syntax_Some [OF assms(1) [unfolded compile_pattern_def]] obtain parsed where
    parsed: "split_components (w' @ [0x5C, 0x5C, 0x2F]) = Inr parsed" "parts parsed \<noteq> []"
    and p: "directory_only p = trailing_separator parsed" "components p = compiled_components parsed Ignore_Syntax"
    unfolding trim body(1) by auto
  note edge = split_edge [OF parsed(1) body(2)]
  have "hd (components p) = Never" "components p \<noteq> []"
    unfolding p compiled_components_def Let_def using edge(2) parsed(2) by (simp_all add: hd_dedup_globstars)
  then obtain cs where "components p = Never # cs" by (cases "components p") auto
  moreover have "\<not> path_spec (Never # cs) names" for names by (cases names) simp_all
  ultimately show ?thesis using edge(1) p(1) by (simp add: pattern_spec_def)
qed

theorem escaped_backslash_then_slash_never_matches_witness:
  "\<exists>p. compile_pattern 0 [0x61, 0x5C, 0x5C, 0x2F] = Inr (Some p) \<and> \<not> pattern_spec p [[0x61, 0x5C]] True"
proof -
  have line: "compile_pattern 0 ([0x61] @ [0x5C, 0x5C, 0x2F]) =
     Inr (Some \<lparr>pt_index = 0, pt_result = Ignore, directory_only = True, basename_only = True, components = [Never]\<rparr>)"
    by code_simp
  have "even (trailing_backslashes [0x61])" by (simp add: trailing_backslashes_def)
  from escaped_backslash_then_slash_never_matches [OF line this] line show ?thesis by auto
qed

text \<open>
  A basename pattern that is a bare star has suffix width zero and its
  fixed-suffix test accepts every name, the empty one included; it does not
  match only an empty name.
\<close>

theorem bare_star_fixed_suffix_accepts_all:
  assumes "basename_glob p = Some [Star]" "\<not> directory_only p \<or> is_dir"
  shows "fixed_basename_suffix_width p = Some 0 \<and> matches_fixed_basename_suffix p name is_dir 0"
  using assms by (simp add: fixed_basename_suffix_width_def matches_fixed_basename_suffix_def checked_sub_def)

theorem bare_star_fixed_suffix_accepts_all_witness:
  "\<exists>p. compile_pattern 0 [0x2A] = Inr (Some p) \<and> matches_fixed_basename_suffix p [0x61, 0x62] False 0"
proof -
  let ?p = "\<lparr>pt_index = 0, pt_result = Ignore, directory_only = False, basename_only = True, components = [Glob [Star]]\<rparr>"
  have "compile_pattern 0 [0x2A] = Inr (Some ?p)" by code_simp
  moreover have "basename_glob ?p = Some [Star]" by (simp add: basename_glob_def)
  from bare_star_fixed_suffix_accepts_all [OF this, of False "[0x61, 0x62]"]
  have "matches_fixed_basename_suffix ?p [0x61, 0x62] False 0" by simp
  ultimately show ?thesis by blast
qed

end
