(* ===== verification/Gitignore.thy ===== *)
theory Gitignore
  imports Pattern
begin

text \<open>
  The lines of one ignore file and the last-match-wins index over basename
  patterns (\<open>ferret-policy/src/gitignore/mod.rs\<close>). \<open>Gitignore::push\<close> files a
  pattern by its shape into one of seven buckets, \<open>best_below\<close> asks each
  bucket in turn, scanning it backwards and cutting off below the best
  position found so far. A hash map is a map; a line's error text is the
  \<open>pattern_error\<close> it prints.

  Results: parsing a file gives well-formed patterns numbered by line; the
  bucketed lookup returns the highest-numbered pattern that matches, the same
  as trying every pattern in turn.
\<close>

section \<open>Parsing a file\<close>

record line_error =
  le_line :: nat
  le_pattern :: bytes
  le_detail :: pattern_error

definition line_text :: "bytes \<Rightarrow> bytes" where
  "line_text line =
     (let original = (case strip_suffix [0x0D] line of Some l \<Rightarrow> l | None \<Rightarrow> line)
      in hd (split_at 0 original))"

fun parse_lines :: "(nat \<times> bytes) list \<Rightarrow> pattern list \<Rightarrow> line_error list \<Rightarrow> pattern list \<times> line_error list" where
  "parse_lines [] patterns errors = (patterns, errors)"
| "parse_lines ((index, line) # lines) patterns errors =
     (let original = line_text line in
      case compile_pattern index original of
        Inr (Some pattern) \<Rightarrow> parse_lines lines (patterns @ [pattern]) errors
      | Inr None \<Rightarrow> parse_lines lines patterns errors
      | Inl detail \<Rightarrow>
          parse_lines lines patterns
            (errors @ [\<lparr>le_line = index + 1, le_pattern = original, le_detail = detail\<rparr>]))"

definition parse :: "bytes \<Rightarrow> pattern list \<times> line_error list" where
  "parse input =
     (let input = (case strip_prefix [0xEF, 0xBB, 0xBF] input of Some t \<Rightarrow> t | None \<Rightarrow> input)
      in parse_lines (enumerate 0 (split_at 0x0A input)) [] [])"

section \<open>The index\<close>

record fast_match =
  fm_index :: nat
  fm_result :: match_result
  fm_directory_only :: bool

record byte_fast_match =
  bf_bytes :: bytes
  bf_action :: fast_match

record fixed_suffix_match =
  fs_pattern :: pattern
  fs_width :: nat

record gitignore =
  literals :: "bytes \<rightharpoonup> fast_match list"
  extensions :: "bytes \<rightharpoonup> fast_match list"
  prefixes_of :: "byte_fast_match list"
  suffixes_of :: "byte_fast_match list"
  contains_of :: "byte_fast_match list"
  fixed_suffixes :: "fixed_suffix_match list"
  general :: "pattern list"

definition gitignore_default :: gitignore where
  "gitignore_default =
     \<lparr>literals = Map.empty, extensions = Map.empty, prefixes_of = [], suffixes_of = [],
      contains_of = [], fixed_suffixes = [], general = []\<rparr>"

definition fast_of :: "pattern \<Rightarrow> fast_match" where
  "fast_of p =
     \<lparr>fm_index = pt_index p, fm_result = pt_result p, fm_directory_only = directory_only p\<rparr>"

text \<open>\<open>map.entry(key).or_default().push(value)\<close>.\<close>

definition entry_push :: "('k \<rightharpoonup> 'v list) \<Rightarrow> 'k \<Rightarrow> 'v \<Rightarrow> ('k \<rightharpoonup> 'v list)" where
  "entry_push m k v = m(k \<mapsto> (case m k of Some vs \<Rightarrow> vs | None \<Rightarrow> []) @ [v])"

definition push :: "gitignore \<Rightarrow> pattern \<Rightarrow> gitignore" where
  "push g p =
     (let fast = fast_of p in
      case literal_basename p of
        Some lit \<Rightarrow> g\<lparr>literals := entry_push (literals g) lit fast\<rparr>
      | None \<Rightarrow>
      (case simple_extension p of
        Some ext \<Rightarrow> g\<lparr>extensions := entry_push (extensions g) ext fast\<rparr>
      | None \<Rightarrow>
      (case basename_prefix p of
        Some pfx \<Rightarrow> g\<lparr>prefixes_of := prefixes_of g @ [\<lparr>bf_bytes = pfx, bf_action = fast\<rparr>]\<rparr>
      | None \<Rightarrow>
      (case basename_suffix p of
        Some sfx \<Rightarrow> g\<lparr>suffixes_of := suffixes_of g @ [\<lparr>bf_bytes = sfx, bf_action = fast\<rparr>]\<rparr>
      | None \<Rightarrow>
      (case basename_contains p of
        Some needle \<Rightarrow> g\<lparr>contains_of := contains_of g @ [\<lparr>bf_bytes = needle, bf_action = fast\<rparr>]\<rparr>
      | None \<Rightarrow>
      (case fixed_basename_suffix_width p of
        Some width \<Rightarrow> g\<lparr>fixed_suffixes := fixed_suffixes g @ [\<lparr>fs_pattern = p, fs_width = width\<rparr>]\<rparr>
      | None \<Rightarrow> g\<lparr>general := general g @ [p]\<rparr>))))))"

definition from_patterns :: "pattern list \<Rightarrow> gitignore" where
  "from_patterns patterns = foldl push gitignore_default (sort_key pt_index patterns)"

text \<open>\<open>entries.iter().rev().find(..)\<close>.\<close>

definition latest_fast :: "fast_match list \<Rightarrow> bool \<Rightarrow> nat \<Rightarrow> fast_match option" where
  "latest_fast entries is_dir limit =
     find (\<lambda>entry. fm_index entry < limit \<and> (\<not> fm_directory_only entry \<or> is_dir)) (rev entries)"

text \<open>The three scans run over the bucket reversed, so the last entry comes first.\<close>

fun scan_byte_loop ::
  "byte_fast_match list \<Rightarrow> bytes \<Rightarrow> bool \<Rightarrow> nat \<Rightarrow> fast_match option \<Rightarrow> (bytes \<Rightarrow> bytes \<Rightarrow> bool) \<Rightarrow> fast_match option"
where
  "scan_byte_loop [] basename is_dir limit best matches = best"
| "scan_byte_loop (x # xs) basename is_dir limit best matches =
     (if limit \<le> fm_index (bf_action x) then scan_byte_loop xs basename is_dir limit best matches
      else if (case best of Some c \<Rightarrow> fm_index (bf_action x) < fm_index c | None \<Rightarrow> False) then best
      else if (\<not> fm_directory_only (bf_action x) \<or> is_dir) \<and> matches basename (bf_bytes x)
      then Some (bf_action x)
      else scan_byte_loop xs basename is_dir limit best matches)"

definition scan_byte_fast ::
  "byte_fast_match list \<Rightarrow> bytes \<Rightarrow> bool \<Rightarrow> nat \<Rightarrow> fast_match option \<Rightarrow> (bytes \<Rightarrow> bytes \<Rightarrow> bool) \<Rightarrow> fast_match option"
where
  "scan_byte_fast ps basename is_dir limit best matches =
     scan_byte_loop (rev ps) basename is_dir limit best matches"

fun scan_fixed_loop ::
  "fixed_suffix_match list \<Rightarrow> bytes \<Rightarrow> bool \<Rightarrow> nat \<Rightarrow> fast_match option \<Rightarrow> fast_match option"
where
  "scan_fixed_loop [] basename is_dir limit best = best"
| "scan_fixed_loop (x # xs) basename is_dir limit best =
     (if limit \<le> pt_index (fs_pattern x) then scan_fixed_loop xs basename is_dir limit best
      else if (case best of Some c \<Rightarrow> pt_index (fs_pattern x) < fm_index c | None \<Rightarrow> False) then best
      else if matches_fixed_basename_suffix (fs_pattern x) basename is_dir (fs_width x)
      then Some (fast_of (fs_pattern x))
      else scan_fixed_loop xs basename is_dir limit best)"

definition scan_fixed_suffixes ::
  "fixed_suffix_match list \<Rightarrow> bytes \<Rightarrow> bool \<Rightarrow> nat \<Rightarrow> fast_match option \<Rightarrow> fast_match option"
where
  "scan_fixed_suffixes ps basename is_dir limit best = scan_fixed_loop (rev ps) basename is_dir limit best"

fun scan_pattern_loop ::
  "pattern list \<Rightarrow> bytes \<Rightarrow> bool \<Rightarrow> nat \<Rightarrow> fast_match option \<Rightarrow> fast_match option"
where
  "scan_pattern_loop [] name is_dir limit best = best"
| "scan_pattern_loop (p # ps) name is_dir limit best =
     (if limit \<le> pt_index p then scan_pattern_loop ps name is_dir limit best
      else if (case best of Some c \<Rightarrow> pt_index p < fm_index c | None \<Rightarrow> False) then best
      else if matches_name p name is_dir then Some (fast_of p)
      else scan_pattern_loop ps name is_dir limit best)"

definition scan_patterns ::
  "pattern list \<Rightarrow> bytes \<Rightarrow> bool \<Rightarrow> nat \<Rightarrow> fast_match option \<Rightarrow> fast_match option"
where
  "scan_patterns ps name is_dir limit best = scan_pattern_loop (rev ps) name is_dir limit best"

text \<open>\<open>name.windows(bytes.len()).any(|window| window == bytes)\<close>.\<close>

definition has_window :: "bytes \<Rightarrow> bytes \<Rightarrow> bool" where
  "has_window name bs \<longleftrightarrow> list_ex (\<lambda>window. window = bs) (windows (length bs) name)"

definition best_below :: "gitignore \<Rightarrow> bytes \<Rightarrow> bool \<Rightarrow> nat \<Rightarrow> (nat \<times> match_result) option" where
  "best_below g name is_dir limit =
     (let best = Option.bind (literals g name) (\<lambda>es. latest_fast es is_dir limit);
          best = (case rposition (\<lambda>b. b = 0x2E) name of
                    None \<Rightarrow> best
                  | Some dot \<Rightarrow>
                      (case Option.bind (extensions g (drop dot name)) (\<lambda>es. latest_fast es is_dir limit) of
                         None \<Rightarrow> best
                       | Some candidate \<Rightarrow>
                           if (case best of None \<Rightarrow> True | Some current \<Rightarrow> fm_index current < fm_index candidate)
                           then Some candidate else best));
          best = scan_byte_fast (prefixes_of g) name is_dir limit best starts_with;
          best = scan_byte_fast (suffixes_of g) name is_dir limit best ends_with;
          best = scan_byte_fast (contains_of g) name is_dir limit best
                   has_window;
          best = scan_fixed_suffixes (fixed_suffixes g) name is_dir limit best;
          best = scan_patterns (general g) name is_dir limit best
      in map_option (\<lambda>candidate. (fm_index candidate, fm_result candidate)) best)"

text \<open>\<open>best\<close> passes \<open>usize::MAX\<close>, the largest value of a 64-bit index, as the limit.\<close>

definition best :: "gitignore \<Rightarrow> bytes \<Rightarrow> bool \<Rightarrow> (nat \<times> match_result) option" where
  "best g name is_dir = best_below g name is_dir (2 ^ 64 - 1)"

section \<open>The latest of a set of hits\<close>

text \<open>
  \<open>latest S b\<close>: \<open>b\<close> is a member of \<open>S\<close> with the greatest position, or \<open>None\<close>
  when \<open>S\<close> is empty. A hit is a position with the action of its pattern.
\<close>

type_synonym hit = "nat \<times> match_result"

definition latest :: "hit set \<Rightarrow> hit option \<Rightarrow> bool" where
  "latest S b \<longleftrightarrow> (case b of None \<Rightarrow> S = {} | Some x \<Rightarrow> x \<in> S \<and> (\<forall>y\<in>S. fst y \<le> fst x))"

abbreviation hit_of :: "fast_match \<Rightarrow> hit" where
  "hit_of f \<equiv> (fm_index f, fm_result f)"

lemma latest_simps [simp]:
  "latest S None \<longleftrightarrow> S = {}" "latest S (Some x) \<longleftrightarrow> x \<in> S \<and> (\<forall>y\<in>S. fst y \<le> fst x)"
  by (simp_all add: latest_def)

lemma latest_unique:
  assumes "latest S b" "latest S c" "single_valued S"
  shows "b = c"
proof (cases b; cases c)
  fix x y
  assume b: "b = Some x" and c: "c = Some y"
  with assms(1,2) have "x \<in> S" "y \<in> S" "fst x = fst y" by (auto intro: order_antisym)
  with assms(3) show "b = c" unfolding b c by (metis prod.collapse single_valuedD)
qed (use assms in auto)

text \<open>The first hit of a list in position order, searched from its end.\<close>

lemma find_rev_latest:
  assumes "sorted (map key xs)"
  shows "latest {(key x, res x) | x. x \<in> set xs \<and> P x} (map_option (\<lambda>x. (key x, res x)) (find P (rev xs)))"
  using assms
proof (induction xs rule: rev_induct)
  case (snoc x xs)
  then show ?case by (auto simp: sorted_append latest_def split: option.splits)
qed simp

text \<open>
  A bucket scanned backwards: the interface the three scan loops share. An
  entry has a position, an action, and a test; the laws are the loop's
  equations on a reversed bucket.
\<close>

locale backward_scan =
  fixes position :: "'a \<Rightarrow> nat"
    and action :: "'a \<Rightarrow> fast_match"
    and test :: "'a \<Rightarrow> bytes \<Rightarrow> bool \<Rightarrow> bool"
    and scan :: "'a list \<Rightarrow> bytes \<Rightarrow> bool \<Rightarrow> nat \<Rightarrow> fast_match option \<Rightarrow> fast_match option"
  assumes position_action: "fm_index (action x) = position x"
    and scan_Nil: "scan [] name is_dir limit b = b"
    and scan_Cons: "scan (x # xs) name is_dir limit b =
      (if limit \<le> position x then scan xs name is_dir limit b
       else if (case b of Some c \<Rightarrow> position x < fm_index c | None \<Rightarrow> False) then b
       else if test x name is_dir then Some (action x)
       else scan xs name is_dir limit b)"
begin

definition bucket_hits :: "'a list \<Rightarrow> bytes \<Rightarrow> bool \<Rightarrow> nat \<Rightarrow> hit set" where
  "bucket_hits xs name is_dir limit =
     {hit_of (action x) | x. x \<in> set xs \<and> position x < limit \<and> test x name is_dir}"

lemma bucket_hits_Cons:
  "bucket_hits (x # xs) name is_dir limit =
     (if position x < limit \<and> test x name is_dir then {hit_of (action x)} else {}) \<union>
     bucket_hits xs name is_dir limit"
  by (auto simp: bucket_hits_def)

lemma bucket_hits_snoc:
  "bucket_hits (xs @ [x]) name is_dir limit =
     bucket_hits xs name is_dir limit \<union>
     (if position x < limit \<and> test x name is_dir then {hit_of (action x)} else {})"
  by (auto simp: bucket_hits_def)

lemma bucket_hits_rev [simp]: "bucket_hits (rev xs) name is_dir limit = bucket_hits xs name is_dir limit"
  by (simp add: bucket_hits_def)

lemma scan_latest:
  assumes "sorted_wrt (\<ge>) (map position xs)" "latest S (map_option hit_of b)"
  shows "latest (S \<union> bucket_hits xs name is_dir limit) (map_option hit_of (scan xs name is_dir limit b))"
  using assms
proof (induction xs)
  case Nil
  then show ?case by (simp add: bucket_hits_def scan_Nil)
next
  case (Cons x xs)
  then have IH: "latest (S \<union> bucket_hits xs name is_dir limit) (map_option hit_of (scan xs name is_dir limit b))"
    and below: "\<forall>y\<in>bucket_hits xs name is_dir limit. fst y \<le> position x"
    by (auto simp: bucket_hits_def position_action)
  show ?case
  proof (cases "position x < limit")
    case False
    with IH show ?thesis by (simp add: scan_Cons bucket_hits_Cons)
  next
    case True
    with IH below Cons.prems(2) show ?thesis
      by (cases b) (force simp: scan_Cons bucket_hits_Cons position_action)+
  qed
qed

lemma scan_rev_latest:
  assumes "sorted (map position xs)" "latest S (map_option hit_of b)"
  shows "latest (S \<union> bucket_hits xs name is_dir limit) (map_option hit_of (scan (rev xs) name is_dir limit b))"
proof -
  have "sorted_wrt (\<ge>) (map position (rev xs))" using assms(1) by (simp add: rev_map [symmetric] sorted_wrt_rev)
  from scan_latest [OF this assms(2)] show ?thesis by simp
qed

end

definition byte_test :: "(bytes \<Rightarrow> bytes \<Rightarrow> bool) \<Rightarrow> byte_fast_match \<Rightarrow> bytes \<Rightarrow> bool \<Rightarrow> bool" where
  "byte_test matches x name is_dir \<longleftrightarrow>
     (\<not> fm_directory_only (bf_action x) \<or> is_dir) \<and> matches name (bf_bytes x)"

lemma scan_byte_interface:
  "backward_scan (\<lambda>x. fm_index (bf_action x)) bf_action (byte_test matches)
     (\<lambda>xs name is_dir limit b. scan_byte_loop xs name is_dir limit b matches)"
  by unfold_locales (simp_all add: byte_test_def)

interpretation prefix_scan: backward_scan
  "\<lambda>x. fm_index (bf_action x)" bf_action "byte_test starts_with"
  "\<lambda>xs name is_dir limit b. scan_byte_loop xs name is_dir limit b starts_with"
  by (rule scan_byte_interface)

interpretation suffix_scan: backward_scan
  "\<lambda>x. fm_index (bf_action x)" bf_action "byte_test ends_with"
  "\<lambda>xs name is_dir limit b. scan_byte_loop xs name is_dir limit b ends_with"
  by (rule scan_byte_interface)

interpretation contains_scan: backward_scan
  "\<lambda>x. fm_index (bf_action x)" bf_action "byte_test has_window"
  "\<lambda>xs name is_dir limit b. scan_byte_loop xs name is_dir limit b has_window"
  by (rule scan_byte_interface)

interpretation fixed_scan: backward_scan
  "\<lambda>x. pt_index (fs_pattern x)" "\<lambda>x. fast_of (fs_pattern x)"
  "\<lambda>x name is_dir. matches_fixed_basename_suffix (fs_pattern x) name is_dir (fs_width x)"
  scan_fixed_loop
  by unfold_locales (simp_all add: fast_of_def)

interpretation general_scan: backward_scan pt_index fast_of matches_name scan_pattern_loop
  by unfold_locales (simp_all add: fast_of_def)

section \<open>Shapes decide the same as the glob\<close>

lemma literal_bytes_spec: "literal_bytes atoms = Some lit \<Longrightarrow> glob_spec atoms t \<longleftrightarrow> t = lit"
proof (induction atoms arbitrary: lit t rule: literal_bytes.induct)
  case (2 run atoms)
  then obtain rest where "literal_bytes atoms = Some rest" "lit = run @ rest" by auto
  with 2 show ?case by (auto simp: starts_with_iff_prefix prefix_def)
qed auto

lemma glob_spec_all [simp]: "glob_spec [Star] t"
  by (simp add: glob_spec_Star) (auto intro: exI [of _ "length t"])

lemma glob_spec_prefix: "glob_spec [Literal pfx, Star] t \<longleftrightarrow> starts_with t pfx"
  by (simp add: starts_with_iff_prefix)

lemma glob_spec_literal: "glob_spec [Literal run] t \<longleftrightarrow> t = run"
  by (auto simp: starts_with_iff_prefix prefix_def)

lemma glob_spec_suffix: "glob_spec [Star, Literal sfx] t \<longleftrightarrow> ends_with t sfx"
  unfolding glob_spec_Star glob_spec_literal ends_with_iff_suffix
  by (metis append_take_drop_id drop_eq_Nil2 nle_le suffixI suffix_drop suffix_def append_eq_conv_conj linorder_le_cases)

lemma glob_spec_contains:
  assumes "needle \<noteq> []"
  shows "glob_spec [Star, Literal needle, Star] t \<longleftrightarrow> has_window t needle"
proof -
  have "(\<exists>k\<le>length t. prefix needle (drop k t)) \<longleftrightarrow> sublist needle t"
  proof
    assume "\<exists>k\<le>length t. prefix needle (drop k t)"
    then show "sublist needle t" unfolding sublist_def prefix_def by (metis append_take_drop_id)
  next
    assume "sublist needle t"
    then obtain ps ss where "t = ps @ needle @ ss" by (auto simp: sublist_def)
    then show "\<exists>k\<le>length t. prefix needle (drop k t)" by (intro exI [of _ "length ps"]) simp
  qed
  with assms show ?thesis
    unfolding glob_spec_Star [of "[_, _]"] glob_spec_prefix starts_with_iff_prefix by (simp add: has_window_def list_ex_iff set_windows_iff)
qed

lemma consume_all_spec: "Star \<notin> set atoms \<Longrightarrow> consume_all atoms t \<longleftrightarrow> glob_spec atoms t"
proof (induction atoms arbitrary: t)
  case (Cons a atoms)
  then show ?case by (cases a) (auto split: option.splits)
qed auto

lemma sum_widths_length: "sum_widths atoms = Some w \<Longrightarrow> glob_spec atoms t \<Longrightarrow> length t = w"
proof (induction atoms arbitrary: t w)
  case (Cons a atoms)
  from Cons.prems(1) have a: "a \<noteq> Star" by (auto split: option.splits)
  with Cons.prems(2) obtain k where "consumes a t = Some k" "glob_spec atoms (drop k t)"
    by (auto simp: glob_spec_not_Star)
  with Cons consumes_width [of a t k] show ?case by (fastforce split: option.splits)
qed auto

lemma sum_widths_no_Star: "sum_widths atoms = Some w \<Longrightarrow> Star \<notin> set atoms"
  by (induction atoms arbitrary: w) (auto split: option.splits)

lemma fixed_suffix_spec:
  assumes "sum_widths atoms = Some w"
  shows "glob_spec (Star # atoms) t \<longleftrightarrow> w \<le> length t \<and> consume_all atoms (drop (length t - w) t)"
proof -
  have "glob_spec atoms (drop k t) \<Longrightarrow> k \<le> length t \<Longrightarrow> w \<le> length t \<and> k = length t - w" for k
    using sum_widths_length [OF assms, of "drop k t"] by auto
  then show ?thesis
    unfolding glob_spec_Star consume_all_spec [OF sum_widths_no_Star [OF assms]] by (metis diff_le_self)
qed

section \<open>Pushing a pattern adds its hits\<close>

text \<open>The hits of an entry list of the two maps, of the whole index, and of one pattern.\<close>

definition entry_hits :: "fast_match list option \<Rightarrow> bool \<Rightarrow> nat \<Rightarrow> hit set" where
  "entry_hits es is_dir limit =
     hit_of ` {e \<in> set (case es of Some es \<Rightarrow> es | None \<Rightarrow> []). fm_index e < limit \<and> (\<not> fm_directory_only e \<or> is_dir)}"

definition extension_hits :: "(bytes \<rightharpoonup> fast_match list) \<Rightarrow> bytes \<Rightarrow> bool \<Rightarrow> nat \<Rightarrow> hit set" where
  "extension_hits exts name is_dir limit =
     (case rposition (\<lambda>b. b = 0x2E) name of
        None \<Rightarrow> {} | Some dot \<Rightarrow> entry_hits (exts (drop dot name)) is_dir limit)"

definition index_hits :: "gitignore \<Rightarrow> bytes \<Rightarrow> bool \<Rightarrow> nat \<Rightarrow> hit set" where
  "index_hits g name is_dir limit =
     entry_hits (literals g name) is_dir limit \<union> extension_hits (extensions g) name is_dir limit \<union>
     prefix_scan.bucket_hits (prefixes_of g) name is_dir limit \<union>
     suffix_scan.bucket_hits (suffixes_of g) name is_dir limit \<union>
     contains_scan.bucket_hits (contains_of g) name is_dir limit \<union>
     fixed_scan.bucket_hits (fixed_suffixes g) name is_dir limit \<union>
     general_scan.bucket_hits (general g) name is_dir limit"

definition pattern_hits :: "pattern list \<Rightarrow> bytes \<Rightarrow> bool \<Rightarrow> nat \<Rightarrow> hit set" where
  "pattern_hits ps name is_dir limit =
     {(pt_index p, pt_result p) | p. p \<in> set ps \<and> pt_index p < limit \<and> matches_name p name is_dir}"

lemma pattern_hits_Nil [simp]: "pattern_hits [] name is_dir limit = {}"
  by (simp add: pattern_hits_def)

lemma pattern_hits_Cons:
  "pattern_hits (p # ps) name is_dir limit = pattern_hits [p] name is_dir limit \<union> pattern_hits ps name is_dir limit"
  by (auto simp: pattern_hits_def)

definition wf_basename :: "pattern \<Rightarrow> bool" where
  "wf_basename p \<longleftrightarrow> wf_pattern p \<and> basename_only p"

lemma basename_glob_spec:
  assumes "wf_basename p" "basename_glob p = Some glob"
  shows "matches_name p name is_dir \<longleftrightarrow> (\<not> directory_only p \<or> is_dir) \<and> glob_spec glob name"
    "wf_glob glob"
proof -
  from assms(2) have cs: "components p = [Glob glob]"
    by (auto simp: basename_glob_def split: list.splits component.splits if_splits)
  with assms(1) show "wf_glob glob" by (auto simp: wf_basename_def wf_pattern_def wf_components_def)
  with cs show "matches_name p name is_dir \<longleftrightarrow> (\<not> directory_only p \<or> is_dir) \<and> glob_spec glob name"
    by (simp add: matches_name_def glob_matches_spec)
qed

lemma entry_hits_push:
  "entry_hits (entry_push m k e k') is_dir limit =
     entry_hits (m k') is_dir limit \<union>
     (if k' = k \<and> fm_index e < limit \<and> (\<not> fm_directory_only e \<or> is_dir) then {hit_of e} else {})"
  by (cases "m k") (auto simp: entry_hits_def entry_push_def)

lemma extension_dot:
  assumes "2 \<le> length ext" "hd ext = 0x2E" "0x2E \<notin> set (tl ext)"
  shows "ends_with name ext \<longleftrightarrow> (\<exists>dot. rposition (\<lambda>b. b = (0x2E::byte)) name = Some dot \<and> drop dot name = ext)"
proof
  assume "ends_with name ext"
  then obtain pre where name: "name = pre @ ext" by (auto simp: ends_with_iff_suffix elim: suffixE)
  with assms have "rposition (\<lambda>b. b = (0x2E::byte)) name = Some (length pre)"
    by (intro rposition_unique) (cases ext; force)+
  with name show "\<exists>dot. rposition (\<lambda>b. b = (0x2E::byte)) name = Some dot \<and> drop dot name = ext" by auto
next
  assume "\<exists>dot. rposition (\<lambda>b. b = (0x2E::byte)) name = Some dot \<and> drop dot name = ext"
  then show "ends_with name ext" by (metis ends_with_iff_suffix suffix_drop)
qed

lemma pattern_hits_single:
  "pattern_hits [p] name is_dir limit =
     (if pt_index p < limit \<and> matches_name p name is_dir then {(pt_index p, pt_result p)} else {})"
  by (auto simp: pattern_hits_def)

lemmas bucket_hits_snoc =
  prefix_scan.bucket_hits_snoc suffix_scan.bucket_hits_snoc contains_scan.bucket_hits_snoc
  fixed_scan.bucket_hits_snoc general_scan.bucket_hits_snoc

lemma fast_of_simps [simp]:
  "fm_index (fast_of p) = pt_index p" "fm_result (fast_of p) = pt_result p"
  "fm_directory_only (fast_of p) = directory_only p"
  by (simp_all add: fast_of_def)

lemma simple_extension_spec:
  assumes "wf_basename p" "simple_extension p = Some ext"
  shows "matches_name p name is_dir \<longleftrightarrow> (\<not> directory_only p \<or> is_dir) \<and>
    (\<exists>dot. rposition (\<lambda>b. b = (0x2E::byte)) name = Some dot \<and> drop dot name = ext)"
proof -
  from assms(2) have glob: "basename_glob p = Some [Star, Literal ext]"
    and ext: "2 \<le> length ext" "hd ext = 0x2E" "0x2E \<notin> set (tl ext)"
    by (auto simp: simple_extension_def split: option.splits list.splits atom.splits if_splits)
  show ?thesis
    unfolding basename_glob_spec(1) [OF assms(1) glob] glob_spec_suffix extension_dot [OF ext] ..
qed

lemma fixed_width_spec:
  assumes "wf_basename p" "fixed_basename_suffix_width p = Some w"
  shows "matches_fixed_basename_suffix p name is_dir w \<longleftrightarrow> matches_name p name is_dir"
proof -
  from assms(2) obtain atoms where glob: "basename_glob p = Some (Star # atoms)" and w: "sum_widths atoms = Some w"
    by (auto simp: fixed_basename_suffix_width_def split: option.splits list.splits atom.splits)
  show ?thesis
    using fixed_suffix_spec [OF w, of name]
    by (simp add: basename_glob_spec(1) [OF assms(1) glob] matches_fixed_basename_suffix_def glob checked_sub_def)
qed

lemma bucket_shapes:
  assumes "wf_basename p"
  shows "literal_basename p = Some lit \<Longrightarrow> matches_name p name is_dir \<longleftrightarrow> (\<not> directory_only p \<or> is_dir) \<and> name = lit"
    "basename_prefix p = Some pfx \<Longrightarrow> matches_name p name is_dir \<longleftrightarrow> (\<not> directory_only p \<or> is_dir) \<and> starts_with name pfx"
    "basename_suffix p = Some sfx \<Longrightarrow> matches_name p name is_dir \<longleftrightarrow> (\<not> directory_only p \<or> is_dir) \<and> ends_with name sfx"
    "basename_contains p = Some needle \<Longrightarrow> matches_name p name is_dir \<longleftrightarrow>
       (\<not> directory_only p \<or> is_dir) \<and> has_window name needle"
proof -
  note spec = basename_glob_spec [OF assms]
  show "literal_basename p = Some lit \<Longrightarrow> matches_name p name is_dir \<longleftrightarrow> (\<not> directory_only p \<or> is_dir) \<and> name = lit"
    by (auto simp: literal_basename_def bind_eq_Some_conv spec literal_bytes_spec)
  show "basename_prefix p = Some pfx \<Longrightarrow> matches_name p name is_dir \<longleftrightarrow> (\<not> directory_only p \<or> is_dir) \<and> starts_with name pfx"
    using spec [of "[Literal pfx, Star]"] glob_spec_prefix [of pfx name]
    by (auto simp: basename_prefix_def split: option.splits list.splits atom.splits)
  show "basename_suffix p = Some sfx \<Longrightarrow> matches_name p name is_dir \<longleftrightarrow> (\<not> directory_only p \<or> is_dir) \<and> ends_with name sfx"
    using spec [of "[Star, Literal sfx]"] glob_spec_suffix [of sfx name]
    by (auto simp: basename_suffix_def split: option.splits list.splits atom.splits)
  assume "basename_contains p = Some needle"
  then have glob: "basename_glob p = Some [Star, Literal needle, Star]"
    by (auto simp: basename_contains_def split: option.splits list.splits atom.splits)
  with spec(2) [OF glob] have "needle \<noteq> []" by (auto simp: wf_glob_def)
  from glob_spec_contains [OF this] show "matches_name p name is_dir \<longleftrightarrow>
       (\<not> directory_only p \<or> is_dir) \<and> has_window name needle"
    by (simp only: spec(1) [OF glob])
qed

lemma push_hits:
  assumes "wf_basename p"
  shows "index_hits (push g p) name is_dir limit = index_hits g name is_dir limit \<union> pattern_hits [p] name is_dir limit"
proof -
  note shapes = bucket_shapes [OF assms] simple_extension_spec [OF assms] fixed_width_spec [OF assms]
  note defs = push_def Let_def index_hits_def pattern_hits_single byte_test_def
  show ?thesis
  proof (cases "literal_basename p")
    case (Some lit)
    then show ?thesis by (simp add: defs shapes entry_hits_push ac_simps) blast
  next
    case lit: None
    show ?thesis
    proof (cases "simple_extension p")
      case (Some ext)
      with lit show ?thesis
        by (cases "rposition (\<lambda>b. b = (0x2E::byte)) name") (simp_all add: defs shapes extension_hits_def entry_hits_push ac_simps, blast)
    next
      case ext: None
      show ?thesis
        by (cases "basename_prefix p"; cases "basename_suffix p"; cases "basename_contains p"; cases "fixed_basename_suffix_width p")
           (simp_all add: defs lit ext shapes bucket_hits_snoc ac_simps, blast+)
    qed
  qed
qed

section \<open>Buckets stay in position order\<close>

definition sorted_entries :: "(bytes \<rightharpoonup> fast_match list) \<Rightarrow> bool" where
  "sorted_entries m \<longleftrightarrow> (\<forall>k es. m k = Some es \<longrightarrow> sorted (map fm_index es))"

definition sorted_index :: "gitignore \<Rightarrow> bool" where
  "sorted_index g \<longleftrightarrow>
     sorted_entries (literals g) \<and> sorted_entries (extensions g) \<and>
     sorted (map (\<lambda>x. fm_index (bf_action x)) (prefixes_of g)) \<and>
     sorted (map (\<lambda>x. fm_index (bf_action x)) (suffixes_of g)) \<and>
     sorted (map (\<lambda>x. fm_index (bf_action x)) (contains_of g)) \<and>
     sorted (map (\<lambda>x. pt_index (fs_pattern x)) (fixed_suffixes g)) \<and>
     sorted (map pt_index (general g))"

text \<open>Every position filed so far is at most \<open>n\<close>.\<close>

definition bounded_index :: "nat \<Rightarrow> gitignore \<Rightarrow> bool" where
  "bounded_index n g \<longleftrightarrow>
     (\<forall>k es e. literals g k = Some es \<longrightarrow> e \<in> set es \<longrightarrow> fm_index e \<le> n) \<and>
     (\<forall>k es e. extensions g k = Some es \<longrightarrow> e \<in> set es \<longrightarrow> fm_index e \<le> n) \<and>
     (\<forall>x \<in> set (prefixes_of g) \<union> set (suffixes_of g) \<union> set (contains_of g). fm_index (bf_action x) \<le> n) \<and>
     (\<forall>x \<in> set (fixed_suffixes g). pt_index (fs_pattern x) \<le> n) \<and>
     (\<forall>x \<in> set (general g). pt_index x \<le> n)"

lemma bounded_index_mono: "bounded_index n g \<Longrightarrow> n \<le> m \<Longrightarrow> bounded_index m g"
  unfolding bounded_index_def by (meson order_trans)

lemma sorted_entry_push:
  assumes "sorted_entries m" "\<forall>k es e. m k = Some es \<longrightarrow> e \<in> set es \<longrightarrow> fm_index e \<le> fm_index f"
  shows "sorted_entries (entry_push m k f)"
  using assms by (auto simp: sorted_entries_def entry_push_def sorted_append split: option.splits)

lemma entry_push_bounded:
  "entry_push m k f k' = Some es \<Longrightarrow> e \<in> set es \<Longrightarrow> e = f \<or> (\<exists>es. m k' = Some es \<and> e \<in> set es)"
  by (auto simp: entry_push_def split: if_splits option.splits)

lemma push_sorted:
  assumes "sorted_index g" "bounded_index (pt_index p) g"
  shows "sorted_index (push g p)" "bounded_index (pt_index p) (push g p)"
proof -
  have lits: "sorted_entries (entry_push (literals g) k (fast_of p))"
    and exts: "sorted_entries (entry_push (extensions g) k (fast_of p))" for k
    using assms by (auto simp: sorted_index_def bounded_index_def intro!: sorted_entry_push)
  show "sorted_index (push g p)"
    using assms lits exts unfolding sorted_index_def bounded_index_def
    by (auto simp: push_def Let_def sorted_append split: option.splits)
  show "bounded_index (pt_index p) (push g p)"
    using assms(2) unfolding bounded_index_def
    by (auto simp: push_def Let_def dest!: entry_push_bounded split: option.splits)
qed

lemma pushes:
  assumes "sorted (map pt_index ps)" "sorted_index g" "\<forall>p\<in>set ps. wf_basename p \<and> bounded_index (pt_index p) g"
  shows "sorted_index (foldl push g ps) \<and>
    index_hits (foldl push g ps) name is_dir limit = index_hits g name is_dir limit \<union> pattern_hits ps name is_dir limit"
  using assms
proof (induction ps arbitrary: g)
  case Nil
  then show ?case by simp
next
  case (Cons p ps)
  then have p: "wf_basename p" "bounded_index (pt_index p) g" and above: "\<forall>q\<in>set ps. pt_index p \<le> pt_index q"
    by auto
  note push = push_sorted [OF Cons.prems(2) p(2)]
  have "\<forall>q\<in>set ps. wf_basename q \<and> bounded_index (pt_index q) (push g p)"
    using Cons.prems(3) above bounded_index_mono [OF push(2)] by auto
  with Cons.IH [OF _ push(1)] Cons.prems(1) show ?case
    by (simp add: push_hits [OF p(1)] pattern_hits_Cons [of p ps] Un_assoc)
qed

section \<open>The lookup\<close>

lemma latest_fast_latest:
  assumes "sorted (map fm_index es)"
  shows "latest (entry_hits (Some es) is_dir limit) (map_option hit_of (latest_fast es is_dir limit))"
  using find_rev_latest [OF assms, of fm_result "\<lambda>e. fm_index e < limit \<and> (\<not> fm_directory_only e \<or> is_dir)"]
  by (simp add: latest_fast_def entry_hits_def image_def Collect_conj_eq conj_ac) (simp add: Bex_def conj_ac)

lemma entry_latest:
  assumes "sorted_entries m"
  shows "latest (entry_hits (m k) is_dir limit) (map_option hit_of (Option.bind (m k) (\<lambda>es. latest_fast es is_dir limit)))"
  using assms latest_fast_latest by (cases "m k") (auto simp: sorted_entries_def entry_hits_def [of None])

lemma latest_merge:
  assumes "latest S (map_option hit_of b)" "latest T (map_option hit_of c)"
  shows "latest (S \<union> T) (map_option hit_of (case c of None \<Rightarrow> b | Some x \<Rightarrow>
     if (case b of None \<Rightarrow> True | Some y \<Rightarrow> fm_index y < fm_index x) then Some x else b))"
  using assms by (cases b; cases c) force+

lemma best_below_latest:
  assumes "sorted_index g"
  shows "latest (index_hits g name is_dir limit) (best_below g name is_dir limit)"
proof -
  let ?fast = "\<lambda>m k. Option.bind (m k) (\<lambda>es. latest_fast es is_dir limit)"
  define b1 where "b1 = ?fast (literals g) name"
  define b2 where "b2 = (case rposition (\<lambda>b. b = 0x2E) name of None \<Rightarrow> b1 | Some dot \<Rightarrow>
     (case ?fast (extensions g) (drop dot name) of None \<Rightarrow> b1 | Some x \<Rightarrow>
       if (case b1 of None \<Rightarrow> True | Some y \<Rightarrow> fm_index y < fm_index x) then Some x else b1))"
  have one: "latest (entry_hits (literals g name) is_dir limit) (map_option hit_of b1)"
    unfolding b1_def using assms by (intro entry_latest) (simp add: sorted_index_def)
  have two: "latest (entry_hits (literals g name) is_dir limit \<union> extension_hits (extensions g) name is_dir limit) (map_option hit_of b2)"
    unfolding b2_def extension_hits_def
    using one assms latest_merge [OF one entry_latest] by (auto simp: sorted_index_def split: option.splits)
  have "latest (index_hits g name is_dir limit)
    (map_option hit_of (scan_patterns (general g) name is_dir limit
      (scan_fixed_suffixes (fixed_suffixes g) name is_dir limit
        (scan_byte_fast (contains_of g) name is_dir limit
          (scan_byte_fast (suffixes_of g) name is_dir limit
            (scan_byte_fast (prefixes_of g) name is_dir limit b2 starts_with) ends_with) has_window))))"
    using assms two unfolding index_hits_def scan_patterns_def scan_fixed_suffixes_def scan_byte_fast_def sorted_index_def
    by (blast intro: general_scan.scan_rev_latest fixed_scan.scan_rev_latest contains_scan.scan_rev_latest
        suffix_scan.scan_rev_latest prefix_scan.scan_rev_latest)
  then show ?thesis unfolding best_below_def b2_def b1_def Let_def .
qed

text \<open>The reference: try the patterns from the highest position down.\<close>

definition last_matching :: "pattern list \<Rightarrow> bytes \<Rightarrow> bool \<Rightarrow> nat \<Rightarrow> (nat \<times> match_result) option" where
  "last_matching ps name is_dir limit =
     map_option (\<lambda>p. (pt_index p, pt_result p))
       (find (\<lambda>p. pt_index p < limit \<and> matches_name p name is_dir) (rev (sort_key pt_index ps)))"

definition consistent_positions :: "pattern list \<Rightarrow> bool" where
  "consistent_positions ps \<longleftrightarrow> (\<forall>p\<in>set ps. \<forall>q\<in>set ps. pt_index p = pt_index q \<longrightarrow> pt_result p = pt_result q)"

lemma last_matching_latest: "latest (pattern_hits ps name is_dir limit) (last_matching ps name is_dir limit)"
  using find_rev_latest [of pt_index "sort_key pt_index ps" pt_result]
  by (simp add: last_matching_def pattern_hits_def)

lemma pattern_hits_single_valued: "consistent_positions ps \<Longrightarrow> single_valued (pattern_hits ps name is_dir limit)"
  unfolding consistent_positions_def pattern_hits_def single_valued_def by auto

lemma best_below_from_patterns:
  assumes "\<forall>p\<in>set ps. wf_basename p" "consistent_positions ps"
  shows "best_below (from_patterns ps) name is_dir limit = last_matching ps name is_dir limit"
proof -
  have "sorted_index gitignore_default" "index_hits gitignore_default name is_dir limit = {}"
    "bounded_index n gitignore_default" for n
    by (simp_all add: gitignore_default_def sorted_index_def sorted_entries_def bounded_index_def index_hits_def
        entry_hits_def extension_hits_def prefix_scan.bucket_hits_def suffix_scan.bucket_hits_def
        contains_scan.bucket_hits_def fixed_scan.bucket_hits_def general_scan.bucket_hits_def split: option.splits)
  with pushes [of "sort_key pt_index ps" gitignore_default name is_dir limit] assms(1)
  have sorted: "sorted_index (from_patterns ps)"
    and hits: "index_hits (from_patterns ps) name is_dir limit = pattern_hits ps name is_dir limit"
    by (simp_all add: from_patterns_def) (simp add: pattern_hits_def)
  show ?thesis
    by (rule latest_unique [OF _ last_matching_latest pattern_hits_single_valued [OF assms(2)]])
       (use best_below_latest [OF sorted, of name is_dir limit] in \<open>simp only: hits\<close>)
qed

section \<open>Parsing\<close>

lemma parse_lines_filter:
  "parse_lines lines patterns errors =
     (patterns @ List.map_filter (\<lambda>(i, l). case compile_pattern i (line_text l) of Inr r \<Rightarrow> r | Inl _ \<Rightarrow> None) lines,
      errors @ List.map_filter (\<lambda>(i, l). case compile_pattern i (line_text l) of Inr _ \<Rightarrow> None
        | Inl e \<Rightarrow> Some \<lparr>le_line = i + 1, le_pattern = line_text l, le_detail = e\<rparr>) lines)"
  by (induction lines patterns errors rule: parse_lines.induct)
     (auto simp: List.map_filter_simps Let_def split: sum.splits option.splits)

lemma map_filter_index_sorted:
  assumes "sorted_wrt (<) (map fst xs)" "\<And>x p. x \<in> set xs \<Longrightarrow> f x = Some p \<Longrightarrow> key p = fst x"
  shows "sorted_wrt (<) (map key (List.map_filter f xs)) \<and> (\<forall>p\<in>set (List.map_filter f xs). key p \<in> fst ` set xs)"
  using assms
proof (induction xs)
  case (Cons x xs)
  then have "sorted_wrt (<) (map key (List.map_filter f xs))" "\<forall>p\<in>set (List.map_filter f xs). key p \<in> fst ` set xs"
    and "\<forall>y\<in>set xs. fst x < fst y" "f x = Some p \<Longrightarrow> key p = fst x" for p by simp_all
  then show ?case by (force simp: List.map_filter_simps split: option.splits)
qed (simp add: List.map_filter_simps)

lemma parse_patterns:
  "sorted_wrt (<) (map pt_index (fst (parse input)))" "\<forall>p\<in>set (fst (parse input)). wf_pattern p"
proof -
  obtain ls where parse: "parse input = parse_lines (enumerate 0 ls) [] []"
    by (auto simp: parse_def Let_def)
  have comp: "compile_pattern i l = Inr (Some p) \<Longrightarrow> pt_index p = i \<and> wf_pattern p" for i l p
    by (simp add: compile_pattern_def compile_syntax_wf)
  show "sorted_wrt (<) (map pt_index (fst (parse input)))"
    unfolding parse parse_lines_filter
    by (simp, rule map_filter_index_sorted [THEN conjunct1])
       (auto simp: comp split: sum.splits)
  show "\<forall>p\<in>set (fst (parse input)). wf_pattern p"
    unfolding parse parse_lines_filter
    by (auto simp: map_filter_def comp split: sum.splits)
qed

text \<open>The lines of a file, joined again, and the text of a line that is compiled.\<close>

fun join_lines :: "bytes list \<Rightarrow> bytes" where
  "join_lines [] = []"
| "join_lines [l] = l"
| "join_lines (l # ls) = l @ 0x0A # join_lines ls"

definition bare_line :: "bytes \<Rightarrow> bytes" where
  "bare_line l = takeWhile (\<lambda>b. b \<noteq> 0) (if l \<noteq> [] \<and> last l = 0x0D then butlast l else l)"

lemma join_lines_Cons: "ls \<noteq> [] \<Longrightarrow> join_lines (l # ls) = l @ 0x0A # join_lines ls"
  by (cases ls) simp_all

lemma join_lines_first: "join_lines ((b # l) # ls) = b # join_lines (l # ls)"
  by (cases ls) simp_all

lemma join_split: "join_lines (split_at 0x0A bs) = bs"
proof (induction bs)
  case (Cons b bs)
  obtain l ls where "split_at 0x0A bs = l # ls" by (cases "split_at 0x0A bs") (use split_at_not_Nil in auto)
  with Cons show ?case by (simp add: join_lines_Cons join_lines_first)
qed simp

lemma hd_split_at: "hd (split_at c bs) = takeWhile (\<lambda>b. b \<noteq> c) bs"
  by (induction bs) (auto split: list.splits)

lemma line_text_bare: "line_text l = bare_line l"
proof -
  have "(case strip_suffix [0x0D] l of Some l \<Rightarrow> l | None \<Rightarrow> l) = (if l \<noteq> [] \<and> last l = 0x0D then butlast l else l)"
    by (cases l rule: rev_cases) (auto simp: strip_suffix_def ends_with_def)
  then show ?thesis unfolding line_text_def Let_def hd_split_at bare_line_def by simp
qed

section \<open>Properties\<close>

text \<open>
  C10: the bucketed index answers, for every name and limit, with the position
  and action of the highest-numbered pattern below the limit that matches the
  name, the same as trying the patterns one by one from the highest down.
  Patterns may come in any order; those with equal positions must agree on
  their action.
\<close>

theorem index_finds_last_match:
  assumes "\<forall>p\<in>set ps. wf_pattern p \<and> basename_only p" "consistent_positions ps"
  shows "best_below (from_patterns ps) name is_dir limit = last_matching ps name is_dir limit"
  using best_below_from_patterns assms by (simp add: wf_basename_def)

theorem index_finds_last_match_witness:
  "best_below (from_patterns
     [\<lparr>pt_index = 1, pt_result = Whitelist, directory_only = False, basename_only = True, components = [Glob [Star, Literal [0x2E, 0x6F]]]\<rparr>,
      \<lparr>pt_index = 0, pt_result = Ignore, directory_only = False, basename_only = True, components = [Glob [Literal [0x61], Star]]\<rparr>])
     [0x61, 0x2E, 0x6F] False 5 = Some (1, Whitelist)"
proof -
  let ?ps = "[\<lparr>pt_index = 1, pt_result = Whitelist, directory_only = False, basename_only = True, components = [Glob [Star, Literal [0x2E, 0x6F]]]\<rparr>,
      \<lparr>pt_index = 0, pt_result = Ignore, directory_only = False, basename_only = True, components = [Glob [Literal [0x61], Star]]\<rparr>] :: pattern list"
  have "\<forall>p\<in>set ?ps. wf_pattern p \<and> basename_only p" by (simp add: wf_pattern_def wf_components_def wf_glob_def)
  moreover have "consistent_positions ?ps" by (simp add: consistent_positions_def)
  moreover have "last_matching ?ps [0x61, 0x2E, 0x6F] False 5 = Some (1, Whitelist)" by code_simp
  ultimately show ?thesis using index_finds_last_match [of ?ps "[0x61, 0x2E, 0x6F]" False 5] by (simp only:)
qed

text \<open>
  C27: parsing a file contributes each of its lines, alone and in order. Every file is its lines joined by line feeds, after a byte order mark if it
  starts with one, and each line, less one trailing carriage return and what follows a NUL, gives its pattern, numbered by the line and well formed,
  or nothing, or one error with its line number if it does not compile; a bad line never changes what another line contributes.
\<close>

theorem parse_each_line_alone:
  "\<exists>bom lines. input = bom @ join_lines lines \<and> lines \<noteq> [] \<and> (\<forall>l\<in>set lines. 0x0A \<notin> set l) \<and>
     (bom = [0xEF, 0xBB, 0xBF] \<or> bom = [] \<and> \<not> starts_with input [0xEF, 0xBB, 0xBF]) \<and>
     parse input =
       (List.map_filter (\<lambda>(i, l). case compile_pattern i (bare_line l) of Inr r \<Rightarrow> r | Inl _ \<Rightarrow> None) (enumerate 0 lines),
        List.map_filter (\<lambda>(i, l). case compile_pattern i (bare_line l) of Inr _ \<Rightarrow> None
          | Inl e \<Rightarrow> Some \<lparr>le_line = i + 1, le_pattern = bare_line l, le_detail = e\<rparr>) (enumerate 0 lines)) \<and>
     sorted_wrt (<) (map pt_index (fst (parse input))) \<and> (\<forall>p\<in>set (fst (parse input)). wf_pattern p)"
proof -
  let ?mark = "[0xEF, 0xBB, 0xBF] :: bytes"
  define bom where "bom = (if starts_with input ?mark then ?mark else [])"
  define body where "body = drop (length bom) input"
  have "(case strip_prefix ?mark input of Some t \<Rightarrow> t | None \<Rightarrow> input) = body"
    by (simp add: strip_prefix_def body_def bom_def)
  then have "parse input = parse_lines (enumerate 0 (split_at 0x0A body)) [] []" by (simp add: parse_def)
  note eq = this [unfolded parse_lines_filter append_Nil line_text_bare]
  have "take (length bom) input = bom" by (simp add: bom_def starts_with_def)
  then have "input = bom @ body" by (metis append_take_drop_id body_def)
  then have "input = bom @ join_lines (split_at 0x0A body)" by (simp add: join_split)
  moreover have "bom = ?mark \<or> bom = [] \<and> \<not> starts_with input ?mark" by (simp add: bom_def)
  ultimately show ?thesis
    by (intro exI [of _ bom] exI [of _ "split_at 0x0A body"] conjI eq parse_patterns ballI) (simp_all add: split_at_no_separator)
qed

text \<open>A closed instance: three lines, the second with a trailing backslash.\<close>

theorem parse_each_line_alone_witness:
  "map pt_index (fst (parse [0x61, 0x0A, 0x5C, 0x0A, 0x62])) = [0, 2] \<and>
   map le_line (snd (parse [0x61, 0x0A, 0x5C, 0x0A, 0x62])) = [2] \<and>
   sorted_wrt (<) (map pt_index (fst (parse [0x61, 0x0A, 0x5C, 0x0A, 0x62])))"
proof -
  have "map pt_index (fst (parse [0x61, 0x0A, 0x5C, 0x0A, 0x62])) = [0, 2]"
    "map le_line (snd (parse [0x61, 0x0A, 0x5C, 0x0A, 0x62])) = [2]" by code_simp+
  with parse_each_line_alone [of "[0x61, 0x0A, 0x5C, 0x0A, 0x62]"] show ?thesis by blast
qed

end
