(* ===== verification/Rule_Lists.thy ===== *)
theory Rule_Lists
  imports Gitignore
begin

text \<open>
  Interned rules and rule lists (\<open>ferret-policy/src/lists.rs\<close>): a list of
  rules is compiled into one index in which a rule's position is its place in
  the list; two tables give each distinct rule one id and each distinct id
  list one compiled list. The tables are association lists: a rule's id is the
  table's length when it is first seen. The mutexes make each table access one
  step; the two accesses of \<open>Lists::list\<close>, with the compilation between them
  outside the lock, are separate steps of the relation \<open>list_step\<close>.

  Results: the compiled list answers with the last matching rule of the list
  and its band; interning keeps ids and rules in bijection, so equal keys mean
  equal lists; however threads interleave, every caller of one key gets the
  same compiled list.
\<close>

section \<open>Bands\<close>

datatype band = Global | Repo | Ferret

fun band_rank :: "band \<Rightarrow> nat" where
  "band_rank Global = 0"
| "band_rank Repo = 1"
| "band_rank Ferret = 2"

lemma band_rank_inject [simp]: "band_rank a = band_rank b \<longleftrightarrow> a = b"
  by (cases a; cases b) auto

instantiation band :: linorder
begin

definition less_eq_band :: "band \<Rightarrow> band \<Rightarrow> bool" where
  "a \<le> b \<longleftrightarrow> band_rank a \<le> band_rank b"

definition less_band :: "band \<Rightarrow> band \<Rightarrow> bool" where
  "a < b \<longleftrightarrow> band_rank a < band_rank b"

instance
  by standard (auto simp: less_eq_band_def less_band_def)

end

section \<open>Rules and compiled lists\<close>

record rule =
  r_id :: nat
  r_pattern :: pattern
  r_band :: band

record rule_list =
  rl_key :: "nat list"
  rl_index :: gitignore
  rl_repo_from :: nat
  rl_ferret_from :: nat

definition list_compile :: "rule list \<Rightarrow> rule_list" where
  "list_compile rules =
     \<lparr>rl_key = map r_id rules,
      rl_index = from_patterns (map (\<lambda>(at, rule). renumbered (r_pattern rule) at) (enumerate 0 rules)),
      rl_repo_from = partition_point (\<lambda>rule. r_band rule = Global) rules,
      rl_ferret_from = partition_point (\<lambda>rule. r_band rule < Ferret) rules\<rparr>"

definition last_match :: "rule_list \<Rightarrow> bytes \<Rightarrow> bool \<Rightarrow> (bool \<times> bool) option" where
  "last_match l name is_dir =
     map_option (\<lambda>(at, result). (result = Whitelist, rl_ferret_from l \<le> at)) (best (rl_index l) name is_dir)"

definition repo_whitelists :: "rule_list \<Rightarrow> bytes \<Rightarrow> bool \<Rightarrow> bool" where
  "repo_whitelists l name is_dir =
     (case best_below (rl_index l) name is_dir (rl_ferret_from l) of
        Some (at, result) \<Rightarrow> rl_repo_from l \<le> at \<and> result = Whitelist
      | None \<Rightarrow> False)"

section \<open>The tables\<close>

record lists =
  rules_table :: "((rule_text \<times> band) \<times> rule) list"
  lists_table :: "(nat list \<times> rule_list) list"

definition lists_default :: lists where
  "lists_default = \<lparr>rules_table = [], lists_table = []\<rparr>"

text \<open>\<open>map.entry(key).or_insert(value)\<close>: what the entry holds afterwards, and the table.\<close>

definition entry_or_insert :: "('k \<times> 'v) list \<Rightarrow> 'k \<Rightarrow> 'v \<Rightarrow> 'v \<times> ('k \<times> 'v) list" where
  "entry_or_insert table key value =
     (case map_of table key of
        Some present \<Rightarrow> (present, table)
      | None \<Rightarrow> (value, table @ [(key, value)]))"

definition lists_rule :: "lists \<Rightarrow> pattern \<Rightarrow> band \<Rightarrow> rule \<times> lists" where
  "lists_rule ls p band =
     (let id = length (rules_table ls);
          (rule, table) = entry_or_insert (rules_table ls) (pattern_text p, band)
                            \<lparr>r_id = id, r_pattern = p, r_band = band\<rparr>
      in (rule, ls\<lparr>rules_table := table\<rparr>))"

definition lists_list :: "lists \<Rightarrow> nat list \<Rightarrow> rule list \<Rightarrow> rule_list \<times> lists" where
  "lists_list ls key rules =
     (case map_of (lists_table ls) key of
        Some l \<Rightarrow> (l, ls)
      | None \<Rightarrow>
          (let l = list_compile rules;
               (l, table) = entry_or_insert (lists_table ls) (rl_key l) l
           in (l, ls\<lparr>lists_table := table\<rparr>)))"

section \<open>What a compiled list answers\<close>

definition rules_ok :: "rule list \<Rightarrow> bool" where
  "rules_ok rules \<longleftrightarrow> (\<forall>r\<in>set rules. wf_basename (r_pattern r)) \<and> sorted (map r_band rules)"

definition rule_hits :: "bytes \<Rightarrow> bool \<Rightarrow> rule \<Rightarrow> bool" where
  "rule_hits name is_dir rule \<longleftrightarrow> matches_name (r_pattern rule) name is_dir"

lemma renumbered_simps [simp]:
  "pt_index (renumbered p i) = i" "pt_result (renumbered p i) = pt_result p"
  "matches_name (renumbered p i) name is_dir = matches_name p name is_dir"
  "wf_basename (renumbered p i) = wf_basename p"
  by (simp_all add: renumbered_def matches_name_def wf_basename_def wf_pattern_def)

lemma rposition_snoc:
  "rposition P (xs @ [x]) = (if P x then Some (length xs) else rposition P xs)"
  by (induction xs) (auto split: option.splits)

lemma find_enumerate_rev:
  "find (\<lambda>(i, x). i < limit \<and> P x) (rev (enumerate 0 xs)) =
     map_option (\<lambda>i. (i, xs ! i)) (rposition P (take limit xs))"
proof (induction xs rule: rev_induct)
  case (snoc x xs)
  have same: "map_option (\<lambda>i. (i, (xs @ [x]) ! i)) (rposition P (take limit xs)) =
      map_option (\<lambda>i. (i, xs ! i)) (rposition P (take limit xs))"
    by (cases "rposition P (take limit xs)") (auto simp: nth_append dest!: rposition_Some)
  show ?case
  proof (cases "length xs < limit")
    case True
    with snoc same show ?thesis
      by (simp add: enumerate_append_eq rposition_snoc take_Cons' del: nth_append)
  next
    case False
    with snoc same show ?thesis by (simp add: enumerate_append_eq)
  qed
qed simp

lemma find_map: "find P (map f xs) = map_option f (find (\<lambda>x. P (f x)) xs)"
  by (induction xs) auto

lemma sorted_renumbered:
  "sorted (map pt_index (map (\<lambda>(at, rule). renumbered (r_pattern rule) at) (enumerate n rules)))"
  by (simp add: comp_def split_beta)

lemma list_best_below:
  assumes "\<forall>r\<in>set rules. wf_basename (r_pattern r)"
  shows "best_below (rl_index (list_compile rules)) name is_dir limit =
    map_option (\<lambda>i. (i, pt_result (r_pattern (rules ! i)))) (rposition (rule_hits name is_dir) (take limit rules))"
proof -
  let ?ps = "map (\<lambda>(at, rule). renumbered (r_pattern rule) at) (enumerate 0 rules)"
  have "\<forall>p\<in>set ?ps. wf_basename p" using assms by (auto simp: in_set_enumerate_eq)
  moreover have "consistent_positions ?ps"
    by (auto simp: consistent_positions_def in_set_enumerate_eq)
  moreover have "sort_key pt_index ?ps = ?ps" using sorted_renumbered by (rule sort_key_id_if_sorted)
  ultimately have "best_below (rl_index (list_compile rules)) name is_dir limit =
     map_option (\<lambda>p. (pt_index p, pt_result p)) (find (\<lambda>p. pt_index p < limit \<and> matches_name p name is_dir) (rev ?ps))"
    by (simp only: list_compile_def rule_list.simps best_below_from_patterns last_matching_def)
  also have "\<dots> = map_option (\<lambda>(i, r). (i, pt_result (r_pattern r)))
      (find (\<lambda>(i, r). i < limit \<and> rule_hits name is_dir r) (rev (enumerate 0 rules)))"
    by (simp add: rev_map find_map option.map_comp comp_def case_prod_unfold rule_hits_def)
  also have "\<dots> = map_option (\<lambda>i. (i, pt_result (r_pattern (rules ! i)))) (rposition (rule_hits name is_dir) (take limit rules))"
    by (simp add: find_enumerate_rev option.map_comp comp_def)
  finally show ?thesis .
qed

text \<open>
  The reference: the last rule of the list, in order, that matches; and the
  last one among the rules that are not from a \<open>.ferretignore\<close>.
\<close>

definition last_rule :: "rule list \<Rightarrow> bytes \<Rightarrow> bool \<Rightarrow> rule option" where
  "last_rule rules name is_dir = find (rule_hits name is_dir) (rev rules)"

lemma last_rule_rposition: "last_rule rules name is_dir = map_option ((!) rules) (rposition (rule_hits name is_dir) rules)"
proof (induction rules rule: rev_induct)
  case (snoc r rules)
  then show ?case
    by (cases "rposition (rule_hits name is_dir) rules")
       (auto simp: last_rule_def rposition_snoc nth_append dest!: rposition_Some)
qed (simp add: last_rule_def)

lemma partition_point_bands:
  assumes "sorted (map r_band rules)" "i < length rules"
  shows "partition_point (\<lambda>r. r_band r < Ferret) rules \<le> i \<longleftrightarrow> r_band (rules ! i) = Ferret"
    "partition_point (\<lambda>r. r_band r = Global) rules \<le> i \<longleftrightarrow> r_band (rules ! i) \<noteq> Global"
proof -
  have edge: "partition_point P rules \<le> i \<longleftrightarrow> \<not> P (rules ! i)"
    if mono: "\<And>a b. r_band a \<le> r_band b \<Longrightarrow> P b \<Longrightarrow> P a" for P
  proof (rule partition_point_le [OF assms(2)])
    fix i j
    assume "i \<le> j" "j < length rules" "P (rules ! j)"
    with sorted_nth_mono [OF assms(1), of i j] mono show "P (rules ! i)" by simp
  qed
  have "a < Ferret \<longleftrightarrow> a \<noteq> Ferret" for a by (cases a) (auto simp: less_band_def)
  with edge [of "\<lambda>r. r_band r < Ferret"] show "partition_point (\<lambda>r. r_band r < Ferret) rules \<le> i \<longleftrightarrow> r_band (rules ! i) = Ferret"
    by (metis order_le_less_trans)
  have "a \<le> Global \<longleftrightarrow> a = Global" for a by (cases a) (auto simp: less_eq_band_def)
  with edge [of "\<lambda>r. r_band r = Global"] show "partition_point (\<lambda>r. r_band r = Global) rules \<le> i \<longleftrightarrow> r_band (rules ! i) \<noteq> Global"
    by metis
qed

lemma last_match_last_rule:
  assumes "rules_ok rules" "length rules < 2 ^ 64"
  shows "last_match (list_compile rules) name is_dir =
    map_option (\<lambda>r. (is_whitelist (r_pattern r), r_band r = Ferret)) (last_rule rules name is_dir)"
proof -
  have take: "take (2 ^ 64 - 1) rules = rules" using assms(2) by simp
  have wf: "\<forall>r\<in>set rules. wf_basename (r_pattern r)" and sorted: "sorted (map r_band rules)"
    using assms(1) by (auto simp: rules_ok_def)
  have bounds: "rl_ferret_from (list_compile rules) = partition_point (\<lambda>r. r_band r < Ferret) rules"
    by (simp add: list_compile_def)
  show ?thesis
    unfolding last_match_def best_def list_best_below [OF wf] take last_rule_rposition bounds
    by (cases "rposition (rule_hits name is_dir) rules")
       (auto simp: is_whitelist_def partition_point_bands [OF sorted] dest!: rposition_Some)
qed

lemma take_below_ferret:
  assumes "sorted (map r_band rules)"
  shows "take (partition_point (\<lambda>r. r_band r < Ferret) rules) rules = filter (\<lambda>r. r_band r \<noteq> Ferret) rules"
  using assms
proof (induction rules)
  case (Cons r rules)
  have "r_band r < Ferret \<longleftrightarrow> r_band r \<noteq> Ferret" by (cases "r_band r") (auto simp: less_band_def)
  moreover have "filter (\<lambda>r. r_band r \<noteq> Ferret) rules = []" if "r_band r = Ferret"
    using Cons.prems that by (auto simp: filter_empty_conv less_eq_band_def) (metis band_rank.cases band_rank.simps numeral_le_one_iff le_zero_eq semiring_norm(69) zero_neq_numeral)
  ultimately show ?case using Cons by (auto simp: partition_point_def)
qed (simp add: partition_point_def)

lemma repo_whitelists_last_rule:
  assumes "rules_ok rules"
  shows "repo_whitelists (list_compile rules) name is_dir \<longleftrightarrow>
    (case last_rule (filter (\<lambda>r. r_band r \<noteq> Ferret) rules) name is_dir of
       Some r \<Rightarrow> r_band r = Repo \<and> is_whitelist (r_pattern r) | None \<Rightarrow> False)"
proof -
  have wf: "\<forall>r\<in>set rules. wf_basename (r_pattern r)" and sorted: "sorted (map r_band rules)"
    using assms by (auto simp: rules_ok_def)
  let ?n = "partition_point (\<lambda>r. r_band r < Ferret) rules"
  have bounds: "rl_ferret_from (list_compile rules) = ?n"
    "rl_repo_from (list_compile rules) = partition_point (\<lambda>r. r_band r = Global) rules"
    by (simp_all add: list_compile_def)
  note eqs = repo_whitelists_def bounds list_best_below [OF wf] last_rule_rposition take_below_ferret [OF sorted, symmetric]
  show ?thesis
  proof (cases "rposition (rule_hits name is_dir) (take ?n rules)")
    case None
    then show ?thesis by (simp add: eqs)
  next
    case (Some i)
    then have i: "i < length rules" "i < ?n" by (auto dest: rposition_Some)
    have "r_band (rules ! i) \<noteq> Global \<longleftrightarrow> r_band (rules ! i) = Repo"
      using partition_point_bands(1) [OF sorted i(1)] i(2) by (cases "r_band (rules ! i)") auto
    with Some i partition_point_bands(2) [OF sorted i(1)] show ?thesis
      by (simp add: eqs is_whitelist_def)
  qed
qed

section \<open>Interning\<close>

lemma entry_or_insert_lookup:
  "map_of (snd (entry_or_insert t k v)) = (map_of t)(k \<mapsto> fst (entry_or_insert t k v))"
  "fst (entry_or_insert t k v) = (case map_of t k of Some x \<Rightarrow> x | None \<Rightarrow> v)"
  by (auto simp: entry_or_insert_def map_add_def fun_eq_iff split: option.splits)

lemma entry_or_insert_dom:
  "map fst (snd (entry_or_insert t k v)) = (if k \<in> fst ` set t then map fst t else map fst t @ [k])"
  by (auto simp: entry_or_insert_def map_of_eq_None_iff split: option.splits dest!: map_of_SomeD) force

text \<open>
  The rule table: the entry at place \<open>i\<close> has id \<open>i\<close> and is the rule of its
  key. The list table: an entry is the compiled list of rules of the table
  whose ids are its key.
\<close>

definition rule_entry_ok :: "nat \<Rightarrow> (rule_text \<times> band) \<times> rule \<Rightarrow> bool" where
  "rule_entry_ok i e \<longleftrightarrow>
     r_id (snd e) = i \<and> fst e = (pattern_text (r_pattern (snd e)), r_band (snd e)) \<and>
     wf_basename (r_pattern (snd e)) \<and> basename_glob (r_pattern (snd e)) \<noteq> None"

definition rules_interned :: "lists \<Rightarrow> bool" where
  "rules_interned ls \<longleftrightarrow> (\<forall>i<length (rules_table ls). rule_entry_ok i (rules_table ls ! i)) \<and>
     distinct (map fst (rules_table ls))"

definition known_rules :: "lists \<Rightarrow> rule set" where
  "known_rules ls = snd ` set (rules_table ls)"

definition lists_interned :: "lists \<Rightarrow> bool" where
  "lists_interned ls \<longleftrightarrow>
     (\<forall>(key, l)\<in>set (lists_table ls).
        \<exists>rules. set rules \<subseteq> known_rules ls \<and> key = map r_id rules \<and> l = list_compile rules)"

definition wf_lists :: "lists \<Rightarrow> bool" where
  "wf_lists ls \<longleftrightarrow> rules_interned ls \<and> lists_interned ls"

lemma wf_lists_default [simp]: "wf_lists lists_default"
  by (simp add: wf_lists_def rules_interned_def lists_interned_def lists_default_def)

lemma known_rule_ok:
  assumes "wf_lists ls" "r \<in> known_rules ls"
  shows "r_id r < length (rules_table ls)" "rules_table ls ! r_id r = ((pattern_text (r_pattern r), r_band r), r)"
    "wf_basename (r_pattern r)" "basename_glob (r_pattern r) \<noteq> None"
proof -
  from assms(2) obtain i where i: "i < length (rules_table ls)" "r = snd (rules_table ls ! i)"
    by (auto simp: known_rules_def in_set_conv_nth)
  have "rule_entry_ok i (rules_table ls ! i)"
    using assms(1) i(1) by (auto simp: wf_lists_def rules_interned_def)
  with i show "r_id r < length (rules_table ls)" "wf_basename (r_pattern r)" "basename_glob (r_pattern r) \<noteq> None"
    "rules_table ls ! r_id r = ((pattern_text (r_pattern r), r_band r), r)"
    by (auto simp: rule_entry_ok_def prod_eq_iff)
qed

lemma rule_entry_key:
  "wf_lists ls \<Longrightarrow> (k, r) \<in> set (rules_table ls) \<Longrightarrow> k = (pattern_text (r_pattern r), r_band r)"
  unfolding wf_lists_def rules_interned_def rule_entry_ok_def by (metis fst_conv in_set_conv_nth snd_conv)

lemma known_rules_id_inj: "wf_lists ls \<Longrightarrow> inj_on r_id (known_rules ls)"
  by (rule inj_onI) (metis known_rule_ok(2) snd_conv)

lemma key_determines_rules:
  assumes "wf_lists ls" "set rules \<subseteq> known_rules ls" "set rules' \<subseteq> known_rules ls" "map r_id rules = map r_id rules'"
  shows "rules = rules'"
  using known_rules_id_inj [OF assms(1)] assms(2-4) by (metis inj_on_map_eq_map inj_on_subset Un_subset_iff)

text \<open>Two patterns with one text match the same names and have the same action.\<close>

lemma same_text:
  assumes "pattern_text p = pattern_text q" "basename_glob p \<noteq> None" "basename_glob q \<noteq> None"
  shows "matches_name p = matches_name q" "is_whitelist p = is_whitelist q"
proof -
  from assms(2,3) obtain g h where "components p = [Glob g]" "components q = [Glob h]"
    by (auto simp: basename_glob_def split: list.splits component.splits if_splits)
  with assms(1) show "matches_name p = matches_name q" "is_whitelist p = is_whitelist q"
    by (auto simp: pattern_text_def matches_name_def fun_eq_iff)
qed

lemma lists_rule_interned:
  assumes ls: "wf_lists ls" and p: "wf_basename p" "basename_glob p \<noteq> None"
    and rule: "lists_rule ls p band = (r, ls')"
  shows "wf_lists ls'" "r \<in> known_rules ls'" "known_rules ls \<subseteq> known_rules ls'"
    "r_band r = band" "matches_name (r_pattern r) = matches_name p" "is_whitelist (r_pattern r) = is_whitelist p"
    "wf_basename (r_pattern r)"
proof -
  let ?new = "\<lparr>r_id = length (rules_table ls), r_pattern = p, r_band = band\<rparr>"
  have "wf_lists ls' \<and> r \<in> known_rules ls' \<and> known_rules ls \<subseteq> known_rules ls' \<and>
    pattern_text (r_pattern r) = pattern_text p \<and> r_band r = band"
  proof (cases "map_of (rules_table ls) (pattern_text p, band)")
    case (Some present)
    with rule have eq: "r = present" "ls' = ls"
      by (auto simp: lists_rule_def entry_or_insert_def Let_def)
    from Some have "present \<in> known_rules ls" "((pattern_text p, band), present) \<in> set (rules_table ls)"
      by (force simp: known_rules_def dest: map_of_SomeD)+
    with ls rule_entry_key [OF ls this(2)] show ?thesis unfolding eq by simp
  next
    case None
    with rule have eq: "r = ?new" "ls' = ls\<lparr>rules_table := rules_table ls @ [((pattern_text p, band), ?new)]\<rparr>"
      by (auto simp: lists_rule_def entry_or_insert_def Let_def)
    have known: "known_rules ls' = insert ?new (known_rules ls)" by (simp add: eq known_rules_def)
    have "rules_interned ls'"
      using ls p None by (auto simp: eq wf_lists_def rules_interned_def nth_append less_Suc_eq rule_entry_ok_def map_of_eq_None_iff)
    moreover have "lists_interned ls'"
      using ls unfolding wf_lists_def lists_interned_def known by (simp add: eq) blast
    ultimately show ?thesis by (auto simp: wf_lists_def known eq(1))
  qed
  note this [THEN conjunct1] and rest = this
  then show "wf_lists ls'" "r \<in> known_rules ls'" "known_rules ls \<subseteq> known_rules ls'" "r_band r = band" by auto
  note ok = known_rule_ok [OF this(1,2)]
  from ok show "wf_basename (r_pattern r)" by simp
  show "matches_name (r_pattern r) = matches_name p" "is_whitelist (r_pattern r) = is_whitelist p"
    using same_text [of "r_pattern r" p] rest ok p by auto
qed

lemma ball_subset_insert: "A \<subseteq> insert x B \<Longrightarrow> P x \<Longrightarrow> \<forall>y\<in>B. P y \<Longrightarrow> \<forall>y\<in>A. P y"
  by auto

lemma lists_list_interned:
  assumes ls: "wf_lists ls" and rules: "set rules \<subseteq> known_rules ls"
  shows "fst (lists_list ls (map r_id rules) rules) = list_compile rules"
    "wf_lists (snd (lists_list ls (map r_id rules) rules))"
    "known_rules (snd (lists_list ls (map r_id rules) rules)) = known_rules ls"
proof -
  let ?key = "map r_id rules"
  have key: "rl_key (list_compile rules) = ?key" by (simp add: list_compile_def)
  have "l = list_compile rules" if "map_of (lists_table ls) ?key = Some l" for l
  proof -
    from map_of_SomeD [OF that] ls obtain rules' where "set rules' \<subseteq> known_rules ls" "?key = map r_id rules'" "l = list_compile rules'"
      by (auto simp: wf_lists_def lists_interned_def)
    with key_determines_rules [OF ls rules] show ?thesis by simp
  qed
  then show "fst (lists_list ls ?key rules) = list_compile rules"
    by (auto simp: lists_list_def Let_def split_beta key entry_or_insert_lookup(2) split: option.splits)
  show known: "known_rules (snd (lists_list ls ?key rules)) = known_rules ls"
    by (auto simp: lists_list_def known_rules_def Let_def split_beta split: option.splits)
  have table: "set (lists_table (snd (lists_list ls ?key rules))) \<subseteq> insert (?key, list_compile rules) (set (lists_table ls))"
    "rules_table (snd (lists_list ls ?key rules)) = rules_table ls"
    by (auto simp: lists_list_def Let_def split_beta key entry_or_insert_def split: option.splits)
  have "rules_interned (snd (lists_list ls ?key rules))"
    using ls by (simp add: wf_lists_def rules_interned_def table(2))
  moreover have "lists_interned (snd (lists_list ls ?key rules))"
    unfolding lists_interned_def known using table(1)
  proof (rule ball_subset_insert)
    show "\<forall>(key, l)\<in>set (lists_table ls). \<exists>rules. set rules \<subseteq> known_rules ls \<and> key = map r_id rules \<and> l = list_compile rules"
      using ls by (simp add: wf_lists_def lists_interned_def)
  qed (use rules in auto)
  ultimately show "wf_lists (snd (lists_list ls ?key rules))" by (simp add: wf_lists_def)
qed

section \<open>Interleaved lookups\<close>

text \<open>
  Threads calling \<open>Lists::list\<close> at once. Each call looks the key up under the
  lock, compiles on a miss with the lock released, and inserts unless another
  thread has inserted meanwhile. A compiled list is an \<open>Arc\<close>: a value at an
  address, the address drawn from a counter so that two compilations differ.
\<close>

type_synonym list_arc = "nat \<times> rule_list"

datatype phase =
    Asking "rule list"
  | Compiled "rule list" list_arc
  | Returned "rule list" list_arc

record shared_lists =
  sl_table :: "(nat list \<times> list_arc) list"
  sl_next :: nat
  sl_threads :: "nat \<rightharpoonup> phase"

inductive list_step :: "shared_lists \<Rightarrow> shared_lists \<Rightarrow> bool" where
  call: "sl_threads s t = None \<Longrightarrow> list_step s (s\<lparr>sl_threads := (sl_threads s)(t \<mapsto> Asking rules)\<rparr>)"
| hit: "sl_threads s t = Some (Asking rules) \<Longrightarrow> map_of (sl_table s) (map r_id rules) = Some l \<Longrightarrow>
    list_step s (s\<lparr>sl_threads := (sl_threads s)(t \<mapsto> Returned rules l)\<rparr>)"
| miss: "sl_threads s t = Some (Asking rules) \<Longrightarrow> map_of (sl_table s) (map r_id rules) = None \<Longrightarrow>
    list_step s (s\<lparr>sl_next := Suc (sl_next s),
      sl_threads := (sl_threads s)(t \<mapsto> Compiled rules (sl_next s, list_compile rules))\<rparr>)"
| insert: "sl_threads s t = Some (Compiled rules l) \<Longrightarrow>
    entry_or_insert (sl_table s) (rl_key (snd l)) l = (kept, table) \<Longrightarrow>
    list_step s (s\<lparr>sl_table := table, sl_threads := (sl_threads s)(t \<mapsto> Returned rules kept)\<rparr>)"

inductive_cases list_stepE: "list_step s s'"

definition shared_start :: shared_lists where
  "shared_start = \<lparr>sl_table = [], sl_next = 0, sl_threads = Map.empty\<rparr>"

definition returned_ok :: "shared_lists \<Rightarrow> bool" where
  "returned_ok s \<longleftrightarrow>
     (\<forall>t rules l. sl_threads s t = Some (Returned rules l) \<longrightarrow> map_of (sl_table s) (map r_id rules) = Some l) \<and>
     (\<forall>t rules l. sl_threads s t = Some (Compiled rules l) \<longrightarrow> snd l = list_compile rules) \<and>
     (\<forall>key l. map_of (sl_table s) key = Some l \<longrightarrow>
        (\<exists>rules. map r_id rules = key \<and> snd l = list_compile rules))"

lemma rl_key_compile [simp]: "rl_key (list_compile rules) = map r_id rules"
  by (simp add: list_compile_def)

lemma returned_okI:
  assumes "\<And>t rules l. sl_threads s t = Some (Returned rules l) \<Longrightarrow> map_of (sl_table s) (map r_id rules) = Some l"
    "\<And>t rules l. sl_threads s t = Some (Compiled rules l) \<Longrightarrow> snd l = list_compile rules"
    "\<And>key l. map_of (sl_table s) key = Some l \<Longrightarrow> \<exists>rules. map r_id rules = key \<and> snd l = list_compile rules"
  shows "returned_ok s"
  using assms unfolding returned_ok_def by blast

lemma returned_okD:
  assumes "returned_ok s"
  shows "sl_threads s t = Some (Returned rules l) \<Longrightarrow> map_of (sl_table s) (map r_id rules) = Some l"
    "sl_threads s t = Some (Compiled rules l) \<Longrightarrow> snd l = list_compile rules"
    "map_of (sl_table s) key = Some l \<Longrightarrow> \<exists>rules. map r_id rules = key \<and> snd l = list_compile rules"
  using assms unfolding returned_ok_def by blast+

lemma list_step_returned_ok: "list_step s s' \<Longrightarrow> returned_ok s \<Longrightarrow> returned_ok s'"
proof (induction rule: list_step.induct)
  case (insert s t rules l kept table)
  note ok = returned_okD [OF insert.prems]
  have l: "snd l = list_compile rules" by (rule ok(2) [OF insert.hyps(1)])
  with insert.hyps(2) have kept: "kept = (case map_of (sl_table s) (map r_id rules) of Some x \<Rightarrow> x | None \<Rightarrow> l)"
    and table: "map_of table = (map_of (sl_table s))(map r_id rules \<mapsto> kept)"
    using entry_or_insert_lookup [of "sl_table s" "rl_key (snd l)" l] by auto
  have "\<exists>rules'. map r_id rules' = map r_id rules \<and> snd kept = list_compile rules'"
    using ok(3) [of "map r_id rules"] l by (auto simp: kept split: option.splits)
  then show ?case
    by (intro returned_okI) (auto simp: table kept dest: ok split: if_splits option.splits)
qed (auto intro!: returned_okI dest: returned_okD split: if_splits)

lemma list_steps_returned_ok: "list_step\<^sup>*\<^sup>* shared_start s \<Longrightarrow> returned_ok s"
proof (induction rule: rtranclp_induct)
  case base
  show ?case by (rule returned_okI) (simp_all add: shared_start_def)
qed (rule list_step_returned_ok)

lemma list_steps_agree:
  assumes "list_step\<^sup>*\<^sup>* shared_start s"
    "sl_threads s t = Some (Returned rules l)" "sl_threads s u = Some (Returned rules' l')"
    "map r_id rules = map r_id rules'"
  shows "l = l'"
  using list_steps_returned_ok [OF assms(1)] assms(2-4) unfolding returned_ok_def by (metis option.inject)

text \<open>An entry, once in the table, stays: no thread's list is ever replaced.\<close>

lemma list_step_keeps: "list_step s s' \<Longrightarrow> map_of (sl_table s) \<subseteq>\<^sub>m map_of (sl_table s')"
  by (induction rule: list_step.induct)
     (auto simp: map_le_def entry_or_insert_def map_add_def split: option.splits)

text \<open>A thread that has called can always take its next step: no call waits for another.\<close>

lemma list_step_progress:
  assumes "sl_threads s t = Some ph" "\<nexists>rules l. ph = Returned rules l"
  shows "\<exists>s'. list_step s s' \<and> sl_threads s' t \<noteq> Some ph"
proof (cases ph)
  case (Asking rules)
  with assms(1) show ?thesis
    by (cases "map_of (sl_table s) (map r_id rules)") (force dest: list_step.miss list_step.hit)+
next
  case (Compiled rules l)
  obtain kept table where "entry_or_insert (sl_table s) (rl_key (snd l)) l = (kept, table)" by fastforce
  with assms(1) Compiled show ?thesis by (force dest: list_step.insert)
qed (use assms in auto)

section \<open>Properties\<close>

text \<open>
  C23: a list of basename rules compiled in order of precedence answers with
  the last rule of the list that matches: whether it whitelists, and whether it
  came from a \<open>.ferretignore\<close>.
\<close>

theorem compiled_list_last_match:
  assumes "\<forall>r\<in>set rules. wf_basename (r_pattern r)" "sorted (map r_band rules)" "length rules < 2 ^ 64"
  shows "last_match (list_compile rules) name is_dir =
    map_option (\<lambda>r. (is_whitelist (r_pattern r), r_band r = Ferret)) (last_rule rules name is_dir)"
  using last_match_last_rule assms by (simp add: rules_ok_def)

theorem compiled_list_last_match_witness:
  "last_match (list_compile
     [\<lparr>r_id = 0, r_pattern = \<lparr>pt_index = 7, pt_result = Ignore, directory_only = False, basename_only = True, components = [Glob [Star]]\<rparr>, r_band = Global\<rparr>,
      \<lparr>r_id = 4, r_pattern = \<lparr>pt_index = 2, pt_result = Whitelist, directory_only = True, basename_only = True, components = [Glob [Literal [0x61]]]\<rparr>, r_band = Ferret\<rparr>])
     [0x61] True = Some (True, True)"
proof -
  let ?rules = "[\<lparr>r_id = 0, r_pattern = \<lparr>pt_index = 7, pt_result = Ignore, directory_only = False, basename_only = True, components = [Glob [Star]]\<rparr>, r_band = Global\<rparr>,
      \<lparr>r_id = 4, r_pattern = \<lparr>pt_index = 2, pt_result = Whitelist, directory_only = True, basename_only = True, components = [Glob [Literal [0x61]]]\<rparr>, r_band = Ferret\<rparr>]"
  have "\<forall>r\<in>set ?rules. wf_basename (r_pattern r)" by (simp add: wf_basename_def wf_pattern_def wf_components_def wf_glob_def)
  moreover have "sorted (map r_band ?rules)" by (simp add: less_eq_band_def)
  moreover have "last_rule ?rules [0x61] True = Some (?rules ! 1)" by code_simp
  ultimately show ?thesis using compiled_list_last_match [of ?rules "[0x61]" True] by (simp add: is_whitelist_def)
qed

text \<open>
  C22: interning is exact: over well-formed tables, two rules requested one
  after the other get one id exactly when they have the same text and band, the
  tables stay well formed, and the rule returned matches what was asked for.
\<close>

theorem rule_interning_exact:
  assumes "wf_lists ls" "wf_basename p" "basename_glob p \<noteq> None" "wf_basename q" "basename_glob q \<noteq> None"
    "lists_rule ls p b = (r, ls1)" "lists_rule ls1 q c = (s, ls2)"
  shows "wf_lists ls2 \<and> matches_name (r_pattern r) = matches_name p \<and> matches_name (r_pattern s) = matches_name q \<and>
    (r_id r = r_id s \<longleftrightarrow> pattern_text p = pattern_text q \<and> b = c)"
proof -
  note one = lists_rule_interned [OF assms(1-3,6)]
  note two = lists_rule_interned [OF one(1) assms(4,5,7)]
  have "r_id r = r_id s \<longleftrightarrow> r = s"
    using known_rules_id_inj [OF two(1)] one(2) two(2,3) by (auto dest: inj_onD)
  moreover have "map_of (rules_table ls1) (pattern_text p, b) = Some r"
    using assms(6) entry_or_insert_lookup(1) [of "rules_table ls" "(pattern_text p, b)"]
    by (auto simp: lists_rule_def Let_def split_beta)
  moreover have "(pattern_text q, c) = (pattern_text (r_pattern s), r_band s)" "(pattern_text p, b) = (pattern_text (r_pattern r), r_band r)"
  proof -
    have key: "map_of (rules_table ls2) (pattern_text q, c) = Some s"
      using assms(7) entry_or_insert_lookup(1) [of "rules_table ls1" "(pattern_text q, c)"]
      by (auto simp: lists_rule_def Let_def split_beta)
    from rule_entry_key [OF two(1) map_of_SomeD [OF key]] show "(pattern_text q, c) = (pattern_text (r_pattern s), r_band s)" .
    from rule_entry_key [OF one(1) map_of_SomeD [OF calculation(2)]]
    show "(pattern_text p, b) = (pattern_text (r_pattern r), r_band r)" .
  qed
  moreover have "s = r" if "pattern_text p = pattern_text q" "b = c"
    using assms(7) calculation(2) that by (auto simp: lists_rule_def Let_def entry_or_insert_def)
  ultimately show ?thesis using one two by auto
qed

theorem rule_interning_exact_witness:
  "\<exists>r s ls1 ls2. lists_rule lists_default \<lparr>pt_index = 0, pt_result = Ignore, directory_only = False, basename_only = True, components = [Glob [Star]]\<rparr> Repo = (r, ls1) \<and>
     lists_rule ls1 \<lparr>pt_index = 9, pt_result = Ignore, directory_only = False, basename_only = True, components = [Glob [Star]]\<rparr> Repo = (s, ls2) \<and>
     r_id r = r_id s \<and> wf_lists ls2"
proof -
  let ?p = "\<lparr>pt_index = 0, pt_result = Ignore, directory_only = False, basename_only = True, components = [Glob [Star]]\<rparr>"
  let ?q = "\<lparr>pt_index = 9, pt_result = Ignore, directory_only = False, basename_only = True, components = [Glob [Star]]\<rparr>"
  obtain r ls1 where one: "lists_rule lists_default ?p Repo = (r, ls1)" by fastforce
  obtain s ls2 where two: "lists_rule ls1 ?q Repo = (s, ls2)" by fastforce
  from rule_interning_exact [OF wf_lists_default _ _ _ _ one two] one two show ?thesis
    by (auto simp: wf_basename_def wf_pattern_def wf_components_def wf_glob_def basename_glob_def pattern_text_def is_whitelist_def)
qed

text \<open>
  C21: however threads interleave their lookups, insertions and compilations,
  two calls for one key return the same allocation, the list it holds is the
  compilation of rules with that key, and no later step replaces it.
\<close>

theorem interleaved_lookups_agree:
  assumes "list_step\<^sup>*\<^sup>* shared_start s" "list_step\<^sup>*\<^sup>* s s'"
    "sl_threads s t = Some (Returned rules l)" "sl_threads s' u = Some (Returned rules' l')"
    "map r_id rules = map r_id rules'"
  shows "l = l' \<and> (\<exists>rs. map r_id rs = map r_id rules \<and> snd l = list_compile rs) \<and>
    map_of (sl_table s') (map r_id rules) = Some l"
proof -
  have ok: "returned_ok s" "returned_ok s'"
    using list_steps_returned_ok assms(1,2) rtranclp_trans by metis+
  have "map_of (sl_table s) \<subseteq>\<^sub>m map_of (sl_table s')"
    using assms(2) by (induction rule: rtranclp_induct) (auto intro: map_le_trans list_step_keeps)
  moreover have "map_of (sl_table s) (map r_id rules) = Some l" by (rule returned_okD(1) [OF ok(1) assms(3)])
  ultimately have "map_of (sl_table s') (map r_id rules) = Some l" by (force simp: map_le_def)
  with returned_okD(1) [OF ok(2) assms(4)] returned_okD(3) [OF ok(2)] assms(5) show ?thesis by auto
qed

theorem interleaved_lookups_agree_witness:
  "\<exists>s l. list_step\<^sup>*\<^sup>* shared_start s \<and> sl_threads s 1 = Some (Returned [] l) \<and> sl_threads s 2 = Some (Returned [] l) \<and>
     map_of (sl_table s) [] = Some l"
proof -
  let ?c = "list_compile []"
  let ?s = "\<lambda>table n threads. \<lparr>sl_table = table, sl_next = n, sl_threads = threads\<rparr> :: shared_lists"
  let ?s1 = "?s [] 0 [1 \<mapsto> Asking []]" and ?s2 = "?s [] 0 [1 \<mapsto> Asking [], 2 \<mapsto> Asking []]"
  let ?s3 = "?s [] 1 [1 \<mapsto> Compiled [] (0, ?c), 2 \<mapsto> Asking []]"
  let ?s4 = "?s [] 2 [1 \<mapsto> Compiled [] (0, ?c), 2 \<mapsto> Compiled [] (1, ?c)]"
  let ?s5 = "?s [([], 0, ?c)] 2 [1 \<mapsto> Returned [] (0, ?c), 2 \<mapsto> Compiled [] (1, ?c)]"
  let ?s6 = "?s [([], 0, ?c)] 2 [1 \<mapsto> Returned [] (0, ?c), 2 \<mapsto> Returned [] (0, ?c)]"
  have "list_step shared_start ?s1" using list_step.call [of shared_start 1 "[]"] by (simp add: shared_start_def)
  moreover have "list_step ?s1 ?s2" using list_step.call [of ?s1 2 "[]"] by simp
  moreover have "list_step ?s2 ?s3" using list_step.miss [of ?s2 1 "[]"] by (simp add: fun_upd_twist)
  moreover have "list_step ?s3 ?s4" using list_step.miss [of ?s3 2 "[]"] by (simp add: numeral_2_eq_2)
  moreover have "list_step ?s4 ?s5"
    using list_step.insert [of ?s4 1 "[]" "(0, ?c)" "(0, ?c)" "[([], 0, ?c)]"] by (simp add: entry_or_insert_def fun_upd_twist)
  moreover have "list_step ?s5 ?s6"
    using list_step.insert [of ?s5 2 "[]" "(1, ?c)" "(0, ?c)" "[([], 0, ?c)]"] by (simp add: entry_or_insert_def)
  ultimately have run: "list_step\<^sup>*\<^sup>* shared_start ?s6"
    by (meson converse_rtranclp_into_rtranclp rtranclp.rtrancl_refl)
  from interleaved_lookups_agree [OF run rtranclp.rtrancl_refl, of 1 "[]" "(0, ?c)" 2 "[]" "(0, ?c)"]
  have "map_of (sl_table ?s6) [] = Some (0, ?c)" by simp
  with run show ?thesis by (intro exI [of _ ?s6] exI [of _ "(0, ?c)"]) simp
qed

end
