(* ===== verification/Dir_Rules.thy ===== *)
theory Dir_Rules
  imports Rule_Lists
begin

text \<open>
  The rules in force for one directory and the decision for its entries
  (\<open>ferret-policy/src/rules.rs\<close> and the types of \<open>lib.rs\<close>). A layer is one
  compiled ignore file with the live cursors of its anchored patterns; a
  state holds the layers in force; \<open>root\<close>, \<open>enter\<close> and \<open>traverse\<close> derive a
  directory's state and its interned list; \<open>decide_child\<close> answers for one
  entry. The interning tables that all directories of a root share through an
  \<open>Arc\<close> are passed and returned explicitly. A path is its bytes.

  Results: the list a directory holds decides every entry as the precedence of
  the ignore files does, taken file by file and line by line on whole paths;
  this holds for every directory of every walk; an excluded directory that is
  not traversed holds nothing an anchored re-include of a \<open>.ferretignore\<close>
  could match.
\<close>

section \<open>Entries and decisions\<close>

datatype entry = Dir | File u64 | Symlink | Other

datatype reason = Too_large | Is_symlink | Special

datatype decision = Skip | Descend | Traverse | Catalog reason | Index

datatype content = Text_content | Binary_content

definition sniff :: "bytes \<Rightarrow> content" where
  "sniff head = (if 0 \<in> set head then Binary_content else Text_content)"

record config =
  size_cap :: u64

definition config_default :: config where
  "config_default = \<lparr>size_cap = push_bit 20 8\<rparr>"

record ignore_files =
  if_ferretignore :: "bytes option"
  if_gitignore :: "bytes option"
  if_git_root :: bool
  if_git_exclude :: "bytes option"
  if_ignore :: "bytes option"
  if_rgignore :: "bytes option"

definition str_bytes :: "string \<Rightarrow> bytes" where
  "str_bytes s = map of_char s"

definition is_ignore_file :: "bytes \<Rightarrow> bool" where
  "is_ignore_file name \<longleftrightarrow>
     name = str_bytes ''.ferretignore'' \<or> name = str_bytes ''.gitignore'' \<or>
     name = str_bytes ''.ignore'' \<or> name = str_bytes ''.rgignore''"

datatype ignore_file =
    Ferret_file bytes
  | Git_file bytes
  | Git_exclude_file bytes
  | Global_file
  | Dot_file bytes

record line_pattern_error =
  pe_file :: ignore_file
  pe_line :: nat
  pe_pattern :: bytes
  pe_detail :: pattern_error

text \<open>\<open>Path::join\<close>: an absolute second path replaces the first.\<close>

definition path_join :: "bytes \<Rightarrow> bytes \<Rightarrow> bytes" where
  "path_join p name =
     (if starts_with name [0x2F] then name
      else if p = [] \<or> last p = 0x2F then p @ name
      else p @ [0x2F] @ name)"

section \<open>Layers\<close>

record anchored =
  an_pattern :: pattern
  an_projections :: "rule option list"
  an_reaches :: bool

record source =
  so_shared :: "(nat \<times> rule) list"
  so_anchored :: "anchored list"

record layer_cursor =
  cu_slot :: nat
  cu_pos :: nat
  cu_fed :: bool

record layer =
  la_source :: source
  la_cursors :: "layer_cursor list"

fun compile_projections :: "lists \<Rightarrow> pattern option list \<Rightarrow> band \<Rightarrow> rule option list \<times> lists" where
  "compile_projections ls [] band = ([], ls)"
| "compile_projections ls (None # ps) band =
     (let (rs, ls) = compile_projections ls ps band in (None # rs, ls))"
| "compile_projections ls (Some p # ps) band =
     (let (r, ls) = lists_rule ls p band;
          (rs, ls) = compile_projections ls ps band
      in (Some r # rs, ls))"

text \<open>The loop of \<open>compile_text\<close>: the tail of the list is \<open>patterns[at + 1..]\<close>.\<close>

fun compile_patterns ::
  "pattern list \<Rightarrow> band \<Rightarrow> lists \<Rightarrow> (nat \<times> rule) list \<Rightarrow> anchored list \<Rightarrow> source \<times> lists"
where
  "compile_patterns [] band ls sh an = (\<lparr>so_shared = sh, so_anchored = an\<rparr>, ls)"
| "compile_patterns (p # later) band ls sh an =
     (if is_shared_basename p then
        (case projections p of
           Some projected # _ \<Rightarrow>
             (let (r, ls) = lists_rule ls projected band
              in compile_patterns later band ls (sh @ [(pt_index p, r)]) an)
         | _ \<Rightarrow> compile_patterns later band ls sh an)
      else
        (let reaches = (band = Ferret \<and> is_anchored_reinclude p \<and> \<not> list_ex (is_superseded_by p) later);
             (projs, ls) = compile_projections ls (projections p) band
         in compile_patterns later band ls sh
              (an @ [\<lparr>an_pattern = p, an_projections = projs, an_reaches = reaches\<rparr>])))"

definition compile_text :: "bytes \<Rightarrow> band \<Rightarrow> lists \<Rightarrow> layer \<times> line_error list \<times> lists" where
  "compile_text input band ls =
     (let (patterns, errors) = parse input;
          (source, ls) = compile_patterns patterns band ls [] [];
          cursors = map (\<lambda>slot. \<lparr>cu_slot = slot, cu_pos = 0, cu_fed = False\<rparr>) [0..<length (so_anchored source)]
      in (\<lparr>la_source = source, la_cursors = cursors\<rparr>, errors, ls))"

definition layer_compile ::
  "ignore_file \<Rightarrow> bytes \<Rightarrow> band \<Rightarrow> lists \<Rightarrow> line_pattern_error list \<Rightarrow> layer \<times> line_pattern_error list \<times> lists"
where
  "layer_compile file input band ls errors =
     (let (layer, line_errors, ls) = compile_text input band ls
      in (layer,
          errors @ map (\<lambda>e. \<lparr>pe_file = file, pe_line = le_line e, pe_pattern = le_pattern e,
                            pe_detail = le_detail e\<rparr>) line_errors,
          ls))"

definition live :: "layer \<Rightarrow> layer option" where
  "live l = (if so_shared (la_source l) \<noteq> [] \<or> la_cursors l \<noteq> [] then Some l else None)"

text \<open>\<open>slice::chunk_by\<close>: maximal runs in which neighbours are related.\<close>

fun chunk_by :: "('a \<Rightarrow> 'a \<Rightarrow> bool) \<Rightarrow> 'a list \<Rightarrow> 'a list list" where
  "chunk_by same [] = []"
| "chunk_by same (x # xs) =
     (case chunk_by same xs of
        (y # ys) # groups \<Rightarrow> if same x y then (x # y # ys) # groups else [x] # (y # ys) # groups
      | _ \<Rightarrow> [[x]])"

definition step_group :: "layer \<Rightarrow> bytes \<Rightarrow> layer_cursor list \<Rightarrow> layer_cursor list" where
  "step_group l name run =
     (let slot = cu_slot (hd run);
          (out, work) = step (an_pattern (so_anchored (la_source l) ! slot))
                          (map (\<lambda>c. (cu_pos c, cu_fed c)) run) name
      in map (\<lambda>(pos, fed). \<lparr>cu_slot = slot, cu_pos = pos, cu_fed = fed\<rparr>) out)"

definition layer_stepped :: "layer \<Rightarrow> bytes \<Rightarrow> layer option" where
  "layer_stepped l name =
     (if la_cursors l = [] then None
      else
        (let out = concat (map (step_group l name) (chunk_by (\<lambda>a b. cu_slot a = cu_slot b) (la_cursors l)))
         in if out = la_cursors l then None else Some (l\<lparr>la_cursors := out\<rparr>)))"

fun merge_rules :: "source \<Rightarrow> (nat \<times> rule) list \<Rightarrow> layer_cursor list \<Rightarrow> rule list" where
  "merge_rules source sh [] = map snd sh"
| "merge_rules source sh (c # cs) =
     (let an = so_anchored source ! cu_slot c;
          line = pt_index (an_pattern an);
          earlier = takeWhile (\<lambda>(at, _). at < line) sh;
          sh = dropWhile (\<lambda>(at, _). at < line) sh
      in map snd earlier
         @ (case an_projections an ! (2 * cu_pos c + (if cu_fed c then 1 else 0)) of
              Some r \<Rightarrow> [r] | None \<Rightarrow> [])
         @ merge_rules source sh cs)"

definition layer_rules :: "layer \<Rightarrow> rule list" where
  "layer_rules l = merge_rules (la_source l) (so_shared (la_source l)) (la_cursors l)"

section \<open>States\<close>

record work_tree =
  wt_exclude :: "layer option"
  wt_ignores :: "layer list"

record state =
  st_global :: "layer option"
  st_git :: "work_tree option"
  st_ferret :: "layer list"
  st_ignore :: "layer list"
  st_rgignore :: "layer list"

definition state_default :: state where
  "state_default = \<lparr>st_global = None, st_git = None, st_ferret = [], st_ignore = [], st_rgignore = []\<rparr>"

definition layers :: "state \<Rightarrow> layer list" where
  "layers st =
     (case st_global st of Some l \<Rightarrow> [l] | None \<Rightarrow> []) @
     (case st_git st of
        None \<Rightarrow> []
      | Some tree \<Rightarrow> (case wt_exclude tree of Some l \<Rightarrow> [l] | None \<Rightarrow> []) @ wt_ignores tree) @
     st_ignore st @ st_rgignore st @ st_ferret st"

definition state_rules :: "state \<Rightarrow> rule list" where
  "state_rules st = concat (map layer_rules (layers st))"

text \<open>The closure \<open>step\<close> of \<open>State::stepped\<close>, without its \<open>changed\<close> flag.\<close>

definition step_layer :: "bytes \<Rightarrow> layer \<Rightarrow> layer" where
  "step_layer name l = (case layer_stepped l name of Some next \<Rightarrow> next | None \<Rightarrow> l)"

definition step_layers :: "bytes \<Rightarrow> layer list \<Rightarrow> layer list" where
  "step_layers name ls = List.map_filter (\<lambda>l. live (step_layer name l)) ls"

definition step_state :: "state \<Rightarrow> bytes \<Rightarrow> state option" where
  "step_state st name =
     (let changed = list_ex (\<lambda>l. layer_stepped l name \<noteq> None) (layers st);
          stepped =
            \<lparr>st_global = Option.bind (st_global st) (\<lambda>l. live (step_layer name l)),
             st_git = map_option (\<lambda>tree. \<lparr>wt_exclude = Option.bind (wt_exclude tree) (\<lambda>l. live (step_layer name l)),
                                         wt_ignores = step_layers name (wt_ignores tree)\<rparr>) (st_git st),
             st_ferret = step_layers name (st_ferret st),
             st_ignore = step_layers name (st_ignore st),
             st_rgignore = step_layers name (st_rgignore st)\<rparr>
      in if changed then Some stepped else None)"

definition state_stepped :: "state \<Rightarrow> bytes \<Rightarrow> bool \<Rightarrow> state option" where
  "state_stepped st name git_root =
     (if git_root \<and> st_git st \<noteq> None
      then Some ((case step_state st name of Some next \<Rightarrow> next | None \<Rightarrow> st)\<lparr>st_git := None\<rparr>)
      else step_state st name)"

text \<open>\<open>layers.extend(Layer::compile(..).live())\<close> on one layer list.\<close>

definition extend_layers ::
  "layer list \<Rightarrow> ignore_file \<Rightarrow> bytes option \<Rightarrow> band \<Rightarrow> lists \<Rightarrow> line_pattern_error list \<Rightarrow>
   layer list \<times> line_pattern_error list \<times> lists"
where
  "extend_layers old file input band ls errors =
     (case input of
        None \<Rightarrow> (old, errors, ls)
      | Some t \<Rightarrow>
          (let (layer, errors, ls) = layer_compile file t band ls errors
           in (old @ (case live layer of Some l \<Rightarrow> [l] | None \<Rightarrow> []), errors, ls)))"

text \<open>\<open>add_files\<close>: a directory with a \<open>.git\<close> entry starts a work tree; a work tree takes its \<open>.gitignore\<close>.\<close>

definition start_work_tree ::
  "work_tree option \<Rightarrow> bytes \<Rightarrow> ignore_files \<Rightarrow> lists \<Rightarrow> line_pattern_error list \<Rightarrow>
   work_tree option \<times> line_pattern_error list \<times> lists"
where
  "start_work_tree git dir files ls errors =
     (if if_git_root files
      then (let (exclude, errors, ls) =
                  extend_layers [] (Git_exclude_file (path_join dir (str_bytes ''.git/info/exclude'')))
                    (if_git_exclude files) Repo ls errors
            in (Some \<lparr>wt_exclude = (case exclude of l # _ \<Rightarrow> Some l | [] \<Rightarrow> None), wt_ignores = []\<rparr>,
                errors, ls))
      else (git, errors, ls))"

definition add_gitignore ::
  "work_tree option \<Rightarrow> bytes \<Rightarrow> ignore_files \<Rightarrow> lists \<Rightarrow> line_pattern_error list \<Rightarrow>
   work_tree option \<times> line_pattern_error list \<times> lists"
where
  "add_gitignore git dir files ls errors =
     (case git of
        None \<Rightarrow> (None, errors, ls)
      | Some tree \<Rightarrow>
          (let (ignores, errors, ls) =
                 extend_layers (wt_ignores tree) (Git_file (path_join dir (str_bytes ''.gitignore'')))
                   (if_gitignore files) Repo ls errors
           in (Some (tree\<lparr>wt_ignores := ignores\<rparr>), errors, ls)))"

definition add_files ::
  "state \<Rightarrow> bytes \<Rightarrow> ignore_files \<Rightarrow> lists \<Rightarrow> line_pattern_error list \<Rightarrow>
   state \<times> line_pattern_error list \<times> lists"
where
  "add_files st dir files ls errors =
     (let (ferret, errors, ls) =
            extend_layers (st_ferret st) (Ferret_file (path_join dir (str_bytes ''.ferretignore'')))
              (if_ferretignore files) Ferret ls errors;
          (git, errors, ls) = start_work_tree (st_git st) dir files ls errors;
          (git, errors, ls) = add_gitignore git dir files ls errors;
          (ignore, errors, ls) =
            extend_layers (st_ignore st) (Dot_file (path_join dir (str_bytes ''.ignore'')))
              (if_ignore files) Repo ls errors;
          (rgignore, errors, ls) =
            extend_layers (st_rgignore st) (Dot_file (path_join dir (str_bytes ''.rgignore'')))
              (if_rgignore files) Repo ls errors
      in (\<lparr>st_global = st_global st, st_git = git, st_ferret = ferret, st_ignore = ignore,
           st_rgignore = rgignore\<rparr>, errors, ls))"

definition reaches_below :: "state \<Rightarrow> bytes \<Rightarrow> bool" where
  "reaches_below st name =
     list_ex (\<lambda>l. list_ex (\<lambda>c.
        let an = so_anchored (la_source l) ! cu_slot c
        in an_reaches an \<and> fst (step (an_pattern an) [(cu_pos c, cu_fed c)] name) \<noteq> [])
        (la_cursors l)) (st_ferret st)"

section \<open>Directories\<close>

record dir_rules =
  dr_path :: bytes
  dr_root :: bytes
  dr_config :: config
  dr_state :: state
  dr_list :: rule_list
  dr_traversing :: bool

definition shared_list :: "lists \<Rightarrow> state \<Rightarrow> rule_list option \<Rightarrow> rule_list \<times> lists" where
  "shared_list ls st parent =
     (let rules = state_rules st;
          key = map r_id rules
      in case parent of
           Some l \<Rightarrow> if rl_key l = key then (l, ls) else lists_list ls key rules
         | None \<Rightarrow> lists_list ls key rules)"

definition root :: "bytes \<Rightarrow> bytes option \<Rightarrow> ignore_files \<Rightarrow> config \<Rightarrow> dir_rules \<times> line_pattern_error list \<times> lists" where
  "root root_path global files cfg =
     (let (global, errors, ls) = extend_layers [] Global_file global Global lists_default [];
          st = state_default\<lparr>st_global := (case global of l # _ \<Rightarrow> Some l | [] \<Rightarrow> None)\<rparr>;
          (st, errors, ls) = add_files st root_path files ls errors;
          (l, ls) = shared_list ls st None
      in (\<lparr>dr_path = [], dr_root = root_path, dr_config = cfg, dr_state = st, dr_list = l,
           dr_traversing = False\<rparr>, errors, ls))"

definition enter :: "lists \<Rightarrow> dir_rules \<Rightarrow> bytes \<Rightarrow> ignore_files \<Rightarrow> dir_rules \<times> line_pattern_error list \<times> lists" where
  "enter ls dr name files =
     (let path = path_join (dr_path dr) name;
          stepped = state_stepped (dr_state dr) name (if_git_root files);
          adds_files = (if_ferretignore files \<noteq> None \<or> if_ignore files \<noteq> None \<or> if_rgignore files \<noteq> None \<or>
                        if_git_root files \<or> (if_gitignore files \<noteq> None \<and> st_git (dr_state dr) \<noteq> None))
      in if stepped = None \<and> \<not> adds_files
         then (dr\<lparr>dr_path := path, dr_traversing := False\<rparr>, [], ls)
         else
           (let st = (case stepped of Some st \<Rightarrow> st | None \<Rightarrow> dr_state dr);
                dir = path_join (dr_root dr) path;
                (st, errors, ls) = add_files st dir files ls [];
                (l, ls) = shared_list ls st (Some (dr_list dr))
            in (dr\<lparr>dr_path := path, dr_state := st, dr_list := l, dr_traversing := False\<rparr>, errors, ls)))"

definition traverse :: "lists \<Rightarrow> dir_rules \<Rightarrow> bytes \<Rightarrow> dir_rules \<times> lists" where
  "traverse ls dr name =
     (case state_stepped (dr_state dr) name False of
        None \<Rightarrow> (dr\<lparr>dr_path := path_join (dr_path dr) name, dr_traversing := True\<rparr>, ls)
      | Some st \<Rightarrow>
          (let (l, ls) = shared_list ls st (Some (dr_list dr))
           in (dr\<lparr>dr_path := path_join (dr_path dr) name, dr_state := st, dr_list := l, dr_traversing := True\<rparr>, ls)))"

definition in_work_tree :: "dir_rules \<Rightarrow> bool" where
  "in_work_tree dr \<longleftrightarrow> st_git (dr_state dr) \<noteq> None"

definition ignore_match :: "dir_rules \<Rightarrow> bytes \<Rightarrow> bool \<Rightarrow> bool option" where
  "ignore_match dr name directory = map_option fst (last_match (dr_list dr) name directory)"

definition reveals :: "dir_rules \<Rightarrow> bytes \<Rightarrow> bool \<Rightarrow> bool" where
  "reveals dr name directory = repo_whitelists (dr_list dr) name directory"

definition decide_child :: "dir_rules \<Rightarrow> bytes \<Rightarrow> entry \<Rightarrow> decision" where
  "decide_child dr name entry =
     (let is_dir = (entry = Dir);
          included = (case last_match (dr_list dr) name is_dir of
                        Some (True, ferret) \<Rightarrow> \<not> dr_traversing dr \<or> ferret
                      | Some (False, _) \<Rightarrow> False
                      | None \<Rightarrow> \<not> dr_traversing dr)
      in if \<not> included
         then (if is_dir \<and> reaches_below (dr_state dr) name then Traverse else Skip)
         else (case entry of
                 Dir \<Rightarrow> Descend
               | File len \<Rightarrow> if size_cap (dr_config dr) < len then Catalog Too_large else Index
               | Symlink \<Rightarrow> Catalog Is_symlink
               | Other \<Rightarrow> Catalog Special))"

definition decide :: "dir_rules \<Rightarrow> bytes \<Rightarrow> entry \<Rightarrow> decision" where
  "decide dr path entry =
     (let name = (case rposition (\<lambda>b. b = 0x2F) path of Some slash \<Rightarrow> drop (slash + 1) path | None \<Rightarrow> path)
      in decide_child dr name entry)"

section \<open>Compiled files\<close>

definition rule_rep :: "lists \<Rightarrow> band \<Rightarrow> pattern \<Rightarrow> rule \<Rightarrow> bool" where
  "rule_rep ls band q r \<longleftrightarrow>
     r \<in> known_rules ls \<and> r_band r = band \<and> matches_name (r_pattern r) = matches_name q \<and>
     pt_result (r_pattern r) = pt_result q"

lemma rule_rep_mono: "rule_rep ls band q r \<Longrightarrow> known_rules ls \<subseteq> known_rules ls' \<Longrightarrow> rule_rep ls' band q r"
  by (auto simp: rule_rep_def)

definition basename_projection :: "pattern \<Rightarrow> bool" where
  "basename_projection q \<longleftrightarrow> wf_basename q \<and> basename_glob q \<noteq> None"

lemma tails_bound: "i < length cs \<Longrightarrow> tails cs at ! i = Some (At k) \<Longrightarrow> at \<le> k \<and> k < at + length cs"
proof (induction cs arbitrary: at i)
  case (Cons c cs)
  have rest: "Suc at \<le> k \<and> k < Suc at + length cs" if "j < length cs" "tails cs (Suc at) ! j = Some (At k)" for j
    using Cons.IH that by blast
  have "cs \<noteq> [] \<Longrightarrow> hd (tails cs (Suc at)) = tails cs (Suc at) ! 0" by (cases cs) (auto simp: Let_def)
  with Cons.prems rest [of 0] rest show ?case
    by (cases i) (fastforce simp: Let_def split: component.splits if_splits)+
qed simp

lemma project_basename:
  assumes "wf_pattern p" "project p t = Some q" "\<And>i. t = Some (At i) \<Longrightarrow> i < length (components p)"
  shows "basename_projection q \<and> pt_result q = pt_result p \<and> pt_index q = pt_index p"
proof -
  have "wf_glob any_glob" by (simp add: wf_glob_def any_glob_def)
  moreover have "wf_glob g" if "Glob g \<in> set (components p)" for g
    using assms(1) that by (auto simp: wf_pattern_def wf_components_def)
  moreover have "components p ! i \<in> set (components p)" if "t = Some (At i)" for i
    using assms(3) that by simp
  ultimately show ?thesis using assms(2)
    by (fastforce simp: project_def as_basename_def basename_projection_def wf_basename_def wf_pattern_def
        wf_components_def basename_glob_def normalize_star_def split: option.splits target.splits component.splits)
qed

lemma projections_basename:
  assumes "wf_pattern p" "Some q \<in> set (projections p)"
  shows "basename_projection q \<and> pt_result q = pt_result p \<and> pt_index q = pt_index p"
proof -
  let ?cs = "components p" and ?tail = "tails (components p) 0"
  from assms(2) obtain pos where pos: "pos < length ?cs"
    and q: "project p (?tail ! pos) = Some q \<or> project p (fed_target ?cs ?tail pos) = Some q"
    by (auto simp: projections_def Let_def)
  have "k < length ?cs" if "?tail ! pos = Some (At k) \<or> fed_target ?cs ?tail pos = Some (At k)" for k
    using that pos tails_bound [of pos ?cs 0 k] tails_bound [of "Suc pos" ?cs 0 k]
    by (auto simp: fed_target_def split: component.splits if_splits)
  with q project_basename [OF assms(1)] show ?thesis by blast
qed

lemma lists_rule_rep:
  assumes "wf_lists ls" "basename_projection q" "lists_rule ls q band = (r, ls')"
  shows "wf_lists ls' \<and> known_rules ls \<subseteq> known_rules ls' \<and> rule_rep ls' band q r"
proof -
  have "is_whitelist (r_pattern r) = is_whitelist q \<Longrightarrow> pt_result (r_pattern r) = pt_result q"
    by (cases "pt_result q"; cases "pt_result (r_pattern r)") (simp_all add: is_whitelist_def)
  with lists_rule_interned [OF assms(1) _ _ assms(3)] assms(2) show ?thesis
    by (auto simp: basename_projection_def rule_rep_def)
qed

definition projections_rep :: "lists \<Rightarrow> band \<Rightarrow> pattern \<Rightarrow> rule option list \<Rightarrow> bool" where
  "projections_rep ls band p rs \<longleftrightarrow> list_all2 (rel_option (rule_rep ls band)) (projections p) rs"

lemma rel_option_rule_rep_mono:
  "known_rules ls \<subseteq> known_rules ls' \<Longrightarrow> rel_option (rule_rep ls band) a b \<Longrightarrow> rel_option (rule_rep ls' band) a b"
  by (erule option.rel_mono_strong) (rule rule_rep_mono)

lemma compile_projections_rep:
  assumes "wf_lists ls" "\<forall>q. Some q \<in> set qs \<longrightarrow> basename_projection q" "compile_projections ls qs band = (rs, ls')"
  shows "wf_lists ls' \<and> known_rules ls \<subseteq> known_rules ls' \<and> list_all2 (rel_option (rule_rep ls' band)) qs rs"
  using assms
proof (induction ls qs band arbitrary: rs ls' rule: compile_projections.induct)
  case (2 ls ps band)
  obtain rs1 ls1 where rest: "compile_projections ls ps band = (rs1, ls1)" by fastforce
  with 2 show ?case by fastforce
next
  case (3 ls p ps band)
  obtain r ls1 where one: "lists_rule ls p band = (r, ls1)" by fastforce
  obtain rs2 ls2 where rest: "compile_projections ls1 ps band = (rs2, ls2)" by fastforce
  from "3.prems" have p: "basename_projection p" by simp
  note r = lists_rule_rep [OF "3.prems"(1) p one]
  with "3.IH" [OF one [symmetric] refl] "3.prems" rest
  have "wf_lists ls2 \<and> known_rules ls1 \<subseteq> known_rules ls2 \<and> list_all2 (rel_option (rule_rep ls2 band)) ps rs2"
    by simp
  with r one rest "3.prems"(3) rule_rep_mono show ?case by fastforce
qed simp

text \<open>How a source represents the patterns of its file.\<close>

definition shared_of :: "pattern list \<Rightarrow> pattern list" where
  "shared_of ps = filter (\<lambda>p. is_shared_basename p \<and> hd (projections p) \<noteq> None) ps"

definition anchored_of :: "pattern list \<Rightarrow> pattern list" where
  "anchored_of ps = filter (\<lambda>p. \<not> is_shared_basename p) ps"

fun reach_flags :: "band \<Rightarrow> pattern list \<Rightarrow> bool list" where
  "reach_flags band [] = []"
| "reach_flags band (p # later) =
     (if is_shared_basename p then []
      else [band = Ferret \<and> is_anchored_reinclude p \<and> \<not> list_ex (is_superseded_by p) later]) @
     reach_flags band later"

definition source_rep :: "lists \<Rightarrow> band \<Rightarrow> pattern list \<Rightarrow> source \<Rightarrow> bool" where
  "source_rep ls band ps so \<longleftrightarrow>
     list_all2 (\<lambda>p (line, r). line = pt_index p \<and> rule_rep ls band (the (hd (projections p))) r) (shared_of ps) (so_shared so) \<and>
     list_all2 (\<lambda>p a. an_pattern a = p \<and> projections_rep ls band p (an_projections a)) (anchored_of ps) (so_anchored so) \<and>
     map an_reaches (so_anchored so) = reach_flags band ps"

lemma source_rep_mono:
  assumes "source_rep ls band ps so" "known_rules ls \<subseteq> known_rules ls'"
  shows "source_rep ls' band ps so"
  using assms unfolding source_rep_def projections_rep_def
  by (auto elim!: list.rel_mono_strong intro: rule_rep_mono rel_option_rule_rep_mono)

lemma projections_not_Nil: "components p \<noteq> [] \<Longrightarrow> projections p \<noteq> []"
  by (auto simp: projections_def Let_def)

lemma source_rep_Cons:
  assumes "source_rep ls band later \<lparr>so_shared = sh, so_anchored = an\<rparr>"
  shows "is_shared_basename p \<Longrightarrow> hd (projections p) = None \<Longrightarrow>
      source_rep ls band (p # later) \<lparr>so_shared = sh, so_anchored = an\<rparr>"
    "is_shared_basename p \<Longrightarrow> hd (projections p) = Some q \<Longrightarrow> rule_rep ls band q r \<Longrightarrow>
      source_rep ls band (p # later) \<lparr>so_shared = (pt_index p, r) # sh, so_anchored = an\<rparr>"
    "\<not> is_shared_basename p \<Longrightarrow> projections_rep ls band p rs \<Longrightarrow>
      source_rep ls band (p # later) \<lparr>so_shared = sh, so_anchored =
        \<lparr>an_pattern = p, an_projections = rs,
         an_reaches = (band = Ferret \<and> is_anchored_reinclude p \<and> \<not> list_ex (is_superseded_by p) later)\<rparr> # an\<rparr>"
  using assms by (auto simp: source_rep_def shared_of_def anchored_of_def)

lemma compile_patterns_rep:
  assumes "wf_lists ls" "\<forall>p\<in>set ps. wf_pattern p" "compile_patterns ps band ls sh an = (so, ls')"
  shows "wf_lists ls' \<and> known_rules ls \<subseteq> known_rules ls' \<and>
    (\<exists>sh1 an1. so = \<lparr>so_shared = sh @ sh1, so_anchored = an @ an1\<rparr> \<and>
       source_rep ls' band ps \<lparr>so_shared = sh1, so_anchored = an1\<rparr>)"
  using assms
proof (induction ps arbitrary: ls sh an)
  case Nil
  then show ?case by (simp add: source_rep_def shared_of_def anchored_of_def)
next
  case (Cons p later)
  from Cons.prems(2) have p: "wf_pattern p" and later: "\<forall>p\<in>set later. wf_pattern p" by auto
  then obtain h projs where projs: "projections p = h # projs"
    by (metis neq_Nil_conv projections_not_Nil wf_pattern_def)
  have base: "\<forall>q. Some q \<in> set (projections p) \<longrightarrow> basename_projection q"
    using projections_basename [OF p] by blast
  show ?case
  proof (cases "is_shared_basename p")
    case shared: True
    show ?thesis
    proof (cases h)
      case None
      with Cons.IH [OF Cons.prems(1) later] Cons.prems(3) shared projs source_rep_Cons(1) [of _ _ later _ _ p]
      show ?thesis by (fastforce simp: projs)
    next
      case (Some q)
      obtain r ls1 where one: "lists_rule ls q band = (r, ls1)" by fastforce
      have "basename_projection q" using base projs Some by simp
      note r = lists_rule_rep [OF Cons.prems(1) this one]
      with Cons.prems(3) shared projs Some one
        Cons.IH [OF r [THEN conjunct1] later, of "sh @ [(pt_index p, r)]" an]
      obtain sh1 an1 where rest: "wf_lists ls'" "known_rules ls1 \<subseteq> known_rules ls'"
        "so = \<lparr>so_shared = sh @ (pt_index p, r) # sh1, so_anchored = an @ an1\<rparr>"
        "source_rep ls' band later \<lparr>so_shared = sh1, so_anchored = an1\<rparr>"
        by auto
      from r rest rule_rep_mono have "rule_rep ls' band q r" by blast
      from source_rep_Cons(2) [OF rest(4) shared _ this] r rest projs Some show ?thesis by fastforce
    qed
  next
    case anchored: False
    obtain rs ls1 where one: "compile_projections ls (projections p) band = (rs, ls1)" by fastforce
    note r = compile_projections_rep [OF Cons.prems(1) base one]
    let ?a = "\<lparr>an_pattern = p, an_projections = rs,
      an_reaches = (band = Ferret \<and> is_anchored_reinclude p \<and> \<not> list_ex (is_superseded_by p) later)\<rparr>"
    from Cons.prems(3) anchored one Cons.IH [OF r [THEN conjunct1] later, of sh "an @ [?a]"]
    obtain sh1 an1 where rest: "wf_lists ls'" "known_rules ls1 \<subseteq> known_rules ls'"
      "so = \<lparr>so_shared = sh @ sh1, so_anchored = an @ ?a # an1\<rparr>"
      "source_rep ls' band later \<lparr>so_shared = sh1, so_anchored = an1\<rparr>"
      by auto
    have "projections_rep ls' band p rs"
      unfolding projections_rep_def using r rest(2) by (auto elim!: list.rel_mono_strong intro: rel_option_rule_rep_mono)
    from source_rep_Cons(3) [OF rest(4) anchored this] r rest show ?thesis by fastforce
  qed
qed

section \<open>Stepping a layer\<close>

definition slot_cursors :: "nat \<Rightarrow> cursor list \<Rightarrow> layer_cursor list" where
  "slot_cursors slot cs = map (\<lambda>(pos, fed). \<lparr>cu_slot = slot, cu_pos = pos, cu_fed = fed\<rparr>) cs"

text \<open>The cursors of a file's anchored patterns, \<open>rel\<close> below the file's directory.\<close>

definition cursor_groups :: "pattern list \<Rightarrow> bytes list \<Rightarrow> layer_cursor list list" where
  "cursor_groups ps rel =
     map (\<lambda>(slot, p). slot_cursors slot (step_all p [(0, False)] rel)) (enumerate 0 (anchored_of ps))"

definition layer_rep :: "lists \<Rightarrow> band \<Rightarrow> pattern list \<Rightarrow> bytes list \<Rightarrow> layer \<Rightarrow> bool" where
  "layer_rep ls band ps rel l \<longleftrightarrow>
     source_rep ls band ps (la_source l) \<and> la_cursors l = concat (cursor_groups ps rel)"

lemma chunk_by_hd: "xs \<noteq> [] \<Longrightarrow> \<exists>ys gs. chunk_by same xs = (hd xs # ys) # gs"
  by (induction xs) (auto split: list.splits)

lemma chunk_by_run:
  assumes "g \<noteq> []" "\<forall>x\<in>set g. key x = k" "\<forall>x\<in>set rest. key x \<noteq> k"
  shows "chunk_by (\<lambda>a b. key a = key b) (g @ rest) = g # chunk_by (\<lambda>a b. key a = key b) rest"
  using assms
proof (induction g)
  case (Cons x g)
  show ?case
  proof (cases "g = []")
    case True
    have "key (hd rest) \<noteq> key x" if "rest \<noteq> []" using Cons.prems that by auto
    with True chunk_by_hd [of rest "\<lambda>a b. key a = key b"] show ?thesis by (cases "rest = []") auto
  next
    case False
    with Cons show ?thesis by (cases g) auto
  qed
qed simp

lemma chunk_by_groups:
  assumes "\<And>i x. i < length gs \<Longrightarrow> x \<in> set (gs ! i) \<Longrightarrow> key x = n + i"
  shows "chunk_by (\<lambda>a b. key a = key b) (concat gs) = filter (\<lambda>g. g \<noteq> []) gs"
  using assms
proof (induction gs arbitrary: n)
  case (Cons g gs)
  have later: "key x = Suc n + i" if "i < length gs" "x \<in> set (gs ! i)" for i x
    using Cons.prems [of "Suc i" x] that by simp
  note IH = Cons.IH [OF later]
  have g: "\<forall>x\<in>set g. key x = n" using Cons.prems [of 0] by auto
  have "\<forall>x\<in>set (concat gs). key x \<noteq> n"
    using later by (fastforce simp: in_set_conv_nth)
  with chunk_by_run [OF _ g, of "concat gs"] IH show ?case by (cases "g = []") auto
qed simp

lemma step_no_cursors [simp]: "fst (step p [] name) = []"
  using step_out(1) [of p "[]" name] by (simp add: effects_def)

lemma step_all_snoc: "step_all p cs (rel @ [name]) = fst (step p (step_all p cs rel) name)"
  by (induction rel arbitrary: cs) auto

lemma step_group_slot:
  assumes "an_pattern (so_anchored (la_source l) ! slot) = p" "cs \<noteq> []"
  shows "step_group l name (slot_cursors slot cs) = slot_cursors slot (fst (step p cs name))"
  using assms by (cases cs) (auto simp: step_group_def slot_cursors_def split_beta comp_def)

lemma step_layer_rep:
  assumes "layer_rep ls band ps rel l"
  shows "layer_rep ls band ps (rel @ [name]) (step_layer name l)"
proof -
  let ?same = "\<lambda>a b. cu_slot a = cu_slot b"
  have cursors: "la_cursors l = concat (cursor_groups ps rel)" and source: "source_rep ls band ps (la_source l)"
    using assms by (auto simp: layer_rep_def)
  have pat: "an_pattern (so_anchored (la_source l) ! slot) = p" if "(slot, p) \<in> set (enumerate 0 (anchored_of ps))" for slot p
    using source that by (auto simp: source_rep_def in_set_enumerate_eq list_all2_conv_all_nth)
  let ?next = "\<lambda>g. if g = [] then [] else step_group l name g"
  have runs: "chunk_by ?same (concat (cursor_groups ps rel)) = filter (\<lambda>g. g \<noteq> []) (cursor_groups ps rel)"
    by (rule chunk_by_groups [where n = 0]) (auto simp: cursor_groups_def slot_cursors_def nth_enumerate_eq)
  have skip: "concat (map (step_group l name) (filter (\<lambda>g. g \<noteq> []) gs)) = concat (map ?next gs)" for gs
    by (induction gs) auto
  have "?next (slot_cursors slot (step_all p [(0, False)] rel)) = slot_cursors slot (step_all p [(0, False)] (rel @ [name]))"
    if "(slot, p) \<in> set (enumerate 0 (anchored_of ps))" for slot p
    using step_group_slot [OF pat [OF that]] by (auto simp: step_all_snoc slot_cursors_def)
  then have "map ?next (cursor_groups ps rel) = cursor_groups ps (rel @ [name])"
    unfolding cursor_groups_def map_map by (intro map_cong) (auto simp only: comp_def prod.case)
  then have out: "concat (map (step_group l name) (chunk_by ?same (la_cursors l))) = concat (cursor_groups ps (rel @ [name]))"
    unfolding cursors runs skip by simp
  show ?thesis
  proof (cases "la_cursors l = []")
    case True
    with out source show ?thesis by (simp add: layer_rep_def step_layer_def layer_stepped_def)
  next
    case False
    with out source show ?thesis by (auto simp: layer_rep_def step_layer_def layer_stepped_def Let_def)
  qed
qed

section \<open>A layer's rules\<close>

fun merge_lined :: "source \<Rightarrow> (nat \<times> rule) list \<Rightarrow> layer_cursor list \<Rightarrow> (nat \<times> rule) list" where
  "merge_lined so sh [] = sh"
| "merge_lined so sh (c # cs) =
     (let an = so_anchored so ! cu_slot c; line = pt_index (an_pattern an)
      in takeWhile (\<lambda>(at, _). at < line) sh
         @ (case an_projections an ! (2 * cu_pos c + (if cu_fed c then 1 else 0)) of
              Some r \<Rightarrow> [(line, r)] | None \<Rightarrow> [])
         @ merge_lined so (dropWhile (\<lambda>(at, _). at < line) sh) cs)"

definition cursor_line :: "source \<Rightarrow> layer_cursor \<Rightarrow> nat" where
  "cursor_line so c = pt_index (an_pattern (so_anchored so ! cu_slot c))"

definition cursor_rule :: "source \<Rightarrow> layer_cursor \<Rightarrow> rule option" where
  "cursor_rule so c =
     an_projections (so_anchored so ! cu_slot c) ! (2 * cu_pos c + (if cu_fed c then 1 else 0))"

lemma merge_rules_lined: "merge_rules so sh cs = map snd (merge_lined so sh cs)"
  by (induction so sh cs rule: merge_lined.induct) (auto simp: Let_def split: option.splits)

lemma set_merge_lined:
  "set (merge_lined so sh cs) = set sh \<union> {(cursor_line so c, r) | c r. c \<in> set cs \<and> cursor_rule so c = Some r}"
proof (induction so sh cs rule: merge_lined.induct)
  case (2 so sh c cs)
  let ?P = "\<lambda>(at, _). at < cursor_line so c"
  have "set sh = set (takeWhile ?P sh) \<union> set (dropWhile ?P sh)"
    by (metis set_append takeWhile_dropWhile_id)
  moreover have "set (merge_lined so sh (c # cs)) = set (takeWhile ?P sh) \<union>
     {(cursor_line so c, r) | r. cursor_rule so c = Some r} \<union> set (merge_lined so (dropWhile ?P sh) cs)"
    by (auto simp: Let_def cursor_line_def cursor_rule_def split: option.splits)
  ultimately show ?case using "2.IH" [OF refl refl] by (auto simp: cursor_line_def)
qed auto

lemma sorted_merge_lined:
  "sorted (map fst sh) \<Longrightarrow> sorted (map (cursor_line so) cs) \<Longrightarrow> sorted (map fst (merge_lined so sh cs))"
proof (induction so sh cs rule: merge_lined.induct)
  case (2 so sh c cs)
  let ?line = "cursor_line so c"
  let ?before = "takeWhile (\<lambda>(at, _). at < ?line) sh" and ?after = "dropWhile (\<lambda>(at, _). at < ?line) sh"
  have split: "map fst sh = map fst ?before @ map fst ?after" by (metis map_append takeWhile_dropWhile_id)
  with "2.prems"(1) have sorted: "sorted (map fst ?before)" "sorted (map fst ?after)" by (auto simp: sorted_append)
  have after: "\<forall>x\<in>set ?after. ?line \<le> fst x"
  proof (cases ?after)
    case (Cons y ys)
    with hd_dropWhile [of "\<lambda>(at, _). at < ?line" sh] have "?line \<le> fst y" by (auto simp: split_beta)
    with Cons sorted(2) show ?thesis by auto
  next
    case Nil
    show ?thesis unfolding Nil by simp
  qed
  have IH: "sorted (map fst (merge_lined so ?after cs))"
    using "2.IH" [OF refl refl] "2.prems" sorted(2) by (simp add: cursor_line_def)
  have rest: "\<forall>x\<in>set (merge_lined so ?after cs). ?line \<le> fst x"
    using after "2.prems"(2) by (auto simp: set_merge_lined)
  have before: "\<forall>x\<in>set ?before. fst x < ?line" by (auto dest: set_takeWhileD)
  with rest have cross: "\<forall>x\<in>set ?before. \<forall>y\<in>set (merge_lined so ?after cs). fst x \<le> fst y"
    by (meson less_imp_le order_trans)
  have "merge_lined so sh (c # cs) = ?before @ (case cursor_rule so c of Some r \<Rightarrow> [(?line, r)] | None \<Rightarrow> []) @ merge_lined so ?after cs"
    by (simp only: merge_lined.simps Let_def cursor_line_def cursor_rule_def)
  with sorted(1) IH rest before cross show ?case
    by (cases "cursor_rule so c") (auto simp: sorted_append less_imp_le simp del: merge_lined.simps)
qed simp

text \<open>What a file says of an entry \<open>name\<close> at \<open>rel\<close> below its directory: its last matching line.\<close>

definition file_match :: "pattern list \<Rightarrow> bytes list \<Rightarrow> bytes \<Rightarrow> bool \<Rightarrow> match_result option" where
  "file_match ps rel name is_dir =
     map_option pt_result (find (\<lambda>p. pattern_spec p (rel @ [name]) is_dir) (rev ps))"

definition wf_file :: "pattern list \<Rightarrow> bool" where
  "wf_file ps \<longleftrightarrow> sorted_wrt (<) (map pt_index ps) \<and> (\<forall>p\<in>set ps. wf_pattern p)"

lemma shared_pattern_spec:
  assumes "wf_pattern p" "is_shared_basename p" "name \<noteq> []"
  shows "pattern_spec p (rel @ [name]) is_dir \<longleftrightarrow> projected_match p (0, False) name is_dir"
proof -
  have ne: "components p \<noteq> []" using assms(1) by (simp add: wf_pattern_def)
  note proj = cursor_projection [OF assms(3) cursor_start(1) [OF ne], of is_dir, unfolded cursor_start(2) [OF ne]]
  show ?thesis
  proof (cases "basename_only p")
    case True
    with assms(1) obtain c where "components p = [c]" "\<not> is_Globstar c"
      by (auto simp: wf_pattern_def length_Suc_conv)
    with True proj show ?thesis by (simp add: pattern_spec_def path_spec_other)
  next
    case False
    with assms(2) obtain c where "components p = [Globstar True, c]" by (auto simp: is_shared_basename_iff)
    with False proj path_spec_shared [of c rel name] show ?thesis by (simp add: pattern_spec_def)
  qed
qed

lemma anchored_pattern_spec:
  assumes "wf_pattern p" "\<not> is_shared_basename p" "name \<noteq> []"
  shows "pattern_spec p (rel @ [name]) is_dir \<longleftrightarrow>
    (\<exists>c\<in>set (step_all p [(0, False)] rel). projected_match p c name is_dir)"
  using walk_projection [of p name rel is_dir] assms by (simp add: pattern_spec_def wf_pattern_def is_shared_basename_def)

lemma list_all2_ex:
  "list_all2 R xs ys \<Longrightarrow> (\<And>x y. x \<in> set xs \<Longrightarrow> R x y \<Longrightarrow> P x \<longleftrightarrow> Q y) \<Longrightarrow> (\<exists>x\<in>set xs. P x) \<longleftrightarrow> (\<exists>y\<in>set ys. Q y)"
  by (induction rule: list_all2_induct) auto

lemma rel_option_case:
  "rel_option R a b \<Longrightarrow> (\<And>x y. R x y \<Longrightarrow> P x \<longleftrightarrow> Q y) \<Longrightarrow>
     (case a of Some x \<Rightarrow> P x | None \<Rightarrow> False) \<longleftrightarrow> (\<exists>y. b = Some y \<and> Q y)"
  by (cases a; cases b) auto

lemma length_projections: "length (projections p) = 2 * length (components p)"
  by (simp add: projections_def Let_def length_concat comp_def sum_list_triv)

text \<open>The rule a projection was interned as hits what the projection matches, with its action.\<close>

lemma projection_rule:
  assumes "wf_pattern p" "projections_rep ls band p rs" "cursor_ok (components p) c"
  shows "projected_match p c name is_dir \<longleftrightarrow>
      (\<exists>r. rs ! (2 * fst c + (if snd c then 1 else 0)) = Some r \<and> rule_hits name is_dir r)"
    "rs ! (2 * fst c + (if snd c then 1 else 0)) = Some r \<Longrightarrow>
      pt_result (r_pattern r) = pt_result p \<and> r \<in> known_rules ls \<and> r_band r = band"
proof -
  let ?i = "2 * fst c + (if snd c then 1 else 0)"
  have i: "?i < length (projections p)" using assms(3) by (cases c) (auto simp: cursor_ok_def length_projections)
  with assms(2) have rep: "rel_option (rule_rep ls band) (projections p ! ?i) (rs ! ?i)"
    by (simp only: projections_rep_def list_all2_conv_all_nth)
  then show "projected_match p c name is_dir \<longleftrightarrow> (\<exists>r. rs ! ?i = Some r \<and> rule_hits name is_dir r)"
    unfolding projected_match_def mult.commute [of _ 2] rule_hits_def
    by (rule rel_option_case) (simp add: rule_rep_def)
  assume r: "rs ! ?i = Some r"
  with rep obtain q where q: "projections p ! ?i = Some q" "rule_rep ls band q r" by (auto simp only: option_rel_Some2)
  then have "Some q \<in> set (projections p)" using i by (metis nth_mem)
  from projections_basename [OF assms(1) this] q(2)
  show "pt_result (r_pattern r) = pt_result p \<and> r \<in> known_rules ls \<and> r_band r = band" by (simp add: rule_rep_def)
qed

definition lined :: "layer \<Rightarrow> (nat \<times> rule) list" where
  "lined l = merge_lined (la_source l) (so_shared (la_source l)) (la_cursors l)"

lemma shared_hits:
  assumes "source_rep ls band ps so" "wf_file ps" "name \<noteq> []"
  shows "(\<exists>x\<in>set (so_shared so). rule_hits name is_dir (snd x) \<and> h = (fst x, pt_result (r_pattern (snd x)))) \<longleftrightarrow>
    (\<exists>p\<in>set ps. is_shared_basename p \<and> pattern_spec p (rel @ [name]) is_dir \<and> h = (pt_index p, pt_result p))"
proof -
  have hd0: "hd (projections p) = projections p ! 0" "projections p \<noteq> []" if "p \<in> set ps" for p
    using assms(2) that projections_not_Nil by (auto simp: wf_file_def wf_pattern_def hd_conv_nth)
  have first: "pattern_spec p (rel @ [name]) is_dir \<longleftrightarrow>
      (\<exists>q. hd (projections p) = Some q \<and> matches_name q name is_dir)" if "p \<in> set ps" "is_shared_basename p" for p
    using shared_pattern_spec [OF _ that(2) assms(3)] assms(2) that hd0
    by (auto simp: wf_file_def projected_match_def split: option.splits)
  have "(\<exists>p\<in>set (shared_of ps). pattern_spec p (rel @ [name]) is_dir \<and> h = (pt_index p, pt_result p)) \<longleftrightarrow>
    (\<exists>x\<in>set (so_shared so). rule_hits name is_dir (snd x) \<and> h = (fst x, pt_result (r_pattern (snd x))))"
  proof (rule list_all2_ex)
    show "list_all2 (\<lambda>p (line, r). line = pt_index p \<and> rule_rep ls band (the (hd (projections p))) r) (shared_of ps) (so_shared so)"
      using assms(1) by (simp add: source_rep_def)
    fix p and x :: "nat \<times> rule"
    assume p: "p \<in> set (shared_of ps)" and x: "case x of (line, r) \<Rightarrow> line = pt_index p \<and> rule_rep ls band (the (hd (projections p))) r"
    from p obtain q where q: "p \<in> set ps" "is_shared_basename p" "hd (projections p) = Some q" by (auto simp: shared_of_def)
    then have "Some q \<in> set (projections p)" using hd0 by (metis hd_in_set)
    with projections_basename [of p q] assms(2) q(1) have "pt_result q = pt_result p" by (auto simp: wf_file_def)
    with x first [OF q(1,2)] q(3)
    show "(pattern_spec p (rel @ [name]) is_dir \<and> h = (pt_index p, pt_result p)) \<longleftrightarrow>
       (rule_hits name is_dir (snd x) \<and> h = (fst x, pt_result (r_pattern (snd x))))"
      by (auto simp: rule_hits_def rule_rep_def)
  qed
  with first show ?thesis by (fastforce simp: shared_of_def)
qed

lemma set_cursor_groups:
  "set (concat (cursor_groups ps rel)) =
     (\<Union>i<length (anchored_of ps). set (slot_cursors i (step_all (anchored_of ps ! i) [(0, False)] rel)))"
proof -
  have "set (enumerate 0 xs) = (\<lambda>i. (i, xs ! i)) ` {..<length xs}" for xs :: "pattern list"
    by (auto simp: in_set_enumerate_eq image_def)
  then show ?thesis by (simp add: cursor_groups_def)
qed

lemma anchored_hits:
  assumes "layer_rep ls band ps rel l" "wf_file ps" "name \<noteq> []"
  shows "(\<exists>c\<in>set (la_cursors l). \<exists>r. cursor_rule (la_source l) c = Some r \<and> rule_hits name is_dir r \<and>
      h = (cursor_line (la_source l) c, pt_result (r_pattern r))) \<longleftrightarrow>
    (\<exists>p\<in>set ps. \<not> is_shared_basename p \<and> pattern_spec p (rel @ [name]) is_dir \<and> h = (pt_index p, pt_result p))"
    (is "?L \<longleftrightarrow> ?R")
proof -
  let ?so = "la_source l" and ?an = "anchored_of ps"
  have rep: "list_all2 (\<lambda>p a. an_pattern a = p \<and> projections_rep ls band p (an_projections a)) ?an (so_anchored ?so)"
    using assms(1) by (simp add: layer_rep_def source_rep_def)
  have slot: "(\<exists>c\<in>set (slot_cursors i (step_all p [(0, False)] rel)). \<exists>r. cursor_rule ?so c = Some r \<and> rule_hits name is_dir r \<and>
       h = (cursor_line ?so c, pt_result (r_pattern r))) \<longleftrightarrow>
      pattern_spec p (rel @ [name]) is_dir \<and> h = (pt_index p, pt_result p)"
    if i: "i < length ?an" "p = ?an ! i" for i p
  proof -
    have p: "wf_pattern p" "\<not> is_shared_basename p" and ne: "components p \<noteq> []"
      using i assms(2) nth_mem [OF i(1)] by (auto simp: anchored_of_def wf_file_def wf_pattern_def)
    from rep i have an: "an_pattern (so_anchored ?so ! i) = p" "projections_rep ls band p (an_projections (so_anchored ?so ! i))"
      by (auto simp: list_all2_conv_all_nth)
    have ok: "cursor_ok (components p) c" if "c \<in> set (step_all p [(0, False)] rel)" for c
      using step_all_spec [of "[(0, False)]" p rel name] cursor_start(1) [OF ne] that by auto
    have "(\<exists>c\<in>set (slot_cursors i (step_all p [(0, False)] rel)). \<exists>r. cursor_rule ?so c = Some r \<and> rule_hits name is_dir r \<and>
         h = (cursor_line ?so c, pt_result (r_pattern r))) \<longleftrightarrow>
       (\<exists>c\<in>set (step_all p [(0, False)] rel). \<exists>r. an_projections (so_anchored ?so ! i) ! (2 * fst c + (if snd c then 1 else 0)) = Some r \<and>
          rule_hits name is_dir r \<and> h = (pt_index p, pt_result (r_pattern r)))"
      by (simp add: slot_cursors_def cursor_rule_def cursor_line_def an split_beta)
    also have "\<dots> \<longleftrightarrow> (\<exists>c\<in>set (step_all p [(0, False)] rel). projected_match p c name is_dir) \<and> h = (pt_index p, pt_result p)"
    proof -
      have "(\<exists>r. an_projections (so_anchored ?so ! i) ! (2 * fst c + (if snd c then 1 else 0)) = Some r \<and>
          rule_hits name is_dir r \<and> h = (pt_index p, pt_result (r_pattern r))) \<longleftrightarrow>
        projected_match p c name is_dir \<and> h = (pt_index p, pt_result p)"
        if "c \<in> set (step_all p [(0, False)] rel)" for c
        using projection_rule(1) [OF p(1) an(2) ok [OF that], of name is_dir] projection_rule(2) [OF p(1) an(2) ok [OF that]]
        by auto
      then show ?thesis by blast
    qed
    also have "\<dots> \<longleftrightarrow> pattern_spec p (rel @ [name]) is_dir \<and> h = (pt_index p, pt_result p)"
      using anchored_pattern_spec [OF p assms(3)] by simp
    finally show ?thesis .
  qed
  have cursors: "set (la_cursors l) = (\<Union>i<length ?an. set (slot_cursors i (step_all (?an ! i) [(0, False)] rel)))"
    using assms(1) by (simp only: layer_rep_def set_cursor_groups)
  have "?L \<longleftrightarrow> (\<exists>i<length ?an. \<exists>c\<in>set (slot_cursors i (step_all (?an ! i) [(0, False)] rel)). \<exists>r.
      cursor_rule ?so c = Some r \<and> rule_hits name is_dir r \<and> h = (cursor_line ?so c, pt_result (r_pattern r)))"
    unfolding cursors by blast
  also have "\<dots> \<longleftrightarrow> (\<exists>i<length ?an. pattern_spec (?an ! i) (rel @ [name]) is_dir \<and> h = (pt_index (?an ! i), pt_result (?an ! i)))"
    using slot by blast
  also have "\<dots> \<longleftrightarrow> (\<exists>p\<in>set ?an. pattern_spec p (rel @ [name]) is_dir \<and> h = (pt_index p, pt_result p))"
    by (metis in_set_conv_nth)
  also have "\<dots> \<longleftrightarrow> ?R" by (auto simp: anchored_of_def)
  finally show ?thesis .
qed

lemma sorted_filter_index: "wf_file ps \<Longrightarrow> sorted (map pt_index (filter P ps))"
  unfolding wf_file_def using strict_sorted_imp_sorted sorted_filter by blast

lemma lined_sorted:
  assumes "layer_rep ls band ps rel l" "wf_file ps"
  shows "sorted (map fst (lined l))"
  unfolding lined_def
proof (rule sorted_merge_lined)
  let ?so = "la_source l" and ?an = "anchored_of ps"
  have rep: "source_rep ls band ps ?so" using assms(1) by (simp add: layer_rep_def)
  then have "map fst (so_shared ?so) = map pt_index (shared_of ps)"
    by (auto simp: source_rep_def list_all2_conv_all_nth split_beta intro!: nth_equalityI)
  then show "sorted (map fst (so_shared ?so))"
    using sorted_filter_index [OF assms(2)] by (simp add: shared_of_def)
  have line: "cursor_line ?so c = pt_index (?an ! cu_slot c)" if "cu_slot c < length ?an" for c
    using rep that by (simp add: cursor_line_def source_rep_def list_all2_conv_all_nth)
  have "sorted (map (cursor_line ?so) (concat (map (\<lambda>(slot, p). slot_cursors slot (f p)) (enumerate n qs))))"
    if "n + length qs = length ?an" "drop n ?an = qs" for n qs f
    using that
  proof (induction qs arbitrary: n)
    case (Cons q qs)
    let ?rest = "concat (map (\<lambda>(slot, p). slot_cursors slot (f p)) (enumerate (Suc n) qs))"
    have n: "n < length ?an" using Cons.prems(1) by simp
    have "drop (Suc n) ?an = qs" using Cons.prems(2) by (metis drop_Suc drop_tl list.sel(3))
    with Cons have IH: "sorted (map (cursor_line ?so) ?rest)" by simp
    have here: "map (cursor_line ?so) (slot_cursors n (f q)) = map (\<lambda>_. pt_index (?an ! n)) (f q)"
      using line [of "\<lparr>cu_slot = n, cu_pos = _, cu_fed = _\<rparr>"] n by (auto simp: slot_cursors_def)
    have later: "pt_index (?an ! n) \<le> y" if "y \<in> set (map (cursor_line ?so) ?rest)" for y
    proof -
      from that obtain c where c: "c \<in> set ?rest" "y = cursor_line ?so c" by auto
      then have "Suc n \<le> cu_slot c" "cu_slot c < Suc n + length qs" by (auto simp: slot_cursors_def in_set_enumerate_eq)
      with Cons.prems(1) have le: "n \<le> cu_slot c" "cu_slot c < length ?an" by auto
      have "sorted (map pt_index ?an)" using sorted_filter_index [OF assms(2)] by (simp add: anchored_of_def)
      from sorted_nth_mono [OF this le(1)] le c(2) n show ?thesis by (simp add: line)
    qed
    have "sorted (map (\<lambda>_. pt_index (?an ! n)) (f q))" by (induction "f q") (auto simp: map_replicate_const)
    with IH later show ?case by (simp add: here sorted_append) blast
  qed simp
  from this [of 0 ?an "\<lambda>p. step_all p [(0, False)] rel"] show "sorted (map (cursor_line ?so) (la_cursors l))"
    using assms(1) by (simp add: layer_rep_def cursor_groups_def)
qed

lemma single_valued_file: "wf_file ps \<Longrightarrow> single_valued {(pt_index p, pt_result p) | p. p \<in> set ps \<and> P p}"
proof (rule single_valuedI, clarsimp)
  fix p q
  assume "wf_file ps" "p \<in> set ps" "q \<in> set ps" "pt_index p = pt_index q"
  then have "p = q" by (metis (no_types, lifting) distinct_map inj_onD strict_sorted_iff wf_file_def)
  then show "pt_result p = pt_result q" by simp
qed

lemma layer_rules_match:
  assumes "layer_rep ls band ps rel l" "wf_file ps" "name \<noteq> []"
  shows "map_option (\<lambda>r. pt_result (r_pattern r)) (last_rule (layer_rules l) name is_dir) = file_match ps rel name is_dir"
proof -
  let ?hits = "{(pt_index p, pt_result p) | p. p \<in> set ps \<and> pattern_spec p (rel @ [name]) is_dir}"
  let ?find = "map_option (\<lambda>x. (fst x, pt_result (r_pattern (snd x)))) (find (\<lambda>x. rule_hits name is_dir (snd x)) (rev (lined l)))"
  have source: "source_rep ls band ps (la_source l)" using assms(1) by (simp add: layer_rep_def)
  have "h \<in> {(fst x, pt_result (r_pattern (snd x))) | x. x \<in> set (lined l) \<and> rule_hits name is_dir (snd x)} \<longleftrightarrow> h \<in> ?hits" for h
  proof -
    let ?so = "la_source l"
    have "(\<exists>x\<in>set (lined l). rule_hits name is_dir (snd x) \<and> h = (fst x, pt_result (r_pattern (snd x)))) \<longleftrightarrow>
      (\<exists>x\<in>set (so_shared ?so). rule_hits name is_dir (snd x) \<and> h = (fst x, pt_result (r_pattern (snd x)))) \<or>
      (\<exists>c\<in>set (la_cursors l). \<exists>r. cursor_rule ?so c = Some r \<and> rule_hits name is_dir r \<and> h = (cursor_line ?so c, pt_result (r_pattern r)))"
      unfolding lined_def set_merge_lined bex_Un by (intro arg_cong2 [where f = "(\<or>)"] refl) auto
    then show ?thesis
      using shared_hits [OF source assms(2,3), of is_dir h rel] anchored_hits [OF assms, of is_dir h] by blast
  qed
  then have hits: "?hits = {(fst x, pt_result (r_pattern (snd x))) | x. x \<in> set (lined l) \<and> rule_hits name is_dir (snd x)}"
    by (intro set_eqI) (rule sym)
  have "latest ?hits ?find" unfolding hits by (rule find_rev_latest [OF lined_sorted [OF assms(1,2)]])
  moreover have "latest ?hits (map_option (\<lambda>p. (pt_index p, pt_result p)) (find (\<lambda>p. pattern_spec p (rel @ [name]) is_dir) (rev ps)))"
    using sorted_filter_index [OF assms(2), of "\<lambda>_. True"] by (intro find_rev_latest) simp
  ultimately have eq: "?find = map_option (\<lambda>p. (pt_index p, pt_result p)) (find (\<lambda>p. pattern_spec p (rel @ [name]) is_dir) (rev ps))"
    by (rule latest_unique) (rule single_valued_file [OF assms(2)])
  have "map_option (\<lambda>r. pt_result (r_pattern r)) (last_rule (layer_rules l) name is_dir) = map_option snd ?find"
    by (simp add: layer_rules_def merge_rules_lined lined_def last_rule_def rev_map find_map option.map_comp comp_def)
  also have "\<dots> = file_match ps rel name is_dir"
    unfolding eq by (simp add: file_match_def option.map_comp comp_def)
  finally show ?thesis .
qed

lemma layer_rules_known:
  assumes "layer_rep ls band ps rel l" "wf_file ps" "r \<in> set (layer_rules l)"
  shows "r \<in> known_rules ls \<and> r_band r = band"
proof -
  let ?so = "la_source l" and ?an = "anchored_of ps"
  have source: "source_rep ls band ps ?so" using assms(1) by (simp add: layer_rep_def)
  from assms(3) consider (shared) line where "(line, r) \<in> set (so_shared ?so)"
    | (cursor) c where "c \<in> set (la_cursors l)" "cursor_rule ?so c = Some r"
    by (auto simp: layer_rules_def merge_rules_lined set_merge_lined)
  then show ?thesis
  proof cases
    case shared
    with source show ?thesis
      by (auto simp: source_rep_def list_all2_conv_all_nth in_set_conv_nth rule_rep_def split_beta)
  next
    case cursor
    from cursor(1) assms(1) obtain i k where i: "i < length ?an" and k: "k \<in> set (step_all (?an ! i) [(0, False)] rel)"
      and c: "c = \<lparr>cu_slot = i, cu_pos = fst k, cu_fed = snd k\<rparr>"
      unfolding layer_rep_def by (metis (no_types, lifting) UN_E lessThan_iff set_cursor_groups slot_cursors_def image_iff set_map case_prod_unfold)
    have p: "wf_pattern (?an ! i)" using i assms(2) nth_mem [OF i] by (auto simp: anchored_of_def wf_file_def)
    then have "cursor_ok (components (?an ! i)) k"
      using step_all_spec [of "[(0, False)]" "?an ! i" rel] cursor_start(1) k by (auto simp: wf_pattern_def)
    moreover have "projections_rep ls band (?an ! i) (an_projections (so_anchored ?so ! i))"
      using source i by (auto simp: source_rep_def list_all2_conv_all_nth)
    ultimately show ?thesis
      using projection_rule(2) [OF p] cursor(2) c by (simp add: cursor_rule_def)
  qed
qed

end
