(* ===== verification/Dir_Walk.thy ===== *)
theory Dir_Walk
  imports Dir_Rules
begin

text \<open>
  The specification of a walk and its refinement. A \<open>spec_state\<close> is the ignore
  files in force in a directory, each with the lines it parses to and the path
  from its directory to here; nothing is compiled, indexed, interned or
  dropped. \<open>precedence\<close> lists them as the module documentation of
  \<open>rules.rs\<close> ranks them, and the first file with a matching line decides
  (its last matching line). The walk of \<open>rules.rs\<close> is related to it step by
  step.
\<close>

section \<open>The files in force\<close>

record placed =
  pl_patterns :: "pattern list"
  pl_rel :: "bytes list"

record spec_state =
  ss_global :: "placed option"
  ss_git :: "(placed option \<times> placed list) option"
  ss_ferret :: "placed list"
  ss_ignore :: "placed list"
  ss_rgignore :: "placed list"

definition place :: "bytes \<Rightarrow> placed" where
  "place input = \<lparr>pl_patterns = fst (parse input), pl_rel = []\<rparr>"

definition descend :: "bytes \<Rightarrow> placed \<Rightarrow> placed" where
  "descend name f = f\<lparr>pl_rel := pl_rel f @ [name]\<rparr>"

definition spec_descend :: "bytes \<Rightarrow> spec_state \<Rightarrow> spec_state" where
  "spec_descend name ss =
     \<lparr>ss_global = map_option (descend name) (ss_global ss),
      ss_git = map_option (map_prod (map_option (descend name)) (map (descend name))) (ss_git ss),
      ss_ferret = map (descend name) (ss_ferret ss),
      ss_ignore = map (descend name) (ss_ignore ss),
      ss_rgignore = map (descend name) (ss_rgignore ss)\<rparr>"

primrec opt_list :: "'a option \<Rightarrow> 'a list" where
  "opt_list None = []"
| "opt_list (Some x) = [x]"

lemma opt_list_case: "(case x of None \<Rightarrow> [] | Some y \<Rightarrow> [y]) = opt_list x"
  by (cases x) auto

lemma map_opt_list: "map f (opt_list x) = opt_list (map_option f x)"
  by (cases x) auto

lemma rev_opt_list [simp]: "rev (opt_list x) = opt_list x"
  by (cases x) auto

definition spec_add_files :: "ignore_files \<Rightarrow> spec_state \<Rightarrow> spec_state" where
  "spec_add_files files ss =
     (let git = (if if_git_root files then Some (map_option place (if_git_exclude files), []) else ss_git ss)
      in \<lparr>ss_global = ss_global ss,
          ss_git = map_option (map_prod id (\<lambda>igs. igs @ opt_list (map_option place (if_gitignore files)))) git,
          ss_ferret = ss_ferret ss @ opt_list (map_option place (if_ferretignore files)),
          ss_ignore = ss_ignore ss @ opt_list (map_option place (if_ignore files)),
          ss_rgignore = ss_rgignore ss @ opt_list (map_option place (if_rgignore files))\<rparr>)"

definition spec_root :: "bytes option \<Rightarrow> ignore_files \<Rightarrow> spec_state" where
  "spec_root global files =
     spec_add_files files
       \<lparr>ss_global = map_option place global, ss_git = None, ss_ferret = [], ss_ignore = [], ss_rgignore = []\<rparr>"

definition spec_enter :: "bytes \<Rightarrow> ignore_files \<Rightarrow> spec_state \<Rightarrow> spec_state" where
  "spec_enter name files ss = spec_add_files files (spec_descend name ss)"

text \<open>Highest precedence first (D13, D126), each kind closest directory first.\<close>

definition precedence :: "spec_state \<Rightarrow> (band \<times> placed) list" where
  "precedence ss =
     map (Pair Ferret) (rev (ss_ferret ss)) @
     map (Pair Repo) (rev (ss_rgignore ss)) @
     map (Pair Repo) (rev (ss_ignore ss)) @
     (case ss_git ss of
        None \<Rightarrow> []
      | Some (exclude, igs) \<Rightarrow> map (Pair Repo) (rev igs) @ map (Pair Repo) (opt_list exclude)) @
     map (Pair Global) (opt_list (ss_global ss))"

fun first_some :: "'a option list \<Rightarrow> 'a option" where
  "first_some [] = None"
| "first_some (Some x # xs) = Some x"
| "first_some (None # xs) = first_some xs"

definition placed_match :: "bytes \<Rightarrow> bool \<Rightarrow> band \<times> placed \<Rightarrow> (match_result \<times> band) option" where
  "placed_match name is_dir f =
     map_option (\<lambda>m. (m, fst f)) (file_match (pl_patterns (snd f)) (pl_rel (snd f)) name is_dir)"

definition verdict :: "(band \<times> placed) list \<Rightarrow> bytes \<Rightarrow> bool \<Rightarrow> (match_result \<times> band) option" where
  "verdict fs name is_dir = first_some (map (placed_match name is_dir) fs)"

definition spec_reaches :: "spec_state \<Rightarrow> bytes \<Rightarrow> bool" where
  "spec_reaches ss name \<longleftrightarrow>
     (\<exists>f\<in>set (ss_ferret ss). \<exists>i<length (anchored_of (pl_patterns f)).
        reach_flags Ferret (pl_patterns f) ! i \<and>
        step_all (anchored_of (pl_patterns f) ! i) [(0, False)] (pl_rel f @ [name]) \<noteq> [])"

definition spec_decide :: "config \<Rightarrow> spec_state \<Rightarrow> bool \<Rightarrow> bytes \<Rightarrow> entry \<Rightarrow> decision" where
  "spec_decide cfg ss traversing name entry =
     (let included = (case verdict (precedence ss) name (entry = Dir) of
                        None \<Rightarrow> \<not> traversing
                      | Some (Ignore, _) \<Rightarrow> False
                      | Some (Whitelist, band) \<Rightarrow> traversing \<longrightarrow> band = Ferret)
      in if included
         then (case entry of
                 Dir \<Rightarrow> Descend
               | File len \<Rightarrow> if len \<le> size_cap cfg then Index else Catalog Too_large
               | Symlink \<Rightarrow> Catalog Is_symlink
               | Other \<Rightarrow> Catalog Special)
         else if entry = Dir \<and> spec_reaches ss name then Traverse else Skip)"

section \<open>Representing files by layers\<close>

definition dead :: "placed \<Rightarrow> bool" where
  "dead f \<longleftrightarrow> shared_of (pl_patterns f) = [] \<and> concat (cursor_groups (pl_patterns f) (pl_rel f)) = []"

inductive layers_rep :: "lists \<Rightarrow> band \<Rightarrow> placed list \<Rightarrow> layer list \<Rightarrow> bool" for ls band where
  none: "layers_rep ls band [] []"
| dead: "layers_rep ls band fs lys \<Longrightarrow> dead f \<Longrightarrow> wf_file (pl_patterns f) \<Longrightarrow> layers_rep ls band (f # fs) lys"
| live: "layers_rep ls band fs lys \<Longrightarrow> layer_rep ls band (pl_patterns f) (pl_rel f) l \<Longrightarrow> wf_file (pl_patterns f) \<Longrightarrow>
    layers_rep ls band (f # fs) (l # lys)"

inductive_simps layers_rep_Nil [simp]: "layers_rep ls band [] lys"
inductive_simps layers_rep_Cons: "layers_rep ls band (f # fs) lys"

lemma layers_rep_append:
  "layers_rep ls band fs lys \<Longrightarrow> layers_rep ls band fs' lys' \<Longrightarrow> layers_rep ls band (fs @ fs') (lys @ lys')"
  by (induction rule: layers_rep.induct) (auto intro: layers_rep.intros)

lemma layer_rep_mono: "layer_rep ls band ps rel l \<Longrightarrow> known_rules ls \<subseteq> known_rules ls' \<Longrightarrow> layer_rep ls' band ps rel l"
  by (auto simp: layer_rep_def intro: source_rep_mono)

lemma layers_rep_mono:
  "layers_rep ls band fs lys \<Longrightarrow> known_rules ls \<subseteq> known_rules ls' \<Longrightarrow> layers_rep ls' band fs lys"
  by (induction rule: layers_rep.induct) (auto intro: layers_rep.intros layer_rep_mono)

lemma layer_live:
  assumes "layer_rep ls band (pl_patterns f) (pl_rel f) l" "wf_file (pl_patterns f)"
  shows "layers_rep ls band [f] (opt_list (live l))"
proof -
  have "so_shared (la_source l) = [] \<longleftrightarrow> shared_of (pl_patterns f) = []"
    using assms(1) by (auto simp: layer_rep_def source_rep_def)
  then show ?thesis
    using assms by (auto simp: live_def dead_def layer_rep_def intro: layers_rep.intros)
qed

lemma step_all_empty: "step_all p cs rel = [] \<Longrightarrow> step_all p cs (rel @ [name]) = []"
  by (simp add: step_all_snoc)

lemma dead_descend: "dead f \<Longrightarrow> dead (descend name f)"
  by (auto simp: dead_def descend_def cursor_groups_def slot_cursors_def step_all_empty)

lemma descend_simps [simp]: "pl_patterns (descend name f) = pl_patterns f" "pl_rel (descend name f) = pl_rel f @ [name]"
  by (simp_all add: descend_def)

lemma layers_rep_step:
  "layers_rep ls band fs lys \<Longrightarrow> layers_rep ls band (map (descend name) fs) (step_layers name lys)"
proof (induction rule: layers_rep.induct)
  case (live fs lys f l)
  from step_layer_rep [OF live.hyps(2), of name] live.hyps(3)
  have "layers_rep ls band [descend name f] (opt_list (Dir_Rules.live (step_layer name l)))"
    by (intro layer_live) simp_all
  from layers_rep_append [OF this live.IH] show ?case
    by (auto simp: step_layers_def List.map_filter_simps split: option.splits)
qed (auto intro: layers_rep.intros dead_descend simp: step_layers_def List.map_filter_simps)

lemma layers_rep_step_opt:
  assumes "layers_rep ls band (opt_list f) (opt_list l)"
  shows "layers_rep ls band (opt_list (map_option (descend name) f)) (opt_list (Option.bind l (\<lambda>l. live (step_layer name l))))"
proof -
  have "step_layers name (opt_list l) = opt_list (Option.bind l (\<lambda>l. live (step_layer name l)))"
    by (cases l) (auto simp: step_layers_def List.map_filter_simps split: option.splits)
  then show ?thesis using layers_rep_step [OF assms, of name] by (simp add: map_opt_list)
qed

lemma layers_rep_unchanged:
  "layers_rep ls band fs lys \<Longrightarrow> \<forall>l\<in>set lys. layer_stepped l name = None \<Longrightarrow>
     layers_rep ls band (map (descend name) fs) lys"
proof (induction rule: layers_rep.induct)
  case (live fs lys f l)
  with step_layer_rep [OF live.hyps(2), of name] show ?case
    by (auto intro!: layers_rep.live simp: step_layer_def)
qed (auto intro: layers_rep.intros dead_descend)

section \<open>The last rule is the verdict\<close>

definition or_else :: "'a option \<Rightarrow> 'a option \<Rightarrow> 'a option" where
  "or_else a b = (case a of Some x \<Rightarrow> Some x | None \<Rightarrow> b)"

lemma or_else_simps [simp]: "or_else (Some x) b = Some x" "or_else None b = b" "or_else a None = a"
  by (simp_all add: or_else_def split: option.splits)

lemma or_else_assoc: "or_else (or_else a b) c = or_else a (or_else b c)"
  by (cases a) auto

lemma map_option_or_else: "map_option f (or_else a b) = or_else (map_option f a) (map_option f b)"
  by (cases a) auto

lemma first_some_append: "first_some (xs @ ys) = or_else (first_some xs) (first_some ys)"
  by (induction xs rule: first_some.induct) auto

lemma find_append: "find P (xs @ ys) = or_else (find P xs) (find P ys)"
  by (induction xs) auto

lemma last_rule_append: "last_rule (xs @ ys) name is_dir = or_else (last_rule ys name is_dir) (last_rule xs name is_dir)"
  by (simp add: last_rule_def find_append)

definition rule_verdict :: "rule \<Rightarrow> match_result \<times> band" where
  "rule_verdict r = (pt_result (r_pattern r), r_band r)"

definition rules_verdict :: "rule list \<Rightarrow> bytes \<Rightarrow> bool \<Rightarrow> (match_result \<times> band) option" where
  "rules_verdict rules name is_dir = map_option rule_verdict (last_rule rules name is_dir)"

lemma rules_verdict_append:
  "rules_verdict (xs @ ys) name is_dir = or_else (rules_verdict ys name is_dir) (rules_verdict xs name is_dir)"
  by (simp add: rules_verdict_def last_rule_append map_option_or_else)

lemma verdict_append: "verdict (xs @ ys) name is_dir = or_else (verdict xs name is_dir) (verdict ys name is_dir)"
  by (simp add: verdict_def first_some_append)

lemma last_rule_member: "last_rule rules name is_dir = Some r \<Longrightarrow> r \<in> set rules"
  by (auto simp: last_rule_def find_Some_iff) (metis nth_mem length_rev set_rev)

lemma layer_verdict:
  assumes "layer_rep ls band (pl_patterns f) (pl_rel f) l" "wf_file (pl_patterns f)" "name \<noteq> []"
  shows "rules_verdict (layer_rules l) name is_dir = placed_match name is_dir (band, f)"
proof (cases "last_rule (layer_rules l) name is_dir")
  case None
  with layer_rules_match [OF assms, of is_dir] show ?thesis by (simp add: rules_verdict_def placed_match_def)
next
  case (Some r)
  with layer_rules_match [OF assms, of is_dir, symmetric] layer_rules_known [OF assms(1,2) last_rule_member [OF Some]]
  show ?thesis by (simp add: rules_verdict_def placed_match_def rule_verdict_def)
qed

lemma dead_cursors:
  assumes "dead f" "i < length (anchored_of (pl_patterns f))"
  shows "step_all (anchored_of (pl_patterns f) ! i) [(0, False)] (pl_rel f) = []"
proof -
  have "(\<Union>i<length (anchored_of (pl_patterns f)). set (slot_cursors i (step_all (anchored_of (pl_patterns f) ! i) [(0, False)] (pl_rel f)))) = {}"
    using assms(1) unfolding set_cursor_groups [symmetric] dead_def by (simp only: list.set)
  from UN_upper [of i "{..<length (anchored_of (pl_patterns f))}", THEN order_trans, OF _ equalityD1 [OF this]] assms(2)
  have "set (slot_cursors i (step_all (anchored_of (pl_patterns f) ! i) [(0, False)] (pl_rel f))) \<subseteq> {}" by simp
  then show ?thesis by (simp add: slot_cursors_def)
qed

lemma dead_no_match:
  assumes "dead f" "wf_file (pl_patterns f)" "name \<noteq> []"
  shows "placed_match name is_dir (band, f) = None"
proof -
  have "\<not> pattern_spec p (pl_rel f @ [name]) is_dir" if p: "p \<in> set (pl_patterns f)" for p
  proof (cases "is_shared_basename p")
    case True
    have wf: "wf_pattern p" using assms(2) p by (simp add: wf_file_def)
    then have "projections p \<noteq> []" using projections_not_Nil by (simp add: wf_pattern_def)
    moreover from assms(1) p True have "hd (projections p) = None" by (auto simp: dead_def shared_of_def filter_empty_conv)
    ultimately show ?thesis
      using shared_pattern_spec [OF wf True assms(3)] by (simp add: projected_match_def hd_conv_nth)
  next
    case False
    with p obtain i where i: "i < length (anchored_of (pl_patterns f))" "anchored_of (pl_patterns f) ! i = p"
      using in_set_conv_nth [of p "anchored_of (pl_patterns f)"] by (auto simp: anchored_of_def)
    have "step_all p [(0, False)] (pl_rel f) = []"
      using dead_cursors [OF assms(1) i(1)] i(2) by simp
    with anchored_pattern_spec [OF _ False assms(3)] assms(2) p show ?thesis by (simp add: wf_file_def)
  qed
  then have "find (\<lambda>p. pattern_spec p (pl_rel f @ [name]) is_dir) (rev (pl_patterns f)) = None"
    by (simp add: find_None_iff)
  then show ?thesis by (simp add: placed_match_def file_match_def)
qed

lemma layers_verdict:
  assumes "layers_rep ls band fs lys" "name \<noteq> []"
  shows "rules_verdict (concat (map layer_rules lys)) name is_dir = verdict (map (Pair band) (rev fs)) name is_dir"
  using assms
proof (induction rule: layers_rep.induct)
  case none
  then show ?case by (simp add: rules_verdict_def verdict_def last_rule_def)
next
  case (dead fs lys f)
  from dead_no_match [OF dead.hyps(2,3) dead.prems] have "verdict [(band, f)] name is_dir = None" by (simp add: verdict_def)
  with dead show ?case by (simp add: verdict_append)
next
  case (live fs lys f l)
  from layer_verdict [OF live.hyps(2,3) live.prems]
  have "verdict [(band, f)] name is_dir = rules_verdict (layer_rules l) name is_dir"
    by (cases "placed_match name is_dir (band, f)") (simp_all add: verdict_def)
  with live show ?case by (simp add: verdict_append rules_verdict_append)
qed

lemma layers_rules_known:
  "layers_rep ls band fs lys \<Longrightarrow> r \<in> set (concat (map layer_rules lys)) \<Longrightarrow> r \<in> known_rules ls \<and> r_band r = band"
  by (induction rule: layers_rep.induct) (auto dest: layer_rules_known)

section \<open>States\<close>

fun git_rep :: "lists \<Rightarrow> (placed option \<times> placed list) option \<Rightarrow> work_tree option \<Rightarrow> bool" where
  "git_rep ls None None = True"
| "git_rep ls (Some (exclude, igs)) (Some tree) =
     (layers_rep ls Repo (opt_list exclude) (opt_list (wt_exclude tree)) \<and> layers_rep ls Repo igs (wt_ignores tree))"
| "git_rep ls _ _ = False"

definition state_rep :: "lists \<Rightarrow> spec_state \<Rightarrow> state \<Rightarrow> bool" where
  "state_rep ls ss st \<longleftrightarrow>
     layers_rep ls Global (opt_list (ss_global ss)) (opt_list (st_global st)) \<and>
     git_rep ls (ss_git ss) (st_git st) \<and>
     layers_rep ls Repo (ss_ignore ss) (st_ignore st) \<and>
     layers_rep ls Repo (ss_rgignore ss) (st_rgignore st) \<and>
     layers_rep ls Ferret (ss_ferret ss) (st_ferret st)"

lemma git_rep_mono: "git_rep ls g t \<Longrightarrow> known_rules ls \<subseteq> known_rules ls' \<Longrightarrow> git_rep ls' g t"
  by (cases "(ls, g, t)" rule: git_rep.cases) (auto intro: layers_rep_mono)

lemma state_rep_mono: "state_rep ls ss st \<Longrightarrow> known_rules ls \<subseteq> known_rules ls' \<Longrightarrow> state_rep ls' ss st"
  by (auto simp: state_rep_def intro: layers_rep_mono git_rep_mono)

definition git_layers :: "work_tree option \<Rightarrow> layer list" where
  "git_layers t = (case t of None \<Rightarrow> [] | Some tree \<Rightarrow> opt_list (wt_exclude tree) @ wt_ignores tree)"

lemma layers_split:
  "layers st = opt_list (st_global st) @ git_layers (st_git st) @ st_ignore st @ st_rgignore st @ st_ferret st"
  by (cases "st_git st") (simp_all add: layers_def git_layers_def opt_list_case)

definition git_files :: "(placed option \<times> placed list) option \<Rightarrow> placed list" where
  "git_files g = (case g of None \<Rightarrow> [] | Some (exclude, igs) \<Rightarrow> opt_list exclude @ igs)"

lemma git_rep_layers: "git_rep ls g t \<Longrightarrow> layers_rep ls Repo (git_files g) (git_layers t)"
  by (cases "(ls, g, t)" rule: git_rep.cases) (auto simp: git_files_def git_layers_def intro: layers_rep_append)

lemma precedence_split:
  "precedence ss =
     map (Pair Ferret) (rev (ss_ferret ss)) @ map (Pair Repo) (rev (git_files (ss_git ss) @ ss_ignore ss @ ss_rgignore ss)) @
     map (Pair Global) (rev (opt_list (ss_global ss)))"
  by (auto simp: precedence_def git_files_def split: option.splits)

lemma state_verdict:
  assumes "state_rep ls ss st" "name \<noteq> []"
  shows "rules_verdict (state_rules st) name is_dir = verdict (precedence ss) name is_dir"
proof -
  have repo: "layers_rep ls Repo (git_files (ss_git ss) @ ss_ignore ss @ ss_rgignore ss)
      (git_layers (st_git st) @ st_ignore st @ st_rgignore st)"
    using assms(1) git_rep_layers by (auto simp: state_rep_def intro!: layers_rep_append)
  note parts = layers_verdict [OF repo assms(2)]
    layers_verdict [of ls Global "opt_list (ss_global ss)" "opt_list (st_global st)", OF _ assms(2)]
    layers_verdict [of ls Ferret "ss_ferret ss" "st_ferret st", OF _ assms(2)]
  have rules: "state_rules st = concat (map layer_rules (opt_list (st_global st))) @
      concat (map layer_rules (git_layers (st_git st) @ st_ignore st @ st_rgignore st)) @
      concat (map layer_rules (st_ferret st))"
    by (simp add: state_rules_def layers_split)
  show ?thesis
    unfolding rules precedence_split rules_verdict_append verdict_append
    using parts assms(1) by (simp add: state_rep_def or_else_assoc)
qed

lemma state_rules_known:
  assumes "wf_lists ls" "state_rep ls ss st"
  shows "set (state_rules st) \<subseteq> known_rules ls" "rules_ok (state_rules st)"
proof -
  have repo: "layers_rep ls Repo (git_files (ss_git ss) @ ss_ignore ss @ ss_rgignore ss)
      (git_layers (st_git st) @ st_ignore st @ st_rgignore st)"
    using assms(2) git_rep_layers by (auto simp: state_rep_def intro!: layers_rep_append)
  let ?g = "concat (map layer_rules (opt_list (st_global st)))"
  let ?r = "concat (map layer_rules (git_layers (st_git st) @ st_ignore st @ st_rgignore st))"
  let ?f = "concat (map layer_rules (st_ferret st))"
  have g: "\<forall>r\<in>set ?g. r \<in> known_rules ls \<and> r_band r = Global"
    and r: "\<forall>r\<in>set ?r. r \<in> known_rules ls \<and> r_band r = Repo"
    and f: "\<forall>r\<in>set ?f. r \<in> known_rules ls \<and> r_band r = Ferret"
    using assms(2) layers_rules_known repo unfolding state_rep_def by blast+
  have rules: "state_rules st = ?g @ ?r @ ?f" by (simp add: state_rules_def layers_split)
  show known: "set (state_rules st) \<subseteq> known_rules ls" unfolding rules using g r f by auto
  have same: "\<And>xs b. \<forall>r\<in>set xs. r_band r = b \<Longrightarrow> map r_band xs = replicate (length xs) b"
    by (simp add: map_replicate_const [symmetric])
  have eqs: "map r_band ?g = replicate (length ?g) Global" "map r_band ?r = replicate (length ?r) Repo"
    "map r_band ?f = replicate (length ?f) Ferret"
    using g r f by (blast intro: same)+
  have "map r_band (state_rules st) = replicate (length ?g) Global @ replicate (length ?r) Repo @ replicate (length ?f) Ferret"
    unfolding rules map_append [of r_band] by (simp only: eqs)
  then have "sorted (map r_band (state_rules st))" by (simp add: sorted_append less_eq_band_def)
  then show "rules_ok (state_rules st)" using known_rule_ok(3) [OF assms(1)] known by (auto simp: rules_ok_def)
qed

lemma git_rep_step:
  assumes "git_rep ls g t"
  shows "git_rep ls (map_option (map_prod (map_option (descend name)) (map (descend name))) g)
    (map_option (\<lambda>tree. \<lparr>wt_exclude = Option.bind (wt_exclude tree) (\<lambda>l. live (step_layer name l)),
       wt_ignores = step_layers name (wt_ignores tree)\<rparr>) t)"
proof (cases "(ls, g, t)" rule: git_rep.cases)
  case (2 ls' exclude igs tree)
  then have g: "g = Some (exclude, igs)" and t: "t = Some tree" by auto
  from assms have "layers_rep ls Repo (opt_list exclude) (opt_list (wt_exclude tree))" "layers_rep ls Repo igs (wt_ignores tree)"
    by (simp_all add: g t)
  from layers_rep_step_opt [OF this(1)] layers_rep_step [OF this(2)] show ?thesis by (simp add: g t)
qed (use assms in auto)

lemma spec_descend_simps [simp]:
  "ss_global (spec_descend name ss) = map_option (descend name) (ss_global ss)"
  "ss_git (spec_descend name ss) = map_option (map_prod (map_option (descend name)) (map (descend name))) (ss_git ss)"
  "ss_ferret (spec_descend name ss) = map (descend name) (ss_ferret ss)"
  "ss_ignore (spec_descend name ss) = map (descend name) (ss_ignore ss)"
  "ss_rgignore (spec_descend name ss) = map (descend name) (ss_rgignore ss)"
  by (simp_all add: spec_descend_def)

lemma git_rep_unchanged:
  assumes "git_rep ls g t" "\<forall>l\<in>set (git_layers t). layer_stepped l name = None"
  shows "git_rep ls (map_option (map_prod (map_option (descend name)) (map (descend name))) g) t"
proof (cases "(ls, g, t)" rule: git_rep.cases)
  case (2 ls' exclude igs tree)
  then have g: "g = Some (exclude, igs)" and t: "t = Some tree" by auto
  from assms(1) have "layers_rep ls Repo (opt_list exclude) (opt_list (wt_exclude tree))" "layers_rep ls Repo igs (wt_ignores tree)"
    by (simp_all add: g t)
  with assms(2) layers_rep_unchanged [OF this(1), of name] layers_rep_unchanged [OF this(2), of name]
  show ?thesis by (auto simp: g t git_layers_def map_opt_list)
qed (use assms in auto)

lemma step_state_rep:
  assumes "state_rep ls ss st"
  shows "state_rep ls (spec_descend name ss) (case step_state st name of Some st' \<Rightarrow> st' | None \<Rightarrow> st)"
proof (cases "list_ex (\<lambda>l. layer_stepped l name \<noteq> None) (layers st)")
  case True
  have opt: "layers_rep ls Global (opt_list (ss_global (spec_descend name ss)))
      (opt_list (Option.bind (st_global st) (\<lambda>l. live (step_layer name l))))"
    using assms layers_rep_step_opt unfolding state_rep_def spec_descend_simps by blast
  from assms have git: "git_rep ls (ss_git ss) (st_git st)" by (simp add: state_rep_def)
  with True opt assms show ?thesis
    by (simp add: step_state_def Let_def state_rep_def layers_rep_step git_rep_step)
next
  case False
  then have none: "\<forall>l\<in>set (layers st). layer_stepped l name = None" by (auto simp: list_ex_iff)
  have same: "\<And>band fs lys. layers_rep ls band fs lys \<Longrightarrow> set lys \<subseteq> set (layers st) \<Longrightarrow> layers_rep ls band (map (descend name) fs) lys"
    using none layers_rep_unchanged by blast
  have "git_rep ls (ss_git (spec_descend name ss)) (st_git st)"
    using assms none git_rep_unchanged [of ls "ss_git ss" "st_git st" name] by (simp add: state_rep_def layers_split)
  moreover have "layers_rep ls Global (opt_list (ss_global (spec_descend name ss))) (opt_list (st_global st))"
    using assms same [of Global "opt_list (ss_global ss)"] by (simp add: state_rep_def layers_split map_opt_list)
  moreover have "layers_rep ls Repo (ss_ignore (spec_descend name ss)) (st_ignore st)"
    "layers_rep ls Repo (ss_rgignore (spec_descend name ss)) (st_rgignore st)"
    "layers_rep ls Ferret (ss_ferret (spec_descend name ss)) (st_ferret st)"
    using assms same unfolding state_rep_def layers_split by auto
  moreover have "step_state st name = None" using False by (simp add: step_state_def)
  ultimately show ?thesis by (simp add: state_rep_def)
qed

lemma state_stepped_rep:
  assumes "state_rep ls ss st"
  shows "state_rep ls (if git_root then (spec_descend name ss)\<lparr>ss_git := None\<rparr> else spec_descend name ss)
    (let st' = (case state_stepped st name git_root of Some st' \<Rightarrow> st' | None \<Rightarrow> st)
     in if git_root then st'\<lparr>st_git := None\<rparr> else st')"
proof -
  have drop: "state_rep ls ss1 st1 \<Longrightarrow> state_rep ls (ss1\<lparr>ss_git := None\<rparr>) (st1\<lparr>st_git := None\<rparr>)" for ss1 st1
    by (simp add: state_rep_def)
  show ?thesis
    using step_state_rep [OF assms, of name] drop [OF step_state_rep [OF assms, of name]]
    by (auto simp: state_stepped_def Let_def split: option.splits)
qed

section \<open>Adding the files of a directory\<close>

lemma start_cursors:
  "concat (map (\<lambda>(slot, p). [f slot]) (enumerate n xs)) = map f [n..<n + length xs]"
  by (induction xs arbitrary: n) (auto simp: upt_rec)

lemma compile_text_rep:
  assumes "wf_lists ls" "compile_text input band ls = (l, errors, ls')"
  shows "wf_lists ls'" "known_rules ls \<subseteq> known_rules ls'" "layer_rep ls' band (fst (parse input)) [] l"
    "wf_file (fst (parse input))"
proof -
  let ?ps = "fst (parse input)"
  show "wf_file ?ps" by (simp add: wf_file_def parse_patterns)
  obtain so ls1 where comp: "compile_patterns ?ps band ls [] [] = (so, ls1)" by fastforce
  note rep = compile_patterns_rep [OF assms(1) _ comp]
  from assms(2) comp have l: "la_source l = so" "ls' = ls1"
    "la_cursors l = map (\<lambda>slot. \<lparr>cu_slot = slot, cu_pos = 0, cu_fed = False\<rparr>) [0..<length (so_anchored so)]"
    by (auto simp: compile_text_def Let_def split_beta)
  from rep parse_patterns(2) [of input] l(2) show "wf_lists ls'" "known_rules ls \<subseteq> known_rules ls'" by auto
  from rep parse_patterns(2) [of input] l(2) have so: "source_rep ls' band ?ps so" by auto
  have "length (so_anchored so) = length (anchored_of ?ps)"
    using so by (auto simp: source_rep_def dest: list_all2_lengthD)
  then have "la_cursors l = concat (cursor_groups ?ps [])"
    unfolding l(3) cursor_groups_def slot_cursors_def using start_cursors [of "\<lambda>slot. \<lparr>cu_slot = slot, cu_pos = 0, cu_fed = False\<rparr>" 0 "anchored_of ?ps"] by simp
  with so l(1) show "layer_rep ls' band ?ps [] l" by (simp add: layer_rep_def)
qed

text \<open>What every operation keeps of the tables, and the rules known so far stay known.\<close>

definition keeps :: "lists \<Rightarrow> lists \<Rightarrow> bool" where
  "keeps ls ls' \<longleftrightarrow> wf_lists ls' \<and> known_rules ls \<subseteq> known_rules ls'"

lemma keeps_trans [trans]: "keeps ls1 ls2 \<Longrightarrow> keeps ls2 ls3 \<Longrightarrow> keeps ls1 ls3"
  by (auto simp: keeps_def)

lemma extend_layers_rep:
  assumes "wf_lists ls" "layers_rep ls band fs old" "extend_layers old file input band ls errors = (lys, errors', ls')"
  shows "keeps ls ls' \<and> layers_rep ls' band (fs @ opt_list (map_option place input)) lys"
proof (cases input)
  case None
  with assms show ?thesis by (simp add: extend_layers_def keeps_def)
next
  case (Some t)
  obtain l es ls1 where comp: "compile_text t band ls = (l, es, ls1)" by (rule prod_cases3)
  note rep = compile_text_rep [OF assms(1) comp]
  from assms(3) Some comp have eq: "lys = old @ opt_list (live l)" "ls' = ls1"
    by (auto simp: extend_layers_def layer_compile_def opt_list_case)
  from rep(3,4) have "layers_rep ls' band [place t] (opt_list (live l))"
    by (intro layer_live) (simp_all add: place_def eq)
  with layers_rep_mono [OF assms(2) rep(2)] show ?thesis
    using rep(1,2) layers_rep_append by (fastforce simp: eq Some keeps_def)
qed

lemma start_work_tree_rep:
  assumes "wf_lists ls" "git_rep ls g t" "start_work_tree t dir files ls errors = (t', errors', ls')"
  shows "keeps ls ls' \<and>
    git_rep ls' (if if_git_root files then Some (map_option place (if_git_exclude files), []) else g) t'"
proof (cases "if_git_root files")
  case True
  let ?file = "Git_exclude_file (path_join dir (str_bytes ''.git/info/exclude''))"
  obtain lys es ls1 where ext: "extend_layers [] ?file (if_git_exclude files) Repo ls errors = (lys, es, ls1)"
    by (rule prod_cases3)
  have "layers_rep ls Repo [] []" by simp
  note rep = extend_layers_rep [OF assms(1) this ext]
  have "lys = opt_list (case lys of l # _ \<Rightarrow> Some l | [] \<Rightarrow> None)"
    using ext by (auto simp: extend_layers_def Let_def split_beta split: option.splits list.splits)
  with rep True assms(3) ext show ?thesis by (auto simp: start_work_tree_def)
next
  case False
  with assms show ?thesis by (simp add: start_work_tree_def keeps_def)
qed

lemma add_gitignore_rep:
  assumes "wf_lists ls" "git_rep ls g t" "add_gitignore t dir files ls errors = (t', errors', ls')"
  shows "keeps ls ls' \<and>
    git_rep ls' (map_option (map_prod id (\<lambda>igs. igs @ opt_list (map_option place (if_gitignore files)))) g) t'"
proof (cases t)
  case None
  with assms show ?thesis by (cases g) (auto simp: add_gitignore_def keeps_def)
next
  case (Some tree)
  let ?file = "Git_file (path_join dir (str_bytes ''.gitignore''))"
  from Some assms(2) obtain ex igs where g: "g = Some (ex, igs)" by (cases g) auto
  with Some assms(2) have ex: "layers_rep ls Repo (opt_list ex) (opt_list (wt_exclude tree))"
    and igs: "layers_rep ls Repo igs (wt_ignores tree)" by auto
  obtain lys es ls1 where ext: "extend_layers (wt_ignores tree) ?file (if_gitignore files) Repo ls errors = (lys, es, ls1)"
    by (rule prod_cases3)
  from extend_layers_rep [OF assms(1) igs ext] layers_rep_mono [OF ex, of ls1] Some g assms(3) ext show ?thesis
    by (auto simp: add_gitignore_def keeps_def)
qed

lemma add_files_rep:
  assumes ls: "wf_lists ls" and st: "state_rep ls ss st"
    and add: "add_files st dir files ls errors = (st', errors', ls')"
  shows "keeps ls ls' \<and> state_rep ls' (spec_add_files files ss) st'"
proof -
  obtain ferret e1 ls1 where x1: "extend_layers (st_ferret st) (Ferret_file (path_join dir (str_bytes ''.ferretignore'')))
      (if_ferretignore files) Ferret ls errors = (ferret, e1, ls1)" by (rule prod_cases3)
  obtain git e2 ls2 where x2: "start_work_tree (st_git st) dir files ls1 e1 = (git, e2, ls2)" by (rule prod_cases3)
  obtain git' e3 ls3 where x3: "add_gitignore git dir files ls2 e2 = (git', e3, ls3)" by (rule prod_cases3)
  obtain ign e4 ls4 where x4: "extend_layers (st_ignore st) (Dot_file (path_join dir (str_bytes ''.ignore'')))
      (if_ignore files) Repo ls3 e3 = (ign, e4, ls4)" by (rule prod_cases3)
  obtain rg e5 ls5 where x5: "extend_layers (st_rgignore st) (Dot_file (path_join dir (str_bytes ''.rgignore'')))
      (if_rgignore files) Repo ls4 e4 = (rg, e5, ls5)" by (rule prod_cases3)
  have res: "st' = \<lparr>st_global = st_global st, st_git = git', st_ferret = ferret, st_ignore = ign, st_rgignore = rg\<rparr>" "ls' = ls5"
    using add unfolding add_files_def by (simp_all add: x1 x2 x3 x4 x5)
  from st have reps: "layers_rep ls Global (opt_list (ss_global ss)) (opt_list (st_global st))" "git_rep ls (ss_git ss) (st_git st)"
    "layers_rep ls Repo (ss_ignore ss) (st_ignore st)" "layers_rep ls Repo (ss_rgignore ss) (st_rgignore st)"
    "layers_rep ls Ferret (ss_ferret ss) (st_ferret st)" by (simp_all add: state_rep_def)
  note r1 = extend_layers_rep [OF ls reps(5) x1]
  then have k1: "keeps ls ls1" "wf_lists ls1" "known_rules ls \<subseteq> known_rules ls1" by (auto simp: keeps_def)
  note r2 = start_work_tree_rep [OF k1(2) git_rep_mono [OF reps(2) k1(3)] x2]
  then have k2: "keeps ls ls2" "wf_lists ls2" "keeps ls1 ls2" using k1 keeps_trans by (auto simp: keeps_def)
  note r3 = add_gitignore_rep [OF k2(2) r2 [THEN conjunct2] x3]
  then have k3: "keeps ls ls3" "wf_lists ls3" "keeps ls1 ls3" using k2 keeps_trans by (auto simp: keeps_def)
  then have s3: "known_rules ls \<subseteq> known_rules ls3" by (simp add: keeps_def)
  note r4 = extend_layers_rep [OF k3(2) layers_rep_mono [OF reps(3) s3] x4]
  then have k4: "wf_lists ls4" "keeps ls ls4" "keeps ls1 ls4" "keeps ls3 ls4" using k3 keeps_trans by (auto simp: keeps_def)
  then have s4: "known_rules ls \<subseteq> known_rules ls4" by (simp add: keeps_def)
  note r5 = extend_layers_rep [OF k4(1) layers_rep_mono [OF reps(4) s4] x5]
  have k5: "keeps ls ls5" "known_rules ls \<subseteq> known_rules ls5" "known_rules ls1 \<subseteq> known_rules ls5"
    "known_rules ls3 \<subseteq> known_rules ls5" "known_rules ls4 \<subseteq> known_rules ls5"
    using r5 k4 by (auto simp: keeps_def)
  have "layers_rep ls5 Global (opt_list (ss_global ss)) (opt_list (st_global st))" using layers_rep_mono [OF reps(1) k5(2)] .
  moreover note layers_rep_mono [OF r1 [THEN conjunct2] k5(3)] git_rep_mono [OF r3 [THEN conjunct2] k5(4)]
    layers_rep_mono [OF r4 [THEN conjunct2] k5(5)] r5 k5(1)
  ultimately show ?thesis unfolding res state_rep_def spec_add_files_def Let_def by simp
qed

section \<open>Directories\<close>

definition dir_rep :: "lists \<Rightarrow> spec_state \<Rightarrow> dir_rules \<Rightarrow> bool" where
  "dir_rep ls ss dr \<longleftrightarrow>
     wf_lists ls \<and> state_rep ls ss (dr_state dr) \<and> dr_list dr = list_compile (state_rules (dr_state dr))"

lemma dir_rep_mono: "dir_rep ls ss dr \<Longrightarrow> keeps ls ls' \<Longrightarrow> dir_rep ls' ss dr"
  by (auto simp: dir_rep_def keeps_def intro: state_rep_mono)

lemma shared_list_rep:
  assumes "wf_lists ls" "state_rep ls ss st"
    and parent: "\<And>l. parent = Some l \<Longrightarrow> \<exists>rules. l = list_compile rules \<and> set rules \<subseteq> known_rules ls"
    and list: "shared_list ls st parent = (l, ls')"
  shows "keeps ls ls' \<and> l = list_compile (state_rules st)"
proof -
  note known = state_rules_known(1) [OF assms(1,2)]
  note table = lists_list_interned [OF assms(1) known]
  show ?thesis
  proof (cases "\<exists>p. parent = Some p \<and> rl_key p = map r_id (state_rules st)")
    case True
    then obtain p where p: "parent = Some p" "rl_key p = map r_id (state_rules st)" by auto
    with parent obtain rules where rules: "p = list_compile rules" "set rules \<subseteq> known_rules ls" by blast
    with p(2) key_determines_rules [OF assms(1) rules(2) known] list p(1) assms(1) show ?thesis
      by (auto simp: shared_list_def keeps_def)
  next
    case False
    with list have "lists_list ls (map r_id (state_rules st)) (state_rules st) = (l, ls')"
      by (auto simp: shared_list_def Let_def split: option.splits if_splits)
    with table show ?thesis by (simp add: keeps_def)
  qed
qed

lemma dir_rep_list:
  "dir_rep ls ss dr \<Longrightarrow> keeps ls ls' \<Longrightarrow> Some (dr_list dr) = Some l \<Longrightarrow>
     \<exists>rules. l = list_compile rules \<and> set rules \<subseteq> known_rules ls'"
  using state_rules_known(1) by (fastforce simp: dir_rep_def keeps_def)

lemma root_rep:
  assumes "root path global files cfg = (dr, errors, ls)"
  shows "dir_rep ls (spec_root global files) dr"
proof -
  obtain g e1 ls1 where x1: "extend_layers [] Global_file global Global lists_default [] = (g, e1, ls1)" by (rule prod_cases3)
  let ?st = "state_default\<lparr>st_global := (case g of l # _ \<Rightarrow> Some l | [] \<Rightarrow> None)\<rparr>"
  let ?ss = "\<lparr>ss_global = map_option place global, ss_git = None, ss_ferret = [], ss_ignore = [], ss_rgignore = []\<rparr>"
  obtain st e2 ls2 where x2: "add_files ?st path files ls1 e1 = (st, e2, ls2)" by (rule prod_cases3)
  obtain l ls3 where x3: "shared_list ls2 st None = (l, ls3)" by fastforce
  have dr: "dr_state dr = st" "dr_list dr = l" "ls = ls3"
    using assms unfolding root_def by (auto simp: x1 x2 x3)
  have "layers_rep lists_default Global [] []" by simp
  note r1 = extend_layers_rep [OF wf_lists_default this x1]
  have "g = opt_list (case g of l # _ \<Rightarrow> Some l | [] \<Rightarrow> None)"
    using x1 by (auto simp: extend_layers_def Let_def split_beta split: option.splits list.splits)
  with r1 have "state_rep ls1 ?ss ?st" by (simp add: state_rep_def state_default_def)
  note r2 = add_files_rep [OF _ this x2]
  with r1 have "wf_lists ls2" "state_rep ls2 (spec_root global files) st" by (auto simp: keeps_def spec_root_def)
  from shared_list_rep [OF this _ x3] this(2) show ?thesis
    by (auto simp: dir_rep_def dr keeps_def intro: state_rep_mono)
qed

lemma spec_add_files_none:
  "if_ferretignore files = None \<Longrightarrow> if_ignore files = None \<Longrightarrow> if_rgignore files = None \<Longrightarrow> \<not> if_git_root files \<Longrightarrow>
     if_gitignore files = None \<or> ss_git ss = None \<Longrightarrow> spec_add_files files ss = ss"
  by (cases "ss_git ss") (auto simp: spec_add_files_def map_prod_def)

lemma spec_add_files_git: "if_git_root files \<Longrightarrow> spec_add_files files (ss\<lparr>ss_git := g\<rparr>) = spec_add_files files ss"
  by (simp add: spec_add_files_def)

lemma add_files_git: "if_git_root files \<Longrightarrow> add_files (st\<lparr>st_git := t\<rparr>) dir files ls errors = add_files st dir files ls errors"
  by (simp add: add_files_def start_work_tree_def)

lemma git_rep_None: "git_rep ls g t \<Longrightarrow> g = None \<longleftrightarrow> t = None"
  by (cases "(ls, g, t)" rule: git_rep.cases) auto

lemma enter_rep:
  assumes rep: "dir_rep ls ss dr" and enter: "enter ls dr name files = (dr', errors, ls')"
  shows "keeps ls ls' \<and> dir_rep ls' (spec_enter name files ss) dr'"
proof -
  let ?root = "if_git_root files"
  let ?stepped = "state_stepped (dr_state dr) name ?root"
  let ?st = "case ?stepped of Some st \<Rightarrow> st | None \<Rightarrow> dr_state dr"
  let ?adds = "if_ferretignore files \<noteq> None \<or> if_ignore files \<noteq> None \<or> if_rgignore files \<noteq> None \<or>
     ?root \<or> (if_gitignore files \<noteq> None \<and> st_git (dr_state dr) \<noteq> None)"
  from rep have ls: "wf_lists ls" and st: "state_rep ls ss (dr_state dr)" by (auto simp: dir_rep_def)
  note stepped = state_stepped_rep [OF st, of ?root name]
  show ?thesis
  proof (cases "?stepped = None \<and> \<not> ?adds")
    case True
    with enter have dr': "dr' = dr\<lparr>dr_path := path_join (dr_path dr) name, dr_traversing := False\<rparr>" "ls' = ls"
      by (auto simp: enter_def Let_def)
    have "git_rep ls (ss_git ss) (st_git (dr_state dr))" using st by (simp add: state_rep_def)
    then have "spec_enter name files ss = spec_descend name ss"
      unfolding spec_enter_def using True git_rep_None by (intro spec_add_files_none) auto
    with True stepped rep show ?thesis by (auto simp: dr' dir_rep_def keeps_def)
  next
    case False
    let ?dir = "path_join (dr_root dr) (path_join (dr_path dr) name)"
    obtain st1 e1 ls1 where x1: "add_files ?st ?dir files ls [] = (st1, e1, ls1)" by (rule prod_cases3)
    obtain l ls2 where x2: "shared_list ls1 st1 (Some (dr_list dr)) = (l, ls2)" by fastforce
    have dr': "dr_state dr' = st1" "dr_list dr' = l" "ls' = ls2"
      using enter unfolding enter_def Let_def if_not_P [OF False] x1 x2 prod.case by auto
    have "keeps ls ls1 \<and> state_rep ls1 (spec_enter name files ss) st1"
    proof (cases ?root)
      case True
      then have "add_files (?st\<lparr>st_git := None\<rparr>) ?dir files ls [] = (st1, e1, ls1)"
        using x1 by (simp only: add_files_git)
      moreover have "state_rep ls ((spec_descend name ss)\<lparr>ss_git := None\<rparr>) (?st\<lparr>st_git := None\<rparr>)"
        using stepped True by (simp add: Let_def)
      ultimately show ?thesis
        using add_files_rep [OF ls] spec_add_files_git [OF True] unfolding spec_enter_def by metis
    next
      case False
      with add_files_rep [OF ls _ x1] stepped show ?thesis by (simp add: spec_enter_def Let_def)
    qed
    then have k1: "keeps ls ls1" "wf_lists ls1" "state_rep ls1 (spec_enter name files ss) st1" by (auto simp: keeps_def)
    note r2 = shared_list_rep [OF k1(2,3) dir_rep_list [OF rep k1(1)] x2]
    with k1 show ?thesis using keeps_trans by (auto simp: dir_rep_def dr' keeps_def intro: state_rep_mono)
  qed
qed

lemma traverse_rep:
  assumes rep: "dir_rep ls ss dr" and trav: "traverse ls dr name = (dr', ls')"
  shows "keeps ls ls' \<and> dir_rep ls' (spec_descend name ss) dr'"
proof -
  from rep have ls: "wf_lists ls" and st: "state_rep ls ss (dr_state dr)" by (auto simp: dir_rep_def)
  note stepped = state_stepped_rep [OF st, of False name]
  show ?thesis
  proof (cases "state_stepped (dr_state dr) name False")
    case None
    with trav stepped rep show ?thesis by (auto simp: traverse_def dir_rep_def keeps_def)
  next
    case (Some st1)
    obtain l ls1 where x: "shared_list ls st1 (Some (dr_list dr)) = (l, ls1)" by fastforce
    have dr': "dr_state dr' = st1" "dr_list dr' = l" "ls' = ls1" using trav Some by (auto simp: traverse_def x)
    have st1: "state_rep ls (spec_descend name ss) st1" using stepped Some by simp
    have "keeps ls ls" using ls by (simp add: keeps_def)
    from shared_list_rep [OF ls st1 dir_rep_list [OF rep this] x] st1 show ?thesis
      by (auto simp: dir_rep_def dr' keeps_def intro: state_rep_mono)
  qed
qed

section \<open>Walks\<close>

text \<open>
  A walk holds every directory reached so far and derives new ones from any
  of them, in any order, over one pair of tables.
\<close>

inductive walk :: "lists \<Rightarrow> (dir_rules \<times> spec_state) set \<Rightarrow> bool" where
  start: "root path global files cfg = (dr, errors, ls) \<Longrightarrow> walk ls {(dr, spec_root global files)}"
| into: "walk ls ds \<Longrightarrow> (dr, ss) \<in> ds \<Longrightarrow> enter ls dr name files = (dr', errors, ls') \<Longrightarrow>
    walk ls' (insert (dr', spec_enter name files ss) ds)"
| through: "walk ls ds \<Longrightarrow> (dr, ss) \<in> ds \<Longrightarrow> traverse ls dr name = (dr', ls') \<Longrightarrow>
    walk ls' (insert (dr', spec_descend name ss) ds)"

lemma walk_rep: "walk ls ds \<Longrightarrow> \<forall>(dr, ss)\<in>ds. dir_rep ls ss dr"
proof (induction rule: walk.induct)
  case (start path global files cfg dr errors ls)
  then show ?case using root_rep by auto
next
  case (into ls ds dr ss name files dr' errors ls')
  then have "dir_rep ls ss dr" by auto
  from enter_rep [OF this into.hyps(3)] into.IH dir_rep_mono show ?case by fastforce
next
  case (through ls ds dr ss name dr' ls')
  then have "dir_rep ls ss dr" by auto
  from traverse_rep [OF this through.hyps(3)] through.IH dir_rep_mono show ?case by fastforce
qed

section \<open>Decisions\<close>

lemma step_singletons: "fst (step p cursors name) \<noteq> [] \<longleftrightarrow> (\<exists>c\<in>set cursors. fst (step p [c] name) \<noteq> [])"
proof -
  have one: "fst (step p cs name) \<noteq> [] \<longleftrightarrow> effects (components p) name cs \<noteq> {}" for cs
  proof
    assume "fst (step p cs name) \<noteq> []"
    then obtain pos fed where "(pos, fed) \<in> set (fst (step p cs name))" by (metis last_in_set surj_pair)
    then show "effects (components p) name cs \<noteq> {}" by (auto simp: step_out(2))
  next
    assume "effects (components p) name cs \<noteq> {}"
    then obtain pos fed where "(pos, fed) \<in> effects (components p) name cs" by auto
    then have "(pos, (pos, True) \<in> effects (components p) name cs) \<in> set (fst (step p cs name))"
      unfolding step_out(2) by force
    then show "fst (step p cs name) \<noteq> []" by auto
  qed
  show ?thesis unfolding one by (auto simp: effects_def)
qed

lemma length_reach_flags: "length (reach_flags band ps) = length (anchored_of ps)"
  by (induction ps) (auto simp: anchored_of_def)

lemma layer_reaches:
  assumes "layer_rep ls band ps rel l"
  shows "list_ex (\<lambda>c. let an = so_anchored (la_source l) ! cu_slot c
      in an_reaches an \<and> fst (step (an_pattern an) [(cu_pos c, cu_fed c)] name) \<noteq> []) (la_cursors l) \<longleftrightarrow>
    (\<exists>i<length (anchored_of ps). reach_flags band ps ! i \<and> step_all (anchored_of ps ! i) [(0, False)] (rel @ [name]) \<noteq> [])"
proof -
  let ?so = "la_source l" and ?an = "anchored_of ps"
  have cursors: "set (la_cursors l) = (\<Union>i<length ?an. set (slot_cursors i (step_all (?an ! i) [(0, False)] rel)))"
    using assms by (simp only: layer_rep_def set_cursor_groups)
  have an: "an_pattern (so_anchored ?so ! i) = ?an ! i" "an_reaches (so_anchored ?so ! i) = reach_flags band ps ! i"
    if "i < length ?an" for i
  proof -
    from assms have rep: "source_rep ls band ps ?so" by (simp add: layer_rep_def)
    with that show "an_pattern (so_anchored ?so ! i) = ?an ! i" by (auto simp: source_rep_def list_all2_conv_all_nth)
    from rep have "map an_reaches (so_anchored ?so) ! i = reach_flags band ps ! i" "length (so_anchored ?so) = length ?an"
      by (auto simp: source_rep_def list_all2_conv_all_nth)
    with that show "an_reaches (so_anchored ?so ! i) = reach_flags band ps ! i" by simp
  qed
  have slot: "(\<exists>c\<in>set (slot_cursors i cs). let an = so_anchored ?so ! cu_slot c
      in an_reaches an \<and> fst (step (an_pattern an) [(cu_pos c, cu_fed c)] name) \<noteq> []) \<longleftrightarrow>
     reach_flags band ps ! i \<and> (\<exists>c\<in>set cs. fst (step (?an ! i) [c] name) \<noteq> [])" if "i < length ?an" for i cs
    using an [OF that] by (simp add: slot_cursors_def Let_def split_beta)
  show ?thesis
    unfolding list_ex_iff cursors step_all_snoc step_singletons [of _ "step_all _ _ _"] using slot by auto
qed

lemma reaches_below_rep:
  assumes "state_rep ls ss st"
  shows "reaches_below st name \<longleftrightarrow> spec_reaches ss name"
proof -
  have "list_ex (\<lambda>l. list_ex (\<lambda>c. let an = so_anchored (la_source l) ! cu_slot c
      in an_reaches an \<and> fst (step (an_pattern an) [(cu_pos c, cu_fed c)] name) \<noteq> []) (la_cursors l)) lys \<longleftrightarrow>
    (\<exists>f\<in>set fs. \<exists>i<length (anchored_of (pl_patterns f)). reach_flags band (pl_patterns f) ! i \<and>
        step_all (anchored_of (pl_patterns f) ! i) [(0, False)] (pl_rel f @ [name]) \<noteq> [])"
    if "layers_rep ls band fs lys" for band fs lys
    using that
  proof (induction rule: layers_rep.induct)
    case (dead fs lys f)
    have "step_all (anchored_of (pl_patterns f) ! i) [(0, False)] (pl_rel f @ [name]) = []"
      if "i < length (anchored_of (pl_patterns f))" for i
      using dead.hyps(2) that by (intro step_all_empty dead_cursors)
    with dead show ?case by auto
  next
    case (live fs lys f l)
    with layer_reaches [OF live.hyps(2), of name] show ?case by simp
  qed simp
  from this [of Ferret "ss_ferret ss" "st_ferret st"] assms show ?thesis
    by (simp add: reaches_below_def spec_reaches_def state_rep_def)
qed

lemma last_match_verdict:
  assumes "dir_rep ls ss dr" "name \<noteq> []" "length (state_rules (dr_state dr)) < 2 ^ 64"
  shows "last_match (dr_list dr) name is_dir =
    map_option (\<lambda>(m, band). (m = Whitelist, band = Ferret)) (verdict (precedence ss) name is_dir)"
proof -
  from assms(1) have ls: "wf_lists ls" and st: "state_rep ls ss (dr_state dr)"
    and l: "dr_list dr = list_compile (state_rules (dr_state dr))" by (auto simp: dir_rep_def)
  show ?thesis
    unfolding l last_match_last_rule [OF state_rules_known(2) [OF ls st] assms(3)] state_verdict [OF st assms(2), symmetric]
    by (simp add: rules_verdict_def option.map_comp comp_def rule_verdict_def is_whitelist_def)
qed

lemma decide_child_spec:
  assumes "dir_rep ls ss dr" "name \<noteq> []" "length (state_rules (dr_state dr)) < 2 ^ 64"
  shows "decide_child dr name entry = spec_decide (dr_config dr) ss (dr_traversing dr) name entry"
proof -
  have "reaches_below (dr_state dr) name = spec_reaches ss name"
    using assms(1) reaches_below_rep by (auto simp: dir_rep_def)
  moreover have "(case map_option (\<lambda>(m, band). (m = Whitelist, band = Ferret)) v of
       Some (True, ferret) \<Rightarrow> \<not> dr_traversing dr \<or> ferret | Some (False, _) \<Rightarrow> False | None \<Rightarrow> \<not> dr_traversing dr) \<longleftrightarrow>
     (case v of None \<Rightarrow> \<not> dr_traversing dr | Some (Ignore, _) \<Rightarrow> False
      | Some (Whitelist, band) \<Rightarrow> dr_traversing dr \<longrightarrow> band = Ferret)" for v
    by (auto split: option.splits match_result.splits)
  moreover have "(if \<not> inc then x else case entry of Dir \<Rightarrow> Descend | File len \<Rightarrow> if size_cap (dr_config dr) < len then Catalog Too_large else Index
        | Symlink \<Rightarrow> Catalog Is_symlink | Other \<Rightarrow> Catalog Special) =
     (if inc then case entry of Dir \<Rightarrow> Descend | File len \<Rightarrow> if len \<le> size_cap (dr_config dr) then Index else Catalog Too_large
        | Symlink \<Rightarrow> Catalog Is_symlink | Other \<Rightarrow> Catalog Special else x)" for inc x
    by (cases entry) (auto simp: not_le)
  ultimately show ?thesis
    unfolding decide_child_def spec_decide_def Let_def last_match_verdict [OF assms] by simp
qed

lemma repo_verdict:
  assumes "dir_rep ls ss dr" "name \<noteq> []"
  shows "reveals dr name is_dir \<longleftrightarrow>
    verdict (filter (\<lambda>f. fst f \<noteq> Ferret) (precedence ss)) name is_dir = Some (Whitelist, Repo)"
proof -
  from assms(1) have ls: "wf_lists ls" and st: "state_rep ls ss (dr_state dr)"
    and l: "dr_list dr = list_compile (state_rules (dr_state dr))" by (auto simp: dir_rep_def)
  have drop: "filter (\<lambda>r. r_band r \<noteq> Ferret) (state_rules (dr_state dr)) = state_rules ((dr_state dr)\<lparr>st_ferret := []\<rparr>)"
  proof -
    have known: "layers_rep ls band fs lys \<Longrightarrow> filter (\<lambda>r. r_band r \<noteq> Ferret) (concat (map layer_rules lys)) =
        (if band = Ferret then [] else concat (map layer_rules lys))" for band fs lys
      using layers_rules_known by (auto simp: filter_empty_conv filter_id_conv)
    from st have reps: "layers_rep ls Global (opt_list (ss_global ss)) (opt_list (st_global (dr_state dr)))"
      "git_rep ls (ss_git ss) (st_git (dr_state dr))"
      "layers_rep ls Repo (ss_ignore ss) (st_ignore (dr_state dr))" "layers_rep ls Repo (ss_rgignore ss) (st_rgignore (dr_state dr))"
      "layers_rep ls Ferret (ss_ferret ss) (st_ferret (dr_state dr))" by (simp_all add: state_rep_def)
    show ?thesis
      using known [OF reps(1)] known [OF git_rep_layers [OF reps(2)]] known [OF reps(3)] known [OF reps(4)] known [OF reps(5)]
      by (simp add: state_rules_def layers_split)
  qed
  have "state_rep ls (ss\<lparr>ss_ferret := []\<rparr>) ((dr_state dr)\<lparr>st_ferret := []\<rparr>)" using st by (simp add: state_rep_def)
  note v = state_verdict [OF this assms(2), of is_dir]
  have prec: "precedence (ss\<lparr>ss_ferret := []\<rparr>) = filter (\<lambda>f. fst f \<noteq> Ferret) (precedence ss)"
  proof -
    have "filter (\<lambda>f. fst f \<noteq> Ferret) (map (Pair b) xs) = (if b = Ferret then [] else map (Pair b) xs)" for b and xs :: "placed list"
      by (induction xs) auto
    then show ?thesis by (simp add: precedence_split rev_map)
  qed
  show ?thesis
    unfolding reveals_def l repo_whitelists_last_rule [OF state_rules_known(2) [OF ls st]] drop v [unfolded prec, symmetric]
    by (auto simp: rules_verdict_def rule_verdict_def is_whitelist_def split: option.splits)
qed

text \<open>
  An entry below an excluded directory that an anchored re-include could
  match: the directory is then traversed.
\<close>

lemma spec_reaches_complete:
  assumes "f \<in> set (ss_ferret ss)" "i < length (anchored_of (pl_patterns f))" "reach_flags Ferret (pl_patterns f) ! i"
    and wf: "wf_file (pl_patterns f)"
    and match: "path_spec (components (anchored_of (pl_patterns f) ! i)) (pl_rel f @ [name] @ below @ [n])"
  shows "spec_reaches ss name"
proof -
  let ?p = "anchored_of (pl_patterns f) ! i"
  have "components ?p \<noteq> []"
    using wf nth_mem [OF assms(2)] by (auto simp: wf_file_def wf_pattern_def anchored_of_def)
  note start = cursor_start [OF this]
  have "\<exists>c\<in>set (step_all ?p [(0, False)] (pl_rel f @ [name] @ below)). cursor_spec (components ?p) c [n]"
    using step_all_spec [of "[(0, False)]" ?p "pl_rel f @ [name] @ below" n] start match by simp
  then have "step_all ?p [(0, False)] ((pl_rel f @ [name]) @ below) \<noteq> []" by auto
  moreover have "step_all ?p [(0, False)] path = [] \<Longrightarrow> step_all ?p [(0, False)] (path @ rest) = []" for path rest
  proof (induction rest rule: rev_induct)
    case (snoc x xs)
    with step_all_empty [of ?p "[(0, False)]" "path @ xs" x] show ?case by simp
  qed simp
  ultimately have "step_all ?p [(0, False)] (pl_rel f @ [name]) \<noteq> []" by blast
  with assms(1-3) show ?thesis by (auto simp: spec_reaches_def)
qed

section \<open>Properties\<close>

text \<open>
  C1: in every directory of every walk, however directories were entered or
  traversed and in whatever order, the decision for an entry is the one of the
  precedence of the ignore files in force: the first file, highest precedence
  first, with a line matching the entry's path decides by its last such line;
  an included file over the size cap is only catalogued; while traversing an
  excluded directory only a \<open>.ferretignore\<close> re-include includes.
\<close>

theorem walk_decides_by_precedence:
  assumes "walk ls ds" "(dr, ss) \<in> ds" "name \<noteq> []" "length (state_rules (dr_state dr)) < 2 ^ 64"
  shows "decide_child dr name entry = spec_decide (dr_config dr) ss (dr_traversing dr) name entry"
  using decide_child_spec [OF _ assms(3,4)] walk_rep [OF assms(1)] assms(2) by blast

definition example_files :: "bytes \<Rightarrow> ignore_files" where
  "example_files ferret =
     \<lparr>if_ferretignore = Some ferret, if_gitignore = None, if_git_root = False, if_git_exclude = None,
      if_ignore = None, if_rgignore = None\<rparr>"

lemma root_config:
  "root path global files cfg = (dr, errors, ls) \<Longrightarrow> dr_config dr = cfg \<and> \<not> dr_traversing dr"
  by (auto simp: root_def Let_def split: prod.splits)

theorem walk_decides_by_precedence_witness:
  "decide_child (fst (root [] None (example_files [0x61, 0x0A, 0x21, 0x2F, 0x61, 0x2F, 0x62]) config_default)) [0x61] Dir = Traverse"
proof -
  let ?files = "example_files [0x61, 0x0A, 0x21, 0x2F, 0x61, 0x2F, 0x62]"
  obtain dr errors ls where root: "root [] None ?files config_default = (dr, errors, ls)" by (rule prod_cases3)
  have "length (state_rules (dr_state (fst (root [] None ?files config_default)))) = 1" by code_simp
  then have len: "length (state_rules (dr_state dr)) < 2 ^ 64" by (simp add: root)
  have "decide_child dr [0x61] Dir = spec_decide (dr_config dr) (spec_root None ?files) (dr_traversing dr) [0x61] Dir"
    by (rule walk_decides_by_precedence [OF walk.start [OF root] _ _ len]) simp_all
  moreover have "spec_decide config_default (spec_root None ?files) False [0x61] Dir = Traverse" by code_simp
  ultimately show ?thesis using root_config [OF root] by (simp add: root)
qed

text \<open>
  C24: a hidden entry is revealed exactly when the last matching line among the
  repository's own ignore files and the global file, \<open>.ferretignore\<close> files
  left out, is a \<open>!\<close> line of a repository file.
\<close>

theorem walk_reveals_repo_whitelists:
  assumes "walk ls ds" "(dr, ss) \<in> ds" "name \<noteq> []"
  shows "reveals dr name is_dir \<longleftrightarrow>
    verdict (filter (\<lambda>f. fst f \<noteq> Ferret) (precedence ss)) name is_dir = Some (Whitelist, Repo)"
  using repo_verdict [OF _ assms(3)] walk_rep [OF assms(1)] assms(2) by blast

theorem walk_reveals_repo_whitelists_witness:
  "\<not> reveals (fst (root [] None (example_files [0x21, 0x61]) config_default)) [0x61] False"
proof -
  let ?files = "example_files [0x21, 0x61]"
  obtain dr errors ls where root: "root [] None ?files config_default = (dr, errors, ls)" by (rule prod_cases3)
  have "reveals dr [0x61] False \<longleftrightarrow>
     verdict (filter (\<lambda>f. fst f \<noteq> Ferret) (precedence (spec_root None ?files))) [0x61] False = Some (Whitelist, Repo)"
    by (rule walk_reveals_repo_whitelists [OF walk.start [OF root]]) simp_all
  moreover have "verdict (filter (\<lambda>f. fst f \<noteq> Ferret) (precedence (spec_root None ?files))) [0x61] False = None" by code_simp
  ultimately show ?thesis by (simp add: root)
qed

text \<open>
  C9: no re-include is lost to an excluded directory: if an anchored \<open>!\<close> line
  of a \<open>.ferretignore\<close> in force, not superseded by a later line, matches some
  path below a subdirectory, then the walk enters or traverses that
  subdirectory, whatever excludes it.
\<close>

theorem reincluded_paths_stay_reachable:
  assumes "walk ls ds" "(dr, ss) \<in> ds" "name \<noteq> []" "length (state_rules (dr_state dr)) < 2 ^ 64"
    "f \<in> set (ss_ferret ss)" "i < length (anchored_of (pl_patterns f))" "reach_flags Ferret (pl_patterns f) ! i"
    "path_spec (components (anchored_of (pl_patterns f) ! i)) (pl_rel f @ [name] @ below @ [n])"
  shows "decide_child dr name Dir = Descend \<or> decide_child dr name Dir = Traverse"
proof -
  from walk_rep [OF assms(1)] assms(2) have rep: "dir_rep ls ss dr" by blast
  then have "layers_rep ls Ferret (ss_ferret ss) (st_ferret (dr_state dr))" by (simp add: dir_rep_def state_rep_def)
  then have "\<forall>f\<in>set (ss_ferret ss). wf_file (pl_patterns f)" by (induction rule: layers_rep.induct) auto
  with assms(5) have "wf_file (pl_patterns f)" by blast
  from spec_reaches_complete [OF assms(5-7) this assms(8)] show ?thesis
    unfolding decide_child_spec [OF rep assms(3,4)] by (simp add: spec_decide_def Let_def)
qed

theorem reincluded_paths_stay_reachable_witness:
  "decide_child (fst (root [] None (example_files [0x61, 0x0A, 0x21, 0x2F, 0x61, 0x2F, 0x62]) config_default)) [0x61] Dir = Descend \<or>
   decide_child (fst (root [] None (example_files [0x61, 0x0A, 0x21, 0x2F, 0x61, 0x2F, 0x62]) config_default)) [0x61] Dir = Traverse"
proof -
  let ?text = "[0x61, 0x0A, 0x21, 0x2F, 0x61, 0x2F, 0x62] :: bytes"
  let ?files = "example_files ?text"
  obtain dr errors ls where root: "root [] None ?files config_default = (dr, errors, ls)" by (rule prod_cases3)
  have "length (state_rules (dr_state (fst (root [] None ?files config_default)))) = 1" by code_simp
  then have len: "length (state_rules (dr_state dr)) < 2 ^ 64" by (simp add: root)
  have f: "place ?text \<in> set (ss_ferret (spec_root None ?files))"
    by (simp add: spec_root_def spec_add_files_def example_files_def)
  have "0 < length (anchored_of (pl_patterns (place ?text))) \<and> reach_flags Ferret (pl_patterns (place ?text)) ! 0 \<and>
    path_spec (components (anchored_of (pl_patterns (place ?text)) ! 0)) (pl_rel (place ?text) @ [[0x61]] @ [] @ [[0x62]])"
    by code_simp
  with reincluded_paths_stay_reachable [OF walk.start [OF root] singletonI _ len f, of "[0x61]" 0 "[]" "[0x62]"]
  show ?thesis by (simp add: root)
qed

end
