(* ===== verification/Doc_Set.thy ===== *)
theory Doc_Set
  imports Bit_Words
begin

text \<open>
  Sets of document ids below a bound, one bit each
  (\<open>ferret-index/src/live.rs\<close>). Document ids are \<open>u32\<close>; here they are
  naturals, and a well-formed set has a bound of at most \<open>2 ^ 32\<close>, so that no
  id computed from a word and a bit wraps. A closure \<open>FnMut() -> bool\<close> that
  is asked for cancellation is a function on an explicit state; one that is a
  plain \<open>Fn\<close> is asked with the number of the call.

  Results: every operation has the effect on the set of members its name
  says, keeps the stored length equal to the number of members, and keeps the
  bits at or past the bound clear; \<open>next_geq\<close> finds the least member from a
  point unless cancelled.
\<close>

unbundle bit_operations_syntax

section \<open>Operations\<close>

record docset =
  ds_words :: "u64 list"
  ds_bound :: nat
  ds_len :: nat

definition div_ceil :: "nat \<Rightarrow> nat \<Rightarrow> nat" where
  "div_ceil a b = (a + b - 1) div b"

definition docset_empty :: "nat \<Rightarrow> docset" where
  "docset_empty bound = \<lparr>ds_words = replicate (div_ceil bound 64) 0, ds_bound = bound, ds_len = 0\<rparr>"

definition docset_insert :: "docset \<Rightarrow> nat \<Rightarrow> docset" where
  "docset_insert ds doc =
     (if doc < ds_bound ds then
        (let word = doc div 64; bit = push_bit (doc mod 64) 1 in
         if (ds_words ds ! word) AND bit = 0
         then ds\<lparr>ds_words := (ds_words ds)[word := ds_words ds ! word OR bit], ds_len := ds_len ds + 1\<rparr>
         else ds)
      else ds)"

definition docset_remove :: "docset \<Rightarrow> nat \<Rightarrow> docset" where
  "docset_remove ds doc =
     (if doc < ds_bound ds then
        (let word = doc div 64; bit = push_bit (doc mod 64) 1 in
         if (ds_words ds ! word) AND bit \<noteq> 0
         then ds\<lparr>ds_words := (ds_words ds)[word := ds_words ds ! word AND NOT bit], ds_len := ds_len ds - 1\<rparr>
         else ds)
      else ds)"

definition docset_new :: "nat \<Rightarrow> nat list \<Rightarrow> docset" where
  "docset_new bound docs = foldl docset_insert (docset_empty bound) docs"

text \<open>\<open>grow_to\<close> asserts that the bound does not shrink: \<open>None\<close> is the panic.\<close>

definition docset_grow_to :: "docset \<Rightarrow> nat \<Rightarrow> docset option" where
  "docset_grow_to ds bound =
     (if ds_bound ds \<le> bound
      then Some (ds\<lparr>ds_words := ds_words ds @ replicate (div_ceil bound 64 - length (ds_words ds)) 0,
                     ds_bound := bound\<rparr>)
      else None)"

definition docset_contains :: "docset \<Rightarrow> nat \<Rightarrow> bool" where
  "docset_contains ds doc \<longleftrightarrow>
     doc < ds_bound ds \<and> drop_bit (doc mod 64) (ds_words ds ! (doc div 64)) AND 1 = 1"

definition docset_is_empty :: "docset \<Rightarrow> bool" where
  "docset_is_empty ds \<longleftrightarrow> ds_len ds = 0"

definition count_ones :: "u64 \<Rightarrow> nat" where
  "count_ones w = length (word_bits w)"

text \<open>\<open>!0u64 << n\<close>: every bit from \<open>n\<close> up.\<close>

definition from_mask :: "nat \<Rightarrow> u64" where
  "from_mask n = push_bit n (NOT 0)"

definition check_every :: nat where
  "check_every = 4096"

fun tail_words ::
  "(nat \<Rightarrow> bool) \<Rightarrow> nat \<Rightarrow> nat \<Rightarrow> nat \<Rightarrow> (nat \<times> u64) list \<Rightarrow> docset \<Rightarrow> (docset \<times> nat) option"
where
  "tail_words cancelled calls first start [] ds = Some (ds, calls)"
| "tail_words cancelled calls first start ((i, word) # ws) ds =
     (let ask = ((i - first + 1) mod (check_every div 64) = 0) in
      if ask \<and> cancelled calls then None
      else
        (let word = (if i = first then word AND from_mask (start mod 64) else word) in
         tail_words cancelled (if ask then calls + 1 else calls) first start ws
           (ds\<lparr>ds_words := (ds_words ds)[i := word], ds_len := ds_len ds + count_ones word\<rparr>)))"

fun tail_extra ::
  "(nat \<Rightarrow> bool) \<Rightarrow> nat \<Rightarrow> docset \<Rightarrow> (nat \<times> nat) list \<Rightarrow> docset \<Rightarrow> docset option"
where
  "tail_extra cancelled calls self [] ds = Some ds"
| "tail_extra cancelled calls self ((seen, doc) # extra) ds =
     (let ask = ((seen + 1) mod check_every = 0) in
      if ask \<and> cancelled calls then None
      else tail_extra cancelled (if ask then calls + 1 else calls) self extra
             (if docset_contains self doc then docset_insert ds doc else ds))"

definition tail_until :: "docset \<Rightarrow> nat \<Rightarrow> nat list \<Rightarrow> (nat \<Rightarrow> bool) \<Rightarrow> docset option" where
  "tail_until self start extra cancelled =
     (if cancelled 0 then None
      else
        (let start = min start (ds_bound self); first = start div 64 in
         case tail_words cancelled 1 first start (drop first (enumerate 0 (ds_words self)))
                (docset_empty (ds_bound self)) of
           None \<Rightarrow> None
         | Some (ds, calls) \<Rightarrow> tail_extra cancelled calls self (enumerate 0 extra) ds))"

fun scan_words ::
  "('s \<Rightarrow> bool \<times> 's) \<Rightarrow> nat \<Rightarrow> u64 \<Rightarrow> u64 list \<Rightarrow> 's \<Rightarrow> nat option \<times> 's"
where
  "scan_words checkpoint word bits rest s =
     (if bits \<noteq> 0 then (Some (word * 64 + trailing_zeros bits), s)
      else
        (let (stop, s) = checkpoint s in
         if stop then (None, s)
         else (case rest of
                 [] \<Rightarrow> (None, s)
               | bits # rest \<Rightarrow> scan_words checkpoint (word + 1) bits rest s)))"

declare scan_words.simps [simp del]

definition docset_next_geq_with ::
  "('s \<Rightarrow> bool \<times> 's) \<Rightarrow> docset \<Rightarrow> nat \<Rightarrow> 's \<Rightarrow> nat option \<times> 's"
where
  "docset_next_geq_with checkpoint ds start s =
     (let (stop, s) = checkpoint s in
      if stop then (None, s)
      else if ds_bound ds \<le> start then (None, s)
      else
        (let word = start div 64 in
         scan_words checkpoint word (ds_words ds ! word AND from_mask (start mod 64))
           (drop (word + 1) (ds_words ds)) s))"

definition no_checkpoint :: "unit \<Rightarrow> bool \<times> unit" where
  "no_checkpoint s = (False, ())"

definition docset_next_geq :: "docset \<Rightarrow> nat \<Rightarrow> nat option" where
  "docset_next_geq ds start = fst (docset_next_geq_with no_checkpoint ds start ())"

definition docset_range :: "docset \<Rightarrow> nat \<Rightarrow> nat \<Rightarrow> nat list" where
  "docset_range ds start stop_at =
     (let stop_at = min stop_at (ds_bound ds); start = min start stop_at in
      concat (map (\<lambda>w. filter (\<lambda>doc. start \<le> doc \<and> doc < stop_at)
                        (map (\<lambda>b. w * 64 + b) (word_bits (ds_words ds ! w))))
                  [start div 64..<div_ceil stop_at 64]))"

definition docset_count :: "docset \<Rightarrow> nat \<Rightarrow> nat \<Rightarrow> nat" where
  "docset_count ds start stop_at = length (docset_range ds start stop_at)"

section \<open>Members\<close>

definition members :: "docset \<Rightarrow> nat set" where
  "members ds = {d. bits_get (ds_words ds) d}"

definition wf_docset :: "docset \<Rightarrow> bool" where
  "wf_docset ds \<longleftrightarrow>
     length (ds_words ds) = div_ceil (ds_bound ds) 64 \<and> (\<forall>d\<in>members ds. d < ds_bound ds) \<and>
     ds_len ds = card (members ds)"

lemma wf_docset_room: "wf_docset ds \<Longrightarrow> d < ds_bound ds \<Longrightarrow> bits_room (ds_words ds) d"
  unfolding wf_docset_def bits_room_def div_ceil_def by simp

lemma finite_members [simp]: "finite (members ds)"
  unfolding members_def set_bits_list [symmetric] by simp

lemma members_empty [simp]: "members (docset_empty bound) = {}" "wf_docset (docset_empty bound)"
  by (simp_all add: members_def docset_empty_def wf_docset_def)

lemma bits_get_and: "bits_room ws d \<Longrightarrow> (ws ! (d div 64)) AND 2 ^ (d mod 64) = 0 \<longleftrightarrow> \<not> bits_get ws d"
  by (simp add: bits_get_def bits_room_def and_exp_eq_0_iff_not_bit)

lemma docset_insert_members:
  assumes "wf_docset ds"
  shows "members (docset_insert ds doc) = (if doc < ds_bound ds then insert doc (members ds) else members ds)"
    "wf_docset (docset_insert ds doc)" "ds_bound (docset_insert ds doc) = ds_bound ds"
proof -
  note room = wf_docset_room [OF assms, of doc]
  have hit: "doc < ds_bound ds \<Longrightarrow> (ds_words ds ! (doc div 64)) AND 2 ^ (doc mod 64) = 0 \<longleftrightarrow> doc \<notin> members ds"
    using bits_get_and [OF room] by (simp add: members_def)
  show mem: "members (docset_insert ds doc) = (if doc < ds_bound ds then insert doc (members ds) else members ds)"
    using bits_get_set [OF room] bits_get_and [OF room]
    by (auto simp: docset_insert_def Let_def members_def bits_set_def)
  show bound: "ds_bound (docset_insert ds doc) = ds_bound ds" by (simp add: docset_insert_def Let_def)
  have "length (ds_words (docset_insert ds doc)) = length (ds_words ds)" by (simp add: docset_insert_def Let_def)
  moreover have "ds_len (docset_insert ds doc) = card (members (docset_insert ds doc))"
    unfolding mem using assms hit
    by (auto simp: docset_insert_def Let_def wf_docset_def card_insert_if)
  ultimately show "wf_docset (docset_insert ds doc)"
    using assms unfolding wf_docset_def mem bound by auto
qed

lemma docset_remove_members:
  assumes "wf_docset ds"
  shows "members (docset_remove ds doc) = members ds - {doc}"
    "wf_docset (docset_remove ds doc)" "ds_bound (docset_remove ds doc) = ds_bound ds"
proof -
  note room = wf_docset_room [OF assms, of doc]
  have hit: "doc < ds_bound ds \<Longrightarrow> (ds_words ds ! (doc div 64)) AND 2 ^ (doc mod 64) = 0 \<longleftrightarrow> doc \<notin> members ds"
    using bits_get_and [OF room] by (simp add: members_def)
  have outside: "\<not> doc < ds_bound ds \<Longrightarrow> doc \<notin> members ds" using assms by (auto simp: wf_docset_def)
  show mem: "members (docset_remove ds doc) = members ds - {doc}"
    using bits_get_clear [OF room] bits_get_and [OF room] outside
    by (auto simp: docset_remove_def Let_def members_def bits_clear_def)
  show bound: "ds_bound (docset_remove ds doc) = ds_bound ds" by (simp add: docset_remove_def Let_def)
  have "length (ds_words (docset_remove ds doc)) = length (ds_words ds)" by (simp add: docset_remove_def Let_def)
  moreover have "ds_len (docset_remove ds doc) = card (members (docset_remove ds doc))"
    unfolding mem using assms hit outside
    by (auto simp: docset_remove_def Let_def wf_docset_def)
  ultimately show "wf_docset (docset_remove ds doc)"
    using assms unfolding wf_docset_def mem bound by auto
qed

lemma docset_new_members:
  "members (docset_new bound docs) = {d \<in> set docs. d < bound}" "wf_docset (docset_new bound docs)"
  "ds_bound (docset_new bound docs) = bound"
proof -
  have "members (foldl docset_insert ds docs) = members ds \<union> {d \<in> set docs. d < ds_bound ds} \<and>
      wf_docset (foldl docset_insert ds docs) \<and> ds_bound (foldl docset_insert ds docs) = ds_bound ds"
    if "wf_docset ds" for ds
    using that by (induction docs arbitrary: ds) (auto simp: docset_insert_members)
  from this [of "docset_empty bound"]
  show "members (docset_new bound docs) = {d \<in> set docs. d < bound}" "wf_docset (docset_new bound docs)"
    "ds_bound (docset_new bound docs) = bound"
    by (simp_all add: docset_new_def) (simp_all add: docset_empty_def)
qed

lemma bits_get_append: "bits_get (ws @ replicate k 0) d \<longleftrightarrow> bits_get ws d"
  by (auto simp: bits_get_def nth_append)

lemma docset_grow_members:
  assumes "wf_docset ds" "docset_grow_to ds bound = Some ds'"
  shows "members ds' = members ds" "wf_docset ds'" "ds_bound ds' = bound"
proof -
  from assms(2) have le: "ds_bound ds \<le> bound" and ds': "ds' = ds\<lparr>ds_words := ds_words ds @ replicate (div_ceil bound 64 - length (ds_words ds)) 0, ds_bound := bound\<rparr>"
    by (auto simp: docset_grow_to_def split: if_splits)
  show mem: "members ds' = members ds" by (simp add: ds' members_def bits_get_append)
  show "ds_bound ds' = bound" by (simp add: ds')
  have "div_ceil (ds_bound ds) 64 \<le> div_ceil bound 64" using le by (simp add: div_ceil_def div_le_mono)
  with assms(1) le show "wf_docset ds'" unfolding wf_docset_def mem by (fastforce simp: ds')
qed

lemma docset_contains_members: "wf_docset ds \<Longrightarrow> docset_contains ds doc \<longleftrightarrow> doc \<in> members ds"
  by (auto simp: docset_contains_def members_def bits_get_def and_one_eq wf_docset_def
      bit_iff_odd_drop_bit odd_iff_mod_2_eq_one dest!: wf_docset_room [unfolded bits_room_def, rotated])

section \<open>The least member from a point\<close>

lemma bit_from_mask: "bit (w AND from_mask n) i \<longleftrightarrow> bit w i \<and> n \<le> i" for w :: u64
  by (auto simp: from_mask_def bit_simps dest: bit_imp_le_length)

text \<open>\<open>first_from S t r\<close>: \<open>r\<close> is the least member of \<open>S\<close> at or above \<open>t\<close>, if there is one.\<close>

definition first_from :: "nat set \<Rightarrow> nat \<Rightarrow> nat option \<Rightarrow> bool" where
  "first_from S t r \<longleftrightarrow>
     (case r of None \<Rightarrow> \<forall>d\<in>S. d < t | Some d \<Rightarrow> d \<in> S \<and> t \<le> d \<and> (\<forall>x\<in>S. t \<le> x \<longrightarrow> d \<le> x))"

lemma first_from_simps [simp]:
  "first_from S t None \<longleftrightarrow> (\<forall>d\<in>S. d < t)"
  "first_from S t (Some d) \<longleftrightarrow> d \<in> S \<and> t \<le> d \<and> (\<forall>x\<in>S. t \<le> x \<longrightarrow> d \<le> x)"
  by (simp_all add: first_from_def)

lemma first_from_unique: "first_from S t a \<Longrightarrow> first_from S t b \<Longrightarrow> a = b"
  by (cases a; cases b) (auto intro: order_antisym)

lemma bits_get_Cons: "bits_get (w # ws) d \<longleftrightarrow> (if d < 64 then bit w d else bits_get ws (d - 64))"
proof (cases "d < 64")
  case False
  then have "d div 64 = Suc ((d - 64) div 64)" "d mod 64 = (d - 64) mod 64" by (simp_all add: le_div_geq le_mod_geq)
  with False show ?thesis by (simp add: bits_get_def)
qed (simp add: bits_get_def)

lemma bits_get_Nil [simp]: "\<not> bits_get [] d"
  by (simp add: bits_get_def)

lemma bits_get_drop: "bits_get (drop n ws) d \<longleftrightarrow> bits_get ws (n * 64 + d)"
  by (auto simp: bits_get_def div_add1_eq)

lemma zero_word_shift:
  "{word * 64 + d | d. bits_get (0 # ws) d} = {64 + word * 64 + d | d. bits_get ws d}" (is "?L = ?R")
proof (intro set_eqI iffI)
  fix x
  assume "x \<in> ?L"
  then obtain d where "x = word * 64 + d" "\<not> d < 64" "bits_get ws (d - 64)" by (auto simp: bits_get_Cons split: if_splits)
  then show "x \<in> ?R" by (intro CollectI exI [of _ "d - 64"]) auto
next
  fix x
  assume "x \<in> ?R"
  then obtain d where "x = 64 + word * 64 + d" "bits_get ws d" by auto
  then show "x \<in> ?L" by (intro CollectI exI [of _ "d + 64"]) (auto simp: bits_get_Cons)
qed

lemma lowest_bit_first:
  assumes "bits \<noteq> 0"
  shows "first_from {word * 64 + d | d. bits_get (bits # rest) d} 0 (Some (word * 64 + trailing_zeros bits))"
proof -
  note tz = trailing_zeros_bit [OF assms]
  have "bits_get (bits # rest) (trailing_zeros bits)" using tz by (simp add: bits_get_Cons)
  moreover have "trailing_zeros bits \<le> d" if "bits_get (bits # rest) d" for d
    using that tz by (cases "d < 64") (auto simp: bits_get_Cons intro: leI)
  ultimately show ?thesis by auto
qed

text \<open>
  A checkpoint that answers whether it has stopped, and stays stopped: the
  interface between the loops that can be cancelled and what cancels them.
\<close>

locale checkpoint =
  fixes checkpoint :: "'s \<Rightarrow> bool \<times> 's"
    and stopped :: "'s \<Rightarrow> bool"
  assumes answers: "checkpoint s = (b, s') \<Longrightarrow> b \<longleftrightarrow> stopped s'"
    and sticky: "checkpoint s = (b, s') \<Longrightarrow> stopped s \<Longrightarrow> stopped s'"
begin

lemma scan_words_spec:
  assumes "scan_words checkpoint word bits rest s = (found, s')"
  shows "(stopped s \<longrightarrow> stopped s' \<or> bits \<noteq> 0) \<and> (\<not> stopped s' \<longrightarrow>
    first_from {word * 64 + d | d. bits_get (bits # rest) d} 0 found)"
  using assms
proof (induction rest arbitrary: word bits s)
  case Nil
  show ?case
  proof (cases "bits = 0")
    case True
    obtain stop s1 where cp: "checkpoint s = (stop, s1)" by fastforce
    with True Nil have "found = None" "s' = s1" by (auto simp: scan_words.simps split: if_splits)
    with True sticky [OF cp] show ?thesis by (auto simp: bits_get_Cons)
  next
    case False
    with Nil lowest_bit_first [OF False] show ?thesis by (auto simp: scan_words.simps)
  qed
next
  case (Cons b rest)
  show ?case
  proof (cases "bits = 0")
    case True
    obtain stop s1 where cp: "checkpoint s = (stop, s1)" by fastforce
    show ?thesis
    proof (cases stop)
      case True
      with \<open>bits = 0\<close> Cons.prems cp answers [OF cp] show ?thesis by (auto simp: scan_words.simps [of checkpoint word])
    next
      case False
      with \<open>bits = 0\<close> Cons.prems cp have rec: "scan_words checkpoint (word + 1) b rest s1 = (found, s')"
        by (simp add: scan_words.simps [of checkpoint word])
      have "{word * 64 + d | d. bits_get (bits # b # rest) d} = {(word + 1) * 64 + d | d. bits_get (b # rest) d}"
        using \<open>bits = 0\<close> by (simp add: zero_word_shift)
      moreover have "\<not> stopped s" using False sticky [OF cp] answers [OF cp] by auto
      ultimately show ?thesis using Cons.IH [OF rec] by auto
    qed
  next
    case False
    with Cons.prems lowest_bit_first [OF False] show ?thesis by (auto simp: scan_words.simps [of checkpoint word])
  qed
qed

lemma docset_next_geq_with_spec:
  assumes "wf_docset ds" "docset_next_geq_with checkpoint ds start s = (found, s')"
  shows "(stopped s \<longrightarrow> stopped s') \<and> (\<not> stopped s' \<longrightarrow> first_from (members ds) start found)"
proof -
  obtain stop s1 where cp: "checkpoint s = (stop, s1)" by fastforce
  show ?thesis
  proof (cases "stop \<or> ds_bound ds \<le> start")
    case True
    with assms cp have "found = None" "s' = s1" by (auto simp: docset_next_geq_with_def split: if_splits)
    with True assms(1) answers [OF cp] sticky [OF cp] show ?thesis by (fastforce simp: wf_docset_def)
  next
    case False
    let ?w = "start div 64" and ?ws = "ds_words ds"
    let ?masked = "?ws ! ?w AND from_mask (start mod 64)"
    have w: "?w < length ?ws" using False wf_docset_room [OF assms(1)] by (simp add: bits_room_def)
    have scan: "scan_words checkpoint ?w ?masked (drop (Suc ?w) ?ws) s1 = (found, s')"
      using assms(2) cp False by (simp add: docset_next_geq_with_def Let_def)
    have get: "bits_get (?masked # drop (Suc ?w) ?ws) d \<longleftrightarrow> bits_get ?ws (?w * 64 + d) \<and> start \<le> ?w * 64 + d" for d
    proof -
      have "bits_get ?ws (?w * 64 + d) \<longleftrightarrow> bits_get (?ws ! ?w # drop (Suc ?w) ?ws) d"
        unfolding bits_get_drop [symmetric] using w by (simp add: Cons_nth_drop_Suc)
      moreover have "start \<le> ?w * 64 + d \<longleftrightarrow> start mod 64 \<le> d" by presburger
      ultimately show ?thesis by (auto simp: bits_get_Cons bit_from_mask dest: order_less_trans)
    qed
    have "{?w * 64 + d | d. bits_get (?masked # drop (Suc ?w) ?ws) d} = {d \<in> members ds. start \<le> d}"
    proof (intro set_eqI iffI)
      fix d
      assume d: "d \<in> {d \<in> members ds. start \<le> d}"
      then have "?w * 64 \<le> d" by (metis (mono_tags) div_times_less_eq_dividend mem_Collect_eq order_trans)
      then obtain k where "d = ?w * 64 + k" using le_Suc_ex by blast
      with d get show "d \<in> {?w * 64 + d | d. bits_get (?masked # drop (Suc ?w) ?ws) d}" by (auto simp: members_def)
    qed (auto simp: get members_def)
    with scan_words_spec [OF scan] False answers [OF cp] sticky [OF cp] show ?thesis
      by (cases found) (auto simp: not_le)
  qed
qed

end

interpretation no_checkpoint: checkpoint no_checkpoint "\<lambda>_. False"
  by unfold_locales (simp_all add: no_checkpoint_def)

lemma docset_next_geq_spec: "wf_docset ds \<Longrightarrow> first_from (members ds) start (docset_next_geq ds start)"
  unfolding docset_next_geq_def
  using no_checkpoint.docset_next_geq_with_spec [of ds start "()"] by (metis (full_types) prod.collapse)

section \<open>The tail of a set\<close>

lemma enumerate_nth: "enumerate 0 ws = map (\<lambda>i. (i, ws ! i)) [0..<length ws]"
  by (rule nth_equalityI) (simp_all add: nth_enumerate_eq)

lemma bits_list_nth: "bits_list ws = concat (map (\<lambda>w. map (\<lambda>b. w * 64 + b) (word_bits (ws ! w))) [0..<length ws])"
  by (simp add: bits_list_def enumerate_nth comp_def)

lemma card_bits: "card {d. bits_get ws d} = sum_list (map count_ones ws)"
proof -
  have "distinct (bits_list ws)" using sorted_bits_list strict_sorted_iff by blast
  then have "card {d. bits_get ws d} = length (bits_list ws)" by (metis distinct_card set_bits_list)
  also have "\<dots> = sum_list (map (\<lambda>w. count_ones (ws ! w)) [0..<length ws])"
    by (simp add: bits_list_nth length_concat comp_def count_ones_def)
  also have "\<dots> = sum_list (map count_ones ws)"
    by (metis (no_types, lifting) map_map map_nth comp_def map_eq_conv)
  finally show ?thesis .
qed

definition tail_word :: "nat \<Rightarrow> nat \<Rightarrow> nat \<times> u64 \<Rightarrow> u64" where
  "tail_word first start = (\<lambda>(i, w). if i = first then w AND from_mask (start mod 64) else w)"

lemma tail_words_result:
  assumes "tail_words cancelled calls first start (enumerate i ws) ds = Some (ds', calls')"
    "i + length ws = length (ds_words ds)"
  shows "ds_words ds' = take i (ds_words ds) @ map (tail_word first start) (enumerate i ws) \<and> ds_bound ds' = ds_bound ds \<and>
    ds_len ds' = ds_len ds + sum_list (map (count_ones \<circ> tail_word first start) (enumerate i ws))"
  using assms
proof (induction ws arbitrary: i ds calls)
  case Nil
  then show ?case by simp
next
  case (Cons w ws)
  let ?v = "tail_word first start (i, w)"
  let ?ds = "ds\<lparr>ds_words := (ds_words ds)[i := ?v], ds_len := ds_len ds + count_ones ?v\<rparr>"
  from Cons.prems(1) obtain calls1 where "tail_words cancelled calls1 first start (enumerate (Suc i) ws) ?ds = Some (ds', calls')"
    by (auto simp: Let_def tail_word_def split: if_splits)
  from Cons.IH [OF this] Cons.prems(2) show ?case
    by (simp add: take_Suc_conv_app_nth)
qed

lemma tail_words_returns:
  "\<forall>n. \<not> cancelled n \<Longrightarrow> \<exists>r. tail_words cancelled calls first start ws ds = Some r"
  by (induction cancelled calls first start ws ds rule: tail_words.induct) (auto simp: Let_def)

lemma tail_extra_result:
  assumes "tail_extra cancelled calls self extra ds = Some ds'" "wf_docset ds" "wf_docset self" "ds_bound ds = ds_bound self"
  shows "wf_docset ds' \<and> ds_bound ds' = ds_bound self \<and> members ds' = members ds \<union> (snd ` set extra \<inter> members self)"
  using assms
proof (induction cancelled calls self extra ds rule: tail_extra.induct)
  case (2 cancelled calls self seen doc extra ds)
  have bound: "doc \<in> members self \<Longrightarrow> doc < ds_bound self" using "2.prems"(3) by (simp add: wf_docset_def)
  with 2 show ?case
    by (auto simp: Let_def docset_insert_members docset_contains_members split: if_splits)
qed simp

lemma tail_extra_returns: "\<forall>n. \<not> cancelled n \<Longrightarrow> \<exists>r. tail_extra cancelled calls self extra ds = Some r"
  by (induction cancelled calls self extra ds rule: tail_extra.induct) (auto simp: Let_def)

lemma drop_enumerate_0: "drop n (enumerate k xs) = enumerate (k + n) (drop n xs)"
proof (induction xs arbitrary: n k)
  case (Cons x xs)
  then show ?case by (cases n) simp_all
qed simp

lemma slot_order: "m \<le> n \<longleftrightarrow> m div 64 < n div 64 \<or> (m div 64 = n div 64 \<and> m mod 64 \<le> n mod 64)" for m n :: nat
proof -
  have "m = m div 64 * 64 + m mod 64" "n = n div 64 * 64 + n mod 64" "m mod 64 < 64" "n mod 64 < 64" by simp_all
  then show ?thesis by linarith
qed

lemma tail_words_members:
  assumes "wf_docset self" "start \<le> ds_bound self"
    "tail_words cancelled calls (start div 64) start (drop (start div 64) (enumerate 0 (ds_words self))) (docset_empty (ds_bound self)) = Some (ds', calls')"
  shows "wf_docset ds'" "ds_bound ds' = ds_bound self" "members ds' = {d \<in> members self. start \<le> d}"
proof -
  let ?f = "start div 64" and ?ws = "ds_words self"
  have len: "length ?ws = div_ceil (ds_bound self) 64" using assms(1) by (simp add: wf_docset_def)
  then have f: "?f \<le> length ?ws" using assms(2) by (simp add: div_ceil_def div_le_mono)
  note res = tail_words_result [OF assms(3) [unfolded drop_enumerate_0]]
  from res f len have words: "ds_words ds' = replicate ?f 0 @ map (tail_word ?f start) (enumerate ?f (drop ?f ?ws))"
    and bound: "ds_bound ds' = ds_bound self"
    and size: "ds_len ds' = sum_list (map (count_ones \<circ> tail_word ?f start) (enumerate ?f (drop ?f ?ws)))"
    by (auto simp: docset_empty_def)
  show "ds_bound ds' = ds_bound self" by (rule bound)
  have get: "bits_get (ds_words ds') d \<longleftrightarrow> bits_get ?ws d \<and> start \<le> d" for d
  proof -
    have "ds_words ds' ! k = (if k < ?f then 0 else tail_word ?f start (k, ?ws ! k))" if "k < length ?ws" for k
      using that f by (auto simp: words nth_append nth_enumerate_eq)
    then show ?thesis
      using f slot_order [of start d] linorder_cases [of "d div 64" ?f]
      by (cases "d div 64 < ?f"; cases "d div 64 = ?f")
         (auto simp: bits_get_def words [THEN arg_cong [where f = length]] tail_word_def bit_from_mask)
  qed
  then show mem: "members ds' = {d \<in> members self. start \<le> d}" by (auto simp: members_def)
  have "card (members ds') = ds_len ds'"
    unfolding members_def card_bits size words by (simp add: sum_list_triv count_ones_def word_bits.simps map_map comp_def)
  moreover have "length (ds_words ds') = length ?ws" using f by (simp add: words)
  ultimately show "wf_docset ds'" using assms(1) len unfolding wf_docset_def bound mem by auto
qed

lemma tail_until_members:
  assumes "wf_docset self" "tail_until self start extra cancelled = Some ds"
  shows "wf_docset ds \<and> ds_bound ds = ds_bound self \<and>
    members ds = {d \<in> members self. start \<le> d} \<union> (set extra \<inter> members self)"
proof -
  let ?start = "min start (ds_bound self)"
  from assms(2) obtain ds1 calls where one: "tail_words cancelled 1 (?start div 64) ?start
      (drop (?start div 64) (enumerate 0 (ds_words self))) (docset_empty (ds_bound self)) = Some (ds1, calls)"
    and two: "tail_extra cancelled calls self (enumerate 0 extra) ds1 = Some ds"
    by (auto simp: tail_until_def Let_def split: if_splits option.splits)
  note words = tail_words_members [OF assms(1) min.cobounded2 one]
  have "snd ` set (enumerate 0 extra) = set extra" by (metis map_snd_enumerate set_map)
  moreover have "{d \<in> members self. ?start \<le> d} = {d \<in> members self. start \<le> d}"
    using assms(1) by (auto simp: wf_docset_def min_def)
  ultimately show ?thesis
    using tail_extra_result [OF two words(1) assms(1) words(2)] words(3) by simp
qed

lemma tail_until_returns: "\<forall>n. \<not> cancelled n \<Longrightarrow> \<exists>ds. tail_until self start extra cancelled = Some ds"
  using tail_words_returns tail_extra_returns unfolding tail_until_def Let_def
  by (metis (no_types, lifting) case_prod_conv option.simps(5) surj_pair)

lemma upt_split: "i \<le> j \<Longrightarrow> j \<le> k \<Longrightarrow> [i..<k] = [i..<j] @ [j..<k]"
  by (metis le_Suc_ex upt_add_eq_append)

lemma concat_map_Nil: "(\<And>x. x \<in> set xs \<Longrightarrow> f x = []) \<Longrightarrow> concat (map f xs) = []"
  by (induction xs) simp_all

lemma docset_range_spec:
  assumes "wf_docset ds"
  shows "docset_range ds start stop_at = filter (\<lambda>d. start \<le> d \<and> d < stop_at) (bits_list (ds_words ds))"
proof -
  let ?stop = "min stop_at (ds_bound ds)" and ?ws = "ds_words ds"
  let ?start = "min start ?stop"
  let ?keep = "\<lambda>d. ?start \<le> d \<and> d < ?stop"
  let ?word = "\<lambda>w. filter ?keep (map (\<lambda>b. w * 64 + b) (word_bits (?ws ! w)))"
  have "div_ceil ?stop 64 \<le> div_ceil (ds_bound ds) 64" by (simp add: div_ceil_def div_le_mono)
  then have hi: "div_ceil ?stop 64 \<le> length ?ws" using assms by (simp add: wf_docset_def)
  have lo: "?start div 64 \<le> div_ceil ?stop 64" unfolding div_ceil_def by (rule div_le_mono) simp
  have below: "?word w = []" if "w < ?start div 64" for w
  proof -
    have "w * 64 + b < ?start" if "b < 64" for b using that \<open>w < ?start div 64\<close> by linarith
    then show ?thesis by (auto simp: filter_empty_conv word_bits_filter not_le)
  qed
  have above: "?word w = []" if "div_ceil ?stop 64 \<le> w" for w
  proof -
    have "?stop \<le> w * 64" using that unfolding div_ceil_def by linarith
    then show ?thesis by (auto simp: filter_empty_conv)
  qed
  have parts: "[0..<length ?ws] = [0..<?start div 64] @ [?start div 64..<div_ceil ?stop 64] @ [div_ceil ?stop 64..<length ?ws]"
    unfolding upt_split [OF le0 order_trans [OF lo hi]] upt_split [OF lo hi] by (rule refl)
  have "filter ?keep (bits_list ?ws) = concat (map ?word [0..<length ?ws])"
    by (simp add: bits_list_nth filter_concat comp_def)
  also have "\<dots> = concat (map ?word [?start div 64..<div_ceil ?stop 64])"
  proof -
    have "concat (map ?word [0..<?start div 64]) = []"
      by (rule concat_map_Nil, rule below) simp
    moreover have "concat (map ?word [div_ceil ?stop 64..<length ?ws]) = []"
      by (rule concat_map_Nil, rule above) simp
    ultimately show ?thesis unfolding parts map_append concat_append by (simp only: append_Nil append_Nil2)
  qed
  also have "\<dots> = docset_range ds start stop_at" by (simp add: docset_range_def Let_def)
  finally have "docset_range ds start stop_at = filter ?keep (bits_list ?ws)" by simp
  also have "\<dots> = filter (\<lambda>d. start \<le> d \<and> d < stop_at) (bits_list ?ws)"
    using assms by (intro filter_cong) (auto simp: set_bits_list wf_docset_def members_def)
  finally show ?thesis .
qed

lemma docset_range_members:
  assumes "wf_docset ds"
  shows "sorted_wrt (<) (docset_range ds start stop_at)"
    "set (docset_range ds start stop_at) = {d \<in> members ds. start \<le> d \<and> d < stop_at}"
    "docset_count ds start stop_at = card {d \<in> members ds. start \<le> d \<and> d < stop_at}"
proof -
  show sorted: "sorted_wrt (<) (docset_range ds start stop_at)"
    unfolding docset_range_spec [OF assms] by (simp add: sorted_wrt_filter sorted_bits_list)
  show set: "set (docset_range ds start stop_at) = {d \<in> members ds. start \<le> d \<and> d < stop_at}"
    unfolding docset_range_spec [OF assms] by (auto simp: set_bits_list members_def)
  show "docset_count ds start stop_at = card {d \<in> members ds. start \<le> d \<and> d < stop_at}"
    unfolding docset_count_def set [symmetric] using sorted by (metis distinct_card strict_sorted_iff)
qed

section \<open>Properties\<close>

datatype docset_op = Insert nat | Remove nat

fun docset_apply :: "docset \<Rightarrow> docset_op \<Rightarrow> docset" where
  "docset_apply ds (Insert doc) = docset_insert ds doc"
| "docset_apply ds (Remove doc) = docset_remove ds doc"

fun set_apply :: "nat \<Rightarrow> nat set \<Rightarrow> docset_op \<Rightarrow> nat set" where
  "set_apply bound S (Insert doc) = (if doc < bound then insert doc S else S)"
| "set_apply bound S (Remove doc) = S - {doc}"

lemma docset_apply_refines:
  assumes "wf_docset ds"
  shows "wf_docset (foldl docset_apply ds ops) \<and> ds_bound (foldl docset_apply ds ops) = ds_bound ds \<and>
    members (foldl docset_apply ds ops) = foldl (set_apply (ds_bound ds)) (members ds) ops"
  using assms
proof (induction ops arbitrary: ds)
  case (Cons op ops)
  then show ?case by (cases op) (simp_all add: docset_insert_members docset_remove_members)
qed simp

text \<open>
  C29: A document set built by \<open>DocSet::new\<close> and then changed by any sequence of
  \<open>insert\<close> and \<open>remove\<close> refines the mathematical set changed the same way
  (ids at or past the bound are ignored): \<open>contains\<close> answers membership, the
  stored \<open>len\<close> is the number of members, and growing the bound keeps both.
\<close>

theorem docset_refines_set:
  assumes "bound \<le> bound'"
  shows "\<exists>grown. docset_grow_to (foldl docset_apply (docset_new bound docs) ops) bound' = Some grown \<and>
    ds_bound grown = bound' \<and>
    (let S = foldl (set_apply bound) {d \<in> set docs. d < bound} ops in
       (\<forall>d. docset_contains grown d = (d \<in> S)) \<and> ds_len grown = card S)"
proof -
  let ?ds = "foldl docset_apply (docset_new bound docs) ops"
  note ds = docset_apply_refines [OF docset_new_members(2) [of bound docs], of ops, unfolded docset_new_members]
  then obtain grown where grown: "docset_grow_to ?ds bound' = Some grown"
    using assms by (simp add: docset_grow_to_def)
  with ds docset_grow_members [OF _ grown] show ?thesis
    by (simp add: Let_def docset_contains_members) (simp add: wf_docset_def)
qed

theorem docset_refines_set_witness:
  "\<exists>grown. docset_grow_to (foldl docset_apply (docset_new 70 [3, 69, 70]) [Insert 64, Remove 3]) 200 = Some grown \<and>
    docset_contains grown 69 \<and> docset_contains grown 64 \<and> \<not> docset_contains grown 3 \<and> ds_len grown = 2"
proof -
  have "foldl (set_apply 70) {d \<in> set [3, 69, 70]. d < 70} [Insert 64, Remove 3] = {64, 69}" by auto
  with docset_refines_set [of 70 200 "[3, 69, 70]" "[Insert 64, Remove 3]"]
  show ?thesis by (simp only: Let_def) auto
qed

text \<open>
  C30: The scans of a well-formed document set agree with its members:
  \<open>next_geq\<close> returns the least member from the asked id on and \<open>None\<close> exactly
  when there is none, \<open>range\<close> lists the members of the asked interval in
  ascending order without repetition, and \<open>count\<close> is their number.
\<close>

theorem docset_scans_exact:
  assumes "wf_docset ds"
  shows "first_from (members ds) start (docset_next_geq ds start) \<and>
    docset_range ds start stop_at = sorted_list_of_set {d \<in> members ds. start \<le> d \<and> d < stop_at} \<and>
    docset_count ds start stop_at = card {d \<in> members ds. start \<le> d \<and> d < stop_at}"
proof (intro conjI)
  note range = docset_range_members [OF assms, of start stop_at]
  show "first_from (members ds) start (docset_next_geq ds start)" by (rule docset_next_geq_spec [OF assms])
  show "docset_count ds start stop_at = card {d \<in> members ds. start \<le> d \<and> d < stop_at}" by (rule range(3))
  show "docset_range ds start stop_at = sorted_list_of_set {d \<in> members ds. start \<le> d \<and> d < stop_at}"
    using range(1) unfolding range(2) [symmetric]
    by (simp add: strict_sorted_iff sorted_list_of_set_sort_remdups sorted_sort_id distinct_remdups_id)
qed

theorem docset_scans_exact_witness:
  "docset_range (docset_new 200 [130, 5, 64, 199]) 5 199 = [5, 64, 130] \<and>
   first_from (members (docset_new 200 [130, 5, 64, 199])) 65 (docset_next_geq (docset_new 200 [130, 5, 64, 199]) 65)"
proof -
  have "{d \<in> {d \<in> set [130, 5, 64, 199]. d < 200}. 5 \<le> d \<and> d < 199} = {5, 64, 130 :: nat}" by auto
  with docset_scans_exact [OF docset_new_members(2), of 200 "[130, 5, 64, 199]"]
  show ?thesis by (simp only: docset_new_members) simp
qed

text \<open>
  \<open>tail_until\<close> returns a well-formed set of the same bound holding exactly
  the members from the asked id on and the members among the extra ids, or
  nothing; and it returns a set whenever cancellation is never signalled, and
  nothing when it is signalled at the first question.
\<close>

theorem tail_until_exact:
  assumes "wf_docset self"
  shows "(\<forall>ds. tail_until self start extra cancelled = Some ds \<longrightarrow>
      wf_docset ds \<and> ds_bound ds = ds_bound self \<and>
      members ds = {d \<in> members self. start \<le> d} \<union> (set extra \<inter> members self)) \<and>
    ((\<forall>n. \<not> cancelled n) \<longrightarrow> tail_until self start extra cancelled \<noteq> None) \<and>
    (cancelled 0 \<longrightarrow> tail_until self start extra cancelled = None)"
proof (intro conjI allI impI)
  show "wf_docset ds" "ds_bound ds = ds_bound self"
    "members ds = {d \<in> members self. start \<le> d} \<union> (set extra \<inter> members self)"
    if "tail_until self start extra cancelled = Some ds" for ds
    using tail_until_members [OF assms that] by blast+
  show "tail_until self start extra cancelled \<noteq> None" if "\<forall>n. \<not> cancelled n"
    using tail_until_returns [OF that] by (metis option.distinct(1))
  show "tail_until self start extra cancelled = None" if "cancelled 0"
    using that by (simp add: tail_until_def)
qed

theorem tail_until_exact_witness:
  "\<exists>ds. tail_until (docset_new 200 [3, 70, 130]) 100 [3, 4] (\<lambda>_. False) = Some ds \<and> members ds = {3, 130}"
proof -
  have "{d \<in> {d \<in> set [3, 70, 130]. d < 200}. 100 \<le> d} \<union> (set [3, 4] \<inter> {d \<in> set [3, 70, 130]. d < 200}) = {3, 130 :: nat}"
    by auto
  note mem = this
  note exact = tail_until_exact [OF docset_new_members(2) [of 200 "[3, 70, 130]"], of 100 "[3, 4]" "\<lambda>_. False"]
  then obtain ds where ds: "tail_until (docset_new 200 [3, 70, 130]) 100 [3, 4] (\<lambda>_. False) = Some ds" by blast
  with exact have "members ds = {3, 130}" unfolding docset_new_members mem by blast
  with ds show ?thesis by blast
qed

end
