(* ===== verification/Postings.thy ===== *)
theory Postings
  imports Doc_Set "HOL-Library.Option_ord"
begin

text \<open>
  The cursor over one term's postings (\<open>ferret-index/src/postings.rs\<close> and the
  list cursor of \<open>segment/read.rs\<close>). The codec of a list, \<open>pfor128skip\<close> of the
  crate \<open>intpack\<close>, is a record of functions; what is relied on is \<open>intpack_ok\<close>.

  What a cursor may still yield is a map from documents to certainties. Every
  cursor, this one and the trees of \<open>Cursor\<close>, keeps one contract on that map:
  \<open>least_from\<close> says which document a call returns, \<open>keeps_from\<close> what the call may drop.

  Results: the postings cursor keeps the contract for every order of targets,
  and it never stands on a document it has passed when no segment has
  fingerprint documents. With fingerprint documents it may step back, to a
  document that is only possible.
\<close>

section \<open>Certainties\<close>

datatype certainty = Maybe | Yes

instantiation certainty :: linorder
begin

definition less_eq_certainty :: "certainty \<Rightarrow> certainty \<Rightarrow> bool" where
  "less_eq_certainty a b \<longleftrightarrow> a = Maybe \<or> b = Yes"

definition less_certainty :: "certainty \<Rightarrow> certainty \<Rightarrow> bool" where
  "less_certainty a b \<longleftrightarrow> a = Maybe \<and> b = Yes"

instance
  by standard (auto simp: less_eq_certainty_def less_certainty_def intro: certainty.exhaust)

end

lemma certainty_order [simp]:
  "Maybe \<le> x" "x \<le> Yes" "Yes \<le> x \<longleftrightarrow> x = Yes" "x \<le> Maybe \<longleftrightarrow> x = Maybe" "Maybe < x \<longleftrightarrow> x = Yes" "\<not> Yes < x"
  by (cases x; simp add: less_eq_certainty_def less_certainty_def)+

lemma certainty_min_max [simp]:
  "min Maybe x = Maybe" "min x Maybe = Maybe" "min Yes x = x" "min x Yes = x"
  "max Maybe x = x" "max x Maybe = x" "max Yes x = Yes" "max x Yes = Yes"
  by (cases x; simp add: min_def max_def)+

type_synonym found = "(nat \<times> certainty) option"
type_synonym docs = "nat \<Rightarrow> certainty option"

section \<open>One list\<close>

record 'p intpack =
  ip_new :: "nat \<Rightarrow> bytes \<Rightarrow> 'p"
  ip_next_geq :: "'p \<Rightarrow> nat \<Rightarrow> nat option \<times> 'p"
  ip_next :: "'p \<Rightarrow> nat option \<times> 'p"
  ip_decode :: "nat \<Rightarrow> bytes \<Rightarrow> nat list"

record plist =
  pl_first :: nat
  pl_df :: nat
  pl_bytes :: bytes
  pl_start :: nat

record 'p posting_cursor =
  po_inner :: 'p
  po_first :: nat

definition wrapping_add_u32 :: "nat \<Rightarrow> nat \<Rightarrow> nat" where
  "wrapping_add_u32 a b = (a + b) mod 2 ^ 32"

definition plist_cursor :: "'p intpack \<Rightarrow> plist \<Rightarrow> 'p posting_cursor" where
  "plist_cursor ip l =
     \<lparr>po_inner = ip_new ip (pl_df l) (drop (pl_start l) (pl_bytes l)), po_first = pl_first l\<rparr>"

definition plist_decode :: "'p intpack \<Rightarrow> plist \<Rightarrow> nat list" where
  "plist_decode ip l =
     map (\<lambda>doc. wrapping_add_u32 doc (pl_first l)) (ip_decode ip (pl_df l) (drop (pl_start l) (pl_bytes l)))"

definition posting_next_geq :: "'p intpack \<Rightarrow> 'p posting_cursor \<Rightarrow> nat \<Rightarrow> nat option \<times> 'p posting_cursor" where
  "posting_next_geq ip po target =
     (let (r, inner) = ip_next_geq ip (po_inner po) (target - po_first po) in
      (map_option (\<lambda>doc. wrapping_add_u32 doc (po_first po)) r, po\<lparr>po_inner := inner\<rparr>))"

definition posting_next :: "'p intpack \<Rightarrow> 'p posting_cursor \<Rightarrow> nat option \<times> 'p posting_cursor" where
  "posting_next ip po =
     (let (r, inner) = ip_next ip (po_inner po) in
      (map_option (\<lambda>doc. wrapping_add_u32 doc (po_first po)) r, po\<lparr>po_inner := inner\<rparr>))"

section \<open>One term across segments\<close>

datatype hit = Single nat | Postings plist

record part =
  part_last :: nat
  part_hit :: "hit option"
  part_maybe :: "nat list"

record 'p pcursor =
  pc_parts :: "part list"
  pc_at :: nat
  pc_inner :: "'p posting_cursor option"
  pc_docs :: nat

record term_docs =
  td_parts :: "part list"
  td_docs :: nat
  td_bytes :: nat
  td_records :: nat

definition term_cursor :: "term_docs \<Rightarrow> 'p pcursor" where
  "term_cursor t = \<lparr>pc_parts = td_parts t, pc_at = 0, pc_inner = None, pc_docs = td_docs t\<rparr>"

text \<open>The answer of the part's dictionary entry, with the list cursor as it is after it.\<close>

definition part_found ::
  "'p intpack \<Rightarrow> part \<Rightarrow> 'p posting_cursor option \<Rightarrow> nat \<Rightarrow> nat option \<times> 'p posting_cursor option"
where
  "part_found ip p inner target =
     (case part_hit p of
        Some (Single doc) \<Rightarrow> (if target \<le> doc then Some doc else None, inner)
      | Some (Postings l) \<Rightarrow>
          (let (r, po) = posting_next_geq ip (case inner of Some po \<Rightarrow> po | None \<Rightarrow> plist_cursor ip l) target
           in (r, Some po))
      | None \<Rightarrow> (None, inner))"

definition part_maybe_from :: "part \<Rightarrow> nat \<Rightarrow> nat option" where
  "part_maybe_from p target =
     (let i = partition_point (\<lambda>doc. doc < target) (part_maybe p) in
      if i < length (part_maybe p) then Some (part_maybe p ! i) else None)"

fun earlier :: "nat option \<Rightarrow> nat option \<Rightarrow> found" where
  "earlier (Some yes) (Some maybe) = (if maybe < yes then Some (maybe, Maybe) else Some (yes, Yes))"
| "earlier (Some yes) None = Some (yes, Yes)"
| "earlier None (Some maybe) = Some (maybe, Maybe)"
| "earlier None None = None"

text \<open>The \<open>while\<close> loop over the parts from \<open>at\<close>; its result is the new \<open>at\<close> and list cursor.\<close>

fun parts_loop ::
  "'p intpack \<Rightarrow> ('s \<Rightarrow> bool \<times> 's) \<Rightarrow> part list \<Rightarrow> nat \<Rightarrow> 'p posting_cursor option \<Rightarrow> nat \<Rightarrow> 's
     \<Rightarrow> found \<times> nat \<times> 'p posting_cursor option \<times> 's"
where
  "parts_loop ip cp [] at inner target s = (None, at, inner, s)"
| "parts_loop ip cp (p # ps) at inner target s =
     (let (stop, s) = cp s in
      if stop then (None, at, inner, s)
      else if target \<le> part_last p then
        (let (found, inner) = part_found ip p inner target in
         case earlier found (part_maybe_from p target) of
           Some r \<Rightarrow> (Some r, at, inner, s)
         | None \<Rightarrow> parts_loop ip cp ps (at + 1) None target s)
      else parts_loop ip cp ps (at + 1) None target s)"

definition pcursor_next_geq ::
  "'p intpack \<Rightarrow> ('s \<Rightarrow> bool \<times> 's) \<Rightarrow> 'p pcursor \<Rightarrow> nat \<Rightarrow> 's \<Rightarrow> found \<times> 'p pcursor \<times> 's"
where
  "pcursor_next_geq ip cp pc target s =
     (let (stop, s) = cp s in
      if stop then (None, pc, s)
      else
        (let (r, at, inner, s) =
           parts_loop ip cp (drop (pc_at pc) (pc_parts pc)) (pc_at pc) (pc_inner pc) target s
         in (r, pc\<lparr>pc_at := at, pc_inner := inner\<rparr>, s)))"

section \<open>The contract of a cursor\<close>

definition least_from :: "docs \<Rightarrow> nat \<Rightarrow> found \<Rightarrow> bool" where
  "least_from m t r \<longleftrightarrow>
     (case r of None \<Rightarrow> \<forall>d\<ge>t. m d = None
      | Some (d, x) \<Rightarrow> t \<le> d \<and> m d = Some x \<and> (\<forall>y. t \<le> y \<and> y < d \<longrightarrow> m y = None))"

definition keeps_from :: "docs \<Rightarrow> nat \<Rightarrow> docs \<Rightarrow> bool" where
  "keeps_from m t m' \<longleftrightarrow> (\<forall>y\<ge>t. m' y = m y) \<and> (\<forall>y. m' y \<le> m y)"

text \<open>After returning a document the cursor has nothing below it.\<close>

definition stands_on :: "docs \<Rightarrow> found \<Rightarrow> bool" where
  "stands_on m r \<longleftrightarrow> (case r of None \<Rightarrow> True | Some (d, x) \<Rightarrow> \<forall>y<d. m y = None)"

lemma least_from_simps [simp]:
  "least_from m t None \<longleftrightarrow> (\<forall>d\<ge>t. m d = None)"
  "least_from m t (Some (d, x)) \<longleftrightarrow> t \<le> d \<and> m d = Some x \<and> (\<forall>y. t \<le> y \<and> y < d \<longrightarrow> m y = None)"
  by (simp_all add: least_from_def)

lemma stands_on_simps [simp]:
  "stands_on m None" "stands_on m (Some (d, x)) \<longleftrightarrow> (\<forall>y<d. m y = None)"
  by (simp_all add: stands_on_def)

text \<open>After returning a document the cursor has nothing certain below it.\<close>

definition passes :: "docs \<Rightarrow> found \<Rightarrow> bool" where
  "passes m r \<longleftrightarrow> (case r of None \<Rightarrow> True | Some (d, x) \<Rightarrow> \<forall>y<d. m y \<noteq> Some Yes)"

lemma passes_simps [simp]: "passes m None" "passes m (Some (d, x)) \<longleftrightarrow> (\<forall>y<d. m y \<noteq> Some Yes)"
  by (simp_all add: passes_def)

lemma keeps_from_refl [simp]: "keeps_from m t m"
  by (simp add: keeps_from_def)

lemma keeps_from_trans: "keeps_from m t m' \<Longrightarrow> keeps_from m' t' m'' \<Longrightarrow> keeps_from m (max t t') m''"
  by (auto simp: keeps_from_def intro: order_trans)

lemma keeps_from_mono: "keeps_from m t m' \<Longrightarrow> t \<le> t' \<Longrightarrow> keeps_from m t' m'"
  by (auto simp: keeps_from_def)

lemma keeps_from_None: "keeps_from m t m' \<Longrightarrow> m y = None \<Longrightarrow> m' y = None"
  by (metis keeps_from_def less_eq_option_None_is_None)

lemma least_from_unique: "least_from m t r \<Longrightarrow> least_from m t r' \<Longrightarrow> r = r'"
proof (cases r; cases r')
  fix p p'
  assume "least_from m t r" "least_from m t r'" "r = Some p" "r' = Some p'"
  then show "r = r'" by (cases p; cases p') (auto, (metis linorder_neqE_nat option.distinct(1) option.inject)+)
qed (auto simp: least_from_def)

section \<open>What a postings cursor may still yield\<close>

definition ip_left :: "'p intpack \<Rightarrow> 'p \<Rightarrow> nat set" where
  "ip_left ip p = {d. fst (ip_next_geq ip p d) = Some d}"

text \<open>
  The documented behaviour of \<open>intpack\<close>, for the states a cursor over an
  ascending list reaches: a new cursor is before the first of
  the decoded ids, \<open>next_geq\<close> returns the smallest id at or above its target
  that the cursor has not passed, and stays on it.
\<close>

inductive ip_state :: "'p intpack \<Rightarrow> 'p \<Rightarrow> bool" for ip where
  new: "sorted_wrt (<) (ip_decode ip df bs) \<Longrightarrow> ip_state ip (ip_new ip df bs)"
| step: "ip_state ip p \<Longrightarrow> ip_state ip (snd (ip_next_geq ip p t))"

definition intpack_ok :: "'p intpack \<Rightarrow> bool" where
  "intpack_ok ip \<longleftrightarrow>
     (\<forall>df bs. sorted_wrt (<) (ip_decode ip df bs) \<longrightarrow> ip_left ip (ip_new ip df bs) = set (ip_decode ip df bs)) \<and>
     (\<forall>p t r p'. ip_state ip p \<longrightarrow> ip_next_geq ip p t = (r, p') \<longrightarrow>
        first_from (ip_left ip p) t r \<and> ip_left ip p' \<subseteq> ip_left ip p \<and>
        (\<forall>d\<in>ip_left ip p. t \<le> d \<longrightarrow> d \<in> ip_left ip p') \<and> (\<forall>d. r = Some d \<longrightarrow> (\<forall>y\<in>ip_left ip p'. d \<le> y)))"

text \<open>A cursor that has run past its last id stays there.\<close>

definition intpack_ends :: "'p intpack \<Rightarrow> bool" where
  "intpack_ends ip \<longleftrightarrow>
     (\<forall>p t p'. ip_state ip p \<longrightarrow> ip_next_geq ip p t = (None, p') \<longrightarrow> ip_left ip p' = {})"

definition posting_left :: "'p intpack \<Rightarrow> 'p posting_cursor \<Rightarrow> nat set" where
  "posting_left ip po = (\<lambda>d. d + po_first po) ` ip_left ip (po_inner po)"

definition hit_left :: "'p intpack \<Rightarrow> part \<Rightarrow> 'p posting_cursor option \<Rightarrow> nat set" where
  "hit_left ip p inner =
     (case part_hit p of
        Some (Single doc) \<Rightarrow> {doc}
      | Some (Postings l) \<Rightarrow> posting_left ip (case inner of Some po \<Rightarrow> po | None \<Rightarrow> plist_cursor ip l)
      | None \<Rightarrow> {})"

text \<open>The list ascends, and its cursor is one of its own.\<close>

definition hit_ok :: "'p intpack \<Rightarrow> part \<Rightarrow> 'p posting_cursor option \<Rightarrow> bool" where
  "hit_ok ip p inner \<longleftrightarrow>
     (case part_hit p of
        Some (Postings l) \<Rightarrow>
          sorted_wrt (<) (ip_decode ip (pl_df l) (drop (pl_start l) (pl_bytes l))) \<and>
          (case inner of Some po \<Rightarrow> ip_state ip (po_inner po) | None \<Rightarrow> True)
      | _ \<Rightarrow> True)"

definition part_left :: "'p intpack \<Rightarrow> part \<Rightarrow> 'p posting_cursor option \<Rightarrow> docs" where
  "part_left ip p inner d =
     (if d \<in> hit_left ip p inner then Some Yes else if d \<in> set (part_maybe p) then Some Maybe else None)"

fun parts_left :: "'p intpack \<Rightarrow> part list \<Rightarrow> 'p posting_cursor option \<Rightarrow> docs" where
  "parts_left ip [] inner d = None"
| "parts_left ip (p # ps) inner d = max (part_left ip p inner d) (parts_left ip ps None d)"

definition pcursor_left :: "'p intpack \<Rightarrow> 'p pcursor \<Rightarrow> docs" where
  "pcursor_left ip pc = parts_left ip (drop (pc_at pc) (pc_parts pc)) (pc_inner pc)"

text \<open>
  The parts of a term: each part's documents lie between the previous part's
  last id and its own, below \<open>2 ^ 32\<close>, and its fingerprint documents ascend.
\<close>

fun wf_parts :: "'p intpack \<Rightarrow> nat \<Rightarrow> part list \<Rightarrow> 'p posting_cursor option \<Rightarrow> bool" where
  "wf_parts ip low [] inner \<longleftrightarrow> True"
| "wf_parts ip low (p # ps) inner \<longleftrightarrow>
     hit_ok ip p inner \<and> sorted (part_maybe p) \<and> part_last p < 2 ^ 32 \<and> low \<le> part_last p + 1 \<and>
     (\<forall>d. part_left ip p inner d \<noteq> None \<longrightarrow> low \<le> d \<and> d \<le> part_last p) \<and>
     wf_parts ip (part_last p + 1) ps None"

definition wf_pcursor :: "'p intpack \<Rightarrow> 'p pcursor \<Rightarrow> bool" where
  "wf_pcursor ip pc \<longleftrightarrow> (\<exists>low. wf_parts ip low (drop (pc_at pc) (pc_parts pc)) (pc_inner pc))"

text \<open>
  A segment of the plain codec has no fingerprint records, and one of the fingerprint
  codec has no inlined single documents: its writer makes them records.
\<close>

definition part_apart :: "part \<Rightarrow> bool" where
  "part_apart p \<longleftrightarrow> part_maybe p = [] \<or> (\<forall>doc. part_hit p \<noteq> Some (Single doc))"

definition no_fingerprints :: "'p pcursor \<Rightarrow> bool" where
  "no_fingerprints pc \<longleftrightarrow> list_all (\<lambda>p. part_maybe p = []) (pc_parts pc)"

section \<open>The postings cursor keeps the contract\<close>

lemma option_max_None [simp]: "max None x = x" "max x None = (x :: 'a :: linorder option)"
  by (cases x; simp add: max_def)+

lemma posting_next_geq_ok:
  assumes "intpack_ok ip" "ip_state ip (po_inner po)" "\<forall>d\<in>posting_left ip po. d < 2 ^ 32" "posting_next_geq ip po t = (r, po')"
  shows "first_from (posting_left ip po) t r" "posting_left ip po' \<subseteq> posting_left ip po"
    "\<forall>d\<in>posting_left ip po. t \<le> d \<longrightarrow> d \<in> posting_left ip po'"
    "r = Some d \<Longrightarrow> y \<in> posting_left ip po' \<Longrightarrow> d \<le> y" "ip_state ip (po_inner po')"
proof -
  obtain q inner where step: "ip_next_geq ip (po_inner po) (t - po_first po) = (q, inner)" by fastforce
  let ?f = "po_first po" and ?L = "ip_left ip (po_inner po)"
  from step assms(4) have r: "r = map_option (\<lambda>doc. wrapping_add_u32 doc ?f) q" "po' = po\<lparr>po_inner := inner\<rparr>"
    by (simp_all add: posting_next_geq_def)
  from assms(1,2) step have ok: "first_from ?L (t - ?f) q" "ip_left ip inner \<subseteq> ?L"
      "\<forall>d\<in>?L. t - ?f \<le> d \<longrightarrow> d \<in> ip_left ip inner" "\<forall>d. q = Some d \<longrightarrow> (\<forall>y\<in>ip_left ip inner. d \<le> y)"
    unfolding intpack_ok_def by blast+
  have add: "wrapping_add_u32 d ?f = d + ?f" if "d \<in> ?L" for d
    using assms(3) that by (auto simp: posting_left_def wrapping_add_u32_def)
  have q: "d \<in> ?L" if "q = Some d" for d using ok(1) that by auto
  show "first_from (posting_left ip po) t r"
    using ok(1) add by (cases q) (fastforce simp: r posting_left_def)+
  show "posting_left ip po' \<subseteq> posting_left ip po" using ok(2) by (auto simp: r posting_left_def)
  show "\<forall>d\<in>posting_left ip po. t \<le> d \<longrightarrow> d \<in> posting_left ip po'"
    using ok(3) by (auto simp: r posting_left_def)
  show "d \<le> y" if "r = Some d" "y \<in> posting_left ip po'"
    using that ok(4) add q by (auto simp: r posting_left_def)
  show "ip_state ip (po_inner po')" using ip_state.step [OF assms(2)] step r by (metis posting_cursor.select_convs(1) posting_cursor.surjective posting_cursor.update_convs(1) snd_conv)
qed

lemma part_found_ok:
  assumes "intpack_ok ip" "hit_ok ip p inner" "\<forall>d\<in>hit_left ip p inner. d < 2 ^ 32" "part_found ip p inner t = (r, inner')"
  shows "first_from (hit_left ip p inner) t r" "hit_left ip p inner' \<subseteq> hit_left ip p inner"
    "\<forall>d\<in>hit_left ip p inner. t \<le> d \<longrightarrow> d \<in> hit_left ip p inner'"
    "r = Some d \<Longrightarrow> y \<in> hit_left ip p inner' \<Longrightarrow> d \<le> y" "hit_ok ip p inner'"
proof -
  consider (none) "part_hit p = None" | (single) doc where "part_hit p = Some (Single doc)"
    | (list) l where "part_hit p = Some (Postings l)"
    by (metis hit.exhaust option.exhaust)
  then have "first_from (hit_left ip p inner) t r \<and> hit_left ip p inner' \<subseteq> hit_left ip p inner \<and>
    (\<forall>d\<in>hit_left ip p inner. t \<le> d \<longrightarrow> d \<in> hit_left ip p inner') \<and>
    (r = Some d \<longrightarrow> y \<in> hit_left ip p inner' \<longrightarrow> d \<le> y) \<and> hit_ok ip p inner'"
  proof cases
    case list
    let ?po = "case inner of Some po \<Rightarrow> po | None \<Rightarrow> plist_cursor ip l"
    from list assms(4) obtain po' where "posting_next_geq ip ?po t = (r, po')" "inner' = Some po'"
      by (auto simp: part_found_def split: prod.splits)
    moreover have "ip_state ip (po_inner ?po)"
      using assms(2) list by (auto simp: hit_ok_def plist_cursor_def intro: ip_state.new split: option.splits)
    ultimately show ?thesis
      using list assms(2,3) posting_next_geq_ok [OF assms(1), of ?po t r po'] by (auto simp: hit_left_def hit_ok_def)
  qed (use assms(2,4) in \<open>auto simp: part_found_def hit_left_def hit_ok_def split: if_splits\<close>)
  then show "first_from (hit_left ip p inner) t r" "hit_left ip p inner' \<subseteq> hit_left ip p inner"
    "\<forall>d\<in>hit_left ip p inner. t \<le> d \<longrightarrow> d \<in> hit_left ip p inner'"
    "r = Some d \<Longrightarrow> y \<in> hit_left ip p inner' \<Longrightarrow> d \<le> y" "hit_ok ip p inner'"
    by blast+
qed

lemma part_found_ends:
  assumes "intpack_ends ip" "hit_ok ip p inner" "\<forall>doc. part_hit p \<noteq> Some (Single doc)" "part_found ip p inner t = (None, inner')"
  shows "hit_left ip p inner' = {}"
proof (cases "part_hit p")
  case (Some h)
  with assms(3) obtain l where l: "part_hit p = Some (Postings l)" by (cases h) auto
  let ?po = "case inner of Some po \<Rightarrow> po | None \<Rightarrow> plist_cursor ip l"
  from assms(4) l obtain inner0 where "ip_next_geq ip (po_inner ?po) (t - po_first ?po) = (None, inner0)"
    "inner' = Some (?po\<lparr>po_inner := inner0\<rparr>)"
    by (auto simp: part_found_def posting_next_geq_def split: prod.splits)
  moreover have "ip_state ip (po_inner ?po)"
    using assms(2) l by (auto simp: hit_ok_def plist_cursor_def intro: ip_state.new split: option.splits)
  ultimately show ?thesis using assms(1) l by (auto simp: intpack_ends_def hit_left_def posting_left_def)
qed (simp add: hit_left_def)

lemma part_maybe_from_first: "sorted (part_maybe p) \<Longrightarrow> first_from (set (part_maybe p)) t (part_maybe_from p t)"
proof -
  assume sorted: "sorted (part_maybe p)"
  let ?ms = "part_maybe p"
  let ?i = "partition_point (\<lambda>doc. doc < t) ?ms"
  have below: "?ms ! j < t" if "j < ?i" for j
    using that nth_mem [of j "takeWhile (\<lambda>doc. doc < t) ?ms"] set_takeWhileD
    by (fastforce simp: partition_point_def takeWhile_nth)
  have reach: "t \<le> ?ms ! ?i" if "?i < length ?ms"
    using nth_length_takeWhile [of "\<lambda>doc. doc < t" ?ms] that by (simp add: partition_point_def)
  have "?ms ! ?i \<le> x" if "x \<in> set ?ms" "t \<le> x" for x
  proof -
    from that(1) obtain j where j: "j < length ?ms" "x = ?ms ! j" by (auto simp: in_set_conv_nth)
    with that(2) below [of j] have "?i \<le> j" by (cases "?i \<le> j") auto
    with j sorted show ?thesis by (simp add: sorted_nth_mono)
  qed
  moreover have "x < t" if "x \<in> set ?ms" "\<not> ?i < length ?ms" for x
  proof -
    from that(1) obtain j where "j < length ?ms" "x = ?ms ! j" by (auto simp: in_set_conv_nth)
    with that(2) below [of j] show ?thesis by simp
  qed
  ultimately show ?thesis using reach by (auto simp: part_maybe_from_def Let_def)
qed

lemma part_answer:
  assumes "intpack_ok ip" "hit_ok ip p inner" "sorted (part_maybe p)" "\<forall>d\<in>hit_left ip p inner. d < 2 ^ 32"
    "part_found ip p inner t = (found, inner')"
  defines "r \<equiv> earlier found (part_maybe_from p t)"
  shows "least_from (part_left ip p inner) t r" "keeps_from (part_left ip p inner) t (part_left ip p inner')"
    "part_maybe p = [] \<Longrightarrow> stands_on (part_left ip p inner') r" "hit_ok ip p inner'"
    "intpack_ends ip \<Longrightarrow> part_apart p \<Longrightarrow> passes (part_left ip p inner') r"
proof -
  note yes = part_found_ok [OF assms(1,2,4,5)]
  note maybe = part_maybe_from_first [OF assms(3), of t]
  show "least_from (part_left ip p inner) t r"
  proof (cases found)
    case None
    with yes(1) maybe show ?thesis
      by (cases "part_maybe_from p t") (fastforce simp: r_def part_left_def)+
  next
    case (Some d)
    with yes(1) maybe show ?thesis
      by (cases "part_maybe_from p t") (fastforce simp: r_def part_left_def)+
  qed
  show "keeps_from (part_left ip p inner) t (part_left ip p inner')"
    using yes(2,3) by (auto simp: keeps_from_def part_left_def)
  show stands: "stands_on (part_left ip p inner') r" if "part_maybe p = []"
    using yes(4) that by (cases found) (fastforce simp: r_def part_maybe_from_def part_left_def)+
  show "hit_ok ip p inner'" by (rule yes(5))
  show "passes (part_left ip p inner') r" if "intpack_ends ip" "part_apart p"
  proof (cases "part_maybe p = []")
    case True
    with stands show ?thesis by (cases r) auto
  next
    case False
    with that(2) have list: "\<forall>doc. part_hit p \<noteq> Some (Single doc)" by (simp add: part_apart_def)
    have "d \<le> y" if "r = Some (d, x)" "y \<in> hit_left ip p inner'" for d x y
    proof (cases found)
      case None
      with part_found_ends [OF \<open>intpack_ends ip\<close> assms(2) list] assms(5) that show ?thesis by simp
    next
      case (Some yes_doc)
      with yes(4) [of yes_doc y] that show ?thesis
        by (cases "part_maybe_from p t") (auto simp: r_def split: if_splits)
    qed
    then show ?thesis by (cases r) (force simp: part_left_def split: if_splits)+
  qed
qed

lemma wf_parts_low: "wf_parts ip low ps inner \<Longrightarrow> parts_left ip ps inner d \<noteq> None \<Longrightarrow> low \<le> d"
proof (induction ip low ps inner rule: wf_parts.induct)
  case (2 ip low p ps inner)
  then show ?case by (cases "part_left ip p inner d = None") auto
qed simp

lemma wf_parts_hit: "wf_parts ip low (p # ps) inner \<Longrightarrow> \<forall>d\<in>hit_left ip p inner. d < 2 ^ 32"
  by (fastforce simp: part_left_def)

lemma wf_parts_below: "wf_parts ip low ps inner \<Longrightarrow> parts_left ip ps inner d \<noteq> None \<Longrightarrow> d < 2 ^ 32"
proof (induction ip low ps inner rule: wf_parts.induct)
  case (2 ip low p ps inner)
  then show ?case by (cases "part_left ip p inner d = None") fastforce+
qed simp

lemma keeps_from_max:
  "keeps_from a t a' \<Longrightarrow> keeps_from b t b' \<Longrightarrow> keeps_from (\<lambda>d. max (a d) (b d)) t (\<lambda>d. max (a' d) (b' d))"
  unfolding keeps_from_def by (metis max.mono)

text \<open>A part that has no document from the target on may be dropped.\<close>

lemma drop_part:
  assumes "\<forall>d\<ge>t. part_left ip p inner d = None"
  shows "keeps_from (parts_left ip (p # ps) inner) t (parts_left ip ps None)"
    "least_from (parts_left ip ps None) t r \<Longrightarrow> least_from (parts_left ip (p # ps) inner) t r"
proof -
  show "keeps_from (parts_left ip (p # ps) inner) t (parts_left ip ps None)"
    using assms by (auto simp: keeps_from_def)
  show "least_from (parts_left ip (p # ps) inner) t r" if "least_from (parts_left ip ps None) t r"
    using that assms by (cases r) auto
qed

text \<open>A document found in the first part lies before those of the later parts.\<close>

lemma answer_part:
  assumes "wf_parts ip low (p # ps) inner" "keeps_from (part_left ip p inner) t (part_left ip p inner')"
    "least_from (part_left ip p inner) t (Some (d, x))" "hit_ok ip p inner'"
  shows "least_from (parts_left ip (p # ps) inner) t (Some (d, x))"
    "wf_parts ip low (p # ps) inner'" "keeps_from (parts_left ip (p # ps) inner) t (parts_left ip (p # ps) inner')"
    "stands_on (part_left ip p inner') (Some (d, x)) \<Longrightarrow> stands_on (parts_left ip (p # ps) inner') (Some (d, x))"
    "passes (part_left ip p inner') (Some (d, x)) \<Longrightarrow> passes (parts_left ip (p # ps) inner') (Some (d, x))"
proof -
  have later: "parts_left ip ps None y = None" if "y \<le> part_last p" for y
    using that assms(1) wf_parts_low [of ip "part_last p + 1" ps None y] by fastforce
  have d: "d \<le> part_last p" using assms(1,3) by fastforce
  show "least_from (parts_left ip (p # ps) inner) t (Some (d, x))" using assms(3) d later by simp
  show "wf_parts ip low (p # ps) inner'"
    using assms(1,2,4) keeps_from_None by (fastforce simp del: not_None_eq)
  show "keeps_from (parts_left ip (p # ps) inner) t (parts_left ip (p # ps) inner')"
    using keeps_from_max [OF assms(2) keeps_from_refl] by (simp add: keeps_from_def)
  show "stands_on (parts_left ip (p # ps) inner') (Some (d, x))" if "stands_on (part_left ip p inner') (Some (d, x))"
    using that d later by simp
  show "passes (parts_left ip (p # ps) inner') (Some (d, x))" if "passes (part_left ip p inner') (Some (d, x))"
    using that d later by simp
qed

context checkpoint
begin

lemma parts_loop_ok:
  assumes "intpack_ok ip" "wf_parts ip low ps inner"
    "parts_loop ip checkpoint ps at inner t s = (r, at', inner', s')"
  shows "at \<le> at' \<and> (stopped s \<longrightarrow> stopped s' \<or> ps = []) \<and>
    (\<exists>low'. wf_parts ip low' (drop (at' - at) ps) inner') \<and>
    keeps_from (parts_left ip ps inner) t (parts_left ip (drop (at' - at) ps) inner') \<and>
    (r \<noteq> None \<or> \<not> stopped s' \<longrightarrow> least_from (parts_left ip ps inner) t r) \<and>
    (list_all (\<lambda>p. part_maybe p = []) ps \<longrightarrow> stands_on (parts_left ip (drop (at' - at) ps) inner') r) \<and>
    (intpack_ends ip \<and> list_all part_apart ps \<longrightarrow> passes (parts_left ip (drop (at' - at) ps) inner') r)"
  using assms(2,3)
proof (induction ps arbitrary: low at inner s)
  case (Cons p ps)
  obtain stop s1 where cp: "checkpoint s = (stop, s1)" by fastforce
  note st = answers [OF cp] sticky [OF cp]
  from Cons.prems have wf: "wf_parts ip (part_last p + 1) ps None" by simp
  have skip: ?case if "\<not> stop" "\<forall>d\<ge>t. part_left ip p inner d = None"
    "parts_loop ip checkpoint ps (at + 1) None t s1 = (r, at', inner', s')"
  proof -
    from Cons.IH [OF wf that(3)] have ih: "at + 1 \<le> at'"
      "\<exists>low'. wf_parts ip low' (drop (at' - (at + 1)) ps) inner'"
      "keeps_from (parts_left ip ps None) t (parts_left ip (drop (at' - (at + 1)) ps) inner')"
      "r \<noteq> None \<or> \<not> stopped s' \<longrightarrow> least_from (parts_left ip ps None) t r"
      "list_all (\<lambda>p. part_maybe p = []) ps \<longrightarrow> stands_on (parts_left ip (drop (at' - (at + 1)) ps) inner') r"
      "intpack_ends ip \<and> list_all part_apart ps \<longrightarrow> passes (parts_left ip (drop (at' - (at + 1)) ps) inner') r"
      by blast+
    from ih(1) have drop: "drop (at' - at) (p # ps) = drop (at' - (at + 1)) ps" by (simp add: drop_Cons' )
    have "keeps_from (parts_left ip (p # ps) inner) t (parts_left ip (drop (at' - at) (p # ps)) inner')"
      using keeps_from_trans [OF drop_part(1) [OF that(2)] ih(3)] drop by simp
    moreover have "\<not> stopped s" using st that(1) by auto
    ultimately show ?case using ih drop drop_part(2) [OF that(2)] by (simp del: parts_left.simps)
  qed
  show ?case
  proof (cases "stop \<or> \<not> t \<le> part_last p")
    case True
    show ?thesis
    proof (cases stop)
      case True
      with Cons.prems cp st show ?thesis by auto
    next
      case False
      moreover have "\<forall>d\<ge>t. part_left ip p inner d = None"
        using Cons.prems(1) True False by (metis le_trans wf_parts.simps(2))
      ultimately show ?thesis using skip True Cons.prems(2) cp by auto
    qed
  next
    case False
    obtain found mid where found: "part_found ip p inner t = (found, mid)" by fastforce
    have "hit_ok ip p inner" "sorted (part_maybe p)" using Cons.prems(1) by simp_all
    note ans = part_answer [OF assms(1) this wf_parts_hit [OF Cons.prems(1)] found]
    show ?thesis
    proof (cases "earlier found (part_maybe_from p t)")
      case None
      with ans(1) have "\<forall>d\<ge>t. part_left ip p inner d = None" by simp
      with skip False Cons.prems(2) cp found None show ?thesis by auto
    next
      case (Some dx)
      then obtain d x where dx: "earlier found (part_maybe_from p t) = Some (d, x)" by (cases dx) auto
      with Cons.prems(2) False cp found have "r = Some (d, x)" "at' = at" "inner' = mid" "s' = s1" by auto
      with answer_part [OF Cons.prems(1) ans(2) ans(1) [unfolded dx] ans(4)] ans(3,5) dx st show ?thesis
        by (auto simp del: parts_left.simps wf_parts.simps stands_on_simps passes_simps least_from_simps)
    qed
  qed
qed auto

lemma pcursor_next_geq_ok:
  assumes "intpack_ok ip" "wf_pcursor ip pc" "pcursor_next_geq ip checkpoint pc t s = (r, pc', s')"
  shows "stopped s \<longrightarrow> stopped s'" "wf_pcursor ip pc'" "pc_parts pc' = pc_parts pc"
    "keeps_from (pcursor_left ip pc) t (pcursor_left ip pc')"
    "r \<noteq> None \<or> \<not> stopped s' \<Longrightarrow> least_from (pcursor_left ip pc) t r"
    "no_fingerprints pc \<Longrightarrow> stands_on (pcursor_left ip pc') r"
    "intpack_ends ip \<Longrightarrow> list_all part_apart (pc_parts pc) \<Longrightarrow> passes (pcursor_left ip pc') r"
proof -
  obtain stop s1 where cp: "checkpoint s = (stop, s1)" by fastforce
  note st = answers [OF cp] sticky [OF cp]
  have "(stopped s \<longrightarrow> stopped s') \<and> wf_pcursor ip pc' \<and> pc_parts pc' = pc_parts pc \<and>
    keeps_from (pcursor_left ip pc) t (pcursor_left ip pc') \<and>
    (r \<noteq> None \<or> \<not> stopped s' \<longrightarrow> least_from (pcursor_left ip pc) t r) \<and>
    (no_fingerprints pc \<longrightarrow> stands_on (pcursor_left ip pc') r) \<and>
    (intpack_ends ip \<and> list_all part_apart (pc_parts pc) \<longrightarrow> passes (pcursor_left ip pc') r)"
  proof (cases stop)
    case True
    with assms cp st show ?thesis by (auto simp: pcursor_next_geq_def)
  next
    case False
    let ?ps = "drop (pc_at pc) (pc_parts pc)"
    obtain at inner where loop: "parts_loop ip checkpoint ?ps (pc_at pc) (pc_inner pc) t s1 = (r, at, inner, s')"
      and pc': "pc' = pc\<lparr>pc_at := at, pc_inner := inner\<rparr>"
      using assms(3) cp False by (auto simp: pcursor_next_geq_def split: prod.splits)
    from assms(2) obtain low where wf: "wf_parts ip low ?ps (pc_inner pc)" by (auto simp: wf_pcursor_def)
    from parts_loop_ok [OF assms(1) wf loop]
    have at: "pc_at pc \<le> at" and rest: "\<exists>low'. wf_parts ip low' (drop (at - pc_at pc) ?ps) inner"
      "keeps_from (parts_left ip ?ps (pc_inner pc)) t (parts_left ip (drop (at - pc_at pc) ?ps) inner)"
      "r \<noteq> None \<or> \<not> stopped s' \<longrightarrow> least_from (parts_left ip ?ps (pc_inner pc)) t r"
      "list_all (\<lambda>p. part_maybe p = []) ?ps \<longrightarrow> stands_on (parts_left ip (drop (at - pc_at pc) ?ps) inner) r"
      "intpack_ends ip \<and> list_all part_apart ?ps \<longrightarrow> passes (parts_left ip (drop (at - pc_at pc) ?ps) inner) r"
      by blast+
    have drop: "drop (at - pc_at pc) ?ps = drop at (pc_parts pc)" using at by simp
    have "no_fingerprints pc \<Longrightarrow> list_all (\<lambda>p. part_maybe p = []) ?ps"
      by (auto simp: no_fingerprints_def list_all_iff dest: in_set_dropD)
    moreover have "list_all part_apart (pc_parts pc) \<Longrightarrow> list_all part_apart ?ps"
      by (auto simp: list_all_iff dest: in_set_dropD)
    ultimately show ?thesis using rest st False unfolding drop by (auto simp: pc' wf_pcursor_def pcursor_left_def)
  qed
  then show "stopped s \<longrightarrow> stopped s'" "wf_pcursor ip pc'" "pc_parts pc' = pc_parts pc"
    "keeps_from (pcursor_left ip pc) t (pcursor_left ip pc')"
    "r \<noteq> None \<or> \<not> stopped s' \<Longrightarrow> least_from (pcursor_left ip pc) t r"
    "no_fingerprints pc \<Longrightarrow> stands_on (pcursor_left ip pc') r"
    "intpack_ends ip \<Longrightarrow> list_all part_apart (pc_parts pc) \<Longrightarrow> passes (pcursor_left ip pc') r"
    by blast+
qed

end

end
