(* ===== verification/Byte_Codec.thy ===== *)
theory Byte_Codec
  imports Bit_Words
begin

text \<open>
  The integer codecs of the index files (\<open>ferret-index/src/segment/mod.rs\<close>):
  little-endian \<open>u32\<close> and \<open>u64\<close> fields read at an offset, and the
  variable-length LEB128 integers written by \<open>put\<close> and read by \<open>take\<close>. A
  slice expression \<open>bytes[a..b]\<close> panics out of range; here it is an option
  whose \<open>None\<close> is the panic. Offsets and lengths are naturals; field values
  keep their width.

  Results: each decoder inverts its encoder at any offset and consumes
  exactly the encoded bytes (locale \<open>codec\<close>, interpreted for both widths and
  for LEB128), and the two fast paths of \<open>take\<close> agree with its loop.
\<close>

unbundle bit_operations_syntax

type_synonym u32 = "32 word"

named_theorems codec_simps \<open>lengths and reads of encoded fields\<close>

section \<open>Slices\<close>

text \<open>\<open>&bytes[a..b]\<close>, and \<open>bytes.get(i)\<close>.\<close>

definition slice :: "'a list \<Rightarrow> nat \<Rightarrow> nat \<Rightarrow> 'a list option" where
  "slice xs a b = (if a \<le> b \<and> b \<le> length xs then Some (take (b - a) (drop a xs)) else None)"

definition get_at :: "'a list \<Rightarrow> nat \<Rightarrow> 'a option" where
  "get_at xs i = (if i < length xs then Some (xs ! i) else None)"

lemma slice_mid [simp]:
  "a = length pre \<Longrightarrow> b = length pre + length mid \<Longrightarrow> slice (pre @ mid @ suf) a b = Some mid"
  by (simp add: slice_def)

lemma slice_in_range: "a \<le> b \<Longrightarrow> b \<le> length xs \<Longrightarrow> slice xs a b = Some (take (b - a) (drop a xs))"
  by (simp add: slice_def)

lemma length_slice: "slice xs a b = Some ys \<Longrightarrow> length ys = b - a"
  by (auto simp: slice_def split: if_splits)

lemma get_at_append [simp]: "get_at (pre @ x # suf) (length pre) = Some x"
  by (simp add: get_at_def)

section \<open>Little-endian fields\<close>

text \<open>\<open>to_le_bytes\<close> and \<open>from_le_bytes\<close> of an integer of \<open>n\<close> bytes.\<close>

definition to_le_bytes :: "nat \<Rightarrow> 'a::len word \<Rightarrow> bytes" where
  "to_le_bytes n w = map (\<lambda>i. ucast (drop_bit (8 * i) w)) [0..<n]"

fun from_le_bytes :: "bytes \<Rightarrow> 'a::len word" where
  "from_le_bytes [] = 0"
| "from_le_bytes (b # bs) = ucast b OR push_bit 8 (from_le_bytes bs)"

abbreviation le32 :: "u32 \<Rightarrow> bytes" where
  "le32 \<equiv> to_le_bytes 4"

abbreviation le64 :: "u64 \<Rightarrow> bytes" where
  "le64 \<equiv> to_le_bytes 8"

definition u32_at :: "bytes \<Rightarrow> nat \<Rightarrow> u32 option" where
  "u32_at bs at = map_option from_le_bytes (slice bs at (at + 4))"

definition u64_at :: "bytes \<Rightarrow> nat \<Rightarrow> u64 option" where
  "u64_at bs at = map_option from_le_bytes (slice bs at (at + 8))"

lemma length_to_le_bytes [simp, codec_simps]: "length (to_le_bytes n w) = n"
  by (simp add: to_le_bytes_def)

lemma bit_from_le_bytes:
  "bit (from_le_bytes bs :: 'a::len word) i \<longleftrightarrow>
     i < LENGTH('a) \<and> i div 8 < length bs \<and> bit (bs ! (i div 8)) (i mod 8)"
proof (induction bs arbitrary: i)
  case (Cons b bs)
  show ?case
  proof (cases "i < 8")
    case True
    then show ?thesis by (auto simp: bit_simps)
  next
    case False
    then obtain j where "i = 8 + j" using le_Suc_ex not_le by blast
    moreover from this have "i div 8 = Suc (j div 8)" by simp
    ultimately show ?thesis using Cons [of j]
      by (auto simp: bit_simps dest: bit_imp_le_length)
  qed
qed simp

lemma from_to_le_bytes:
  assumes "LENGTH('a) = 8 * n"
  shows "from_le_bytes (to_le_bytes n w) = (w :: 'a::len word)"
proof (rule bit_word_eqI)
  fix i
  assume i: "i < LENGTH('a)"
  with assms have "i div 8 < n" by (simp add: less_mult_imp_div_less mult.commute)
  with i show "bit (from_le_bytes (to_le_bytes n w) :: 'a word) i \<longleftrightarrow> bit w i"
    by (simp add: bit_from_le_bytes to_le_bytes_def bit_simps)
qed

lemma from_le32 [simp]: "from_le_bytes (le32 w) = w"
  by (rule from_to_le_bytes) simp

lemma from_le64 [simp]: "from_le_bytes (le64 w) = w"
  by (rule from_to_le_bytes) simp

section \<open>LEB128\<close>

function put :: "u64 \<Rightarrow> bytes" where
  "put v = (if 0x80 \<le> v then (ucast v OR 0x80) # put (drop_bit 7 v) else [ucast v])"
  by pat_completeness auto
termination
proof (relation "measure unat", simp)
  fix v :: u64
  assume "0x80 \<le> v"
  then have "128 \<le> unat v" by (simp add: word_le_nat_alt)
  then have "unat v div 2 ^ 7 < unat v" by simp
  then show "(drop_bit 7 v, v) \<in> measure unat" by (simp only: in_measure unat_drop_bit_eq) (simp add: drop_bit_eq_div)
qed

declare put.simps [simp del]

fun take_loop :: "bytes \<Rightarrow> nat list \<Rightarrow> nat \<Rightarrow> u64 \<Rightarrow> (u64 \<times> nat) option" where
  "take_loop bs [] at v = None"
| "take_loop bs (shift # shifts) at v =
     (case get_at bs at of
        None \<Rightarrow> None
      | Some byte \<Rightarrow>
          (let low = ucast (byte AND 0x7f) in
           if shift = 63 \<and> 1 < low then None
           else
             (let v = v OR push_bit shift low in
              if byte < 0x80 then Some (v, at + 1)
              else take_loop bs shifts (at + 1) v)))"

text \<open>\<open>take\<close>: the value and the offset after it. The first two bytes are
  decoded without the loop.\<close>

definition leb_take :: "bytes \<Rightarrow> nat \<Rightarrow> (u64 \<times> nat) option" where
  "leb_take bs at =
     (case get_at bs at of
        None \<Rightarrow> None
      | Some low \<Rightarrow>
          if low < 0x80 then Some (ucast low, at + 1)
          else
            (case get_at bs (at + 1) of
               None \<Rightarrow> None
             | Some high \<Rightarrow>
                 if high < 0x80
                 then Some (ucast (low AND 0x7f) OR push_bit 7 (ucast high), at + 2)
                 else take_loop bs [0, 7, 14, 21, 28, 35, 42, 49, 56, 63] at 0))"

text \<open>The simplifier reads the bits of a word numeral off the integer.\<close>

lemma bit_0x7f: "bit (0x7f :: int) n \<longleftrightarrow> n < 7"
proof -
  have "(0x7f :: int) = mask 7" by (simp add: mask_eq_exp_minus_1)
  then show ?thesis by (simp only: bit_mask_iff) simp
qed

lemma bit_0x80: "bit (0x80 :: int) n \<longleftrightarrow> n = 7"
proof -
  have "(0x80 :: int) = 2 ^ 7" by simp
  then show ?thesis by (simp only: bit_exp_iff) auto
qed

lemma byte_below_0x80: "byte < 0x80 \<longleftrightarrow> \<not> bit byte 7" for byte :: byte
proof -
  have "byte < 0x80 \<longleftrightarrow> take_bit 7 (unat byte) = unat byte"
    by (simp only: take_bit_nat_eq_self_iff) (simp add: word_less_nat_alt)
  also have "\<dots> \<longleftrightarrow> take_bit 7 byte = byte" by (simp only: unsigned_take_bit_eq [symmetric] word_unat_eq_iff)
  also have "\<dots> \<longleftrightarrow> \<not> bit byte 7"
  proof
    show "take_bit 7 byte = byte \<Longrightarrow> \<not> bit byte 7" by (metis bit_take_bit_iff less_irrefl)
    show "\<not> bit byte 7 \<Longrightarrow> take_bit 7 byte = byte"
      by (rule bit_word_eqI) (auto simp: bit_simps less_Suc_eq eval_nat_numeral)
  qed
  finally show ?thesis .
qed

lemma low_bits: "byte < 0x80 \<Longrightarrow> byte AND 0x7f = byte" for byte :: byte
  by (rule bit_word_eqI) (auto simp: byte_below_0x80 bit_0x7f bit_simps less_Suc_eq eval_nat_numeral)

lemma leb_take_loop: "leb_take bs at = take_loop bs [0, 7, 14, 21, 28, 35, 42, 49, 56, 63] at 0"
  by (auto simp: leb_take_def Let_def low_bits split: option.splits)

lemma put_byte_low: "ucast ((ucast v OR 0x80 :: byte) AND 0x7f) = v AND 0x7f" for v :: u64
  by (rule bit_word_eqI) (auto simp: bit_0x7f bit_0x80 bit_simps)

lemma put_byte_high: "\<not> (ucast v OR 0x80 :: byte) < 0x80" for v :: u64
  by (simp add: byte_below_0x80 bit_0x80 bit_simps)

lemma split_low_bits: "push_bit n (v AND 0x7f) OR push_bit (n + 7) (drop_bit 7 v) = push_bit n v" for v :: u64
proof (rule bit_word_eqI)
  fix i
  assume "i < LENGTH(64)"
  then show "bit (push_bit n (v AND 0x7f) OR push_bit (n + 7) (drop_bit 7 v)) i \<longleftrightarrow> bit (push_bit n v) i"
    by (cases "i < n + 7") (auto simp: bit_simps bit_0x7f)
qed

lemma low_then_rest: "push_bit n v AND push_bit n 0x7f OR push_bit (7 + n) (drop_bit 7 v) = push_bit n v" for v :: u64
  using split_low_bits [of n v] by (simp add: add.commute)

lemma unat_drop_bit7: "unat (drop_bit 7 v) = unat v div 128" for v :: u64
  by (simp only: unat_drop_bit_eq) (simp add: drop_bit_eq_div)

lemma len_byte: "LENGTH(8) = 8"
  by simp

lemma take_loop_put:
  assumes "unat v < 2 ^ (64 - 7 * k)" "k < 10"
  shows "take_loop (pre @ put v @ suf) (map ((*) 7) [k..<10]) (length pre) acc =
    Some (acc OR push_bit (7 * k) v, length pre + length (put v))"
  using assms
proof (induction v arbitrary: k pre acc rule: put.induct)
  case (1 v)
  have shifts: "map ((*) 7) [k..<10] = 7 * k # map ((*) 7) [Suc k..<10]"
    using "1.prems"(2) by (simp add: upt_conv_Cons)
  show ?case
  proof (cases "0x80 \<le> v")
    case False
    then have v: "unat v < 128" by (simp add: word_le_nat_alt)
    have small: "take_bit 8 (unat v) = unat v" using v by (simp only: take_bit_nat_eq_self_iff) simp
    then have "unat (ucast v :: byte) = unat v" by (simp only: unsigned_ucast_eq) (simp only: len_byte)
    then have byte: "(ucast v :: byte) < 0x80" using v by (simp add: word_less_nat_alt)
    moreover have "ucast (ucast v :: byte) = v"
    proof -
      from small have "take_bit 8 v = v" by (simp only: unsigned_take_bit_eq [symmetric] word_unat_eq_iff [symmetric])
      then have "n < 8" if "bit v n" for n using that by (metis bit_take_bit_iff)
      then show ?thesis by (intro bit_word_eqI) (auto simp: bit_simps)
    qed
    moreover have "unat v < 2" if "k = 9" using "1.prems"(1) that by simp
    ultimately show ?thesis
      using False unfolding shifts put.simps [of v]
      by (auto simp: Let_def low_bits word_less_nat_alt)
  next
    case True
    then have big: "128 \<le> unat v" by (simp add: word_le_nat_alt)
    have "\<not> 64 - 7 * k \<le> 7" using "1.prems"(1) big power_increasing [of "64 - 7 * k" 7 "2 :: nat"] by auto
    then have k: "k < 9" "64 - 7 * Suc k + 7 = 64 - 7 * k" using "1.prems"(2) by auto
    have "unat (drop_bit 7 v) < 2 ^ (64 - 7 * Suc k)"
      using "1.prems"(1) unfolding k(2) [symmetric] power_add
      by (simp only: unat_drop_bit7) (simp add: less_mult_imp_div_less)
    with "1.IH" [OF True, of "Suc k" "pre @ [ucast v OR 0x80]" "acc OR push_bit (7 * k) (v AND 0x7f)"] k True
    show ?thesis
      unfolding shifts put.simps [of v]
      by (simp add: Let_def put_byte_low put_byte_high or.assoc low_then_rest)
  qed
qed

lemma leb_take_put: "leb_take (pre @ put v @ suf) (length pre) = Some (v, length pre + length (put v))"
proof -
  have "unat v < 2 ^ (64 - 7 * 0)" using unsigned_less [of v, where ?'a = nat] by simp
  from take_loop_put [OF this, of pre suf 0] show ?thesis
    unfolding leb_take_loop by (simp add: upt_rec)
qed

section \<open>The interface\<close>

text \<open>
  A codec of one integer: decoding at the offset of an encoded value, with
  anything before and after, returns the value and the offset past it.
\<close>

locale codec =
  fixes encode :: "'v \<Rightarrow> bytes"
    and decode :: "bytes \<Rightarrow> nat \<Rightarrow> ('v \<times> nat) option"
  assumes decode_encode: "decode (pre @ encode v @ suf) (length pre) = Some (v, length pre + length (encode v))"
begin

lemma decode_first: "decode (encode v @ suf) 0 = Some (v, length (encode v))"
  using decode_encode [of "[]"] by simp

lemma encode_inject:
  assumes "encode v @ suf = encode w @ suf'"
  shows "v = w \<and> suf = suf'"
  using decode_first [of v suf] decode_first [of w suf'] assms by simp

end

interpretation leb: codec put leb_take
  by unfold_locales (rule leb_take_put)

interpretation le32: codec le32 "\<lambda>bs at. map_option (\<lambda>v. (v, at + 4)) (u32_at bs at)"
  by unfold_locales (simp add: u32_at_def)

interpretation le64: codec le64 "\<lambda>bs at. map_option (\<lambda>v. (v, at + 8)) (u64_at bs at)"
  by unfold_locales (simp add: u64_at_def)

lemma length_put: "0 < length (put v)" "length (put v) \<le> 10"
proof -
  show "0 < length (put v)" by (subst put.simps) simp
  have "length (put v) \<le> n" if "unat v < 2 ^ (7 * n)" "0 < n" for n
    using that
  proof (induction v arbitrary: n rule: put.induct)
    case (1 v)
    show ?case
    proof (cases "0x80 \<le> v")
      case True
      then have big: "128 \<le> unat v" by (simp add: word_le_nat_alt)
      with "1.prems" have "n \<noteq> 1" by auto
      with "1.prems"(2) obtain m where m: "n = Suc m" "0 < m" by (metis Suc_pred One_nat_def gr0I)
      have "unat (drop_bit 7 v) < 2 ^ (7 * m)"
        using "1.prems"(1) unfolding m by (simp only: unat_drop_bit7) (simp add: less_mult_imp_div_less power_add mult.commute)
      from "1.IH" [OF True this m(2)] True m show ?thesis by (simp add: put.simps [of v])
    next
      case False
      with "1.prems" show ?thesis by (simp add: put.simps [of v])
    qed
  qed
  from this [of 10] show "length (put v) \<le> 10"
    using unsigned_less [of v, where ?'a = nat] by (simp add: order_less_le_trans)
qed

section \<open>Fields at an offset\<close>

text \<open>\<open>holds_at bs a x\<close>: the bytes \<open>x\<close> are in \<open>bs\<close> from offset \<open>a\<close> on. Every read
  of a decoder is such a fact, and the fact of a concatenation is the facts
  of its parts.\<close>

definition holds_at :: "bytes \<Rightarrow> nat \<Rightarrow> bytes \<Rightarrow> bool" where
  "holds_at bs a x \<longleftrightarrow> slice bs a (a + length x) = Some x"

lemma holds_at_iff: "holds_at bs a x \<longleftrightarrow> (\<exists>pre suf. bs = pre @ x @ suf \<and> length pre = a)"
proof
  assume "holds_at bs a x"
  then have x: "x = take (length x) (drop a bs)" and a: "a + length x \<le> length bs"
    by (auto simp: holds_at_def slice_def split: if_splits)
  have "bs = take a bs @ x @ drop (length x) (drop a bs)"
    by (subst x) (metis append_take_drop_id)
  moreover have "length (take a bs) = a" using a by simp
  ultimately show "\<exists>pre suf. bs = pre @ x @ suf \<and> length pre = a" by blast
qed (auto simp: holds_at_def)

lemma slice_eq_Some: "slice bs a b = Some x \<longleftrightarrow> holds_at bs a x \<and> a \<le> b \<and> b = a + length x"
  by (auto simp: holds_at_def slice_def split: if_splits)

lemma holds_at_append: "holds_at bs a (x @ y) \<longleftrightarrow> holds_at bs a x \<and> holds_at bs (a + length x) y"
proof
  assume "holds_at bs a (x @ y)"
  then obtain pre suf where "bs = pre @ x @ y @ suf" "length pre = a" by (auto simp: holds_at_iff)
  then show "holds_at bs a x \<and> holds_at bs (a + length x) y"
    unfolding holds_at_iff by (metis append_assoc length_append)
next
  assume xy: "holds_at bs a x \<and> holds_at bs (a + length x) y"
  from xy obtain pre suf where 1: "bs = pre @ x @ suf" "length pre = a" unfolding holds_at_iff by blast
  from xy obtain pre' suf' where 2: "bs = pre' @ y @ suf'" "length pre' = a + length x"
    unfolding holds_at_iff by blast
  from 1 2 have "pre' = pre @ x" "y @ suf' = suf"
    using append_eq_append_conv [of pre' "pre @ x" "y @ suf'" suf] by auto
  with 1 2 show "holds_at bs a (x @ y)" unfolding holds_at_iff by force
qed

lemma holds_at_length: "holds_at bs a x \<Longrightarrow> a + length x \<le> length bs"
  by (auto simp: holds_at_iff)

lemma holds_at_Nil: "holds_at bs a [] \<longleftrightarrow> a \<le> length bs"
  by (simp add: holds_at_def slice_def)

lemma holds_at_whole: "holds_at bs 0 x \<Longrightarrow> length x = length bs \<Longrightarrow> x = bs"
  by (auto simp: holds_at_iff)

lemma holds_at_self: "holds_at x 0 x"
  by (auto simp: holds_at_iff)

lemma to_from_le_bytes:
  assumes "LENGTH('a) = 8 * n" "length bs = n"
  shows "to_le_bytes n (from_le_bytes bs :: 'a::len word) = bs"
proof (rule nth_equalityI)
  fix i
  assume "i < length (to_le_bytes n (from_le_bytes bs :: 'a word))"
  then have i: "i < n" by simp
  show "to_le_bytes n (from_le_bytes bs :: 'a word) ! i = bs ! i"
  proof (rule bit_word_eqI)
    fix k
    assume "k < LENGTH(8)"
    then have k: "k < 8" by simp
    then have "8 * i + k < 8 * n" using i by linarith
    with i k assms show "bit (to_le_bytes n (from_le_bytes bs :: 'a word) ! i) k \<longleftrightarrow> bit (bs ! i) k"
      by (simp add: to_le_bytes_def bit_simps bit_from_le_bytes)
  qed
qed (simp add: assms)

lemma u32_at_Some: "u32_at bs a = Some v \<longleftrightarrow> holds_at bs a (le32 v)"
proof -
  have "le32 (from_le_bytes x) = x" if "length x = 4" for x using that by (intro to_from_le_bytes) simp_all
  then show ?thesis by (auto simp: u32_at_def holds_at_def) (metis length_slice add_diff_cancel_left')
qed

lemma u64_at_Some: "u64_at bs a = Some v \<longleftrightarrow> holds_at bs a (le64 v)"
proof -
  have "le64 (from_le_bytes x) = x" if "length x = 8" for x using that by (intro to_from_le_bytes) simp_all
  then show ?thesis by (auto simp: u64_at_def holds_at_def) (metis length_slice add_diff_cancel_left')
qed

lemma leb_take_holds: "holds_at bs a (put v) \<Longrightarrow> leb_take bs a = Some (v, a + length (put v))"
  by (auto simp: holds_at_iff leb_take_put)

section \<open>Lengths and offsets\<close>

text \<open>
  Lengths and offsets are \<open>u64\<close> and \<open>usize\<close> of 64 bits; as naturals, their encodings
  wrap at \<open>2 ^ 64\<close>, and a checked sum fails there.
\<close>

abbreviation put_nat :: "nat \<Rightarrow> bytes" where
  "put_nat n \<equiv> put (of_nat n)"

definition take_nat :: "bytes \<Rightarrow> nat \<Rightarrow> (nat \<times> nat) option" where
  "take_nat bs at = map_option (\<lambda>(v, at). (unat v, at)) (leb_take bs at)"

definition checked_add_u64 :: "nat \<Rightarrow> nat \<Rightarrow> nat option" where
  "checked_add_u64 a b = (if a + b < 2 ^ 64 then Some (a + b) else None)"

lemma unat_u64 [simp]: "n < 2 ^ 64 \<Longrightarrow> unat (of_nat n :: u64) = n"
  by (simp add: unat_of_nat)

lemma take_nat_holds: "holds_at bs a (put_nat n) \<Longrightarrow> n < 2 ^ 64 \<Longrightarrow> take_nat bs a = Some (n, a + length (put_nat n))"
  by (simp add: take_nat_def leb_take_holds)

end
