(* ===== verification/Segment_Format.thy ===== *)
theory Segment_Format
  imports Byte_Codec Doc_Set
begin

text \<open>
  The format of a segment file (\<open>ferret-index/src/segment/mod.rs\<close>): its constants, its sections in file
  order, the errors of a reader, and the chunks a section is checksummed by. BLAKE3 is a parameter.
\<close>

section \<open>Constants and sections\<close>

definition dictionary_codec :: nat where "dictionary_codec = 1"
definition fingerprint_codec :: nat where "fingerprint_codec = 2"
definition block_terms :: nat where "block_terms = 32"

definition segment_magic :: bytes where
  "segment_magic = [0x66, 0x65, 0x72, 0x72, 0x65, 0x74, 0x73, 0x67]"

definition segment_format_version :: u32 where "segment_format_version = 1"
definition postings_codec :: u32 where "postings_codec = 1"
definition chunk :: nat where "chunk = 4096"

datatype segment_section = SecBlocks | SecPostings | SecIndex | SecSums | SecFingerprints | SecFingerprintIndex

definition sections_of :: "nat \<Rightarrow> segment_section list option" where
  "sections_of codec_id =
     (if codec_id = dictionary_codec then Some [SecBlocks, SecPostings, SecIndex, SecSums]
      else if codec_id = fingerprint_codec then Some [SecBlocks, SecPostings, SecFingerprints, SecIndex, SecFingerprintIndex, SecSums]
      else None)"

definition fields_len :: nat where "fields_len = 64"
definition table_entry :: nat where "table_entry = 32"

definition head_len :: "nat \<Rightarrow> nat" where
  "head_len n = fields_len + n * table_entry + 16"

definition head_max :: nat where "head_max = head_len 6"

datatype read_error =
    ReCancelled | ReIo | ReNotASegment | ReHead | ReVersion u32 | ReCodec u32 u32 | ReLayout | ReCorrupt segment_section

text \<open>\<open>bytes.chunks(n)\<close>.\<close>

definition chunks_of :: "nat \<Rightarrow> bytes \<Rightarrow> bytes list" where
  "chunks_of n bs = map (\<lambda>i. take n (drop (i * n) bs)) [0..<div_ceil (length bs) n]"

definition chunk_sums :: "(bytes \<Rightarrow> bytes) \<Rightarrow> bytes \<Rightarrow> bytes" where
  "chunk_sums checksum bs = concat (map checksum (chunks_of chunk bs))"

definition chunk_count :: "nat \<Rightarrow> nat" where
  "chunk_count len = div_ceil len chunk"

end
