(* ===== verification/Cursor.thy ===== *)
theory Cursor
  imports Postings Segment_Format
begin

text \<open>
  The cursor algebra of a query (\<open>ferret-index/src/cursor.rs\<close>): a tree of
  bitmaps, postings, conjunctions, disjunctions and negations over document
  ids, each with a certainty, stepped by \<open>advance\<close>.

  The loops of \<open>advance\<close> run on fuel, and \<open>None\<close> is running out of it. Each
  iteration raises the target, so one unit for every document id below a bound
  of the documents, and one for every level of the tree, is enough.

  Results: every step keeps the contract of a cursor (\<open>advance_good\<close>): unless
  it was cancelled, it returns the least document from its target on of what
  the tree may still yield, in Kleene's logic, and drops nothing that may be asked for later.
  The contract has an exact reading, for trees that are \<open>exact\<close> under the way they are asked, and one for every
  tree, in which an answer may be weaker than it should be (\<open>blur\<close>): a postings cursor with fingerprint documents steps
  back below what it returned, and a negation from it that is tested, not driven, then gives an
  answer that is only possible.
\<close>

section \<open>Trees\<close>

record bits =
  bt_docs :: docset
  bt_certainty :: certainty
  bt_floor :: nat

datatype head = Fresh | At nat certainty | Exhausted

datatype 'p cursor =
    Postings "'p pcursor"
  | Bits bits
  | And "'p cursor list"
  | Or "'p cursor list" "head list"
  | AndNot "'p cursor" "'p probe"
  | Filter "'p cursor" "'p probe"
  | MaybeOf "'p cursor"
  | Empty
and 'p probe = Probe "'p cursor"

definition or_width :: nat where
  "or_width = 64"

definition or_density :: nat where
  "or_density = 32"

section \<open>Cancellation\<close>

record advance_state =
  av_remaining :: nat
  av_stopped :: bool
  av_calls :: nat

definition advance_new :: "nat \<Rightarrow> advance_state" where
  "advance_new calls = \<lparr>av_remaining = 0, av_stopped = False, av_calls = calls\<rparr>"

definition advance_step :: "(nat \<Rightarrow> bool) \<Rightarrow> advance_state \<Rightarrow> bool \<times> advance_state" where
  "advance_step cancelled a =
     (if av_stopped a then (True, a)
      else
        (let a = (if av_remaining a = 0
                  then a\<lparr>av_stopped := cancelled (av_calls a), av_remaining := 1024, av_calls := av_calls a + 1\<rparr>
                  else a);
             a = a\<lparr>av_remaining := av_remaining a - 1\<rparr>
         in (av_stopped a, a)))"

section \<open>Stepping\<close>

type_synonym ('p, 's) stepper = "'p cursor \<Rightarrow> nat \<Rightarrow> 's \<Rightarrow> (found \<times> 'p cursor \<times> 's) option"

definition bits_next_geq :: "('s \<Rightarrow> bool \<times> 's) \<Rightarrow> bits \<Rightarrow> nat \<Rightarrow> 's \<Rightarrow> found \<times> bits \<times> 's" where
  "bits_next_geq cp b target s =
     (case docset_next_geq_with cp (bt_docs b) (max target (bt_floor b)) s of
        (None, s) \<Rightarrow> (None, b, s)
      | (Some doc, s) \<Rightarrow> (Some (doc, bt_certainty b), b\<lparr>bt_floor := doc\<rparr>, s))"

definition test_with :: "('p, 's) stepper \<Rightarrow> 'p probe \<Rightarrow> nat \<Rightarrow> 's \<Rightarrow> (certainty option \<times> 'p probe \<times> 's) option" where
  "test_with adv p doc s =
     (case p of Probe c \<Rightarrow>
        (case adv c doc s of
           None \<Rightarrow> None
         | Some (None, c, s) \<Rightarrow> Some (None, Probe c, s)
         | Some (Some (at, certainty), c, s) \<Rightarrow> Some (if at = doc then Some certainty else None, Probe c, s)))"

fun and_not_loop ::
  "('p, 's) stepper \<Rightarrow> ('s \<Rightarrow> bool \<times> 's) \<Rightarrow> nat \<Rightarrow> 'p cursor \<Rightarrow> 'p probe \<Rightarrow> nat \<Rightarrow> 's
     \<Rightarrow> (found \<times> 'p cursor \<times> 'p probe \<times> 's) option"
where
  "and_not_loop adv cp 0 positive negated target s = None"
| "and_not_loop adv cp (Suc k) positive negated target s =
     (let (stop, s) = cp s in
      if stop then Some (None, positive, negated, s)
      else
        (case adv positive target s of
           None \<Rightarrow> None
         | Some (None, positive, s) \<Rightarrow> Some (None, positive, negated, s)
         | Some (Some (doc, certainty), positive, s) \<Rightarrow>
             (case test_with adv negated doc s of
                None \<Rightarrow> None
              | Some (None, negated, s) \<Rightarrow> Some (Some (doc, certainty), positive, negated, s)
              | Some (Some Maybe, negated, s) \<Rightarrow> Some (Some (doc, Maybe), positive, negated, s)
              | Some (Some Yes, negated, s) \<Rightarrow>
                  (case checked_add_u32 doc 1 of
                     None \<Rightarrow> Some (None, positive, negated, s)
                   | Some target \<Rightarrow> and_not_loop adv cp k positive negated target s))))"

fun filter_loop ::
  "('p, 's) stepper \<Rightarrow> ('s \<Rightarrow> bool \<times> 's) \<Rightarrow> nat \<Rightarrow> 'p cursor \<Rightarrow> 'p probe \<Rightarrow> nat \<Rightarrow> 's
     \<Rightarrow> (found \<times> 'p cursor \<times> 'p probe \<times> 's) option"
where
  "filter_loop adv cp 0 driver probe target s = None"
| "filter_loop adv cp (Suc k) driver probe target s =
     (let (stop, s) = cp s in
      if stop then Some (None, driver, probe, s)
      else
        (case adv driver target s of
           None \<Rightarrow> None
         | Some (None, driver, s) \<Rightarrow> Some (None, driver, probe, s)
         | Some (Some (doc, certainty), driver, s) \<Rightarrow>
             (case test_with adv probe doc s of
                None \<Rightarrow> None
              | Some (Some other, probe, s) \<Rightarrow> Some (Some (doc, min certainty other), driver, probe, s)
              | Some (None, probe, s) \<Rightarrow>
                  (case checked_add_u32 doc 1 of
                     None \<Rightarrow> Some (None, driver, probe, s)
                   | Some target \<Rightarrow> filter_loop adv cp k driver probe target s))))"

text \<open>
  The \<open>for\<close> loop of \<open>leapfrog\<close> over the children after the driver: it ends
  with the least certainty, with a child past the document, or with one that has no more.
\<close>

datatype landing = Landed certainty | Overshot nat | Gone

fun land ::
  "('p, 's) stepper \<Rightarrow> 'p cursor list \<Rightarrow> nat \<Rightarrow> certainty \<Rightarrow> 's \<Rightarrow> (landing \<times> 'p cursor list \<times> 's) option"
where
  "land adv [] doc certainty s = Some (Landed certainty, [], s)"
| "land adv (c # cs) doc certainty s =
     (case adv c doc s of
        None \<Rightarrow> None
      | Some (None, c, s) \<Rightarrow> Some (Gone, c # cs, s)
      | Some (Some (other, other_certainty), c, s) \<Rightarrow>
          if doc < other then Some (Overshot other, c # cs, s)
          else (case land adv cs doc (min certainty other_certainty) s of
                  None \<Rightarrow> None
                | Some (r, cs, s) \<Rightarrow> Some (r, c # cs, s)))"

fun leapfrog_loop ::
  "('p, 's) stepper \<Rightarrow> ('s \<Rightarrow> bool \<times> 's) \<Rightarrow> nat \<Rightarrow> 'p cursor \<Rightarrow> 'p cursor list \<Rightarrow> nat \<Rightarrow> 's
     \<Rightarrow> (found \<times> 'p cursor list \<times> 's) option"
where
  "leapfrog_loop adv cp 0 driver rest target s = None"
| "leapfrog_loop adv cp (Suc k) driver rest target s =
     (let (stop, s) = cp s in
      if stop then Some (None, driver # rest, s)
      else
        (case adv driver target s of
           None \<Rightarrow> None
         | Some (None, driver, s) \<Rightarrow> Some (None, driver # rest, s)
         | Some (Some (doc, certainty), driver, s) \<Rightarrow>
             (case land adv rest doc certainty s of
                None \<Rightarrow> None
              | Some (Landed certainty, rest, s) \<Rightarrow> Some (Some (doc, certainty), driver # rest, s)
              | Some (Overshot target, rest, s) \<Rightarrow> leapfrog_loop adv cp k driver rest target s
              | Some (Gone, rest, s) \<Rightarrow> Some (None, driver # rest, s))))"

definition leapfrog ::
  "('p, 's) stepper \<Rightarrow> ('s \<Rightarrow> bool \<times> 's) \<Rightarrow> nat \<Rightarrow> 'p cursor list \<Rightarrow> nat \<Rightarrow> 's
     \<Rightarrow> (found \<times> 'p cursor list \<times> 's) option"
where
  "leapfrog adv cp k children target s =
     (case children of
        [] \<Rightarrow> Some (None, [], s)
      | driver # rest \<Rightarrow> leapfrog_loop adv cp k driver rest target s)"

fun head_behind :: "head \<Rightarrow> nat \<Rightarrow> bool" where
  "head_behind Fresh target \<longleftrightarrow> True"
| "head_behind (At doc certainty) target \<longleftrightarrow> doc < target"
| "head_behind Exhausted target \<longleftrightarrow> False"

definition head_of :: "found \<Rightarrow> head" where
  "head_of r = (case r of None \<Rightarrow> Exhausted | Some (doc, certainty) \<Rightarrow> At doc certainty)"

definition better :: "found \<Rightarrow> head \<Rightarrow> found" where
  "better best head =
     (case head of
        At doc certainty \<Rightarrow>
          (case best of
             Some (low, other) \<Rightarrow>
               if low < doc then best
               else if doc = low then Some (low, max other certainty) else Some (doc, certainty)
           | None \<Rightarrow> Some (doc, certainty))
      | _ \<Rightarrow> best)"

fun or_scan ::
  "('p, 's) stepper \<Rightarrow> ('s \<Rightarrow> bool \<times> 's) \<Rightarrow> 'p cursor list \<Rightarrow> head list \<Rightarrow> nat \<Rightarrow> found \<Rightarrow> 's
     \<Rightarrow> (found \<times> 'p cursor list \<times> head list \<times> 's) option"
where
  "or_scan adv cp (c # cs) (h # hs) target best s =
     (let (stop, s) = cp s in
      if stop then Some (None, c # cs, h # hs, s)
      else
        (case (if head_behind h target
               then map_option (\<lambda>(r, c, s). (c, head_of r, s)) (adv c target s)
               else Some (c, h, s)) of
           None \<Rightarrow> None
         | Some (c, h, s) \<Rightarrow>
             (case or_scan adv cp cs hs target (better best h) s of
                None \<Rightarrow> None
              | Some (r, cs, hs, s) \<Rightarrow> Some (r, c # cs, h # hs, s))))"
| "or_scan adv cp cs hs target best s = Some (best, cs, hs, s)"

fun advance :: "'p intpack \<Rightarrow> ('s \<Rightarrow> bool \<times> 's) \<Rightarrow> nat \<Rightarrow> ('p, 's) stepper" where
  "advance ip cp 0 c target s = None"
| "advance ip cp (Suc n) c target s =
     (let (stop, s) = cp s in
      if stop then Some (None, c, s)
      else
        (case c of
           Postings pc \<Rightarrow>
             (let (r, pc, s) = pcursor_next_geq ip cp pc target s in Some (r, Postings pc, s))
         | Bits b \<Rightarrow> (let (r, b, s) = bits_next_geq cp b target s in Some (r, Bits b, s))
         | And cs \<Rightarrow>
             map_option (\<lambda>(r, cs, s). (r, And cs, s)) (leapfrog (advance ip cp n) cp n cs target s)
         | Or cs hs \<Rightarrow>
             map_option (\<lambda>(r, cs, hs, s). (r, Or cs hs, s)) (or_scan (advance ip cp n) cp cs hs target None s)
         | AndNot positive negated \<Rightarrow>
             map_option (\<lambda>(r, positive, negated, s). (r, AndNot positive negated, s))
               (and_not_loop (advance ip cp n) cp n positive negated target s)
         | Filter driver probe \<Rightarrow>
             map_option (\<lambda>(r, driver, probe, s). (r, Filter driver probe, s))
               (filter_loop (advance ip cp n) cp n driver probe target s)
         | MaybeOf child \<Rightarrow>
             map_option (\<lambda>(r, child, s). (map_option (\<lambda>(doc, certainty). (doc, Maybe)) r, MaybeOf child, s))
               (advance ip cp n child target s)
         | Empty \<Rightarrow> Some (None, Empty, s)))"

definition next_geq :: "'p intpack \<Rightarrow> nat \<Rightarrow> 'p cursor \<Rightarrow> nat \<Rightarrow> (found \<times> 'p cursor) option" where
  "next_geq ip n c target = map_option (\<lambda>(r, c, s). (r, c)) (advance ip no_checkpoint n c target ())"

definition next_geq_until ::
  "'p intpack \<Rightarrow> (nat \<Rightarrow> bool) \<Rightarrow> nat \<Rightarrow> 'p cursor \<Rightarrow> nat \<Rightarrow> advance_state
     \<Rightarrow> ((read_error + found) \<times> 'p cursor \<times> advance_state) option"
where
  "next_geq_until ip cancelled n c target a =
     map_option (\<lambda>(r, c, a). (if av_stopped a then Inl ReCancelled else Inr r, c, a))
       (advance ip (advance_step cancelled) n c target a)"

section \<open>The meaning of a tree\<close>

definition kleene_not :: "certainty option \<Rightarrow> certainty option" where
  "kleene_not x = (case x of None \<Rightarrow> Some Yes | Some Maybe \<Rightarrow> Some Maybe | Some Yes \<Rightarrow> None)"

definition all_of :: "docs list \<Rightarrow> docs" where
  "all_of ms d = foldr (\<lambda>m x. min (m d) x) ms (Some Yes)"

definition any_of :: "docs list \<Rightarrow> docs" where
  "any_of ms d = foldr (\<lambda>m x. max (m d) x) ms None"

definition and_of :: "docs list \<Rightarrow> docs" where
  "and_of ms = (if ms = [] then (\<lambda>d. None) else all_of ms)"

definition head_docs :: "head \<Rightarrow> docs \<Rightarrow> docs" where
  "head_docs h m d =
     (case h of
        Fresh \<Rightarrow> m d
      | At doc x \<Rightarrow> if d = doc then Some x else if doc < d then m d else None
      | Exhausted \<Rightarrow> None)"

definition bits_docs :: "bits \<Rightarrow> docs" where
  "bits_docs b d = (if d \<in> members (bt_docs b) then Some (bt_certainty b) else None)"

text \<open>What the tree stands for, whatever its position.\<close>

primrec meaning :: "'p intpack \<Rightarrow> 'p cursor \<Rightarrow> docs"
  and probe_meaning :: "'p intpack \<Rightarrow> 'p probe \<Rightarrow> docs"
where
  "meaning ip (Postings pc) = parts_left ip (pc_parts pc) None"
| "meaning ip (Bits b) = bits_docs b"
| "meaning ip (And cs) = and_of (map (meaning ip) cs)"
| "meaning ip (Or cs hs) = any_of (map (meaning ip) cs)"
| "meaning ip (AndNot c p) = (\<lambda>d. min (meaning ip c d) (kleene_not (probe_meaning ip p d)))"
| "meaning ip (Filter c p) = (\<lambda>d. min (meaning ip c d) (probe_meaning ip p d))"
| "meaning ip (MaybeOf c) = (\<lambda>d. min (meaning ip c d) (Some Maybe))"
| "meaning ip Empty = (\<lambda>d. None)"
| "probe_meaning ip (Probe c) = meaning ip c"

text \<open>What it may still yield where it stands.\<close>

primrec left :: "'p intpack \<Rightarrow> 'p cursor \<Rightarrow> docs"
  and probe_left :: "'p intpack \<Rightarrow> 'p probe \<Rightarrow> docs"
where
  "left ip (Postings pc) = pcursor_left ip pc"
| "left ip (Bits b) = (\<lambda>d. if bt_floor b \<le> d then bits_docs b d else None)"
| "left ip (And cs) = and_of (map (left ip) cs)"
| "left ip (Or cs hs) = any_of (map2 head_docs hs (map (left ip) cs))"
| "left ip (AndNot c p) = (\<lambda>d. min (left ip c d) (kleene_not (probe_left ip p d)))"
| "left ip (Filter c p) = (\<lambda>d. min (left ip c d) (probe_left ip p d))"
| "left ip (MaybeOf c) = (\<lambda>d. min (left ip c d) (Some Maybe))"
| "left ip Empty = (\<lambda>d. None)"
| "probe_left ip (Probe c) = left ip c"

text \<open>Whether a tree never steps back below a document it has returned.\<close>

primrec steady :: "'p cursor \<Rightarrow> bool" and steady_probe :: "'p probe \<Rightarrow> bool" where
  "steady (Postings pc) \<longleftrightarrow> no_fingerprints pc"
| "steady (Bits b) \<longleftrightarrow> True"
| "steady (And cs) \<longleftrightarrow> list_ex id (map steady cs)"
| "steady (Or cs hs) \<longleftrightarrow> True"
| "steady (AndNot c p) \<longleftrightarrow> steady c"
| "steady (Filter c p) \<longleftrightarrow> steady c \<or> steady_probe p"
| "steady (MaybeOf c) \<longleftrightarrow> steady c"
| "steady Empty \<longleftrightarrow> True"
| "steady_probe (Probe c) \<longleftrightarrow> steady c"

text \<open>
  Whether a tree gives exact answers. \<open>driven\<close> is how it is asked: always at or past the document it
  returned last, as a query drives its top cursor and a union its children; a probe is asked for lower
  documents too. A negation that is not driven has to be from a steady cursor: its own loop runs ahead of what
  it is asked, and the negated side does not come back with the positive one.
\<close>

primrec exact :: "'p cursor \<Rightarrow> bool \<Rightarrow> bool" and exact_probe :: "'p probe \<Rightarrow> bool" where
  "exact (Postings pc) driven \<longleftrightarrow> True"
| "exact (Bits b) driven \<longleftrightarrow> True"
| "exact (And cs) driven \<longleftrightarrow> list_all (\<lambda>ok. ok driven) (map exact cs)"
| "exact (Or cs hs) driven \<longleftrightarrow> list_all (\<lambda>ok. ok True) (map exact cs)"
| "exact (AndNot c p) driven \<longleftrightarrow> exact c driven \<and> exact_probe p \<and> (driven \<or> steady c)"
| "exact (Filter c p) driven \<longleftrightarrow> exact c driven \<and> exact_probe p"
| "exact (MaybeOf c) driven \<longleftrightarrow> exact c driven"
| "exact Empty driven \<longleftrightarrow> True"
| "exact_probe (Probe c) \<longleftrightarrow> exact c False"

text \<open>Whether no part of any term has both an inlined document and fingerprint documents.\<close>

primrec apart :: "'p cursor \<Rightarrow> bool" and apart_probe :: "'p probe \<Rightarrow> bool" where
  "apart (Postings pc) \<longleftrightarrow> list_all part_apart (pc_parts pc)"
| "apart (Bits b) \<longleftrightarrow> True"
| "apart (And cs) \<longleftrightarrow> list_all id (map apart cs)"
| "apart (Or cs hs) \<longleftrightarrow> list_all id (map apart cs)"
| "apart (AndNot c p) \<longleftrightarrow> apart c \<and> apart_probe p"
| "apart (Filter c p) \<longleftrightarrow> apart c \<and> apart_probe p"
| "apart (MaybeOf c) \<longleftrightarrow> apart c"
| "apart Empty \<longleftrightarrow> True"
| "apart_probe (Probe c) \<longleftrightarrow> apart c"

primrec depth :: "'p cursor \<Rightarrow> nat" and probe_depth :: "'p probe \<Rightarrow> nat" where
  "depth (Postings pc) = 0"
| "depth (Bits b) = 0"
| "depth (And cs) = Suc (foldr max (map depth cs) 0)"
| "depth (Or cs hs) = Suc (foldr max (map depth cs) 0)"
| "depth (AndNot c p) = Suc (max (depth c) (probe_depth p))"
| "depth (Filter c p) = Suc (max (depth c) (probe_depth p))"
| "depth (MaybeOf c) = Suc (depth c)"
| "depth Empty = 0"
| "probe_depth (Probe c) = depth c"

definition wf_head :: "nat \<Rightarrow> head \<Rightarrow> bool" where
  "wf_head B h \<longleftrightarrow> (case h of At d x \<Rightarrow> d < B | _ \<Rightarrow> True)"

text \<open>Well-formed trees over documents below \<open>B\<close>.\<close>

primrec wf_cursor :: "'p intpack \<Rightarrow> nat \<Rightarrow> 'p cursor \<Rightarrow> bool"
  and wf_probe :: "'p intpack \<Rightarrow> nat \<Rightarrow> 'p probe \<Rightarrow> bool"
where
  "wf_cursor ip B (Postings pc) \<longleftrightarrow> wf_pcursor ip pc \<and> (\<forall>d. pcursor_left ip pc d \<noteq> None \<longrightarrow> d < B)"
| "wf_cursor ip B (Bits b) \<longleftrightarrow> wf_docset (bt_docs b) \<and> (\<forall>d\<in>members (bt_docs b). d < B)"
| "wf_cursor ip B (And cs) \<longleftrightarrow> list_all id (map (wf_cursor ip B) cs)"
| "wf_cursor ip B (Or cs hs) \<longleftrightarrow>
     list_all id (map (wf_cursor ip B) cs) \<and> length hs = length cs \<and> list_all (wf_head B) hs"
| "wf_cursor ip B (AndNot c p) \<longleftrightarrow> wf_cursor ip B c \<and> wf_probe ip B p"
| "wf_cursor ip B (Filter c p) \<longleftrightarrow> wf_cursor ip B c \<and> wf_probe ip B p"
| "wf_cursor ip B (MaybeOf c) \<longleftrightarrow> wf_cursor ip B c"
| "wf_cursor ip B Empty \<longleftrightarrow> True"
| "wf_probe ip B (Probe c) \<longleftrightarrow> wf_cursor ip B c"

text \<open>The shape that no step changes.\<close>

definition shape :: "'p cursor \<Rightarrow> nat \<times> bool \<times> (bool \<Rightarrow> bool) \<times> bool" where
  "shape c = (depth c, steady c, exact c, apart c)"

definition probe_shape :: "'p probe \<Rightarrow> nat \<times> bool \<times> bool \<times> bool" where
  "probe_shape p = (probe_depth p, steady_probe p, exact_probe p, apart_probe p)"

definition same_frame :: "'p intpack \<Rightarrow> nat \<Rightarrow> 'p cursor \<Rightarrow> 'p cursor \<Rightarrow> bool" where
  "same_frame ip B c c' \<longleftrightarrow> wf_cursor ip B c' \<and> shape c' = shape c"

lemma shape_simps [simp]:
  "shape c' = shape c \<longleftrightarrow> depth c' = depth c \<and> steady c' = steady c \<and> exact c' = exact c \<and> apart c' = apart c"
  "probe_shape p' = probe_shape p \<longleftrightarrow>
     probe_depth p' = probe_depth p \<and> steady_probe p' = steady_probe p \<and> exact_probe p' = exact_probe p \<and> apart_probe p' = apart_probe p"
  by (simp_all add: shape_def probe_shape_def)

section \<open>How far an answer may be off\<close>

text \<open>
  The contract of a step has two readings. In the exact one (\<open>e\<close> false) answers are those of the tree. In the
  other, an answer may also be Maybe, whatever it should be: a document is not lost, and none is called certain
  that is not. The connectives of Kleene's logic keep both.
\<close>

definition blur :: "bool \<Rightarrow> certainty option \<Rightarrow> certainty option \<Rightarrow> bool" where
  "blur e a b \<longleftrightarrow> b = a \<or> e \<and> b = Some Maybe"

definition lower :: "bool \<Rightarrow> certainty option \<Rightarrow> certainty option \<Rightarrow> bool" where
  "lower e a b \<longleftrightarrow> b \<le> a \<or> e \<and> b = Some Maybe"

definition finds :: "bool \<Rightarrow> docs \<Rightarrow> nat \<Rightarrow> found \<Rightarrow> bool" where
  "finds e m t r \<longleftrightarrow>
     (case r of None \<Rightarrow> \<forall>d\<ge>t. m d = None
      | Some (d, x) \<Rightarrow> t \<le> d \<and> blur e (m d) (Some x) \<and> (\<forall>y. t \<le> y \<and> y < d \<longrightarrow> m y = None))"

text \<open>
  What a step to \<open>t\<close> that returned \<open>u\<close> keeps: when the cursor is driven, everything from \<open>u\<close> on, otherwise
  everything from \<open>t\<close> on.
\<close>

definition keeps :: "bool \<Rightarrow> bool \<Rightarrow> docs \<Rightarrow> nat \<Rightarrow> nat option \<Rightarrow> docs \<Rightarrow> bool" where
  "keeps e driven m t u m' \<longleftrightarrow>
     (if driven then \<forall>d. u = Some d \<longrightarrow> (\<forall>y\<ge>d. blur e (m y) (m' y))
      else (\<forall>y\<ge>t. blur e (m y) (m' y)) \<and> (\<forall>y. lower e (m y) (m' y)))"

text \<open>After returning a document, nothing is left below it.\<close>

definition rests :: "bool \<Rightarrow> docs \<Rightarrow> nat \<Rightarrow> bool" where
  "rests e m d \<longleftrightarrow> (\<forall>y<d. blur e None (m y))"

definition rests_on :: "bool \<Rightarrow> docs \<Rightarrow> found \<Rightarrow> bool" where
  "rests_on e m r \<longleftrightarrow> (case r of None \<Rightarrow> True | Some (d, x) \<Rightarrow> rests e m d)"

definition fits :: "bool \<Rightarrow> bool \<Rightarrow> 'p cursor \<Rightarrow> bool" where
  "fits e driven c \<longleftrightarrow> (if e then apart c else exact c driven)"

definition fits_probe :: "bool \<Rightarrow> 'p probe \<Rightarrow> bool" where
  "fits_probe e p \<longleftrightarrow> (if e then apart_probe p else exact_probe p)"

lemma fits_simps [simp]:
  "fits e dr (And cs) \<longleftrightarrow> list_all (fits e dr) cs" "fits e dr (Or cs hs) \<longleftrightarrow> list_all (fits e True) cs"
  "fits e dr (AndNot c p) \<longleftrightarrow> fits e dr c \<and> fits_probe e p \<and> (e \<or> dr \<or> steady c)"
  "fits e dr (Filter c p) \<longleftrightarrow> fits e dr c \<and> fits_probe e p" "fits e dr (MaybeOf c) \<longleftrightarrow> fits e dr c"
  "fits e dr (Bits b)" "fits e dr Empty" "fits_probe e (Probe c) \<longleftrightarrow> fits e False c"
  by (auto simp: fits_def fits_probe_def list_all_iff)

lemma same_frameD:
  assumes "same_frame ip B c c'"
  shows "wf_cursor ip B c'" "depth c' = depth c" "steady c' = steady c" "fits e dr c' = fits e dr c"
  using assms by (simp_all add: same_frame_def fits_def)

text \<open>
  The outcome of one step from \<open>c\<close> to a target: it has one; a document it
  returns is in range; and unless the step was cancelled, the contract of a cursor.
\<close>

definition stepped ::
  "bool \<Rightarrow> bool \<Rightarrow> 'p intpack \<Rightarrow> nat \<Rightarrow> ('s \<Rightarrow> bool) \<Rightarrow> 'p cursor \<Rightarrow> nat \<Rightarrow> 's \<Rightarrow> (found \<times> 'p cursor \<times> 's) option \<Rightarrow> bool"
where
  "stepped e dr ip B stopped c t s res \<longleftrightarrow>
     (\<exists>r c' s'. res = Some (r, c', s') \<and> same_frame ip B c c' \<and> (stopped s \<longrightarrow> stopped s') \<and>
        (\<forall>d x. r = Some (d, x) \<longrightarrow> t \<le> d \<and> d < B) \<and>
        (\<not> stopped s' \<longrightarrow>
           finds e (left ip c) t r \<and> keeps e dr (left ip c) t (map_option fst r) (left ip c') \<and>
           (e \<or> steady c \<longrightarrow> rests_on e (left ip c') r)))"

definition good_stepper :: "bool \<Rightarrow> 'p intpack \<Rightarrow> nat \<Rightarrow> ('s \<Rightarrow> bool) \<Rightarrow> nat \<Rightarrow> ('p, 's) stepper \<Rightarrow> bool" where
  "good_stepper e ip B stopped n adv \<longleftrightarrow>
     (\<forall>dr c t s. wf_cursor ip B c \<and> fits e dr c \<and> depth c < n \<longrightarrow> stepped e dr ip B stopped c t s (adv c t s))"

lemma good_stepperE:
  assumes "good_stepper e ip B stopped n adv" "wf_cursor ip B c" "fits e dr c" "depth c < n"
  obtains r c' s' where "adv c t s = Some (r, c', s')" "same_frame ip B c c'" "stopped s \<longrightarrow> stopped s'"
    "\<And>d x. r = Some (d, x) \<Longrightarrow> t \<le> d \<and> d < B"
    "\<not> stopped s' \<Longrightarrow> finds e (left ip c) t r \<and>
       keeps e dr (left ip c) t (map_option fst r) (left ip c') \<and> (e \<or> steady c \<longrightarrow> rests_on e (left ip c') r)"
proof -
  from assms have "stepped e dr ip B stopped c t s (adv c t s)" by (simp add: good_stepper_def)
  then show thesis by (auto simp: stepped_def intro: that)
qed

section \<open>Composing steps\<close>

lemma option_min_None [simp]: "min None x = None" "min x None = (None :: 'a :: linorder option)"
  by (cases x; simp add: min_def)+

lemma option_min_Some [simp]: "min (Some a) (Some b) = Some (min a b :: 'a :: linorder)"
  by (simp add: min_def)

lemma option_max_Some [simp]: "max (Some a) (Some b) = Some (max a b :: 'a :: linorder)"
  by (simp add: max_def)

lemma min_eq_None: "min a b = None \<longleftrightarrow> a = None \<or> b = (None :: 'a :: linorder option)"
  by (cases a; cases b) (auto simp: min_def)

definition without :: "certainty option \<Rightarrow> certainty option \<Rightarrow> certainty option" where
  "without a b = min a (kleene_not b)"

lemma without_simps [simp]:
  "without None b = None" "without a None = a" "without (Some x) (Some Maybe) = Some Maybe" "without a (Some Yes) = None"
  by (cases a; simp add: without_def kleene_not_def)+

lemma certainty_cases: obtains "x = None" | "x = Some Maybe" | "x = Some Yes"
  by (metis certainty.exhaust option.exhaust)

lemma blur_simps [simp]: "blur e a a" "blur False a b \<longleftrightarrow> b = a" "blur e a None \<longleftrightarrow> a = None" "blur True a (Some Maybe)"
  by (auto simp: blur_def)

lemma blur_trans: "blur e a b \<Longrightarrow> blur e b c \<Longrightarrow> blur e a c"
  by (auto simp: blur_def)

lemma blur_lower: "blur e a b \<Longrightarrow> lower e a b"
  by (auto simp: blur_def lower_def)

lemma lower_simps [simp]: "lower e a a" "lower e a None" "lower False a b \<longleftrightarrow> b \<le> a" "lower e None b \<longleftrightarrow> blur e None b"
  by (auto simp: lower_def blur_def)

lemma lower_trans: "lower e a b \<Longrightarrow> lower e b c \<Longrightarrow> lower e a c"
  by (cases c rule: certainty_cases; cases b rule: certainty_cases; cases a rule: certainty_cases) (auto simp: lower_def)

lemma blur_min: "blur e a a' \<Longrightarrow> blur e b b' \<Longrightarrow> blur e (min a b) (min a' b')"
  by (cases a' rule: certainty_cases; cases b' rule: certainty_cases; cases a rule: certainty_cases; cases b rule: certainty_cases)
    (auto simp: blur_def)

lemma blur_without: "blur e a a' \<Longrightarrow> blur e b b' \<Longrightarrow> blur e (without a b) (without a' b')"
  by (cases a' rule: certainty_cases; cases b' rule: certainty_cases; cases a rule: certainty_cases; cases b rule: certainty_cases)
    (auto simp: blur_def)

lemma blur_max: "blur e a a' \<Longrightarrow> blur e b b' \<Longrightarrow> blur e (max a b) (max a' b')"
  by (cases a' rule: certainty_cases; cases b' rule: certainty_cases; cases a rule: certainty_cases; cases b rule: certainty_cases)
    (auto simp: blur_def)

lemma lower_min: "lower e a a' \<Longrightarrow> lower e b b' \<Longrightarrow> lower e (min a b) (min a' b')"
  by (cases a' rule: certainty_cases; cases b' rule: certainty_cases; cases a rule: certainty_cases; cases b rule: certainty_cases)
    (auto simp: lower_def blur_def)

lemma lower_max: "lower e a a' \<Longrightarrow> lower e b b' \<Longrightarrow> lower e (max a b) (max a' b')"
  by (cases a' rule: certainty_cases; cases b' rule: certainty_cases; cases a rule: certainty_cases; cases b rule: certainty_cases)
    (auto simp: lower_def blur_def)

lemma blur_None_min: "blur e None a \<Longrightarrow> blur e None (min a b)"
  by (cases b rule: certainty_cases) (auto simp: blur_def)

lemma finds_simps [simp]:
  "finds e m t None \<longleftrightarrow> (\<forall>d\<ge>t. m d = None)"
  "finds e m t (Some (d, x)) \<longleftrightarrow> t \<le> d \<and> blur e (m d) (Some x) \<and> (\<forall>y. t \<le> y \<and> y < d \<longrightarrow> m y = None)"
  by (simp_all add: finds_def)

lemma finds_exact: "finds False m t r \<longleftrightarrow> least_from m t r"
  by (auto simp: finds_def least_from_def split: option.splits)

lemma rests_on_simps [simp]: "rests_on e m None" "rests_on e m (Some (d, x)) \<longleftrightarrow> rests e m d"
  by (simp_all add: rests_on_def)

lemma keeps_refl [simp]: "keeps e dr m t u m"
  by (simp add: keeps_def)

lemma keeps_driven [simp]: "keeps e True m t None m'"
  by (simp add: keeps_def)

lemma keeps_weaken: "keeps e False m t u m' \<Longrightarrow> (\<And>d. u = Some d \<Longrightarrow> t \<le> d) \<Longrightarrow> keeps e dr m t u m'"
  by (auto simp: keeps_def)

lemma keeps_blur: "keeps e dr m t (Some d) m' \<Longrightarrow> t \<le> d \<Longrightarrow> d \<le> y \<Longrightarrow> blur e (m y) (m' y)"
  by (auto simp: keeps_def split: if_splits)

text \<open>A loop that found nothing in \<open>[t, t')\<close> and goes on from \<open>t'\<close>.\<close>

lemma skip_to:
  assumes "keeps e dr m t (Some t') m'" "\<And>y. t \<le> y \<Longrightarrow> y < t' \<Longrightarrow> m y = None" "t \<le> t'"
    "finds e m' t' r" "keeps e dr m' t' (map_option fst r) m''"
  shows "finds e m t r" "keeps e dr m t (map_option fst r) m''"
proof -
  have eq: "blur e (m y) (m' y)" if "t' \<le> y" for y using keeps_blur [OF assms(1,3) that] .
  show "finds e m t r"
  proof (cases r)
    case None
    have "m y = None" if "t \<le> y" for y
      using assms(2,4) eq [of y] that None by (cases "t' \<le> y") auto
    with None show ?thesis by simp
  next
    case (Some dx)
    obtain d x where r: "r = Some (d, x)" using Some by (cases dx) auto
    have "m y = None" if "t \<le> y" "y < d" for y
      using assms(2,4) eq [of y] that r by (cases "t' \<le> y") auto
    with assms(3,4) eq [of d] r show ?thesis by (auto intro: blur_trans)
  qed
  show "keeps e dr m t (map_option fst r) m''"
  proof (cases dr)
    case True
    have "blur e (m y) (m'' y)" if "r = Some (d, x)" "d \<le> y" for d x y
      using assms(4,5) eq [of y] that True by (auto simp: keeps_def intro: blur_trans)
    with True show ?thesis by (auto simp: keeps_def)
  next
    case False
    then have step: "\<And>y. t \<le> y \<Longrightarrow> blur e (m y) (m' y)" "\<And>y. lower e (m y) (m' y)"
      "\<And>y. t' \<le> y \<Longrightarrow> blur e (m' y) (m'' y)" "\<And>y. lower e (m' y) (m'' y)"
      using assms(1,5) by (auto simp: keeps_def)
    have "blur e (m y) (m'' y)" if "t \<le> y" for y
    proof (cases "t' \<le> y")
      case True
      with step(1,3) that show ?thesis by (blast intro: blur_trans)
    next
      case False
      with assms(2) that have "m y = None" by simp
      with lower_trans [OF step(2,4), of y] show ?thesis by simp
    qed
    moreover have "lower e (m y) (m'' y)" for y by (rule lower_trans [OF step(2,4)])
    ultimately show ?thesis using False by (simp add: keeps_def)
  qed
qed

text \<open>The second of a pair stepped to the document the first returned.\<close>

lemma keeps_then:
  assumes "finds e a t (Some (doc, x))" "keeps e dr a t (Some doc) a'" "keeps e dr b doc u b'" "\<And>d. u = Some d \<Longrightarrow> doc \<le> d"
  shows "keeps e dr (\<lambda>d. min (a d) (b d)) t u (\<lambda>d. min (a' d) (b' d))"
proof (cases dr)
  case True
  with assms show ?thesis by (auto simp: keeps_def intro: blur_min)
next
  case False
  then have a: "\<And>y. t \<le> y \<Longrightarrow> blur e (a y) (a' y)" "\<And>y. lower e (a y) (a' y)"
    and b: "\<And>y. doc \<le> y \<Longrightarrow> blur e (b y) (b' y)" "\<And>y. lower e (b y) (b' y)"
    using assms(2,3) by (auto simp: keeps_def)
  have "blur e (min (a y) (b y)) (min (a' y) (b' y))" if "t \<le> y" for y
  proof (cases "doc \<le> y")
    case False
    with assms(1) that have "a y = None" by simp
    with a(1) [OF that] show ?thesis by (simp add: blur_None_min)
  qed (use a b that in \<open>auto intro: blur_min\<close>)
  with False a b show ?thesis by (auto simp: keeps_def intro: lower_min)
qed

lemma keeps_not:
  assumes "finds e a t (Some (doc, x))" "keeps e dr a t (Some doc) a'" "dr \<or> rests e a' doc" "keeps e False b doc (Some doc) b'"
  shows "keeps e dr (\<lambda>d. without (a d) (b d)) t (Some doc) (\<lambda>d. without (a' d) (b' d))"
proof -
  have b: "blur e (b y) (b' y)" if "doc \<le> y" for y using assms(4) that by (simp add: keeps_def)
  show ?thesis
  proof (cases dr)
    case True
    with assms b show ?thesis by (auto simp: keeps_def intro: blur_without)
  next
    case False
    then have a: "\<And>y. t \<le> y \<Longrightarrow> blur e (a y) (a' y)" and low: "\<And>y. y < doc \<Longrightarrow> blur e None (a' y)"
      using assms(2,3) by (auto simp: keeps_def rests_def)
    have below: "blur e None (without (a' y) (b' y))" if "y < doc" for y
      using low [OF that] unfolding without_def by (rule blur_None_min)
    have "blur e (without (a y) (b y)) (without (a' y) (b' y))" if "t \<le> y" for y
    proof (cases "doc \<le> y")
      case False
      with assms(1) that have "a y = None" by simp
      with below False show ?thesis by simp
    qed (use a b that in \<open>auto intro: blur_without\<close>)
    moreover have "lower e (without (a y) (b y)) (without (a' y) (b' y))" for y
    proof (cases "doc \<le> y")
      case True
      with calculation assms(1) show ?thesis by (auto intro: blur_lower)
    next
      case False
      with below [of y] have "lower e None (without (a' y) (b' y))" by simp
      then show ?thesis by (rule lower_trans [rotated]) simp
    qed
    ultimately show ?thesis using False by (auto simp: keeps_def)
  qed
qed

lemma same_frame_trans: "same_frame ip B c c' \<Longrightarrow> same_frame ip B c' c'' \<Longrightarrow> same_frame ip B c c''"
  by (simp add: same_frame_def)

lemma checked_add_below:
  assumes "B \<le> 2 ^ 32" "doc < B"
  shows "checked_add_u32 doc 1 = (if doc + 1 < 2 ^ 32 then Some (doc + 1) else None)"
    "checked_add_u32 doc 1 = None \<Longrightarrow> B \<le> doc + 1"
  using assms by (auto simp: checked_add_u32_def split: if_splits)

lemma all_of_simps [simp]: "all_of [] = (\<lambda>d. Some Yes)" "all_of (m # ms) = (\<lambda>d. min (m d) (all_of ms d))"
  by (simp_all add: all_of_def fun_eq_iff)

lemma any_of_simps [simp]: "any_of [] = (\<lambda>d. None)" "any_of (m # ms) = (\<lambda>d. max (m d) (any_of ms d))"
  by (simp_all add: any_of_def fun_eq_iff)

lemma and_of_simps [simp]: "and_of [] = (\<lambda>d. None)" "and_of (m # ms) = (\<lambda>d. min (m d) (all_of ms d))"
  by (simp_all add: and_of_def fun_eq_iff)

lemma any_of_None: "any_of ms d = None \<longleftrightarrow> (\<forall>m\<in>set ms. m d = None)"
  by (induction ms) (auto simp: max_def less_eq_option_None_is_None)

lemma left_below: "wf_cursor ip B c \<Longrightarrow> left ip c d \<noteq> None \<Longrightarrow> d < B"
  and probe_left_below: "wf_probe ip B p \<Longrightarrow> probe_left ip p d \<noteq> None \<Longrightarrow> d < B"
proof (induction c and p rule: cursor.induct probe.induct)
  case (And cs)
  then show ?case by (cases cs) (auto simp: min_eq_None)
next
  case (Or cs hs)
  from Or.prems(2) obtain h m where hm: "(h, m) \<in> set (zip hs (map (left ip) cs))" "head_docs h m d \<noteq> None"
    by (auto simp: any_of_None)
  from set_zip_leftD [OF hm(1)] set_zip_rightD [OF hm(1)] obtain c where "c \<in> set cs" "m = left ip c" "h \<in> set hs" by auto
  with Or hm(2) show ?case by (auto simp: list_all_iff head_docs_def wf_head_def split: head.splits if_splits)
qed (auto simp: bits_docs_def min_eq_None split: if_splits)

lemma steppedI:
  assumes "res = Some (r, c', s')" "same_frame ip B c c'" "stopped s \<longrightarrow> stopped s'"
    "\<And>d x. r = Some (d, x) \<Longrightarrow> t \<le> d \<and> d < B"
    "\<not> stopped s' \<Longrightarrow> finds e (left ip c) t r"
    "\<not> stopped s' \<Longrightarrow> keeps e dr (left ip c) t (map_option fst r) (left ip c')"
    "\<not> stopped s' \<Longrightarrow> e \<or> steady c \<Longrightarrow> rests_on e (left ip c') r"
  shows "stepped e dr ip B stopped c t s res"
  using assms unfolding stepped_def by blast

lemma stepped_weaken:
  assumes "stepped e False ip B stopped c t s res"
  shows "stepped e dr ip B stopped c t s res"
  using assms keeps_weaken unfolding stepped_def by fastforce

lemma stepped_cancelled:
  assumes "res = Some (None, c, s')" "wf_cursor ip B c" "stopped s'"
  shows "stepped e dr ip B stopped c t s res"
  using assms by (intro steppedI) (auto simp: same_frame_def)

lemma stepped_nothing:
  assumes "res = Some (None, c, s)" "wf_cursor ip B c" "left ip c = (\<lambda>d. None)"
  shows "stepped e dr ip B stopped c t s res"
  using assms(1) by (rule steppedI) (simp_all add: assms(2,3) same_frame_def)

lemma stepped_skip:
  assumes "stepped e dr ip B stopped c' t' s' res" "same_frame ip B c c'" "stopped s \<longrightarrow> stopped s'" "t \<le> t'"
    "\<not> stopped s' \<Longrightarrow> keeps e dr (left ip c) t (Some t') (left ip c') \<and> (\<forall>y. t \<le> y \<and> y < t' \<longrightarrow> left ip c y = None)"
  shows "stepped e dr ip B stopped c t s res"
proof -
  from assms(1) obtain r c'' s'' where res: "res = Some (r, c'', s'')" and frame: "same_frame ip B c' c''"
    and stop: "stopped s' \<longrightarrow> stopped s''" and range: "\<And>d x. r = Some (d, x) \<Longrightarrow> t' \<le> d \<and> d < B"
    and ok: "\<not> stopped s'' \<Longrightarrow> finds e (left ip c') t' r \<and>
       keeps e dr (left ip c') t' (map_option fst r) (left ip c'') \<and> (e \<or> steady c' \<longrightarrow> rests_on e (left ip c'') r)"
    unfolding stepped_def by blast
  show ?thesis
  proof (rule steppedI [OF res])
    show "same_frame ip B c c''" using assms(2) frame by (rule same_frame_trans)
    show "stopped s \<longrightarrow> stopped s''" using assms(3) stop by blast
    show "t \<le> d \<and> d < B" if "r = Some (d, x)" for d x using range [OF that] assms(4) by simp
    assume *: "\<not> stopped s''"
    with stop assms(5) have here: "keeps e dr (left ip c) t (Some t') (left ip c')"
      "\<And>y. t \<le> y \<Longrightarrow> y < t' \<Longrightarrow> left ip c y = None" by blast+
    note there = ok [OF *]
    show "finds e (left ip c) t r" "keeps e dr (left ip c) t (map_option fst r) (left ip c'')"
      using skip_to [OF here assms(4)] there by blast+
    show "rests_on e (left ip c'') r" if "e \<or> steady c" using there that same_frameD(3) [OF assms(2)] by blast
  qed
qed

lemma test_with_ok:
  assumes "good_stepper e ip B stopped n adv" "wf_probe ip B p" "fits_probe e p" "probe_depth p < n"
  obtains ans p' s' where "test_with adv p doc s = Some (ans, p', s')"
    "wf_probe ip B p'" "probe_shape p' = probe_shape p" "stopped s \<longrightarrow> stopped s'"
    "\<not> stopped s' \<Longrightarrow> blur e (probe_left ip p doc) ans \<and>
       keeps e False (probe_left ip p) doc (Some doc) (probe_left ip p') \<and>
       (steady_probe p \<longrightarrow> ans \<noteq> None \<longrightarrow> rests e (probe_left ip p') doc)"
proof -
  obtain c where p: "p = Probe c" by (cases p)
  from assms p have wf: "wf_cursor ip B c" "fits e False c" "depth c < n" by simp_all
  obtain r c' s' where step: "adv c doc s = Some (r, c', s')" "same_frame ip B c c'" "stopped s \<longrightarrow> stopped s'"
    "\<not> stopped s' \<Longrightarrow> finds e (left ip c) doc r \<and>
       keeps e False (left ip c) doc (map_option fst r) (left ip c') \<and> (e \<or> steady c \<longrightarrow> rests_on e (left ip c') r)"
    by (rule good_stepperE [OF assms(1) wf, of doc s]) blast
  define ans where "ans = (case r of Some (at, x) \<Rightarrow> if at = doc then Some x else None | None \<Rightarrow> None)"
  have test: "test_with adv p doc s = Some (ans, Probe c', s')"
    using step(1) by (auto simp: test_with_def p ans_def split: option.splits)
  have ans: "blur e (left ip c doc) ans" if "finds e (left ip c) doc r"
    using that by (cases r) (auto simp: ans_def)
  have rests: "rests e m doc" if "rests_on e m r" "ans \<noteq> None" for m
    using that by (auto simp: ans_def split: option.splits if_splits)
  show thesis
  proof (rule that [OF test])
    show "blur e (probe_left ip p doc) ans \<and> keeps e False (probe_left ip p) doc (Some doc) (probe_left ip (Probe c')) \<and>
       (steady_probe p \<longrightarrow> ans \<noteq> None \<longrightarrow> rests e (probe_left ip (Probe c')) doc)" if "\<not> stopped s'"
      using step(4) [OF that] ans rests unfolding p by (simp add: keeps_def)
  qed (use step(2,3) p in \<open>simp_all add: same_frame_def\<close>)
qed

section \<open>A cursor with a probe\<close>

text \<open>
  \<open>AndNot\<close> and \<open>Filter\<close> run one loop: step the cursor, test its document, and
  return it or go on after it. \<open>pair_loop\<close> is that loop for any way to
  combine the two answers, and \<open>probed\<close> what its proof needs of the combination.
\<close>

fun pair_loop ::
  "(certainty option \<Rightarrow> certainty option \<Rightarrow> certainty option) \<Rightarrow> ('p, 's) stepper \<Rightarrow> ('s \<Rightarrow> bool \<times> 's) \<Rightarrow> nat
     \<Rightarrow> 'p cursor \<Rightarrow> 'p probe \<Rightarrow> nat \<Rightarrow> 's \<Rightarrow> (found \<times> 'p cursor \<times> 'p probe \<times> 's) option"
where
  "pair_loop comb adv cp 0 c p target s = None"
| "pair_loop comb adv cp (Suc k) c p target s =
     (let (stop, s) = cp s in
      if stop then Some (None, c, p, s)
      else
        (case adv c target s of
           None \<Rightarrow> None
         | Some (None, c, s) \<Rightarrow> Some (None, c, p, s)
         | Some (Some (doc, x), c, s) \<Rightarrow>
             (case test_with adv p doc s of
                None \<Rightarrow> None
              | Some (ans, p, s) \<Rightarrow>
                  (case comb (Some x) ans of
                     Some y \<Rightarrow> Some (Some (doc, y), c, p, s)
                   | None \<Rightarrow>
                       (case checked_add_u32 doc 1 of
                          None \<Rightarrow> Some (None, c, p, s)
                        | Some target \<Rightarrow> pair_loop comb adv cp k c p target s)))))"

lemma and_not_loop_pair: "and_not_loop adv cp k c p t s = pair_loop without adv cp k c p t s"
proof (induction k arbitrary: c p t s)
  case (Suc k)
  show ?case
    by (simp add: Suc.IH split: prod.split option.split certainty.split)
qed simp

lemma filter_loop_pair: "filter_loop adv cp k c p t s = pair_loop min adv cp k c p t s"
proof (induction k arbitrary: c p t s)
  case (Suc k)
  show ?case
    by (simp add: Suc.IH split: prod.split option.split)
qed simp

locale probed =
  fixes mk :: "'p cursor \<Rightarrow> 'p probe \<Rightarrow> 'p cursor"
    and comb :: "certainty option \<Rightarrow> certainty option \<Rightarrow> certainty option"
  assumes comb_None: "comb None b = None"
    and comb_blur: "blur e a a' \<Longrightarrow> blur e b b' \<Longrightarrow> blur e (comb a b) (comb a' b')"
    and comb_lower: "lower e a a' \<Longrightarrow> lower e (comb a b) (comb a' b)"
    and left_mk: "left ip (mk c p) = (\<lambda>d. comb (left ip c d) (probe_left ip p d))"
    and depth_mk: "depth (mk c p) = Suc (max (depth c) (probe_depth p))"
    and wf_mk: "wf_cursor ip B (mk c p) \<longleftrightarrow> wf_cursor ip B c \<and> wf_probe ip B p"
    and fits_mk: "fits e dr (mk c p) \<Longrightarrow> fits e dr c \<and> fits_probe e p"
    and frame_mk: "same_frame ip B c c' \<Longrightarrow> wf_probe ip B p' \<Longrightarrow> probe_shape p' = probe_shape p \<Longrightarrow>
      same_frame ip B (mk c p) (mk c' p')"
    and keeps_mk: "fits e dr (mk c p) \<Longrightarrow> finds e f t (Some (doc, x)) \<Longrightarrow> keeps e dr f t (Some doc) f' \<Longrightarrow>
      (e \<or> steady c \<longrightarrow> rests e f' doc) \<Longrightarrow> keeps e False g doc (Some doc) g' \<Longrightarrow>
      keeps e dr (\<lambda>d. comb (f d) (g d)) t (Some doc) (\<lambda>d. comb (f' d) (g' d))"
    and steady_mk: "steady (mk c p) \<Longrightarrow> steady c \<or> (steady_probe p \<and> (\<forall>a. comb a None = None))"
begin

lemma comb_blur_None: "blur e None a \<Longrightarrow> blur e None (comb a b)"
  using comb_blur [of e None a b b] by (simp add: comb_None)

lemma pair_now:
  assumes "fits e dr (mk c p)" "finds e (left ip c) t (Some (doc, x))" "keeps e dr (left ip c) t (Some doc) (left ip c')"
    "e \<or> steady c \<longrightarrow> rests e (left ip c') doc"
    "blur e (probe_left ip p doc) ans" "keeps e False (probe_left ip p) doc (Some doc) (probe_left ip p')"
    "steady_probe p \<longrightarrow> ans \<noteq> None \<longrightarrow> rests e (probe_left ip p') doc"
  shows "keeps e dr (left ip (mk c p)) t (Some doc) (left ip (mk c' p'))"
    "\<forall>y. t \<le> y \<and> y < doc \<longrightarrow> left ip (mk c p) y = None" "blur e (left ip (mk c p) doc) (comb (Some x) ans)"
    "e \<or> steady (mk c p) \<longrightarrow> comb (Some x) ans \<noteq> None \<longrightarrow> rests e (left ip (mk c' p')) doc"
proof -
  show "keeps e dr (left ip (mk c p)) t (Some doc) (left ip (mk c' p'))"
    unfolding left_mk by (rule keeps_mk [OF assms(1,2,3,4,6)])
  show "\<forall>y. t \<le> y \<and> y < doc \<longrightarrow> left ip (mk c p) y = None" "blur e (left ip (mk c p) doc) (comb (Some x) ans)"
    using assms(2,5) by (simp_all add: left_mk comb_None comb_blur)
  show "e \<or> steady (mk c p) \<longrightarrow> comb (Some x) ans \<noteq> None \<longrightarrow> rests e (left ip (mk c' p')) doc"
  proof (intro impI)
    assume *: "e \<or> steady (mk c p)" "comb (Some x) ans \<noteq> None"
    show "rests e (left ip (mk c' p')) doc"
    proof (cases "e \<or> steady c")
      case True
      with assms(4) show ?thesis by (simp add: rests_def left_mk comb_blur_None)
    next
      case False
      with * steady_mk have p: "\<not> e" "steady_probe p" "\<forall>a. comb a None = None" by blast+
      with *(2) have "ans \<noteq> None" by (metis option.exhaust)
      with p assms(7) show ?thesis by (simp add: rests_def left_mk)
    qed
  qed
qed

text \<open>The outcome of an iteration after both answers.\<close>

lemma pair_outcome:
  fixes adv :: "('p, 's) stepper"
  assumes "B \<le> 2 ^ 32" "wf_cursor ip B (mk c p)" "same_frame ip B (mk c p) (mk c' p')"
    "stopped s \<longrightarrow> stopped s'" "t \<le> doc" "doc < B"
    "\<not> stopped s' \<Longrightarrow> keeps e dr (left ip (mk c p)) t (Some doc) (left ip (mk c' p')) \<and>
       (\<forall>y. t \<le> y \<and> y < doc \<longrightarrow> left ip (mk c p) y = None) \<and> blur e (left ip (mk c p) doc) (comb (Some x) ans) \<and>
       (e \<or> steady (mk c p) \<longrightarrow> comb (Some x) ans \<noteq> None \<longrightarrow> rests e (left ip (mk c' p')) doc)"
    "stepped e dr ip B stopped (mk c' p') (doc + 1) s' (map_option f (pair_loop comb adv cp k c' p' (doc + 1) s'))"
    "f = (\<lambda>(r, c, p, s). (r, mk c p, s))"
  shows "stepped e dr ip B stopped (mk c p) t s (map_option f
    (case comb (Some x) ans of
       Some y \<Rightarrow> Some (Some (doc, y), c', p', s')
     | None \<Rightarrow> (case checked_add_u32 doc 1 of
                  None \<Rightarrow> Some (None, c', p', s')
                | Some target \<Rightarrow> pair_loop comb adv cp k c' p' target s')))"
    (is "stepped _ _ _ _ _ ?A _ _ (map_option f ?res)")
proof (cases "comb (Some x) ans")
  case (Some y)
  then have "map_option f ?res = Some (Some (doc, y), mk c' p', s')" using assms(9) by simp
  then show ?thesis by (rule steppedI) (use assms(3,4,5,6,7) Some in simp_all)
next
  case miss: None
  have gap: "left ip ?A y = None" if "\<not> stopped s'" "t \<le> y" "y < doc + 1" for y
    using assms(7) [OF that(1)] miss that(2,3) by (cases "y = doc") auto
  have next_keeps: "keeps e dr (left ip ?A) t (Some (doc + 1)) (left ip (mk c' p'))" if "\<not> stopped s'"
    using assms(7) [OF that] by (auto simp: keeps_def)
  show ?thesis
  proof (cases "checked_add_u32 doc 1")
    case None
    with miss have "map_option f ?res = Some (None, mk c' p', s')" using assms(9) by simp
    then show ?thesis
    proof (rule steppedI)
      assume *: "\<not> stopped s'"
      have "left ip ?A y = None" if "t \<le> y" for y
        using gap [OF * that] checked_add_below(2) [OF assms(1,6) None] left_below [OF assms(2), of y] by fastforce
      then show "finds e (left ip ?A) t None" by simp
      show "keeps e dr (left ip ?A) t (map_option fst None) (left ip (mk c' p'))"
        using next_keeps [OF *] by (auto simp: keeps_def)
    qed (use assms(3,4) in simp_all)
  next
    case (Some t')
    then have t': "t' = doc + 1" by (auto simp: checked_add_u32_def split: if_splits)
    have "map_option f ?res = map_option f (pair_loop comb adv cp k c' p' (doc + 1) s')"
      using miss Some t' by simp
    with assms(8) have "stepped e dr ip B stopped (mk c' p') (doc + 1) s' (map_option f ?res)" by simp
    then show ?thesis
      by (rule stepped_skip) (use assms(3,4,5) gap next_keeps in auto)
  qed
qed

lemma pair_loop_ok:
  assumes "checkpoint cp stopped" "good_stepper e ip B stopped n adv" "B \<le> 2 ^ 32"
  shows "wf_cursor ip B (mk c p) \<Longrightarrow> fits e dr (mk c p) \<Longrightarrow> depth (mk c p) \<le> n \<Longrightarrow> 0 < k \<Longrightarrow> B < t + k \<Longrightarrow>
    stepped e dr ip B stopped (mk c p) t s (map_option (\<lambda>(r, c, p, s). (r, mk c p, s)) (pair_loop comb adv cp k c p t s))"
proof (induction k arbitrary: c p t s)
  case (Suc k)
  from fits_mk [OF Suc.prems(2)] Suc.prems(1,3) have wf: "wf_cursor ip B c" "fits e dr c" "depth c < n"
    "wf_probe ip B p" "fits_probe e p" "probe_depth p < n"
    by (simp_all add: depth_mk wf_mk)
  obtain stop s1 where cp: "cp s = (stop, s1)" by fastforce
  note st = checkpoint.answers [OF assms(1) cp] checkpoint.sticky [OF assms(1) cp]
  show ?case (is "stepped _ _ _ _ _ ?A _ _ (map_option ?f ?res)")
  proof (cases stop)
    case True
    then have "map_option ?f ?res = Some (None, ?A, s1)" using cp by simp
    then show ?thesis by (rule stepped_cancelled) (use True st Suc.prems in simp_all)
  next
    case False
    obtain r c' s2 where step: "adv c t s1 = Some (r, c', s2)" "same_frame ip B c c'" "stopped s1 \<longrightarrow> stopped s2"
      "\<And>d x. r = Some (d, x) \<Longrightarrow> t \<le> d \<and> d < B"
      "\<not> stopped s2 \<Longrightarrow> finds e (left ip c) t r \<and>
         keeps e dr (left ip c) t (map_option fst r) (left ip c') \<and> (e \<or> steady c \<longrightarrow> rests_on e (left ip c') r)"
      by (rule good_stepperE [OF assms(2) wf(1,2,3), of t s1]) blast
    have stop2: "stopped s \<longrightarrow> stopped s2" using st step(3) by blast
    show ?thesis
    proof (cases r)
      case None
      then have "map_option ?f ?res = Some (None, mk c' p, s2)" using cp False step(1) by simp
      then show ?thesis
      proof (rule steppedI)
        show "same_frame ip B ?A (mk c' p)" using frame_mk [OF step(2) wf(4)] by simp
        assume "\<not> stopped s2"
        from step(5) [OF this] None show "finds e (left ip ?A) t None" "keeps e dr (left ip ?A) t (map_option fst None) (left ip (mk c' p))"
          by (auto simp: left_mk comb_None keeps_def comb_blur comb_blur_None comb_lower)
      qed (use stop2 in simp_all)
    next
      case (Some dx)
      then obtain doc x where r: "r = Some (doc, x)" by (cases dx) auto
      obtain ans p' s3 where test: "test_with adv p doc s2 = Some (ans, p', s3)"
        "wf_probe ip B p'" "probe_shape p' = probe_shape p" "stopped s2 \<longrightarrow> stopped s3"
        "\<not> stopped s3 \<Longrightarrow> blur e (probe_left ip p doc) ans \<and>
           keeps e False (probe_left ip p) doc (Some doc) (probe_left ip p') \<and>
           (steady_probe p \<longrightarrow> ans \<noteq> None \<longrightarrow> rests e (probe_left ip p') doc)"
        by (rule test_with_ok [OF assms(2) wf(4,5,6), of doc s2]) blast
      note frame = frame_mk [OF step(2) test(2,3)]
      have doc: "t \<le> doc" "doc < B" using step(4) [OF r] by auto
      have rest: "stepped e dr ip B stopped (mk c' p') (doc + 1) s3 (map_option ?f (pair_loop comb adv cp k c' p' (doc + 1) s3))"
        by (rule Suc.IH) (use frame Suc.prems doc same_frameD [OF frame] in auto)
      have "stepped e dr ip B stopped ?A t s (map_option ?f
          (case comb (Some x) ans of Some y \<Rightarrow> Some (Some (doc, y), c', p', s3)
           | None \<Rightarrow> (case checked_add_u32 doc 1 of None \<Rightarrow> Some (None, c', p', s3)
                        | Some target \<Rightarrow> pair_loop comb adv cp k c' p' target s3)))"
      proof (rule pair_outcome [OF assms(3) Suc.prems(1) frame _ doc _ rest refl])
        show "stopped s \<longrightarrow> stopped s3" using stop2 test(4) by blast
        assume *: "\<not> stopped s3"
        then have c: "finds e (left ip c) t (Some (doc, x))" "keeps e dr (left ip c) t (Some doc) (left ip c')"
            "e \<or> steady c \<longrightarrow> rests e (left ip c') doc"
          using step(5) test(4) by (auto simp: r)
        from test(5) [OF *] have p: "blur e (probe_left ip p doc) ans"
            "keeps e False (probe_left ip p) doc (Some doc) (probe_left ip p')"
            "steady_probe p \<longrightarrow> ans \<noteq> None \<longrightarrow> rests e (probe_left ip p') doc" by blast+
        show "keeps e dr (left ip ?A) t (Some doc) (left ip (mk c' p')) \<and>
            (\<forall>y. t \<le> y \<and> y < doc \<longrightarrow> left ip ?A y = None) \<and> blur e (left ip ?A doc) (comb (Some x) ans) \<and>
            (e \<or> steady ?A \<longrightarrow> comb (Some x) ans \<noteq> None \<longrightarrow> rests e (left ip (mk c' p')) doc)"
          by (intro conjI pair_now [OF Suc.prems(2) c p])
      qed
      moreover have "?res = (case comb (Some x) ans of Some y \<Rightarrow> Some (Some (doc, y), c', p', s3)
           | None \<Rightarrow> (case checked_add_u32 doc 1 of None \<Rightarrow> Some (None, c', p', s3)
                        | Some target \<Rightarrow> pair_loop comb adv cp k c' p' target s3))"
        using cp False step(1) r test(1) by simp
      ultimately show ?thesis by simp
    qed
  qed
qed simp

end

interpretation negation: probed AndNot without
proof
  show "keeps e dr (\<lambda>d. without (f d) (g d)) t (Some doc) (\<lambda>d. without (f' d) (g' d))"
    if "fits e dr (AndNot c p)" "finds e f t (Some (doc, x))" "keeps e dr f t (Some doc) f'"
      "e \<or> steady c \<longrightarrow> rests e f' doc" "keeps e False g doc (Some doc) g'"
    for e dr and c :: "'p cursor" and p f t doc x f' g g'
    using that by (intro keeps_not [of e f t doc x dr f' g g']) auto
qed (auto simp: without_def same_frame_def fun_eq_iff blur_without [unfolded without_def] intro: lower_min)

interpretation filtering: probed Filter min
proof
  show "keeps e dr (\<lambda>d. min (f d) (g d)) t (Some doc) (\<lambda>d. min (f' d) (g' d))"
    if "finds e f t (Some (doc, x))" "keeps e dr f t (Some doc) f'" "keeps e False g doc (Some doc) g'"
    for e dr f t doc x f' g g'
    using that by (intro keeps_then [of e f t doc x dr f' g]) (auto intro: keeps_weaken)
qed (auto simp: same_frame_def fun_eq_iff blur_min intro: lower_min)

section \<open>Conjunctions\<close>

definition all_wf :: "'p intpack \<Rightarrow> nat \<Rightarrow> nat \<Rightarrow> 'p cursor list \<Rightarrow> bool" where
  "all_wf ip B n cs \<longleftrightarrow> (\<forall>c\<in>set cs. wf_cursor ip B c \<and> depth c < n)"

lemma all_wf_simps [simp]:
  "all_wf ip B n []" "all_wf ip B n (c # cs) \<longleftrightarrow> wf_cursor ip B c \<and> depth c < n \<and> all_wf ip B n cs"
  by (auto simp: all_wf_def)

lemma depth_list_less: "foldr max (map depth cs) 0 < n \<longleftrightarrow> 0 < n \<and> (\<forall>c\<in>set cs. depth c < n)"
  by (induction cs) auto

lemma all_wf_list: "all_wf ip B n cs \<longleftrightarrow> list_all id (map (wf_cursor ip B) cs) \<and> (cs = [] \<or> foldr max (map depth cs) 0 < n)"
  by (induction cs) (auto simp: all_wf_def list_all_iff depth_list_less)

lemma same_frames:
  assumes "list_all2 (same_frame ip B) cs cs'"
  shows "list_all id (map (wf_cursor ip B) cs')" "map depth cs' = map depth cs" "map steady cs' = map steady cs"
    "map exact cs' = map exact cs" "map apart cs' = map apart cs" "length cs' = length cs"
    "list_all (fits e dr) cs' = list_all (fits e dr) cs"
  using assms by (induction rule: list_all2_induct) (auto simp: same_frame_def fits_def)

lemma all_wf_frames: "list_all2 (same_frame ip B) cs cs' \<Longrightarrow> all_wf ip B n cs \<Longrightarrow> all_wf ip B n cs'"
  by (induction rule: list_all2_induct) (auto simp: same_frame_def)

text \<open>Where a conjunction is after landing the children on a document.\<close>

definition landed_at :: "nat \<Rightarrow> landing \<Rightarrow> nat option" where
  "landed_at doc l = (case l of Landed y \<Rightarrow> Some doc | Overshot other \<Rightarrow> Some other | Gone \<Rightarrow> None)"

text \<open>What landing the children of a conjunction on a document shows of them.\<close>

definition landed :: "bool \<Rightarrow> bool \<Rightarrow> docs \<Rightarrow> docs \<Rightarrow> nat \<Rightarrow> certainty \<Rightarrow> bool \<Rightarrow> landing \<Rightarrow> bool" where
  "landed e dr m m' doc x st l \<longleftrightarrow> keeps e dr m doc (landed_at doc l) m' \<and>
     (case l of
        Landed y \<Rightarrow> (\<exists>z. blur e (m doc) (Some z) \<and> y = min x z) \<and> (st \<longrightarrow> rests e m' doc)
      | Overshot other \<Rightarrow> doc < other \<and> (\<forall>y. doc \<le> y \<and> y < other \<longrightarrow> m y = None)
      | Gone \<Rightarrow> \<forall>y\<ge>doc. m y = None)"

lemma rests_min: "rests e a d \<Longrightarrow> rests e (\<lambda>y. min (a y) (b y)) d" "rests e b d \<Longrightarrow> rests e (\<lambda>y. min (a y) (b y)) d"
  by (auto simp: rests_def blur_None_min) (metis blur_None_min min.commute)

lemma landed_step:
  assumes "finds e a doc (Some (doc, z))" "keeps e dr a doc (Some doc) a'" "st \<longrightarrow> rests e a' doc"
    "landed e dr m m' doc (min x z) sts l"
  shows "landed e dr (\<lambda>d. min (a d) (m d)) (\<lambda>d. min (a' d) (m' d)) doc x (st \<or> sts) l"
proof -
  have "keeps e dr (\<lambda>d. min (a d) (m d)) doc (landed_at doc l) (\<lambda>d. min (a' d) (m' d))"
    using assms(4) by (intro keeps_then [OF assms(1,2)]) (auto simp: landed_def landed_at_def split: landing.splits)
  moreover have "\<exists>v. blur e (min (a doc) (m doc)) (Some v) \<and> y = min x v" if "l = Landed y" for y
  proof -
    from assms(4) that obtain w where "blur e (m doc) (Some w)" "y = min (min x z) w" by (auto simp: landed_def)
    with blur_min [of e "a doc" "Some z" "m doc" "Some w"] assms(1) show ?thesis by (intro exI [of _ "min z w"]) (auto simp: min.assoc)
  qed
  ultimately show ?thesis using assms(3,4) by (auto simp: landed_def intro: rests_min split: landing.splits)
qed

lemma landed_short:
  assumes "keeps e dr a doc (landed_at doc l) a'"
    "l = Gone \<and> (\<forall>y\<ge>doc. a y = None) \<or> l = Overshot other \<and> doc < other \<and> (\<forall>y. doc \<le> y \<and> y < other \<longrightarrow> a y = None)"
  shows "landed e dr (\<lambda>d. min (a d) (m d)) (\<lambda>d. min (a' d) (m d)) doc x st l"
  using assms by (auto simp: landed_def keeps_def intro: blur_min lower_min)

lemma land_ok:
  assumes "good_stepper e ip B stopped n adv"
  shows "all_wf ip B n cs \<Longrightarrow> list_all (fits e dr) cs \<Longrightarrow> \<exists>l cs' s'. land adv cs doc x s = Some (l, cs', s') \<and>
    list_all2 (same_frame ip B) cs cs' \<and> (stopped s \<longrightarrow> stopped s') \<and>
    (\<forall>other. l = Overshot other \<longrightarrow> doc < other \<and> other < B) \<and>
    (\<not> stopped s' \<longrightarrow>
       landed e dr (all_of (map (left ip) cs)) (all_of (map (left ip) cs')) doc x (list_ex (\<lambda>c. e \<or> steady c) cs) l)"
proof (induction cs arbitrary: x s)
  case Nil
  show ?case by (auto simp: landed_def landed_at_def intro: exI [of _ Yes])
next
  case (Cons c cs)
  then have wf: "wf_cursor ip B c" "fits e dr c" "depth c < n" "all_wf ip B n cs" "list_all (fits e dr) cs" by simp_all
  then have same: "list_all2 (same_frame ip B) cs cs"
    by (simp add: list_all2_same all_wf_def same_frame_def)
  obtain r c' s1 where step: "adv c doc s = Some (r, c', s1)" "same_frame ip B c c'" "stopped s \<longrightarrow> stopped s1"
    "\<And>d x. r = Some (d, x) \<Longrightarrow> doc \<le> d \<and> d < B"
    "\<not> stopped s1 \<Longrightarrow> finds e (left ip c) doc r \<and>
       keeps e dr (left ip c) doc (map_option fst r) (left ip c') \<and> (e \<or> steady c \<longrightarrow> rests_on e (left ip c') r)"
    by (rule good_stepperE [OF assms wf(1,2,3), of doc s]) blast
  have short: ?case if l: "land adv (c # cs) doc x s = Some (l, c' # cs, s1)"
    "l = Gone \<and> r = None \<or> l = Overshot other \<and> r = Some (other, z) \<and> doc < other" for l other z
  proof -
    have "landed e dr (all_of (map (left ip) (c # cs))) (all_of (map (left ip) (c' # cs))) doc x (list_ex (\<lambda>c. e \<or> steady c) (c # cs)) l"
      if "\<not> stopped s1"
    proof -
      have "landed e dr (\<lambda>d. min (left ip c d) (all_of (map (left ip) cs) d)) (\<lambda>d. min (left ip c' d) (all_of (map (left ip) cs) d)) doc x
          (list_ex (\<lambda>c. e \<or> steady c) (c # cs)) l"
        using step(5) [OF that] l(2) by (intro landed_short [where other = other]) (auto simp: landed_at_def)
      then show ?thesis by simp
    qed
    then show ?case using l step same by (intro exI [of _ l] exI [of _ "c' # cs"] exI [of _ s1]) auto
  qed
  show ?case
  proof (cases r)
    case None
    then have "land adv (c # cs) doc x s = Some (Gone, c' # cs, s1)" using step(1) by simp
    with None show ?thesis by (intro short) auto
  next
    case (Some dz)
    then obtain d z where r: "r = Some (d, z)" by (cases dz) auto
    show ?thesis
    proof (cases "doc < d")
      case True
      then have "land adv (c # cs) doc x s = Some (Overshot d, c' # cs, s1)" using step(1) r by simp
      with True r show ?thesis by (intro short) auto
    next
      case False
      with step(4) r have d: "d = doc" by fastforce
      obtain l cs' s' where rest: "land adv cs doc (min x z) s1 = Some (l, cs', s')"
        "list_all2 (same_frame ip B) cs cs'" "stopped s1 \<longrightarrow> stopped s'"
        "\<forall>other. l = Overshot other \<longrightarrow> doc < other \<and> other < B"
        "\<not> stopped s' \<longrightarrow>
           landed e dr (all_of (map (left ip) cs)) (all_of (map (left ip) cs')) doc (min x z) (list_ex (\<lambda>c. e \<or> steady c) cs) l"
        using Cons.IH [OF wf(4,5), of "min x z" s1] by blast
      have "landed e dr (all_of (map (left ip) (c # cs))) (all_of (map (left ip) (c' # cs'))) doc x (list_ex (\<lambda>c. e \<or> steady c) (c # cs)) l"
        if "\<not> stopped s'"
      proof -
        have "landed e dr (\<lambda>d. min (left ip c d) (all_of (map (left ip) cs) d)) (\<lambda>d. min (left ip c' d) (all_of (map (left ip) cs') d)) doc x
            ((e \<or> steady c) \<or> list_ex (\<lambda>c. e \<or> steady c) cs) l"
          using step(5) rest(3,5) r d that by (intro landed_step [where z = z]) auto
        then show ?thesis by simp
      qed
      then show ?thesis using step r d rest by (intro exI [of _ l] exI [of _ "c' # cs'"] exI [of _ s']) auto
    qed
  qed
qed

lemma and_frame:
  assumes "same_frame ip B c c'" "list_all2 (same_frame ip B) cs cs'"
  shows "same_frame ip B (And (c # cs)) (And (c' # cs'))"
  using assms(1) same_frames [OF assms(2)] by (simp add: same_frame_def fun_eq_iff)

text \<open>The facts of one iteration of \<open>leapfrog\<close>: the driver on \<open>doc\<close>, the rest landed on it.\<close>

lemma leap_facts:
  assumes "finds e a t (Some (doc, x))" "keeps e dr a t (Some doc) a'" "st \<longrightarrow> rests e a' doc"
    "landed e dr m m' doc x sts l"
  defines "A \<equiv> \<lambda>d. min (a d) (m d)" and "A' \<equiv> \<lambda>d. min (a' d) (m' d)"
  shows "keeps e dr A t (landed_at doc l) A'" "l = Landed y \<Longrightarrow> finds e A t (Some (doc, y))"
    "l = Landed y \<Longrightarrow> st \<or> sts \<Longrightarrow> rests e A' doc"
    "l = Gone \<Longrightarrow> finds e A t None" "l = Overshot other \<Longrightarrow> t \<le> y' \<Longrightarrow> y' < other \<Longrightarrow> A y' = None"
proof -
  have low: "a y = None" if "t \<le> y" "y < doc" for y using assms(1) that by simp
  show "keeps e dr A t (landed_at doc l) A'" unfolding A_def A'_def
    using assms(4) by (intro keeps_then [OF assms(1,2)]) (auto simp: landed_def landed_at_def split: landing.splits)
  show "finds e A t (Some (doc, y))" "st \<or> sts \<Longrightarrow> rests e A' doc" if "l = Landed y"
  proof -
    from assms(4) that obtain z where z: "blur e (m doc) (Some z)" "y = min x z" by (auto simp: landed_def)
    with blur_min [of e "a doc" "Some x" "m doc" "Some z"] assms(1) low show "finds e A t (Some (doc, y))"
      by (simp add: A_def)
    show "rests e A' doc" if "st \<or> sts"
      using assms(3,4) that \<open>l = Landed y\<close> by (auto simp: A'_def landed_def intro: rests_min)
  qed
  show "finds e A t None" if "l = Gone"
    using assms(4) low that unfolding A_def landed_def by (simp add: min_eq_None) (meson not_less)
  show "A y' = None" if "l = Overshot other" "t \<le> y'" "y' < other"
    using assms(4) low that unfolding A_def landed_def by (simp add: min_eq_None) (meson not_less)
qed

lemma leap_outcome:
  fixes adv :: "('p, 's) stepper"
  assumes "same_frame ip B A (And (c' # cs'))" "stopped s \<longrightarrow> stopped s'" "t \<le> doc" "doc < B"
    "\<forall>other. l = Overshot other \<longrightarrow> doc < other \<and> other < B \<and>
       stepped e dr ip B stopped (And (c' # cs')) other s' (map_option f (leapfrog_loop adv cp k c' cs' other s'))"
    "\<not> stopped s' \<Longrightarrow> keeps e dr (left ip A) t (landed_at doc l) (left ip (And (c' # cs'))) \<and>
       (case l of
          Landed y \<Rightarrow> finds e (left ip A) t (Some (doc, y)) \<and> (e \<or> steady A \<longrightarrow> rests e (left ip (And (c' # cs'))) doc)
        | Overshot other \<Rightarrow> \<forall>y. t \<le> y \<and> y < other \<longrightarrow> left ip A y = None
        | Gone \<Rightarrow> finds e (left ip A) t None)"
    "f = (\<lambda>(r, cs, s). (r, And cs, s))"
  shows "stepped e dr ip B stopped A t s (map_option f
    (case l of
       Landed y \<Rightarrow> Some (Some (doc, y), c' # cs', s')
     | Overshot target \<Rightarrow> leapfrog_loop adv cp k c' cs' target s'
     | Gone \<Rightarrow> Some (None, c' # cs', s')))"
proof (cases l)
  case (Landed y)
  show ?thesis
    by (rule steppedI [where r = "Some (doc, y)" and c' = "And (c' # cs')" and s' = s'])
      (use assms Landed in \<open>simp_all add: landed_at_def del: finds_simps left.simps\<close>)
next
  case (Overshot other)
  with assms(5) have next_round: "doc < other"
    "stepped e dr ip B stopped (And (c' # cs')) other s' (map_option f (leapfrog_loop adv cp k c' cs' other s'))" by auto
  have "stepped e dr ip B stopped A t s (map_option f (leapfrog_loop adv cp k c' cs' other s'))"
    using next_round(2)
  proof (rule stepped_skip)
    show "t \<le> other" using next_round(1) assms(3) by simp
  qed (use assms(1,2,6) Overshot in \<open>simp_all add: landed_at_def del: left.simps\<close>)
  then show ?thesis using Overshot by simp
next
  case Gone
  show ?thesis
    by (rule steppedI [where r = None and c' = "And (c' # cs')" and s' = s'])
      (use assms Gone in \<open>simp_all add: landed_at_def del: finds_simps left.simps\<close>)
qed

lemma leap_now:
  assumes "finds e (left ip c) t (Some (doc, x))" "keeps e dr (left ip c) t (Some doc) (left ip c')"
    "e \<or> steady c \<longrightarrow> rests e (left ip c') doc"
    "landed e dr (all_of (map (left ip) cs)) (all_of (map (left ip) cs')) doc x (list_ex (\<lambda>c. e \<or> steady c) cs) l"
  shows "keeps e dr (left ip (And (c # cs))) t (landed_at doc l) (left ip (And (c' # cs'))) \<and>
       (case l of
          Landed y \<Rightarrow> finds e (left ip (And (c # cs))) t (Some (doc, y)) \<and>
            (e \<or> steady (And (c # cs)) \<longrightarrow> rests e (left ip (And (c' # cs'))) doc)
        | Overshot other \<Rightarrow> \<forall>y. t \<le> y \<and> y < other \<longrightarrow> left ip (And (c # cs)) y = None
        | Gone \<Rightarrow> finds e (left ip (And (c # cs))) t None)"
proof -
  note facts = leap_facts [OF assms]
  have "keeps e dr (left ip (And (c # cs))) t (landed_at doc l) (left ip (And (c' # cs')))" using facts(1) by simp
  moreover have "(e \<or> steady c) \<or> list_ex (\<lambda>c. e \<or> steady c) cs" if "e \<or> steady (And (c # cs))"
    using that by (auto simp: list_ex_iff)
  ultimately show ?thesis
    using facts(2-5) by (cases l) (auto simp del: finds_simps)
qed

lemma leapfrog_loop_ok:
  assumes "checkpoint cp stopped" "good_stepper e ip B stopped n adv"
  shows "all_wf ip B n (c # cs) \<Longrightarrow> list_all (fits e dr) (c # cs) \<Longrightarrow> 0 < k \<Longrightarrow> B < t + k \<Longrightarrow>
    stepped e dr ip B stopped (And (c # cs)) t s
      (map_option (\<lambda>(r, cs, s). (r, And cs, s)) (leapfrog_loop adv cp k c cs t s))"
proof (induction k arbitrary: c cs t s)
  case (Suc k)
  from Suc.prems have wf: "wf_cursor ip B c" "fits e dr c" "depth c < n" "all_wf ip B n cs" "list_all (fits e dr) cs" by simp_all
  then have same: "list_all2 (same_frame ip B) cs cs" by (simp add: list_all2_same all_wf_def same_frame_def)
  obtain stop s1 where cp: "cp s = (stop, s1)" by fastforce
  note st = checkpoint.answers [OF assms(1) cp] checkpoint.sticky [OF assms(1) cp]
  show ?case (is "stepped _ _ _ _ _ ?A _ _ (map_option ?f ?res)")
  proof (cases stop)
    case True
    then have "map_option ?f ?res = Some (None, ?A, s1)" using cp by simp
    then show ?thesis
      by (rule stepped_cancelled) (use True st Suc.prems in \<open>auto simp: all_wf_def list_all_iff\<close>)
  next
    case False
    obtain r c' s2 where step: "adv c t s1 = Some (r, c', s2)" "same_frame ip B c c'" "stopped s1 \<longrightarrow> stopped s2"
      "\<And>d x. r = Some (d, x) \<Longrightarrow> t \<le> d \<and> d < B"
      "\<not> stopped s2 \<Longrightarrow> finds e (left ip c) t r \<and>
         keeps e dr (left ip c) t (map_option fst r) (left ip c') \<and> (e \<or> steady c \<longrightarrow> rests_on e (left ip c') r)"
      by (rule good_stepperE [OF assms(2) wf(1,2,3), of t s1]) blast
    have stop2: "stopped s \<longrightarrow> stopped s2" using st step(3) by blast
    show ?thesis
    proof (cases r)
      case None
      then have "map_option ?f ?res = Some (None, And (c' # cs), s2)" using cp False step(1) by simp
      then show ?thesis
      proof (rule steppedI)
        show "same_frame ip B ?A (And (c' # cs))" by (rule and_frame [OF step(2) same])
        assume "\<not> stopped s2"
        with step(5) None have "finds e (left ip c) t None" "keeps e dr (left ip c) t None (left ip c')" by simp_all
        then show "finds e (left ip ?A) t None" "keeps e dr (left ip ?A) t (map_option fst None) (left ip (And (c' # cs)))"
          by (auto simp: keeps_def blur_None_min intro: lower_min)
      qed (use stop2 in simp_all)
    next
      case (Some dx)
      then obtain doc x where r: "r = Some (doc, x)" by (cases dx) auto
      obtain l cs' s3 where land: "land adv cs doc x s2 = Some (l, cs', s3)"
        "list_all2 (same_frame ip B) cs cs'" "stopped s2 \<longrightarrow> stopped s3"
        "\<forall>other. l = Overshot other \<longrightarrow> doc < other \<and> other < B"
        "\<not> stopped s3 \<longrightarrow>
           landed e dr (all_of (map (left ip) cs)) (all_of (map (left ip) cs')) doc x (list_ex (\<lambda>c. e \<or> steady c) cs) l"
        using land_ok [OF assms(2) wf(4,5), of doc x s2] by blast
      have doc: "t \<le> doc" "doc < B" using step(4) [OF r] by auto
      have wf': "all_wf ip B n (c' # cs')" "list_all (fits e dr) (c' # cs')"
        using all_wf_frames [OF land(2) wf(4)] same_frames(7) [OF land(2), of e dr] same_frameD [OF step(2)] wf by auto
      have "stepped e dr ip B stopped ?A t s (map_option ?f (case l of
           Landed y \<Rightarrow> Some (Some (doc, y), c' # cs', s3)
         | Overshot target \<Rightarrow> leapfrog_loop adv cp k c' cs' target s3
         | Gone \<Rightarrow> Some (None, c' # cs', s3)))"
      proof (rule leap_outcome [OF and_frame [OF step(2) land(2)] _ doc _ _ refl])
        show "stopped s \<longrightarrow> stopped s3" using stop2 land(3) by blast
        show "\<forall>other. l = Overshot other \<longrightarrow> doc < other \<and> other < B \<and>
            stepped e dr ip B stopped (And (c' # cs')) other s3 (map_option ?f (leapfrog_loop adv cp k c' cs' other s3))"
          using land(4) Suc.prems doc Suc.IH [OF wf'] by force
        assume "\<not> stopped s3"
        with step(5) land(3,5) r show "keeps e dr (left ip ?A) t (landed_at doc l) (left ip (And (c' # cs'))) \<and>
          (case l of
             Landed y \<Rightarrow> finds e (left ip ?A) t (Some (doc, y)) \<and> (e \<or> steady ?A \<longrightarrow> rests e (left ip (And (c' # cs'))) doc)
           | Overshot other \<Rightarrow> \<forall>y. t \<le> y \<and> y < other \<longrightarrow> left ip ?A y = None
           | Gone \<Rightarrow> finds e (left ip ?A) t None)"
          by (intro leap_now) auto
      qed
      moreover have "?res = (case l of
           Landed y \<Rightarrow> Some (Some (doc, y), c' # cs', s3)
         | Overshot target \<Rightarrow> leapfrog_loop adv cp k c' cs' target s3
         | Gone \<Rightarrow> Some (None, c' # cs', s3))"
        using cp False step(1) r land(1) by (simp split: landing.split)
      ultimately show ?thesis by simp
    qed
  qed
qed simp

section \<open>Disjunctions\<close>

definition head_found :: "head \<Rightarrow> found" where
  "head_found h = (case h of At d x \<Rightarrow> Some (d, x) | _ \<Rightarrow> None)"

definition settled :: "nat \<Rightarrow> head \<Rightarrow> bool" where
  "settled t h \<longleftrightarrow> (case h of Fresh \<Rightarrow> False | At d x \<Rightarrow> t \<le> d | Exhausted \<Rightarrow> True)"

lemma better_finds:
  assumes "finds e m t best" "finds e m' t (head_found h)"
  shows "finds e (\<lambda>d. max (m d) (m' d)) t (better best h)"
proof (cases h)
  case (At doc x)
  with assms(2) have h: "t \<le> doc" "blur e (m' doc) (Some x)" "\<And>y. t \<le> y \<Longrightarrow> y < doc \<Longrightarrow> m' y = None"
    by (simp_all add: head_found_def)
  show ?thesis
  proof (cases best)
    case None
    with At h assms(1) show ?thesis by (simp add: better_def)
  next
    case (Some lo)
    obtain low z where best: "best = Some (low, z)" using Some by (cases lo) auto
    with assms(1) have b: "t \<le> low" "blur e (m low) (Some z)" "\<And>y. t \<le> y \<Longrightarrow> y < low \<Longrightarrow> m y = None" by simp_all
    consider "low < doc" | "low = doc" | "doc < low" by linarith
    then show ?thesis
    proof cases
      case 2
      with blur_max [of e "m doc" "Some z" "m' doc" "Some x"] At best b h show ?thesis by (simp add: better_def)
    qed (use At best b h in \<open>simp_all add: better_def\<close>)
  qed
qed (use assms in \<open>cases best; auto simp: better_def head_found_def\<close>)+

text \<open>A union asks a child only past the document it stands on, so a child may be one that has to be driven.\<close>

lemma head_moves:
  assumes "head_behind h t" "finds e m t r" "keeps e True m t (map_option fst r) m'"
  shows "finds e (head_docs h m) t r" "keeps e False (head_docs h m) t u (head_docs (head_of r) m')"
    "settled t (head_of r)" "head_found (head_of r) = r"
proof -
  have behind: "head_docs h m y = m y" if "t \<le> y" for y
    using assms(1) that by (cases h) (auto simp: head_docs_def)
  show "finds e (head_docs h m) t r" using assms(2) behind by (cases r) auto
  have "blur e (head_docs h m y) (head_docs (head_of r) m' y)" if "t \<le> y" for y
    using assms(2,3) behind that by (cases r) (auto simp: head_docs_def head_of_def keeps_def not_less)
  moreover have "head_docs (head_of r) m' y = None" if "y < t" for y
    using assms(2) that by (cases r) (auto simp: head_docs_def head_of_def)
  ultimately show "keeps e False (head_docs h m) t u (head_docs (head_of r) m')"
    unfolding keeps_def by (metis (full_types) blur_lower lower_simps(2) not_le)
  show "settled t (head_of r)" "head_found (head_of r) = r"
    using assms(2) by (cases r; auto simp: head_of_def settled_def head_found_def)+
qed

lemma head_stays:
  assumes "\<not> head_behind h t"
  shows "finds e (head_docs h m) t (head_found h)" "settled t h"
  using assms by (cases h; auto simp: head_docs_def head_found_def settled_def)+

text \<open>One child of the union brought up to the target.\<close>

lemma scan_step:
  assumes "good_stepper e ip B stopped n adv" "wf_cursor ip B c" "fits e True c" "depth c < n" "wf_head B h"
  obtains c' h' s' where
    "(if head_behind h t then map_option (\<lambda>(r, c, s). (c, head_of r, s)) (adv c t s) else Some (c, h, s)) = Some (c', h', s')"
    "same_frame ip B c c'" "wf_head B h'" "stopped s \<longrightarrow> stopped s'"
    "\<And>d x. h' = At d x \<Longrightarrow> t \<le> d"
    "\<not> stopped s' \<Longrightarrow> settled t h' \<and> keeps e False (head_docs h (left ip c)) t None (head_docs h' (left ip c')) \<and>
       finds e (head_docs h (left ip c)) t (head_found h')"
proof (cases "head_behind h t")
  case True
  obtain r c' s' where step: "adv c t s = Some (r, c', s')" "same_frame ip B c c'" "stopped s \<longrightarrow> stopped s'"
    "\<And>d x. r = Some (d, x) \<Longrightarrow> t \<le> d \<and> d < B"
    "\<not> stopped s' \<Longrightarrow> finds e (left ip c) t r \<and>
       keeps e True (left ip c) t (map_option fst r) (left ip c') \<and> (e \<or> steady c \<longrightarrow> rests_on e (left ip c') r)"
    by (rule good_stepperE [OF assms(1,2,3,4), of t s]) blast
  show thesis
  proof (rule that [of c' "head_of r" s'])
    show "t \<le> d" if "head_of r = At d x" for d x using that step(4) by (auto simp: head_of_def split: option.splits)
    show "wf_head B (head_of r)" using step(4) by (auto simp: head_of_def wf_head_def split: option.splits)
    show "settled t (head_of r) \<and> keeps e False (head_docs h (left ip c)) t None (head_docs (head_of r) (left ip c')) \<and>
       finds e (head_docs h (left ip c)) t (head_found (head_of r))" if "\<not> stopped s'"
      using head_moves [OF True, of e "left ip c" r "left ip c'"] step(5) [OF that] by auto
  qed (use True step in simp_all)
next
  case False
  show thesis
  proof (rule that [of c h s])
    show "t \<le> d" if "h = At d x" for d x using that False by simp
  qed (use False assms head_stays(1) [OF False, of e "left ip c"] head_stays(2) [OF False] in \<open>simp_all add: same_frame_def\<close>)
qed

definition or_docs :: "'p intpack \<Rightarrow> 'p cursor list \<Rightarrow> head list \<Rightarrow> docs" where
  "or_docs ip cs hs = any_of (map2 head_docs hs (map (left ip) cs))"

lemma or_docs_simps [simp]:
  "or_docs ip [] hs = (\<lambda>d. None)" "or_docs ip (c # cs) (h # hs) = (\<lambda>d. max (head_docs h (left ip c) d) (or_docs ip cs hs d))"
  by (simp_all add: or_docs_def)

definition in_range :: "nat \<Rightarrow> nat \<Rightarrow> found \<Rightarrow> bool" where
  "in_range t B r \<longleftrightarrow> (\<forall>d x. r = Some (d, x) \<longrightarrow> t \<le> d \<and> d < B)"

lemma in_range_better:
  "in_range t B best \<Longrightarrow> wf_head B h \<Longrightarrow> (\<And>d x. h = At d x \<Longrightarrow> t \<le> d) \<Longrightarrow> in_range t B (better best h)"
  by (cases h) (auto simp: in_range_def wf_head_def better_def split: option.splits if_splits)

lemma or_scan_ok:
  assumes "checkpoint cp stopped" "good_stepper e ip B stopped n adv"
  shows "all_wf ip B n cs \<Longrightarrow> list_all (fits e True) cs \<Longrightarrow> length hs = length cs \<Longrightarrow> list_all (wf_head B) hs \<Longrightarrow> in_range t B best \<Longrightarrow>
    \<exists>r cs' hs' s'. or_scan adv cp cs hs t best s = Some (r, cs', hs', s') \<and>
      list_all2 (same_frame ip B) cs cs' \<and> length hs' = length cs' \<and> list_all (wf_head B) hs' \<and> in_range t B r \<and>
      (stopped s \<longrightarrow> stopped s') \<and>
      (\<not> stopped s' \<longrightarrow>
         list_all (settled t) hs' \<and> keeps e False (or_docs ip cs hs) t None (or_docs ip cs' hs') \<and>
         (\<forall>m. finds e m t best \<longrightarrow> finds e (\<lambda>d. max (m d) (or_docs ip cs hs d)) t r))"
proof (induction cs arbitrary: hs best s)
  case (Cons c cs)
  then obtain h hs0 where hs: "hs = h # hs0" by (cases hs) auto
  with Cons.prems have wf: "wf_cursor ip B c" "fits e True c" "depth c < n" "all_wf ip B n cs" "list_all (fits e True) cs"
    "length hs0 = length cs" "wf_head B h" "list_all (wf_head B) hs0" by simp_all
  obtain stop s1 where cp: "cp s = (stop, s1)" by fastforce
  note st = checkpoint.answers [OF assms(1) cp] checkpoint.sticky [OF assms(1) cp]
  show ?case
  proof (cases stop)
    case True
    have "list_all2 (same_frame ip B) (c # cs) (c # cs)"
      using wf by (simp add: list_all2_same all_wf_def same_frame_def)
    with True cp st wf hs show ?thesis by (simp add: in_range_def)
  next
    case False
    obtain c' h' s2 where step:
      "(if head_behind h t then map_option (\<lambda>(r, c, s). (c, head_of r, s)) (adv c t s1) else Some (c, h, s1)) = Some (c', h', s2)"
      "same_frame ip B c c'" "wf_head B h'" "stopped s1 \<longrightarrow> stopped s2" "\<And>d x. h' = At d x \<Longrightarrow> t \<le> d"
      "\<not> stopped s2 \<Longrightarrow> settled t h' \<and> keeps e False (head_docs h (left ip c)) t None (head_docs h' (left ip c')) \<and>
         finds e (head_docs h (left ip c)) t (head_found h')"
      by (rule scan_step [OF assms(2) wf(1,2,3,7), of t s1]) blast
    have "in_range t B (better best h')" using in_range_better [OF Cons.prems(5) step(3,5)] .
    from Cons.IH [OF wf(4,5,6,8) this, of s2] obtain r cs' hs' s' where rest:
      "or_scan adv cp cs hs0 t (better best h') s2 = Some (r, cs', hs', s')"
      "list_all2 (same_frame ip B) cs cs'" "length hs' = length cs'" "list_all (wf_head B) hs'" "in_range t B r"
      "stopped s2 \<longrightarrow> stopped s'"
      "\<not> stopped s' \<longrightarrow> list_all (settled t) hs' \<and> keeps e False (or_docs ip cs hs0) t None (or_docs ip cs' hs') \<and>
         (\<forall>m. finds e m t (better best h') \<longrightarrow> finds e (\<lambda>d. max (m d) (or_docs ip cs hs0 d)) t r)"
      by blast
    have res: "or_scan adv cp (c # cs) hs t best s = Some (r, c' # cs', h' # hs', s')"
      using cp False step(1) rest(1) hs by simp
    have "list_all (settled t) (h' # hs') \<and> keeps e False (or_docs ip (c # cs) hs) t None (or_docs ip (c' # cs') (h' # hs')) \<and>
        (\<forall>m. finds e m t best \<longrightarrow> finds e (\<lambda>d. max (m d) (or_docs ip (c # cs) hs d)) t r)"
      if "\<not> stopped s'"
    proof -
      have here: "settled t h'" "keeps e False (head_docs h (left ip c)) t None (head_docs h' (left ip c'))"
        "finds e (head_docs h (left ip c)) t (head_found h')"
        using step(6) that rest(6) by auto
      have there: "list_all (settled t) hs'" "keeps e False (or_docs ip cs hs0) t None (or_docs ip cs' hs')"
        "\<And>m. finds e m t (better best h') \<Longrightarrow> finds e (\<lambda>d. max (m d) (or_docs ip cs hs0 d)) t r"
        using rest(7) that by auto
      have "finds e (\<lambda>d. max (m d) (or_docs ip (c # cs) hs d)) t r" if "finds e m t best" for m
        using there(3) [OF better_finds [OF that here(3)]] by (simp add: hs max.assoc)
      moreover have "keeps e False (or_docs ip (c # cs) hs) t None (or_docs ip (c' # cs') (h' # hs'))"
        using here(2) there(2) by (simp add: hs keeps_def blur_max lower_max)
      ultimately show ?thesis using here there by simp
    qed
    with res step(2,3,4) rest st show ?thesis by (intro exI [of _ r] exI [of _ "c' # cs'"] exI [of _ "h' # hs'"] exI [of _ s']) auto
  qed
qed auto

lemma or_step:
  assumes "checkpoint cp stopped" "good_stepper e ip B stopped n adv" "wf_cursor ip B (Or cs hs)" "fits e dr (Or cs hs)"
    "depth (Or cs hs) \<le> n"
  shows "stepped e dr ip B stopped (Or cs hs) t s
    (map_option (\<lambda>(r, cs, hs, s). (r, Or cs hs, s)) (or_scan adv cp cs hs t None s))"
proof -
  have wf: "all_wf ip B n cs" "list_all (fits e True) cs" "length hs = length cs" "list_all (wf_head B) hs" "in_range t B None"
    using assms(3,4,5) by (auto simp: all_wf_list in_range_def)
  from or_scan_ok [OF assms(1,2) wf, of s] obtain r cs' hs' s' where scan:
    "or_scan adv cp cs hs t None s = Some (r, cs', hs', s')" "list_all2 (same_frame ip B) cs cs'"
    "length hs' = length cs'" "list_all (wf_head B) hs'" "in_range t B r" "stopped s \<longrightarrow> stopped s'"
    "\<not> stopped s' \<longrightarrow> list_all (settled t) hs' \<and> keeps e False (or_docs ip cs hs) t None (or_docs ip cs' hs') \<and>
       (\<forall>m. finds e m t None \<longrightarrow> finds e (\<lambda>d. max (m d) (or_docs ip cs hs d)) t r)"
    by blast
  have left: "left ip (Or cs hs) = or_docs ip cs hs" "left ip (Or cs' hs') = or_docs ip cs' hs'" by (auto simp: or_docs_def)
  have low: "or_docs ip cs' hs' y = None" if "list_all (settled t) hs'" "y < t" for y
    using that by (force simp: or_docs_def any_of_None settled_def head_docs_def list_all_iff split: head.splits dest: set_zip_leftD)
  have res: "map_option (\<lambda>(r, cs, hs, s). (r, Or cs hs, s)) (or_scan adv cp cs hs t None s) = Some (r, Or cs' hs', s')"
    using scan(1) by simp
  have "stepped e False ip B stopped (Or cs hs) t s (Some (r, Or cs' hs', s'))"
  proof (rule steppedI [OF refl])
    show "same_frame ip B (Or cs hs) (Or cs' hs')" using same_frames [OF scan(2)] scan(3,4) by (simp add: same_frame_def fun_eq_iff)
    show "t \<le> d \<and> d < B" if "r = Some (d, x)" for d x using scan(5) that by (simp add: in_range_def)
    assume "\<not> stopped s'"
    with scan(7) have now: "list_all (settled t) hs'" "keeps e False (or_docs ip cs hs) t None (or_docs ip cs' hs')"
      "\<And>m. finds e m t None \<Longrightarrow> finds e (\<lambda>d. max (m d) (or_docs ip cs hs d)) t r" by blast+
    have least: "finds e (or_docs ip cs hs) t r" using now(3) [of "\<lambda>d. None"] by simp
    show "finds e (left ip (Or cs hs)) t r" unfolding left by (rule least)
    show "keeps e False (left ip (Or cs hs)) t (map_option fst r) (left ip (Or cs' hs'))"
      using now(2) unfolding left by (simp add: keeps_def)
    show "rests_on e (left ip (Or cs' hs')) r" unfolding left
    proof (cases r)
      case (Some dx)
      then obtain d x where r: "r = Some (d, x)" by (cases dx) auto
      have "blur e None (or_docs ip cs' hs' y)" if "y < d" for y
      proof (cases "y < t")
        case False
        with least r that have "or_docs ip cs hs y = None" by simp
        with now(2) show ?thesis by (simp add: keeps_def) (metis lower_simps(4))
      qed (use low now(1) in auto)
      with r show "rests_on e (or_docs ip cs' hs') r" by (simp add: rests_def)
    qed simp
  qed (use scan(6) in blast)
  then show ?thesis unfolding res by (rule stepped_weaken)
qed

section \<open>Every step keeps the contract\<close>

lemma maybe_step:
  assumes "good_stepper e ip B stopped n adv" "wf_cursor ip B c" "fits e dr c" "depth c < n"
  shows "stepped e dr ip B stopped (MaybeOf c) t s
    (map_option (\<lambda>(r, c, s). (map_option (\<lambda>(doc, x). (doc, Maybe)) r, MaybeOf c, s)) (adv c t s))"
proof -
  obtain r c' s' where step: "adv c t s = Some (r, c', s')" "same_frame ip B c c'" "stopped s \<longrightarrow> stopped s'"
    "\<And>d x. r = Some (d, x) \<Longrightarrow> t \<le> d \<and> d < B"
    "\<not> stopped s' \<Longrightarrow> finds e (left ip c) t r \<and>
       keeps e dr (left ip c) t (map_option fst r) (left ip c') \<and> (e \<or> steady c \<longrightarrow> rests_on e (left ip c') r)"
    by (rule good_stepperE [OF assms, of t s]) blast
  let ?r = "map_option (\<lambda>(doc, x). (doc, Maybe)) r"
  have fst_r: "map_option fst ?r = map_option fst r" by (cases r) auto
  have least: "finds e (\<lambda>d. min (m d) (Some Maybe)) t ?r" if "finds e m t r" for m
  proof (cases r)
    case (Some dx)
    then obtain d x where "r = Some (d, x)" by (cases dx) auto
    with that blur_min [of e "m d" "Some x" "Some Maybe" "Some Maybe"] show ?thesis by simp
  qed (use that in simp)
  have stands: "rests_on e (\<lambda>d. min (m d) (Some Maybe)) ?r" if "rests_on e m r" for m
    using that by (cases r) (auto intro: rests_min)
  have kept: "keeps e dr (\<lambda>d. min (m d) (Some Maybe)) t u (\<lambda>d. min (m' d) (Some Maybe))" if "keeps e dr m t u m'" for m m' u
    using that by (auto simp: keeps_def blur_min lower_min)
  show ?thesis
  proof (rule steppedI [where r = ?r and c' = "MaybeOf c'" and s' = s'])
    show "t \<le> d \<and> d < B" if "?r = Some (d, x)" for d x using that step(4) by auto
    show "keeps e dr (left ip (MaybeOf c)) t (map_option fst ?r) (left ip (MaybeOf c'))" if "\<not> stopped s'"
      unfolding fst_r using kept step(5) [OF that] by simp
  qed (use step least stands in \<open>auto simp: same_frame_def fun_eq_iff\<close>)
qed

context checkpoint
begin

lemma scan_words_going:
  "scan_words checkpoint word bits rest s = (Some d, s') \<Longrightarrow> \<not> stopped s \<Longrightarrow> \<not> stopped s'"
proof (induction rest arbitrary: word bits s)
  case (Cons b rest)
  obtain stop s1 where cp: "checkpoint s = (stop, s1)" by fastforce
  with Cons answers [OF cp] show ?case by (cases stop) (auto simp: scan_words.simps [of checkpoint word] split: if_splits)
qed (auto simp: scan_words.simps split: if_splits prod.splits)

lemma docset_next_geq_going:
  assumes "docset_next_geq_with checkpoint ds start s = (Some d, s')"
  shows "\<not> stopped s'"
proof -
  obtain stop s1 where cp: "checkpoint s = (stop, s1)" by fastforce
  with assms answers [OF cp] scan_words_going show ?thesis
    by (auto simp: docset_next_geq_with_def Let_def split: if_splits)
qed

lemma bits_step:
  assumes "wf_cursor ip B (Bits b)" "bits_next_geq checkpoint b t s = (r, b', s')"
  shows "stepped e dr ip B stopped (Bits b) t s (Some (r, Bits b', s'))"
proof -
  obtain found s1 where scan: "docset_next_geq_with checkpoint (bt_docs b) (max t (bt_floor b)) s = (found, s1)" by fastforce
  from assms(1) have wf: "wf_docset (bt_docs b)" "\<forall>d\<in>members (bt_docs b). d < B" by simp_all
  note spec = docset_next_geq_with_spec [OF wf(1) scan]
  have "stepped e False ip B stopped (Bits b) t s (Some (r, Bits b', s'))"
  proof (cases found)
    case None
    with assms(2) scan have "r = None" "b' = b" "s' = s1" by (simp_all add: bits_next_geq_def)
    moreover have "d \<notin> members (bt_docs b) \<or> d < t \<or> d < bt_floor b" if "\<not> stopped s1" for d
      using spec None that by (auto simp: less_max_iff_disj)
    ultimately show ?thesis using spec assms(1)
      by (intro steppedI [OF refl]) (auto simp: same_frame_def bits_docs_def not_less [symmetric])
  next
    case (Some d)
    with assms(2) scan have r: "r = Some (d, bt_certainty b)" "b' = b\<lparr>bt_floor := d\<rparr>" "s' = s1"
      by (simp_all add: bits_next_geq_def)
    have "\<not> stopped s1" using docset_next_geq_going scan Some by blast
    with spec Some have first: "d \<in> members (bt_docs b)" "t \<le> d" "bt_floor b \<le> d"
      "\<And>x. x \<in> members (bt_docs b) \<Longrightarrow> t \<le> x \<Longrightarrow> bt_floor b \<le> x \<Longrightarrow> d \<le> x" by auto
    show ?thesis
    proof (rule steppedI [OF refl])
      show "same_frame ip B (Bits b) (Bits b')" using assms(1) by (simp add: same_frame_def fun_eq_iff r)
      show "stopped s \<longrightarrow> stopped s'" using spec r by blast
    qed (use first wf r in \<open>auto simp: bits_docs_def keeps_def rests_def dest: first(4)\<close>)
  qed
  then show ?thesis by (rule stepped_weaken)
qed

lemma postings_step:
  assumes "intpack_ok ip" "e \<longrightarrow> intpack_ends ip" "wf_cursor ip B (Postings pc)" "fits e dr (Postings pc)"
    "pcursor_next_geq ip checkpoint pc t s = (r, pc', s')"
  shows "stepped e dr ip B stopped (Postings pc) t s (Some (r, Postings pc', s'))"
proof -
  from assms(3) have wf: "wf_pcursor ip pc" "\<forall>d. pcursor_left ip pc d \<noteq> None \<longrightarrow> d < B" by simp_all
  note ok = pcursor_next_geq_ok [OF assms(1) wf(1) assms(5)]
  have below: "\<forall>d. pcursor_left ip pc' d \<noteq> None \<longrightarrow> d < B" using wf(2) keeps_from_None [OF ok(4)] by metis
  have "stepped e False ip B stopped (Postings pc) t s (Some (r, Postings pc', s'))"
  proof (rule steppedI [OF refl])
    show "same_frame ip B (Postings pc) (Postings pc')"
      using below ok(2,3) by (simp add: same_frame_def fun_eq_iff no_fingerprints_def)
    show "t \<le> d \<and> d < B" if "r = Some (d, x)" for d x using ok(5) that wf(2) by simp
    show "stopped s \<longrightarrow> stopped s'" by (rule ok(1))
    assume "\<not> stopped s'"
    with ok(5) have "least_from (pcursor_left ip pc) t r" by blast
    then show "finds e (left ip (Postings pc)) t r" by (cases r) auto
    show "keeps e False (left ip (Postings pc)) t (map_option fst r) (left ip (Postings pc'))"
      using ok(4) by (simp add: keeps_from_def keeps_def lower_def)
    show "rests_on e (left ip (Postings pc')) r" if "e \<or> steady (Postings pc)"
    proof (cases "steady (Postings pc)")
      case True
      with ok(6) show ?thesis by (cases r) (auto simp: rests_def)
    next
      case False
      with that assms(2,4) ok(7) have e: e "passes (pcursor_left ip pc') r" by (auto simp: fits_def)
      have "blur e None v" if "v \<noteq> Some Yes" for v using that e(1) by (cases v rule: certainty_cases) auto
      with e(2) show ?thesis by (cases r) (auto simp: rests_def)
    qed
  qed
  then show ?thesis by (rule stepped_weaken)
qed

lemma advance_good:
  assumes "intpack_ok ip" "B \<le> 2 ^ 32" "e \<longrightarrow> intpack_ends ip"
  shows "k + B < n \<Longrightarrow> good_stepper e ip B stopped k (advance ip checkpoint n)"
proof (induction n arbitrary: k)
  case (Suc n)
  note cp_ok = checkpoint_axioms
  show ?case unfolding good_stepper_def
  proof (intro allI impI)
    fix dr c t s
    assume c: "wf_cursor ip B c \<and> fits e dr c \<and> depth c < k"
    then obtain j where k: "k = Suc j" by (cases k) auto
    with Suc have good: "good_stepper e ip B stopped j (advance ip checkpoint n)" and n: "0 < n" "B < n" by auto
    obtain stop s1 where cp: "checkpoint s = (stop, s1)" by fastforce
    note st = answers [OF cp] sticky [OF cp]
    let ?res = "advance ip checkpoint (Suc n) c t s"
    show "stepped e dr ip B stopped c t s ?res"
    proof (cases stop)
      case True
      then show ?thesis using cp st c by (intro stepped_cancelled) simp_all
    next
      case False
      then have go: "\<not> stopped s1" "stopped s \<longrightarrow> stopped s1" using st by auto
      have "stepped e dr ip B stopped c t s1 ?res"
      proof (cases c)
        case (Postings pc)
        with c cp False postings_step [OF assms(1,3)] show ?thesis by (simp split: prod.split)
      next
        case (Bits b)
        with c cp False bits_step [of ip B b t s1] show ?thesis by (simp split: prod.split)
      next
        case (And cs)
        show ?thesis
        proof (cases cs)
          case Nil
          with And cp False show ?thesis by (intro stepped_nothing) (simp_all add: leapfrog_def)
        next
          case (Cons d ds)
          have "all_wf ip B j (d # ds)" "list_all (fits e dr) (d # ds)" using c k And Cons by (simp_all add: all_wf_list)
          from leapfrog_loop_ok [OF cp_ok good this n(1), of t s1] n And Cons cp False show ?thesis
            by (simp add: leapfrog_def)
        qed
      next
        case (Or cs hs)
        with or_step [OF cp_ok good, of cs hs dr t s1] c k cp False show ?thesis by simp
      next
        case (AndNot d p)
        with negation.pair_loop_ok [OF cp_ok good assms(2), of d p dr n t s1] c k n cp False
          Suc_le_eq
        show ?thesis by (simp add: and_not_loop_pair)
      next
        case (Filter d p)
        with filtering.pair_loop_ok [OF cp_ok good assms(2), of d p dr n t s1] c k n cp False
          Suc_le_eq
        show ?thesis by (simp add: filter_loop_pair)
      next
        case (MaybeOf d)
        with maybe_step [OF good, of d dr t s1] c k cp False show ?thesis by simp
      next
        case Empty
        with cp False show ?thesis by (intro stepped_nothing) simp_all
      qed
      then show ?thesis using go by (simp add: stepped_def)
    qed
  qed
qed simp

end

end
