(* ===== verification/Cursor_Walk.thy ===== *)
theory Cursor_Walk
  imports Cursor
begin

text \<open>
  Walking a cursor tree: sequences of \<open>next_geq\<close> and \<open>next_geq_until\<close> from a
  fresh tree, a small codec for examples, and a negation that gives a weaker answer than its meaning.
\<close>

section \<open>Fresh trees\<close>

primrec fresh :: "'p cursor \<Rightarrow> bool" and fresh_probe :: "'p probe \<Rightarrow> bool" where
  "fresh (Postings pc) \<longleftrightarrow> pc_at pc = 0 \<and> pc_inner pc = None"
| "fresh (Bits b) \<longleftrightarrow> bt_floor b = 0"
| "fresh (And cs) \<longleftrightarrow> list_all id (map fresh cs)"
| "fresh (Or cs hs) \<longleftrightarrow> list_all id (map fresh cs) \<and> hs = replicate (length cs) Fresh"
| "fresh (AndNot c p) \<longleftrightarrow> fresh c \<and> fresh_probe p"
| "fresh (Filter c p) \<longleftrightarrow> fresh c \<and> fresh_probe p"
| "fresh (MaybeOf c) \<longleftrightarrow> fresh c"
| "fresh Empty \<longleftrightarrow> True"
| "fresh_probe (Probe c) \<longleftrightarrow> fresh c"

lemma any_of_fresh: "any_of (map2 head_docs (replicate (length ms) Fresh) ms) = any_of ms"
  by (induction ms) (simp_all add: head_docs_def)

lemma fresh_left: "fresh c \<Longrightarrow> left ip c = meaning ip c"
  and fresh_probe_left: "fresh_probe p \<Longrightarrow> probe_left ip p = probe_meaning ip p"
proof (induction c and p rule: cursor.induct probe.induct)
  case (And cs)
  then show ?case by (auto simp: list_all_iff cong: map_cong)
next
  case (Or cs hs)
  then have same: "map (left ip) cs = map (meaning ip) cs" by (auto simp: list_all_iff)
  from Or.prems show ?case using any_of_fresh [of "map (meaning ip) cs"] by (simp add: same)
qed (auto simp: pcursor_left_def)

text \<open>A sequence of calls on one cursor.\<close>

fun seek_all :: "'p intpack \<Rightarrow> nat \<Rightarrow> 'p cursor \<Rightarrow> nat list \<Rightarrow> found list option" where
  "seek_all ip n c [] = Some []"
| "seek_all ip n c (t # ts) =
     (case next_geq ip n c t of
        None \<Rightarrow> None
      | Some (r, c) \<Rightarrow> map_option (Cons r) (seek_all ip n c ts))"

fun seek_until ::
  "'p intpack \<Rightarrow> (nat \<Rightarrow> bool) \<Rightarrow> nat \<Rightarrow> 'p cursor \<Rightarrow> advance_state \<Rightarrow> nat list \<Rightarrow> (read_error + found list) option"
where
  "seek_until ip cancelled n c a [] = Some (Inr [])"
| "seek_until ip cancelled n c a (t # ts) =
     (case next_geq_until ip cancelled n c t a of
        None \<Rightarrow> None
      | Some (Inl e, c, a) \<Rightarrow> Some (Inl e)
      | Some (Inr r, c, a) \<Rightarrow> map_option (map_sum id (Cons r)) (seek_until ip cancelled n c a ts))"

text \<open>
  Two ways to choose the targets of a walk. A walk that is not driven needs targets that never decrease. A driven one
  goes on from the answers: each target is at or past the document returned last, and no call
  follows the end.
\<close>

definition may_follow :: "bool \<Rightarrow> nat \<Rightarrow> found \<Rightarrow> nat \<Rightarrow> bool" where
  "may_follow driven t r u \<longleftrightarrow> (if driven then (case r of None \<Rightarrow> False | Some (d, x) \<Rightarrow> d \<le> u) else t \<le> u)"

fun in_step :: "bool \<Rightarrow> nat list \<Rightarrow> found list \<Rightarrow> bool" where
  "in_step driven (t # u # ts) (r # rs) \<longleftrightarrow> may_follow driven t r u \<and> in_step driven (u # ts) rs"
| "in_step driven ts rs \<longleftrightarrow> True"

lemma in_step_sorted: "sorted ts \<Longrightarrow> in_step False ts rs"
  by (induction False ts rs rule: in_step.induct) (auto simp: may_follow_def)

text \<open>A cursor that stands at most at \<open>t\<close> on the documents \<open>m\<close>.\<close>

definition standing :: "bool \<Rightarrow> bool \<Rightarrow> 'p intpack \<Rightarrow> nat \<Rightarrow> docs \<Rightarrow> nat \<Rightarrow> 'p cursor \<Rightarrow> bool" where
  "standing e dr ip B m t c \<longleftrightarrow> wf_cursor ip B c \<and> fits e dr c \<and> (\<forall>y\<ge>t. blur e (m y) (left ip c y))"

interpretation advancing: checkpoint "advance_step cancelled" av_stopped for cancelled
  by unfold_locales (auto simp: advance_step_def Let_def split: if_splits)

lemma finds_blur: "(\<And>y. t \<le> y \<Longrightarrow> blur e (m y) (m' y)) \<Longrightarrow> finds e m' t r \<Longrightarrow> finds e m t r"
proof (cases r)
  case (Some dx)
  assume same: "\<And>y. t \<le> y \<Longrightarrow> blur e (m y) (m' y)" and there: "finds e m' t r"
  obtain d x where r: "r = Some (d, x)" using Some by (cases dx) auto
  have "m y = None" if "t \<le> y" "y < d" for y using same [of y] there r that by simp
  with same [of d] there r show ?thesis by (auto intro: blur_trans)
qed (metis blur_simps(3) finds_simps(1))

text \<open>What a walk needs: the codec, a bound of the documents, and fuel for the levels and the documents.\<close>

definition walkable :: "bool \<Rightarrow> 'p intpack \<Rightarrow> nat \<Rightarrow> nat \<Rightarrow> 'p cursor \<Rightarrow> bool" where
  "walkable e ip B n c \<longleftrightarrow> intpack_ok ip \<and> (e \<longrightarrow> intpack_ends ip) \<and> B \<le> 2 ^ 32 \<and> depth c + B + 1 < n"

lemma standing_step:
  assumes "stepped e dr ip B stopped c t s res" "fits e dr c"
  obtains r c' s' where "res = Some (r, c', s')" "depth c' = depth c" "wf_cursor ip B c'" "fits e dr c'" "stopped s \<longrightarrow> stopped s'"
    "\<And>d x. r = Some (d, x) \<Longrightarrow> d < B"
    "\<And>m. \<not> stopped s' \<Longrightarrow> standing e dr ip B m t c \<Longrightarrow> finds e m t r \<and> (\<forall>u. may_follow dr t r u \<longrightarrow> standing e dr ip B m u c')"
proof -
  from assms(1) obtain r c' s' where step: "res = Some (r, c', s')" "same_frame ip B c c'" "stopped s \<longrightarrow> stopped s'"
    "\<not> stopped s' \<longrightarrow> finds e (left ip c) t r \<and> keeps e dr (left ip c) t (map_option fst r) (left ip c')"
    "\<And>d x. r = Some (d, x) \<Longrightarrow> d < B"
    unfolding stepped_def by blast
  show thesis
  proof (rule that [OF step(1)])
    fix m
    assume now: "\<not> stopped s'" "standing e dr ip B m t c"
    from step(4) now have here: "finds e (left ip c) t r" "keeps e dr (left ip c) t (map_option fst r) (left ip c')" by blast+
    have m: "blur e (m y) (left ip c y)" if "t \<le> y" for y using now(2) that by (simp add: standing_def)
    have "blur e (m y) (left ip c' y)" if "may_follow dr t r u" "u \<le> y" for u y
      using here m [of y] that by (cases r) (auto simp: may_follow_def keeps_def split: if_splits intro: blur_trans)
    with same_frameD [OF step(2)] now(2) have "\<forall>u. may_follow dr t r u \<longrightarrow> standing e dr ip B m u c'" by (auto simp: standing_def)
    with finds_blur [of t e m "left ip c" r] m here show "finds e m t r \<and> (\<forall>u. may_follow dr t r u \<longrightarrow> standing e dr ip B m u c')" by blast
  qed (use same_frameD [OF step(2)] step(3,5) assms(2) in auto)
qed

lemma standing_fresh: "wf_cursor ip B c \<Longrightarrow> fits e dr c \<Longrightarrow> fresh c \<Longrightarrow> standing e dr ip B (meaning ip c) t c"
  using fresh_left [of c ip] by (simp add: standing_def)

lemma next_geq_standing:
  assumes "walkable e ip B n c" "wf_cursor ip B c" "fits e dr c"
  obtains r c' where "next_geq ip n c t = Some (r, c')" "walkable e ip B n c'" "wf_cursor ip B c'" "fits e dr c'"
    "\<And>m. standing e dr ip B m t c \<Longrightarrow> finds e m t r \<and> (\<forall>u. may_follow dr t r u \<longrightarrow> standing e dr ip B m u c')"
proof -
  have "good_stepper e ip B (\<lambda>_. False) (Suc (depth c)) (advance ip no_checkpoint n)"
    by (rule no_checkpoint.advance_good) (use assms(1) in \<open>simp_all add: walkable_def\<close>)
  then have "stepped e dr ip B (\<lambda>_. False) c t () (advance ip no_checkpoint n c t ())"
    using assms by (simp add: good_stepper_def)
  then show thesis
    by (rule standing_step [OF _ assms(3)]) (use assms(1) in \<open>auto simp: next_geq_def walkable_def intro: that\<close>)
qed

lemma next_geq_until_standing:
  assumes "walkable e ip B n c" "wf_cursor ip B c" "fits e dr c"
  obtains (stop) c' a' where "next_geq_until ip cancelled n c t a = Some (Inl ReCancelled, c', a')"
  | (found) r c' a' where "next_geq_until ip cancelled n c t a = Some (Inr r, c', a')"
      "walkable e ip B n c'" "wf_cursor ip B c'" "fits e dr c'" "\<not> av_stopped a'" "\<And>d x. r = Some (d, x) \<Longrightarrow> d < B"
      "\<And>m. standing e dr ip B m t c \<Longrightarrow> finds e m t r \<and> (\<forall>u. may_follow dr t r u \<longrightarrow> standing e dr ip B m u c')"
proof -
  have "good_stepper e ip B av_stopped (Suc (depth c)) (advance ip (advance_step cancelled) n)"
    by (rule advancing.advance_good) (use assms(1) in \<open>simp_all add: walkable_def\<close>)
  then have step: "stepped e dr ip B av_stopped c t a (advance ip (advance_step cancelled) n c t a)"
    using assms by (simp add: good_stepper_def)
  obtain r c' a' where res: "advance ip (advance_step cancelled) n c t a = Some (r, c', a')" "depth c' = depth c"
    "wf_cursor ip B c'" "fits e dr c'" "\<And>d x. r = Some (d, x) \<Longrightarrow> d < B"
    "\<And>m. \<not> av_stopped a' \<Longrightarrow> standing e dr ip B m t c \<Longrightarrow> finds e m t r \<and> (\<forall>u. may_follow dr t r u \<longrightarrow> standing e dr ip B m u c')"
    by (rule standing_step [OF step assms(3)]) blast
  show thesis
  proof (cases "av_stopped a'")
    case True
    with res(1) show thesis by (intro stop [of c' a']) (simp add: next_geq_until_def)
  next
    case False
    with res assms(1) show thesis by (intro found [of r c' a']) (simp_all add: next_geq_until_def walkable_def)
  qed
qed

lemma seek_all_ok:
  "walkable e ip B n c \<Longrightarrow> wf_cursor ip B c \<Longrightarrow> fits e dr c \<Longrightarrow>
    \<exists>rs. seek_all ip n c ts = Some rs \<and>
      (\<forall>m. (ts \<noteq> [] \<longrightarrow> standing e dr ip B m (hd ts) c) \<and> in_step dr ts rs \<longrightarrow> list_all2 (finds e m) ts rs)"
proof (induction ts arbitrary: c)
  case (Cons t ts)
  obtain r c' where step: "next_geq ip n c t = Some (r, c')" "walkable e ip B n c'" "wf_cursor ip B c'" "fits e dr c'"
    "\<And>m. standing e dr ip B m t c \<Longrightarrow> finds e m t r \<and> (\<forall>u. may_follow dr t r u \<longrightarrow> standing e dr ip B m u c')"
    by (rule next_geq_standing [OF Cons.prems, of t]) blast
  from Cons.IH [OF step(2-4)] obtain rs where rest: "seek_all ip n c' ts = Some rs"
    "\<And>m. (ts \<noteq> [] \<longrightarrow> standing e dr ip B m (hd ts) c') \<Longrightarrow> in_step dr ts rs \<Longrightarrow> list_all2 (finds e m) ts rs" by blast
  have "list_all2 (finds e m) (t # ts) (r # rs)" if "standing e dr ip B m t c" "in_step dr (t # ts) (r # rs)" for m
    using step(5) [OF that(1)] rest(2) [of m] that(2) by (cases ts) auto
  with step(1) rest(1) show ?case by auto
qed simp

lemma seek_until_ok:
  "walkable e ip B n c \<Longrightarrow> wf_cursor ip B c \<Longrightarrow> fits e dr c \<Longrightarrow>
    seek_until ip cancelled n c a ts = Some (Inl ReCancelled) \<or>
    (\<exists>rs. seek_until ip cancelled n c a ts = Some (Inr rs) \<and>
      (\<forall>m. (ts \<noteq> [] \<longrightarrow> standing e dr ip B m (hd ts) c) \<and> in_step dr ts rs \<longrightarrow> list_all2 (finds e m) ts rs))"
proof (induction ts arbitrary: c a)
  case (Cons t ts)
  show ?case
  proof (cases rule: next_geq_until_standing [OF Cons.prems, of cancelled t a, case_names stop found])
    case (found r c' a')
    from Cons.IH [OF found(2-4), of a'] show ?thesis
    proof
      assume "\<exists>rs. seek_until ip cancelled n c' a' ts = Some (Inr rs) \<and>
        (\<forall>m. (ts \<noteq> [] \<longrightarrow> standing e dr ip B m (hd ts) c') \<and> in_step dr ts rs \<longrightarrow> list_all2 (finds e m) ts rs)"
      then obtain rs where rest: "seek_until ip cancelled n c' a' ts = Some (Inr rs)"
        "\<And>m. (ts \<noteq> [] \<longrightarrow> standing e dr ip B m (hd ts) c') \<Longrightarrow> in_step dr ts rs \<Longrightarrow> list_all2 (finds e m) ts rs" by blast
      have "list_all2 (finds e m) (t # ts) (r # rs)" if "standing e dr ip B m t c" "in_step dr (t # ts) (r # rs)" for m
        using found(7) [OF that(1)] rest(2) [of m] that(2) by (cases ts) auto
      with found(1) rest(1) show ?thesis by auto
    qed (use found in simp)
  qed auto
qed simp

lemma finds_False: "finds False = least_from"
  by (intro ext) (rule finds_exact)


text \<open>
  C34: A cancellable walk over a fresh tree ends in one of two ways: it reports
  cancellation, or every document it returned is exact, under the same conditions on tree and targets as for a walk that
  cannot be cancelled. Whatever the cancellation function answers and whenever, no answer taken from a half-advanced tree is
  ever passed on.
\<close>

theorem cancelled_walk_never_wrong:
  assumes "intpack_ok ip" "wf_cursor ip B c" "fresh c" "exact c driven" "B \<le> 2 ^ 32" "depth c + B + 1 < n"
  shows "seek_until ip cancelled n c a ts = Some (Inl ReCancelled) \<or>
    (\<exists>rs. seek_until ip cancelled n c a ts = Some (Inr rs) \<and>
      (in_step driven ts rs \<longrightarrow> list_all2 (least_from (meaning ip c)) ts rs))"
proof -
  have walk: "walkable False ip B n c" and fit: "fits False driven c" using assms by (simp_all add: walkable_def fits_def)
  from seek_until_ok [OF walk assms(2) fit, of cancelled a ts] standing_fresh [OF assms(2) fit assms(3)] show ?thesis
    by (auto simp: finds_False)
qed


section \<open>A codec for examples\<close>

text \<open>One byte for each id, in place of the packed blocks of \<open>intpack\<close>.\<close>

definition byte_intpack :: "nat list intpack" where
  "byte_intpack =
     \<lparr>ip_new = (\<lambda>df bs. map unat (take df bs)),
      ip_next_geq = (\<lambda>p t. let q = dropWhile (\<lambda>d. d < t) p in (case q of [] \<Rightarrow> None | d # _ \<Rightarrow> Some d, q)),
      ip_next = (\<lambda>p. (case tl p of [] \<Rightarrow> None | d # _ \<Rightarrow> Some d, tl p)),
      ip_decode = (\<lambda>df bs. map unat (take df bs))\<rparr>"

lemma byte_left: "sorted_wrt (<) p \<Longrightarrow> ip_left byte_intpack p = set p"
proof (induction p)
  case (Cons d p)
  have "fst (ip_next_geq byte_intpack (d # p) x) = Some x \<longleftrightarrow> x = d \<or> d < x \<and> fst (ip_next_geq byte_intpack p x) = Some x" for x
    by (auto simp: byte_intpack_def Let_def)
  moreover have "\<forall>x\<in>set p. d < x" using Cons.prems by simp
  ultimately show ?case using Cons by (auto simp: ip_left_def)
qed (simp add: ip_left_def byte_intpack_def)

lemma byte_step:
  assumes "sorted_wrt (<) p" "ip_next_geq byte_intpack p t = (r, q)"
  shows "sorted_wrt (<) q" "first_from (set p) t r" "set q = {d \<in> set p. t \<le> d}" "r = Some d \<Longrightarrow> y \<in> set q \<Longrightarrow> d \<le> y"
proof -
  have q: "q = dropWhile (\<lambda>d. d < t) p" "r = (case q of [] \<Rightarrow> None | d # _ \<Rightarrow> Some d)"
    using assms(2) by (auto simp: byte_intpack_def Let_def)
  have "q = filter (\<lambda>d. t \<le> d) p"
    unfolding q using assms(1) by (induction p) (fastforce intro: filter_True [symmetric])+
  then show sorted: "sorted_wrt (<) q" and set: "set q = {d \<in> set p. t \<le> d}"
    using assms(1) by (auto simp: sorted_wrt_filter)
  have "\<forall>d\<in>set q. t \<le> d" using set by simp
  then have "first_from (set q) t r" using q(2) sorted by (cases q) (auto simp: less_imp_le)
  then show "first_from (set p) t r" unfolding set by (cases r) (auto simp: not_le)
  show "d \<le> y" if "r = Some d" "y \<in> set q" using that q(2) sorted by (cases q) auto
qed

text \<open>Any codec that keeps the decoded ids and seeks in them the same way.\<close>

lemma list_intpack_ok:
  assumes geq: "ip_next_geq ip = ip_next_geq byte_intpack" and new: "ip_new ip = ip_decode ip"
  shows "intpack_ok ip"
proof -
  have left: "ip_left ip p = set p" if "sorted_wrt (<) p" for p
    using byte_left [OF that] by (simp add: ip_left_def geq)
  note step = byte_step [folded geq]
  have state: "sorted_wrt (<) p" if "ip_state ip p" for p
    using that
  proof induction
    case (step p t)
    then show ?case using byte_step(1) [folded geq] by (metis prod.collapse)
  qed (simp add: new)
  have "first_from (ip_left ip p) t r \<and> ip_left ip p' \<subseteq> ip_left ip p \<and>
      (\<forall>d\<in>ip_left ip p. t \<le> d \<longrightarrow> d \<in> ip_left ip p') \<and> (\<forall>d. r = Some d \<longrightarrow> (\<forall>y\<in>ip_left ip p'. d \<le> y))"
    if "ip_state ip p" "ip_next_geq ip p t = (r, p')" for p t r p'
    using step [OF state [OF that(1)] that(2)] left state that(1) by auto
  with left show ?thesis unfolding intpack_ok_def new by blast
qed

lemma list_intpack_ends:
  assumes "ip_next_geq ip = ip_next_geq byte_intpack"
  shows "intpack_ends ip"
  unfolding intpack_ends_def assms ip_left_def
  by (auto simp: byte_intpack_def Let_def simp del: dropWhile_eq_Nil_conv split: list.splits)

lemma byte_intpack_ok: "intpack_ok byte_intpack"
  by (rule list_intpack_ok) (simp_all add: byte_intpack_def)

text \<open>A term with three documents in a list and a fingerprint document, less a bitmap: \<open>a AND NOT b\<close>.\<close>

definition sample_part :: part where
  "sample_part = \<lparr>part_last = 20, part_hit = Some (hit.Postings \<lparr>pl_first = 2, pl_df = 3, pl_bytes = [9, 1, 3, 10], pl_start = 1\<rparr>),
     part_maybe = [7]\<rparr>"

definition sample_tree :: "nat list cursor" where
  "sample_tree =
     AndNot (Postings \<lparr>pc_parts = [sample_part], pc_at = 0, pc_inner = None, pc_docs = 4\<rparr>)
       (Probe (Bits \<lparr>bt_docs = docset_new 30 [5], bt_certainty = Yes, bt_floor = 0\<rparr>))"

lemma sample_docs:
  "part_left byte_intpack sample_part None d = (if d = 3 \<or> d = 5 \<or> d = 12 then Some Yes else if d = 7 then Some Maybe else None)"
  using byte_left [of "[1, 3, 10]"]
  by (auto simp: part_left_def hit_left_def posting_left_def sample_part_def plist_cursor_def byte_intpack_def)

lemma sample_tree_ok: "wf_cursor byte_intpack 30 sample_tree" "fresh sample_tree" "depth sample_tree = 1" "exact sample_tree True"
proof -
  have "wf_parts byte_intpack 0 [sample_part] None"
    using sample_docs by (auto simp: hit_ok_def sample_part_def byte_intpack_def split: if_splits)
  moreover have "\<forall>d. parts_left byte_intpack [sample_part] None d \<noteq> None \<longrightarrow> d < 30"
    using sample_docs by (auto split: if_splits)
  ultimately show "wf_cursor byte_intpack 30 sample_tree"
    using docset_new_members [of 30 "[5]"] by (auto simp: sample_tree_def wf_pcursor_def pcursor_left_def)
  show "fresh sample_tree" "depth sample_tree = 1" "exact sample_tree True" by (simp_all add: sample_tree_def)
qed

lemma next_geq_new:
  assumes "sorted xs" "\<forall>d\<in>set xs. d < bound"
  shows "docset_next_geq_with no_checkpoint (docset_new bound xs) t () = (List.find (\<lambda>d. t \<le> d) xs, ())"
proof -
  have mem: "members (docset_new bound xs) = set xs" using assms(2) by (auto simp: docset_new_members)
  have "first_from (set xs) t (List.find (\<lambda>d. t \<le> d) xs)"
    using assms(1) by (induction xs) (auto simp: first_from_def split: option.splits)
  moreover define found where "found = fst (docset_next_geq_with no_checkpoint (docset_new bound xs) t ())"
  moreover have res: "docset_next_geq_with no_checkpoint (docset_new bound xs) t () = (found, ())"
    by (simp add: found_def prod_eq_iff)
  moreover have "first_from (set xs) t found"
    using no_checkpoint.docset_next_geq_with_spec [OF docset_new_members(2) res] by (simp add: mem)
  ultimately show ?thesis using first_from_unique by auto
qed

lemmas run_sample = next_geq_def no_checkpoint_def test_with_def bits_next_geq_def next_geq_new pcursor_next_geq_def
  part_found_def part_maybe_from_def partition_point_def checked_add_u32_def

lemma sample_walk: "seek_all byte_intpack (5 + n) sample_tree [0, 4, 13] = Some [Some (3, Yes), Some (7, Maybe), None]"
proof -
  have fuel: "5 + n = Suc (Suc (Suc (Suc (Suc n))))" by simp
  show ?thesis unfolding fuel
    by (simp add: sample_tree_def sample_part_def run_sample plist_cursor_def posting_next_geq_def byte_intpack_def wrapping_add_u32_def)
qed


theorem cancelled_walk_never_wrong_witness:
  "seek_until byte_intpack (\<lambda>i. i = 2) 40 sample_tree (advance_new 0) [0] = Some (Inl ReCancelled) \<or>
   (\<exists>r. seek_until byte_intpack (\<lambda>i. i = 2) 40 sample_tree (advance_new 0) [0] = Some (Inr [r]) \<and>
      least_from (meaning byte_intpack sample_tree) 0 r)"
  using cancelled_walk_never_wrong [OF byte_intpack_ok sample_tree_ok(1,2,4), of 40 "\<lambda>i. i = 2" "advance_new 0" "[0]"]
  by (auto simp: sample_tree_ok(3) list_all2_Cons1)

section \<open>A negation that is tested\<close>

text \<open>
  Where the condition of \<open>exact\<close> fails. The inner negation is from a term with two fingerprint documents. Tested for document 3
  it runs on to 80, and its negated bitmap with it; tested for 20 the term steps back, the bitmap does not, and document 20, ruled
  out by the bitmap, is possible again: the outer negation then returns it as possible where it is certain.
\<close>

definition tested_negation :: "nat list cursor" where
  "tested_negation =
     AndNot (Bits \<lparr>bt_docs = docset_new 128 [3, 20], bt_certainty = Yes, bt_floor = 0\<rparr>)
       (Probe (AndNot
         (Postings \<lparr>pc_parts = [\<lparr>part_last = 100, part_hit = None, part_maybe = [20, 80]\<rparr>],
                    pc_at = 0, pc_inner = None, pc_docs = 2\<rparr>)
         (Probe (Bits \<lparr>bt_docs = docset_new 128 [20, 85], bt_certainty = Yes, bt_floor = 0\<rparr>))))"

theorem tested_negation_downgrades:
  "seek_all byte_intpack (5 + n) tested_negation [0, 4] = Some [Some (3, Yes), Some (20, Maybe)] \<and>
   meaning byte_intpack tested_negation 20 = Some Yes \<and> \<not> exact tested_negation driven"
proof -
  have fuel: "5 + n = Suc (Suc (Suc (Suc (Suc n))))" by simp
  have "seek_all byte_intpack (5 + n) tested_negation [0, 4] = Some [Some (3, Yes), Some (20, Maybe)]"
    unfolding fuel by (simp add: tested_negation_def run_sample)
  moreover have "meaning byte_intpack tested_negation 20 = Some Yes"
    by (simp add: tested_negation_def bits_docs_def docset_new_members part_left_def hit_left_def kleene_not_def)
  moreover have "\<not> exact tested_negation driven" by (simp add: tested_negation_def no_fingerprints_def)
  ultimately show ?thesis by blast
qed

lemma tested_negation_ok:
  "wf_cursor byte_intpack 128 tested_negation" "fresh tested_negation" "depth tested_negation = 2" "apart tested_negation"
proof -
  have "wf_parts byte_intpack 0 [\<lparr>part_last = 100, part_hit = None, part_maybe = [20, 80]\<rparr>] None"
    by (auto simp: hit_ok_def part_left_def hit_left_def)
  then show "wf_cursor byte_intpack 128 tested_negation"
    using docset_new_members [of 128]
    by (auto simp: tested_negation_def wf_pcursor_def pcursor_left_def part_left_def hit_left_def split: if_splits)
  show "fresh tested_negation" "depth tested_negation = 2" "apart tested_negation"
    by (simp_all add: tested_negation_def part_apart_def)
qed

lemma byte_intpack_ends: "intpack_ends byte_intpack"
  by (rule list_intpack_ends) simp


end
