(* ===== verification/Manifest.thy ===== *)
theory Manifest
  imports Byte_Codec "HOL-Library.Monad_Syntax"
begin

text \<open>
  The index manifest (\<open>ferret-index/src/manifest.rs\<close>): its encoding, the
  decoder that refuses anything malformed, the consistency check, and reading
  it from a file whose length was asked before. BLAKE3 is a parameter
  (\<open>checksum\<close>) whose only documented fact used is the digest's length of 16
  bytes. Arrays \<open>[u8; 16]\<close> are byte lists of that length. The outer option of
  \<open>manifest_decode\<close> is \<open>None\<close> when an index expression would panic, the
  inner one is the source's \<open>Option\<close>. File reads are a function from offset
  and length to an I/O error or the bytes there, fewer only at the end of the
  file.

  Results: decoding inverts encoding on every consistent manifest, what
  decodes is consistent and re-encodes to the same bytes, decoding never
  panics, and reading through the head first gives the same answer as
  decoding the whole file.
\<close>

section \<open>Data\<close>

record segment_entry =
  se_number :: u64
  se_first :: u32
  se_last :: u32
  se_docs :: u32
  se_terms :: u64
  se_pairs :: u64
  se_bytes :: u64
  se_digest :: bytes
  se_trigram_bytes :: u64
  se_trigram_keys :: u64
  se_trigram_pairs :: u64
  se_trigram_digest :: bytes

record manifest =
  mf_tokenizer_version :: u32
  mf_trigram_version :: u32
  mf_incarnation :: bytes
  mf_high_water :: u32
  mf_frontier :: u32
  mf_sequence :: u64
  mf_next_number :: u64
  mf_last_follow :: "u64 option"
  mf_last_merge :: "u64 option"
  mf_segments :: "segment_entry list"
  mf_unreadable :: "u32 list"

text \<open>\<open>segment::Info\<close>, the fields the manifest compares.\<close>

record info =
  in_first :: u32
  in_last :: u32
  in_terms :: u64
  in_pairs :: u64
  in_tokenizer_version :: u32

definition total_bytes :: "segment_entry \<Rightarrow> u64" where
  "total_bytes s = se_bytes s + se_trigram_bytes s"

definition matches_trigrams :: "segment_entry \<Rightarrow> info \<Rightarrow> bytes \<Rightarrow> u64 \<Rightarrow> u32 \<Rightarrow> bool" where
  "matches_trigrams self info digest bytes version \<longleftrightarrow>
     (in_first info, in_last info, in_terms info, in_pairs info, in_tokenizer_version info) =
       (se_first self, se_last self, se_trigram_keys self, se_trigram_pairs self, version) \<and>
     digest = se_trigram_digest self \<and> bytes = se_trigram_bytes self"

definition entry_matches :: "segment_entry \<Rightarrow> info \<Rightarrow> bytes \<Rightarrow> u64 \<Rightarrow> u32 \<Rightarrow> bool" where
  "entry_matches self info digest bytes tokenizer \<longleftrightarrow>
     (in_first info, in_last info, in_terms info, in_pairs info, in_tokenizer_version info) =
       (se_first self, se_last self, se_terms self, se_pairs self, tokenizer) \<and>
     digest = se_digest self \<and> bytes = se_bytes self"

text \<open>\<open>ferret_text::TERM_VERSION\<close> and \<open>ferret_text::TRIGRAM_VERSION\<close>.\<close>

definition term_version :: u32 where
  "term_version = 2"

definition trigram_version :: u32 where
  "trigram_version = 0x74720001"

definition manifest_empty :: "bytes \<Rightarrow> manifest" where
  "manifest_empty incarnation =
     \<lparr>mf_tokenizer_version = term_version, mf_trigram_version = trigram_version,
      mf_incarnation = incarnation, mf_high_water = 0, mf_frontier = 0, mf_sequence = 0,
      mf_next_number = 0, mf_last_follow = None, mf_last_merge = None,
      mf_segments = [], mf_unreadable = []\<rparr>"

section \<open>Encoding\<close>

text \<open>\<open>*b"ferretix"\<close>.\<close>

definition manifest_magic :: bytes where
  "manifest_magic = [0x66, 0x65, 0x72, 0x72, 0x65, 0x74, 0x69, 0x78]"

definition manifest_format_version :: u32 where
  "manifest_format_version = 3"

definition manifest_head :: nat where
  "manifest_head = 88"

definition manifest_entry :: nat where
  "manifest_entry = 104"

definition unwrap_or :: "'a \<Rightarrow> 'a option \<Rightarrow> 'a" where
  "unwrap_or d x = (case x of Some v \<Rightarrow> v | None \<Rightarrow> d)"

text \<open>\<open>[0; 4]\<close>, written to and required in the reserved fields.\<close>

definition reserved4 :: bytes where
  "reserved4 = [0, 0, 0, 0]"

definition encode_head :: "manifest \<Rightarrow> bytes" where
  "encode_head m =
     manifest_magic @ le32 manifest_format_version @ le32 (mf_tokenizer_version m) @
     mf_incarnation m @ le32 (mf_high_water m) @ le32 (mf_frontier m) @
     le64 (mf_sequence m) @ le64 (mf_next_number m) @
     le32 (of_nat (length (mf_segments m))) @ le32 (of_nat (length (mf_unreadable m))) @
     le64 (unwrap_or 0 (mf_last_follow m)) @ le64 (unwrap_or 0 (mf_last_merge m)) @
     le32 (mf_trigram_version m) @ reserved4"

definition encode_entry :: "segment_entry \<Rightarrow> bytes" where
  "encode_entry s =
     le64 (se_number s) @ le32 (se_first s) @ le32 (se_last s) @ le32 (se_docs s) @
     reserved4 @ le64 (se_terms s) @ le64 (se_pairs s) @ le64 (se_bytes s) @
     se_digest s @ le64 (se_trigram_bytes s) @ le64 (se_trigram_keys s) @
     le64 (se_trigram_pairs s) @ se_trigram_digest s"

definition manifest_encode :: "(bytes \<Rightarrow> bytes) \<Rightarrow> manifest \<Rightarrow> bytes" where
  "manifest_encode checksum m =
     (let out = encode_head m @ concat (map encode_entry (mf_segments m)) @
                concat (map le32 (mf_unreadable m)) in
      out @ checksum out)"

section \<open>Decoding\<close>

definition checked_mul_u64 :: "nat \<Rightarrow> nat \<Rightarrow> nat option" where
  "checked_mul_u64 a b = (if a * b < 2 ^ 64 then Some (a * b) else None)"

definition manifest_len :: "nat \<Rightarrow> nat \<Rightarrow> nat option" where
  "manifest_len count unreadable = do {
     entries \<leftarrow> checked_mul_u64 count manifest_entry;
     len \<leftarrow> checked_add_u64 (manifest_head + 16) entries;
     docs \<leftarrow> checked_mul_u64 unreadable 4;
     checked_add_u64 len docs }"

text \<open>\<open>||\<close> stops at the first disjunct that holds, so the fields are read only
  once the head is long enough. The outer option is the panic.\<close>

definition declared_len :: "bytes \<Rightarrow> nat option option" where
  "declared_len bs =
     (if length bs < manifest_head then Some None
      else do {
        magic \<leftarrow> slice bs 0 8;
        if magic \<noteq> manifest_magic then Some None
        else do {
          version \<leftarrow> u32_at bs 8;
          if version \<noteq> manifest_format_version then Some None
          else do {
            reserved \<leftarrow> slice bs 84 88;
            if reserved \<noteq> reserved4 then Some None
            else do {
              count \<leftarrow> map_option unat (u32_at bs 56);
              unreadable \<leftarrow> map_option unat (u32_at bs 60);
              Some (manifest_len count unreadable)
            }
          }
        }
      })"

definition decode_entry :: "bytes \<Rightarrow> nat \<Rightarrow> segment_entry option option" where
  "decode_entry bs at = do {
     digest \<leftarrow> slice bs (at + 48) (at + 64);
     zero \<leftarrow> slice bs (at + 20) (at + 24);
     if zero \<noteq> reserved4 then Some None
     else do {
       number \<leftarrow> u64_at bs at;
       first \<leftarrow> u32_at bs (at + 8);
       last \<leftarrow> u32_at bs (at + 12);
       docs \<leftarrow> u32_at bs (at + 16);
       terms \<leftarrow> u64_at bs (at + 24);
       pairs \<leftarrow> u64_at bs (at + 32);
       size \<leftarrow> u64_at bs (at + 40);
       tri_bytes \<leftarrow> u64_at bs (at + 64);
       tri_keys \<leftarrow> u64_at bs (at + 72);
       tri_pairs \<leftarrow> u64_at bs (at + 80);
       tri_digest \<leftarrow> slice bs (at + 88) (at + 104);
       Some (Some \<lparr>se_number = number, se_first = first, se_last = last, se_docs = docs,
         se_terms = terms, se_pairs = pairs, se_bytes = size, se_digest = digest,
         se_trigram_bytes = tri_bytes, se_trigram_keys = tri_keys,
         se_trigram_pairs = tri_pairs, se_trigram_digest = tri_digest\<rparr>)
     }
   }"

fun decode_entries :: "bytes \<Rightarrow> nat list \<Rightarrow> segment_entry list option option" where
  "decode_entries bs [] = Some (Some [])"
| "decode_entries bs (i # is) = do {
     entry \<leftarrow> decode_entry bs (manifest_head + i * manifest_entry);
     (case entry of
        None \<Rightarrow> Some None
      | Some s \<Rightarrow> map_option (map_option ((#) s)) (decode_entries bs is)) }"

fun decode_docs :: "bytes \<Rightarrow> nat \<Rightarrow> nat list \<Rightarrow> u32 list option" where
  "decode_docs bs at [] = Some []"
| "decode_docs bs at (i # is) = do {
     doc \<leftarrow> u32_at bs (at + i * 4);
     docs \<leftarrow> decode_docs bs at is;
     Some (doc # docs) }"

definition nonzero :: "u64 \<Rightarrow> u64 option" where
  "nonzero n = (if n \<noteq> 0 then Some n else None)"

definition is_consistent :: "manifest \<Rightarrow> bool" where
  "is_consistent m \<longleftrightarrow>
     (list_all (\<lambda>s. se_first s \<le> se_last s \<and> se_last s < mf_frontier m \<and> se_number s < mf_next_number m)
        (mf_segments m) \<and>
      list_all (\<lambda>p. se_last (p ! 0) < se_first (p ! 1)) (windows 2 (mf_segments m))) \<and>
     (list_all (\<lambda>p. p ! 0 < p ! 1) (windows 2 (mf_unreadable m)) \<and>
      (mf_unreadable m \<noteq> [] \<longrightarrow> last (mf_unreadable m) < mf_frontier m)) \<and>
     mf_frontier m \<le> mf_high_water m"

definition decode_body :: "bytes \<Rightarrow> manifest option option" where
  "decode_body bs = do {
     incarnation \<leftarrow> slice bs 16 32;
     count \<leftarrow> map_option unat (u32_at bs 56);
     unreadable \<leftarrow> map_option unat (u32_at bs 60);
     tokenizer \<leftarrow> u32_at bs 12;
     trigram \<leftarrow> u32_at bs 80;
     high \<leftarrow> u32_at bs 32;
     frontier \<leftarrow> u32_at bs 36;
     sequence \<leftarrow> u64_at bs 40;
     number \<leftarrow> u64_at bs 48;
     follow \<leftarrow> u64_at bs 64;
     merge \<leftarrow> u64_at bs 72;
     segments \<leftarrow> decode_entries bs [0..<count];
     (case segments of
        None \<Rightarrow> Some None
      | Some segments \<Rightarrow> do {
          docs \<leftarrow> decode_docs bs (manifest_head + count * manifest_entry) [0..<unreadable];
          let m = \<lparr>mf_tokenizer_version = tokenizer, mf_trigram_version = trigram,
                mf_incarnation = incarnation, mf_high_water = high, mf_frontier = frontier,
                mf_sequence = sequence, mf_next_number = number,
                mf_last_follow = nonzero follow, mf_last_merge = nonzero merge,
                mf_segments = segments, mf_unreadable = docs\<rparr>;
          Some (if is_consistent m then Some m else None) }) }"

definition manifest_decode :: "(bytes \<Rightarrow> bytes) \<Rightarrow> bytes \<Rightarrow> manifest option option" where
  "manifest_decode checksum bs = do {
     declared \<leftarrow> declared_len bs;
     if declared \<noteq> Some (length bs) then Some None
     else do {
       let body = length bs - 16;
       content \<leftarrow> slice bs 0 body;
       digest \<leftarrow> slice bs body (length bs);
       if checksum content \<noteq> digest then Some None else decode_body bs
     }
   }"

section \<open>Reading a file\<close>

text \<open>\<open>read_exact_at\<close>: the bytes, or \<open>None\<close> where the file ends first
  (\<open>ErrorKind::UnexpectedEof\<close>).\<close>

definition read_exact :: "(nat \<Rightarrow> nat \<Rightarrow> 'e + bytes) \<Rightarrow> nat \<Rightarrow> nat \<Rightarrow> 'e + bytes option" where
  "read_exact pread offset n =
     (case pread offset n of
        Inl e \<Rightarrow> Inl e
      | Inr bs \<Rightarrow> Inr (if length bs = n then Some bs else None))"

text \<open>The last read asks for one byte past the declared length: a file that
  grew since it was opened is refused.\<close>

definition read_rest ::
  "(bytes \<Rightarrow> bytes) \<Rightarrow> (nat \<Rightarrow> nat \<Rightarrow> 'e + bytes) \<Rightarrow> bytes \<Rightarrow> nat \<Rightarrow> ('e + manifest option) option"
where
  "read_rest checksum pread head len =
     (case read_exact pread manifest_head (len - manifest_head) of
        Inl e \<Rightarrow> Some (Inl e)
      | Inr None \<Rightarrow> Some (Inr None)
      | Inr (Some rest) \<Rightarrow>
          (case pread len 1 of
             Inl e \<Rightarrow> Some (Inl e)
           | Inr extra \<Rightarrow>
               if extra \<noteq> [] then Some (Inr None)
               else map_option Inr (manifest_decode checksum (head @ rest))))"

definition read_from ::
  "(bytes \<Rightarrow> bytes) \<Rightarrow> (nat \<Rightarrow> nat \<Rightarrow> 'e + bytes) \<Rightarrow> nat \<Rightarrow> ('e + manifest option) option"
where
  "read_from checksum pread len =
     (if len < manifest_head then Some (Inr None)
      else
        (case read_exact pread 0 manifest_head of
           Inl e \<Rightarrow> Some (Inl e)
         | Inr None \<Rightarrow> Some (Inr None)
         | Inr (Some head) \<Rightarrow> do {
             declared \<leftarrow> declared_len head;
             if declared \<noteq> Some len then Some (Inr None)
             else read_rest checksum pread head len }))"

section \<open>Reading fields\<close>

lemma length_reserved4 [simp]: "length reserved4 = 4"
  by (simp add: reserved4_def)

lemma reads_None:
  "slice bs a b = None \<longleftrightarrow> b < a \<or> length bs < b" "u32_at bs a = None \<longleftrightarrow> length bs < a + 4"
  "u64_at bs a = None \<longleftrightarrow> length bs < a + 8"
  by (auto simp: slice_def u32_at_def u64_at_def)

named_theorems no_panic \<open>a computation that may panic does not\<close>

lemma bind_no_panic [no_panic]: "x \<noteq> None \<Longrightarrow> (\<And>v. x = Some v \<Longrightarrow> f v \<noteq> None) \<Longrightarrow> x \<bind> f \<noteq> None"
  by (cases x) simp_all

lemma if_no_panic [no_panic]: "(c \<Longrightarrow> x \<noteq> None) \<Longrightarrow> (\<not> c \<Longrightarrow> y \<noteq> None) \<Longrightarrow> (if c then x else y) \<noteq> None"
  by simp

lemma case_no_panic [no_panic]: "(x = None \<Longrightarrow> a \<noteq> None) \<Longrightarrow> (\<And>v. x = Some v \<Longrightarrow> f v \<noteq> None) \<Longrightarrow> case_option a f x \<noteq> None"
  by (cases x) simp_all

lemma Some_no_panic [no_panic]: "Some x \<noteq> None"
  by simp

lemmas field_reads = bind_eq_Some_conv slice_eq_Some u32_at_Some u64_at_Some holds_at_append

section \<open>Each decoder against its encoder\<close>

definition wf_entry :: "segment_entry \<Rightarrow> bool" where
  "wf_entry s \<longleftrightarrow> length (se_digest s) = 16 \<and> length (se_trigram_digest s) = 16"

definition wf_manifest :: "manifest \<Rightarrow> bool" where
  "wf_manifest m \<longleftrightarrow>
     length (mf_incarnation m) = 16 \<and> list_all wf_entry (mf_segments m) \<and>
     length (mf_segments m) < 2 ^ 32 \<and> length (mf_unreadable m) < 2 ^ 32 \<and>
     mf_last_follow m \<noteq> Some 0 \<and> mf_last_merge m \<noteq> Some 0"

lemma decode_entry_iff:
  "decode_entry bs at = Some (Some s) \<longleftrightarrow> wf_entry s \<and> holds_at bs at (encode_entry s)"
  by (cases s)
     (auto simp: decode_entry_def encode_entry_def wf_entry_def field_reads add.assoc split: if_splits)

lemma length_encode_entry: "wf_entry s \<Longrightarrow> length (encode_entry s) = manifest_entry"
  by (simp add: encode_entry_def wf_entry_def manifest_entry_def)

lemma decode_entry_no_panic: "at + manifest_entry \<le> length bs \<Longrightarrow> decode_entry bs at \<noteq> None"
  unfolding decode_entry_def manifest_entry_def by (intro no_panic) (simp_all add: reads_None)

lemma decode_entries_iff:
  "decode_entries bs [k..<k + n] = Some (Some ss) \<longleftrightarrow>
     length ss = n \<and> list_all wf_entry ss \<and>
     (n = 0 \<or> holds_at bs (manifest_head + k * manifest_entry) (concat (map encode_entry ss)))"
proof (induction n arbitrary: k ss)
  case (Suc n)
  have upt: "[k..<k + Suc n] = k # [Suc k..<Suc k + n]" by (simp add: upt_conv_Cons)
  have step: "manifest_head + k * manifest_entry + length (encode_entry s) = manifest_head + Suc k * manifest_entry"
    if "wf_entry s" for s using length_encode_entry [OF that] by simp
  have one: "holds_at bs (manifest_head + k * manifest_entry) (encode_entry s @ concat (map encode_entry ss)) \<longleftrightarrow>
      holds_at bs (manifest_head + k * manifest_entry) (encode_entry s) \<and>
      (n = 0 \<or> holds_at bs (manifest_head + Suc k * manifest_entry) (concat (map encode_entry ss)))"
    if "wf_entry s" "length ss = n" for s ss
    using that holds_at_length [of bs "manifest_head + k * manifest_entry" "encode_entry s"]
    unfolding holds_at_append step [OF that(1)] by (auto simp: holds_at_Nil)
  show ?case
  proof (cases ss)
    case Nil
    then show ?thesis unfolding upt
      by (auto simp: bind_eq_Some_conv split: option.splits)
  next
    case (Cons s ss')
    have "decode_entries bs [k..<k + Suc n] = Some (Some ss) \<longleftrightarrow>
        decode_entry bs (manifest_head + k * manifest_entry) = Some (Some s) \<and>
        decode_entries bs [Suc k..<Suc k + n] = Some (Some ss')"
      unfolding upt Cons by (auto simp: bind_eq_Some_conv split: option.splits)
    then show ?thesis
      unfolding decode_entry_iff Suc.IH Cons using one [of s ss'] by auto
  qed
qed auto

lemma decode_docs_iff:
  "decode_docs bs at [k..<k + n] = Some ds \<longleftrightarrow>
     length ds = n \<and> (n = 0 \<or> holds_at bs (at + k * 4) (concat (map le32 ds)))"
proof (induction n arbitrary: k ds)
  case (Suc n)
  have upt: "[k..<k + Suc n] = k # [Suc k..<Suc k + n]" by (simp add: upt_conv_Cons)
  have one: "holds_at bs (at + k * 4) (le32 d @ concat (map le32 ds)) \<longleftrightarrow>
      holds_at bs (at + k * 4) (le32 d) \<and> (n = 0 \<or> holds_at bs (at + Suc k * 4) (concat (map le32 ds)))"
    if "length ds = n" for d ds
    using that holds_at_length [of bs "at + k * 4" "le32 d"]
    unfolding holds_at_append by (auto simp: holds_at_Nil add.commute add.left_commute)
  show ?case
  proof (cases ds)
    case Nil
    then show ?thesis unfolding upt by (auto simp: bind_eq_Some_conv)
  next
    case (Cons d ds')
    have "decode_docs bs at [k..<k + Suc n] = Some ds \<longleftrightarrow>
        u32_at bs (at + k * 4) = Some d \<and> decode_docs bs at [Suc k..<Suc k + n] = Some ds'"
      unfolding upt Cons by (auto simp: bind_eq_Some_conv)
    then show ?thesis
      unfolding u32_at_Some Suc.IH Cons using one [of ds' d] by auto
  qed
qed auto

lemma decode_entries_no_panic:
  "(\<And>i. i \<in> set is \<Longrightarrow> manifest_head + i * manifest_entry + manifest_entry \<le> length bs) \<Longrightarrow>
     decode_entries bs is \<noteq> None"
proof (induction "is")
  case (Cons i "is")
  then have "decode_entries bs is \<noteq> None" by simp
  then show ?case
    unfolding decode_entries.simps using Cons.prems
    by (intro no_panic) (auto simp: decode_entry_no_panic)
qed simp

lemma decode_docs_no_panic:
  "(\<And>i. i \<in> set is \<Longrightarrow> at + i * 4 + 4 \<le> length bs) \<Longrightarrow> decode_docs bs at is \<noteq> None"
proof (induction "is")
  case (Cons i "is")
  then have "decode_docs bs at is \<noteq> None" by simp
  then show ?case
    unfolding decode_docs.simps using Cons.prems by (intro no_panic) (auto simp: reads_None not_less)
qed simp

section \<open>The whole file\<close>

text \<open>The head from the tokenizer version to the trigram version.\<close>

definition head_fields :: "manifest \<Rightarrow> bytes" where
  "head_fields m =
     le32 (mf_tokenizer_version m) @ mf_incarnation m @ le32 (mf_high_water m) @
     le32 (mf_frontier m) @ le64 (mf_sequence m) @ le64 (mf_next_number m) @
     le32 (of_nat (length (mf_segments m))) @ le32 (of_nat (length (mf_unreadable m))) @
     le64 (unwrap_or 0 (mf_last_follow m)) @ le64 (unwrap_or 0 (mf_last_merge m)) @
     le32 (mf_trigram_version m)"

lemma encode_head_fields:
  "encode_head m = manifest_magic @ le32 manifest_format_version @ head_fields m @ reserved4"
  by (simp add: encode_head_def head_fields_def)

lemma length_manifest_magic [simp]: "length manifest_magic = 8"
  by (simp add: manifest_magic_def)

lemma length_head_fields: "wf_manifest m \<Longrightarrow> length (head_fields m) = 72"
  by (simp add: head_fields_def wf_manifest_def)

lemma length_encode_head: "wf_manifest m \<Longrightarrow> length (encode_head m) = manifest_head"
  by (simp add: encode_head_fields length_head_fields manifest_head_def)

lemma length_concat_entries:
  "list_all wf_entry ss \<Longrightarrow> length (concat (map encode_entry ss)) = length ss * manifest_entry"
  by (induction ss) (simp_all add: length_encode_entry)

lemma length_concat_docs: "length (concat (map le32 ds)) = length ds * 4"
  by (induction ds) simp_all

lemma nonzero_unwrap: "nonzero (unwrap_or 0 x) = x \<longleftrightarrow> x \<noteq> Some 0"
  by (cases x) (auto simp: nonzero_def unwrap_or_def)

lemma unwrap_nonzero [simp]: "unwrap_or 0 (nonzero n) = n" "nonzero n \<noteq> Some 0"
  by (simp_all add: nonzero_def unwrap_or_def)

lemma u32_of_length: "n < 2 ^ 32 \<Longrightarrow> unat (of_nat n :: u32) = n"
  by (simp add: unat_of_nat)

lemma manifest_len_words:
  "manifest_len (unat (c :: u32)) (unat (u :: u32)) =
   Some (manifest_head + 16 + unat c * manifest_entry + unat u * 4)"
proof -
  have "unat c < 2 ^ 32" "unat u < 2 ^ 32" using unsigned_less [of c, where ?'a = nat] unsigned_less [of u, where ?'a = nat] by simp_all
  then show ?thesis
    by (simp add: manifest_len_def checked_mul_u64_def checked_add_u64_def manifest_entry_def manifest_head_def)
qed

lemma declared_len_iff:
  "declared_len bs = Some (Some n) \<longleftrightarrow>
     manifest_head \<le> length bs \<and> holds_at bs 0 manifest_magic \<and>
     holds_at bs 8 (le32 manifest_format_version) \<and> holds_at bs 84 reserved4 \<and>
     (\<exists>c u. holds_at bs 56 (le32 c) \<and> holds_at bs 60 (le32 u) \<and>
       n = manifest_head + 16 + unat c * manifest_entry + unat u * 4)"
  unfolding declared_len_def
  by (auto simp: field_reads manifest_len_words not_less split: if_splits)
     (blast, metis manifest_len_words)

lemma declared_len_no_panic: "declared_len bs \<noteq> None"
  unfolding declared_len_def
  by (intro no_panic) (simp_all add: reads_None manifest_head_def not_less)

lemma decode_body_Some:
  "decode_body bs = Some (Some m) \<longleftrightarrow>
     wf_manifest m \<and> is_consistent m \<and> holds_at bs 12 (head_fields m) \<and>
     (mf_segments m = [] \<or> holds_at bs manifest_head (concat (map encode_entry (mf_segments m)))) \<and>
     (mf_unreadable m = [] \<or> holds_at bs (manifest_head + length (mf_segments m) * manifest_entry)
        (concat (map le32 (mf_unreadable m))))"
  (is "?decoded \<longleftrightarrow> ?fields")
proof
  assume ?decoded
  then obtain c u docs where c: "u32_at bs 56 = Some c" and u: "u32_at bs 60 = Some u"
    and es: "decode_entries bs [0..<0 + unat c] = Some (Some (mf_segments m))"
    and ds: "decode_docs bs (manifest_head + unat c * manifest_entry) [0..<0 + unat u] = Some (mf_unreadable m)"
    and ok: "is_consistent m"
    and head: "holds_at bs 12 (le32 (mf_tokenizer_version m) @ mf_incarnation m @ le32 (mf_high_water m) @
       le32 (mf_frontier m) @ le64 (mf_sequence m) @ le64 (mf_next_number m) @
       le32 c @ le32 u @
       le64 (unwrap_or 0 (mf_last_follow m)) @ le64 (unwrap_or 0 (mf_last_merge m)) @
       le32 (mf_trigram_version m))"
    and more: "length (mf_incarnation m) = 16" "mf_last_follow m \<noteq> Some 0" "mf_last_merge m \<noteq> Some 0"
    unfolding decode_body_def
    by (auto simp: field_reads Let_def split: option.splits if_splits)
  from es ds have len: "length (mf_segments m) = unat c" "length (mf_unreadable m) = unat u" "list_all wf_entry (mf_segments m)"
    unfolding decode_entries_iff decode_docs_iff by simp_all
  then have "wf_manifest m"
    using more unsigned_less [of c, where ?'a = nat] unsigned_less [of u, where ?'a = nat] by (simp add: wf_manifest_def)
  moreover have "holds_at bs 12 (head_fields m)" using head by (simp add: head_fields_def len)
  ultimately show ?fields
    using es ds ok unfolding decode_entries_iff decode_docs_iff len(1,2) [symmetric] by auto
next
  assume f: ?fields
  let ?c = "of_nat (length (mf_segments m)) :: u32" and ?u = "of_nat (length (mf_unreadable m)) :: u32"
  from f have wf: "wf_manifest m" and head: "holds_at bs 12 (head_fields m)" by blast+
  from wf have inc: "length (mf_incarnation m) = 16" by (simp add: wf_manifest_def)
  from wf have lens: "unat ?c = length (mf_segments m)" "unat ?u = length (mf_unreadable m)"
    by (simp_all add: wf_manifest_def u32_of_length)
  have "decode_entries bs [0..<0 + length (mf_segments m)] = Some (Some (mf_segments m))"
    unfolding decode_entries_iff using f wf by (auto simp: wf_manifest_def)
  moreover have "decode_docs bs (manifest_head + length (mf_segments m) * manifest_entry)
      [0..<0 + length (mf_unreadable m)] = Some (mf_unreadable m)"
    unfolding decode_docs_iff using f by auto
  moreover have "u32_at bs 56 = Some ?c" "u32_at bs 60 = Some ?u" "slice bs 16 32 = Some (mf_incarnation m)"
    "u32_at bs 12 = Some (mf_tokenizer_version m)" "u32_at bs 80 = Some (mf_trigram_version m)"
    "u32_at bs 32 = Some (mf_high_water m)" "u32_at bs 36 = Some (mf_frontier m)"
    "u64_at bs 40 = Some (mf_sequence m)" "u64_at bs 48 = Some (mf_next_number m)"
    "u64_at bs 64 = Some (unwrap_or 0 (mf_last_follow m))" "u64_at bs 72 = Some (unwrap_or 0 (mf_last_merge m))"
    using inc head by (simp_all add: head_fields_def field_reads)
  moreover have "nonzero (unwrap_or 0 (mf_last_follow m)) = mf_last_follow m"
    "nonzero (unwrap_or 0 (mf_last_merge m)) = mf_last_merge m"
    using wf by (simp_all add: nonzero_unwrap wf_manifest_def)
  moreover have rebuilt: "\<lparr>mf_tokenizer_version = mf_tokenizer_version m, mf_trigram_version = mf_trigram_version m,
      mf_incarnation = mf_incarnation m, mf_high_water = mf_high_water m, mf_frontier = mf_frontier m,
      mf_sequence = mf_sequence m, mf_next_number = mf_next_number m, mf_last_follow = mf_last_follow m,
      mf_last_merge = mf_last_merge m, mf_segments = mf_segments m, mf_unreadable = mf_unreadable m\<rparr> = m"
    by simp
  ultimately show ?decoded
    using f by (simp add: decode_body_def lens Let_def rebuilt)
qed

lemma decode_body_no_panic:
  assumes "declared_len bs = Some (Some (length bs))"
  shows "decode_body bs \<noteq> None"
proof -
  from assms obtain c u where c: "u32_at bs 56 = Some c" and u: "u32_at bs 60 = Some u"
    and len: "length bs = manifest_head + 16 + unat c * manifest_entry + unat u * 4"
    unfolding declared_len_iff u32_at_Some by blast
  have entries: "decode_entries bs [0..<unat c] \<noteq> None"
  proof (rule decode_entries_no_panic)
    fix i
    assume "i \<in> set [0..<unat c]"
    then have "Suc i * manifest_entry \<le> unat c * manifest_entry" by (intro mult_le_mono1) simp
    then show "manifest_head + i * manifest_entry + manifest_entry \<le> length bs" using len by simp
  qed
  have docs: "decode_docs bs (manifest_head + unat c * manifest_entry) [0..<unat u] \<noteq> None"
    by (rule decode_docs_no_panic) (use len in auto)
  have "88 \<le> length bs" using len by (simp add: manifest_head_def)
  with entries docs c u show ?thesis
    unfolding decode_body_def Let_def by (intro no_panic) (auto simp: reads_None)
qed

lemma manifest_decode_iff:
  assumes digest: "\<And>x. length (checksum x) = 16"
  shows "manifest_decode checksum bs = Some (Some m) \<longleftrightarrow>
    wf_manifest m \<and> is_consistent m \<and> bs = manifest_encode checksum m"
    (is "?decoded \<longleftrightarrow> ?encoded")
proof -
  let ?es = "concat (map encode_entry (mf_segments m))" and ?ds = "concat (map le32 (mf_unreadable m))"
  let ?out = "encode_head m @ ?es @ ?ds"
  have lens: "length ?out = manifest_head + length (mf_segments m) * manifest_entry + length (mf_unreadable m) * 4"
    if "wf_manifest m"
    using that by (simp add: length_encode_head length_concat_entries length_concat_docs wf_manifest_def)
  have split: "holds_at bs 0 ?out \<longleftrightarrow>
      holds_at bs 0 manifest_magic \<and> holds_at bs 8 (le32 manifest_format_version) \<and>
      holds_at bs 12 (head_fields m) \<and> holds_at bs 84 reserved4 \<and>
      holds_at bs manifest_head ?es \<and>
      holds_at bs (manifest_head + length (mf_segments m) * manifest_entry) ?ds"
    if "wf_manifest m"
    using that length_concat_entries [of "mf_segments m"]
    unfolding holds_at_append length_encode_head [OF that] encode_head_fields
    by (simp add: length_head_fields manifest_head_def) (simp add: wf_manifest_def manifest_head_def)
  have counts: "holds_at bs 56 (le32 c) \<and> holds_at bs 60 (le32 u) \<longleftrightarrow>
      c = of_nat (length (mf_segments m)) \<and> u = of_nat (length (mf_unreadable m))"
    if "wf_manifest m" "holds_at bs 12 (head_fields m)" for c u
  proof -
    have "holds_at bs 56 (le32 (of_nat (length (mf_segments m))))" "holds_at bs 60 (le32 (of_nat (length (mf_unreadable m))))"
      using that by (simp_all add: head_fields_def holds_at_append wf_manifest_def)
    then show ?thesis by (metis u32_at_Some option.inject)
  qed
  show ?thesis
  proof
    assume ?decoded
    then have d: "declared_len bs = Some (Some (length bs))" and b: "decode_body bs = Some (Some m)"
      and c: "slice bs (length bs - 16) (length bs) = Some (checksum (take (length bs - 16) bs))"
      unfolding manifest_decode_def Let_def by (auto simp: bind_eq_Some_conv slice_def split: if_splits)
    from b have wf: "wf_manifest m" and head: "holds_at bs 12 (head_fields m)" and ok: "is_consistent m"
      unfolding decode_body_Some by blast+
    have len: "length bs = length ?out + 16"
    proof -
      from d obtain c u where "holds_at bs 56 (le32 c) \<and> holds_at bs 60 (le32 u)"
        and n: "length bs = manifest_head + 16 + unat c * manifest_entry + unat u * 4"
        unfolding declared_len_iff by blast
      then have "c = of_nat (length (mf_segments m))" "u = of_nat (length (mf_unreadable m))"
        using counts [OF wf head] by blast+
      with n wf show ?thesis unfolding lens [OF wf] by (simp add: wf_manifest_def u32_of_length)
    qed
    have "holds_at bs 0 ?out"
      using d b len unfolding split [OF wf] declared_len_iff decode_body_Some lens [OF wf] by (auto simp: holds_at_Nil)
    then obtain suf where suf: "bs = ?out @ suf" by (auto simp: holds_at_iff)
    with len have "take (length bs - 16) bs = ?out" "length suf = 16" by simp_all
    with c suf have "suf = checksum ?out" by (simp add: slice_def)
    with suf wf ok show ?encoded by (simp add: manifest_encode_def Let_def)
  next
    assume e: ?encoded
    then have wf: "wf_manifest m" and ok: "is_consistent m" and bs: "bs = ?out @ checksum ?out"
      by (simp_all add: manifest_encode_def Let_def)
    then have len: "length bs = length ?out + 16" by (simp add: digest)
    have "holds_at bs 0 ?out" unfolding holds_at_iff bs by force
    note parts = this [unfolded split [OF wf]]
    have "declared_len bs = Some (Some (length bs))"
      unfolding declared_len_iff
    proof (intro conjI exI)
      show "holds_at bs 56 (le32 (of_nat (length (mf_segments m))))" "holds_at bs 60 (le32 (of_nat (length (mf_unreadable m))))"
        using counts [OF wf] parts by blast+
      show "length bs = manifest_head + 16 + unat (of_nat (length (mf_segments m)) :: u32) * manifest_entry +
          unat (of_nat (length (mf_unreadable m)) :: u32) * 4"
        using wf len unfolding lens [OF wf] by (simp add: wf_manifest_def u32_of_length)
      show "manifest_head \<le> length bs" using len unfolding lens [OF wf] by simp
    qed (use parts in blast)+
    moreover have "decode_body bs = Some (Some m)" unfolding decode_body_Some using parts wf ok by blast
    moreover have "slice bs 0 (length bs - 16) = Some ?out" "slice bs (length bs - 16) (length bs) = Some (checksum ?out)"
      unfolding len by (simp_all add: slice_def bs digest)
    ultimately show ?decoded by (simp add: manifest_decode_def Let_def)
  qed
qed

lemma manifest_decode_no_panic: "manifest_decode checksum bs \<noteq> None"
proof -
  have "slice bs 0 (length bs - 16) \<noteq> None" "slice bs (length bs - 16) (length bs) \<noteq> None"
    by (simp_all add: reads_None)
  then show ?thesis
    unfolding manifest_decode_def Let_def
    by (intro no_panic) (auto simp: declared_len_no_panic decode_body_no_panic)
qed

section \<open>Reading through the head first\<close>

text \<open>A file with fixed content.\<close>

definition file_pread :: "bytes \<Rightarrow> nat \<Rightarrow> nat \<Rightarrow> 'e + bytes" where
  "file_pread content offset n = Inr (take n (drop offset content))"

lemma declared_len_take: "declared_len (take manifest_head bs) = declared_len bs"
proof (cases "manifest_head \<le> length bs")
  case True
  then have sl: "slice (take manifest_head bs) a b = slice bs a b" if "b \<le> manifest_head" for a b
    using that by (auto simp: slice_def min_def drop_take)
  then have u: "u32_at (take manifest_head bs) a = u32_at bs a" if "a + 4 \<le> manifest_head" for a
    using that by (simp add: u32_at_def)
  have "slice (take manifest_head bs) 0 8 = slice bs 0 8" "slice (take manifest_head bs) 84 88 = slice bs 84 88"
    "u32_at (take manifest_head bs) 8 = u32_at bs 8" "u32_at (take manifest_head bs) 56 = u32_at bs 56"
    "u32_at (take manifest_head bs) 60 = u32_at bs 60"
    by (intro sl u; simp add: manifest_head_def)+
  note eqs = this
  show ?thesis unfolding declared_len_def eqs using True by simp
qed simp

lemma declared_len_other: "declared_len bs \<noteq> Some (Some (length bs)) \<Longrightarrow> manifest_decode checksum bs = Some None"
  using declared_len_no_panic [of bs] by (auto simp: manifest_decode_def)

lemma read_from_file:
  "read_from checksum (file_pread content) len =
     (if len = length content then map_option Inr (manifest_decode checksum content) else Some (Inr None))"
proof (cases "manifest_head \<le> len \<and> manifest_head \<le> length content \<and> declared_len content = Some (Some len)")
  case False
  moreover have "len = length content \<Longrightarrow> manifest_decode checksum content = Some None"
  proof -
    assume len: "len = length content"
    then have "declared_len content \<noteq> Some (Some (length content))"
      using False by (auto simp: declared_len_iff)
    then show ?thesis by (rule declared_len_other)
  qed
  ultimately show ?thesis
    using declared_len_no_panic [of content] declared_len_take [of content]
    by (auto simp: read_from_def read_exact_def file_pread_def not_le)
next
  case True
  have "take (len - manifest_head) (drop manifest_head content) = drop manifest_head content" if "len = length content"
    using that by simp
  with True show ?thesis
    using declared_len_take [of content]
    by (auto simp: read_from_def read_exact_def file_pread_def read_rest_def)
qed

section \<open>Properties\<close>

text \<open>
  C16: A byte string decodes to a manifest exactly when it is the encoding of
  that manifest, the manifest is consistent (ranges ascending, disjoint and
  below the frontier, numbers issued, unreadable documents ascending below the
  frontier, frontier at most the high water) and its parts have their fixed
  sizes: decoding inverts encoding, and no other bytes are accepted.
\<close>

theorem manifest_roundtrip:
  assumes "\<And>x. length (checksum x) = 16"
  shows "manifest_decode checksum bs = Some (Some m) \<longleftrightarrow>
    wf_manifest m \<and> is_consistent m \<and> bs = manifest_encode checksum m"
  by (rule manifest_decode_iff [OF assms])

definition sample_entry :: segment_entry where
  "sample_entry = \<lparr>se_number = 0, se_first = 0, se_last = 40, se_docs = 30, se_terms = 500, se_pairs = 900,
     se_bytes = 8000, se_digest = replicate 16 1, se_trigram_bytes = 100, se_trigram_keys = 10,
     se_trigram_pairs = 20, se_trigram_digest = replicate 16 3\<rparr>"

definition sample_manifest :: manifest where
  "sample_manifest = (manifest_empty (replicate 16 7))
     \<lparr>mf_high_water := 100, mf_frontier := 90, mf_next_number := 3, mf_last_follow := Some 100,
      mf_segments := [sample_entry, sample_entry\<lparr>se_number := 2, se_first := 45, se_last := 89\<rparr>],
      mf_unreadable := [3, 50]\<rparr>"

lemma sample_manifest_wf: "wf_manifest sample_manifest"
  by (simp add: wf_manifest_def sample_manifest_def manifest_empty_def wf_entry_def sample_entry_def)

lemma sample_manifest_consistent: "is_consistent sample_manifest"
  by code_simp

theorem manifest_roundtrip_witness:
  "manifest_decode (\<lambda>_. replicate 16 0) (manifest_encode (\<lambda>_. replicate 16 0) sample_manifest) = Some (Some sample_manifest)"
proof -
  have "length (replicate 16 (0 :: byte)) = 16" by simp
  from manifest_roundtrip [OF this, of "manifest_encode (\<lambda>_. replicate 16 0) sample_manifest" sample_manifest]
  show ?thesis using sample_manifest_wf sample_manifest_consistent by blast
qed

text \<open>
  No byte string makes the manifest decoder index out of range: every
  input is either refused or decoded.
\<close>

theorem manifest_decode_never_panics: "manifest_decode checksum bs \<noteq> None"
  by (rule manifest_decode_no_panic)

text \<open>
  C31: Reading a manifest from a file, head first and the rest only when the
  head declares the length the file had at opening, gives the answer of
  decoding the whole content when that length is still right, and refuses the
  file when it shrank or grew.
\<close>

theorem manifest_read_from_file:
  "read_from checksum (file_pread content) len =
     (if len = length content then map_option Inr (manifest_decode checksum content) else Some (Inr None))"
  by (rule read_from_file)

end
