(* ===== verification/Cursor_Build.thy ===== *)
theory Cursor_Build
  imports Cursor_Walk Manifest
begin

text \<open>
  Building cursor trees: the constructors of \<open>ferret-index/src/cursor.rs\<close>
  (\<open>and\<close>, \<open>or_until\<close>, \<open>and_not\<close>, \<open>filter\<close>, \<open>maybe\<close>), the
  materialised union, and the arms a query adds for liveness and coverage
  (\<open>Pinned\<close> of \<open>candidate.rs\<close>, with \<open>uncovered_set_until\<close> of \<open>store/view.rs\<close>).
  A cancellation function is asked with the number of the call; the count is
  the one of the advance state.

  Results: each constructor's tree has the meaning it documents, a
  materialised union yields the union below its bound or reports
  cancellation, and a query yields every live document its tree does, and
  every live document the index does not cover at least as Maybe.
\<close>

section \<open>Costs\<close>

definition saturating_add_u64 :: "nat \<Rightarrow> nat \<Rightarrow> nat" where
  "saturating_add_u64 a b = min (a + b) (2 ^ 64 - 1)"

primrec cost :: "'p cursor \<Rightarrow> nat" and probe_cost :: "'p probe \<Rightarrow> nat" where
  "cost (Postings pc) = pc_docs pc"
| "cost (Bits b) = ds_len (bt_docs b)"
| "cost (And cs) = (case map cost cs of [] \<Rightarrow> 0 | x # xs \<Rightarrow> foldl min x xs)"
| "cost (Or cs hs) = foldl saturating_add_u64 0 (map cost cs)"
| "cost (AndNot c p) = cost c"
| "cost (Filter c p) = cost c"
| "cost (MaybeOf c) = cost c"
| "cost Empty = 0"
| "probe_cost (Probe c) = cost c"

section \<open>Constructors\<close>

definition is_Empty :: "'p cursor \<Rightarrow> bool" where
  "is_Empty c = (case c of Empty \<Rightarrow> True | _ \<Rightarrow> False)"

definition cursor_bits :: "docset \<Rightarrow> certainty \<Rightarrow> 'p cursor" where
  "cursor_bits docs certainty = Bits \<lparr>bt_docs = docs, bt_certainty = certainty, bt_floor = 0\<rparr>"

definition or_new :: "'p cursor list \<Rightarrow> 'p cursor" where
  "or_new children = Or children (replicate (length children) Fresh)"

definition cursor_and :: "'p cursor list \<Rightarrow> 'p cursor" where
  "cursor_and children =
     (if children = [] \<or> list_ex is_Empty children then Empty
      else if length children = 1 then children ! 0
      else And (sort_key cost children))"

definition cursor_and_not :: "'p cursor \<Rightarrow> 'p cursor \<Rightarrow> 'p cursor" where
  "cursor_and_not positive negated =
     (if is_Empty positive then Empty
      else if is_Empty negated then positive
      else AndNot positive (Probe negated))"

definition cursor_filter :: "'p cursor \<Rightarrow> 'p probe \<Rightarrow> 'p cursor" where
  "cursor_filter driver probe = (if is_Empty driver then Empty else Filter driver probe)"

definition cursor_maybe :: "'p cursor \<Rightarrow> 'p cursor" where
  "cursor_maybe child = (case child of Empty \<Rightarrow> Empty | MaybeOf c \<Rightarrow> child | _ \<Rightarrow> MaybeOf child)"

definition asked :: "advance_state \<Rightarrow> advance_state" where
  "asked a = a\<lparr>av_calls := av_calls a + 1\<rparr>"

text \<open>The loop of \<open>materialise\<close> over one child: its documents, by certainty.\<close>

fun drain_child ::
  "'p intpack \<Rightarrow> (nat \<Rightarrow> bool) \<Rightarrow> nat \<Rightarrow> nat \<Rightarrow> 'p cursor \<Rightarrow> nat \<Rightarrow> advance_state \<Rightarrow> nat list \<Rightarrow> nat list
     \<Rightarrow> (read_error + advance_state \<times> nat list \<times> nat list) option"
where
  "drain_child ip cancelled n 0 child target a yes maybe = None"
| "drain_child ip cancelled n (Suc k) child target a yes maybe =
     (if cancelled (av_calls a) then Some (Inl ReCancelled)
      else
        (case next_geq_until ip cancelled n child target (asked a) of
           None \<Rightarrow> None
         | Some (Inl e, child, a) \<Rightarrow> Some (Inl e)
         | Some (Inr None, child, a) \<Rightarrow> Some (Inr (a, yes, maybe))
         | Some (Inr (Some (doc, certainty)), child, a) \<Rightarrow>
             (let yes = (if certainty = Yes then yes @ [doc] else yes);
                  maybe = (if certainty = Maybe then maybe @ [doc] else maybe) in
              case checked_add_u32 doc 1 of
                None \<Rightarrow> Some (Inr (a, yes, maybe))
              | Some target \<Rightarrow> drain_child ip cancelled n k child target a yes maybe)))"

fun drain_all ::
  "'p intpack \<Rightarrow> (nat \<Rightarrow> bool) \<Rightarrow> nat \<Rightarrow> 'p cursor list \<Rightarrow> advance_state \<Rightarrow> nat list \<Rightarrow> nat list
     \<Rightarrow> (read_error + advance_state \<times> nat list \<times> nat list) option"
where
  "drain_all ip cancelled n [] a yes maybe = Some (Inr (a, yes, maybe))"
| "drain_all ip cancelled n (child # children) a yes maybe =
     (case drain_child ip cancelled n n child 0 a yes maybe of
        None \<Rightarrow> None
      | Some (Inl e) \<Rightarrow> Some (Inl e)
      | Some (Inr (a, yes, maybe)) \<Rightarrow> drain_all ip cancelled n children a yes maybe)"

text \<open>\<open>docs.into_iter().take_while(|_| !cancelled())\<close>.\<close>

fun take_until :: "(nat \<Rightarrow> bool) \<Rightarrow> advance_state \<Rightarrow> nat list \<Rightarrow> nat list \<times> advance_state" where
  "take_until cancelled a [] = ([], a)"
| "take_until cancelled a (doc # docs) =
     (if cancelled (av_calls a) then ([], asked a)
      else (let (docs, a) = take_until cancelled (asked a) docs in (doc # docs, a)))"

definition owned ::
  "(nat \<Rightarrow> bool) \<Rightarrow> nat \<Rightarrow> advance_state \<Rightarrow> nat list \<Rightarrow> certainty \<Rightarrow> read_error + 'p cursor \<times> advance_state"
where
  "owned cancelled bound a docs certainty =
     (if cancelled (av_calls a) then Inl ReCancelled
      else
        (let (docs, a) = take_until cancelled (asked a) docs in
         if cancelled (av_calls a) then Inl ReCancelled
         else Inr (cursor_bits (docset_new bound docs) certainty, asked a)))"

definition materialise ::
  "'p intpack \<Rightarrow> (nat \<Rightarrow> bool) \<Rightarrow> nat \<Rightarrow> 'p cursor list \<Rightarrow> nat \<Rightarrow> nat \<Rightarrow> (read_error + 'p cursor) option"
where
  "materialise ip cancelled n children bound calls =
     (case drain_all ip cancelled n children (advance_new calls) [] [] of
        None \<Rightarrow> None
      | Some (Inl e) \<Rightarrow> Some (Inl e)
      | Some (Inr (a, yes, maybe)) \<Rightarrow>
          (case owned cancelled bound a yes Yes of
             Inl e \<Rightarrow> Some (Inl e)
           | Inr (yes, a) \<Rightarrow>
               (case owned cancelled bound a maybe Maybe of
                  Inl e \<Rightarrow> Some (Inl e)
                | Inr (maybe, a) \<Rightarrow> Some (Inr (or_new [yes, maybe])))))"

definition cursor_or_until ::
  "'p intpack \<Rightarrow> (nat \<Rightarrow> bool) \<Rightarrow> nat \<Rightarrow> 'p cursor list \<Rightarrow> nat \<Rightarrow> (read_error + 'p cursor) option"
where
  "cursor_or_until ip cancelled n children bound =
     (if cancelled 0 then Some (Inl ReCancelled)
      else
        (let children = filter (\<lambda>c. \<not> is_Empty c) children in
         case children of
           [] \<Rightarrow> Some (Inr Empty)
         | [c] \<Rightarrow> Some (Inr c)
         | _ \<Rightarrow>
             (let cost = foldl saturating_add_u64 0 (map cost children) in
              if or_width < length children \<or> bound div or_density < cost
              then materialise ip cancelled n children bound 1
              else Some (Inr (or_new children)))))"

definition cursor_or :: "'p intpack \<Rightarrow> nat \<Rightarrow> 'p cursor list \<Rightarrow> nat \<Rightarrow> 'p cursor option" where
  "cursor_or ip n children bound =
     map_option (\<lambda>r. case r of Inl e \<Rightarrow> Empty | Inr c \<Rightarrow> c) (cursor_or_until ip (\<lambda>_. False) n children bound)"

section \<open>Pinned views\<close>

record pinned =
  pn_view :: "manifest option"
  pn_live :: docset
  pn_uncovered :: docset

definition uncovered_set_until :: "manifest \<Rightarrow> docset \<Rightarrow> (nat \<Rightarrow> bool) \<Rightarrow> docset option" where
  "uncovered_set_until m live cancelled = tail_until live (unat (mf_frontier m)) (map unat (mf_unreadable m)) cancelled"

definition pinned_new_until :: "manifest option \<Rightarrow> docset \<Rightarrow> (nat \<Rightarrow> bool) \<Rightarrow> pinned option" where
  "pinned_new_until view live cancelled =
     map_option (\<lambda>uncovered. \<lparr>pn_view = view, pn_live = live, pn_uncovered = uncovered\<rparr>)
       (case view of Some m \<Rightarrow> uncovered_set_until m live cancelled | None \<Rightarrow> Some live)"

definition pinned_atom :: "pinned \<Rightarrow> 'p cursor \<Rightarrow> 'p cursor" where
  "pinned_atom p tree =
     (if docset_is_empty (pn_uncovered p) then tree
      else
        (let uncovered = cursor_bits (pn_uncovered p) Maybe in
         if is_Empty tree then uncovered else or_new [tree, uncovered]))"

definition pinned_not :: "pinned \<Rightarrow> 'p cursor \<Rightarrow> 'p cursor" where
  "pinned_not p negated = cursor_and_not (cursor_bits (pn_live p) Yes) negated"

definition pinned_top :: "pinned \<Rightarrow> 'p cursor \<Rightarrow> 'p cursor" where
  "pinned_top p tree = cursor_filter tree (Probe (cursor_bits (pn_live p) Yes))"

section \<open>The meaning of what is built\<close>

lemma is_Empty_iff [simp]: "is_Empty c \<longleftrightarrow> c = Empty"
  by (cases c) (simp_all add: is_Empty_def)

lemma all_of_ge: "x \<le> all_of ms d \<longleftrightarrow> x \<le> Some Yes \<and> (\<forall>m\<in>set ms. x \<le> m d)"
  by (induction ms) auto

lemma all_of_set: "set ms = set ms' \<Longrightarrow> all_of ms = all_of ms'"
  by (rule ext, rule order_antisym) (use all_of_ge in \<open>metis order_refl\<close>)+

lemma all_of_None: "all_of ms d = None \<longleftrightarrow> (\<exists>m\<in>set ms. m d = None)"
  by (induction ms) (auto simp: min_eq_None)

lemma any_of_le: "any_of ms d \<le> x \<longleftrightarrow> (\<forall>m\<in>set ms. m d \<le> x)"
  by (induction ms) auto

lemma meaning_cursor_bits: "meaning ip (cursor_bits ds x) d = (if d \<in> members ds then Some x else None)"
  by (simp add: cursor_bits_def bits_docs_def)

lemma cursor_bits_not_Empty [simp]: "cursor_bits ds x \<noteq> Empty"
  by (simp add: cursor_bits_def)

lemma option_max_eq_None: "max a b = None \<longleftrightarrow> a = None \<and> b = (None :: 'a :: linorder option)"
  by (cases a; cases b) auto

lemma meaning_or_new: "meaning ip (or_new cs) = any_of (map (meaning ip) cs)"
  by (simp add: or_new_def)

lemma certainty_top: "x \<le> Some Yes" for x :: "certainty option"
  by (cases x) auto

lemma meaning_cursor_and: "meaning ip (cursor_and cs) = and_of (map (meaning ip) cs)"
proof -
  consider "cs = []" | "cs \<noteq> []" "Empty \<in> set cs" | c where "cs = [c]" "c \<noteq> Empty"
    | "length cs \<noteq> 1" "cs \<noteq> []" "Empty \<notin> set cs" by (cases cs; cases "tl cs") auto
  then show ?thesis
  proof cases
    case 2
    then have "all_of (map (meaning ip) cs) d = None" for d by (auto simp: all_of_None intro: bexI [of _ Empty])
    with 2 show ?thesis by (auto simp: cursor_and_def list_ex_iff and_of_def)
  next
    case 3
    then show ?thesis by (simp add: cursor_and_def certainty_top min_absorb1)
  next
    case 4
    then have "set (sort_key cost cs) = set cs" "sort_key cost cs \<noteq> []" by (auto dest: arg_cong [of _ _ set])
    then have "and_of (map (meaning ip) (sort_key cost cs)) = and_of (map (meaning ip) cs)"
      using 4(2) by (simp add: and_of_def all_of_set)
    with 4 show ?thesis by (auto simp: cursor_and_def list_ex_iff)
  qed (simp add: cursor_and_def)
qed

text \<open>
  C36: The constructors build trees of the meaning they document, whatever they
  simplify: a conjunction of any list, in any order of costs, is the least of its children's
  certainties; a negation, a filter and a downgrade are those of Kleene's logic.
\<close>

theorem cursor_constructors_meaning:
  "meaning ip (cursor_and cs) = and_of (map (meaning ip) cs) \<and>
   meaning ip (cursor_and_not a b) d = min (meaning ip a d) (kleene_not (meaning ip b d)) \<and>
   meaning ip (cursor_filter a (Probe b)) d = min (meaning ip a d) (meaning ip b d) \<and>
   meaning ip (cursor_maybe a) d = min (meaning ip a d) (Some Maybe)"
proof (intro conjI)
  show "meaning ip (cursor_and_not a b) d = min (meaning ip a d) (kleene_not (meaning ip b d))"
    using certainty_top [of "meaning ip a d"] by (simp add: cursor_and_not_def kleene_not_def min_absorb1)
  show "meaning ip (cursor_filter a (Probe b)) d = min (meaning ip a d) (meaning ip b d)"
    by (simp add: cursor_filter_def)
  show "meaning ip (cursor_maybe a) d = min (meaning ip a d) (Some Maybe)"
    by (cases a) (simp_all add: cursor_maybe_def min.assoc)
qed (rule meaning_cursor_and)

section \<open>Unions\<close>

text \<open>The documents of one certainty from a point on.\<close>

definition docs_from :: "docs \<Rightarrow> certainty \<Rightarrow> nat \<Rightarrow> nat set" where
  "docs_from m x t = {d. t \<le> d \<and> m d = Some x}"

lemma standing_below: "standing e dr ip B m t c \<Longrightarrow> t \<le> d \<Longrightarrow> m d \<noteq> None \<Longrightarrow> d < B"
proof -
  assume c: "standing e dr ip B m t c" and d: "t \<le> d" "m d \<noteq> None"
  then have "wf_cursor ip B c" "blur e (m d) (left ip c d)" by (simp_all add: standing_def)
  moreover have "left ip c d \<noteq> None" using calculation(2) d(2) by (metis blur_simps(3))
  ultimately show "d < B" using left_below by blast
qed

text \<open>
  What draining one child has read: \<open>v\<close> holds its documents from \<open>t\<close> on, and the
  two lists have gained those of either certainty.
\<close>

definition drained :: "bool \<Rightarrow> nat \<Rightarrow> docs \<Rightarrow> nat \<Rightarrow> docs \<Rightarrow> bool" where
  "drained e B m t v \<longleftrightarrow> (\<forall>d. (t \<le> d \<longrightarrow> blur e (m d) (v d)) \<and> (v d \<noteq> None \<longrightarrow> t \<le> d \<and> d < B))"

lemma drained_none: "\<forall>d\<ge>t. m d = None \<Longrightarrow> drained e B m t (\<lambda>d. None)"
  by (simp add: drained_def)

lemma drained_found:
  assumes "finds e m t (Some (doc, x))" "doc < B" "drained e B m (doc + 1) v"
  defines "v' \<equiv> v(doc \<mapsto> x)"
  shows "drained e B m t v'" "docs_from v' y t = (if y = x then insert doc (docs_from v y (doc + 1)) else docs_from v y (doc + 1))"
proof -
  have doc: "t \<le> doc" "blur e (m doc) (Some x)" "\<And>y. t \<le> y \<Longrightarrow> y < doc \<Longrightarrow> m y = None" using assms(1) by simp_all
  have range: "doc + 1 \<le> d" "d < B" if "v d \<noteq> None" for d using assms(3) that unfolding drained_def by blast+
  have v: "v d = None" if "d \<le> doc" for d using range(1) [of d] that by fastforce
  have "blur e (m d) (v' d)" if "t \<le> d" for d
    using assms(3) doc v [of d] that by (cases d doc rule: linorder_cases) (auto simp: v'_def drained_def)
  moreover have "t \<le> d \<and> d < B" if "v' d \<noteq> None" for d
    using assms(2) doc(1) range [of d] that by (cases "d = doc") (auto simp: v'_def)
  ultimately show "drained e B m t v'" by (simp add: drained_def)
  show "docs_from v' y t = (if y = x then insert doc (docs_from v y (doc + 1)) else docs_from v y (doc + 1))"
  proof -
    have "docs_from v' y t = {d. d = doc \<and> y = x \<or> doc + 1 \<le> d \<and> v d = Some y}" unfolding docs_from_def
    proof (rule Collect_cong)
      show "t \<le> d \<and> v' d = Some y \<longleftrightarrow> d = doc \<and> y = x \<or> doc + 1 \<le> d \<and> v d = Some y" for d
        using doc(1) v [of d] by (cases d doc rule: linorder_cases) (auto simp: v'_def)
    qed
    also have "\<dots> = (if y = x then insert doc (docs_from v y (doc + 1)) else docs_from v y (doc + 1))"
      unfolding docs_from_def by auto
    finally show ?thesis .
  qed
qed

lemma drain_child_ok:
  shows "walkable e ip B n c \<Longrightarrow> standing e True ip B m t c \<Longrightarrow> 0 < k \<Longrightarrow> B < t + k \<Longrightarrow>
    drain_child ip cancelled n k c t a yes maybe = Some (Inl ReCancelled) \<or>
    (\<exists>a' yes' maybe' v. drain_child ip cancelled n k c t a yes maybe = Some (Inr (a', yes', maybe')) \<and> drained e B m t v \<and>
       set yes' = set yes \<union> docs_from v Yes t \<and> set maybe' = set maybe \<union> docs_from v Maybe t)"
proof (induction k arbitrary: c t a yes maybe)
  case (Suc k)
  from Suc.prems(2) have wf: "wf_cursor ip B c" "fits e True c" by (simp_all add: standing_def)
  show ?case
  proof (cases "cancelled (av_calls a)")
    case False
    show ?thesis
    proof (cases rule: next_geq_until_standing [OF Suc.prems(1) wf, of cancelled t "asked a", case_names stop found])
      case (stop c' a')
      with False show ?thesis by simp
    next
      case (found r c' a')
      from found(7) [OF Suc.prems(2)] have here: "finds e m t r" "\<And>u. may_follow True t r u \<Longrightarrow> standing e True ip B m u c'" by blast+
      show ?thesis
      proof (cases r)
        case None
        with found(1) False here(1) drained_none [of t m e B] show ?thesis by (auto simp: docs_from_def intro!: exI [of _ "\<lambda>d. None"])
      next
        case (Some dx)
        then obtain doc x where r: "r = Some (doc, x)" by (cases dx) auto
        note found_doc = here(1) [unfolded r]
        have low: "doc < B" "t \<le> doc" using found(6) [OF r] found_doc by auto
        have next_doc: "standing e True ip B m (doc + 1) c'" using here(2) r by (simp add: may_follow_def)
        let ?yes = "if x = Yes then yes @ [doc] else yes" and ?maybe = "if x = Maybe then maybe @ [doc] else maybe"
        show ?thesis
        proof (cases "checked_add_u32 doc 1")
          case None
          have "\<forall>d\<ge>doc + 1. m d = None"
            using checked_add_below(2) [OF _ low(1) None] Suc.prems(1) standing_below [OF next_doc] by (force simp: walkable_def)
          note last = drained_found [OF found_doc low(1) drained_none [OF this]]
          have "drain_child ip cancelled n (Suc k) c t a yes maybe = Some (Inr (a', ?yes, ?maybe))"
            using found(1) False r None by (simp add: Let_def)
          moreover have "set ?yes = set yes \<union> docs_from [doc \<mapsto> x] Yes t" "set ?maybe = set maybe \<union> docs_from [doc \<mapsto> x] Maybe t"
            using last(2) by (cases x; simp add: docs_from_def [of "\<lambda>d. None"])+
          ultimately show ?thesis using last(1) by blast
        next
          case (Some t')
          then have t': "t' = doc + 1" by (auto simp: checked_add_u32_def split: if_splits)
          have step: "drain_child ip cancelled n (Suc k) c t a yes maybe = drain_child ip cancelled n k c' (doc + 1) a' ?yes ?maybe"
            using found(1) False r Some t' by (simp add: Let_def)
          from Suc.IH [OF found(2) next_doc, of a' ?yes ?maybe] Suc.prems(4) low
          consider "drain_child ip cancelled n k c' (doc + 1) a' ?yes ?maybe = Some (Inl ReCancelled)"
            | a'' yes' maybe' v where "drain_child ip cancelled n k c' (doc + 1) a' ?yes ?maybe = Some (Inr (a'', yes', maybe'))"
              "drained e B m (doc + 1) v" "set yes' = set ?yes \<union> docs_from v Yes (doc + 1)"
              "set maybe' = set ?maybe \<union> docs_from v Maybe (doc + 1)" by fastforce
          then show ?thesis
          proof cases
            case 2
            note rest = drained_found [OF found_doc low(1) 2(2)]
            have "set yes' = set yes \<union> docs_from (v(doc \<mapsto> x)) Yes t" "set maybe' = set maybe \<union> docs_from (v(doc \<mapsto> x)) Maybe t"
              using 2(3,4) rest(2) by (cases x; simp)+
            with 2(1) rest(1) step show ?thesis by auto
          qed (use step in simp)
        qed
      qed
    qed
  qed simp
qed simp

lemma drain_all_ok:
  shows "(\<And>c. c \<in> set cs \<Longrightarrow> walkable e ip B n c \<and> wf_cursor ip B c \<and> fits e True c \<and> fresh c) \<Longrightarrow>
    drain_all ip cancelled n cs a yes maybe = Some (Inl ReCancelled) \<or>
    (\<exists>a' yes' maybe' vs. drain_all ip cancelled n cs a yes maybe = Some (Inr (a', yes', maybe')) \<and>
       list_all2 (\<lambda>c. drained e B (meaning ip c) 0) cs vs \<and>
       set yes' = set yes \<union> (\<Union>v\<in>set vs. docs_from v Yes 0) \<and> set maybe' = set maybe \<union> (\<Union>v\<in>set vs. docs_from v Maybe 0))"
proof (induction cs arbitrary: a yes maybe)
  case (Cons c cs)
  then have c: "walkable e ip B n c" "wf_cursor ip B c" "fits e True c" "fresh c" by auto
  then have "B < 0 + n" "0 < n" by (simp_all add: walkable_def)
  with drain_child_ok [OF c(1) standing_fresh [OF c(2,3,4), of 0], of n cancelled a yes maybe]
  consider "drain_child ip cancelled n n c 0 a yes maybe = Some (Inl ReCancelled)"
    | a' yes' maybe' v where "drain_child ip cancelled n n c 0 a yes maybe = Some (Inr (a', yes', maybe'))" "drained e B (meaning ip c) 0 v"
        "set yes' = set yes \<union> docs_from v Yes 0" "set maybe' = set maybe \<union> docs_from v Maybe 0"
    by blast
  then show ?case
  proof cases
    case 2
    have "drain_all ip cancelled n cs a' yes' maybe' = Some (Inl ReCancelled) \<or>
      (\<exists>a'' yes'' maybe'' vs. drain_all ip cancelled n cs a' yes' maybe' = Some (Inr (a'', yes'', maybe'')) \<and>
         list_all2 (\<lambda>c. drained e B (meaning ip c) 0) cs vs \<and>
         set yes'' = set yes' \<union> (\<Union>v\<in>set vs. docs_from v Yes 0) \<and> set maybe'' = set maybe' \<union> (\<Union>v\<in>set vs. docs_from v Maybe 0))"
      by (rule Cons.IH) (use Cons.prems in auto)
    then show ?thesis
    proof
      assume "\<exists>a'' yes'' maybe'' vs. drain_all ip cancelled n cs a' yes' maybe' = Some (Inr (a'', yes'', maybe'')) \<and>
         list_all2 (\<lambda>c. drained e B (meaning ip c) 0) cs vs \<and>
         set yes'' = set yes' \<union> (\<Union>v\<in>set vs. docs_from v Yes 0) \<and> set maybe'' = set maybe' \<union> (\<Union>v\<in>set vs. docs_from v Maybe 0)"
      then obtain a'' yes'' maybe'' vs where rest: "drain_all ip cancelled n cs a' yes' maybe' = Some (Inr (a'', yes'', maybe''))"
        "list_all2 (\<lambda>c. drained e B (meaning ip c) 0) cs vs"
        "set yes'' = set yes' \<union> (\<Union>v\<in>set vs. docs_from v Yes 0)" "set maybe'' = set maybe' \<union> (\<Union>v\<in>set vs. docs_from v Maybe 0)"
        by (elim exE conjE) (rule that)
      have "drain_all ip cancelled n (c # cs) a yes maybe = Some (Inr (a'', yes'', maybe''))" using 2(1) rest(1) by simp
      moreover have "list_all2 (\<lambda>c. drained e B (meaning ip c) 0) (c # cs) (v # vs)" using 2(2) rest(2) by simp
      moreover have "set yes'' = set yes \<union> (\<Union>v\<in>set (v # vs). docs_from v Yes 0)" "set maybe'' = set maybe \<union> (\<Union>v\<in>set (v # vs). docs_from v Maybe 0)"
        using 2(3,4) rest(3,4) by auto
      ultimately show ?thesis by blast
    qed (use 2 in simp)
  qed simp
qed simp

text \<open>A cancellation that, once signalled, stays signalled.\<close>

definition sticky_cancel :: "(nat \<Rightarrow> bool) \<Rightarrow> bool" where
  "sticky_cancel cancelled \<longleftrightarrow> (\<forall>i j. i \<le> j \<longrightarrow> cancelled i \<longrightarrow> cancelled j)"

lemma take_until_all:
  "sticky_cancel cancelled \<Longrightarrow> take_until cancelled a docs = (docs', a') \<Longrightarrow> \<not> cancelled (av_calls a') \<Longrightarrow> docs' = docs"
proof (induction docs arbitrary: a docs')
  case (Cons d docs)
  show ?case
  proof (cases "cancelled (av_calls a)")
    case True
    with Cons.prems have "a' = asked a" by simp
    moreover have "cancelled (av_calls a + 1)" using True Cons.prems(1) unfolding sticky_cancel_def by (metis le_add1)
    ultimately show ?thesis using Cons.prems by (simp add: asked_def)
  next
    case False
    with Cons show ?thesis by (auto simp: Let_def split: prod.splits)
  qed
qed simp

lemma owned_ok:
  assumes "sticky_cancel cancelled" "owned cancelled bound a docs x = Inr (c, a')"
  shows "c = cursor_bits (docset_new bound docs) x"
  using assms take_until_all [OF assms(1), of "asked a" docs]
  by (auto simp: owned_def Let_def split: if_splits prod.splits)

lemma owned_Inl: "owned cancelled bound a docs x = Inl e \<Longrightarrow> e = ReCancelled"
  by (auto simp: owned_def Let_def split: if_splits prod.splits)

lemma union_by_certainty:
  "max (if \<exists>m\<in>set ms. m d = Some Yes then Some Yes else None) (if \<exists>m\<in>set ms. m d = Some Maybe then Some Maybe else None) = any_of ms d"
proof (induction ms)
  case (Cons m ms)
  consider "m d = None" | "m d = Some Yes" | "m d = Some Maybe" by (metis certainty.exhaust option.exhaust)
  then show ?case using Cons.IH [symmetric] by cases auto
qed simp

lemma blur_any: "list_all2 (\<lambda>m v. blur e (m d) (v d)) ms vs \<Longrightarrow> blur e (any_of ms d) (any_of vs d)"
  by (induction rule: list_all2_induct) (simp_all add: blur_max)

text \<open>A tree that stands for the union \<open>m\<close> below a bound, exactly or as far as its children allow.\<close>

definition union_tree :: "bool \<Rightarrow> 'p intpack \<Rightarrow> nat \<Rightarrow> nat \<Rightarrow> docs \<Rightarrow> 'p cursor \<Rightarrow> bool" where
  "union_tree e ip B bound m c \<longleftrightarrow> wf_cursor ip B c \<and> fresh c \<and> fits e True c \<and>
     (\<forall>d. blur e (m d) (meaning ip c d) \<or> bound \<le> d \<and> meaning ip c d = None)"

lemma materialised_tree:
  assumes "list_all2 (\<lambda>c. drained e B (meaning ip c) 0) cs vs"
    "set yes = (\<Union>v\<in>set vs. docs_from v Yes 0)" "set maybe = (\<Union>v\<in>set vs. docs_from v Maybe 0)"
  shows "union_tree e ip B bound (any_of (map (meaning ip) cs))
    (or_new [cursor_bits (docset_new bound yes) Yes, cursor_bits (docset_new bound maybe) Maybe])" (is "union_tree _ _ _ _ ?m ?c")
proof -
  have "list_all2 (\<lambda>m v. blur e (m d) (v d)) (map (meaning ip) cs) vs" for d
    using assms(1) by (auto simp: list_all2_map1 drained_def elim!: list_all2_mono)
  then have "blur e (?m d) (any_of vs d)" for d by (rule blur_any)
  moreover have "meaning ip ?c d = (if d < bound then any_of vs d else None)" for d
    using union_by_certainty [of vs d] assms(2,3) by (simp add: meaning_or_new meaning_cursor_bits docset_new_members docs_from_def)
  moreover have "d < B" if "v \<in> set vs" "v d \<noteq> None" for v d
    using assms(1) that by (auto simp: list_all2_conv_all_nth in_set_conv_nth drained_def)
  then have "wf_cursor ip B ?c \<and> fresh ?c \<and> fits e True ?c" using assms(2,3)
    by (auto simp: or_new_def cursor_bits_def docset_new_members wf_head_def docs_from_def)
  ultimately show ?thesis by (simp add: union_tree_def)
qed

lemma materialise_ok:
  fixes ip :: "'p intpack"
  assumes "sticky_cancel cancelled" "\<And>c. c \<in> set cs \<Longrightarrow> walkable e ip B n c \<and> wf_cursor ip B c \<and> fits e True c \<and> fresh c"
  shows "materialise ip cancelled n cs bound calls = Some (Inl ReCancelled) \<or>
    (\<exists>c. materialise ip cancelled n cs bound calls = Some (Inr c) \<and> union_tree e ip B bound (any_of (map (meaning ip) cs)) c)"
proof -
  consider "drain_all ip cancelled n cs (advance_new calls) [] [] = Some (Inl ReCancelled)"
    | a yes maybe vs where "drain_all ip cancelled n cs (advance_new calls) [] [] = Some (Inr (a, yes, maybe))"
        "list_all2 (\<lambda>c. drained e B (meaning ip c) 0) cs vs"
        "set yes = (\<Union>v\<in>set vs. docs_from v Yes 0)" "set maybe = (\<Union>v\<in>set vs. docs_from v Maybe 0)"
    using drain_all_ok [OF assms(2), of cs cancelled "advance_new calls" "[]" "[]"] by auto
  then show ?thesis
  proof cases
    case 2
    show ?thesis
    proof (cases "owned cancelled bound a yes Yes :: read_error + 'p cursor \<times> advance_state")
      case (Inl e)
      with 2 owned_Inl [OF Inl] show ?thesis by (simp add: materialise_def)
    next
      case first: (Inr ca)
      obtain y :: "'p cursor" and a2 where y: "owned cancelled bound a yes Yes = Inr (y, a2)" using first by (cases ca) auto
      show ?thesis
      proof (cases "owned cancelled bound a2 maybe Maybe :: read_error + 'p cursor \<times> advance_state")
        case (Inl e)
        with 2 y owned_Inl [OF Inl] show ?thesis by (simp add: materialise_def)
      next
        case (Inr cb)
        obtain w :: "'p cursor" and a3 where w: "owned cancelled bound a2 maybe Maybe = Inr (w, a3)" using Inr by (cases cb) auto
        from 2(1) y w owned_ok [OF assms(1) y] owned_ok [OF assms(1) w] materialised_tree [OF 2(2-4), of bound]
        show ?thesis by (simp add: materialise_def)
      qed
    qed
  qed (simp add: materialise_def)
qed

lemma cursor_or_until_ok:
  assumes "sticky_cancel cancelled" "\<And>c. c \<in> set cs \<Longrightarrow> walkable e ip B n c \<and> wf_cursor ip B c \<and> fits e True c \<and> fresh c"
  shows "cursor_or_until ip cancelled n cs bound = Some (Inl ReCancelled) \<or>
    (\<exists>c. cursor_or_until ip cancelled n cs bound = Some (Inr c) \<and> union_tree e ip B bound (any_of (map (meaning ip) cs)) c)"
proof -
  let ?cs = "filter (\<lambda>c. c \<noteq> Empty) cs"
  have same: "any_of (map (meaning ip) cs) = any_of (map (meaning ip) ?cs)" by (induction cs) auto
  have wf: "walkable e ip B n c \<and> wf_cursor ip B c \<and> fits e True c \<and> fresh c" if "c \<in> set ?cs" for c using assms(2) that by simp
  consider "cancelled 0" | "\<not> cancelled 0" "?cs = []" | c where "\<not> cancelled 0" "?cs = [c]"
    | c d ds where "\<not> cancelled 0" "?cs = c # d # ds" by (cases ?cs; cases "tl ?cs") auto
  then have "cursor_or_until ip cancelled n cs bound = Some (Inl ReCancelled) \<or>
    (\<exists>c. cursor_or_until ip cancelled n cs bound = Some (Inr c) \<and> union_tree e ip B bound (any_of (map (meaning ip) ?cs)) c)"
  proof cases
    case 2
    then have "cursor_or_until ip cancelled n cs bound = Some (Inr Empty)" by (simp add: cursor_or_until_def)
    moreover have "union_tree e ip B bound (any_of (map (meaning ip) ?cs)) Empty" unfolding 2(2) by (simp add: union_tree_def)
    ultimately show ?thesis by blast
  next
    case 3
    then have "cursor_or_until ip cancelled n cs bound = Some (Inr c)" by (simp add: cursor_or_until_def)
    moreover have "union_tree e ip B bound (any_of (map (meaning ip) ?cs)) c" using wf [of c] unfolding 3(2) by (simp add: union_tree_def)
    ultimately show ?thesis by blast
  next
    case 4
    show ?thesis
    proof (cases "or_width < length ?cs \<or> bound div or_density < foldl saturating_add_u64 0 (map cost ?cs)")
      case True
      with 4 have "cursor_or_until ip cancelled n cs bound = materialise ip cancelled n ?cs bound 1"
        by (simp add: cursor_or_until_def Let_def)
      with materialise_ok [OF assms(1) wf, of ?cs bound 1] show ?thesis by simp
    next
      case False
      with 4 have "cursor_or_until ip cancelled n cs bound = Some (Inr (or_new ?cs))"
        by (simp add: cursor_or_until_def Let_def)
      moreover have "wf_cursor ip B (or_new ?cs)" "fresh (or_new ?cs)" "fits e True (or_new ?cs)"
        using wf by (auto simp: or_new_def list_all_iff wf_head_def)
      ultimately show ?thesis by (simp add: meaning_or_new union_tree_def)
    qed
  qed (simp add: cursor_or_until_def)
  then show ?thesis unfolding same .
qed

text \<open>
  C35: A union over any number of children, for a cancellation that stays signalled once it is, either reports cancellation or is a fresh tree that yields
  exactly the documents some child yields, each with the greatest of the
  children's certainties; a materialised union leaves out only documents at or past the
  view's bound. The children are fresh trees that answer exactly when they are driven, negations of terms with
  fingerprint documents among them, and so is the union. Enough fuel drains every child to its end.
\<close>

theorem cursor_or_until_exact:
  assumes "intpack_ok ip" "B \<le> 2 ^ 32" "sticky_cancel cancelled"
    "\<forall>c\<in>set cs. wf_cursor ip B c \<and> fresh c \<and> exact c True \<and> depth c + B + 1 < n"
  shows "cursor_or_until ip cancelled n cs bound = Some (Inl ReCancelled) \<or>
    (\<exists>c. cursor_or_until ip cancelled n cs bound = Some (Inr c) \<and> wf_cursor ip B c \<and> fresh c \<and> exact c True \<and>
       (\<forall>d. meaning ip c d = any_of (map (meaning ip) cs) d \<or> bound \<le> d \<and> meaning ip c d = None))"
proof -
  have "walkable False ip B n c \<and> wf_cursor ip B c \<and> fits False True c \<and> fresh c" if "c \<in> set cs" for c
    using assms that by (simp add: walkable_def fits_def)
  from cursor_or_until_ok [OF assms(3) this, of cs bound] show ?thesis by (auto simp: union_tree_def fits_def)
qed

theorem cursor_or_until_exact_witness:
  "cursor_or_until byte_intpack (\<lambda>i. 9 < i) 40 [sample_tree, Empty, cursor_bits (docset_new 30 [7]) Maybe] 32 = Some (Inl ReCancelled) \<or>
   (\<exists>c. cursor_or_until byte_intpack (\<lambda>i. 9 < i) 40 [sample_tree, Empty, cursor_bits (docset_new 30 [7]) Maybe] 32 = Some (Inr c) \<and>
      wf_cursor byte_intpack 30 c \<and> fresh c \<and> exact c True \<and>
      (\<forall>d. meaning byte_intpack c d =
         any_of (map (meaning byte_intpack) [sample_tree, Empty, cursor_bits (docset_new 30 [7]) Maybe]) d \<or>
         32 \<le> d \<and> meaning byte_intpack c d = None))"
proof (rule cursor_or_until_exact [OF byte_intpack_ok])
  show "sticky_cancel (\<lambda>i. 9 < i)" by (simp add: sticky_cancel_def)
  show "\<forall>c\<in>set [sample_tree, Empty, cursor_bits (docset_new 30 [7]) Maybe].
      wf_cursor byte_intpack 30 c \<and> fresh c \<and> exact c True \<and> depth c + 30 + 1 < 40"
    using sample_tree_ok by (auto simp: cursor_bits_def docset_new_members)
qed simp

section \<open>Liveness and coverage\<close>

text \<open>Whether a view covers a document: it has its postings, if it has any.\<close>

definition covers :: "manifest option \<Rightarrow> nat \<Rightarrow> bool" where
  "covers view d \<longleftrightarrow>
     (case view of None \<Rightarrow> False
      | Some m \<Rightarrow> d < unat (mf_frontier m) \<and> d \<notin> unat ` set (mf_unreadable m))"

lemma pinned_new_members:
  assumes "wf_docset live" "pinned_new_until view live cancelled = Some p"
  shows "pn_live p = live" "wf_docset (pn_uncovered p)" "members (pn_uncovered p) = {d \<in> members live. \<not> covers view d}"
proof -
  have "pn_live p = live \<and> wf_docset (pn_uncovered p) \<and> members (pn_uncovered p) = {d \<in> members live. \<not> covers view d}"
  proof (cases view)
    case (Some m)
    with assms(2) obtain ds where ds: "tail_until live (unat (mf_frontier m)) (map unat (mf_unreadable m)) cancelled = Some ds"
      "p = \<lparr>pn_view = view, pn_live = live, pn_uncovered = ds\<rparr>"
      by (auto simp: pinned_new_until_def uncovered_set_until_def)
    from tail_until_members [OF assms(1) ds(1)] ds(2) Some show ?thesis by (auto simp: covers_def)
  qed (use assms in \<open>auto simp: pinned_new_until_def covers_def\<close>)
  then show "pn_live p = live" "wf_docset (pn_uncovered p)" "members (pn_uncovered p) = {d \<in> members live. \<not> covers view d}"
    by blast+
qed

lemma meaning_pinned_atom:
  "wf_docset (pn_uncovered p) \<Longrightarrow> meaning ip (pinned_atom p tree) d =
     max (meaning ip tree d) (if d \<in> members (pn_uncovered p) then Some Maybe else None)"
  by (auto simp: pinned_atom_def docset_is_empty_def wf_docset_def Let_def meaning_or_new meaning_cursor_bits)

text \<open>
  C15: What a query sees of the index: a live document has the certainty the
  tree gives it, raised to Maybe when the pinned view does not cover it; a
  document that is not live is never returned. A negation over the live
  documents is Kleene's. So no live document that might match is lost for lack of an index.
\<close>

theorem pinned_query_exact:
  assumes "wf_docset live" "pinned_new_until view live cancelled = Some p"
  shows "meaning ip (pinned_top p (pinned_atom p tree)) d =
      (if d \<in> members live then max (meaning ip tree d) (if covers view d then None else Some Maybe) else None) \<and>
    meaning ip (pinned_not p tree) d = (if d \<in> members live then kleene_not (meaning ip tree d) else None)"
proof -
  note p = pinned_new_members [OF assms]
  have "meaning ip (pinned_top p (pinned_atom p tree)) d =
      (if d \<in> members live then meaning ip (pinned_atom p tree) d else None)"
    using certainty_top [of "meaning ip (pinned_atom p tree) d"]
    by (auto simp: pinned_top_def cursor_filter_def meaning_cursor_bits p(1) min_absorb1)
  moreover have "meaning ip (pinned_not p tree) d = (if d \<in> members live then kleene_not (meaning ip tree d) else None)"
    using certainty_top [of "kleene_not (meaning ip tree d)"]
    by (auto simp: pinned_not_def cursor_and_not_def meaning_cursor_bits p(1) kleene_not_def min_absorb2)
  ultimately show ?thesis by (simp add: meaning_pinned_atom [OF p(2)] p(3))
qed

theorem pinned_query_exact_witness:
  "\<exists>p. pinned_new_until None (docset_new 8 [2, 5]) (\<lambda>_. False) = Some p \<and>
     meaning byte_intpack (pinned_top p (pinned_atom p Empty)) 5 = Some Maybe \<and>
     meaning byte_intpack (pinned_top p (pinned_atom p Empty)) 4 = None"
proof -
  obtain p where p: "pinned_new_until None (docset_new 8 [2, 5]) (\<lambda>_. False) = Some p" by (simp add: pinned_new_until_def)
  from pinned_query_exact [OF docset_new_members(2) p, of byte_intpack Empty] show ?thesis
    using p by (simp add: docset_new_members covers_def)
qed

section \<open>Costs bound the documents\<close>

text \<open>The counts stored in the leaves bound the documents of the leaves.\<close>

primrec counted :: "'p intpack \<Rightarrow> 'p cursor \<Rightarrow> bool" and counted_probe :: "'p intpack \<Rightarrow> 'p probe \<Rightarrow> bool" where
  "counted ip (Postings pc) \<longleftrightarrow>
     finite {d. meaning ip (Postings pc) d \<noteq> None} \<and> card {d. meaning ip (Postings pc) d \<noteq> None} \<le> pc_docs pc"
| "counted ip (Bits b) \<longleftrightarrow> wf_docset (bt_docs b)"
| "counted ip (And cs) \<longleftrightarrow> list_all id (map (counted ip) cs)"
| "counted ip (Or cs hs) \<longleftrightarrow> list_all id (map (counted ip) cs)"
| "counted ip (AndNot c p) \<longleftrightarrow> counted ip c"
| "counted ip (Filter c p) \<longleftrightarrow> counted ip c"
| "counted ip (MaybeOf c) \<longleftrightarrow> counted ip c"
| "counted ip Empty \<longleftrightarrow> True"
| "counted_probe ip (Probe c) \<longleftrightarrow> counted ip c"

definition bounded_by :: "docs \<Rightarrow> nat \<Rightarrow> bool" where
  "bounded_by m n \<longleftrightarrow> finite {d. m d \<noteq> None} \<and> min (card {d. m d \<noteq> None}) (2 ^ 64 - 1) \<le> n"

lemma bounded_by_mono: "bounded_by m n \<Longrightarrow> (\<And>d. m' d \<noteq> None \<Longrightarrow> m d \<noteq> None) \<Longrightarrow> bounded_by m' n"
proof -
  assume m: "bounded_by m n" and sub: "\<And>d. m' d \<noteq> None \<Longrightarrow> m d \<noteq> None"
  have sub: "{d. m' d \<noteq> None} \<subseteq> {d. m d \<noteq> None}" using sub by blast
  with m have "finite {d. m' d \<noteq> None}" "card {d. m' d \<noteq> None} \<le> card {d. m d \<noteq> None}"
    by (auto simp: bounded_by_def intro: finite_subset card_mono)
  with m show ?thesis by (auto simp: bounded_by_def)
qed

lemma bounded_by_max:
  assumes "bounded_by m a" "bounded_by m' b"
  shows "bounded_by (\<lambda>d. max (m d) (m' d)) (saturating_add_u64 a b)"
proof -
  have eq: "{d. max (m d) (m' d) \<noteq> None} = {d. m d \<noteq> None} \<union> {d. m' d \<noteq> None}"
    by (auto simp: option_max_eq_None simp del: not_None_eq)
  have "card {d. max (m d) (m' d) \<noteq> None} \<le> card {d. m d \<noteq> None} + card {d. m' d \<noteq> None}"
    unfolding eq by (rule card_Un_le)
  moreover have "finite {d. max (m d) (m' d) \<noteq> None}" using assms unfolding eq bounded_by_def by simp
  ultimately show ?thesis using assms by (auto simp: bounded_by_def saturating_add_u64_def)
qed

lemma bounded_by_any:
  "list_all2 bounded_by ms ns \<Longrightarrow> bounded_by m n \<Longrightarrow> bounded_by (\<lambda>d. max (m d) (any_of ms d)) (foldl saturating_add_u64 n ns)"
proof (induction ms ns arbitrary: m n rule: list_all2_induct)
  case (Cons m1 ms n1 ns)
  from Cons.IH [OF bounded_by_max [OF Cons.prems Cons.hyps(1)]] show ?case by (simp add: max.assoc)
qed simp

lemma bounded_by_all:
  "list_all2 bounded_by ms ns \<Longrightarrow> bounded_by m n \<Longrightarrow> bounded_by (\<lambda>d. min (m d) (all_of ms d)) (foldl min n ns)"
proof (induction ms ns arbitrary: m n rule: list_all2_induct)
  case Nil
  then show ?case by (simp, rule bounded_by_mono) (auto simp: min_eq_None)
next
  case (Cons m1 ms n1 ns)
  have "bounded_by (\<lambda>d. min (m d) (m1 d)) (min n n1)"
    using bounded_by_mono [OF Cons.prems, of "\<lambda>d. min (m d) (m1 d)"] bounded_by_mono [OF Cons.hyps(1), of "\<lambda>d. min (m d) (m1 d)"]
    by (auto simp: bounded_by_def min_eq_None)
  from Cons.IH [OF this] show ?case by (simp add: min.assoc)
qed

lemma bounded_by_min: "bounded_by m n \<Longrightarrow> bounded_by (\<lambda>d. min (m d) (m' d)) n"
  by (erule bounded_by_mono) (simp add: min_eq_None)

lemma cost_bounded: "counted ip c \<Longrightarrow> bounded_by (meaning ip c) (cost c)"
  and probe_cost_bounded: "counted_probe ip p \<Longrightarrow> bounded_by (probe_meaning ip p) (probe_cost p)"
proof (induction c and p rule: cursor.induct probe.induct)
  case (Bits b)
  then show ?case by (simp add: bounded_by_def bits_docs_def wf_docset_def)
next
  case (And cs)
  then have "list_all2 bounded_by (map (meaning ip) cs) (map cost cs)" by (auto simp: list_all_iff list_all2_conv_all_nth)
  then show ?case by (cases cs) (auto simp: bounded_by_all, simp add: bounded_by_def)
next
  case (Or cs hs)
  then have "list_all2 bounded_by (map (meaning ip) cs) (map cost cs)" by (auto simp: list_all_iff list_all2_conv_all_nth)
  from bounded_by_any [OF this, of "\<lambda>d. None" 0] show ?case by (simp add: bounded_by_def)
qed (auto simp: bounded_by_def [of "\<lambda>d. None"] bounded_by_def [of "parts_left _ _ _"] intro: bounded_by_min)

text \<open>
  C37: The cost of a tree is an upper bound on the number of documents it yields,
  up to the largest \<open>u64\<close>, where the sum over a union saturates.
\<close>

theorem cost_is_an_upper_bound:
  assumes "counted ip c"
  shows "min (card {d. meaning ip c d \<noteq> None}) (2 ^ 64 - 1) \<le> cost c"
  using cost_bounded [OF assms] by (simp add: bounded_by_def)

lemma sample_counted: "counted byte_intpack sample_tree"
proof -
  have "{d. parts_left byte_intpack [sample_part] None d \<noteq> None} = {3, 5, 7, 12}" using sample_docs by (auto split: if_splits)
  then have "finite {d. parts_left byte_intpack [sample_part] None d \<noteq> None}"
    "card {d. parts_left byte_intpack [sample_part] None d \<noteq> None} = 4" by simp_all
  then show ?thesis by (simp add: sample_tree_def)
qed

theorem cost_is_an_upper_bound_witness:
  "min (card {d. meaning byte_intpack (or_new [sample_tree, cursor_bits (docset_new 9 [1, 4]) Yes]) d \<noteq> None}) (2 ^ 64 - 1) \<le>
     cost (or_new [sample_tree, cursor_bits (docset_new 9 [1, 4]) Yes])"
  by (rule cost_is_an_upper_bound) (simp add: or_new_def sample_counted cursor_bits_def docset_new_members)

end
