(* ===== verification/Tournament.thy ===== *)
theory Tournament
  imports Ferret_Prelude
begin

text \<open>
  The loser tree of \<open>ferret-index/src/merge.rs\<close> over \<open>k\<close> inputs: nodes \<open>1..k\<close>
  are matches, each holding the input that lost there, and input \<open>i\<close> is the
  leaf \<open>k + i\<close>. The comparison \<open>before\<close> is a function on inputs; in the merge
  it compares the inputs' current terms, so it changes when an input advances.

  Results: a new tree's winner is the first input of the order, and replaying
  the winner's matches after its key changed, one comparison a level, restores
  the tree and its winner (locale \<open>strict_order\<close> states what a comparison must
  satisfy).
\<close>

section \<open>The tree\<close>

record tournament =
  tn_losers :: "nat list"
  tn_winner :: nat

text \<open>\<open>play\<close> is called from node 1; node 0, which has no children of its own,
  is never a match.\<close>

function play :: "nat \<Rightarrow> nat \<Rightarrow> (nat \<Rightarrow> nat \<Rightarrow> bool) \<Rightarrow> nat list \<Rightarrow> nat \<times> nat list" where
  "play node k before_fn losers =
     (if k \<le> node \<or> node = 0 then (node - k, losers)
      else
        (let (a, losers) = play (2 * node) k before_fn losers;
             (b, losers) = play (2 * node + 1) k before_fn losers;
             (winner, loser) = (if before_fn b a then (b, a) else (a, b))
         in (winner, losers[node := loser])))"
  by pat_completeness auto
termination
  by (relation "measure (\<lambda>(node, k, _, _). k - node)") auto

declare play.simps [simp del]

definition tournament_new :: "nat \<Rightarrow> (nat \<Rightarrow> nat \<Rightarrow> bool) \<Rightarrow> tournament" where
  "tournament_new k before_fn =
     (let losers = replicate k 0;
          (winner, losers) = (if 1 < k then play 1 k before_fn losers else (0, losers))
      in \<lparr>tn_losers = losers, tn_winner = winner\<rparr>)"

fun replay_loop :: "(nat \<Rightarrow> nat \<Rightarrow> bool) \<Rightarrow> nat list \<Rightarrow> nat \<Rightarrow> nat \<Rightarrow> nat list \<times> nat" where
  "replay_loop before_fn losers winner node =
     (if 0 < node then
        (if before_fn (losers ! node) winner
         then replay_loop before_fn (losers[node := winner]) (losers ! node) (node div 2)
         else replay_loop before_fn losers winner (node div 2))
      else (losers, winner))"

declare replay_loop.simps [simp del]

definition tournament_replay :: "tournament \<Rightarrow> nat \<Rightarrow> (nat \<Rightarrow> nat \<Rightarrow> bool) \<Rightarrow> tournament" where
  "tournament_replay self input before_fn =
     (let (losers, winner) =
        replay_loop before_fn (tn_losers self) input ((length (tn_losers self) + input) div 2)
      in \<lparr>tn_losers = losers, tn_winner = winner\<rparr>)"

section \<open>Winners\<close>

function win :: "nat \<Rightarrow> (nat \<Rightarrow> nat \<Rightarrow> bool) \<Rightarrow> nat \<Rightarrow> nat" where
  "win k before_fn node =
     (if k \<le> node \<or> node = 0 then node - k
      else
        (let a = win k before_fn (2 * node); b = win k before_fn (2 * node + 1) in
         if before_fn b a then b else a))"
  by pat_completeness auto
termination
  by (relation "measure (\<lambda>(k, _, node). k - node)") auto

declare win.simps [simp del]

definition lose :: "nat \<Rightarrow> (nat \<Rightarrow> nat \<Rightarrow> bool) \<Rightarrow> nat \<Rightarrow> nat" where
  "lose k before_fn node =
     (let a = win k before_fn (2 * node); b = win k before_fn (2 * node + 1) in
      if before_fn b a then a else b)"

text \<open>\<open>under node m\<close>: the node \<open>m\<close> lies in the subtree of \<open>node\<close>.\<close>

definition under :: "nat \<Rightarrow> nat \<Rightarrow> bool" where
  "under node m \<longleftrightarrow> (\<exists>h. m div 2 ^ h = node)"

lemma div_exp_add: "(m :: nat) div 2 ^ (h + d) = m div 2 ^ h div 2 ^ d"
  by (simp only: power_add div_mult2_eq)

lemma under_refl [simp]: "under n n"
  unfolding under_def by (rule exI [of _ 0]) simp

lemma under_half: "under n m \<longleftrightarrow> m = n \<or> under (2 * n) m \<or> under (Suc (2 * n)) m"
proof
  assume "under n m"
  then obtain h where h: "m div 2 ^ h = n" by (auto simp: under_def)
  show "m = n \<or> under (2 * n) m \<or> under (Suc (2 * n)) m"
  proof (cases h)
    case 0
    with h show ?thesis by simp
  next
    case (Suc h')
    then have "m div 2 ^ h' div 2 = n" using h div_exp_add [of m h' 1] by simp
    moreover have "x = 2 * (x div 2) \<or> x = Suc (2 * (x div 2))" for x :: nat by presburger
    ultimately have "m div 2 ^ h' = 2 * n \<or> m div 2 ^ h' = Suc (2 * n)" by metis
    then show ?thesis unfolding under_def by blast
  qed
next
  have up: "under n m" if "under c m" "c div 2 = n" for c
  proof -
    from that obtain h where "m div 2 ^ h = c" by (auto simp: under_def)
    then have "m div 2 ^ Suc h = n" using that(2) div_exp_add [of m h 1] by simp
    then show ?thesis unfolding under_def by blast
  qed
  assume "m = n \<or> under (2 * n) m \<or> under (Suc (2 * n)) m"
  then show "under n m" using up [of "2 * n"] up [of "Suc (2 * n)"] by auto
qed

lemma under_le: "under n m \<Longrightarrow> n \<le> m"
  by (auto simp: under_def)

lemma under_trans: "under a b \<Longrightarrow> under b c \<Longrightarrow> under a c"
  unfolding under_def by (metis div_mult2_eq power_add)

lemma under_leaf: "k \<le> node \<Longrightarrow> i < k \<Longrightarrow> under node (k + i) \<longleftrightarrow> node = k + i"
proof
  assume node: "k \<le> node" and i: "i < k" and u: "under node (k + i)"
  then obtain h where h: "(k + i) div 2 ^ h = node" by (auto simp: under_def)
  show "node = k + i"
  proof (cases h)
    case (Suc h')
    then have "node = (k + i) div 2 div 2 ^ h'" using h by (simp add: div_mult2_eq)
    then have "node \<le> (k + i) div 2" by simp
    with node i show ?thesis by linarith
  qed (use h in simp)
qed simp

lemma under_root: "0 < m \<Longrightarrow> under 1 m"
proof (induction m rule: less_induct)
  case (less m)
  show ?case
  proof (cases "m = 1")
    case False
    with less have "under 1 (m div 2)" by auto
    moreover have "under (m div 2) m" unfolding under_def by (rule exI [of _ 1]) simp
    ultimately show ?thesis by (rule under_trans)
  qed simp
qed

text \<open>The two subtrees of a node have no leaf in common.\<close>

lemma under_siblings: "0 < n \<Longrightarrow> under (2 * n) m \<Longrightarrow> \<not> under (Suc (2 * n)) m"
proof
  assume n: "0 < n" and "under (2 * n) m" "under (Suc (2 * n)) m"
  then obtain h h' where h: "m div 2 ^ h = 2 * n" and h': "m div 2 ^ h' = Suc (2 * n)" by (auto simp: under_def)
  show False
  proof (cases h h' rule: linorder_cases)
    case less
    then obtain d where "h' = h + Suc d" using less_imp_Suc_add by auto
    then have "Suc (2 * n) = 2 * n div 2 ^ Suc d" using h h' div_exp_add [of m h "Suc d"] by simp
    also have "\<dots> \<le> 2 * n" by (rule div_le_dividend)
    finally show False by simp
  next
    case equal
    then show False using h h' by simp
  next
    case greater
    then obtain d where "h = h' + Suc d" using less_imp_Suc_add by auto
    then have "2 * n = (Suc (2 * n)) div 2 ^ Suc d" using h h' div_exp_add [of m h' "Suc d"] by simp
    also have "\<dots> \<le> (Suc (2 * n)) div 2" by (simp add: div_mult2_eq)
    finally show False using n by simp
  qed
qed

section \<open>The order\<close>

definition first_of :: "(nat \<Rightarrow> nat \<Rightarrow> bool) \<Rightarrow> nat set \<Rightarrow> nat \<Rightarrow> bool" where
  "first_of before_fn S w \<longleftrightarrow> w \<in> S \<and> (\<forall>i\<in>S. i \<noteq> w \<longrightarrow> before_fn w i)"

definition leaves :: "nat \<Rightarrow> nat \<Rightarrow> nat set" where
  "leaves k node = {i. i < k \<and> under node (k + i)}"

definition tree_ok :: "nat \<Rightarrow> (nat \<Rightarrow> nat \<Rightarrow> bool) \<Rightarrow> tournament \<Rightarrow> bool" where
  "tree_ok k before_fn t \<longleftrightarrow> length (tn_losers t) = k \<and> tn_winner t = win k before_fn 1 \<and>
     (\<forall>m. 0 < m \<and> m < k \<longrightarrow> tn_losers t ! m = lose k before_fn m)"

lemma leaves_node: "0 < node \<Longrightarrow> node < k \<Longrightarrow> leaves k node = leaves k (2 * node) \<union> leaves k (Suc (2 * node))"
  unfolding leaves_def using under_half [of node] by auto

lemma leaves_leaf: "k \<le> node \<Longrightarrow> node < 2 * k \<Longrightarrow> leaves k node = {node - k}"
  unfolding leaves_def by (auto simp: under_leaf)

lemma leaves_root: "leaves k 1 = {..<k}"
proof -
  have "under 1 (k + i)" if "i < k" for i using that by (intro under_root) simp
  then show ?thesis by (auto simp: leaves_def)
qed

lemma leaves_disjoint: "0 < node \<Longrightarrow> leaves k (2 * node) \<inter> leaves k (Suc (2 * node)) = {}"
  unfolding leaves_def using under_siblings by auto

lemma leaves_below: "leaves k node \<subseteq> {..<k}"
  by (auto simp: leaves_def)

text \<open>What the merge promises of its comparison: a strict total order on the inputs.\<close>

locale strict_order =
  fixes k :: nat and before_fn :: "nat \<Rightarrow> nat \<Rightarrow> bool"
  assumes irrefl: "\<not> before_fn a a"
    and trans: "before_fn a b \<Longrightarrow> before_fn b c \<Longrightarrow> before_fn a c"
    and total: "a < k \<Longrightarrow> b < k \<Longrightarrow> a \<noteq> b \<Longrightarrow> before_fn a b \<or> before_fn b a"
begin

lemma asym: "before_fn a b \<Longrightarrow> \<not> before_fn b a"
  using irrefl trans by blast

lemma first_of_unique: "first_of before_fn S a \<Longrightarrow> first_of before_fn S b \<Longrightarrow> a = b"
  unfolding first_of_def by (metis asym)

lemma first_of_subset: "first_of before_fn S a \<Longrightarrow> T \<subseteq> S \<Longrightarrow> a \<in> T \<Longrightarrow> first_of before_fn T a"
  unfolding first_of_def by blast

lemma first_of_Un:
  assumes "first_of before_fn S a" "first_of before_fn T b" "S \<inter> T = {}" "S \<subseteq> {..<k}" "T \<subseteq> {..<k}"
  shows "first_of before_fn (S \<union> T) (if before_fn b a then b else a)"
proof -
  have "a \<noteq> b" "a < k" "b < k" using assms unfolding first_of_def by auto
  then have "\<not> before_fn b a \<Longrightarrow> before_fn a b" using total by blast
  with assms(1,2) trans show ?thesis unfolding first_of_def by (auto split: if_splits)
qed

lemma win_first: "0 < node \<Longrightarrow> node < 2 * k \<Longrightarrow> first_of before_fn (leaves k node) (win k before_fn node)"
proof (induction "k - node" arbitrary: node rule: less_induct)
  case less
  show ?case
  proof (cases "k \<le> node")
    case True
    with less.prems show ?thesis by (simp add: win.simps [of k] leaves_leaf first_of_def)
  next
    case False
    with less.prems have "first_of before_fn (leaves k (2 * node)) (win k before_fn (2 * node))"
      "first_of before_fn (leaves k (Suc (2 * node))) (win k before_fn (Suc (2 * node)))"
      by (intro less.hyps; simp)+
    from first_of_Un [OF this leaves_disjoint leaves_below leaves_below] False less.prems
    show ?thesis by (simp add: win.simps [of k before_fn node] leaves_node Let_def)
  qed
qed

lemma win_children:
  assumes "0 < node" "node < k"
  shows "win k before_fn (2 * node) < k" "win k before_fn (Suc (2 * node)) < k"
    "win k before_fn (2 * node) \<noteq> win k before_fn (Suc (2 * node))"
proof -
  have "first_of before_fn (leaves k (2 * node)) (win k before_fn (2 * node))"
    "first_of before_fn (leaves k (Suc (2 * node))) (win k before_fn (Suc (2 * node)))"
    using assms by (intro win_first; simp)+
  then have "win k before_fn (2 * node) \<in> leaves k (2 * node)" "win k before_fn (Suc (2 * node)) \<in> leaves k (Suc (2 * node))"
    by (simp_all add: first_of_def)
  with leaves_disjoint [OF assms(1), of k] leaves_below [of k "2 * node"] leaves_below [of k "Suc (2 * node)"]
  show "win k before_fn (2 * node) < k" "win k before_fn (Suc (2 * node)) < k"
    "win k before_fn (2 * node) \<noteq> win k before_fn (Suc (2 * node))"
    by auto
qed

lemma play_result:
  "0 < node \<Longrightarrow> node < 2 * k \<Longrightarrow> length losers = k \<Longrightarrow>
     fst (play node k before_fn losers) = win k before_fn node \<and>
     length (snd (play node k before_fn losers)) = k \<and>
     (\<forall>m<k. snd (play node k before_fn losers) ! m = (if under node m then lose k before_fn m else losers ! m))"
proof (induction "k - node" arbitrary: node losers rule: less_induct)
  case less
  show ?case
  proof (cases "k \<le> node")
    case True
    then have "\<not> under node m" if "m < k" for m using that under_le [of node m] by auto
    with True show ?thesis by (simp add: play.simps [of node] win.simps [of k] less.prems)
  next
    case False
    obtain a l1 where l1: "play (2 * node) k before_fn losers = (a, l1)" by force
    obtain b l2 where l2: "play (Suc (2 * node)) k before_fn l1 = (b, l2)" by force
    have 1: "a = win k before_fn (2 * node)" "length l1 = k"
      "\<forall>m<k. l1 ! m = (if under (2 * node) m then lose k before_fn m else losers ! m)"
      using less.hyps [of "2 * node" losers] less.prems False by (simp_all add: l1)
    have 2: "b = win k before_fn (Suc (2 * node))" "length l2 = k"
      "\<forall>m<k. l2 ! m = (if under (Suc (2 * node)) m then lose k before_fn m else l1 ! m)"
      using less.hyps [of "Suc (2 * node)" l1] less.prems False 1(2) by (simp_all add: l2)
    have out: "play node k before_fn losers =
        (win k before_fn node, l2[node := lose k before_fn node])"
      using False less.prems 1(1) 2(1)
      by (simp add: play.simps [of node] l1 l2 [simplified] win.simps [of k before_fn node] lose_def Let_def)
    show ?thesis
      unfolding out using 1 2 False under_half [of node] by (auto simp: nth_list_update)
  qed
qed

lemma tree_ok_new: "0 < k \<Longrightarrow> tree_ok k before_fn (tournament_new k before_fn)"
proof -
  assume k: "0 < k"
  have "tree_ok k before_fn (tournament_new k before_fn)" if "1 < k"
    using that play_result [of 1 "replicate k 0"] under_root
    by (auto simp: tournament_new_def tree_ok_def split: prod.splits)
  moreover have "tree_ok k before_fn (tournament_new k before_fn)" if "k = 1"
    unfolding tree_ok_def using that by (simp add: tournament_new_def win.simps)
  ultimately show ?thesis using k by linarith
qed

lemma tree_ok_winner: "0 < k \<Longrightarrow> tree_ok k before_fn t \<Longrightarrow> first_of before_fn {..<k} (tn_winner t)"
  using win_first [of 1] unfolding tree_ok_def leaves_root by simp

end

lemma under_up: "under m c \<longleftrightarrow> m = c \<or> under m (c div 2)"
proof
  assume "under m c"
  then obtain h where "c div 2 ^ h = m" by (auto simp: under_def)
  then show "m = c \<or> under m (c div 2)"
    unfolding under_def by (cases h) (auto simp: div_mult2_eq)
next
  have "under (c div 2) c" unfolding under_def by (rule exI [of _ 1]) simp
  then show "m = c \<or> under m (c div 2) \<Longrightarrow> under m c" using under_trans by auto
qed

section \<open>Replaying\<close>

lemma win_unchanged:
  assumes "strict_order k bf" "\<And>a b. a \<noteq> i \<Longrightarrow> b \<noteq> i \<Longrightarrow> bf' a b = bf a b"
  shows "0 < node \<Longrightarrow> node < 2 * k \<Longrightarrow> i \<notin> leaves k node \<Longrightarrow> win k bf' node = win k bf node"
proof (induction "k - node" arbitrary: node rule: less_induct)
  case less
  show ?case
  proof (cases "k \<le> node")
    case True
    then show ?thesis by (simp add: win.simps)
  next
    case False
    with less.prems have i: "i \<notin> leaves k (2 * node)" "i \<notin> leaves k (Suc (2 * node))" by (simp_all add: leaves_node)
    have IH: "win k bf' (2 * node) = win k bf (2 * node)" "win k bf' (Suc (2 * node)) = win k bf (Suc (2 * node))"
      using less.prems False i by (intro less.hyps; simp)+
    have "win k bf (2 * node) \<in> leaves k (2 * node)" "win k bf (Suc (2 * node)) \<in> leaves k (Suc (2 * node))"
      using strict_order.win_first [OF assms(1), of "2 * node"] strict_order.win_first [OF assms(1), of "Suc (2 * node)"]
        less.prems False by (simp_all add: first_of_def)
    with i have "win k bf (2 * node) \<noteq> i" "win k bf (Suc (2 * node)) \<noteq> i" by auto
    with IH assms(2) show ?thesis
      by (simp add: win.simps [of k bf' node] win.simps [of k bf node] Let_def)
  qed
qed

text \<open>A match between the changed subtree and its unchanged sibling.\<close>

lemma replayed_match:
  assumes old: "strict_order k bf" and new: "strict_order k bf'"
    and same: "\<And>a b. a \<noteq> i \<Longrightarrow> b \<noteq> i \<Longrightarrow> bf' a b = bf a b"
    and n: "0 < n" "n < k" and cs: "c = 2 * n \<and> s = Suc (2 * n) \<or> c = Suc (2 * n) \<and> s = 2 * n"
    and i: "i \<in> leaves k c" and first: "first_of bf {..<k} i"
  shows "win k bf' n = (if bf' (lose k bf n) (win k bf' c) then lose k bf n else win k bf' c)"
    "lose k bf' n = (if bf' (lose k bf n) (win k bf' c) then win k bf' c else lose k bf n)"
proof -
  have s: "0 < s" "s < 2 * k" and c: "0 < c" "c < 2 * k" using n cs by auto
  have out: "i \<notin> leaves k s" using leaves_disjoint [OF n(1), of k] i cs by auto
  have sib: "win k bf' s = win k bf s" using win_unchanged [OF old same s out] by simp
  have "i \<in> leaves k n" using i leaves_node [OF n] cs by auto
  then have "win k bf n = i"
    using strict_order.first_of_unique [OF old strict_order.win_first [OF old n(1)]
        strict_order.first_of_subset [OF old first leaves_below]] n by simp
  moreover have "win k bf c = i"
    using strict_order.first_of_unique [OF old strict_order.win_first [OF old c]
        strict_order.first_of_subset [OF old first leaves_below i]] .
  ultimately have lose: "lose k bf n = win k bf s"
    using n strict_order.win_children(3) [OF old n] cs
    by (elim disjE conjE) (simp_all add: lose_def win.simps [of k bf n] Let_def split: if_splits)
  have "win k bf' c < k" "win k bf' s < k" "win k bf' c \<noteq> win k bf' s"
    using strict_order.win_children [OF new n] cs by auto
  then have flip: "bf' (win k bf' c) (win k bf' s) \<longleftrightarrow> \<not> bf' (win k bf' s) (win k bf' c)"
    using strict_order.total [OF new] strict_order.asym [OF new] by blast
  from cs flip n
  show "win k bf' n = (if bf' (lose k bf n) (win k bf' c) then lose k bf n else win k bf' c)"
    "lose k bf' n = (if bf' (lose k bf n) (win k bf' c) then win k bf' c else lose k bf n)"
    unfolding lose sib [symmetric]
    by (elim disjE conjE; simp add: lose_def win.simps [of k bf' n] Let_def)+
qed

lemma replay_loop_result:
  assumes old: "strict_order k bf" and new: "strict_order k bf'"
    and same: "\<And>a b. a \<noteq> i \<Longrightarrow> b \<noteq> i \<Longrightarrow> bf' a b = bf a b"
    and first: "first_of bf {..<k} i"
  shows "0 < c \<Longrightarrow> c < 2 * k \<Longrightarrow> i \<in> leaves k c \<Longrightarrow> length losers = k \<Longrightarrow>
    (\<And>m. 0 < m \<Longrightarrow> m < k \<Longrightarrow> losers ! m = (if under m (c div 2) then lose k bf m else lose k bf' m)) \<Longrightarrow>
    tree_ok k bf' (case replay_loop bf' losers (win k bf' c) (c div 2) of (l, w) \<Rightarrow> \<lparr>tn_losers = l, tn_winner = w\<rparr>)"
proof (induction c arbitrary: losers rule: less_induct)
  case (less c)
  show ?case
  proof (cases "c = 1")
    case True
    have "\<not> under m 0" if "0 < m" for m using that by (auto dest: under_le)
    with True less.prems show ?thesis by (simp add: replay_loop.simps tree_ok_def)
  next
    case False
    with less.prems have c: "1 < c" by simp
    let ?n = "c div 2"
    have n: "0 < ?n" "?n < k" using c less.prems(2) by auto
    have up: "under m ?n \<longleftrightarrow> m = ?n \<or> under m (?n div 2)" for m by (rule under_up)
    have not_self: "\<not> under ?n (?n div 2)" using n(1) under_le [of ?n "?n div 2"] by auto
    have "i \<in> leaves k ?n"
      using less.prems(3) under_up [of "?n" c] under_trans [of ?n c] by (auto simp: leaves_def)
    moreover define losers' where "losers' = losers[?n := lose k bf' ?n]"
    ultimately have IH: "tree_ok k bf' (case replay_loop bf' losers' (win k bf' ?n) (?n div 2) of
        (l, w) \<Rightarrow> \<lparr>tn_losers = l, tn_winner = w\<rparr>)"
      using less.prems n c not_self by (intro less.IH) (auto simp: nth_list_update up)
    have at: "losers ! ?n = lose k bf ?n" using less.prems(5) [OF n] by simp
    have "c = 2 * ?n \<and> s = Suc (2 * ?n) \<or> c = Suc (2 * ?n) \<and> s = 2 * ?n"
      if "s = (if c = 2 * ?n then Suc (2 * ?n) else 2 * ?n)" for s using that by presburger
    note match = replayed_match [OF old new same n this [OF refl] less.prems(3) first]
    have keep: "losers[?n := lose k bf ?n] = losers" unfolding at [symmetric] by simp
    show ?thesis
    proof (cases "bf' (lose k bf ?n) (win k bf' c)")
      case True
      with IH n(1) match show ?thesis
        unfolding replay_loop.simps [of bf' losers "win k bf' c" ?n] at losers'_def by simp
    next
      case False
      with IH n(1) match keep show ?thesis
        unfolding replay_loop.simps [of bf' losers "win k bf' c" ?n] at losers'_def by simp
    qed
  qed
qed

lemma tree_ok_replay:
  assumes "strict_order k bf" "strict_order k bf'" "0 < k"
    "\<And>a b. a \<noteq> tn_winner t \<Longrightarrow> b \<noteq> tn_winner t \<Longrightarrow> bf' a b = bf a b" "tree_ok k bf t"
  shows "tree_ok k bf' (tournament_replay t (tn_winner t) bf')"
proof -
  let ?i = "tn_winner t"
  have first: "first_of bf {..<k} ?i" using strict_order.tree_ok_winner [OF assms(1,3,5)] .
  then have i: "?i < k" by (simp add: first_of_def)
  have len: "length (tn_losers t) = k" using assms(5) by (simp add: tree_ok_def)
  have leaf: "win k bf' (k + ?i) = ?i" "?i \<in> leaves k (k + ?i)"
    using i by (simp_all add: win.simps leaves_def)
  have "tn_losers t ! m = (if under m ((k + ?i) div 2) then lose k bf m else lose k bf' m)" if m: "0 < m" "m < k" for m
  proof (cases "under m ((k + ?i) div 2)")
    case True
    with m assms(5) show ?thesis by (simp add: tree_ok_def)
  next
    case False
    then have "\<not> under m (k + ?i)" using under_up [of m "k + ?i"] m i by auto
    then have "?i \<notin> leaves k m" by (simp add: leaves_def)
    then have "?i \<notin> leaves k (2 * m)" "?i \<notin> leaves k (Suc (2 * m))" using leaves_node [OF m] by auto
    then have eq: "win k bf' (2 * m) = win k bf (2 * m)" "win k bf' (Suc (2 * m)) = win k bf (Suc (2 * m))"
      using m by (intro win_unchanged [OF assms(1,4)]; simp)+
    have "win k bf (2 * m) \<in> leaves k (2 * m)" "win k bf (Suc (2 * m)) \<in> leaves k (Suc (2 * m))"
      using strict_order.win_first [OF assms(1), of "2 * m"] strict_order.win_first [OF assms(1), of "Suc (2 * m)"] m
      by (simp_all add: first_of_def)
    with \<open>?i \<notin> leaves k (2 * m)\<close> \<open>?i \<notin> leaves k (Suc (2 * m))\<close>
    have "win k bf (2 * m) \<noteq> ?i" "win k bf (Suc (2 * m)) \<noteq> ?i" by auto
    with eq assms(4) have "lose k bf' m = lose k bf m" by (simp add: lose_def Let_def)
    with False m assms(5) show ?thesis by (simp add: tree_ok_def)
  qed
  from replay_loop_result [OF assms(1,2,4) first _ _ leaf(2) len this] i
  show ?thesis by (simp add: tournament_replay_def len leaf(1) case_prod_unfold Let_def)
qed

section \<open>Properties\<close>

text \<open>
  C32: Under any strict total order of the inputs the winner of a new loser tree
  is the first input, and after the winner's key changes, and only its, replaying
  its matches from its leaf to the root gives the tree, and the winner, that
  building anew under the changed order would give.
\<close>

theorem loser_tree_replay:
  assumes "0 < k" "strict_order k bf" "strict_order k bf'"
    "\<And>a b. a \<noteq> tn_winner t \<Longrightarrow> b \<noteq> tn_winner t \<Longrightarrow> bf' a b = bf a b" "tree_ok k bf t"
  shows "first_of bf {..<k} (tn_winner (tournament_new k bf)) \<and> tree_ok k bf (tournament_new k bf) \<and>
    first_of bf' {..<k} (tn_winner (tournament_replay t (tn_winner t) bf')) \<and>
    tree_ok k bf' (tournament_replay t (tn_winner t) bf')"
proof -
  have "tree_ok k bf (tournament_new k bf)" by (rule strict_order.tree_ok_new [OF assms(2,1)])
  moreover have "tree_ok k bf' (tournament_replay t (tn_winner t) bf')"
    by (rule tree_ok_replay [OF assms(2,3,1) _ assms(5)]) (rule assms(4))
  ultimately show ?thesis
    using strict_order.tree_ok_winner [OF assms(2,1)] strict_order.tree_ok_winner [OF assms(3,1)] by blast
qed

definition keys_before :: "nat list \<Rightarrow> nat \<Rightarrow> nat \<Rightarrow> bool" where
  "keys_before keys a b \<longleftrightarrow> keys ! a < keys ! b \<or> (keys ! a = keys ! b \<and> a < b)"

lemma keys_before_order: "strict_order k (keys_before keys)"
  by unfold_locales (auto simp: keys_before_def)

theorem loser_tree_replay_witness:
  "tn_winner (tournament_new 3 (keys_before [5, 2, 7])) = 1 \<and>
   first_of (keys_before [5, 9, 7]) {..<3}
     (tn_winner (tournament_replay (tournament_new 3 (keys_before [5, 2, 7])) 1 (keys_before [5, 9, 7])))"
proof -
  have w: "tn_winner (tournament_new 3 (keys_before [5, 2, 7])) = 1" by code_simp
  have "keys_before [5, 9, 7] a b = keys_before [5, 2, 7] a b" if "a \<noteq> 1" "b \<noteq> 1" for a b
    using that by (auto simp: keys_before_def nth_Cons split: nat.splits)
  moreover have "tree_ok 3 (keys_before [5, 2, 7]) (tournament_new 3 (keys_before [5, 2, 7]))"
    by (rule strict_order.tree_ok_new [OF keys_before_order]) simp
  ultimately show ?thesis
    using loser_tree_replay [of 3 "keys_before [5, 2, 7]" "keys_before [5, 9, 7]" "tournament_new 3 (keys_before [5, 2, 7])"]
      keys_before_order w by simp
qed

end
