(* ===== verification/Merge.thy ===== *)
theory Merge
  imports Tournament Doc_Set "HOL-Library.List_Lexorder" "HOL-Library.Product_Lexorder"
begin

text \<open>
  The streaming merge of adjacent segments (\<open>ferret-index/src/merge.rs\<close>):
  each term of the inputs is written once, with its live documents from every
  input that holds it, in input order. An input is what its term stream
  yields: per term the list its entry decodes to, any step or read of which
  may fail instead. What is done with a term is a parameter; \<open>Merge_File\<close> gives the
  writer's \<open>push\<close> and \<open>spill\<close> for it.

  Results: on well-formed inputs with disjoint ascending ranges the merge puts
  exactly the specification, the terms in order with the concatenation of their
  live documents, which the writer's contract (\<open>Writer::check_term\<close>) admits; skipping
  the filter for a wholly live input changes nothing.
\<close>

section \<open>The writer's contract\<close>

datatype write_error =
    Range nat nat | TermOrder | NoDocuments | DocOrder | DocRange nat | Codec nat | RecordOrder

record term_writer =
  tw_first :: nat
  tw_last :: nat
  tw_pushed :: nat
  tw_last_term :: bytes
  tw_out :: "(bytes \<times> nat list) list"

definition check_term :: "term_writer \<Rightarrow> bytes \<Rightarrow> nat list \<Rightarrow> write_error + unit" where
  "check_term self t docs =
     (if 0 < tw_pushed self \<and> t \<le> tw_last_term self then Inl TermOrder
      else if docs = [] then Inl NoDocuments
      else if list_ex (\<lambda>pair. pair ! 1 \<le> pair ! 0) (windows 2 docs) then Inl DocOrder
      else
        (case find (\<lambda>doc. \<not> (tw_first self \<le> doc \<and> doc \<le> tw_last self)) [hd docs, last docs] of
           Some doc \<Rightarrow> Inl (DocRange doc)
         | None \<Rightarrow> Inr ()))"

definition writer_push :: "term_writer \<Rightarrow> bytes \<Rightarrow> nat list \<Rightarrow> write_error + term_writer" where
  "writer_push self t docs =
     (case check_term self t docs of
        Inl e \<Rightarrow> Inl e
      | Inr _ \<Rightarrow> Inr (self\<lparr>tw_last_term := t, tw_pushed := tw_pushed self + 1, tw_out := tw_out self @ [(t, docs)]\<rparr>))"

section \<open>The merge\<close>

type_synonym 'e term_item = "'e + bytes \<times> ('e + nat list)"

record 'e merge_input =
  mi_first :: nat
  mi_last :: nat
  mi_items :: "'e term_item list"

text \<open>\<open>MergeIo\<close> is an error of \<open>Writer::spill\<close> or of finishing, \<open>MergePanic\<close> a panic outside the streams.\<close>

datatype 'e merge_error = MergeCancelled | MergeRead 'e | MergeWrite write_error | MergeIo | MergePanic

text \<open>One input's cursor, current term and current entry: an element of each of
  the parallel vectors \<open>cursors\<close>, \<open>terms\<close> and \<open>entries\<close>. The term of an
  exhausted input is stale.\<close>

record 'e merge_slot =
  ms_rest :: "'e term_item list"
  ms_term :: bytes
  ms_entry :: "('e + nat list) option"

definition wholly_live :: "'e merge_input list \<Rightarrow> docset \<Rightarrow> bool list" where
  "wholly_live inputs live =
     map (\<lambda>input. docset_count live (mi_first input) (min (mi_last input + 1) (2 ^ 32 - 1)) =
                  mi_last input - mi_first input + 1) inputs"

definition next_term :: "'e merge_slot \<Rightarrow> 'e merge_error + 'e merge_slot" where
  "next_term slot =
     (case ms_rest slot of
        [] \<Rightarrow> Inr (slot\<lparr>ms_entry := None\<rparr>)
      | Inl e # _ \<Rightarrow> Inl (MergeRead e)
      | Inr (t, entry) # rest \<Rightarrow> Inr \<lparr>ms_rest = rest, ms_term = t, ms_entry = Some entry\<rparr>)"

text \<open>The first step of every input, in input order.\<close>

fun start_slots :: "'e merge_input list \<Rightarrow> 'e merge_error + 'e merge_slot list" where
  "start_slots [] = Inr []"
| "start_slots (input # inputs) =
     (case next_term \<lparr>ms_rest = mi_items input, ms_term = [], ms_entry = None\<rparr> of
        Inl e \<Rightarrow> Inl e
      | Inr slot \<Rightarrow> (case start_slots inputs of Inl e \<Rightarrow> Inl e | Inr slots \<Rightarrow> Inr (slot # slots)))"

definition input_before :: "'e merge_slot list \<Rightarrow> nat \<Rightarrow> nat \<Rightarrow> bool" where
  "input_before slots a b \<longleftrightarrow>
     (ms_entry (slots ! a) = None, ms_term (slots ! a), a) < (ms_entry (slots ! b) = None, ms_term (slots ! b), b)"

text \<open>\<open>entries.get(i)\<close>, flattened: the entry unless the input is exhausted.\<close>

definition entry_at :: "'e merge_slot list \<Rightarrow> nat \<Rightarrow> ('e + nat list) option" where
  "entry_at slots i = (if i < length slots then ms_entry (slots ! i) else None)"

text \<open>What is left to read: the loops end because it shrinks.\<close>

definition slot_left :: "'e merge_slot \<Rightarrow> nat" where
  "slot_left slot = length (ms_rest slot) + (if ms_entry slot = None then 0 else 1)"

definition left_over :: "'e merge_slot list \<Rightarrow> nat" where
  "left_over slots = sum_list (map slot_left slots)"

lemma next_term_left: "next_term slot = Inr slot' \<Longrightarrow> ms_entry slot \<noteq> None \<Longrightarrow> slot_left slot' < slot_left slot"
  by (auto simp: next_term_def slot_left_def split: list.splits sum.splits)

lemma left_over_update:
  assumes "i < length slots" "slot_left slot < slot_left (slots ! i)"
  shows "left_over (slots[i := slot]) < left_over slots"
proof -
  have "slot_left (slots ! i) \<le> sum_list (map slot_left slots)"
    using elem_le_sum_list [of i "map slot_left slots"] assms(1) by simp
  with assms show ?thesis by (simp add: left_over_def map_update sum_list_update)
qed

text \<open>
  The inner loop: every input whose current term is \<open>t\<close>, in winning order.
  Its list is read, filtered unless the input is wholly live, and appended.
\<close>

function group_loop ::
  "bool list \<Rightarrow> docset \<Rightarrow> bytes \<Rightarrow> nat list \<Rightarrow> 'e merge_slot list \<Rightarrow> tournament \<Rightarrow>
   'e merge_error + nat list \<times> 'e merge_slot list \<times> tournament"
where
  "group_loop whole live t docs slots tree =
     (let j = tn_winner tree in
      case entry_at slots j of
        None \<Rightarrow> Inr (docs, slots, tree)
      | Some entry \<Rightarrow>
          if ms_term (slots ! j) \<noteq> t then Inr (docs, slots, tree)
          else
            (case entry of
               Inl e \<Rightarrow> Inl (MergeRead e)
             | Inr found \<Rightarrow>
                 (let docs = docs @ (if whole ! j then found else filter (docset_contains live) found) in
                  case next_term (slots ! j) of
                    Inl e \<Rightarrow> Inl e
                  | Inr slot \<Rightarrow>
                      (let slots = slots[j := slot] in
                       group_loop whole live t docs slots (tournament_replay tree j (input_before slots))))))"
  by pat_completeness auto
termination
proof (relation "measure (\<lambda>(_, _, _, _, slots, _). left_over slots)", simp)
  fix whole live t docs and slots slots' :: "'a merge_slot list" and tree :: tournament and j entry found docs' slot
  assume "j = tn_winner tree" "entry_at slots j = Some entry" "next_term (slots ! j) = Inr slot"
    "slots' = slots[j := slot]"
  then have "left_over slots' < left_over slots"
    by (auto simp: entry_at_def split: if_splits intro!: left_over_update next_term_left)
  then show "((whole, live, t, docs', slots', tournament_replay tree j (input_before slots')), whole, live, t, docs, slots, tree)
      \<in> measure (\<lambda>(_, _, _, _, slots, _). left_over slots)" by simp
qed

declare group_loop.simps [simp del]

lemma group_loop_left:
  "group_loop whole live t docs slots tree = Inr (docs', slots', tree') \<Longrightarrow>
     left_over slots' \<le> left_over slots \<and>
     (entry_at slots (tn_winner tree) \<noteq> None \<and> ms_term (slots ! tn_winner tree) = t \<longrightarrow> left_over slots' < left_over slots)"
proof (induction whole live t docs slots tree rule: group_loop.induct)
  case (1 whole live t docs slots tree)
  show ?case
  proof (cases "entry_at slots (tn_winner tree) \<noteq> None \<and> ms_term (slots ! tn_winner tree) = t")
    case True
    let ?j = "tn_winner tree"
    from True obtain entry where e: "entry_at slots ?j = Some entry" by blast
    with True "1.prems" obtain found slot where found: "entry = Inr found" and slot: "next_term (slots ! ?j) = Inr slot"
      and rest: "group_loop whole live t (docs @ (if whole ! ?j then found else filter (docset_contains live) found))
        (slots[?j := slot]) (tournament_replay tree ?j (input_before (slots[?j := slot]))) = Inr (docs', slots', tree')"
      by (subst (asm) group_loop.simps) (auto simp: Let_def split: sum.splits)
    have "left_over (slots[?j := slot]) < left_over slots"
      using e slot by (auto simp: entry_at_def split: if_splits intro!: left_over_update next_term_left)
    with "1.IH" [OF refl e _ found refl slot refl rest] True show ?thesis by simp
  next
    case False
    with "1.prems" show ?thesis by (subst (asm) group_loop.simps) (auto simp: Let_def split: option.splits)
  qed
qed

text \<open>The outer loop: one term after another. \<open>put\<close> is what it does with a term: \<open>writer.push\<close> and \<open>writer.spill\<close>.\<close>

type_synonym ('w, 'e) put_term = "'w \<Rightarrow> bytes \<Rightarrow> nat list \<Rightarrow> 'e merge_error + 'w"

function merge_loop ::
  "bool list \<Rightarrow> docset \<Rightarrow> (nat \<Rightarrow> bool) \<Rightarrow> ('w, 'e) put_term \<Rightarrow> nat \<Rightarrow> 'e merge_slot list \<Rightarrow> tournament \<Rightarrow> 'w \<Rightarrow>
   'e merge_error + 'w"
where
  "merge_loop whole live cancelled put calls slots tree writer =
     (if entry_at slots (tn_winner tree) = None then Inr writer
      else if cancelled calls then Inl MergeCancelled
      else
        (let t = ms_term (slots ! tn_winner tree) in
         case group_loop whole live t [] slots tree of
           Inl e \<Rightarrow> Inl e
         | Inr (docs, slots, tree) \<Rightarrow>
             if docs = [] then merge_loop whole live cancelled put (calls + 1) slots tree writer
             else
               (case put writer t docs of
                  Inl e \<Rightarrow> Inl e
                | Inr writer \<Rightarrow> merge_loop whole live cancelled put (calls + 1) slots tree writer)))"
  by pat_completeness auto
termination
  by (relation "measure (\<lambda>(_, _, _, _, _, slots, _, _). left_over slots)") (auto dest!: sym [of "Inr _"] group_loop_left)

declare merge_loop.simps [simp del]

definition merge_terms ::
  "'e merge_input list \<Rightarrow> docset \<Rightarrow> (nat \<Rightarrow> bool) \<Rightarrow> ('w, 'e) put_term \<Rightarrow> 'w \<Rightarrow> 'e merge_error + 'w"
where
  "merge_terms inputs live cancelled put writer =
     (case start_slots inputs of
        Inl e \<Rightarrow> Inl e
      | Inr slots \<Rightarrow>
          merge_loop (wholly_live inputs live) live cancelled put 0 slots
            (tournament_new (length inputs) (input_before slots)) writer)"

section \<open>The order of the inputs\<close>

interpretation inputs: strict_order k "input_before slots" for k slots
  by unfold_locales (auto simp: input_before_def)

section \<open>Streams\<close>

text \<open>What an input without failures still yields, its current term first.\<close>

type_synonym stream = "(bytes \<times> nat list) list"

definition stream_item :: "bytes \<times> nat list \<Rightarrow> 'e term_item" where
  "stream_item x = Inr (fst x, Inr (snd x))"

fun slot_rep :: "'e merge_slot \<Rightarrow> stream \<Rightarrow> bool" where
  "slot_rep slot [] \<longleftrightarrow> ms_entry slot = None \<and> ms_rest slot = []"
| "slot_rep slot (x # s) \<longleftrightarrow>
     ms_entry slot = Some (Inr (snd x)) \<and> ms_term slot = fst x \<and> ms_rest slot = map stream_item s"

abbreviation slots_rep :: "'e merge_slot list \<Rightarrow> stream list \<Rightarrow> bool" where
  "slots_rep \<equiv> list_all2 slot_rep"

lemma next_term_rep: "slot_rep slot (x # s) \<Longrightarrow> \<exists>slot'. next_term slot = Inr slot' \<and> slot_rep slot' s"
  by (cases s) (auto simp: next_term_def stream_item_def)

lemma start_slots_rep:
  assumes "map mi_items inputs = map (map stream_item) ss"
  shows "\<exists>slots. start_slots inputs = Inr slots \<and> slots_rep slots ss"
  using assms
proof (induction inputs arbitrary: ss)
  case (Cons input inputs)
  then obtain s ss' where ss: "ss = s # ss'" and s: "mi_items input = map stream_item s"
    and rest: "map mi_items inputs = map (map stream_item) ss'" by auto
  from Cons.IH [OF rest] obtain slots where "start_slots inputs = Inr slots" "slots_rep slots ss'" by blast
  moreover have "\<exists>slot. next_term \<lparr>ms_rest = mi_items input, ms_term = [], ms_entry = None\<rparr> = Inr slot \<and> slot_rep slot s"
    unfolding s by (cases s) (auto simp: next_term_def stream_item_def)
  ultimately show ?case by (auto simp: ss)
qed simp

abbreviation sorted_stream :: "stream \<Rightarrow> bool" where
  "sorted_stream s \<equiv> sorted_wrt (<) (map fst s)"

text \<open>No stream is at a term before \<open>t\<close>.\<close>

definition from_term :: "bytes \<Rightarrow> stream list \<Rightarrow> bool" where
  "from_term t ss \<longleftrightarrow> (\<forall>s\<in>set ss. s = [] \<or> t \<le> fst (hd s))"

lemma slot_rep_entry: "slot_rep slot s \<Longrightarrow> ms_entry slot = None \<longleftrightarrow> s = []"
  by (cases s) auto

lemma slot_rep_term: "slot_rep slot s \<Longrightarrow> s \<noteq> [] \<Longrightarrow> ms_term slot = fst (hd s)"
  by (cases s) auto

lemma winner_first:
  assumes "slots_rep slots ss" "tree_ok (length ss) (input_before slots) tree" "0 < length ss"
  shows "tn_winner tree < length ss"
    "i < length ss \<Longrightarrow> ss ! i \<noteq> [] \<Longrightarrow> ss ! tn_winner tree \<noteq> [] \<and>
      (fst (hd (ss ! tn_winner tree)) < fst (hd (ss ! i)) \<or>
       fst (hd (ss ! tn_winner tree)) = fst (hd (ss ! i)) \<and> tn_winner tree \<le> i)"
proof -
  let ?w = "tn_winner tree"
  have first: "first_of (input_before slots) {..<length ss} ?w"
    using inputs.tree_ok_winner [OF assms(3,2)] .
  then show w: "?w < length ss" by (simp add: first_of_def)
  assume i: "i < length ss" "ss ! i \<noteq> []"
  have reps: "slot_rep (slots ! ?w) (ss ! ?w)" "slot_rep (slots ! i) (ss ! i)"
    using assms(1) w i(1) by (auto simp: list_all2_conv_all_nth)
  show "ss ! ?w \<noteq> [] \<and> (fst (hd (ss ! ?w)) < fst (hd (ss ! i)) \<or> fst (hd (ss ! ?w)) = fst (hd (ss ! i)) \<and> ?w \<le> i)"
  proof (cases "i = ?w")
    case False
    then have "input_before slots ?w i" using first i(1) by (auto simp: first_of_def)
    with i reps slot_rep_entry [OF reps(1)] slot_rep_entry [OF reps(2)] slot_rep_term [OF reps(1)] slot_rep_term [OF reps(2)]
    show ?thesis by (auto simp: input_before_def)
  qed (use i in auto)
qed

section \<open>One term\<close>

text \<open>What the inputs at \<open>t\<close> contribute, and the streams past it. \<open>keep\<close> is the
  filter applied to input \<open>i\<close>'s list.\<close>

definition keep_docs :: "bool list \<Rightarrow> docset \<Rightarrow> nat \<Rightarrow> nat list \<Rightarrow> nat list" where
  "keep_docs whole live i found = (if whole ! i then found else filter (docset_contains live) found)"

fun head_docs :: "(nat list \<Rightarrow> nat list) \<Rightarrow> bytes \<Rightarrow> stream \<Rightarrow> nat list" where
  "head_docs keep t [] = []"
| "head_docs keep t (x # s) = (if fst x = t then keep (snd x) else [])"

fun drop_head :: "bytes \<Rightarrow> stream \<Rightarrow> stream" where
  "drop_head t [] = []"
| "drop_head t (x # s) = (if fst x = t then s else x # s)"

definition group_docs :: "(nat \<Rightarrow> nat list \<Rightarrow> nat list) \<Rightarrow> bytes \<Rightarrow> stream list \<Rightarrow> nat list" where
  "group_docs keep t ss = concat (map (\<lambda>i. head_docs (keep i) t (ss ! i)) [0..<length ss])"

lemma head_docs_other: "s = [] \<or> fst (hd s) \<noteq> t \<Longrightarrow> head_docs keep t s = [] \<and> drop_head t s = s"
  by (cases s) auto

lemma sorted_stream_tl: "sorted_stream (x # s) \<Longrightarrow> s = [] \<or> fst x < fst (hd s)"
  by (cases s) auto

lemma group_docs_step:
  assumes j: "j < length ss" "ss ! j = (t, found) # s"
    and before_j: "\<And>i. i < j \<Longrightarrow> ss ! i = [] \<or> fst (hd (ss ! i)) \<noteq> t" and "s = [] \<or> t < fst (hd s)"
  shows "group_docs keep t ss = keep j found @ group_docs keep t (ss[j := s])"
    "map (drop_head t) (ss[j := s]) = map (drop_head t) ss"
proof -
  have s: "s = [] \<or> fst (hd s) \<noteq> t" using assms(4) by auto
  show "map (drop_head t) (ss[j := s]) = map (drop_head t) ss"
    using j head_docs_other [OF s] by (intro nth_equalityI) (auto simp: nth_list_update)
  have upt: "[0..<length ss] = [0..<j] @ j # [Suc j..<length ss]"
    using j(1) by (metis le0 less_imp_le_nat upt_add_eq_append upt_conv_Cons le_Suc_ex)
  have low: "concat (map (\<lambda>i. head_docs (keep i) t (ss ! i)) [0..<j]) = []"
    "concat (map (\<lambda>i. head_docs (keep i) t (ss[j := s] ! i)) [0..<j]) = []"
    using before_j head_docs_other by (intro concat_map_Nil; auto)+
  have high: "map (\<lambda>i. head_docs (keep i) t (ss[j := s] ! i)) [Suc j..<length ss] =
      map (\<lambda>i. head_docs (keep i) t (ss ! i)) [Suc j..<length ss]" by simp
  show "group_docs keep t ss = keep j found @ group_docs keep t (ss[j := s])"
    unfolding group_docs_def length_list_update upt map_append concat_append low list.map concat.simps high
    using j head_docs_other [OF s] by (simp only: nth_list_update_eq) simp
qed

lemma group_loop_result:
  assumes "slots_rep slots ss" "tree_ok (length ss) (input_before slots) tree" "0 < length ss"
    "\<forall>s\<in>set ss. sorted_stream s" "from_term t ss"
  shows "\<exists>slots' tree'. group_loop whole live t docs slots tree =
      Inr (docs @ group_docs (keep_docs whole live) t ss, slots', tree') \<and>
    slots_rep slots' (map (drop_head t) ss) \<and> tree_ok (length ss) (input_before slots') tree'"
  using assms
proof (induction "left_over slots" arbitrary: slots ss tree docs rule: less_induct)
  case less
  let ?w = "tn_winner tree"
  note w = winner_first [OF less.prems(1-3)]
  have len: "length slots = length ss" using less.prems(1) by (rule list_all2_lengthD)
  have rep: "slot_rep (slots ! ?w) (ss ! ?w)" using less.prems(1) w(1) by (simp add: list_all2_conv_all_nth)
  show ?case
  proof (cases "ss ! ?w \<noteq> [] \<and> fst (hd (ss ! ?w)) = t")
    case False
    have none: "s = [] \<or> fst (hd s) \<noteq> t" if "s \<in> set ss" for s
    proof -
      from that obtain i where i: "i < length ss" "s = ss ! i" by (auto simp: in_set_conv_nth)
      show ?thesis
      proof (cases "s = []")
        case False
        with w(2) [of i] i have "ss ! ?w \<noteq> []" "fst (hd (ss ! ?w)) \<le> fst (hd s)" by auto
        moreover from this(1) have "t \<le> fst (hd (ss ! ?w))" "fst (hd (ss ! ?w)) \<noteq> t"
          using less.prems(5) w(1) \<open>\<not> (ss ! ?w \<noteq> [] \<and> fst (hd (ss ! ?w)) = t)\<close> by (auto simp: from_term_def)
        ultimately show ?thesis by auto
      qed simp
    qed
    then have "group_docs (keep_docs whole live) t ss = []" "map (drop_head t) ss = ss"
      using head_docs_other by (auto simp: group_docs_def intro!: concat_map_Nil map_idI)
    moreover have "group_loop whole live t docs slots tree = Inr (docs, slots, tree)"
      using False rep w(1) len slot_rep_entry [OF rep] slot_rep_term [OF rep]
      by (subst group_loop.simps) (auto simp: entry_at_def split: option.splits)
    ultimately show ?thesis using less.prems by simp
  next
    case True
    then obtain found s where s: "ss ! ?w = (t, found) # s" by (cases "ss ! ?w") auto
    from rep s obtain slot where slot: "next_term (slots ! ?w) = Inr slot" "slot_rep slot s"
      using next_term_rep by metis
    have entry: "entry_at slots ?w = Some (Inr found)" "ms_term (slots ! ?w) = t"
      using rep s w(1) len by (simp_all add: entry_at_def)
    let ?slots = "slots[?w := slot]" and ?ss = "ss[?w := s]"
    let ?tree = "tournament_replay tree ?w (input_before ?slots)"
    have sorted: "sorted_stream ((t, found) # s)" using less.prems(4) w(1) s by (metis nth_mem)
    have tl: "s = [] \<or> t < fst (hd s)" using sorted_stream_tl [OF sorted] by simp
    have before_w: "ss ! i = [] \<or> fst (hd (ss ! i)) \<noteq> t" if "i < ?w" for i
      using w(2) [of i] that w(1) s by auto
    have step: "group_docs (keep_docs whole live) t ss = keep_docs whole live ?w found @ group_docs (keep_docs whole live) t (ss[?w := s])"
      "map (drop_head t) (ss[?w := s]) = map (drop_head t) ss"
      by (rule group_docs_step [OF w(1) s _ tl], erule before_w)+
    have "left_over ?slots < left_over slots"
      using entry slot w(1) len by (intro left_over_update next_term_left) (auto simp: entry_at_def)
    moreover have "slots_rep ?slots ?ss" using less.prems(1) slot(2) by (rule list_all2_update_cong)
    moreover have "tree_ok (length ?ss) (input_before ?slots) ?tree"
      unfolding length_list_update
      by (rule tree_ok_replay [OF inputs.strict_order_axioms inputs.strict_order_axioms less.prems(3) _ less.prems(2)])
         (simp add: input_before_def)
    moreover have "\<forall>s\<in>set ?ss. sorted_stream s" "from_term t ?ss"
      using less.prems(4,5) sorted tl by (auto simp: from_term_def dest!: subsetD [OF set_update_subset_insert])
    ultimately have "\<exists>slots' tree'. group_loop whole live t (docs @ keep_docs whole live ?w found) ?slots ?tree =
        Inr ((docs @ keep_docs whole live ?w found) @ group_docs (keep_docs whole live) t ?ss, slots', tree') \<and>
        slots_rep slots' (map (drop_head t) ?ss) \<and> tree_ok (length ?ss) (input_before slots') tree'"
      using less.prems(3) by (intro less.hyps) simp_all
    moreover have "group_loop whole live t docs slots tree =
        group_loop whole live t (docs @ keep_docs whole live ?w found) ?slots ?tree"
      using entry slot by (subst group_loop.simps) (simp add: Let_def keep_docs_def)
    ultimately show ?thesis unfolding step(1) by (simp add: step(2))
  qed
qed

section \<open>All terms\<close>

definition docs_of :: "stream \<Rightarrow> bytes \<Rightarrow> nat list" where
  "docs_of s t = (case map_of s t of Some ds \<Rightarrow> ds | None \<Rightarrow> [])"

definition all_terms :: "stream list \<Rightarrow> bytes set" where
  "all_terms ss = (\<Union>s\<in>set ss. fst ` set s)"

definition term_docs :: "(nat \<Rightarrow> nat list \<Rightarrow> nat list) \<Rightarrow> stream list \<Rightarrow> bytes \<Rightarrow> nat list" where
  "term_docs keep ss t = concat (map (\<lambda>i. keep i (docs_of (ss ! i) t)) [0..<length ss])"

text \<open>The terms in order, each with what every input keeps of its documents, the
  empty ones left out.\<close>

definition merged :: "(nat \<Rightarrow> nat list \<Rightarrow> nat list) \<Rightarrow> stream list \<Rightarrow> (bytes \<times> nat list) list" where
  "merged keep ss =
     filter (\<lambda>x. snd x \<noteq> []) (map (\<lambda>t. (t, term_docs keep ss t)) (sorted_list_of_set (all_terms ss)))"

lemma finite_all_terms [simp]: "finite (all_terms ss)"
  by (simp add: all_terms_def)

lemma head_docs_of:
  assumes "sorted_stream s" "s = [] \<or> t \<le> fst (hd s)" "keep [] = []"
  shows "head_docs keep t s = keep (docs_of s t)"
proof (cases s)
  case (Cons x s')
  have "map_of s' t = None" if "t \<le> fst x"
    using assms(1) that by (force simp: Cons map_of_eq_None_iff)
  with assms(2,3) show ?thesis by (cases x) (auto simp: Cons docs_of_def)
qed (simp add: docs_of_def assms(3))

lemma docs_of_drop_head: "t' \<noteq> t \<Longrightarrow> docs_of (drop_head t s) t' = docs_of s t'"
  by (cases s) (auto simp: docs_of_def)

lemma sorted_drop_head: "sorted_stream s \<Longrightarrow> sorted_stream (drop_head t s)"
  by (cases s) auto

lemma all_terms_drop_head: "all_terms (map (drop_head t) ss) \<subseteq> all_terms ss"
proof -
  have "set (drop_head t s) \<subseteq> set s" for s by (cases s) auto
  then show ?thesis unfolding all_terms_def by force
qed

lemma drop_head_terms:
  assumes "sorted_stream s" "s = [] \<or> t \<le> fst (hd s)"
  shows "fst ` set (drop_head t s) = fst ` set s - {t}" "\<forall>x\<in>set (drop_head t s). t < fst x"
proof -
  show "\<forall>x\<in>set (drop_head t s). t < fst x"
    using assms by (cases s) (force split: if_splits)+
  then show "fst ` set (drop_head t s) = fst ` set s - {t}"
    by (cases s) (force simp: image_iff)+
qed

lemma merged_step:
  assumes sorted: "\<forall>s\<in>set ss. sorted_stream s" and least: "from_term t ss" and t: "t \<in> all_terms ss"
    and keep: "\<And>i. keep i [] = []"
  shows "merged keep ss =
    (if group_docs keep t ss = [] then [] else [(t, group_docs keep t ss)]) @ merged keep (map (drop_head t) ss)"
    "\<forall>u\<in>all_terms (map (drop_head t) ss). t < u"
proof -
  let ?ss = "map (drop_head t) ss"
  have each: "fst ` set (drop_head t s) = fst ` set s - {t}" "\<forall>x\<in>set (drop_head t s). t < fst x" if "s \<in> set ss" for s
    using that sorted least drop_head_terms [of s t] by (auto simp: from_term_def)
  then have terms: "all_terms ?ss = all_terms ss - {t}" by (auto simp: all_terms_def)
  show above: "\<forall>u\<in>all_terms ?ss. t < u" using each(2) by (auto simp: all_terms_def)
  have "all_terms ss = insert t (all_terms ?ss)" "t \<notin> all_terms ?ss" using t terms by auto
  then have list: "sorted_list_of_set (all_terms ss) = t # sorted_list_of_set (all_terms ?ss)"
    using above by (simp add: sorted_list_of_set_insert_remove insort_is_Cons less_imp_le)
  have group: "group_docs keep t ss = term_docs keep ss t"
    unfolding group_docs_def term_docs_def using sorted least keep
    by (intro arg_cong [where f = concat] map_cong refl head_docs_of) (auto simp: from_term_def)
  have others: "term_docs keep ?ss u = term_docs keep ss u" if "u \<in> all_terms ?ss" for u
    using that above docs_of_drop_head [of u t] unfolding term_docs_def by (intro arg_cong [where f = concat]) auto
  show "merged keep ss =
    (if group_docs keep t ss = [] then [] else [(t, group_docs keep t ss)]) @ merged keep ?ss"
    unfolding merged_def list group using others by (auto intro!: filter_cong map_cong arg_cong [where f = "filter _"])
qed

lemma windows_2_sorted: "list_ex (\<lambda>pair. pair ! 1 \<le> pair ! 0) (windows 2 ds) \<longleftrightarrow> \<not> sorted_wrt (<) (ds :: nat list)"
proof -
  have "list_ex (\<lambda>pair. pair ! 1 \<le> pair ! 0) (windows 2 ds) \<longleftrightarrow> (\<exists>i. Suc i < length ds \<and> ds ! Suc i \<le> ds ! i)"
    by (auto simp: windows_def list_ex_iff less_diff_conv)
  also have "\<dots> \<longleftrightarrow> \<not> sorted_wrt (<) ds"
    by (simp add: sorted_wrt_iff_nth_Suc_transp [of "(<)"] not_less) 
  finally show ?thesis .
qed

definition docs_fit :: "term_writer \<Rightarrow> nat list \<Rightarrow> bool" where
  "docs_fit w ds \<longleftrightarrow> sorted_wrt (<) ds \<and> (\<forall>d\<in>set ds. tw_first w \<le> d \<and> d \<le> tw_last w)"

lemma writer_push_ok:
  assumes "tw_pushed w = 0 \<or> tw_last_term w < t" "docs \<noteq> []" "docs_fit w docs"
  shows "writer_push w t docs =
    Inr (w\<lparr>tw_last_term := t, tw_pushed := tw_pushed w + 1, tw_out := tw_out w @ [(t, docs)]\<rparr>)"
proof -
  have "check_term w t docs = Inr ()"
    using assms by (auto simp: check_term_def windows_2_sorted [unfolded One_nat_def] docs_fit_def)
  then show ?thesis by (simp add: writer_push_def)
qed

text \<open>Terms, or records, put one after another.\<close>

fun put_all :: "('w \<Rightarrow> 'a \<Rightarrow> 'b \<Rightarrow> 'e merge_error + 'w) \<Rightarrow> 'w \<Rightarrow> ('a \<times> 'b) list \<Rightarrow> 'e merge_error + 'w" where
  "put_all put w [] = Inr w"
| "put_all put w (x # xs) = (case put w (fst x) (snd x) of Inl e \<Rightarrow> Inl e | Inr w \<Rightarrow> put_all put w xs)"

lemma merge_loop_puts:
  assumes "slots_rep slots ss" "tree_ok (length ss) (input_before slots) tree" "0 < length ss"
    "\<forall>s\<in>set ss. sorted_stream s" "\<forall>n. \<not> cancelled n"
  shows "merge_loop whole live cancelled put calls slots tree w = put_all put w (merged (keep_docs whole live) ss)"
  using assms(1-4)
proof (induction "left_over slots" arbitrary: slots ss tree w calls rule: less_induct)
  case less
  let ?w = "tn_winner tree" and ?keep = "keep_docs whole live"
  note win = winner_first [OF less.prems(1-3)]
  have len: "length slots = length ss" using less.prems(1) by (rule list_all2_lengthD)
  have rep: "slot_rep (slots ! ?w) (ss ! ?w)" using less.prems(1) win(1) by (simp add: list_all2_conv_all_nth)
  have keep: "?keep i [] = []" for i by (simp add: keep_docs_def)
  show ?case
  proof (cases "ss ! ?w = []")
    case True
    then have "\<forall>s\<in>set ss. s = []" using win(2) by (metis in_set_conv_nth)
    then have "all_terms ss = {}" by (auto simp: all_terms_def)
    moreover have "entry_at slots ?w = None" using slot_rep_entry [OF rep] True by (simp add: entry_at_def)
    ultimately show ?thesis by (subst merge_loop.simps) (simp add: merged_def)
  next
    case False
    let ?t = "ms_term (slots ! ?w)"
    have t: "?t = fst (hd (ss ! ?w))" using slot_rep_term [OF rep False] .
    obtain found where entry: "entry_at slots ?w = Some found"
      using slot_rep_entry [OF rep] False win(1) len by (auto simp: entry_at_def)
    have least: "from_term ?t ss" unfolding from_term_def t using win(2) by (metis in_set_conv_nth order_le_less)
    have "hd (ss ! ?w) \<in> set (ss ! ?w)" "ss ! ?w \<in> set ss" using False win(1) by simp_all
    then have mem: "?t \<in> all_terms ss" unfolding t all_terms_def by blast
    let ?ss = "map (drop_head ?t) ss"
    note step = merged_step(1) [OF less.prems(4) least mem, of ?keep, OF keep]
    from group_loop_result [OF less.prems(1-4) least, of whole live "[]"] obtain slots' tree'
      where group: "group_loop whole live ?t [] slots tree = Inr (group_docs ?keep ?t ss, slots', tree')"
        and rep': "slots_rep slots' ?ss" and tree': "tree_ok (length ss) (input_before slots') tree'" by auto
    have smaller: "left_over slots' < left_over slots" using group_loop_left [OF group] entry by simp
    have sorted': "\<forall>s\<in>set ?ss. sorted_stream s" using less.prems(4) sorted_drop_head by auto
    have "merge_loop whole live cancelled put (calls + 1) slots' tree' w' = put_all put w' (merged ?keep ?ss)" for w'
      using less.prems(3) rep' tree' sorted' smaller by (intro less.hyps) simp_all
    with group entry assms(5) step show ?thesis by (subst merge_loop.simps) (auto simp: Let_def split: sum.splits)
  qed
qed

lemma merged_terms: "sorted_wrt (<) (map fst (merged keep ss))" "x \<in> set (merged keep ss) \<Longrightarrow> snd x \<noteq> []"
proof -
  have "sorted_wrt (<) (map fst (filter P (map (\<lambda>t. (t, f t)) ts)))" if "sorted_wrt (<) ts" for P f and ts :: "bytes list"
    using that by (induction ts) auto
  from this [OF strict_sorted_list_of_set] show "sorted_wrt (<) (map fst (merged keep ss))" unfolding merged_def .
qed (simp add: merged_def)

section \<open>Well-formed inputs\<close>

text \<open>Adjacent segments in range order, each with its terms in order and every
  list non-empty, ascending and inside the segment's range.\<close>

definition wf_inputs :: "'e merge_input list \<Rightarrow> stream list \<Rightarrow> bool" where
  "wf_inputs inputs ss \<longleftrightarrow>
     map mi_items inputs = map (map stream_item) ss \<and>
     (\<forall>s\<in>set ss. sorted_stream s) \<and>
     (\<forall>i<length ss. mi_first (inputs ! i) \<le> mi_last (inputs ! i) \<and>
        (\<forall>x\<in>set (ss ! i). sorted_wrt (<) (snd x) \<and>
           (\<forall>d\<in>set (snd x). mi_first (inputs ! i) \<le> d \<and> d \<le> mi_last (inputs ! i)))) \<and>
     sorted_wrt (\<lambda>a b. mi_last a < mi_first b) inputs"

lemma wf_inputs_length: "wf_inputs inputs ss \<Longrightarrow> length inputs = length ss"
  unfolding wf_inputs_def by (metis length_map)

lemma wholly_live_all:
  assumes "wf_docset live" "mi_first input \<le> mi_last input"
    "docset_count live (mi_first input) (min (mi_last input + 1) (2 ^ 32 - 1)) = mi_last input - mi_first input + 1"
    "mi_first input \<le> d" "d \<le> mi_last input"
  shows "docset_contains live d"
proof -
  let ?S = "{d \<in> members live. mi_first input \<le> d \<and> d < min (mi_last input + 1) (2 ^ 32 - 1)}"
  have "?S \<subseteq> {mi_first input..mi_last input}" by auto
  moreover have "card ?S = card {mi_first input..mi_last input}"
    using assms(2,3) unfolding docset_range_members(3) [OF assms(1)] by (simp only: card_atLeastAtMost)
  ultimately have eq: "?S = {mi_first input..mi_last input}" by (intro card_subset_eq) simp_all
  have "d \<in> ?S" unfolding eq using assms(4,5) by simp
  then have "d \<in> members live" by (simp only: mem_Collect_eq)
  then show ?thesis by (simp add: docset_contains_members [OF assms(1)])
qed

abbreviation live_docs :: "docset \<Rightarrow> nat \<Rightarrow> nat list \<Rightarrow> nat list" where
  "live_docs live i \<equiv> filter (\<lambda>d. d \<in> members live)"

lemma docs_of_member: "docs_of s t = [] \<or> (t, docs_of s t) \<in> set s"
  by (auto simp: docs_of_def split: option.splits dest: map_of_SomeD)

lemma wf_docs_of:
  assumes "wf_inputs inputs ss" "i < length ss"
  shows "sorted_wrt (<) (docs_of (ss ! i) t)"
    "d \<in> set (docs_of (ss ! i) t) \<Longrightarrow> mi_first (inputs ! i) \<le> d \<and> d \<le> mi_last (inputs ! i)"
proof -
  from assms have x: "sorted_wrt (<) (snd x) \<and> (\<forall>d\<in>set (snd x). mi_first (inputs ! i) \<le> d \<and> d \<le> mi_last (inputs ! i))"
    if "x \<in> set (ss ! i)" for x using that unfolding wf_inputs_def by blast
  from docs_of_member [of "ss ! i" t] x [of "(t, docs_of (ss ! i) t)"]
  show "sorted_wrt (<) (docs_of (ss ! i) t)"
    "d \<in> set (docs_of (ss ! i) t) \<Longrightarrow> mi_first (inputs ! i) \<le> d \<and> d \<le> mi_last (inputs ! i)" by auto
qed

lemma keep_docs_live:
  assumes "wf_inputs inputs ss" "wf_docset live" "i < length ss"
  shows "keep_docs (wholly_live inputs live) live i (docs_of (ss ! i) t) = live_docs live i (docs_of (ss ! i) t)"
proof -
  have i: "i < length inputs" using assms(1,3) by (simp add: wf_inputs_length)
  have "docset_contains live d" if "wholly_live inputs live ! i" "d \<in> set (docs_of (ss ! i) t)" for d
    using assms that wf_docs_of(2) [OF assms(1,3) that(2)] i
    by (intro wholly_live_all [of live "inputs ! i"]) (auto simp: wholly_live_def wf_inputs_def)
  then show ?thesis
    unfolding keep_docs_def docset_contains_members [OF assms(2)]
    by (cases "wholly_live inputs live ! i") (simp_all add: filter_id_conv)
qed

lemma merged_live:
  assumes "wf_inputs inputs ss" "wf_docset live"
  shows "merged (keep_docs (wholly_live inputs live) live) ss = merged (live_docs live) ss"
proof -
  have "term_docs (keep_docs (wholly_live inputs live) live) ss t = term_docs (live_docs live) ss t" for t
    unfolding term_docs_def using keep_docs_live [OF assms] by (intro arg_cong [where f = concat]) auto
  then show ?thesis by (simp add: merged_def)
qed

lemma sorted_concat_upt:
  assumes "\<And>i. i < n \<Longrightarrow> sorted_wrt (<) (f i)"
    and "\<And>i j x y. i < j \<Longrightarrow> j < n \<Longrightarrow> x \<in> set (f i) \<Longrightarrow> y \<in> set (f j) \<Longrightarrow> (x :: nat) < y"
  shows "sorted_wrt (<) (concat (map f [0..<n]))"
  using assms
proof (induction n)
  case (Suc n)
  have "sorted_wrt (<) (concat (map f [0..<n]))"
    by (rule Suc.IH) (use Suc.prems in \<open>meson less_SucI\<close>)+
  moreover have "sorted_wrt (<) (f n)" using Suc.prems(1) by simp
  moreover have "x < y" if "x \<in> set (concat (map f [0..<n]))" "y \<in> set (f n)" for x y
  proof -
    from that(1) obtain i where "i < n" "x \<in> set (f i)" by auto
    then show ?thesis using Suc.prems(2) [of i n x y] that(2) by simp
  qed
  ultimately show ?case by (simp add: sorted_wrt_append)
qed simp

lemma merged_fits:
  assumes "wf_inputs inputs ss" "inputs \<noteq> []" "tw_first w \<le> mi_first (hd inputs)" "mi_last (last inputs) \<le> tw_last w"
    "x \<in> set (merged (live_docs live) ss)"
  shows "docs_fit w (snd x)"
proof -
  note len = wf_inputs_length [OF assms(1)]
  have order: "mi_last (inputs ! i) < mi_first (inputs ! j)" if "i < j" "j < length inputs" for i j
    using that assms(1) by (auto simp: wf_inputs_def sorted_wrt_iff_nth_less)
  have range: "mi_first (inputs ! i) \<le> mi_last (inputs ! i)" if "i < length inputs" for i
    using that assms(1) len by (auto simp: wf_inputs_def)
  have first: "tw_first w \<le> mi_first (inputs ! i)" if "i < length inputs" for i
    using assms(2,3) that order [of 0 i] range [of 0] by (cases i) (auto simp: hd_conv_nth)
  have last: "mi_last (inputs ! i) \<le> tw_last w" if "i < length inputs" for i
  proof (cases "Suc i < length inputs")
    case True
    then have "i < length inputs - 1" "length inputs - 1 < length inputs" by auto
    with order [of i "length inputs - 1"] range [of "length inputs - 1"] assms(4) show ?thesis
      unfolding last_conv_nth [OF assms(2)] by linarith
  next
    case False
    with that have "i = length inputs - 1" by simp
    with assms(2,4) show ?thesis by (simp add: last_conv_nth)
  qed
  from assms(5) obtain t where x: "snd x = term_docs (live_docs live) ss t" by (auto simp: merged_def)
  let ?f = "\<lambda>i. live_docs live i (docs_of (ss ! i) t)"
  have "sorted_wrt (<) (concat (map ?f [0..<length ss]))"
  proof (rule sorted_concat_upt)
    show "sorted_wrt (<) (?f i)" if "i < length ss" for i
      using wf_docs_of(1) [OF assms(1) that] by (rule sorted_wrt_filter)
    show "x < y" if "i < j" "j < length ss" "x \<in> set (?f i)" "y \<in> set (?f j)" for i j x y
      using that order [of i j] wf_docs_of(2) [OF assms(1), of i x t] wf_docs_of(2) [OF assms(1), of j y t] len by force
  qed
  moreover have "tw_first w \<le> d \<and> d \<le> tw_last w" if "i < length ss" "d \<in> set (?f i)" for i d
    using that first [of i] last [of i] wf_docs_of(2) [OF assms(1) that(1), of d t] len by force
  ultimately show ?thesis unfolding docs_fit_def x term_docs_def by auto
qed

text \<open>The merge puts the terms of the specification, in order, whatever is done with each.\<close>

lemma merge_terms_puts:
  assumes "wf_inputs inputs ss" "wf_docset live" "inputs \<noteq> []"
  shows "merge_terms inputs live (\<lambda>_. False) put w = put_all put w (merged (live_docs live) ss)"
proof -
  note len = wf_inputs_length [OF assms(1)]
  have pos: "0 < length ss" using assms(3) len by auto
  have ss: "map mi_items inputs = map (map stream_item) ss" "\<forall>s\<in>set ss. sorted_stream s" using assms(1) by (simp_all add: wf_inputs_def)
  from start_slots_rep [OF ss(1)] obtain slots where slots: "start_slots inputs = Inr slots" "slots_rep slots ss" by blast
  have "tree_ok (length ss) (input_before slots) (tournament_new (length inputs) (input_before slots))"
    using inputs.tree_ok_new [OF pos] len by simp
  from merge_loop_puts [OF slots(2) this pos ss(2), of "\<lambda>_. False" "wholly_live inputs live" live put 0 w] show ?thesis
    by (simp add: merge_terms_def slots(1) merged_live [OF assms(1,2)])
qed

end
