(* ===== verification/Merge_Records.thy ===== *)
theory Merge_Records
  imports Merge Byte_Codec
begin

text \<open>
  The merge of fingerprint records (\<open>merge_records\<close> of \<open>ferret-index/src/merge.rs\<close>): the records of the inputs, each stream in order, are
  written in order, once each, when their document is live. The binary heap is the list of its elements, of which it gives the
  least; an input is what its stream of records yields.

  Result: what is written is the sorted list of the live records of all inputs, whatever is done with each, and
  the counts reported are theirs.
\<close>

section \<open>The records\<close>

type_synonym heap = "((u32 \<times> u32) \<times> nat) list"

text \<open>\<open>Records::next_record\<close> on what a stream yields.\<close>

fun next_item :: "('e + 'a) list \<Rightarrow> 'e merge_error + 'a option \<times> ('e + 'a) list" where
  "next_item [] = Inr (None, [])"
| "next_item (Inl e # items) = Inl (MergeRead e)"
| "next_item (Inr r # items) = Inr (Some r, items)"

definition heap_push :: "(u32 \<times> u32) option \<Rightarrow> nat \<Rightarrow> heap \<Rightarrow> heap" where
  "heap_push found i heap = (case found of None \<Rightarrow> heap | Some r \<Rightarrow> (r, i) # heap)"

fun start_heap :: "nat \<Rightarrow> ('e + u32 \<times> u32) list list \<Rightarrow> heap \<Rightarrow> 'e merge_error + heap \<times> ('e + u32 \<times> u32) list list" where
  "start_heap i [] heap = Inr (heap, [])"
| "start_heap i (items # inputs) heap =
     (case next_item items of
        Inl e \<Rightarrow> Inl e
      | Inr (found, items) \<Rightarrow>
          (case start_heap (i + 1) inputs (heap_push found i heap) of
             Inl e \<Rightarrow> Inl e
           | Inr (heap, rests) \<Rightarrow> Inr (heap, items # rests)))"

text \<open>\<open>previous\<close>, \<open>carried\<close>, \<open>removed\<close> and the writer.\<close>

record 'w record_merge =
  rm_previous :: "(u32 \<times> u32) option"
  rm_carried :: nat
  rm_removed :: nat
  rm_writer :: 'w

type_synonym ('w, 'e) put_record = "'w \<Rightarrow> u32 \<Rightarrow> u32 \<Rightarrow> 'e merge_error + 'w"

definition carry_record :: "docset \<Rightarrow> ('w, 'e) put_record \<Rightarrow> u32 \<times> u32 \<Rightarrow> 'w record_merge \<Rightarrow> 'e merge_error + 'w record_merge" where
  "carry_record live emit r s =
     (if docset_contains live (unat (snd r)) \<and> rm_previous s \<noteq> Some r then
        (case emit (rm_writer s) (fst r) (snd r) of
           Inl e \<Rightarrow> Inl e
         | Inr w \<Rightarrow> Inr (s\<lparr>rm_carried := rm_carried s + 1, rm_writer := w, rm_previous := Some r\<rparr>))
      else if \<not> docset_contains live (unat (snd r)) then Inr (s\<lparr>rm_removed := rm_removed s + 1\<rparr>)
      else Inr s)"

definition heap_left :: "heap \<Rightarrow> ('e + u32 \<times> u32) list list \<Rightarrow> nat" where
  "heap_left heap rests = length heap + sum_list (map length rests)"

lemma next_item_left:
  assumes "next_item (rests ! i) = Inr (found, items)" "i < length rests" "x \<in> set heap"
  shows "heap_left (heap_push found i (remove1 x heap)) (rests[i := items]) < heap_left heap rests"
proof -
  have heap: "Suc (length (remove1 x heap)) = length heap" using assms(3) length_pos_if_in_set [OF assms(3)] by (simp add: length_remove1)
  have sum: "sum_list (map length (rests[i := items])) + length (rests ! i) = sum_list (map length rests) + length items"
    using assms(2) elem_le_sum_list [of i "map length rests"] by (simp add: map_update sum_list_update)
  show ?thesis
  proof (cases "rests ! i")
    case Nil
    with assms(1) sum heap show ?thesis by (auto simp: heap_left_def heap_push_def)
  next
    case (Cons a as)
    with assms(1) sum heap show ?thesis by (cases a) (auto simp: heap_left_def heap_push_def)
  qed
qed

function records_loop ::
  "docset \<Rightarrow> (nat \<Rightarrow> bool) \<Rightarrow> ('w, 'e) put_record \<Rightarrow> nat \<Rightarrow> heap \<Rightarrow> ('e + u32 \<times> u32) list list \<Rightarrow> 'w record_merge \<Rightarrow>
   'e merge_error + 'w record_merge"
where
  "records_loop live cancelled emit calls heap rests s =
     (if heap = [] then Inr s
      else
        (let top = Min (set heap); i = snd top in
         if cancelled calls then Inl MergeCancelled
         else
           (case carry_record live emit (fst top) s of
              Inl e \<Rightarrow> Inl e
            | Inr s \<Rightarrow>
                if length rests \<le> i then Inl MergePanic
                else
                  (case next_item (rests ! i) of
                     Inl e \<Rightarrow> Inl e
                   | Inr (found, items) \<Rightarrow>
                       records_loop live cancelled emit (calls + 1) (heap_push found i (remove1 top heap)) (rests[i := items]) s))))"
  by pat_completeness auto
termination
  by (relation "measure (\<lambda>(live, cancelled, emit, calls, heap, rests, s). heap_left heap rests)")
     (auto intro!: next_item_left Min_in)

declare records_loop.simps [simp del]

definition merge_records ::
  "('e + u32 \<times> u32) list list \<Rightarrow> docset \<Rightarrow> (nat \<Rightarrow> bool) \<Rightarrow> ('w, 'e) put_record \<Rightarrow> 'w \<Rightarrow> 'e merge_error + nat \<times> nat \<times> 'w"
where
  "merge_records inputs live cancelled emit w =
     (case start_heap 0 inputs [] of
        Inl e \<Rightarrow> Inl e
      | Inr (heap, rests) \<Rightarrow>
          (case records_loop live cancelled emit 0 heap rests \<lparr>rm_previous = None, rm_carried = 0, rm_removed = 0, rm_writer = w\<rparr> of
             Inl e \<Rightarrow> Inl e
           | Inr s \<Rightarrow> Inr (rm_carried s, rm_removed s, rm_writer s)))"

section \<open>What the merge of records puts\<close>

definition all_records :: "(u32 \<times> u32) list list \<Rightarrow> (u32 \<times> u32) set" where
  "all_records ss = (\<Union>s\<in>set ss. set s)"

definition live_record :: "docset \<Rightarrow> u32 \<times> u32 \<Rightarrow> bool" where
  "live_record live r \<longleftrightarrow> docset_contains live (unat (snd r))"

definition dead_count :: "docset \<Rightarrow> (u32 \<times> u32) list list \<Rightarrow> nat" where
  "dead_count live ss = sum_list (map (\<lambda>s. length (filter (\<lambda>r. \<not> live_record live r) s)) ss)"

text \<open>The heap holds the first record of every stream that has one, and the streams are past it.\<close>

definition heap_rep :: "heap \<Rightarrow> ('e + u32 \<times> u32) list list \<Rightarrow> (u32 \<times> u32) list list \<Rightarrow> bool" where
  "heap_rep heap rests ss \<longleftrightarrow>
     distinct heap \<and> set heap = {(hd (ss ! i), i) | i. i < length ss \<and> ss ! i \<noteq> []} \<and> rests = map (map Inr \<circ> tl) ss"

lemma heap_rep_mem: "heap_rep heap rests ss \<Longrightarrow> j < length ss \<Longrightarrow> ss ! j \<noteq> [] \<Longrightarrow> (hd (ss ! j), j) \<in> set heap"
  unfolding heap_rep_def by blast

lemma start_heap_rep:
  assumes "distinct h" "\<forall>x\<in>set h. snd x < k"
  shows "\<exists>h'. start_heap k (map (map Inr) ss) h = Inr (h', map (map (Inr :: _ \<Rightarrow> 'e + _) \<circ> tl) ss) \<and> distinct h' \<and>
    set h' = set h \<union> {(hd (ss ! i), k + i) | i. i < length ss \<and> ss ! i \<noteq> []}"
  using assms
proof (induction ss arbitrary: k h)
  case (Cons s ss)
  let ?h = "heap_push (case s of [] \<Rightarrow> None | r # _ \<Rightarrow> Some r) k h"
  have step: "next_item (map (Inr :: _ \<Rightarrow> 'e + _) s) = Inr (case s of [] \<Rightarrow> None | r # _ \<Rightarrow> Some r, map Inr (tl s))" by (cases s) simp_all
  have "distinct ?h" "\<forall>x\<in>set ?h. snd x < k + 1" using Cons.prems by (cases s; force simp: heap_push_def)+
  from Cons.IH [OF this] obtain h' where
    h': "start_heap (k + 1) (map (map Inr) ss) ?h = Inr (h', map (map (Inr :: _ \<Rightarrow> 'e + _) \<circ> tl) ss)" "distinct h'"
      "set h' = set ?h \<union> {(hd (ss ! i), k + 1 + i) | i. i < length ss \<and> ss ! i \<noteq> []}" by blast
  have "{(hd ((s # ss) ! i), k + i) | i. i < length (s # ss) \<and> (s # ss) ! i \<noteq> []} =
      (if s = [] then {} else {(hd s, k)}) \<union> {(hd (ss ! i), k + 1 + i) | i. i < length ss \<and> ss ! i \<noteq> []}"
    (is "?A = ?B \<union> ?C")
  proof (intro set_eqI iffI)
    fix x
    assume "x \<in> ?A"
    then obtain i where "x = (hd ((s # ss) ! i), k + i)" "i < length (s # ss)" "(s # ss) ! i \<noteq> []" by blast
    then show "x \<in> ?B \<union> ?C" by (cases i) auto
  next
    fix x
    assume "x \<in> ?B \<union> ?C"
    then consider "s \<noteq> []" "x = (hd s, k)" | i where "x = (hd (ss ! i), k + 1 + i)" "i < length ss" "ss ! i \<noteq> []" by (auto split: if_splits)
    then show "x \<in> ?A"
    proof cases
      case 1
      then show ?thesis by (intro CollectI exI [of _ 0]) simp
    next
      case (2 i)
      then show ?thesis by (intro CollectI exI [of _ "Suc i"]) simp
    qed
  qed
  moreover have "set ?h = set h \<union> (if s = [] then {} else {(hd s, k)})" by (cases s) (simp_all add: heap_push_def)
  ultimately show ?case using h' by (simp add: step Un_assoc)
qed simp

lemma heap_rep_start:
  obtains heap rests where "start_heap 0 (map (map Inr) ss) [] = Inr (heap, rests)" "heap_rep heap rests ss"
  using start_heap_rep [of "[]" 0 ss] by (auto simp: heap_rep_def)

lemma heap_rep_pop:
  assumes rep: "heap_rep heap rests ss" and ne: "heap \<noteq> []" and sorted: "\<forall>s\<in>set ss. sorted_wrt (<) s"
  defines "least_item \<equiv> Min (set heap)"
  obtains i r s where "least_item = (r, i)" "i < length ss" "ss ! i = r # s" "\<forall>x\<in>all_records ss. r \<le> x"
    "rests ! i = map Inr s"
    "heap_rep (heap_push (case s of [] \<Rightarrow> None | r # _ \<Rightarrow> Some r) i (remove1 least_item heap)) (rests[i := map Inr (tl s)]) (ss[i := s])"
proof -
  have mem: "least_item \<in> set heap" unfolding least_item_def using ne by (intro Min_in) simp_all
  then obtain i where i: "least_item = (hd (ss ! i), i)" "i < length ss" "ss ! i \<noteq> []" using rep by (auto simp: heap_rep_def)
  define r s where "r = hd (ss ! i)" and "s = tl (ss ! i)"
  have s: "ss ! i = r # s" using i(3) by (simp add: r_def s_def)
  have least: "r \<le> x" if "x \<in> all_records ss" for x
  proof -
    from that obtain j where j: "j < length ss" "x \<in> set (ss ! j)" by (auto simp: all_records_def) (metis in_set_conv_nth)
    then have ne_j: "ss ! j \<noteq> []" by auto
    with j(1) have "(hd (ss ! j), j) \<in> set heap" by (intro heap_rep_mem [OF rep])
    then have "least_item \<le> (hd (ss ! j), j)" unfolding least_item_def by (intro Min_le) simp_all
    then have "r \<le> hd (ss ! j)" by (simp add: i(1) r_def less_eq_prod_def) (auto simp: less_prod_def less_eq_prod_def)
    moreover have "sorted_wrt (<) (ss ! j)" using sorted j(1) by (meson nth_mem)
    then have "hd (ss ! j) \<le> x" using j(2) by (cases "ss ! j") auto
    ultimately show ?thesis by (rule order_trans)
  qed
  let ?found = "case s of [] \<Rightarrow> None | r # _ \<Rightarrow> Some r"
  have rest: "set (remove1 least_item heap) = {(hd (ss ! j), j) | j. j < length ss \<and> j \<noteq> i \<and> ss ! j \<noteq> []}" "distinct (remove1 least_item heap)"
    using rep i(1) by (auto simp: heap_rep_def set_remove1_eq)
  have "set (heap_push ?found i (remove1 least_item heap)) = {(hd (ss[i := s] ! j), j) | j. j < length (ss[i := s]) \<and> ss[i := s] ! j \<noteq> []}"
    (is "_ = ?R")
  proof -
    have "?R = {(hd (ss ! j), j) | j. j < length ss \<and> j \<noteq> i \<and> ss ! j \<noteq> []} \<union> (if s = [] then {} else {(hd s, i)})"
      using i(2) by (auto simp: nth_list_update)
    also have "\<dots> = set (heap_push ?found i (remove1 least_item heap))" by (cases s) (auto simp: heap_push_def rest(1))
    finally show ?thesis ..
  qed
  moreover have "distinct (heap_push ?found i (remove1 least_item heap))" using rest by (cases s) (auto simp: heap_push_def)
  moreover have "rests[i := map Inr (tl s)] = map (map Inr \<circ> tl) (ss[i := s])" "rests ! i = map Inr s"
    using rep i(2) s by (auto simp: heap_rep_def map_update)
  ultimately have "heap_rep (heap_push ?found i (remove1 least_item heap)) (rests[i := map Inr (tl s)]) (ss[i := s])" "rests ! i = map Inr s"
    unfolding heap_rep_def by blast+
  with that [of r i s] i(1,2) s least show ?thesis unfolding r_def [symmetric] by blast
qed

lemma all_records_pop: "i < length ss \<Longrightarrow> ss ! i = r # s \<Longrightarrow> all_records ss = insert r (all_records (ss[i := s]))"
proof -
  assume i: "i < length ss" "ss ! i = r # s"
  have "ss = take i ss @ (r # s) # drop (Suc i) ss" by (metis i id_take_nth_drop)
  moreover have "ss[i := s] = take i ss @ s # drop (Suc i) ss" by (rule upd_conv_take_nth_drop [OF i(1)])
  ultimately have "set ss = insert (r # s) (set (take i ss) \<union> set (drop (Suc i) ss))" "set (ss[i := s]) = insert s (set (take i ss) \<union> set (drop (Suc i) ss))"
    by (metis list.simps(15) set_append Un_insert_right)+
  then show ?thesis unfolding all_records_def by auto
qed

lemma dead_count_pop:
  assumes "i < length ss" "ss ! i = r # s"
  shows "dead_count live ss = dead_count live (ss[i := s]) + (if live_record live r then 0 else 1)"
  using assms elem_le_sum_list [of i "map (\<lambda>s. length (filter (\<lambda>r. \<not> live_record live r) s)) ss"]
  by (auto simp: dead_count_def map_update sum_list_update)

text \<open>The records still to be emit: the live ones, without the one emit last.\<close>

definition records_due :: "docset \<Rightarrow> (u32 \<times> u32) option \<Rightarrow> (u32 \<times> u32) list list \<Rightarrow> (u32 \<times> u32) list" where
  "records_due live previous ss = sorted_list_of_set {r \<in> all_records ss. live_record live r \<and> previous \<noteq> Some r}"

lemma finite_all_records [simp]: "finite (all_records ss)"
  by (simp add: all_records_def)

lemma sorted_list_of_set_least:
  "finite B \<Longrightarrow> \<forall>x\<in>B. r < x \<Longrightarrow> sorted_list_of_set (insert r B) = r # sorted_list_of_set B" for r :: "'a::linorder"
  by (auto simp: sorted_list_of_set_insert_remove insort_is_Cons less_imp_le)

lemma records_due_pop:
  assumes pop: "all_records ss = insert r (all_records ss')" "\<forall>x\<in>all_records ss. r \<le> x"
    and previous: "\<forall>p. previous = Some p \<longrightarrow> (\<forall>x\<in>all_records ss. p \<le> x)"
  shows "records_due live previous ss =
    (if live_record live r \<and> previous \<noteq> Some r then r # records_due live (Some r) ss' else records_due live previous ss')"
proof (cases "live_record live r \<and> previous \<noteq> Some r")
  case True
  have "previous \<noteq> Some x" if "x \<in> all_records ss'" "x \<noteq> r" for x
  proof
    assume "previous = Some x"
    then have "x \<le> r" using previous pop(1) by simp
    moreover have "r \<le> x" using pop that(1) by simp
    ultimately show False using that(2) by simp
  qed
  then have "{x \<in> all_records ss. live_record live x \<and> previous \<noteq> Some x} =
      insert r {x \<in> all_records ss'. live_record live x \<and> Some r \<noteq> Some x}" (is "?A = insert r ?B")
    using True by (auto simp: pop(1))
  moreover have "\<forall>x\<in>?B. r < x" using pop by (auto simp: order_less_le)
  then have "sorted_list_of_set (insert r ?B) = r # sorted_list_of_set ?B" by (intro sorted_list_of_set_least) simp_all
  ultimately show ?thesis using True by (simp add: records_due_def)
next
  case False
  then have "{x \<in> all_records ss. live_record live x \<and> previous \<noteq> Some x} = {x \<in> all_records ss'. live_record live x \<and> previous \<noteq> Some x}"
    by (auto simp: pop(1))
  with False show ?thesis by (simp add: records_due_def)
qed

lemma records_loop_puts:
  assumes "heap_rep heap rests ss" "\<forall>s\<in>set ss. sorted_wrt (<) s" "\<forall>n. \<not> cancelled n"
    "\<forall>p. rm_previous s = Some p \<longrightarrow> (\<forall>x\<in>all_records ss. p \<le> x)"
  shows "map_sum id (\<lambda>s. (rm_carried s, rm_removed s, rm_writer s)) (records_loop live cancelled emit calls heap rests s) =
    (case put_all emit (rm_writer s) (records_due live (rm_previous s) ss) of
       Inl e \<Rightarrow> Inl e
     | Inr w \<Rightarrow> Inr (rm_carried s + length (records_due live (rm_previous s) ss), rm_removed s + dead_count live ss, w))"
  using assms(1,2,4)
proof (induction "heap_left heap rests" arbitrary: calls heap rests s ss rule: less_induct)
  case less
  show ?case
  proof (cases "heap = []")
    case True
    have "ss ! j = []" if "j < length ss" for j using heap_rep_mem [OF less.prems(1) that] True by auto
    then have "\<forall>s'\<in>set ss. s' = []" by (auto simp: in_set_conv_nth)
    then have "all_records ss = {}" "dead_count live ss = 0" by (simp_all add: all_records_def dead_count_def filter_empty_conv, metis empty_iff list.set(1))
    with True show ?thesis by (subst records_loop.simps) (simp add: records_due_def)
  next
    case False
    let ?top = "Min (set heap)"
    from heap_rep_pop [OF less.prems(1) False less.prems(2)] obtain i r s' where
      top: "?top = (r, i)" and i: "i < length ss" "ss ! i = r # s'" and least: "\<forall>x\<in>all_records ss. r \<le> x" and rest: "rests ! i = map Inr s'"
      and rep: "heap_rep (heap_push (case s' of [] \<Rightarrow> None | r # _ \<Rightarrow> Some r) i (remove1 ?top heap)) (rests[i := map Inr (tl s')]) (ss[i := s'])" .
    let ?heap = "heap_push (case s' of [] \<Rightarrow> None | r # _ \<Rightarrow> Some r) i (remove1 ?top heap)"
      and ?rests = "rests[i := map Inr (tl s')]" and ?ss = "ss[i := s']"
    have item: "next_item (rests ! i) = Inr (case s' of [] \<Rightarrow> None | r # _ \<Rightarrow> Some r, map Inr (tl s'))"
      unfolding rest by (cases s') simp_all
    have len: "\<not> length rests \<le> i" using less.prems(1) i(1) by (simp add: heap_rep_def)
    have smaller: "heap_left ?heap ?rests < heap_left heap rests"
      using next_item_left [OF item, of ?top heap] len False by (simp add: Min_in)
    note pop = all_records_pop [OF i]
    have sorted: "\<forall>s\<in>set ?ss. sorted_wrt (<) s"
    proof -
      have "sorted_wrt (<) (r # s')" using less.prems(2) i by (metis nth_mem)
      then show ?thesis using less.prems(2) by (auto dest!: subsetD [OF set_update_subset_insert])
    qed
    define go where "go = records_loop live cancelled emit (calls + 1) ?heap ?rests"
    have IH: "map_sum id (\<lambda>s. (rm_carried s, rm_removed s, rm_writer s)) (go s1) =
        (case put_all emit (rm_writer s1) (records_due live (rm_previous s1) ?ss) of
           Inl e \<Rightarrow> Inl e
         | Inr w \<Rightarrow> Inr (rm_carried s1 + length (records_due live (rm_previous s1) ?ss), rm_removed s1 + dead_count live ?ss, w))"
      if "rm_previous s1 = Some r \<or> rm_previous s1 = rm_previous s" for s1
      unfolding go_def
    proof (rule less.hyps [OF smaller rep sorted])
      show "\<forall>p. rm_previous s1 = Some p \<longrightarrow> (\<forall>x\<in>all_records ?ss. p \<le> x)"
        using that less.prems(3) least unfolding pop by (metis insertCI option.inject)
    qed
    have loop: "records_loop live cancelled emit calls heap rests s =
        (case carry_record live emit r s of Inl e \<Rightarrow> Inl e | Inr s1 \<Rightarrow> go s1)"
      unfolding go_def
      using False assms(3) top len item by (subst records_loop.simps) (simp add: Let_def split: sum.splits)
    note due = records_due_pop [OF pop least less.prems(3), of live] and dead = dead_count_pop [OF i, of live]
    show ?thesis unfolding loop carry_record_def live_record_def [symmetric] due dead
      by (auto simp: IH split: sum.splits)
  qed
qed

lemma merge_records_puts:
  assumes "\<forall>s\<in>set ss. sorted_wrt (<) s" "\<forall>n. \<not> cancelled n"
  shows "merge_records (map (map (Inr :: _ \<Rightarrow> 'e + _)) ss) live cancelled emit w =
    (case put_all emit w (records_due live None ss) of
       Inl e \<Rightarrow> Inl e
     | Inr w \<Rightarrow> Inr (length (records_due live None ss), dead_count live ss, w))"
proof -
  obtain heap and rests :: "('e + u32 \<times> u32) list list" where "start_heap 0 (map (map Inr) ss) [] = Inr (heap, rests)" "heap_rep heap rests ss" by (rule heap_rep_start)
  with records_loop_puts [OF this(2) assms, of "\<lparr>rm_previous = None, rm_carried = 0, rm_removed = 0, rm_writer = w\<rparr>" live emit 0]
  show ?thesis by (auto simp: merge_records_def split: sum.splits)
qed

end
