(* ===== verification/Blocking.thy ===== *)
theory Blocking
  imports Main
begin

text \<open>
  A sequence laid out in blocks of a fixed size, the last one perhaps short, as the
  writers of a segment fill them: an element goes into the last block until it is full. The fingerprint
  records and the term dictionary are both laid out this way, with their own sizes.
\<close>

definition add_block :: "nat \<Rightarrow> 'a list list \<Rightarrow> 'a \<Rightarrow> 'a list list" where
  "add_block n bl x =
     (if bl = [] \<or> length (last bl) = n then bl @ [[x]]
      else butlast bl @ [last bl @ [x]])"

definition blocks_of :: "nat \<Rightarrow> 'a list \<Rightarrow> 'a list list" where
  "blocks_of n xs = foldl (add_block n) [] xs"

text \<open>Full blocks followed by one that is neither empty nor overfull.\<close>

definition wf_blocks :: "nat \<Rightarrow> 'a list list \<Rightarrow> bool" where
  "wf_blocks n bl \<longleftrightarrow> (\<forall>b\<in>set bl. b \<noteq> [] \<and> length b \<le> n) \<and> (\<forall>b\<in>set (butlast bl). length b = n)"

locale blocking =
  fixes n :: nat
  assumes n_pos: "0 < n"
begin

lemma blocks_of_snoc: "blocks_of n (xs @ [x]) = add_block n (blocks_of n xs) x"
  by (simp add: blocks_of_def)

lemma add_block_ok:
  assumes "wf_blocks n bl"
  shows "wf_blocks n (add_block n bl x)" "concat (add_block n bl x) = concat bl @ [x]"
    "add_block n bl x \<noteq> []" "last (last (add_block n bl x)) = x"
proof -
  show "add_block n bl x \<noteq> []" "last (last (add_block n bl x)) = x" by (simp_all add: add_block_def)
  have "wf_blocks n (add_block n bl x) \<and> concat (add_block n bl x) = concat bl @ [x]"
  proof (cases bl rule: rev_cases)
    case Nil
    then show ?thesis using n_pos by (simp add: add_block_def wf_blocks_def)
  next
    case (snoc bl' b)
    then have "length b \<le> n" using assms by (simp add: wf_blocks_def)
    with snoc assms n_pos show ?thesis
      by (auto simp: add_block_def wf_blocks_def butlast_append)
  qed
  then show "wf_blocks n (add_block n bl x)" "concat (add_block n bl x) = concat bl @ [x]" by blast+
qed

lemma blocks_of_ok: "wf_blocks n (blocks_of n xs)" "concat (blocks_of n xs) = xs"
proof -
  have "wf_blocks n (blocks_of n xs) \<and> concat (blocks_of n xs) = xs"
    by (induction xs rule: rev_induct)
       (simp_all add: blocks_of_snoc add_block_ok, simp_all add: blocks_of_def wf_blocks_def)
  then show "wf_blocks n (blocks_of n xs)" "concat (blocks_of n xs) = xs" by blast+
qed

lemma blocks_of_eq_Nil: "blocks_of n xs = [] \<longleftrightarrow> xs = []"
proof
  assume "blocks_of n xs = []"
  then show "xs = []" using blocks_of_ok(2) [of xs] by simp
qed (simp add: blocks_of_def)

lemma last_last_blocks: "xs \<noteq> [] \<Longrightarrow> last (last (blocks_of n xs)) = last xs"
proof (induction xs rule: rev_induct)
  case (snoc x xs)
  show ?case unfolding blocks_of_snoc by (simp add: add_block_ok(4) [OF blocks_of_ok(1)])
qed simp

lemma wf_blocks_lengths:
  assumes "wf_blocks n bl" "b < length bl"
  shows "length (bl ! b) = min (length (concat bl) - b * n) n"
    and "length bl = (length (concat bl) + n - 1) div n"
proof -
  have "bl \<noteq> []" using assms(2) by auto
  then obtain full tl_block where bl: "bl = full @ [tl_block]" by (metis rev_exhaust)
  have full: "length x = n" if "x \<in> set full" for x
    using that assms(1) by (simp add: bl wf_blocks_def butlast_append)
  have tl_block: "0 < length tl_block" "length tl_block \<le> n" using assms(1) by (auto simp: bl wf_blocks_def)
  have total: "length (concat full) = length full * n"
    using full by (induction full) (simp_all add: mult.commute)
  show "length (bl ! b) = min (length (concat bl) - b * n) n"
  proof (cases "b < length full")
    case True
    then have "Suc b * n \<le> length full * n" by (intro mult_le_mono1) simp
    with True full [of "full ! b"] total show ?thesis by (simp add: bl nth_append)
  next
    case False
    with assms(2) have "b = length full" by (simp add: bl)
    with tl_block total show ?thesis by (simp add: bl)
  qed
  show "length bl = (length (concat bl) + n - 1) div n"
  proof -
    have "length (concat bl) + n - 1 = (length tl_block - 1) + (length full + 1) * n"
      using total tl_block by (cases "length tl_block") (simp_all add: bl algebra_simps)
    moreover have "length tl_block - 1 < n" using tl_block by linarith
    moreover have "(length tl_block - 1 + (length full + 1) * n) div n = length full + 1 + (length tl_block - 1) div n"
      by (rule div_mult_self1) (use n_pos in simp)
    ultimately show ?thesis by (simp add: bl)
  qed
qed

lemma wf_blocks_full: "wf_blocks n bl \<Longrightarrow> Suc b < length bl \<Longrightarrow> length (bl ! b) = n"
  by (simp add: wf_blocks_def) (metis Suc_lessE diff_Suc_1 length_butlast nth_butlast nth_mem)

end

end
