(* ===== verification/Fingerprints.thy ===== *)
theory Fingerprints
  imports Byte_Codec Blocking
begin

text \<open>
  The fingerprint records of a segment (\<open>ferret-index/src/segment/fingerprint.rs\<close>
  and the run lookup of \<open>segment/read.rs\<close>): the encoder that lays sorted
  \<open>(fingerprint, document offset)\<close> records out in restart blocks with a block
  index, the parser of the index, the decoder of one block, and the lookup of
  every document with a fingerprint. The hash itself is a parameter: it only
  enters as the fingerprint looked up. The checked read of a byte range of the
  records section is a parameter of the lookup (\<open>read_checked\<close>).

  Results: what the encoder writes the decoder reads back block by block, the
  index parses to the firsts and starts of the blocks, and a lookup returns
  the documents of exactly the pushed records with that fingerprint, in order,
  although it reads only the blocks the index points to and stops early.
\<close>

unbundle bit_operations_syntax

type_synonym fp_record = "u32 \<times> u32"

section \<open>The encoder\<close>

definition record_block_size :: nat where
  "record_block_size = 128"

record fp_encoder =
  fe_bytes :: bytes
  fe_drained :: nat
  fe_index :: bytes
  fe_records :: nat
  fe_in_block :: nat
  fe_last :: "fp_record option"

definition fp_encoder_default :: fp_encoder where
  "fp_encoder_default =
     \<lparr>fe_bytes = [], fe_drained = 0, fe_index = [], fe_records = 0, fe_in_block = 0, fe_last = None\<rparr>"

text \<open>The derived order of \<open>(u32, u32)\<close>.\<close>

definition record_less :: "fp_record \<Rightarrow> fp_record \<Rightarrow> bool" where
  "record_less a b \<longleftrightarrow> fst a < fst b \<or> (fst a = fst b \<and> snd a < snd b)"

definition fe_len :: "fp_encoder \<Rightarrow> nat" where
  "fe_len self = fe_drained self + length (fe_bytes self)"

definition fe_push :: "fp_encoder \<Rightarrow> u32 \<Rightarrow> u32 \<Rightarrow> bool \<times> fp_encoder" where
  "fe_push self fp offset =
     (if (case fe_last self of None \<Rightarrow> False | Some r \<Rightarrow> \<not> record_less r (fp, offset))
      then (False, self)
      else
        (let self =
           (if fe_records self = 0 \<or> fe_in_block self = record_block_size
            then
              (let start = fe_len self in
               self\<lparr>fe_index := fe_index self @ le32 fp @ le32 (of_nat start), fe_in_block := 0,
                    fe_bytes := fe_bytes self @ le32 fp @ le32 offset\<rparr>)
            else
              (let previous = (case fe_last self of None \<Rightarrow> 0 | Some (fp, _) \<Rightarrow> fp) in
               self\<lparr>fe_bytes := fe_bytes self @ put (ucast (fp - previous)) @ put (ucast offset)\<rparr>))
         in (True, self\<lparr>fe_last := Some (fp, offset), fe_in_block := fe_in_block self + 1,
                         fe_records := fe_records self + 1\<rparr>)))"

definition fe_drain :: "fp_encoder \<Rightarrow> nat \<Rightarrow> fp_encoder" where
  "fe_drain self n = self\<lparr>fe_bytes := drop n (fe_bytes self), fe_drained := fe_drained self + n\<rparr>"

text \<open>The record count is a \<open>u64\<close>.\<close>

definition fe_index_section :: "fp_encoder \<Rightarrow> bytes" where
  "fe_index_section self = put (of_nat (fe_records self)) @ fe_index self"

section \<open>The index\<close>

record fp_index =
  fi_records :: nat
  fi_firsts :: "u32 list"
  fi_starts :: "u32 list"

text \<open>The loop over the blocks: \<open>b\<close> counts them, \<open>start\<close> is the previous block's start.\<close>

fun parse_blocks ::
  "bytes \<Rightarrow> nat \<Rightarrow> nat list \<Rightarrow> nat \<Rightarrow> nat \<Rightarrow> u32 list \<Rightarrow> u32 list \<Rightarrow> (nat \<times> u32 list \<times> u32 list) option"
where
  "parse_blocks bs len [] at start firsts starts = Some (at, firsts, starts)"
| "parse_blocks bs len (b # bl) at start firsts starts =
     (case u32_at bs at of
        None \<Rightarrow> None
      | Some fp \<Rightarrow>
          (case u32_at bs (at + 4) of
             None \<Rightarrow> None
           | Some next_start \<Rightarrow>
               (case checked_sub (unat next_start) start of
                  None \<Rightarrow> None
                | Some step \<Rightarrow>
                    if b = 0 \<and> step \<noteq> 0 \<or> 0 < b \<and> step < 8 then None
                    else if firsts \<noteq> [] \<and> fp < last firsts then None
                    else if len \<le> start + step then None
                    else parse_blocks bs len bl (at + 8) (start + step)
                           (firsts @ [fp]) (starts @ [of_nat (start + step)]))))"

definition fp_index_parse :: "bytes \<Rightarrow> nat \<Rightarrow> fp_index option" where
  "fp_index_parse bs len =
     (case leb_take bs 0 of
        None \<Rightarrow> None
      | Some (records, at) \<Rightarrow>
          (let blocks = (unat records + record_block_size - 1) div record_block_size in
           if (length bs - at) div 8 < blocks then None
           else
             (case parse_blocks bs len [0..<blocks] at 0 [] [] of
                None \<Rightarrow> None
              | Some (at, firsts, starts) \<Rightarrow>
                  if at = length bs \<and> (0 < blocks \<or> len = 0)
                  then Some \<lparr>fi_records = unat records, fi_firsts = firsts, fi_starts = starts\<rparr>
                  else None)))"

definition fi_count :: "fp_index \<Rightarrow> nat \<Rightarrow> nat" where
  "fi_count self b = min (fi_records self - b * record_block_size) record_block_size"

section \<open>One block\<close>

text \<open>
  \<open>u32::try_from\<close> of a decoded \<open>u64\<close>. The visitor \<open>each\<close> returns whether to go
  on and its new state; the result is whether the block was accepted, and the
  state.
\<close>

definition try_u32 :: "u64 \<Rightarrow> u32 option" where
  "try_u32 v = (if unat v < 2 ^ 32 then Some (ucast v) else None)"

fun decode_records ::
  "bytes \<Rightarrow> u32 \<Rightarrow> (u32 \<Rightarrow> u32 \<Rightarrow> 's \<Rightarrow> bool \<times> 's) \<Rightarrow> nat \<Rightarrow> nat \<Rightarrow> u32 \<Rightarrow> u32 \<Rightarrow> 's \<Rightarrow> bool \<times> 's"
where
  "decode_records bs span each 0 at fp offset s = (at = length bs, s)"
| "decode_records bs span each (Suc n) at fp offset s =
     (case Option.bind (leb_take bs at) (\<lambda>(v, at). map_option (\<lambda>delta. (delta, at)) (try_u32 v)) of
        None \<Rightarrow> (False, s)
      | Some (delta, at) \<Rightarrow>
          (case Option.bind (leb_take bs at) (\<lambda>(v, at). map_option (\<lambda>off. (off, at)) (try_u32 v)) of
             None \<Rightarrow> (False, s)
           | Some (next_offset, at) \<Rightarrow>
               if span < next_offset \<or> delta = 0 \<and> next_offset \<le> offset then (False, s)
               else
                 (case checked_add_u32 (unat fp) (unat delta) of
                    None \<Rightarrow> (False, s)
                  | Some _ \<Rightarrow>
                      (let fp = fp + delta; (go, s) = each fp next_offset s in
                       if go then decode_records bs span each n at fp next_offset s else (True, s)))))"

definition decode_block ::
  "bytes \<Rightarrow> u32 \<Rightarrow> nat \<Rightarrow> u32 \<Rightarrow> (u32 \<Rightarrow> u32 \<Rightarrow> 's \<Rightarrow> bool \<times> 's) \<Rightarrow> 's \<Rightarrow> bool \<times> 's"
where
  "decode_block bs first_fp count span each s =
     (case (u32_at bs 0, u32_at bs 4) of
        (Some fp, Some offset) \<Rightarrow>
          if fp \<noteq> first_fp \<or> span < offset then (False, s)
          else if count = 0 then (8 = length bs, s)
          else
            (let (go, s) = each fp offset s in
             if go then decode_records bs span each (count - 1) 8 fp offset s else (True, s))
      | _ \<Rightarrow> (False, s))"

section \<open>The run lookup\<close>

text \<open>\<open>fingerprint_blocks\<close>: the range of blocks that may hold records of \<open>fp\<close>.\<close>

definition fingerprint_blocks :: "fp_index \<Rightarrow> u32 \<Rightarrow> nat \<times> nat" where
  "fingerprint_blocks idx fp =
     (let firsts = fi_firsts idx in
      if firsts = [] \<or> fp < hd firsts then (0, 0)
      else (partition_point (\<lambda>first. first < fp) firsts - 1, partition_point (\<lambda>first. first \<le> fp) firsts))"

definition fingerprint_bound :: "fp_index \<Rightarrow> u32 \<Rightarrow> nat" where
  "fingerprint_bound idx fp =
     (if fi_records idx = 0 then 0
      else
        (let (from_block, to_block) = fingerprint_blocks idx fp;
             before_count = from_block * record_block_size;
             after_count = min (to_block * record_block_size) (fi_records idx) in
         after_count - before_count))"

datatype 'e fp_error = Cancelled | Read 'e | CorruptFingerprints

definition record_block ::
  "(nat \<Rightarrow> nat \<Rightarrow> 'e + bytes) \<Rightarrow> fp_index \<Rightarrow> nat \<Rightarrow> u32 \<Rightarrow> u32 \<Rightarrow> nat \<Rightarrow>
   (u32 \<Rightarrow> u32 \<Rightarrow> 's \<Rightarrow> bool \<times> 's) \<Rightarrow> 's \<Rightarrow> 'e fp_error + 's"
where
  "record_block read_checked idx len first_doc last_doc b each s =
     (let start = unat (fi_starts idx ! b);
          stop_at = (if b + 1 < length (fi_starts idx) then unat (fi_starts idx ! (b + 1)) else len) in
      case read_checked start stop_at of
        Inl e \<Rightarrow> Inl (Read e)
      | Inr bs \<Rightarrow>
          (let (ok, s) = decode_block bs (fi_firsts idx ! b) (fi_count idx b) (last_doc - first_doc)
                           (\<lambda>fp doc. each fp (first_doc + doc)) s in
           if ok then Inr s else Inl CorruptFingerprints))"

text \<open>The visitor of the lookup: the documents found so far and \<open>done\<close>.\<close>

definition collect_run :: "u32 \<Rightarrow> u32 \<Rightarrow> u32 \<Rightarrow> u32 list \<times> bool \<Rightarrow> bool \<times> u32 list \<times> bool" where
  "collect_run fp key doc s =
     (let docs = (if key = fp then fst s @ [doc] else fst s); done_run = (fp < key) in
      (\<not> done_run, docs, done_run))"

fun lookup_blocks ::
  "(nat \<Rightarrow> nat \<Rightarrow> 'e + bytes) \<Rightarrow> fp_index \<Rightarrow> nat \<Rightarrow> u32 \<Rightarrow> u32 \<Rightarrow> u32 \<Rightarrow> (nat \<Rightarrow> bool) \<Rightarrow> nat \<Rightarrow>
   nat list \<Rightarrow> u32 list \<Rightarrow> 'e fp_error + u32 list"
where
  "lookup_blocks read_checked idx len first_doc last_doc fp cancelled calls [] docs = Inr docs"
| "lookup_blocks read_checked idx len first_doc last_doc fp cancelled calls (b # bl) docs =
     (if cancelled calls then Inl Cancelled
      else
        (case record_block read_checked idx len first_doc last_doc b (collect_run fp) (docs, False) of
           Inl e \<Rightarrow> Inl e
         | Inr (docs, done_run) \<Rightarrow>
             if done_run then Inr docs
             else lookup_blocks read_checked idx len first_doc last_doc fp cancelled (calls + 1) bl docs))"

definition fingerprint_docs_until ::
  "(nat \<Rightarrow> nat \<Rightarrow> 'e + bytes) \<Rightarrow> fp_index \<Rightarrow> nat \<Rightarrow> u32 \<Rightarrow> u32 \<Rightarrow> u32 \<Rightarrow> (nat \<Rightarrow> bool) \<Rightarrow> 'e fp_error + u32 list"
where
  "fingerprint_docs_until read_checked idx len first_doc last_doc fp cancelled =
     (if cancelled 0 then Inl Cancelled
      else if fi_records idx = 0 then Inr []
      else
        (let (from_block, to_block) = fingerprint_blocks idx fp in
         lookup_blocks read_checked idx len first_doc last_doc fp cancelled 1 [from_block..<to_block] []))"

section \<open>What the encoder lays out\<close>

interpretation records: blocking record_block_size
  by unfold_locales (simp add: record_block_size_def)

abbreviation record_blocks :: "fp_record list \<Rightarrow> fp_record list list" where
  "record_blocks \<equiv> blocks_of record_block_size"

lemmas record_blocks_ok = records.blocks_of_ok [where 'a = fp_record]
lemmas record_blocks_eq_Nil = records.blocks_of_eq_Nil [where 'a = fp_record]

fun delta_bytes :: "fp_record \<Rightarrow> fp_record list \<Rightarrow> bytes" where
  "delta_bytes p [] = []"
| "delta_bytes p (r # rs) = put (ucast (fst r - fst p)) @ put (ucast (snd r)) @ delta_bytes r rs"

fun block_bytes :: "fp_record list \<Rightarrow> bytes" where
  "block_bytes [] = []"
| "block_bytes (r # rs) = le32 (fst r) @ le32 (snd r) @ delta_bytes r rs"

definition section_bytes :: "fp_record list list \<Rightarrow> bytes" where
  "section_bytes bl = concat (map block_bytes bl)"

fun index_bytes :: "nat \<Rightarrow> fp_record list list \<Rightarrow> bytes" where
  "index_bytes at [] = []"
| "index_bytes at (b # bl) =
     le32 (fst (hd b)) @ le32 (of_nat at) @ index_bytes (at + length (block_bytes b)) bl"

fun block_starts :: "nat \<Rightarrow> fp_record list list \<Rightarrow> nat list" where
  "block_starts at [] = []"
| "block_starts at (b # bl) = at # block_starts (at + length (block_bytes b)) bl"

lemma section_bytes_simps [simp]:
  "section_bytes [] = []" "section_bytes (b # bl) = block_bytes b @ section_bytes bl"
  "section_bytes (bl @ bl') = section_bytes bl @ section_bytes bl'"
  by (simp_all add: section_bytes_def)

lemma index_bytes_append:
  "index_bytes at (bl @ bl') = index_bytes at bl @ index_bytes (at + length (section_bytes bl)) bl'"
  by (induction bl arbitrary: at) (simp_all add: add.assoc)

lemma length_index_bytes: "length (index_bytes at bl) = 8 * length bl"
  by (induction bl arbitrary: at) simp_all

lemma delta_bytes_snoc:
  "delta_bytes p (rs @ [r]) =
     delta_bytes p rs @ put (ucast (fst r - fst (last (p # rs)))) @ put (ucast (snd r))"
  by (induction rs arbitrary: p) simp_all

lemma block_bytes_snoc:
  "b \<noteq> [] \<Longrightarrow> block_bytes (b @ [r]) = block_bytes b @ put (ucast (fst r - fst (last b))) @ put (ucast (snd r))"
  by (cases b) (simp_all add: delta_bytes_snoc)

lemma length_block_bytes: "b \<noteq> [] \<Longrightarrow> 8 \<le> length (block_bytes b)"
  by (cases b) simp_all

definition encodes :: "bytes \<Rightarrow> fp_encoder \<Rightarrow> fp_record list \<Rightarrow> bool" where
  "encodes written e rs \<longleftrightarrow>
     fe_drained e = length written \<and> written @ fe_bytes e = section_bytes (record_blocks rs) \<and>
     fe_index e = index_bytes 0 (record_blocks rs) \<and> fe_records e = length rs \<and>
     fe_last e = (if rs = [] then None else Some (last rs)) \<and>
     (rs \<noteq> [] \<longrightarrow> fe_in_block e = length (last (record_blocks rs)))"

lemma encodes_default: "encodes [] fp_encoder_default []"
  by (simp add: encodes_def fp_encoder_default_def blocks_of_def)

lemma encodes_drain:
  "encodes written e rs \<Longrightarrow> n \<le> length (fe_bytes e) \<Longrightarrow> encodes (written @ take n (fe_bytes e)) (fe_drain e n) rs"
  by (simp add: encodes_def fe_drain_def)

definition accepts_record :: "fp_record list \<Rightarrow> fp_record \<Rightarrow> bool" where
  "accepts_record rs r \<longleftrightarrow> rs = [] \<or> record_less (last rs) r"

lemma fe_push_rejects: "encodes written e rs \<Longrightarrow> \<not> accepts_record rs r \<Longrightarrow> fe_push e (fst r) (snd r) = (False, e)"
  by (auto simp: fe_push_def encodes_def accepts_record_def)

lemma fe_push_encodes:
  assumes "encodes written e rs" "accepts_record rs r"
  shows "fst (fe_push e (fst r) (snd r))" "encodes written (snd (fe_push e (fst r) (snd r))) (rs @ [r])"
proof -
  let ?bl = "record_blocks rs"
  have e: "fe_drained e = length written" "written @ fe_bytes e = section_bytes ?bl" "fe_index e = index_bytes 0 ?bl"
    "fe_records e = length rs" "fe_last e = (if rs = [] then None else Some (last rs))"
    "rs \<noteq> [] \<Longrightarrow> fe_in_block e = length (last ?bl)"
    using assms(1) by (auto simp: encodes_def)
  have len: "fe_len e = length (section_bytes ?bl)"
    unfolding fe_len_def e(1) e(2) [symmetric] by simp
  note ok = record_blocks_ok(1) [of rs]
  have acc: "\<not> (case fe_last e of None \<Rightarrow> False | Some p \<Rightarrow> \<not> record_less p (fst r, snd r))"
    using assms(2) e(5) by (auto simp: accepts_record_def)
  then show "fst (fe_push e (fst r) (snd r))" by (simp add: fe_push_def Let_def)
  show "encodes written (snd (fe_push e (fst r) (snd r))) (rs @ [r])"
  proof (cases "rs = [] \<or> length (last ?bl) = record_block_size")
    case True
    then have "fe_records e = 0 \<or> fe_in_block e = record_block_size" using e by (cases "rs = []") simp_all
    moreover have "add_block record_block_size ?bl r = ?bl @ [[r]]" using True by (auto simp: add_block_def record_blocks_eq_Nil)
    ultimately show ?thesis
      using acc e len by (simp add: fe_push_def Let_def encodes_def records.blocks_of_snoc index_bytes_append)
  next
    case False
    then have new: "\<not> (fe_records e = 0 \<or> fe_in_block e = record_block_size)" using e by simp
    obtain full tl_block where bl: "?bl = full @ [tl_block]" using False by (metis record_blocks_eq_Nil rev_exhaust)
    have tl_block: "tl_block \<noteq> []" using ok by (simp add: bl wf_blocks_def)
    have "last tl_block = last rs" using records.last_last_blocks [of rs] False by (simp add: bl)
    moreover have "add_block record_block_size ?bl r = full @ [tl_block @ [r]]" using False by (simp add: add_block_def bl)
    moreover have "hd (tl_block @ [r]) = hd tl_block" using tl_block by simp
    ultimately have blocks: "record_blocks (rs @ [r]) = full @ [tl_block @ [r]]"
      and index: "index_bytes 0 (full @ [tl_block @ [r]]) = index_bytes 0 ?bl"
      and bytes: "section_bytes (full @ [tl_block @ [r]]) =
        section_bytes ?bl @ put (ucast (fst r - fst (last rs))) @ put (ucast (snd r))"
      using tl_block by (simp_all add: records.blocks_of_snoc bl index_bytes_append block_bytes_snoc)
    have "snd (fe_push e (fst r) (snd r)) =
        e\<lparr>fe_bytes := fe_bytes e @ put (ucast (fst r - fst (last rs))) @ put (ucast (snd r)),
          fe_last := Some r, fe_in_block := fe_in_block e + 1, fe_records := fe_records e + 1\<rparr>"
      using acc new False e(5) by (simp add: fe_push_def Let_def split: prod.splits)
    then show ?thesis
      unfolding encodes_def blocks index bytes e(2) [symmetric] using e False by (simp add: bl)
  qed
qed

section \<open>Decoding a block\<close>

fun visit :: "(u32 \<Rightarrow> u32 \<Rightarrow> 's \<Rightarrow> bool \<times> 's) \<Rightarrow> fp_record list \<Rightarrow> 's \<Rightarrow> 's" where
  "visit each [] s = s"
| "visit each (r # rs) s = (let (go, s) = each (fst r) (snd r) s in if go then visit each rs s else s)"

abbreviation sorted_records :: "fp_record list \<Rightarrow> bool" where
  "sorted_records \<equiv> sorted_wrt record_less"

lemma try_u32_ucast [simp]: "try_u32 (ucast x) = Some x" for x :: u32
proof -
  have "unat x < 2 ^ 32" using unsigned_less [of x, where ?'a = nat] by simp
  then have "unat (ucast x :: u64) = unat x" by (simp only: unsigned_ucast_eq) (simp add: take_bit_nat_eq_self)
  moreover have "ucast (ucast x :: u64) = x" by (rule bit_word_eqI) (simp add: bit_simps)
  ultimately show ?thesis using \<open>unat x < 2 ^ 32\<close> by (simp add: try_u32_def)
qed

lemma fp_delta:
  assumes "record_less p r"
  shows "checked_add_u32 (unat (fst p)) (unat (fst r - fst p)) = Some (unat (fst r))"
    "fst p + (fst r - fst p) = fst r" "\<not> (fst r - fst p = 0 \<and> snd r \<le> snd p)"
proof -
  have le: "fst p \<le> fst r" using assms by (auto simp: record_less_def)
  then have "unat (fst p) + unat (fst r - fst p) = unat (fst r)"
    by (simp add: unat_sub word_le_nat_alt)
  moreover have "unat (fst r) < 2 ^ 32" using unsigned_less [of "fst r", where ?'a = nat] by simp
  ultimately show "checked_add_u32 (unat (fst p)) (unat (fst r - fst p)) = Some (unat (fst r))"
    by (simp add: checked_add_u32_def)
  show "fst p + (fst r - fst p) = fst r" by simp
  show "\<not> (fst r - fst p = 0 \<and> snd r \<le> snd p)" using assms by (auto simp: record_less_def)
qed

lemma decode_records_delta:
  assumes "sorted_records (p # rs)" "\<forall>r\<in>set rs. snd r \<le> span"
  shows "decode_records (pre @ delta_bytes p rs) span each (length rs) (length pre) (fst p) (snd p) s =
    (True, visit each rs s)"
  using assms
proof (induction rs arbitrary: p pre s)
  case (Cons r rs)
  let ?a = "put (ucast (fst r - fst p))" and ?b = "put (ucast (snd r))"
  have less: "record_less p r" and span: "\<not> span < snd r" and sorted: "sorted_records (r # rs)"
    using Cons.prems by auto
  have one: "leb_take (pre @ delta_bytes p (r # rs)) (length pre) = Some (ucast (fst r - fst p), length (pre @ ?a))"
    using leb_take_put [of pre "ucast (fst r - fst p)" "?b @ delta_bytes r rs"] by simp
  have two: "leb_take (pre @ delta_bytes p (r # rs)) (length (pre @ ?a)) = Some (ucast (snd r), length (pre @ ?a @ ?b))"
    using leb_take_put [of "pre @ ?a" "ucast (snd r)" "delta_bytes r rs"] by simp
  have rest: "pre @ delta_bytes p (r # rs) = (pre @ ?a @ ?b) @ delta_bytes r rs" by simp
  show ?case
    using Cons.IH [OF sorted, of "pre @ ?a @ ?b"] Cons.prems(2) span fp_delta [OF less]
    unfolding length_Cons decode_records.simps one
    by (simp del: delta_bytes.simps add: two [unfolded length_append, simplified]) (auto simp: Let_def rest split: prod.splits)
qed simp

lemma decode_block_bytes:
  assumes "sorted_records b" "b \<noteq> []" "\<forall>r\<in>set b. snd r \<le> span"
  shows "decode_block (block_bytes b) (fst (hd b)) (length b) span each s = (True, visit each b s)"
proof (cases b)
  case (Cons r rs)
  let ?pre = "le32 (fst r) @ le32 (snd r)"
  have "u32_at (block_bytes b) 0 = Some (fst r)" "u32_at (block_bytes b) 4 = Some (snd r)"
    by (simp_all add: Cons u32_at_def slice_def)
  moreover have "decode_records (?pre @ delta_bytes r rs) span each (length rs) (length ?pre) (fst r) (snd r) s' =
      (True, visit each rs s')" for s'
    using assms by (intro decode_records_delta) (simp_all add: Cons)
  ultimately show ?thesis
    using assms by (auto simp: decode_block_def Cons Let_def split: prod.splits)
qed (use assms in simp)

section \<open>Parsing the index\<close>

lemma record_less_trans: "record_less a b \<Longrightarrow> record_less b c \<Longrightarrow> record_less a c"
  by (auto simp: record_less_def)

lemma record_less_fst: "record_less a b \<Longrightarrow> fst a \<le> fst b"
  by (auto simp: record_less_def)

lemma sorted_records_append:
  "sorted_records (xs @ ys) \<longleftrightarrow> sorted_records xs \<and> sorted_records ys \<and> (\<forall>x\<in>set xs. \<forall>y\<in>set ys. record_less x y)"
  by (simp add: sorted_wrt_append)

lemma index_reads:
  "u32_at (pre @ index_bytes st (b # bl)) (length pre) = Some (fst (hd b))"
  "u32_at (pre @ index_bytes st (b # bl)) (length pre + 4) = Some (of_nat st)"
  using slice_mid [of "length pre + 4" "pre @ le32 (fst (hd b))" "length pre + 8" "le32 (of_nat st)"
      "index_bytes (st + length (block_bytes b)) bl"]
  by (simp_all add: u32_at_def add.commute)

lemma parse_blocks_index:
  assumes "\<forall>b\<in>set bl. b \<noteq> []" "sorted_records (concat bl)" "st + length (section_bytes bl) \<le> len" "len < 2 ^ 32"
    "start \<le> st" "k = 0 \<Longrightarrow> st = start" "0 < k \<Longrightarrow> start + 8 \<le> st"
    "firsts \<noteq> [] \<Longrightarrow> \<forall>r\<in>set (concat bl). last firsts \<le> fst r"
  shows "parse_blocks (pre @ index_bytes st bl) len [k..<k + length bl] (length pre) start firsts starts =
    Some (length pre + 8 * length bl, firsts @ map (fst \<circ> hd) bl, starts @ map of_nat (block_starts st bl))"
  using assms
proof (induction bl arbitrary: pre st k start firsts starts)
  case (Cons b bl)
  let ?n = "length (block_bytes b)"
  have b: "b \<noteq> []" "hd b \<in> set b" using Cons.prems(1) by auto
  have n: "8 \<le> ?n" using length_block_bytes [OF b(1)] .
  have len: "st + ?n + length (section_bytes bl) \<le> len" using Cons.prems(3) by simp
  then have "st < 2 ^ 32" "st < len" using Cons.prems(4) n by auto
  then have st: "unat (of_nat st :: u32) = st" by (simp add: unat_of_nat)
  have first: "\<not> (firsts \<noteq> [] \<and> fst (hd b) < last firsts)"
    using Cons.prems(8) b(2) by (auto simp: not_less)
  have after: "\<forall>r\<in>set (concat bl). last (firsts @ [fst (hd b)]) \<le> fst r"
    using Cons.prems(2) b(2) by (auto simp: sorted_records_append dest!: record_less_fst bspec)
  have "parse_blocks ((pre @ le32 (fst (hd b)) @ le32 (of_nat st)) @ index_bytes (st + ?n) bl) len
      [Suc k..<Suc k + length bl] (length (pre @ le32 (fst (hd b)) @ le32 (of_nat st))) st
      (firsts @ [fst (hd b)]) (starts @ [of_nat st]) =
    Some (length (pre @ le32 (fst (hd b)) @ le32 (of_nat st)) + 8 * length bl,
      (firsts @ [fst (hd b)]) @ map (fst \<circ> hd) bl, (starts @ [of_nat st]) @ map of_nat (block_starts (st + ?n) bl))"
    using Cons.prems(1,2,4) len n after by (intro Cons.IH) (auto simp: sorted_records_append)
  moreover have "[k..<k + length (b # bl)] = k # [Suc k..<Suc k + length bl]"
    by (simp add: upt_conv_Cons del: upt_Suc)
  moreover have "checked_sub st start = Some (st - start)" using Cons.prems(5) by (simp add: checked_sub_def)
  moreover have "\<not> (k = 0 \<and> st - start \<noteq> 0 \<or> 0 < k \<and> st - start < 8)" using Cons.prems(6,7) by auto
  ultimately show ?case
    using first \<open>st < len\<close> Cons.prems(5)
    by (simp del: index_bytes.simps upt_Suc add: index_reads st) simp
qed simp

lemma length_section_ge: "\<forall>b\<in>set bl. b \<noteq> [] \<Longrightarrow> length (concat bl) \<le> length (section_bytes bl)"
proof (induction bl)
  case (Cons b bl)
  have delta: "length rs \<le> length (delta_bytes p rs)" for p rs
  proof (induction rs arbitrary: p)
    case (Cons r rs)
    have "length rs \<le> length (delta_bytes r rs)" by (rule Cons)
    moreover have "1 \<le> length (put (ucast (snd r)))" using length_put(1) [of "ucast (snd r)"] by linarith
    ultimately show ?case unfolding delta_bytes.simps length_append length_Cons by linarith
  qed simp
  have "length b \<le> length (block_bytes b)"
    using Cons.prems delta by (cases b) (auto intro: le_SucI trans_le_add2)
  with Cons show ?case by simp
qed simp

lemma fp_index_parse_encoded:
  assumes "encodes written e rs" "sorted_records rs" "fe_len e < 2 ^ 32"
  shows "fp_index_parse (fe_index_section e) (fe_len e) =
    Some \<lparr>fi_records = length rs, fi_firsts = map (fst \<circ> hd) (record_blocks rs),
          fi_starts = map of_nat (block_starts 0 (record_blocks rs))\<rparr>"
proof -
  let ?bl = "record_blocks rs" and ?put = "put (of_nat (length rs))"
  have e: "fe_index e = index_bytes 0 ?bl" "fe_records e = length rs"
    and len: "fe_len e = length (section_bytes ?bl)"
    using assms(1) by (auto simp: encodes_def fe_len_def dest!: arg_cong [of _ _ length])
  have ne: "\<forall>b\<in>set ?bl. b \<noteq> []" using record_blocks_ok(1) [of rs] by (simp add: wf_blocks_def)
  have "length rs < 2 ^ 32" using length_section_ge [OF ne] assms(3) len record_blocks_ok(2) [of rs] by simp
  then have count: "unat (of_nat (length rs) :: u64) = length rs" by (simp add: unat_of_nat)
  have blocks: "(length rs + record_block_size - 1) div record_block_size = length ?bl"
  proof (cases "rs = []")
    case True
    then show ?thesis by (simp add: blocks_of_def record_block_size_def)
  next
    case False
    then have "0 < length ?bl" by (simp add: record_blocks_eq_Nil)
    from records.wf_blocks_lengths(2) [OF record_blocks_ok(1) this] show ?thesis by (simp add: record_blocks_ok(2))
  qed
  have sec: "fe_index_section e = ?put @ index_bytes 0 ?bl" by (simp add: fe_index_section_def e)
  have leb: "leb_take (fe_index_section e) 0 = Some (of_nat (length rs), length ?put)"
    using leb.decode_first [of "of_nat (length rs)" "index_bytes 0 ?bl"] unfolding sec by simp
  have parse: "parse_blocks (?put @ index_bytes 0 ?bl) (fe_len e) [0..<0 + length ?bl] (length ?put) 0 [] [] =
      Some (length ?put + 8 * length ?bl, [] @ map (fst \<circ> hd) ?bl, [] @ map of_nat (block_starts 0 ?bl))"
    using ne assms(2,3) len by (intro parse_blocks_index) (simp_all add: record_blocks_ok(2))
  have some: "0 < length ?bl \<or> fe_len e = 0" using len by (cases ?bl) simp_all
  have "length (fe_index_section e) = length ?put + 8 * length ?bl" by (simp add: sec length_index_bytes)
  with some parse show ?thesis
    unfolding fp_index_parse_def leb option.case prod.case Let_def count blocks by (simp add: sec)
qed

section \<open>Lookups\<close>

lemma length_block_starts [simp]: "length (block_starts at bl) = length bl"
  by (induction bl arbitrary: at) simp_all

lemma block_starts_nth: "b < length bl \<Longrightarrow> block_starts at bl ! b = at + length (section_bytes (take b bl))"
proof (induction bl arbitrary: at b)
  case (Cons x bl)
  then show ?case by (cases b) simp_all
qed simp

lemma section_bytes_nth:
  assumes "b < length bl"
  shows "take (length (block_bytes (bl ! b))) (drop (length (section_bytes (take b bl))) (section_bytes bl)) = block_bytes (bl ! b)"
proof -
  have "section_bytes bl = section_bytes (take b bl) @ block_bytes (bl ! b) @ section_bytes (drop (Suc b) bl)"
    by (subst id_take_nth_drop [OF assms]) simp
  then show ?thesis by simp
qed

lemma section_bytes_take_Suc:
  "b < length bl \<Longrightarrow> section_bytes (take (Suc b) bl) = section_bytes (take b bl) @ block_bytes (bl ! b)"
  by (simp add: take_Suc_conv_app_nth)

lemma section_take_le: "length (section_bytes (take b bl)) \<le> length (section_bytes bl)"
  by (metis append_take_drop_id le_add1 length_append section_bytes_simps(3))

text \<open>A segment holding the records \<open>rs\<close>: the index as parsed, the length of its
  section, and a reader of checked byte ranges of it.\<close>

definition parsed_index :: "fp_record list \<Rightarrow> fp_index" where
  "parsed_index rs =
     \<lparr>fi_records = length rs, fi_firsts = map (fst \<circ> hd) (record_blocks rs),
      fi_starts = map of_nat (block_starts 0 (record_blocks rs))\<rparr>"

abbreviation section_len :: "fp_record list \<Rightarrow> nat" where
  "section_len rs \<equiv> length (section_bytes (record_blocks rs))"

definition holds_records :: "fp_record list \<Rightarrow> (nat \<Rightarrow> nat \<Rightarrow> 'e + bytes) \<Rightarrow> u32 \<Rightarrow> u32 \<Rightarrow> bool" where
  "holds_records rs read_checked first_doc last_doc \<longleftrightarrow>
     sorted_records rs \<and> section_len rs < 2 ^ 32 \<and>
     (\<forall>a b. a \<le> b \<longrightarrow> b \<le> section_len rs \<longrightarrow>
        read_checked a b = Inr (take (b - a) (drop a (section_bytes (record_blocks rs))))) \<and>
     (\<forall>r\<in>set rs. snd r \<le> last_doc - first_doc)"

lemma block_order:
  assumes "sorted_records rs" "i < j" "j < length (record_blocks rs)"
    "x \<in> set (record_blocks rs ! i)" "y \<in> set (record_blocks rs ! j)"
  shows "record_less x y"
proof -
  let ?bl = "record_blocks rs"
  have parts: "rs = concat (take j ?bl) @ ?bl ! j @ concat (drop (Suc j) ?bl)"
    using record_blocks_ok(2) [of rs] id_take_nth_drop [OF assms(3)] by (metis concat.simps(2) concat_append)
  have "?bl ! i \<in> set (take j ?bl)" using assms(2,3) by (auto simp: in_set_conv_nth)
  with assms(4) have "x \<in> set (concat (take j ?bl))" by auto
  with assms(1,5) show ?thesis by (subst (asm) parts) (auto simp: sorted_records_append)
qed

lemma block_sorted:
  assumes "sorted_records rs" "b < length (record_blocks rs)"
  shows "sorted_records (record_blocks rs ! b)" "record_blocks rs ! b \<noteq> []" "set (record_blocks rs ! b) \<subseteq> set rs"
proof -
  let ?bl = "record_blocks rs"
  have parts: "rs = concat (take b ?bl) @ ?bl ! b @ concat (drop (Suc b) ?bl)"
    using record_blocks_ok(2) [of rs] id_take_nth_drop [OF assms(2)] by (metis concat.simps(2) concat_append)
  show "sorted_records (?bl ! b)" using assms(1) by (subst (asm) parts) (simp add: sorted_records_append)
  have "set (?bl ! b) \<subseteq> set (concat ?bl)" using nth_mem [OF assms(2)] by auto
  then show "set (?bl ! b) \<subseteq> set rs" by (simp only: record_blocks_ok(2))
  show "?bl ! b \<noteq> []" using record_blocks_ok(1) [of rs] assms(2) by (auto simp: wf_blocks_def)
qed

lemma record_block_visits:
  assumes seg: "holds_records rs read_checked first_doc last_doc" and b: "b < length (record_blocks rs)"
  shows "record_block read_checked (parsed_index rs) (section_len rs) first_doc last_doc b each s =
    Inr (visit (\<lambda>fp doc. each fp (first_doc + doc)) ((record_blocks rs) ! b) s)"
proof -
  note sorted = seg [unfolded holds_records_def, THEN conjunct1]
  from seg have small: "section_len rs < 2 ^ 32" and offsets: "\<forall>r\<in>set rs. snd r \<le> last_doc - first_doc"
    by (simp_all add: holds_records_def)
  from seg have reads: "read_checked a c = Inr (take (c - a) (drop a (section_bytes (record_blocks rs))))"
    if "a \<le> c" "c \<le> section_len rs" for a c using that by (simp add: holds_records_def)
  let ?start = "length (section_bytes (take b (record_blocks rs)))" and ?stop = "length (section_bytes (take (Suc b) (record_blocks rs)))"
  have unat: "unat (of_nat (length (section_bytes (take k (record_blocks rs)))) :: u32) = length (section_bytes (take k (record_blocks rs)))" for k
    using section_take_le [of k "record_blocks rs"] small by (simp add: unat_of_nat)
  have start: "unat (fi_starts (parsed_index rs) ! b) = ?start"
    using b unat by (simp add: block_starts_nth parsed_index_def)
  have stop: "(if b + 1 < length (fi_starts (parsed_index rs)) then unat (fi_starts (parsed_index rs) ! (b + 1)) else section_len rs) = ?stop"
    using b unat by (auto simp: block_starts_nth not_less parsed_index_def)
  have "?stop - ?start = length (block_bytes ((record_blocks rs) ! b))" "?start \<le> ?stop"
    using section_bytes_take_Suc [OF b] by simp_all
  then have bytes: "read_checked ?start ?stop = Inr (block_bytes ((record_blocks rs) ! b))"
    using reads [OF _ section_take_le] section_bytes_nth [OF b] by simp
  have count: "fi_count (parsed_index rs) b = length ((record_blocks rs) ! b)"
    using records.wf_blocks_lengths(1) [OF record_blocks_ok(1) b] by (simp add: fi_count_def parsed_index_def record_blocks_ok(2))
  have "decode_block (block_bytes ((record_blocks rs) ! b)) (fst (hd ((record_blocks rs) ! b))) (length ((record_blocks rs) ! b)) (last_doc - first_doc)
      (\<lambda>fp doc. each fp (first_doc + doc)) s = (True, visit (\<lambda>fp doc. each fp (first_doc + doc)) ((record_blocks rs) ! b) s)"
    using block_sorted [OF sorted b] offsets by (intro decode_block_bytes) auto
  then show ?thesis
    using b unfolding record_block_def Let_def start stop bytes count by (simp add: parsed_index_def)
qed

definition run_docs :: "u32 \<Rightarrow> u32 \<Rightarrow> fp_record list \<Rightarrow> u32 list" where
  "run_docs first_doc fp xs = map (\<lambda>r. first_doc + snd r) (filter (\<lambda>r. fst r = fp) xs)"

lemma run_docs_simps [simp]: "run_docs first_doc fp [] = []" "run_docs first_doc fp (xs @ ys) = run_docs first_doc fp xs @ run_docs first_doc fp ys"
  by (simp_all add: run_docs_def)

lemma run_docs_none: "(\<And>r. r \<in> set xs \<Longrightarrow> fst r \<noteq> fp) \<Longrightarrow> run_docs first_doc fp xs = []"
  by (simp add: run_docs_def filter_empty_conv)

lemma visit_collect_run:
  assumes "sorted_records xs"
  shows "visit (\<lambda>key doc. collect_run fp key (first_doc + doc)) xs (docs, False) =
    (docs @ run_docs first_doc fp xs, \<exists>r\<in>set xs. fp < fst r)"
  using assms
proof (induction xs arbitrary: docs)
  case (Cons r xs)
  show ?case
  proof (cases "fp < fst r")
    case True
    then have "run_docs first_doc fp (r # xs) = []"
      using Cons.prems by (intro run_docs_none) (auto dest!: record_less_fst bspec)
    with True show ?thesis by (auto simp: collect_run_def Let_def)
  next
    case False
    with Cons.IH [of docs] Cons.IH [of "docs @ [first_doc + snd r]"] Cons.prems
    show ?thesis by (auto simp: collect_run_def Let_def run_docs_def)
  qed
qed simp

lemma lookup_blocks_run:
  assumes seg: "holds_records rs read_checked first_doc last_doc" and "hi \<le> length (record_blocks rs)" "lo \<le> hi" "\<forall>n. \<not> cancelled n"
  shows "lookup_blocks read_checked (parsed_index rs) (section_len rs) first_doc last_doc fp cancelled calls [lo..<hi] docs =
    Inr (docs @ run_docs first_doc fp (concat (map ((!) (record_blocks rs)) [lo..<hi])))"
  using assms(2-)
proof (induction "hi - lo" arbitrary: lo calls docs)
  case (Suc n)
  note sorted = seg [unfolded holds_records_def, THEN conjunct1]
  from Suc have lo: "lo < hi" "lo < length (record_blocks rs)" by auto
  then have upt: "[lo..<hi] = lo # [Suc lo..<hi]" by (simp add: upt_conv_Cons)
  note IH = Suc.hyps(1) [of "Suc lo" "calls + 1" "docs @ run_docs first_doc fp ((record_blocks rs) ! lo)"]
  note visit = visit_collect_run [OF block_sorted(1) [OF sorted lo(2)], of fp first_doc docs]
  show ?case
  proof (cases "\<exists>r\<in>set ((record_blocks rs) ! lo). fp < fst r")
    case False
    then show ?thesis
      unfolding upt using IH visit Suc block_sorted [OF sorted lo(2)] lo
      by (simp add: record_block_visits [OF seg] del: upt_Suc)
  next
    case True
    have "run_docs first_doc fp (concat (map ((!) (record_blocks rs)) [Suc lo..<hi])) = []"
    proof (rule run_docs_none)
      fix r
      assume "r \<in> set (concat (map ((!) (record_blocks rs)) [Suc lo..<hi]))"
      then obtain j where j: "Suc lo \<le> j" "j < length (record_blocks rs)" "r \<in> set ((record_blocks rs) ! j)" using Suc.prems(1) by auto
      from True obtain r' where r': "r' \<in> set ((record_blocks rs) ! lo)" "fp < fst r'" by blast
      have "record_less r' r" using block_order [OF sorted _ j(2) r'(1) j(3)] j(1) by simp
      then show "fst r \<noteq> fp" using r'(2) record_less_fst by fastforce
    qed
    with True show ?thesis
      unfolding upt using visit Suc.prems block_sorted [OF sorted lo(2)] lo
      by (simp add: record_block_visits [OF seg] del: upt_Suc)
  qed
qed simp

lemma sorted_firsts:
  assumes "sorted_records rs"
  shows "sorted (map (fst \<circ> hd) (record_blocks rs))"
  unfolding sorted_iff_nth_mono_less
proof (intro allI impI)
  fix i j
  assume "i < j" "j < length (map (fst \<circ> hd) (record_blocks rs))"
  then have ij: "i < j" "j < length (record_blocks rs)" "i < length (record_blocks rs)" by auto
  have "hd (record_blocks rs ! i) \<in> set (record_blocks rs ! i)" "hd (record_blocks rs ! j) \<in> set (record_blocks rs ! j)"
    using block_sorted(2) [OF assms] ij by simp_all
  from block_order [OF assms ij(1,2) this] ij
  show "map (fst \<circ> hd) (record_blocks rs) ! i \<le> map (fst \<circ> hd) (record_blocks rs) ! j"
    by (simp add: record_less_fst)
qed

lemma concat_nth_upt: "concat xs = concat (map ((!) xs) [0..<length xs])"
  by (simp add: map_nth)

lemma run_docs_blocks:
  assumes "\<And>b. b < length bl \<Longrightarrow> \<not> (lo \<le> b \<and> b < hi) \<Longrightarrow> run_docs first_doc fp (bl ! b) = []"
    and "lo \<le> hi" "hi \<le> length bl"
  shows "run_docs first_doc fp (concat bl) = run_docs first_doc fp (concat (map ((!) bl) [lo..<hi]))"
proof -
  have none: "run_docs first_doc fp (concat (map ((!) bl) bs)) = []"
    if "\<And>b. b \<in> set bs \<Longrightarrow> b < length bl \<and> \<not> (lo \<le> b \<and> b < hi)" for bs
    using that assms(1) by (induction bs) simp_all
  have "[0..<length bl] = [0..<lo] @ [lo..<hi] @ [hi..<length bl]"
    using assms(2,3) by (metis le0 le_Suc_ex upt_add_eq_append le_trans)
  then have "run_docs first_doc fp (concat bl) =
      run_docs first_doc fp (concat (map ((!) bl) [0..<lo])) @
      run_docs first_doc fp (concat (map ((!) bl) [lo..<hi])) @
      run_docs first_doc fp (concat (map ((!) bl) [hi..<length bl]))"
    by (subst concat_nth_upt) simp
  then show ?thesis using none [of "[0..<lo]"] none [of "[hi..<length bl]"] assms(2,3) by simp
qed

lemma fingerprint_blocks_cover:
  assumes "sorted_records rs" "fingerprint_blocks (parsed_index rs) fp = (lo, hi)"
  shows "lo \<le> hi" "hi \<le> length (record_blocks rs)"
    "b < length (record_blocks rs) \<Longrightarrow> \<not> (lo \<le> b \<and> b < hi) \<Longrightarrow> run_docs first_doc fp (record_blocks rs ! b) = []"
proof -
  let ?bl = "record_blocks rs"
  let ?firsts = "map (fst \<circ> hd) ?bl"
  note sorted = sorted_firsts [OF assms(1)]
  have at_least: "fst (hd (?bl ! j)) \<le> fst r" if "j < length ?bl" "r \<in> set (?bl ! j)" for j r
    using block_sorted [OF assms(1) that(1)] that(2) by (cases "?bl ! j") (auto dest: record_less_fst)
  have edge: "partition_point P ?firsts \<le> i \<longleftrightarrow> \<not> P (fst (hd (?bl ! i)))"
    if "i < length ?bl" "\<And>a b. a \<le> b \<Longrightarrow> P b \<Longrightarrow> P a" for P i
    using partition_point_le [of i ?firsts P] sorted_nth_mono [OF sorted] that by fastforce
  have cases: "?firsts = [] \<or> fp < hd ?firsts \<and> lo = 0 \<and> hi = 0 \<or>
      lo = partition_point (\<lambda>first. first < fp) ?firsts - 1 \<and> hi = partition_point (\<lambda>first. first \<le> fp) ?firsts \<and>
      \<not> fp < hd ?firsts"
    and empty: "?firsts = [] \<Longrightarrow> lo = 0 \<and> hi = 0"
    using assms(2) by (auto simp: fingerprint_blocks_def parsed_index_def Let_def split: if_splits)
  have "partition_point (\<lambda>first. first < fp) ?firsts \<le> partition_point (\<lambda>first. first \<le> fp) ?firsts"
    by (rule partition_point_mono) simp
  then show "lo \<le> hi" using cases empty by auto
  show "hi \<le> length ?bl" using cases empty partition_point_length [of "\<lambda>first. first \<le> fp" ?firsts] by auto
  assume b: "b < length ?bl" and out: "\<not> (lo \<le> b \<and> b < hi)"
  show "run_docs first_doc fp (?bl ! b) = []"
  proof (rule run_docs_none)
    fix r
    assume r: "r \<in> set (?bl ! b)"
    consider "fp < fst (hd (?bl ! b))" | "Suc b < length ?bl" "fst (hd (?bl ! Suc b)) < fp"
    proof -
      have "?firsts ! 0 \<le> ?firsts ! b" using sorted b by (intro sorted_nth_mono) auto
      moreover have "?firsts \<noteq> []" using b by auto
      ultimately have "hd ?firsts \<le> fst (hd (?bl ! b))" using b unfolding hd_conv_nth [OF \<open>?firsts \<noteq> []\<close>] by simp
      then have low: "fp < hd ?firsts \<Longrightarrow> fp < fst (hd (?bl ! b))" by (rule order_less_le_trans [rotated])
      have "Suc b < length ?bl \<and> fst (hd (?bl ! Suc b)) < fp" if "Suc b < partition_point (\<lambda>first. first < fp) ?firsts"
        using that partition_point_length [of "\<lambda>first. first < fp" ?firsts] edge [of "Suc b" "\<lambda>first. first < fp"] by auto
      moreover have "fp < fst (hd (?bl ! b))" if "partition_point (\<lambda>first. first \<le> fp) ?firsts \<le> b"
        using that edge [OF b, of "\<lambda>first. first \<le> fp"] by auto
      ultimately show thesis using that cases out b low by auto
    qed
    then show "fst r \<noteq> fp"
    proof cases
      case 1
      then show ?thesis using at_least [OF b r] by auto
    next
      case 2
      have "hd (?bl ! Suc b) \<in> set (?bl ! Suc b)" using block_sorted(2) [OF assms(1) 2(1)] by simp
      from block_order [OF assms(1) lessI 2(1) r this] 2(2) show ?thesis using record_less_fst by fastforce
    qed
  qed
qed

lemma fingerprint_docs_exact:
  assumes seg: "holds_records rs read_checked first_doc last_doc" and never: "\<forall>n. \<not> cancelled n"
  shows "fingerprint_docs_until read_checked (parsed_index rs) (section_len rs) first_doc last_doc fp cancelled =
    Inr (run_docs first_doc fp rs)"
proof -
  note sorted = seg [unfolded holds_records_def, THEN conjunct1]
  obtain lo hi where range: "fingerprint_blocks (parsed_index rs) fp = (lo, hi)" by force
  note cover = fingerprint_blocks_cover [OF sorted range]
  have "run_docs first_doc fp rs = run_docs first_doc fp (concat (map ((!) (record_blocks rs)) [lo..<hi]))"
    using run_docs_blocks [of "record_blocks rs" lo hi first_doc fp] cover by (simp add: record_blocks_ok(2))
  with lookup_blocks_run [OF seg cover(2,1) never, of fp 1 "[]"]
  have lookup: "lookup_blocks read_checked (parsed_index rs) (section_len rs) first_doc last_doc fp cancelled 1 [lo..<hi] [] =
      Inr (run_docs first_doc fp rs)" by simp
  have "rs = [] \<Longrightarrow> run_docs first_doc fp rs = []" by simp
  moreover have "fi_records (parsed_index rs) = length rs" by (simp add: parsed_index_def)
  ultimately show ?thesis
    using lookup never unfolding fingerprint_docs_until_def range by simp
qed

section \<open>Properties\<close>

datatype fp_op = Push fp_record | Drain nat

text \<open>A writer's use of the encoder: records pushed, and bytes written to the
  file and drained, at most those there are.\<close>

fun fp_apply :: "bytes \<times> fp_encoder \<Rightarrow> fp_op \<Rightarrow> bytes \<times> fp_encoder" where
  "fp_apply (written, e) (Push r) = (written, snd (fe_push e (fst r) (snd r)))"
| "fp_apply (written, e) (Drain n) =
     (let n = min n (length (fe_bytes e)) in (written @ take n (fe_bytes e), fe_drain e n))"

fun accept_op :: "fp_record list \<Rightarrow> fp_op \<Rightarrow> fp_record list" where
  "accept_op rs (Push r) = (if accepts_record rs r then rs @ [r] else rs)"
| "accept_op rs (Drain n) = rs"

lemma fp_apply_encodes:
  assumes "encodes (fst we) (snd we) rs" "sorted_records rs"
  shows "encodes (fst (foldl fp_apply we ops)) (snd (foldl fp_apply we ops)) (foldl accept_op rs ops) \<and>
    sorted_records (foldl accept_op rs ops)"
  using assms
proof (induction ops arbitrary: we rs)
  case (Cons op ops)
  obtain written e where we: "we = (written, e)" by force
  have "encodes (fst (fp_apply we op)) (snd (fp_apply we op)) (accept_op rs op) \<and> sorted_records (accept_op rs op)"
  proof (cases op)
    case (Push r)
    have "sorted_records (rs @ [r])" if "accepts_record rs r"
      using that Cons.prems(2)
      by (cases rs rule: rev_cases) (auto simp: accepts_record_def sorted_records_append intro: record_less_trans)
    then show ?thesis
      using Cons.prems fe_push_encodes(2) [of written e rs r] fe_push_rejects [of written e rs r] by (auto simp: we Push)
  next
    case (Drain n)
    then show ?thesis
      using Cons.prems encodes_drain [of written e rs "min n (length (fe_bytes e))"] by (simp add: we Let_def)
  qed
  from Cons.IH [OF this [THEN conjunct1] this [THEN conjunct2]] show ?case by simp
qed simp

text \<open>
  C11: After any sequence of pushes and drains, the index the encoder writes
  parses, and looking a fingerprint up in the bytes written returns the
  documents of exactly the accepted records with that fingerprint, in order
  (a push is accepted when it sorts strictly after the last accepted record):
  no record is lost at a block boundary, by the early stop, or by the choice of
  blocks. The section is below \<open>2^32\<close> bytes, as its \<open>u32\<close> block offsets
  need, and the offsets lie in the segment's range.
\<close>

theorem fingerprint_lookup_exact:
  assumes "foldl fp_apply ([], fp_encoder_default) ops = (written, e)"
    and "rs = foldl accept_op [] ops" and "bytes = written @ fe_bytes e"
    and "length bytes < 2 ^ 32" and "\<forall>r\<in>set rs. snd r \<le> last_doc - first_doc"
    and "\<forall>a b. a \<le> b \<longrightarrow> b \<le> length bytes \<longrightarrow> read_checked a b = Inr (take (b - a) (drop a bytes))"
  shows "\<exists>idx. fp_index_parse (fe_index_section e) (length bytes) = Some idx \<and>
    (\<forall>fp. fingerprint_docs_until read_checked idx (length bytes) first_doc last_doc fp (\<lambda>_. False) =
       Inr (map (\<lambda>r. first_doc + snd r) (filter (\<lambda>r. fst r = fp) rs)))"
proof -
  have enc: "encodes written e rs" and sorted: "sorted_records rs"
    using fp_apply_encodes [of "([], fp_encoder_default)" "[]" ops] assms(1,2) encodes_default by simp_all
  have bytes: "bytes = section_bytes (record_blocks rs)" using enc assms(3) by (simp add: encodes_def)
  have "fe_drained e = length written" using enc by (simp add: encodes_def)
  then have len: "fe_len e = length bytes" unfolding fe_len_def assms(3) by simp
  have "fp_index_parse (fe_index_section e) (length bytes) = Some (parsed_index rs)"
    using fp_index_parse_encoded [OF enc sorted] assms(4) by (simp add: len parsed_index_def)
  moreover have "holds_records rs read_checked first_doc last_doc"
    using assms(4-6) sorted by (simp add: holds_records_def bytes)
  ultimately show ?thesis
    using fingerprint_docs_exact [of rs read_checked first_doc last_doc "\<lambda>_. False"]
    by (auto simp: bytes run_docs_def)
qed

definition sample_ops :: "fp_op list" where
  "sample_ops = [Push (5, 1), Push (5, 3), Drain 4, Push (5, 3), Push (9, 0)]"

lemma sample_ops_accepted: "foldl accept_op [] sample_ops = [(5, 1), (5, 3), (9, 0)]"
  by code_simp

lemma sample_ops_length:
  "(let we = foldl fp_apply ([], fp_encoder_default) sample_ops in length (fst we @ fe_bytes (snd we))) = 12"
  by code_simp

theorem fingerprint_lookup_exact_witness:
  "\<exists>written e idx. foldl fp_apply ([], fp_encoder_default) sample_ops = (written, e) \<and>
     fp_index_parse (fe_index_section e) (length (written @ fe_bytes e)) = Some idx \<and>
     fingerprint_docs_until (\<lambda>a b. Inr (take (b - a) (drop a (written @ fe_bytes e))) :: unit + bytes)
       idx (length (written @ fe_bytes e)) 10 20 5 (\<lambda>_. False) = Inr [11, 13]"
proof -
  obtain written e where we: "foldl fp_apply ([], fp_encoder_default) sample_ops = (written, e)" by force
  have len: "length (written @ fe_bytes e) = 12" using sample_ops_length unfolding we Let_def by simp
  have "\<exists>idx. fp_index_parse (fe_index_section e) (length (written @ fe_bytes e)) = Some idx \<and>
    (\<forall>fp. fingerprint_docs_until (\<lambda>a b. Inr (take (b - a) (drop a (written @ fe_bytes e))) :: unit + bytes)
       idx (length (written @ fe_bytes e)) 10 20 fp (\<lambda>_. False) =
       Inr (map (\<lambda>r. 10 + snd r) (filter (\<lambda>r. fst r = fp) [(5, 1), (5, 3), (9, 0)])))"
  proof (rule fingerprint_lookup_exact [OF we sample_ops_accepted [symmetric] refl])
    show "length (written @ fe_bytes e) < 2 ^ 32" unfolding len by simp
    show "\<forall>r\<in>set [(5, 1), (5, 3), (9, 0)]. snd r \<le> 20 - (10 :: u32)" by simp
  qed simp
  then obtain idx where idx: "fp_index_parse (fe_index_section e) (length (written @ fe_bytes e)) = Some idx"
    and docs: "fingerprint_docs_until (\<lambda>a b. Inr (take (b - a) (drop a (written @ fe_bytes e))) :: unit + bytes)
       idx (length (written @ fe_bytes e)) 10 20 5 (\<lambda>_. False) =
       Inr (map (\<lambda>r. 10 + snd r) (filter (\<lambda>r. fst r = 5) [(5 :: u32, 1), (5, 3), (9, 0)]))" by blast
  have "map (\<lambda>r. 10 + snd r) (filter (\<lambda>r. fst r = 5) [(5 :: u32, 1), (5, 3), (9, 0)]) = [11, 13 :: u32]" by code_simp
  with docs have "fingerprint_docs_until (\<lambda>a b. Inr (take (b - a) (drop a (written @ fe_bytes e))) :: unit + bytes)
       idx (length (written @ fe_bytes e)) 10 20 5 (\<lambda>_. False) = Inr [11, 13]" by simp
  with we idx show ?thesis by blast
qed

text \<open>
  LEB128 decoding at any offset returns the encoded value and the offset
  after it, and an encoding is at most ten bytes.
\<close>

theorem leb128_roundtrip:
  "leb_take (pre @ put v @ suf) (length pre) = Some (v, length pre + length (put v)) \<and> length (put v) \<le> 10"
  by (simp add: leb_take_put length_put)

end
