(* ===== verification/Dictionary.thy ===== *)
theory Dictionary
  imports Merge Fingerprints Segment_Format
begin

text \<open>
  The writer of a segment (\<open>ferret-index/src/segment/write.rs\<close>): terms are laid out in
  front-coded blocks with their postings and a block index, and with the fingerprint codec a
  term of one document becomes a record instead, merged with the records a merge carries.
  The layout is stated for a writer that keeps its sections in memory; \<open>Spill\<close> relates one that spills to it.
  The codec of a postings list is a parameter, with \<open>pfor_ok\<close> what is relied on; so is the
  fingerprint hash.

  Results: the sections the writer holds are the layout of the terms it accepted
  (\<open>lays_out\<close>); it accepts exactly what the contract check does; the records it encodes are
  the sorted union of the demoted terms and the carried records.
\<close>

section \<open>The writer\<close>

text \<open>\<open>pfor128skip\<close> of the crate \<open>intpack\<close>.\<close>

record pfor =
  pf_encode :: "nat list \<Rightarrow> bytes"
  pf_decode :: "nat \<Rightarrow> bytes \<Rightarrow> nat list"
  pf_aux_len :: "nat \<Rightarrow> nat"

definition pfor_ok :: "pfor \<Rightarrow> bool" where
  "pfor_ok pf \<longleftrightarrow>
     (\<forall>ids suf. sorted_wrt (<) ids \<longrightarrow> 2 \<le> length ids \<longrightarrow> (\<forall>i\<in>set ids. i < 2 ^ 32) \<longrightarrow>
        pf_decode pf (length ids) (pf_encode pf ids @ suf) = ids \<and>
        pf_encode pf ids \<noteq> [] \<and> pf_aux_len pf (length ids) \<le> length (pf_encode pf ids))"

record singles =
  sg_pending :: "fp_record list"
  sg_sealed :: bool
  sg_next :: nat
  sg_encoder :: fp_encoder
  sg_carried :: "fp_record option"
  sg_sums :: bytes

definition singles_default :: singles where
  "singles_default = \<lparr>sg_pending = [], sg_sealed = False, sg_next = 0, sg_encoder = fp_encoder_default, sg_carried = None,
    sg_sums = []\<rparr>"

text \<open>The files of a spilling writer by their bytes, and what has left memory.\<close>

record spill =
  sp_out :: bytes
  sp_postings :: bytes
  sp_blocks_written :: nat
  sp_postings_written :: nat
  sp_blocks_sums :: bytes
  sp_postings_sums :: bytes

record dict_writer = term_writer +
  dw_tokenizer :: nat
  dw_codec :: nat
  dw_blocks :: bytes
  dw_postings :: bytes
  dw_index :: bytes
  dw_previous :: bytes
  dw_in_block :: nat
  dw_block_start :: nat
  dw_postings_base :: nat
  dw_terms :: nat
  dw_pairs :: nat
  dw_singletons :: nat
  dw_singleton_bytes :: nat
  dw_term_bytes :: nat
  dw_spill :: "spill option"
  dw_singles :: "singles option"

definition writer_build :: "nat \<Rightarrow> nat \<Rightarrow> nat \<Rightarrow> nat \<Rightarrow> write_error + dict_writer" where
  "writer_build first_doc last_doc version codec_id =
     (if last_doc < first_doc then Inl (Range first_doc last_doc)
      else if codec_id \<noteq> dictionary_codec \<and> codec_id \<noteq> fingerprint_codec then Inl (Codec codec_id)
      else Inr \<lparr>tw_first = first_doc, tw_last = last_doc, tw_pushed = 0, tw_last_term = [], tw_out = [],
        dw_tokenizer = version, dw_codec = codec_id, dw_blocks = [], dw_postings = [], dw_index = [],
        dw_previous = [], dw_in_block = 0, dw_block_start = 0, dw_postings_base = 0, dw_terms = 0,
        dw_pairs = 0, dw_singletons = 0, dw_singleton_bytes = 0, dw_term_bytes = 0, dw_spill = None,
        dw_singles = (if codec_id = fingerprint_codec then Some singles_default else None)\<rparr>)"

definition writer_lengths :: "dict_writer \<Rightarrow> nat \<times> nat" where
  "writer_lengths w =
     (let (blocks, postings) = (case dw_spill w of None \<Rightarrow> (0, 0) | Some s \<Rightarrow> (sp_blocks_written s, sp_postings_written s)) in
      (blocks + length (dw_blocks w), postings + length (dw_postings w)))"

definition open_block :: "dict_writer \<Rightarrow> bytes \<Rightarrow> dict_writer" where
  "open_block w t =
     (let (blocks, postings) = writer_lengths w in
      w\<lparr>dw_index := dw_index w @ put_nat (length t) @ t @ put_nat (blocks - dw_block_start w) @
          put_nat (postings - dw_postings_base w),
        dw_block_start := blocks, dw_postings_base := postings, dw_in_block := 0,
        dw_term_bytes := dw_term_bytes w + length t\<rparr>)"

text \<open>\<open>remember\<close>; the terms accepted so far are kept beside it for the specification.\<close>

definition remember :: "dict_writer \<Rightarrow> bytes \<Rightarrow> nat list \<Rightarrow> dict_writer" where
  "remember w t docs =
     w\<lparr>tw_last_term := t, tw_pushed := tw_pushed w + 1, tw_out := tw_out w @ [(t, docs)]\<rparr>"

definition shared_len :: "bytes \<Rightarrow> bytes \<Rightarrow> nat" where
  "shared_len a b = length (takeWhile (\<lambda>(x, y). x = y) (zip a b))"

definition push_entry :: "pfor \<Rightarrow> dict_writer \<Rightarrow> bytes \<Rightarrow> nat list \<Rightarrow> dict_writer \<times> nat" where
  "push_entry pf w t docs =
     (let w = (if dw_terms w = 0 \<or> dw_in_block w = block_terms then open_block w t else w);
          entry = length (dw_blocks w);
          w = (if 0 < dw_in_block w then
                 (let shared = shared_len t (dw_previous w) in
                  w\<lparr>dw_blocks := dw_blocks w @ put_nat shared @ put_nat (length t - shared) @ drop shared t,
                    dw_term_bytes := dw_term_bytes w + (length t - shared)\<rparr>)
               else w);
          w = w\<lparr>dw_blocks := dw_blocks w @ put_nat (length docs)\<rparr>;
          w = (case docs of
                 [doc] \<Rightarrow>
                   (let w = w\<lparr>dw_blocks := dw_blocks w @ put_nat (doc - tw_first w)\<rparr> in
                    w\<lparr>dw_singletons := dw_singletons w + 1,
                      dw_singleton_bytes := dw_singleton_bytes w + (length (dw_blocks w) - entry)\<rparr>)
               | _ \<Rightarrow>
                   (let list = pf_encode pf (map (\<lambda>doc. doc - tw_first w) docs) in
                    w\<lparr>dw_postings := dw_postings w @ list, dw_blocks := dw_blocks w @ put_nat (length list)\<rparr>));
          w = remember (w\<lparr>dw_previous := t\<rparr>) t docs;
          w = w\<lparr>dw_in_block := dw_in_block w + 1, dw_terms := dw_terms w + 1, dw_pairs := dw_pairs w + length docs\<rparr>
      in (w, length (dw_blocks w) - entry))"

definition dict_push ::
  "pfor \<Rightarrow> (bytes \<Rightarrow> u32) \<Rightarrow> dict_writer \<Rightarrow> bytes \<Rightarrow> nat list \<Rightarrow> write_error + dict_writer \<times> nat"
where
  "dict_push pf fingerprint w t docs =
     (case check_term (term_writer.truncate w) t docs of
        Inl e \<Rightarrow> Inl e
      | Inr _ \<Rightarrow>
          (case dw_singles w of
             None \<Rightarrow> Inr (push_entry pf w t docs)
           | Some sg \<Rightarrow>
               if sg_sealed sg then Inl RecordOrder
               else
                 (case docs of
                    [doc] \<Rightarrow>
                      Inr (remember
                        (w\<lparr>dw_singles := Some (sg\<lparr>sg_pending := sg_pending sg @ [(fingerprint t, of_nat (doc - tw_first w))]\<rparr>),
                           dw_singletons := dw_singletons w + 1\<rparr>) t docs, 0)
                  | _ \<Rightarrow> Inr (push_entry pf w t docs))))"

text \<open>The records of a codec 2 writer: \<open>Singles::seal\<close>, \<open>Singles::flush_below\<close>, \<open>push_record\<close> and
  \<open>seal_records\<close>.\<close>

definition singles_seal :: "singles \<Rightarrow> singles" where
  "singles_seal sg =
     (if sg_sealed sg then sg else sg\<lparr>sg_pending := remdups_adj (sort (sg_pending sg)), sg_sealed := True\<rparr>)"

function flush_loop :: "fp_record option \<Rightarrow> singles \<Rightarrow> singles" where
  "flush_loop bound sg =
     (if sg_next sg < length (sg_pending sg) \<and>
         (case bound of None \<Rightarrow> True | Some b \<Rightarrow> sg_pending sg ! sg_next sg < b)
      then
        (let r = sg_pending sg ! sg_next sg in
         flush_loop bound (sg\<lparr>sg_encoder := snd (fe_push (sg_encoder sg) (fst r) (snd r)), sg_next := sg_next sg + 1\<rparr>))
      else sg)"
  by pat_completeness auto
termination
  by (relation "measure (\<lambda>(bound, sg). length (sg_pending sg) - sg_next sg)") auto

declare flush_loop.simps [simp del]

definition flush_below :: "fp_record option \<Rightarrow> singles \<Rightarrow> singles" where
  "flush_below bound sg =
     (let sg = flush_loop bound sg in
      if sg_next sg = length (sg_pending sg) then sg\<lparr>sg_pending := [], sg_next := 0\<rparr> else sg)"

definition push_record :: "dict_writer \<Rightarrow> u32 \<Rightarrow> nat \<Rightarrow> write_error + dict_writer" where
  "push_record w fp doc =
     (case dw_singles w of
        None \<Rightarrow> Inl RecordOrder
      | Some sg \<Rightarrow>
          if \<not> (tw_first w \<le> doc \<and> doc \<le> tw_last w) then Inl (DocRange doc)
          else
            (let r = (fp, of_nat (doc - tw_first w)) in
             if (case sg_carried sg of None \<Rightarrow> False | Some carried \<Rightarrow> r \<le> carried) then Inl RecordOrder
             else
               (let sg = flush_below (Some r) (singles_seal sg) in
                Inr (w\<lparr>dw_singles := Some (sg\<lparr>sg_encoder := snd (fe_push (sg_encoder sg) (fst r) (snd r)),
                                               sg_carried := Some r\<rparr>)\<rparr>))))"

definition seal_records :: "dict_writer \<Rightarrow> dict_writer" where
  "seal_records w = w\<lparr>dw_singles := map_option (\<lambda>sg. flush_below None (singles_seal sg)) (dw_singles w)\<rparr>"

section \<open>The layout of a list of terms\<close>

type_synonym dentry = "bytes \<times> nat list"

definition list_bytes :: "pfor \<Rightarrow> nat \<Rightarrow> nat list \<Rightarrow> bytes" where
  "list_bytes pf first docs = (case docs of [d] \<Rightarrow> [] | _ \<Rightarrow> pf_encode pf (map (\<lambda>d. d - first) docs))"

definition tail_bytes :: "pfor \<Rightarrow> nat \<Rightarrow> nat list \<Rightarrow> bytes" where
  "tail_bytes pf first docs =
     put_nat (length docs) @
     (case docs of [d] \<Rightarrow> put_nat (d - first) | _ \<Rightarrow> put_nat (length (list_bytes pf first docs)))"

definition front_bytes :: "bytes \<Rightarrow> bytes \<Rightarrow> bytes" where
  "front_bytes prev t =
     (let shared = shared_len t prev in put_nat shared @ put_nat (length t - shared) @ drop shared t)"

fun rest_bytes :: "pfor \<Rightarrow> nat \<Rightarrow> bytes \<Rightarrow> dentry list \<Rightarrow> bytes" where
  "rest_bytes pf first prev [] = []"
| "rest_bytes pf first prev (e # es) =
     front_bytes prev (fst e) @ tail_bytes pf first (snd e) @ rest_bytes pf first (fst e) es"

fun dblock :: "pfor \<Rightarrow> nat \<Rightarrow> dentry list \<Rightarrow> bytes" where
  "dblock pf first [] = []"
| "dblock pf first (e # es) = tail_bytes pf first (snd e) @ rest_bytes pf first (fst e) es"

definition dposts :: "pfor \<Rightarrow> nat \<Rightarrow> dentry list \<Rightarrow> bytes" where
  "dposts pf first b = concat (map (\<lambda>e. list_bytes pf first (snd e)) b)"

definition dblocks :: "pfor \<Rightarrow> nat \<Rightarrow> dentry list list \<Rightarrow> bytes" where
  "dblocks pf first bl = concat (map (dblock pf first) bl)"

definition dpostings :: "pfor \<Rightarrow> nat \<Rightarrow> dentry list list \<Rightarrow> bytes" where
  "dpostings pf first bl = concat (map (dposts pf first) bl)"

definition index_entry :: "bytes \<Rightarrow> nat \<Rightarrow> nat \<Rightarrow> bytes" where
  "index_entry t step postings_step = put_nat (length t) @ t @ put_nat step @ put_nat postings_step"

fun dindex :: "pfor \<Rightarrow> nat \<Rightarrow> nat \<Rightarrow> nat \<Rightarrow> dentry list list \<Rightarrow> bytes" where
  "dindex pf first step postings_step [] = []"
| "dindex pf first step postings_step (b # bl) =
     index_entry (fst (hd b)) step postings_step @
     dindex pf first (length (dblock pf first b)) (length (dposts pf first b)) bl"

interpretation term_blocks: blocking block_terms
  by unfold_locales (simp add: block_terms_def)

abbreviation dict_blocks :: "dentry list \<Rightarrow> dentry list list" where
  "dict_blocks \<equiv> blocks_of block_terms"

lemma layout_append [simp]:
  "dblocks pf first (bl @ bl') = dblocks pf first bl @ dblocks pf first bl'" "dblocks pf first [] = []"
  "dblocks pf first [b] = dblock pf first b"
  "dpostings pf first (bl @ bl') = dpostings pf first bl @ dpostings pf first bl'" "dpostings pf first [] = []"
  "dpostings pf first [b] = dposts pf first b"
  "dposts pf first (b @ b') = dposts pf first b @ dposts pf first b'" "dposts pf first [] = []"
  "dposts pf first [e] = list_bytes pf first (snd e)"
  by (simp_all add: dblocks_def dpostings_def dposts_def)

lemma dindex_snoc:
  "dindex pf first step postings_step (bl @ [b]) =
     dindex pf first step postings_step bl @
     index_entry (fst (hd b)) (if bl = [] then step else length (dblock pf first (last bl)))
       (if bl = [] then postings_step else length (dposts pf first (last bl)))"
  by (induction bl arbitrary: step postings_step) simp_all

lemma dindex_grow:
  "b \<noteq> [] \<Longrightarrow> dindex pf first step postings_step (bl @ [b @ [e]]) = dindex pf first step postings_step (bl @ [b])"
  by (simp add: dindex_snoc)

lemma rest_bytes_snoc:
  "rest_bytes pf first prev (es @ [e]) =
     rest_bytes pf first prev es @ front_bytes (fst (last ((prev, []) # es))) (fst e) @ tail_bytes pf first (snd e)"
  by (induction es arbitrary: prev) simp_all

lemma dblock_snoc:
  "b \<noteq> [] \<Longrightarrow> dblock pf first (b @ [e]) = dblock pf first b @ front_bytes (fst (last b)) (fst e) @ tail_bytes pf first (snd e)"
  by (cases b) (auto simp: rest_bytes_snoc)

lemma length_put_pos [simp]: "put v \<noteq> []"
  using length_put(1) [of v] by auto

lemma dblock_nonempty: "b \<noteq> [] \<Longrightarrow> dblock pf first b \<noteq> []"
  by (cases b) (simp_all add: tail_bytes_def)

section \<open>The writer lays its terms out\<close>

definition dict_entries :: "dict_writer \<Rightarrow> dentry list" where
  "dict_entries w = filter (\<lambda>(t, docs). dw_singles w = None \<or> length docs \<noteq> 1) (tw_out w)"

definition lays_out :: "pfor \<Rightarrow> dict_writer \<Rightarrow> bool" where
  "lays_out pf w \<longleftrightarrow>
     (let es = dict_entries w; bl = dict_blocks es; first = tw_first w in
      dw_blocks w = dblocks pf first bl \<and> dw_postings w = dpostings pf first bl \<and>
      dw_index w = dindex pf first 0 0 bl \<and> dw_terms w = length es \<and>
      dw_block_start w = length (dblocks pf first (butlast bl)) \<and>
      dw_postings_base w = length (dpostings pf first (butlast bl)) \<and>
      (es \<noteq> [] \<longrightarrow> dw_in_block w = length (last bl) \<and> dw_previous w = fst (last es)) \<and> dw_spill w = None)"

definition opens_block :: "dict_writer \<Rightarrow> bool" where
  "opens_block w \<longleftrightarrow> dw_terms w = 0 \<or> dw_in_block w = block_terms"

lemma case_not_single: "length docs \<noteq> 1 \<Longrightarrow> (case docs of [d] \<Rightarrow> a d | _ \<Rightarrow> b) = b"
  by (auto split: list.split)

definition entry_pushed :: "pfor \<Rightarrow> dict_writer \<Rightarrow> bytes \<Rightarrow> nat list \<Rightarrow> dict_writer \<Rightarrow> bool" where
  "entry_pushed pf w t docs w' \<longleftrightarrow>
     dw_blocks w' = dw_blocks w @ (if opens_block w then [] else front_bytes (dw_previous w) t) @ tail_bytes pf (tw_first w) docs \<and>
     dw_postings w' = dw_postings w @ list_bytes pf (tw_first w) docs \<and>
     dw_index w' = dw_index w @
       (if opens_block w then index_entry t (length (dw_blocks w) - dw_block_start w) (length (dw_postings w) - dw_postings_base w) else []) \<and>
     dw_block_start w' = (if opens_block w then length (dw_blocks w) else dw_block_start w) \<and>
     dw_postings_base w' = (if opens_block w then length (dw_postings w) else dw_postings_base w) \<and>
     dw_in_block w' = (if opens_block w then 1 else dw_in_block w + 1) \<and>
     dw_terms w' = dw_terms w + 1 \<and> dw_previous w' = t \<and> dw_singles w' = dw_singles w \<and> dw_spill w' = dw_spill w \<and>
     dw_codec w' = dw_codec w \<and> dw_tokenizer w' = dw_tokenizer w \<and> dw_pairs w' = dw_pairs w + length docs \<and>
     term_writer.truncate w' =
       (term_writer.truncate w)\<lparr>tw_last_term := t, tw_pushed := tw_pushed w + 1, tw_out := tw_out w @ [(t, docs)]\<rparr>"

lemmas entry_parts = tail_bytes_def list_bytes_def front_bytes_def index_entry_def

lemma push_entry_pushed:
  assumes "dw_terms w \<noteq> 0 \<Longrightarrow> 0 < dw_in_block w" and spill: "dw_spill w = None"
  shows "entry_pushed pf w t docs (fst (push_entry pf w t docs))"
proof (cases "length docs = 1")
  case True
  then obtain d where docs: "docs = [d]" by (auto simp: length_Suc_conv)
  show ?thesis
  proof (cases "opens_block w")
    case True
    then show ?thesis
      by (simp add: docs entry_pushed_def push_entry_def Let_def opens_block_def open_block_def writer_lengths_def spill remember_def entry_parts
          term_writer.truncate_def)
  next
    case False
    with assms show ?thesis
      by (simp add: docs entry_pushed_def push_entry_def Let_def opens_block_def remember_def entry_parts term_writer.truncate_def)
  qed
next
  case False
  note single = case_not_single [OF False]
  show ?thesis
  proof (cases "opens_block w")
    case True
    then show ?thesis
      by (simp add: single entry_pushed_def push_entry_def Let_def opens_block_def open_block_def writer_lengths_def spill remember_def entry_parts
          term_writer.truncate_def)
  next
    case False
    with assms show ?thesis
      by (simp add: single entry_pushed_def push_entry_def Let_def opens_block_def remember_def entry_parts term_writer.truncate_def)
  qed
qed

lemma lays_out_unspilled: "lays_out pf w \<Longrightarrow> dw_spill w = None"
  by (simp add: lays_out_def Let_def)

lemma lays_out_in_block:
  assumes "lays_out pf w" "dw_terms w \<noteq> 0"
  shows "0 < dw_in_block w"
proof -
  have ne: "dict_blocks (dict_entries w) \<noteq> []" using assms by (auto simp: lays_out_def Let_def term_blocks.blocks_of_eq_Nil)
  then have "last (dict_blocks (dict_entries w)) \<noteq> []"
    using term_blocks.blocks_of_ok(1) [of "dict_entries w"] by (auto simp: wf_blocks_def)
  with assms show ?thesis by (auto simp: lays_out_def Let_def)
qed

lemma lays_out_grows:
  assumes lays: "lays_out pf w" and pushed: "entry_pushed pf w t docs w'"
    and entries: "dict_entries w' = dict_entries w @ [(t, docs)]"
  shows "lays_out pf w'"
proof -
  define bl where "bl = dict_blocks (dict_entries w)"
  have bl': "dict_blocks (dict_entries w') = add_block block_terms bl (t, docs)"
    by (simp add: entries term_blocks.blocks_of_snoc bl_def)
  have first: "tw_first w' = tw_first w"
    using pushed by (simp add: entry_pushed_def term_writer.truncate_def)
  have w: "dw_blocks w = dblocks pf (tw_first w) bl" "dw_postings w = dpostings pf (tw_first w) bl"
    "dw_index w = dindex pf (tw_first w) 0 0 bl" "dw_terms w = length (dict_entries w)"
    "dw_block_start w = length (dblocks pf (tw_first w) (butlast bl))"
    "dw_postings_base w = length (dpostings pf (tw_first w) (butlast bl))"
    "dict_entries w \<noteq> [] \<Longrightarrow> dw_in_block w = length (last bl) \<and> dw_previous w = fst (last (dict_entries w))"
    "dw_spill w = None"
    using lays by (simp_all add: lays_out_def Let_def bl_def)
  have opens: "opens_block w \<longleftrightarrow> bl = [] \<or> length (last bl) = block_terms"
    using w(4,7) by (cases "dict_entries w = []") (auto simp: opens_block_def bl_def term_blocks.blocks_of_eq_Nil)
  show ?thesis
  proof (cases "opens_block w")
    case True
    then have new: "dict_blocks (dict_entries w') = bl @ [[(t, docs)]]" by (auto simp: bl' add_block_def opens)
    have steps: "length (dw_blocks w) - dw_block_start w = (if bl = [] then 0 else length (dblock pf (tw_first w) (last bl)))"
      "length (dw_postings w) - dw_postings_base w = (if bl = [] then 0 else length (dposts pf (tw_first w) (last bl)))"
      by (cases bl rule: rev_cases; simp add: w)+
    show ?thesis
      using pushed True unfolding lays_out_def Let_def first new entry_pushed_def steps
      by (simp add: w entries dindex_snoc)
  next
    case False
    then obtain full b where bl: "bl = full @ [b]" by (metis opens rev_exhaust)
    then have es: "dict_entries w \<noteq> []" by (auto simp: bl_def blocks_of_def)
    have b: "b \<noteq> []" using term_blocks.blocks_of_ok(1) [of "dict_entries w"] by (simp add: bl_def [symmetric] bl wf_blocks_def)
    have new: "dict_blocks (dict_entries w') = full @ [b @ [(t, docs)]]" using False by (auto simp: bl' add_block_def opens bl)
    have "last b = last (dict_entries w)" using term_blocks.last_last_blocks [OF es] by (simp add: bl_def [symmetric] bl)
    then have prev: "dw_previous w = fst (last b)" using w(7) es by simp
    show ?thesis
      using pushed False unfolding lays_out_def Let_def first new entry_pushed_def
      using w es by (simp add: bl entries dindex_grow [OF b] dblock_snoc [OF b] prev)
  qed
qed

section \<open>The contract\<close>

definition accepted_terms :: "dict_writer \<Rightarrow> bool" where
  "accepted_terms w \<longleftrightarrow>
     sorted_wrt (<) (map fst (tw_out w)) \<and> tw_pushed w = length (tw_out w) \<and>
     (tw_out w \<noteq> [] \<longrightarrow> tw_last_term w = fst (last (tw_out w))) \<and> tw_first w \<le> tw_last w \<and>
     (\<forall>(t, docs)\<in>set (tw_out w). docs \<noteq> [] \<and> docs_fit (term_writer.truncate w) docs)"

lemma check_term_ok:
  "check_term w t docs = Inr u \<longleftrightarrow> (tw_pushed w = 0 \<or> tw_last_term w < t) \<and> docs \<noteq> [] \<and> docs_fit w docs"
proof
  assume ok: "check_term w t docs = Inr u"
  then have ne: "docs \<noteq> []" and t: "tw_pushed w = 0 \<or> tw_last_term w < t"
    and sorted: "sorted_wrt (<) docs"
    and ends: "tw_first w \<le> hd docs" "last docs \<le> tw_last w"
    by (auto simp: check_term_def windows_2_sorted [unfolded One_nat_def] split: if_splits)
  have "hd docs \<le> d" if "d \<in> set docs" for d
    using that sorted by (cases docs) (auto intro: order_less_imp_le)
  moreover have "d \<le> last docs" if "d \<in> set docs" for d
    using that sorted by (cases docs rule: rev_cases) (auto simp: sorted_wrt_append intro: order_less_imp_le)
  ultimately have "docs_fit w docs" using ends sorted by (auto simp: docs_fit_def intro: order_trans)
  with ne t show "(tw_pushed w = 0 \<or> tw_last_term w < t) \<and> docs \<noteq> [] \<and> docs_fit w docs" by blast
next
  assume "(tw_pushed w = 0 \<or> tw_last_term w < t) \<and> docs \<noteq> [] \<and> docs_fit w docs"
  then show "check_term w t docs = Inr u"
    by (auto simp: check_term_def windows_2_sorted [unfolded One_nat_def] docs_fit_def)
qed

text \<open>What a codec 2 writer demotes: the terms of one document, as records.\<close>

definition demoted :: "(bytes \<Rightarrow> u32) \<Rightarrow> dict_writer \<Rightarrow> fp_record list" where
  "demoted fingerprint w =
     (if dw_singles w = None then []
      else map (\<lambda>(t, docs). (fingerprint t, of_nat (hd docs - tw_first w))) (filter (\<lambda>(t, docs). length docs = 1) (tw_out w)))"

lemma dict_push_cases:
  assumes "dict_push pf fingerprint w t docs = Inr (w', n)" "lays_out pf w"
  shows "check_term (term_writer.truncate w) t docs = Inr ()"
    and "(\<exists>sg doc. dw_singles w = Some sg \<and> \<not> sg_sealed sg \<and> docs = [doc] \<and> n = 0 \<and>
            w' = remember (w\<lparr>dw_singles := Some (sg\<lparr>sg_pending := sg_pending sg @ [(fingerprint t, of_nat (doc - tw_first w))]\<rparr>),
                           dw_singletons := dw_singletons w + 1\<rparr>) t docs) \<or>
         (dw_singles w = None \<or> length docs \<noteq> 1) \<and> entry_pushed pf w t docs w'"
proof -
  show ok: "check_term (term_writer.truncate w) t docs = Inr ()"
    using assms(1) by (auto simp: dict_push_def split: sum.splits)
  have pushed: "entry_pushed pf w t docs w'" if "push_entry pf w t docs = (w', n)"
    using push_entry_pushed [of w pf t docs] lays_out_in_block [OF assms(2)] lays_out_unspilled [OF assms(2)] that by simp
  show "(\<exists>sg doc. dw_singles w = Some sg \<and> \<not> sg_sealed sg \<and> docs = [doc] \<and> n = 0 \<and>
            w' = remember (w\<lparr>dw_singles := Some (sg\<lparr>sg_pending := sg_pending sg @ [(fingerprint t, of_nat (doc - tw_first w))]\<rparr>),
                           dw_singletons := dw_singletons w + 1\<rparr>) t docs) \<or>
         (dw_singles w = None \<or> length docs \<noteq> 1) \<and> entry_pushed pf w t docs w'"
  proof (cases "dw_singles w")
    case None
    with assms(1) ok show ?thesis by (auto simp: dict_push_def intro: pushed)
  next
    case (Some sg)
    show ?thesis
    proof (cases "length docs = 1")
      case True
      then obtain d where "docs = [d]" by (auto simp: length_Suc_conv)
      with assms(1) ok Some show ?thesis by (auto simp: dict_push_def split: if_splits)
    next
      case False
      with assms(1) ok Some show ?thesis by (auto simp: dict_push_def case_not_single split: if_splits intro: pushed)
    qed
  qed
qed

lemma entry_pushed_entries:
  assumes "entry_pushed pf w t docs w'" "dw_singles w = None \<or> length docs \<noteq> 1"
  shows "dict_entries w' = dict_entries w @ [(t, docs)]"
  using assms by (auto simp: entry_pushed_def dict_entries_def term_writer.truncate_def)

lemma dict_push_out:
  assumes "dict_push pf fingerprint w t docs = Inr (w', n)" "lays_out pf w"
  shows "writer_push (term_writer.truncate w) t docs = Inr (term_writer.truncate w')" "lays_out pf w'"
proof -
  note cases = dict_push_cases [OF assms]
  show "writer_push (term_writer.truncate w) t docs = Inr (term_writer.truncate w')"
    using cases(2) unfolding writer_push_def cases(1)
    by (auto simp: entry_pushed_def remember_def term_writer.truncate_def)
  show "lays_out pf w'"
    using cases(2)
  proof (elim disjE exE conjE)
    fix sg doc
    assume "dw_singles w = Some sg" "docs = [doc]"
      "w' = remember (w\<lparr>dw_singles := Some (sg\<lparr>sg_pending := sg_pending sg @ [(fingerprint t, of_nat (doc - tw_first w))]\<rparr>),
                         dw_singletons := dw_singletons w + 1\<rparr>) t docs"
    then show ?thesis using assms(2) by (simp add: lays_out_def remember_def dict_entries_def Let_def)
  qed (simp_all add: lays_out_grows [OF assms(2)] entry_pushed_entries)
qed

lemma writer_push_accepted:
  assumes "writer_push (term_writer.truncate w) t docs = Inr (term_writer.truncate w')" "accepted_terms w"
  shows "accepted_terms w'" "tw_out w' = tw_out w @ [(t, docs)]" "tw_first w' = tw_first w" "tw_last w' = tw_last w"
proof -
  have ok: "check_term (term_writer.truncate w) t docs = Inr ()"
    using assms(1) by (auto simp: writer_push_def split: sum.splits)
  then have w': "term_writer.truncate w' =
      (term_writer.truncate w)\<lparr>tw_last_term := t, tw_pushed := tw_pushed w + 1, tw_out := tw_out w @ [(t, docs)]\<rparr>"
    using assms(1) [symmetric] unfolding writer_push_def ok sum.case sum.inject by (simp add: term_writer.truncate_def)
  from w' show out: "tw_out w' = tw_out w @ [(t, docs)]" "tw_first w' = tw_first w" "tw_last w' = tw_last w"
    by (simp_all add: term_writer.truncate_def)
  have fits: "docs_fit (term_writer.truncate w') = docs_fit (term_writer.truncate w)"
    by (simp add: w' docs_fit_def fun_eq_iff)
  have after: "x < t" if "x \<in> fst ` set (tw_out w)" for x
  proof -
    from that obtain xs y where xs: "tw_out w = xs @ [y]" by (cases "tw_out w" rule: rev_cases) auto
    have "fst y < t" using ok assms(2) by (auto simp: check_term_ok accepted_terms_def xs term_writer.truncate_def)
    with that assms(2) show ?thesis by (force simp: accepted_terms_def xs sorted_wrt_append)
  qed
  have "docs \<noteq> []" "docs_fit (term_writer.truncate w) docs" using ok by (simp_all add: check_term_ok)
  with assms(2) after w' out show "accepted_terms w'"
    unfolding accepted_terms_def fits by (auto simp: sorted_wrt_append term_writer.truncate_def)
qed

section \<open>The records\<close>

lemma record_less_iff: "record_less a b \<longleftrightarrow> a < b"
  by (cases a; cases b) (auto simp: record_less_def less_prod_def)

lemma sorted_records_iff: "sorted_records rs \<longleftrightarrow> sorted_wrt (<) rs"
  by (simp add: record_less_iff [abs_def])

text \<open>The encoder given a record that none of the others exceeds.\<close>

definition add_record :: "fp_record list \<Rightarrow> fp_record \<Rightarrow> fp_record list" where
  "add_record rs r = (if accepts_record rs r then rs @ [r] else rs)"

definition encoded_records :: "singles \<Rightarrow> fp_record list \<Rightarrow> bool" where
  "encoded_records sg rs \<longleftrightarrow> encodes [] (sg_encoder sg) rs \<and> sorted_wrt (<) rs"

lemma add_record_top:
  assumes "sorted_wrt (<) rs" "\<forall>x\<in>set rs. x \<le> r"
  shows "sorted_wrt (<) (add_record rs r)" "set (add_record rs r) = insert r (set rs)"
proof -
  have "sorted_wrt (<) (add_record rs r) \<and> set (add_record rs r) = insert r (set rs)"
  proof (cases rs rule: rev_cases)
    case (snoc ys y)
    with assms show ?thesis
      by (auto simp: add_record_def accepts_record_def record_less_iff sorted_wrt_append intro: order_less_le_trans)
  qed (simp add: add_record_def accepts_record_def)
  then show "sorted_wrt (<) (add_record rs r)" "set (add_record rs r) = insert r (set rs)" by blast+
qed

lemma fe_push_add_record:
  "encodes [] e rs \<Longrightarrow> encodes [] (snd (fe_push e (fst r) (snd r))) (add_record rs r)"
  using fe_push_encodes(2) [of "[]" e rs r] fe_push_rejects [of "[]" e rs r] by (auto simp: add_record_def)

lemma flush_loop_encoded:
  assumes "encoded_records sg rs" "sg_next sg \<le> length (sg_pending sg)" "sorted_wrt (<) (drop (sg_next sg) (sg_pending sg))"
    "\<forall>x\<in>set rs. \<forall>y\<in>set (drop (sg_next sg) (sg_pending sg)). x \<le> y"
  shows "\<exists>rs' taken rest. encoded_records (flush_loop bound sg) rs' \<and> drop (sg_next sg) (sg_pending sg) = taken @ rest \<and>
    sg_next (flush_loop bound sg) \<le> length (sg_pending (flush_loop bound sg)) \<and>
    drop (sg_next (flush_loop bound sg)) (sg_pending (flush_loop bound sg)) = rest \<and>
    set rs' = set rs \<union> set taken \<and> (\<forall>x\<in>set rs'. \<forall>y\<in>set rest. x \<le> y) \<and>
    (case bound of None \<Rightarrow> rest = [] | Some b \<Rightarrow> (\<forall>x\<in>set taken. x < b) \<and> (\<forall>x\<in>set rest. b \<le> x)) \<and>
    sg_sealed (flush_loop bound sg) = sg_sealed sg \<and> sg_carried (flush_loop bound sg) = sg_carried sg"
  using assms
proof (induction bound sg arbitrary: rs rule: flush_loop.induct)
  case (1 bound sg)
  let ?go = "sg_next sg < length (sg_pending sg) \<and> (case bound of None \<Rightarrow> True | Some b \<Rightarrow> sg_pending sg ! sg_next sg < b)"
  let ?r = "sg_pending sg ! sg_next sg"
  let ?sg = "sg\<lparr>sg_encoder := snd (fe_push (sg_encoder sg) (fst ?r) (snd ?r)), sg_next := sg_next sg + 1\<rparr>"
  show ?case
  proof (cases ?go)
    case True
    then have split: "drop (sg_next sg) (sg_pending sg) = ?r # drop (sg_next ?sg) (sg_pending ?sg)"
      by (simp add: Cons_nth_drop_Suc)
    have below: "\<forall>x\<in>set rs. x \<le> ?r" using "1.prems"(4) by (simp add: split)
    have rs: "sorted_wrt (<) rs" using "1.prems"(1) by (simp add: encoded_records_def)
    note top = add_record_top [OF rs below]
    have enc: "encoded_records ?sg (add_record rs ?r)"
      using "1.prems"(1) top(1) by (simp add: encoded_records_def fe_push_add_record)
    have sorted: "sorted_wrt (<) (drop (sg_next ?sg) (sg_pending ?sg))" and
      above: "\<forall>y\<in>set (drop (sg_next ?sg) (sg_pending ?sg)). ?r < y"
      using "1.prems"(3) by (simp_all add: split)
    have le: "\<forall>x\<in>set (add_record rs ?r). \<forall>y\<in>set (drop (sg_next ?sg) (sg_pending ?sg)). x \<le> y"
      using above "1.prems"(4) by (auto simp: top(2) split intro: order_less_imp_le)
    have step: "flush_loop bound sg = flush_loop bound ?sg"
      using True by (subst flush_loop.simps) (simp add: Let_def)
    have bounded: "sg_next ?sg \<le> length (sg_pending ?sg)" using True by simp
    have go: "?go" by (rule True)
    from "1.IH" [OF go refl enc bounded sorted le]
    obtain rs' taken rest where IH: "encoded_records (flush_loop bound ?sg) rs'"
      "drop (sg_next ?sg) (sg_pending ?sg) = taken @ rest"
      "sg_next (flush_loop bound ?sg) \<le> length (sg_pending (flush_loop bound ?sg))"
      "drop (sg_next (flush_loop bound ?sg)) (sg_pending (flush_loop bound ?sg)) = rest"
      "set rs' = set (add_record rs ?r) \<union> set taken" "\<forall>x\<in>set rs'. \<forall>y\<in>set rest. x \<le> y"
      "case bound of None \<Rightarrow> rest = [] | Some b \<Rightarrow> (\<forall>x\<in>set taken. x < b) \<and> (\<forall>x\<in>set rest. b \<le> x)"
      "sg_sealed (flush_loop bound ?sg) = sg_sealed ?sg \<and> sg_carried (flush_loop bound ?sg) = sg_carried ?sg" by blast
    show ?thesis
    proof (intro exI conjI)
      show "encoded_records (flush_loop bound sg) rs'" using IH(1) by (simp only: step)
      show "drop (sg_next sg) (sg_pending sg) = (?r # taken) @ rest" by (simp only: split IH(2) append_Cons)
      show "set rs' = set rs \<union> set (?r # taken)" by (simp add: IH(5) top(2))
      show "case bound of None \<Rightarrow> rest = [] | Some b \<Rightarrow> (\<forall>x\<in>set (?r # taken). x < b) \<and> (\<forall>x\<in>set rest. b \<le> x)"
        using IH(7) True by (cases bound) auto
    qed (use IH in \<open>simp_all add: step\<close>)
  next
    case False
    then have stop: "flush_loop bound sg = sg" by (subst flush_loop.simps) (simp only: if_False)
    let ?rest = "drop (sg_next sg) (sg_pending sg)"
    have "case bound of None \<Rightarrow> ?rest = [] | Some b \<Rightarrow> (\<forall>x\<in>set ?rest. b \<le> x)"
    proof (cases "sg_next sg < length (sg_pending sg)")
      case True
      then have split: "?rest = ?r # drop (Suc (sg_next sg)) (sg_pending sg)" by (simp add: Cons_nth_drop_Suc)
      from False True obtain b where b: "bound = Some b" "b \<le> ?r" by (auto split: option.splits)
      with "1.prems"(3) show ?thesis by (auto simp: split intro: order_less_imp_le order_trans)
    qed (simp split: option.splits)
    then show ?thesis
      using "1.prems" unfolding stop
      by (intro exI [of _ rs] exI [of _ "[]"] exI [of _ ?rest]) (auto split: option.splits)
  qed
qed

text \<open>
  A codec 2 writer that has demoted the records \<open>ps\<close> and taken the carried records \<open>cs\<close>: what is
  encoded so far is below what is still pending, and with it all there is.
\<close>

definition holds_pending :: "singles \<Rightarrow> fp_record list \<Rightarrow> fp_record list \<Rightarrow> fp_record list \<Rightarrow> bool" where
  "holds_pending sg ps cs rs \<longleftrightarrow>
     encoded_records sg rs \<and> sg_next sg \<le> length (sg_pending sg) \<and>
     sorted_wrt (<) (drop (sg_next sg) (sg_pending sg)) \<and>
     (\<forall>x\<in>set rs. \<forall>y\<in>set (drop (sg_next sg) (sg_pending sg)). x \<le> y) \<and>
     set rs \<union> set (drop (sg_next sg) (sg_pending sg)) = set ps \<union> set cs"

definition records_ok :: "singles \<Rightarrow> fp_record list \<Rightarrow> fp_record list \<Rightarrow> bool" where
  "records_ok sg ps cs \<longleftrightarrow>
     sorted_wrt (<) cs \<and> sg_carried sg = (if cs = [] then None else Some (last cs)) \<and>
     (if sg_sealed sg then
        \<exists>rs. holds_pending sg ps cs rs \<and> cs \<noteq> [] \<and> (\<forall>x\<in>set rs. x \<le> last cs)
      else sg_pending sg = ps \<and> sg_next sg = 0 \<and> sg_encoder sg = fp_encoder_default \<and> cs = [])"

lemma dedup_strict: "sorted xs \<Longrightarrow> sorted_wrt (<) (remdups_adj xs)" for xs :: "'a::linorder list"
  by (induction xs rule: remdups_adj.induct) (auto intro: le_neq_trans)

lemmas sort_dedup_strict = dedup_strict [OF sorted_sort]

lemma records_ok_seal:
  assumes "records_ok sg ps cs"
  obtains rs where "holds_pending (singles_seal sg) ps cs rs" "\<forall>x\<in>set rs. cs \<noteq> [] \<and> x \<le> last cs"
    "sg_carried (singles_seal sg) = sg_carried sg" "sg_sealed (singles_seal sg)"
proof (cases "sg_sealed sg")
  case True
  with assms that show ?thesis by (auto simp: records_ok_def singles_seal_def)
next
  case False
  then have "holds_pending (singles_seal sg) ps cs []"
    using assms encodes_default sort_dedup_strict
    by (auto simp: records_ok_def singles_seal_def holds_pending_def encoded_records_def)
  with False that show ?thesis by (auto simp: singles_seal_def)
qed

lemma flush_below_pending:
  assumes "holds_pending sg ps cs rs"
  obtains rs' where "holds_pending (flush_below bound sg) ps cs rs'"
    "case bound of
       None \<Rightarrow> sg_pending (flush_below bound sg) = []
     | Some b \<Rightarrow> (\<forall>x\<in>set rs'. x \<in> set rs \<or> x < b) \<and>
         (\<forall>y\<in>set (drop (sg_next (flush_below bound sg)) (sg_pending (flush_below bound sg))). b \<le> y)"
    "sg_sealed (flush_below bound sg) = sg_sealed sg"
proof -
  have pre: "encoded_records sg rs" "sg_next sg \<le> length (sg_pending sg)"
    "sorted_wrt (<) (drop (sg_next sg) (sg_pending sg))"
    "\<forall>x\<in>set rs. \<forall>y\<in>set (drop (sg_next sg) (sg_pending sg)). x \<le> y"
    "set rs \<union> set (drop (sg_next sg) (sg_pending sg)) = set ps \<union> set cs"
    using assms by (simp_all add: holds_pending_def)
  define sg1 where "sg1 = flush_loop bound sg"
  from flush_loop_encoded [OF pre(1-4), of bound] obtain rs' taken rest where
    fl: "encoded_records sg1 rs'" "drop (sg_next sg) (sg_pending sg) = taken @ rest"
      "sg_next sg1 \<le> length (sg_pending sg1)" "drop (sg_next sg1) (sg_pending sg1) = rest"
      "set rs' = set rs \<union> set taken" "\<forall>x\<in>set rs'. \<forall>y\<in>set rest. x \<le> y"
      "case bound of None \<Rightarrow> rest = [] | Some b \<Rightarrow> (\<forall>x\<in>set taken. x < b) \<and> (\<forall>x\<in>set rest. b \<le> x)"
      "sg_sealed sg1 = sg_sealed sg" unfolding sg1_def by blast
  define sg2 where "sg2 = flush_below bound sg"
  have sg2: "sg2 = (if sg_next sg1 = length (sg_pending sg1) then sg1\<lparr>sg_pending := [], sg_next := 0\<rparr> else sg1)"
    by (simp add: sg2_def flush_below_def sg1_def Let_def)
  have rest: "drop (sg_next sg2) (sg_pending sg2) = rest" "sg_next sg2 \<le> length (sg_pending sg2)"
    "sg_encoder sg2 = sg_encoder sg1" "sg_sealed sg2 = sg_sealed sg" "rest = [] \<Longrightarrow> sg_pending sg2 = []"
    using fl(3,4,8) by (auto simp: sg2)
  have "sorted_wrt (<) rest" using pre(3) by (simp add: fl(2) sorted_wrt_append)
  moreover have "set rs' \<union> set rest = set ps \<union> set cs" using pre(5) by (auto simp: fl(2,5))
  ultimately have "holds_pending sg2 ps cs rs'"
    using fl(1,6) rest by (simp add: holds_pending_def encoded_records_def)
  moreover have "case bound of None \<Rightarrow> sg_pending sg2 = []
     | Some b \<Rightarrow> (\<forall>x\<in>set rs'. x \<in> set rs \<or> x < b) \<and> (\<forall>y\<in>set (drop (sg_next sg2) (sg_pending sg2)). b \<le> y)"
    using fl(5,7) rest(1,5) by (cases bound) auto
  ultimately show ?thesis using that rest(4) unfolding sg2_def by blast
qed

lemma push_record_ok:
  assumes "dw_singles w = Some sg" "records_ok sg ps cs" "push_record w fp doc = Inr w'"
  defines "r \<equiv> (fp, of_nat (doc - tw_first w))"
  obtains sg' where "w' = w\<lparr>dw_singles := Some sg'\<rparr>" "records_ok sg' ps (cs @ [r])" "tw_first w \<le> doc" "doc \<le> tw_last w"
proof -
  from records_ok_seal [OF assms(2)] obtain rs where seal: "holds_pending (singles_seal sg) ps cs rs"
    "\<forall>x\<in>set rs. cs \<noteq> [] \<and> x \<le> last cs" "sg_carried (singles_seal sg) = sg_carried sg" "sg_sealed (singles_seal sg)" .
  define sg1 where "sg1 = flush_below (Some r) (singles_seal sg)"
  from flush_below_pending [OF seal(1), of "Some r"] obtain rs' where
    fl: "holds_pending sg1 ps cs rs'" "\<forall>x\<in>set rs'. x \<in> set rs \<or> x < r"
      "\<forall>y\<in>set (drop (sg_next sg1) (sg_pending sg1)). r \<le> y" "sg_sealed sg1"
    unfolding sg1_def option.case using seal(4) by blast
  define sg' where "sg' = sg1\<lparr>sg_encoder := snd (fe_push (sg_encoder sg1) (fst r) (snd r)), sg_carried := Some r\<rparr>"
  have "push_record w fp doc =
    (if \<not> (tw_first w \<le> doc \<and> doc \<le> tw_last w) then Inl (DocRange doc)
     else if (case sg_carried sg of None \<Rightarrow> False | Some carried \<Rightarrow> r \<le> carried) then Inl RecordOrder
     else Inr (w\<lparr>dw_singles := Some sg'\<rparr>))"
    by (simp only: push_record_def assms(1) option.case Let_def r_def sg'_def sg1_def)
  with assms(3) have range: "tw_first w \<le> doc" "doc \<le> tw_last w" and w': "w' = w\<lparr>dw_singles := Some sg'\<rparr>"
    and carried: "case sg_carried sg of None \<Rightarrow> True | Some c \<Rightarrow> c < r"
    by (auto simp: not_le split: if_splits option.splits)
  have cs: "\<forall>c\<in>set cs. c < r"
  proof (cases cs rule: rev_cases)
    case (snoc cs' c)
    then have "c < r" using carried assms(2) by (simp add: records_ok_def)
    with assms(2) snoc show ?thesis by (auto simp: records_ok_def sorted_wrt_append intro: order_less_trans)
  qed simp
  have "\<forall>x\<in>set rs. x < r" using seal(2) cs by (meson last_in_set order_le_less_trans)
  with fl(2) have below: "\<forall>x\<in>set rs'. x < r" by blast
  from fl(1) have enc: "encodes [] (sg_encoder sg1) rs'" "sorted_wrt (<) rs'" by (simp_all add: holds_pending_def encoded_records_def)
  have le: "\<forall>x\<in>set rs'. x \<le> r" using below by (auto intro: order_less_imp_le)
  note top = add_record_top [OF enc(2) le]
  have "encoded_records sg' (add_record rs' r)"
    using fe_push_add_record [OF enc(1), of r] top(1) by (simp add: encoded_records_def sg'_def)
  with fl(1,3) top(2) have "holds_pending sg' ps (cs @ [r]) (add_record rs' r)"
    by (auto simp: holds_pending_def sg'_def)
  moreover have "sorted_wrt (<) (cs @ [r])" using cs assms(2) by (simp add: records_ok_def sorted_wrt_append)
  moreover have "\<forall>x\<in>set (add_record rs' r). x \<le> r" using le by (simp add: top(2))
  ultimately have "records_ok sg' ps (cs @ [r])" using fl(4) by (auto simp: records_ok_def sg'_def)
  with that w' range show ?thesis by blast
qed

lemma seal_records_ok:
  assumes "records_ok sg ps cs"
  shows "encodes [] (sg_encoder (flush_below None (singles_seal sg))) (sorted_list_of_set (set ps \<union> set cs))"
proof -
  from records_ok_seal [OF assms] obtain rs where "holds_pending (singles_seal sg) ps cs rs" .
  from flush_below_pending [OF this, of None] obtain rs' where
    fl: "holds_pending (flush_below None (singles_seal sg)) ps cs rs'" "sg_pending (flush_below None (singles_seal sg)) = []"
    by auto
  then have rs': "encodes [] (sg_encoder (flush_below None (singles_seal sg))) rs'" "sorted_wrt (<) rs'" "set rs' = set ps \<union> set cs"
    by (simp_all add: holds_pending_def encoded_records_def)
  then have "rs' = sorted_list_of_set (set ps \<union> set cs)" using sorted_list_of_set.idem_if_sorted_distinct [of rs'] by (simp add: strict_sorted_iff)
  with rs'(1) show ?thesis by simp
qed

section \<open>A run of the writer\<close>

text \<open>Calls of a writer, in any order. A refused call leaves the writer as it was; a run
  collects the calls that were accepted.\<close>

datatype writer_call = Call_push bytes "nat list" | Call_record u32 nat

fun make_call :: "pfor \<Rightarrow> (bytes \<Rightarrow> u32) \<Rightarrow> dict_writer \<Rightarrow> writer_call \<Rightarrow> write_error + dict_writer" where
  "make_call pf fingerprint w (Call_push t docs) =
     (case dict_push pf fingerprint w t docs of Inl e \<Rightarrow> Inl e | Inr (w, _) \<Rightarrow> Inr w)"
| "make_call pf fingerprint w (Call_record fp doc) = push_record w fp doc"

fun run_calls :: "pfor \<Rightarrow> (bytes \<Rightarrow> u32) \<Rightarrow> dict_writer \<Rightarrow> writer_call list \<Rightarrow> dict_writer \<times> writer_call list" where
  "run_calls pf fingerprint w [] = (w, [])"
| "run_calls pf fingerprint w (c # cs) =
     (case make_call pf fingerprint w c of
        Inl _ \<Rightarrow> run_calls pf fingerprint w cs
      | Inr w \<Rightarrow> (let (w, accepted) = run_calls pf fingerprint w cs in (w, c # accepted)))"

definition call_terms :: "writer_call list \<Rightarrow> dentry list" where
  "call_terms cs = List.map_filter (\<lambda>c. case c of Call_push t docs \<Rightarrow> Some (t, docs) | _ \<Rightarrow> None) cs"

definition call_records :: "writer_call list \<Rightarrow> (u32 \<times> nat) list" where
  "call_records cs = List.map_filter (\<lambda>c. case c of Call_record fp doc \<Rightarrow> Some (fp, doc) | _ \<Rightarrow> None) cs"

lemma calls_simps [simp]:
  "call_terms [] = []" "call_terms (cs @ [Call_push t docs]) = call_terms cs @ [(t, docs)]"
  "call_terms (cs @ [Call_record fp doc]) = call_terms cs"
  "call_records [] = []" "call_records (cs @ [Call_push t docs]) = call_records cs"
  "call_records (cs @ [Call_record fp doc]) = call_records cs @ [(fp, doc)]"
  by (simp_all add: call_terms_def call_records_def map_filter_def)

definition carried_records :: "dict_writer \<Rightarrow> writer_call list \<Rightarrow> fp_record list" where
  "carried_records w cs = map (\<lambda>(fp, doc). (fp, of_nat (doc - tw_first w))) (call_records cs)"

definition writer_inv :: "pfor \<Rightarrow> (bytes \<Rightarrow> u32) \<Rightarrow> dict_writer \<Rightarrow> writer_call list \<Rightarrow> bool" where
  "writer_inv pf fingerprint w cs \<longleftrightarrow>
     lays_out pf w \<and> accepted_terms w \<and> tw_out w = call_terms cs \<and>
     dw_pairs w = sum_list (map (length \<circ> snd) (dict_entries w)) \<and>
     (\<forall>(fp, doc)\<in>set (call_records cs). tw_first w \<le> doc \<and> doc \<le> tw_last w) \<and>
     (case dw_singles w of
        None \<Rightarrow> dw_codec w = dictionary_codec \<and> call_records cs = []
      | Some sg \<Rightarrow> dw_codec w = fingerprint_codec \<and> records_ok sg (demoted fingerprint w) (carried_records w cs))"

lemma writer_inv_unspilled: "writer_inv pf fingerprint w cs \<Longrightarrow> dw_spill w = None"
  by (simp add: writer_inv_def lays_out_def Let_def)

lemma writer_inv_build:
  "writer_build first_doc last_doc version codec_id = Inr w \<Longrightarrow> writer_inv pf fingerprint w []"
  by (auto simp: writer_build_def writer_inv_def lays_out_def accepted_terms_def dict_entries_def blocks_of_def Let_def
      demoted_def carried_records_def records_ok_def singles_default_def split: if_splits)

lemma demoted_push:
  assumes "tw_out w' = tw_out w @ [(t, docs)]" "tw_first w' = tw_first w" "dw_singles w' = None \<longleftrightarrow> dw_singles w = None"
  shows "demoted fingerprint w' = demoted fingerprint w @
    (if dw_singles w \<noteq> None \<and> length docs = 1 then [(fingerprint t, of_nat (hd docs - tw_first w))] else [])"
  using assms by (simp add: demoted_def)

lemma writer_inv_push:
  assumes inv: "writer_inv pf fingerprint w cs" and push: "dict_push pf fingerprint w t docs = Inr (w', n)"
  shows "writer_inv pf fingerprint w' (cs @ [Call_push t docs])"
proof -
  have lays: "lays_out pf w" and acc: "accepted_terms w" and out: "tw_out w = call_terms cs"
    and pairs: "dw_pairs w = sum_list (map (length \<circ> snd) (dict_entries w))"
    and range: "\<forall>(fp, doc)\<in>set (call_records cs). tw_first w \<le> doc \<and> doc \<le> tw_last w"
    and singles: "case dw_singles w of None \<Rightarrow> dw_codec w = dictionary_codec \<and> call_records cs = []
      | Some sg \<Rightarrow> dw_codec w = fingerprint_codec \<and> records_ok sg (demoted fingerprint w) (carried_records w cs)"
    using inv by (auto simp: writer_inv_def)
  note step = dict_push_out [OF push lays]
  note acc' = writer_push_accepted [OF step(1) acc]
  have carried: "carried_records w' (cs @ [Call_push t docs]) = carried_records w cs"
    by (simp add: carried_records_def acc'(3))
  note base = writer_inv_def acc'(2-4) out carried calls_simps
  consider (single) sg doc where "dw_singles w = Some sg" "\<not> sg_sealed sg" "docs = [doc]"
        "w' = remember (w\<lparr>dw_singles := Some (sg\<lparr>sg_pending := sg_pending sg @ [(fingerprint t, of_nat (doc - tw_first w))]\<rparr>),
                         dw_singletons := dw_singletons w + 1\<rparr>) t docs"
    | (entry) "dw_singles w = None \<or> length docs \<noteq> 1" "entry_pushed pf w t docs w'"
    using dict_push_cases(2) [OF push lays] by blast
  then show ?thesis
  proof cases
    case sg: single
    then have w': "dw_singles w' = Some (sg\<lparr>sg_pending := sg_pending sg @ [(fingerprint t, of_nat (doc - tw_first w))]\<rparr>)"
      "dw_codec w' = dw_codec w" "dw_pairs w' = dw_pairs w" by (simp_all add: remember_def)
    have dem: "demoted fingerprint w' = demoted fingerprint w @ [(fingerprint t, of_nat (doc - tw_first w))]"
      using demoted_push [OF acc'(2,3), of fingerprint] by (simp add: w'(1) sg(1,3))
    have "dict_entries w' = dict_entries w" using acc'(2) by (simp add: dict_entries_def w'(1) sg(1,3))
    then show ?thesis using pairs range singles sg(2) step(2) acc'(1) unfolding base by (simp add: w' dem sg(1) records_ok_def)
  next
    case entry
    note kept = entry(1) and pushed = entry(2)
    then have w': "dw_singles w' = dw_singles w" "dw_codec w' = dw_codec w" "dw_pairs w' = dw_pairs w + length docs"
      by (simp_all add: entry_pushed_def)
    have dem: "demoted fingerprint w' = demoted fingerprint w"
      using demoted_push [OF acc'(2,3), of fingerprint] kept by (auto simp: w'(1))
    have "dict_entries w' = dict_entries w @ [(t, docs)]" by (rule entry_pushed_entries [OF pushed kept])
    then show ?thesis using pairs range singles step(2) acc'(1) unfolding base w' dem by simp
  qed
qed

lemma writer_inv_record:
  assumes inv: "writer_inv pf fingerprint w cs" and push: "push_record w fp doc = Inr w'"
  shows "writer_inv pf fingerprint w' (cs @ [Call_record fp doc])"
proof -
  from push obtain sg where sg: "dw_singles w = Some sg" by (auto simp: push_record_def split: option.splits)
  with inv have ok: "records_ok sg (demoted fingerprint w) (carried_records w cs)" by (simp add: writer_inv_def)
  from push_record_ok [OF sg ok push] obtain sg' where w': "w' = w\<lparr>dw_singles := Some sg'\<rparr>"
    and ok': "records_ok sg' (demoted fingerprint w) (carried_records w cs @ [(fp, of_nat (doc - tw_first w))])"
    and range: "tw_first w \<le> doc" "doc \<le> tw_last w" .
  have same: "demoted fingerprint w' = demoted fingerprint w" "dict_entries w' = dict_entries w"
    "lays_out pf w' = lays_out pf w" "accepted_terms w' = accepted_terms w"
    "carried_records w' (cs @ [Call_record fp doc]) = carried_records w cs @ [(fp, of_nat (doc - tw_first w))]"
    by (simp_all add: w' sg demoted_def dict_entries_def lays_out_def Let_def accepted_terms_def carried_records_def
        term_writer.truncate_def)
  show ?thesis using inv ok' range unfolding writer_inv_def same by (simp add: w' sg)
qed

lemma run_calls_inv:
  "writer_inv pf fingerprint w before \<Longrightarrow> run_calls pf fingerprint w cs = (w', accepted) \<Longrightarrow>
   writer_inv pf fingerprint w' (before @ accepted)"
proof (induction cs arbitrary: w before accepted)
  case (Cons c cs)
  show ?case
  proof (cases "make_call pf fingerprint w c")
    case (Inl e)
    with Cons show ?thesis by simp
  next
    case (Inr w1)
    then have "writer_inv pf fingerprint w1 (before @ [c])"
      using Cons.prems(1) by (cases c) (auto split: sum.splits intro: writer_inv_push writer_inv_record)
    moreover obtain later where "run_calls pf fingerprint w1 cs = (w', later)" "accepted = c # later"
      using Cons.prems(2) Inr by (auto split: prod.splits)
    ultimately show ?thesis using Cons.IH by fastforce
  qed
qed simp

end
