(* ===== verification/Block_Index.thy ===== *)
theory Block_Index
  imports Dictionary "HOL-Library.Monad_Syntax"
begin

text \<open>
  The resident block index of a segment (\<open>segment/read/block_index.rs\<close>, and \<open>first_term\<close> and
  \<open>locate\<close> of \<open>segment/read.rs\<close>): its bytes hold, per dictionary block, the block's first term and
  the lengths of the block before it; parsing checks them and keeps the place of every sixteenth
  block, from which a lookup steps forward.

  Results: the index of blocks whose first terms increase parses, its samples are the places of the
  blocks, and \<open>locate\<close> finds the last block whose first term is not after the term looked up.
\<close>

section \<open>The block index\<close>

record place =
  bp_at :: nat
  bp_start :: nat
  bp_postings :: nat

definition sample_every :: nat where "sample_every = 16"

definition index_term :: "bytes \<Rightarrow> nat \<Rightarrow> (bytes \<times> nat) option" where
  "index_term bs at = do {
     (len, at) \<leftarrow> take_nat bs at;
     stop \<leftarrow> checked_add_u64 at len;
     t \<leftarrow> slice bs at stop;
     Some (t, at + len) }"

definition next_place :: "bytes \<Rightarrow> place \<Rightarrow> place option" where
  "next_place bs p = do {
     (_, at) \<leftarrow> index_term bs (bp_at p);
     (_, at) \<leftarrow> take_nat bs at;
     (_, at) \<leftarrow> take_nat bs at;
     let here = at;
     (_, at) \<leftarrow> index_term bs at;
     (step, at) \<leftarrow> take_nat bs at;
     (postings_step, at) \<leftarrow> take_nat bs at;
     start \<leftarrow> checked_add_u64 (bp_start p) step;
     postings \<leftarrow> checked_add_u64 (bp_postings p) postings_step;
     Some \<lparr>bp_at = here, bp_start = start, bp_postings = postings\<rparr> }"

fun bytes_before :: "bytes \<Rightarrow> bytes \<Rightarrow> bool" where
  "bytes_before (x # a) (y # b) = (if x \<noteq> y then x < y else bytes_before a b)"
| "bytes_before [] b = (b \<noteq> [])"
| "bytes_before a [] = False"

fun parse_index_loop ::
  "bytes \<Rightarrow> nat \<Rightarrow> nat \<Rightarrow> nat list \<Rightarrow> nat \<Rightarrow> nat \<Rightarrow> nat \<Rightarrow> bytes \<Rightarrow> place list \<Rightarrow> (nat \<times> place list) option"
where
  "parse_index_loop bs blocks_len postings_len [] at start postings previous samples = Some (at, samples)"
| "parse_index_loop bs blocks_len postings_len (b # todo) at start postings previous samples =
     (case index_term bs at of
        None \<Rightarrow> None
      | Some (t, at1) \<Rightarrow>
          (case take_nat bs at1 of
             None \<Rightarrow> None
           | Some (step, at2) \<Rightarrow>
               (case take_nat bs at2 of
                  None \<Rightarrow> None
                | Some (postings_step, at3) \<Rightarrow>
                    if b = 0 \<and> (step, postings_step) \<noteq> (0, 0) \<or> 0 < b \<and> (step = 0 \<or> \<not> bytes_before previous t) then None
                    else
                      (case (checked_add_u64 start step, checked_add_u64 postings postings_step) of
                         (Some start, Some postings) \<Rightarrow>
                           if blocks_len \<le> start \<or> postings_len < postings then None
                           else parse_index_loop bs blocks_len postings_len todo at3 start postings t
                                  (if b mod sample_every = 0
                                   then samples @ [\<lparr>bp_at = at, bp_start = start, bp_postings = postings\<rparr>] else samples)
                       | _ \<Rightarrow> None))))"

definition parse_index :: "bytes \<Rightarrow> nat \<Rightarrow> nat \<Rightarrow> nat \<Rightarrow> place list option" where
  "parse_index bs terms blocks_len postings_len =
     (let count = div_ceil terms block_terms in
      if length bs < count then None
      else
        (case parse_index_loop bs blocks_len postings_len [0..<count] 0 0 0 [] [] of
           None \<Rightarrow> None
         | Some (at, samples) \<Rightarrow>
             if at = length bs \<and> (0 < count \<or> blocks_len = 0 \<and> postings_len = 0) then Some samples else None))"

definition first_term :: "bytes \<Rightarrow> place \<Rightarrow> bytes" where
  "first_term bs p = (case index_term bs (bp_at p) of Some (t, _) \<Rightarrow> t | None \<Rightarrow> [])"

function locate_loop :: "bytes \<Rightarrow> bytes \<Rightarrow> nat \<Rightarrow> place \<Rightarrow> nat \<Rightarrow> nat \<times> place" where
  "locate_loop bs t block p stop =
     (if block + 1 < stop then
        (case next_place bs p of
           None \<Rightarrow> (block, p)
         | Some q \<Rightarrow> if t < first_term bs q then (block, p) else locate_loop bs t (block + 1) q stop)
      else (block, p))"
  by pat_completeness auto
termination
  by (relation "measure (\<lambda>(bs, t, block, p, stop). stop - block)") auto

declare locate_loop.simps [simp del]

definition locate :: "bytes \<Rightarrow> place list \<Rightarrow> nat \<Rightarrow> bytes \<Rightarrow> (nat \<times> place) option" where
  "locate bs samples blocks t =
     (case checked_sub (partition_point (\<lambda>p. first_term bs p \<le> t) samples) 1 of
        None \<Rightarrow> None
      | Some sample \<Rightarrow>
          (let block = sample * sample_every in
           Some (locate_loop bs t block (samples ! sample) (min (block + sample_every) blocks))))"

section \<open>Places in an index\<close>

text \<open>An index as data: per block its first term and the steps to its start from the block before.\<close>

type_synonym index_item = "bytes \<times> nat \<times> nat"

abbreviation item_bytes :: "index_item \<Rightarrow> bytes" where
  "item_bytes x \<equiv> index_entry (fst x) (fst (snd x)) (snd (snd x))"

definition index_of :: "index_item list \<Rightarrow> bytes" where
  "index_of xs = concat (map item_bytes xs)"

definition steps_sum :: "index_item list \<Rightarrow> nat" where
  "steps_sum xs = sum_list (map (fst \<circ> snd) xs)"

definition postings_sum :: "index_item list \<Rightarrow> nat" where
  "postings_sum xs = sum_list (map (snd \<circ> snd) xs)"

definition place_at :: "index_item list \<Rightarrow> nat \<Rightarrow> place" where
  "place_at xs i =
     \<lparr>bp_at = length (index_of (take i xs)), bp_start = steps_sum (take (Suc i) xs), bp_postings = postings_sum (take (Suc i) xs)\<rparr>"

definition index_ok :: "index_item list \<Rightarrow> nat \<Rightarrow> nat \<Rightarrow> bool" where
  "index_ok xs blocks_len postings_len \<longleftrightarrow>
     sorted_wrt (<) (map fst xs) \<and> (\<forall>i<length xs. fst (snd (xs ! i)) = 0 \<longleftrightarrow> i = 0) \<and>
     (xs \<noteq> [] \<longrightarrow> snd (snd (hd xs)) = 0 \<and> steps_sum xs < blocks_len) \<and> postings_sum xs \<le> postings_len \<and>
     blocks_len < 2 ^ 64 \<and> postings_len < 2 ^ 64 \<and> length (index_of xs) < 2 ^ 64"

lemma index_of_simps [simp]:
  "index_of [] = []" "index_of (x # xs) = item_bytes x @ index_of xs" "index_of (xs @ ys) = index_of xs @ index_of ys"
  by (simp_all add: index_of_def)

lemma sums_simps [simp]:
  "steps_sum [] = 0" "steps_sum (x # xs) = fst (snd x) + steps_sum xs" "steps_sum (xs @ ys) = steps_sum xs + steps_sum ys"
  "postings_sum [] = 0" "postings_sum (x # xs) = snd (snd x) + postings_sum xs"
  "postings_sum (xs @ ys) = postings_sum xs + postings_sum ys"
  by (simp_all add: steps_sum_def postings_sum_def)

lemma take_prefix_le:
  "steps_sum (take i xs) \<le> steps_sum xs" "postings_sum (take i xs) \<le> postings_sum xs" "length (index_of (take i xs)) \<le> length (index_of xs)"
  by (metis append_take_drop_id sums_simps(3,6) index_of_simps(3) length_append le_add1)+

lemma item_at:
  assumes "i < length xs"
  shows "holds_at (index_of xs) (length (index_of (take i xs))) (item_bytes (xs ! i))"
proof -
  have "index_of xs = index_of (take i xs) @ item_bytes (xs ! i) @ index_of (drop (Suc i) xs)"
    using id_take_nth_drop [OF assms] by (metis index_of_simps(2,3))
  then show ?thesis unfolding holds_at_iff by blast
qed

text \<open>The reads of one item.\<close>

lemma item_reads:
  assumes ok: "index_ok xs blocks_len postings_len" and i: "i < length xs"
  obtains at1 at2 where
    "index_term (index_of xs) (length (index_of (take i xs))) = Some (fst (xs ! i), at1)"
    "take_nat (index_of xs) at1 = Some (fst (snd (xs ! i)), at2)"
    "take_nat (index_of xs) at2 = Some (snd (snd (xs ! i)), length (index_of (take (Suc i) xs)))"
proof -
  let ?bs = "index_of xs" and ?a = "length (index_of (take i xs))" and ?x = "xs ! i"
  let ?a1 = "?a + length (put_nat (length (fst ?x)))"
  let ?a2 = "?a1 + length (fst ?x)"
  let ?a3 = "?a2 + length (put_nat (fst (snd ?x)))"
  have h: "holds_at ?bs ?a (put_nat (length (fst ?x)))" "holds_at ?bs ?a1 (fst ?x)"
    "holds_at ?bs ?a2 (put_nat (fst (snd ?x)))" "holds_at ?bs ?a3 (put_nat (snd (snd ?x)))"
    using item_at [OF i] by (simp_all add: index_entry_def holds_at_append add.assoc)
  have mem: "steps_sum (take (Suc i) xs) = steps_sum (take i xs) + fst (snd ?x)"
    "postings_sum (take (Suc i) xs) = postings_sum (take i xs) + snd (snd ?x)"
    "length (index_of (take (Suc i) xs)) = ?a3 + length (put_nat (snd (snd ?x)))"
    using i by (simp_all add: take_Suc_conv_app_nth index_entry_def)
  have "xs \<noteq> []" using i by auto
  with ok have sums: "steps_sum xs < 2 ^ 64" "postings_sum xs < 2 ^ 64" "length ?bs < 2 ^ 64" by (auto simp: index_ok_def)
  have term_end: "?a2 \<le> length ?bs" using holds_at_length [OF h(2)] .
  then have small: "length (fst ?x) < 2 ^ 64" "fst (snd ?x) < 2 ^ 64" "snd (snd ?x) < 2 ^ 64" "?a1 + length (fst ?x) < 2 ^ 64"
    using sums mem(1,2) take_prefix_le(1,2) [of "Suc i" xs] by linarith+
  have "slice ?bs ?a1 (?a1 + length (fst ?x)) = Some (fst ?x)" using h(2) by (simp add: holds_at_def)
  then have "index_term ?bs ?a = Some (fst ?x, ?a2)"
    unfolding index_term_def take_nat_holds [OF h(1) small(1)] using small(4) by (simp add: checked_add_u64_def)
  from that [OF this take_nat_holds [OF h(3) small(2)]] take_nat_holds [OF h(4) small(3)] mem(3) show ?thesis by simp
qed

lemma first_term_at: "index_ok xs blocks_len postings_len \<Longrightarrow> i < length xs \<Longrightarrow> first_term (index_of xs) (place_at xs i) = fst (xs ! i)"
  by (auto simp: first_term_def place_at_def elim: item_reads)

lemma next_place_at:
  assumes ok: "index_ok xs blocks_len postings_len" and i: "Suc i < length xs"
  shows "next_place (index_of xs) (place_at xs i) = Some (place_at xs (Suc i))"
proof -
  from item_reads [OF ok Suc_lessD [OF i]] obtain a1 a2 where
    r: "index_term (index_of xs) (length (index_of (take i xs))) = Some (fst (xs ! i), a1)"
      "take_nat (index_of xs) a1 = Some (fst (snd (xs ! i)), a2)"
      "take_nat (index_of xs) a2 = Some (snd (snd (xs ! i)), length (index_of (take (Suc i) xs)))" .
  from item_reads [OF ok i] obtain b1 b2 where
    s: "index_term (index_of xs) (length (index_of (take (Suc i) xs))) = Some (fst (xs ! Suc i), b1)"
      "take_nat (index_of xs) b1 = Some (fst (snd (xs ! Suc i)), b2)"
      "take_nat (index_of xs) b2 = Some (snd (snd (xs ! Suc i)), length (index_of (take (Suc (Suc i)) xs)))" .
  have sums: "steps_sum (take (Suc (Suc i)) xs) = steps_sum (take (Suc i) xs) + fst (snd (xs ! Suc i))"
    "postings_sum (take (Suc (Suc i)) xs) = postings_sum (take (Suc i) xs) + snd (snd (xs ! Suc i))"
    using i by (simp_all add: take_Suc_conv_app_nth)
  have "xs \<noteq> []" using i by auto
  with ok have "steps_sum xs < 2 ^ 64" "postings_sum xs < 2 ^ 64" by (auto simp: index_ok_def)
  then have "checked_add_u64 (steps_sum (take (Suc i) xs)) (fst (snd (xs ! Suc i))) = Some (steps_sum (take (Suc (Suc i)) xs))"
    "checked_add_u64 (postings_sum (take (Suc i) xs)) (snd (snd (xs ! Suc i))) = Some (postings_sum (take (Suc (Suc i)) xs))"
    using take_prefix_le(1,2) [of "Suc (Suc i)" xs] by (simp_all add: checked_add_u64_def sums)
  with r s show ?thesis unfolding next_place_def by (simp add: place_at_def)
qed

section \<open>Parsing\<close>

lemma Nil_less_iff: "[] < b \<longleftrightarrow> b \<noteq> []" for b :: bytes
  by (cases b) simp_all

lemma bytes_before_less: "bytes_before a b \<longleftrightarrow> a < b"
  by (induction a b rule: bytes_before.induct) (auto simp: Nil_less_iff)

definition previous_term :: "index_item list \<Rightarrow> nat \<Rightarrow> bytes" where
  "previous_term xs i = (case i of 0 \<Rightarrow> [] | Suc j \<Rightarrow> fst (xs ! j))"

lemma parse_index_loop_at:
  assumes ok: "index_ok xs blocks_len postings_len" and n: "n = length xs" and k: "k \<le> n"
  shows "parse_index_loop (index_of xs) blocks_len postings_len [k..<n] (length (index_of (take k xs)))
      (steps_sum (take k xs)) (postings_sum (take k xs)) (previous_term xs k) samples =
    Some (length (index_of xs), samples @ map (place_at xs) (filter (\<lambda>b. b mod sample_every = 0) [k..<n]))"
  using k
proof (induction "n - k" arbitrary: k samples)
  case 0
  then show ?case by (simp add: n)
next
  case (Suc m)
  then have k: "k < n" by simp
  from item_reads [OF ok k [unfolded n]] obtain a1 a2 where
    r: "index_term (index_of xs) (length (index_of (take k xs))) = Some (fst (xs ! k), a1)"
      "take_nat (index_of xs) a1 = Some (fst (snd (xs ! k)), a2)"
      "take_nat (index_of xs) a2 = Some (snd (snd (xs ! k)), length (index_of (take (Suc k) xs)))" .
  have sums: "steps_sum (take (Suc k) xs) = steps_sum (take k xs) + fst (snd (xs ! k))"
    "postings_sum (take (Suc k) xs) = postings_sum (take k xs) + snd (snd (xs ! k))"
    using k by (simp_all add: n take_Suc_conv_app_nth)
  have "xs \<noteq> []" using k n by auto
  with ok have whole: "steps_sum xs < blocks_len" "postings_sum xs \<le> postings_len" "blocks_len < 2 ^ 64" "postings_len < 2 ^ 64"
    by (auto simp: index_ok_def)
  note le = take_prefix_le(1,2) [of "Suc k" xs]
  have added: "checked_add_u64 (steps_sum (take k xs)) (fst (snd (xs ! k))) = Some (steps_sum (take (Suc k) xs))"
    "checked_add_u64 (postings_sum (take k xs)) (snd (snd (xs ! k))) = Some (postings_sum (take (Suc k) xs))"
    "\<not> (blocks_len \<le> steps_sum (take (Suc k) xs) \<or> postings_len < postings_sum (take (Suc k) xs))"
    using whole le by (simp_all add: checked_add_u64_def sums)
  have guard: "\<not> (k = 0 \<and> (fst (snd (xs ! k)), snd (snd (xs ! k))) \<noteq> (0, 0) \<or>
      0 < k \<and> (fst (snd (xs ! k)) = 0 \<or> \<not> bytes_before (previous_term xs k) (fst (xs ! k))))"
  proof (cases k)
    case 0
    then show ?thesis using ok k \<open>xs \<noteq> []\<close> by (auto simp: index_ok_def n hd_conv_nth)
  next
    case (Suc j)
    then have "fst (xs ! j) < fst (xs ! k)" using ok k by (auto simp: index_ok_def n sorted_wrt_iff_nth_less)
    moreover have "fst (snd (xs ! k)) \<noteq> 0" using ok k Suc by (auto simp: index_ok_def n)
    ultimately show ?thesis by (simp add: Suc previous_term_def bytes_before_less)
  qed
  let ?samples = "if k mod sample_every = 0 then samples @ [place_at xs k] else samples"
  have "parse_index_loop (index_of xs) blocks_len postings_len [k..<n] (length (index_of (take k xs)))
      (steps_sum (take k xs)) (postings_sum (take k xs)) (previous_term xs k) samples =
    parse_index_loop (index_of xs) blocks_len postings_len [Suc k..<n] (length (index_of (take (Suc k) xs)))
      (steps_sum (take (Suc k) xs)) (postings_sum (take (Suc k) xs)) (previous_term xs (Suc k)) ?samples"
    unfolding upt_conv_Cons [OF k] parse_index_loop.simps r option.case prod.case if_not_P [OF guard] added
      if_not_P [OF added(3)] by (simp only: place_at_def previous_term_def nat.case)
  also have "\<dots> = Some (length (index_of xs), ?samples @ map (place_at xs) (filter (\<lambda>b. b mod sample_every = 0) [Suc k..<n]))"
    by (rule Suc.hyps(1)) (use Suc.hyps(2) k in simp_all)
  finally show ?case by (simp add: upt_conv_Cons [OF k])
qed

definition index_samples :: "index_item list \<Rightarrow> place list" where
  "index_samples xs = map (\<lambda>i. place_at xs (i * sample_every)) [0..<div_ceil (length xs) sample_every]"

lemma div_ceil_less: "0 < b \<Longrightarrow> i < div_ceil a b \<longleftrightarrow> i * b < a"
proof -
  assume b: "0 < b"
  have "i < div_ceil a b \<longleftrightarrow> Suc i * b \<le> a + b - 1"
    unfolding div_ceil_def Suc_le_eq [symmetric] by (rule less_eq_div_iff_mult_less_eq [OF b])
  also have "\<dots> \<longleftrightarrow> i * b < a" using b by (simp only: mult_Suc) linarith
  finally show ?thesis .
qed

lemma div_ceil_Suc:
  assumes "0 < b"
  shows "div_ceil (Suc n) b = div_ceil n b + (if n mod b = 0 then 1 else 0)" "n mod b = 0 \<Longrightarrow> div_ceil n b * b = n"
proof -
  have n: "Suc n + b - 1 = n + b" "n + b - 1 = (if n mod b = 0 then b - 1 + n else n - 1 + b)"
    using assms by (cases n; auto)+
  have "(n - 1) div b = n div b" if "n mod b \<noteq> 0"
    using that by (metis Suc_pred div_Suc mod_0 gr0I mod_Suc One_nat_def)
  moreover have "(b - 1 + n) div b = n div b" if "n mod b = 0"
  proof -
    from that have "n = n div b * b" by (metis add.right_neutral div_mult_mod_eq)
    then have "(b - 1 + n) div b = n div b + (b - 1) div b" using assms by (metis div_mult_self1 less_not_refl2)
    with assms show ?thesis by simp
  qed
  ultimately show "div_ceil (Suc n) b = div_ceil n b + (if n mod b = 0 then 1 else 0)" "n mod b = 0 \<Longrightarrow> div_ceil n b * b = n"
    using assms unfolding div_ceil_def n by (auto simp: div_add_self2)
qed

lemma every_sixteenth: "filter (\<lambda>b. b mod sample_every = 0) [0..<n] = map (\<lambda>i. i * sample_every) [0..<div_ceil n sample_every]"
proof (induction n)
  case (Suc n)
  have pos: "0 < sample_every" by (simp add: sample_every_def)
  from Suc div_ceil_Suc [OF pos, of n] show ?case by auto
qed (simp add: div_ceil_def sample_every_def)

lemma parse_index_ok:
  assumes ok: "index_ok xs blocks_len postings_len" and count: "div_ceil terms block_terms = length xs"
    and empty: "xs = [] \<Longrightarrow> blocks_len = 0 \<and> postings_len = 0"
  shows "parse_index (index_of xs) terms blocks_len postings_len = Some (index_samples xs)"
proof -
  have "1 \<le> length (item_bytes x)" for x
    using length_put(1) [of "of_nat (length (fst x))"] unfolding index_entry_def length_append by linarith
  then have "length xs \<le> length (index_of xs)"
  proof (induction xs)
    case (Cons x xs)
    from Cons.IH [OF Cons.prems] Cons.prems [of x] show ?case by simp
  qed simp
  then have len: "\<not> length (index_of xs) < length xs" by simp
  have loop: "parse_index_loop (index_of xs) blocks_len postings_len [0..<length xs] 0 0 0 [] [] =
      Some (length (index_of xs), index_samples xs)"
    using parse_index_loop_at [OF ok refl, of 0 "[]"] by (simp add: previous_term_def every_sixteenth index_samples_def o_def)
  have "0 < length xs \<or> blocks_len = 0 \<and> postings_len = 0" using empty by auto
  with len show ?thesis unfolding parse_index_def Let_def count loop by simp
qed

section \<open>Locating a block\<close>

text \<open>How many blocks start at or before a term.\<close>

definition blocks_upto :: "index_item list \<Rightarrow> bytes \<Rightarrow> nat" where
  "blocks_upto xs t = partition_point (\<lambda>x. fst x \<le> t) xs"

lemma blocks_upto_le:
  assumes "index_ok xs blocks_len postings_len" "i < length xs"
  shows "i < blocks_upto xs t \<longleftrightarrow> fst (xs ! i) \<le> t"
proof -
  have mono: "fst (xs ! i) \<le> t" if "i \<le> j" "j < length xs" "fst (xs ! j) \<le> t" for i j
  proof (cases "i = j")
    case False
    then have "fst (xs ! i) < fst (xs ! j)" using assms(1) that by (simp add: index_ok_def sorted_wrt_iff_nth_less)
    with that(3) show ?thesis by simp
  qed (use that in simp)
  have "partition_point (\<lambda>x. fst x \<le> t) xs \<le> i \<longleftrightarrow> \<not> fst (xs ! i) \<le> t"
    by (rule partition_point_le [OF assms(2)]) (rule mono)
  then show ?thesis unfolding blocks_upto_def by (simp only: not_le [symmetric]) blast
qed

lemma blocks_upto_length: "blocks_upto xs t \<le> length xs"
  by (simp add: blocks_upto_def partition_point_length)

lemma locate_loop_at:
  assumes ok: "index_ok xs blocks_len postings_len"
    and "block < blocks_upto xs t" "blocks_upto xs t \<le> stop" "stop \<le> length xs"
  shows "locate_loop (index_of xs) t block (place_at xs block) stop = (blocks_upto xs t - 1, place_at xs (blocks_upto xs t - 1))"
  using assms(2-)
proof (induction "stop - block" arbitrary: block)
  case (Suc m)
  show ?case
  proof (cases "Suc block < stop")
    case True
    then have b: "Suc block < length xs" using Suc.prems(3) by simp
    note first_t = first_term_at [OF ok b] and upto = blocks_upto_le [OF ok b, of t]
    show ?thesis
    proof (cases "Suc block < blocks_upto xs t")
      case go: True
      then have "\<not> t < fst (xs ! Suc block)" using upto by simp
      then have "locate_loop (index_of xs) t block (place_at xs block) stop =
          locate_loop (index_of xs) t (Suc block) (place_at xs (Suc block)) stop"
        using True by (subst locate_loop.simps) (simp add: next_place_at [OF ok b] first_t)
      also have "\<dots> = (blocks_upto xs t - 1, place_at xs (blocks_upto xs t - 1))"
        by (rule Suc.hyps(1)) (use Suc.hyps(2) Suc.prems go in simp_all)
      finally show ?thesis .
    next
      case False
      then have "t < fst (xs ! Suc block)" "blocks_upto xs t = Suc block" using upto Suc.prems(1) by simp_all
      then show ?thesis using True by (subst locate_loop.simps) (simp add: next_place_at [OF ok b] first_t)
    qed
  next
    case False
    then have "blocks_upto xs t = Suc block" using Suc.prems by simp
    with False show ?thesis by (subst locate_loop.simps) simp
  qed
qed simp

lemma locate_ok:
  assumes ok: "index_ok xs blocks_len postings_len"
  shows "locate (index_of xs) (index_samples xs) (length xs) t =
    (if blocks_upto xs t = 0 then None else Some (blocks_upto xs t - 1, place_at xs (blocks_upto xs t - 1)))"
proof -
  let ?m = "blocks_upto xs t" and ?bs = "index_of xs" and ?count = "div_ceil (length xs) sample_every"
  define found where "found = partition_point (\<lambda>p. first_term ?bs p \<le> t) (index_samples xs)"
  have below: "i * sample_every < length xs \<longleftrightarrow> i < ?count" for i
    using div_ceil_less [of sample_every i "length xs"] by (simp add: sample_every_def)
  have sample: "first_term ?bs (index_samples xs ! i) \<le> t \<longleftrightarrow> i * sample_every < ?m" if "i < ?count" for i
    using that below [of i] first_term_at [OF ok, of "i * sample_every"] blocks_upto_le [OF ok, of "i * sample_every" t]
    by (simp add: index_samples_def)
  have found: "i < found \<longleftrightarrow> i * sample_every < ?m" if "i < ?count" for i
  proof -
    have "partition_point (\<lambda>p. first_term ?bs p \<le> t) (index_samples xs) \<le> i \<longleftrightarrow> \<not> first_term ?bs (index_samples xs ! i) \<le> t"
    proof (rule partition_point_le)
      fix i j
      assume ij: "i \<le> j" "j < length (index_samples xs)" "first_term ?bs (index_samples xs ! j) \<le> t"
      then have "j < ?count" by (simp add: index_samples_def)
      moreover have "i * sample_every \<le> j * sample_every" using ij(1) by simp
      ultimately show "first_term ?bs (index_samples xs ! i) \<le> t" using ij sample [of i] sample [of j] by linarith
    qed (use that in \<open>simp add: index_samples_def\<close>)
    with sample [OF that] show ?thesis unfolding found_def by linarith
  qed
  have found_le: "found \<le> ?count"
    using partition_point_length [of "\<lambda>p. first_term ?bs p \<le> t" "index_samples xs"] by (simp add: found_def index_samples_def)
  show ?thesis
  proof (cases "?m = 0")
    case True
    then have "found = 0" using found [of 0] found_le by (cases "?count = 0") auto
    with True show ?thesis by (simp add: locate_def found_def [symmetric] checked_sub_def)
  next
    case False
    then have "0 < length xs" using blocks_upto_length [of xs t] by linarith
    then have pos: "0 < ?count" using below [of 0] by simp
    then have "0 < found" using found [of 0] False by simp
    then have first: "(found - 1) * sample_every < ?m" using found [of "found - 1"] found_le by simp
    have last_sample: "?m \<le> found * sample_every"
    proof (cases "found < ?count")
      case True
      then show ?thesis using found [of found] by simp
    next
      case False
      then show ?thesis using found_le below [of found] blocks_upto_length [of xs t] by linarith
    qed
    let ?block = "(found - 1) * sample_every"
    have stop: "?m \<le> min (?block + sample_every) (length xs)"
      using last_sample blocks_upto_length [of xs t] \<open>0 < found\<close> by (cases found) (simp_all add: add.commute)
    have "index_samples xs ! (found - 1) = place_at xs ?block" using found_le \<open>0 < found\<close> by (simp add: index_samples_def)
    with locate_loop_at [OF ok first stop] False \<open>0 < found\<close> show ?thesis
      by (simp add: locate_def found_def [symmetric] checked_sub_def Let_def)
  qed
qed

end
