(* ===== verification/Block_Entries.thy ===== *)
theory Block_Entries
  imports Block_Index
begin

text \<open>
  The entries of one dictionary block (\<open>segment/read/streams.rs\<close>) and the scan of \<open>Segment::entry\<close>
  over them: front-coded terms, document frequencies, and the place of each postings list.

  Result: the entries of a block laid out by the writer decode to its terms in order, and the scan for
  a term finds its entry or its absence, never an error.
\<close>

section \<open>The entries of a block\<close>

text \<open>\<open>Location::Single\<close> and \<open>Location::List\<close>.\<close>

datatype location = Loc_Single nat | Loc_List nat nat

record term_entry =
  te_df :: nat
  te_location :: location

record entries =
  en_bytes :: bytes
  en_at :: nat
  en_term :: bytes
  en_remaining :: nat
  en_seen :: nat
  en_postings :: nat
  en_postings_end :: nat
  en_first :: nat
  en_span :: nat

text \<open>The term of an entry after the first: a shared prefix and a suffix that sorts after what it replaces.\<close>

definition entry_term :: "entries \<Rightarrow> entries option" where
  "entry_term e = do {
     (shared, at) \<leftarrow> take_nat (en_bytes e) (en_at e);
     (suffix, at) \<leftarrow> take_nat (en_bytes e) at;
     stop \<leftarrow> checked_add_u64 at suffix;
     tail \<leftarrow> slice (en_bytes e) at stop;
     if tail \<noteq> [] \<and> (shared = length (en_term e) \<or> shared < length (en_term e) \<and> en_term e ! shared < hd tail)
     then Some (e\<lparr>en_term := take shared (en_term e) @ tail, en_at := at + suffix\<rparr>)
     else None }"

definition entry_location :: "pfor \<Rightarrow> entries \<Rightarrow> nat \<Rightarrow> (location \<times> entries) option" where
  "entry_location pf e df =
     (if df = 1 then do {
        (doc, at) \<leftarrow> take_nat (en_bytes e) (en_at e);
        if en_span e < doc then None else Some (Loc_Single (en_first e + doc), e\<lparr>en_at := at\<rparr>) }
      else do {
        (len, at) \<leftarrow> take_nat (en_bytes e) (en_at e);
        stop \<leftarrow> checked_add_u64 (en_postings e) len;
        if len < pf_aux_len pf df \<or> len = 0 \<or> en_postings_end e < stop then None
        else Some (Loc_List (en_postings e) len, e\<lparr>en_at := at, en_postings := stop\<rparr>) })"

definition entries_entry :: "pfor \<Rightarrow> entries \<Rightarrow> (term_entry \<times> entries) option" where
  "entries_entry pf e = do {
     e \<leftarrow> if 0 < en_seen e then entry_term e else Some e;
     (df, at) \<leftarrow> take_nat (en_bytes e) (en_at e);
     let e = e\<lparr>en_at := at\<rparr>;
     if df = 0 \<or> en_span e + 1 < df then None
     else do {
       (location, e) \<leftarrow> entry_location pf e df;
       let e = e\<lparr>en_remaining := en_remaining e - 1, en_seen := en_seen e + 1\<rparr>;
       if en_remaining e = 0 \<and> (en_postings e \<noteq> en_postings_end e \<or> en_at e \<noteq> length (en_bytes e)) then None
       else Some (\<lparr>te_df = df mod 2 ^ 32, te_location = location\<rparr>, e) } }"

lemma entries_entry_remaining: "entries_entry pf e = Some (x, e') \<Longrightarrow> en_remaining e' = en_remaining e - 1"
  by (auto simp: entries_entry_def entry_term_def entry_location_def split: Option.bind_splits if_splits prod.splits)

text \<open>The loop of \<open>Segment::entry\<close> over one block; the error is a corrupt block.\<close>

function scan_entries :: "pfor \<Rightarrow> entries \<Rightarrow> bytes \<Rightarrow> unit + term_entry option" where
  "scan_entries pf e t =
     (if en_remaining e = 0 then Inr None
      else
        (case entries_entry pf e of
           None \<Rightarrow> Inl ()
         | Some (entry, e) \<Rightarrow>
             if en_term e < t then scan_entries pf e t
             else if en_term e = t then Inr (Some entry) else Inr None))"
  by pat_completeness auto
termination
  by (relation "measure (\<lambda>(pf, e, t). en_remaining e)") (auto dest: entries_entry_remaining)

declare scan_entries.simps [simp del]

section \<open>Front coding\<close>

lemma shared_len_le: "shared_len a b \<le> length a" "shared_len a b \<le> length b"
  using length_takeWhile_le [of "\<lambda>(x, y). x = y" "zip a b"] by (simp_all add: shared_len_def)

lemma shared_len_Cons [simp]:
  "shared_len [] b = 0" "shared_len a [] = 0"
  "shared_len (x # a) (y # b) = (if x = y then Suc (shared_len a b) else 0)"
  by (simp_all add: shared_len_def)

lemma front_decodes:
  assumes "prev < t"
  shows "take (shared_len t prev) prev @ drop (shared_len t prev) t = t" "drop (shared_len t prev) t \<noteq> []"
    "shared_len t prev = length prev \<or> shared_len t prev < length prev \<and> prev ! shared_len t prev < hd (drop (shared_len t prev) t)"
proof -
  have "take (shared_len t prev) prev @ drop (shared_len t prev) t = t \<and> drop (shared_len t prev) t \<noteq> [] \<and>
    (shared_len t prev = length prev \<or> shared_len t prev < length prev \<and> prev ! shared_len t prev < hd (drop (shared_len t prev) t))"
    using assms
  proof (induction prev arbitrary: t)
    case Nil
    then show ?case by (simp add: Nil_less_iff)
  next
    case (Cons y prev)
    then obtain x t' where t: "t = x # t'" by (cases t) simp_all
    show ?case
    proof (cases "x = y")
      case True
      with Cons.prems have "prev < t'" by (simp add: t)
      from Cons.IH [OF this] show ?thesis by (simp add: t True)
    next
      case False
      with Cons.prems show ?thesis by (auto simp: t)
    qed
  qed
  then show "take (shared_len t prev) prev @ drop (shared_len t prev) t = t" "drop (shared_len t prev) t \<noteq> []"
    "shared_len t prev = length prev \<or> shared_len t prev < length prev \<and> prev ! shared_len t prev < hd (drop (shared_len t prev) t)"
    by blast+
qed

section \<open>Decoding\<close>

text \<open>A term's entry, given where the lists before it end, and the search for one in order.\<close>

definition entry_of :: "pfor \<Rightarrow> nat \<Rightarrow> nat \<Rightarrow> nat list \<Rightarrow> term_entry" where
  "entry_of pf first_doc at docs =
     \<lparr>te_df = length docs mod 2 ^ 32,
      te_location = (case docs of [d] \<Rightarrow> Loc_Single d | _ \<Rightarrow> Loc_List at (length (list_bytes pf first_doc docs)))\<rparr>"

fun find_entry :: "pfor \<Rightarrow> nat \<Rightarrow> nat \<Rightarrow> dentry list \<Rightarrow> bytes \<Rightarrow> term_entry option" where
  "find_entry pf first_doc at [] t = None"
| "find_entry pf first_doc at (e # es) t =
     (if fst e < t then find_entry pf first_doc (at + length (list_bytes pf first_doc (snd e))) es t
      else if fst e = t then Some (entry_of pf first_doc at (snd e)) else None)"

definition fits_entry :: "nat \<Rightarrow> nat \<Rightarrow> dentry \<Rightarrow> bool" where
  "fits_entry first_doc last_doc e \<longleftrightarrow>
     length (fst e) < 2 ^ 64 \<and> snd e \<noteq> [] \<and> sorted_wrt (<) (snd e) \<and> (\<forall>d\<in>set (snd e). first_doc \<le> d \<and> d \<le> last_doc)"

lemma docs_count:
  assumes "sorted_wrt (<) docs" "\<forall>d\<in>set docs. first_doc \<le> d \<and> d \<le> last_doc"
  shows "length docs \<le> last_doc - first_doc + 1"
proof -
  have "set docs \<subseteq> {first_doc..last_doc}" using assms(2) by auto
  then have "card (set docs) \<le> card {first_doc..last_doc}" by (intro card_mono) auto
  moreover have "distinct docs" using assms(1) by (simp add: strict_sorted_iff)
  ultimately have "length docs \<le> Suc last_doc - first_doc" by (simp add: distinct_card)
  then show ?thesis by (cases "first_doc \<le> last_doc") (auto simp: Suc_diff_le)
qed

lemma relative_docs:
  fixes docs :: "nat list"
  assumes "sorted_wrt (<) docs" "\<forall>d\<in>set docs. first_doc \<le> d \<and> d \<le> last_doc" "last_doc < 2 ^ 32"
  shows "sorted_wrt (<) (map (\<lambda>d. d - first_doc) docs)" "\<forall>i\<in>set (map (\<lambda>d. d - first_doc) docs). i < 2 ^ 32"
  using assms by (auto simp: sorted_wrt_iff_nth_less all_set_conv_all_nth intro!: diff_less_mono intro: order_le_less_trans less_imp_diff_less)

lemma list_bytes_ok:
  assumes "pfor_ok pf" "last_doc < 2 ^ 32" "fits_entry first_doc last_doc e" "length (snd e) \<noteq> 1"
  shows "list_bytes pf first_doc (snd e) \<noteq> []" "pf_aux_len pf (length (snd e)) \<le> length (list_bytes pf first_doc (snd e))"
    "pf_decode pf (length (snd e)) (list_bytes pf first_doc (snd e) @ suf) = map (\<lambda>d. d - first_doc) (snd e)"
proof -
  have e: "sorted_wrt (<) (snd e)" "\<forall>d\<in>set (snd e). first_doc \<le> d \<and> d \<le> last_doc" "snd e \<noteq> []"
    using assms(3) by (simp_all add: fits_entry_def)
  have "list_bytes pf first_doc (snd e) = pf_encode pf (map (\<lambda>d. d - first_doc) (snd e))"
    unfolding list_bytes_def by (rule case_not_single [OF assms(4)])
  moreover have "2 \<le> length (map (\<lambda>d. d - first_doc) (snd e))" using e(3) assms(4) by (cases "snd e") (auto simp: Suc_le_eq)
  ultimately show "list_bytes pf first_doc (snd e) \<noteq> []" "pf_aux_len pf (length (snd e)) \<le> length (list_bytes pf first_doc (snd e))"
    "pf_decode pf (length (snd e)) (list_bytes pf first_doc (snd e) @ suf) = map (\<lambda>d. d - first_doc) (snd e)"
    using assms(1) relative_docs [OF e(1,2) assms(2)] unfolding pfor_ok_def by (metis length_map)+
qed

definition entries_ok :: "pfor \<Rightarrow> nat \<Rightarrow> entries \<Rightarrow> dentry list \<Rightarrow> bool" where
  "entries_ok pf last_doc e es \<longleftrightarrow>
     (let rest = (if en_seen e = 0 then dblock pf (en_first e) es else rest_bytes pf (en_first e) (en_term e) es) in
      holds_at (en_bytes e) (en_at e) rest \<and> en_at e + length rest = length (en_bytes e)) \<and>
     (if en_seen e = 0 then es \<noteq> [] \<and> en_term e = fst (hd es) else \<forall>x\<in>set es. en_term e < fst x) \<and>
     sorted_wrt (<) (map fst es) \<and> (\<forall>x\<in>set es. fits_entry (en_first e) last_doc x) \<and>
     en_remaining e = length es \<and> en_postings_end e = en_postings e + length (dposts pf (en_first e) es) \<and>
     length (en_bytes e) < 2 ^ 64 \<and> en_postings_end e < 2 ^ 64 \<and> length (en_term e) < 2 ^ 64 \<and>
     en_span e = last_doc - en_first e \<and> last_doc < 2 ^ 32"

lemma entry_term_decodes:
  assumes "holds_at (en_bytes e) (en_at e) (front_bytes (en_term e) t)" "en_term e < t"
    and "length (en_bytes e) < 2 ^ 64" "length (en_term e) < 2 ^ 64" "length t < 2 ^ 64"
  shows "entry_term e = Some (e\<lparr>en_term := t, en_at := en_at e + length (front_bytes (en_term e) t)\<rparr>)"
proof -
  let ?s = "shared_len t (en_term e)" and ?bs = "en_bytes e"
  let ?a1 = "en_at e + length (put_nat ?s)"
  let ?a2 = "?a1 + length (put_nat (length t - ?s))"
  have h: "holds_at ?bs (en_at e) (put_nat ?s)" "holds_at ?bs ?a1 (put_nat (length t - ?s))" "holds_at ?bs ?a2 (drop ?s t)"
    using assms(1) unfolding front_bytes_def Let_def by (simp_all only: holds_at_append add.assoc)
  have small: "?s < 2 ^ 64" "length t - ?s < 2 ^ 64" using shared_len_le(1) [of t "en_term e"] assms(5) by linarith+
  have "?a2 + (length t - ?s) < 2 ^ 64" using holds_at_length [OF h(3)] assms(3) by (simp only: length_drop)
  then have add: "checked_add_u64 ?a2 (length t - ?s) = Some (?a2 + (length t - ?s))" by (simp add: checked_add_u64_def)
  have tail: "slice ?bs ?a2 (?a2 + (length t - ?s)) = Some (drop ?s t)" using h(3) by (simp add: holds_at_def)
  have at: "?a2 + (length t - ?s) = en_at e + length (front_bytes (en_term e) t)" by (simp add: front_bytes_def Let_def)
  note front = front_decodes [OF assms(2)]
  show ?thesis
    unfolding entry_term_def take_nat_holds [OF h(1) small(1)] bind.bind_lunit prod.case take_nat_holds [OF h(2) small(2)] add tail
    using front unfolding at by simp
qed

lemma entry_location_decodes:
  assumes "pfor_ok pf" "fits_entry (en_first e) last_doc x" "last_doc < 2 ^ 32" "en_span e = last_doc - en_first e"
    and "holds_at (en_bytes e) (en_at e) (case snd x of [d] \<Rightarrow> put_nat (d - en_first e) | _ \<Rightarrow> put_nat (length (list_bytes pf (en_first e) (snd x))))"
    and "en_postings e + length (list_bytes pf (en_first e) (snd x)) \<le> en_postings_end e" "en_postings_end e < 2 ^ 64"
  shows "entry_location pf e (length (snd x)) =
    Some (te_location (entry_of pf (en_first e) (en_postings e) (snd x)),
          e\<lparr>en_at := en_at e + length (case snd x of [d] \<Rightarrow> put_nat (d - en_first e) | _ \<Rightarrow> put_nat (length (list_bytes pf (en_first e) (snd x)))),
            en_postings := en_postings e + length (list_bytes pf (en_first e) (snd x))\<rparr>)"
proof (cases "length (snd x) = 1")
  case True
  then obtain d where d: "snd x = [d]" by (auto simp: length_Suc_conv)
  have range: "en_first e \<le> d" "d \<le> last_doc" using assms(2) by (simp_all add: fits_entry_def d)
  with assms(3) have "d - en_first e < 2 ^ 64" by simp
  moreover have "holds_at (en_bytes e) (en_at e) (put_nat (d - en_first e))" using assms(5) by (simp add: d)
  ultimately have "take_nat (en_bytes e) (en_at e) = Some (d - en_first e, en_at e + length (put_nat (d - en_first e)))"
    by (intro take_nat_holds)
  with range assms(4) show ?thesis
    unfolding entry_location_def d by (simp add: entry_of_def list_bytes_def)
next
  case False
  let ?len = "length (list_bytes pf (en_first e) (snd x))"
  note single = case_not_single [OF False]
  note list = list_bytes_ok [OF assms(1,3,2) False]
  have "?len < 2 ^ 64" using assms(6,7) by linarith
  moreover have "holds_at (en_bytes e) (en_at e) (put_nat ?len)" using assms(5) by (simp add: single)
  ultimately have len: "take_nat (en_bytes e) (en_at e) = Some (?len, en_at e + length (put_nat ?len))"
    by (intro take_nat_holds)
  have add: "checked_add_u64 (en_postings e) ?len = Some (en_postings e + ?len)"
    using assms(6,7) by (simp add: checked_add_u64_def)
  show ?thesis
    unfolding entry_location_def if_not_P [OF False] len bind.bind_lunit prod.case add single entry_of_def
    using list(1,2) assms(6) by simp
qed

lemma entries_entry_decodes:
  assumes pf: "pfor_ok pf" and ok: "entries_ok pf last_doc e (x # es)"
  obtains e' where "entries_entry pf e = Some (entry_of pf (en_first e) (en_postings e) (snd x), e')"
    "en_term e' = fst x" "entries_ok pf last_doc e' es"
    "en_postings e' = en_postings e + length (list_bytes pf (en_first e) (snd x))" "en_first e' = en_first e" "0 < en_seen e'"
proof -
  let ?first = "en_first e" and ?bs = "en_bytes e"
  let ?loc = "case snd x of [d] \<Rightarrow> put_nat (d - ?first) | _ \<Rightarrow> put_nat (length (list_bytes pf ?first (snd x)))"
  let ?tail = "tail_bytes pf ?first (snd x)" and ?rest = "rest_bytes pf ?first (fst x) es"
  define front where "front = (if en_seen e = 0 then [] else front_bytes (en_term e) (fst x))"
  define e1 where "e1 = e\<lparr>en_term := fst x, en_at := en_at e + length front\<rparr>"
  have all: "holds_at ?bs (en_at e) (front @ ?tail @ ?rest)" "en_at e + length (front @ ?tail @ ?rest) = length ?bs"
    using ok by (auto simp: entries_ok_def front_def Let_def split: if_splits)
  have h: "holds_at ?bs (en_at e) front" "holds_at ?bs (en_at e1) (put_nat (length (snd x)))"
    "holds_at ?bs (en_at e1 + length (put_nat (length (snd x)))) ?loc"
    "holds_at ?bs (en_at e1 + length (put_nat (length (snd x))) + length ?loc) ?rest"
    using all(1) unfolding tail_bytes_def by (simp_all add: e1_def holds_at_append add.assoc)
  have fits: "fits_entry ?first last_doc x" and small: "length ?bs < 2 ^ 64" "en_postings_end e < 2 ^ 64" "length (en_term e) < 2 ^ 64"
    and span: "en_span e = last_doc - ?first" and last_doc: "last_doc < 2 ^ 32" and remaining: "en_remaining e = Suc (length es)"
    and posts: "en_postings_end e = en_postings e + length (list_bytes pf ?first (snd x)) + length (dposts pf ?first es)"
    using ok by (simp_all add: entries_ok_def dposts_def)
  have "(if 0 < en_seen e then entry_term e else Some e) = Some e1"
  proof (cases "en_seen e = 0")
    case True
    then show ?thesis using ok by (simp add: entries_ok_def e1_def front_def)
  next
    case False
    then have "en_term e < fst x" using ok by (simp add: entries_ok_def)
    moreover have "length (fst x) < 2 ^ 64" using fits by (simp add: fits_entry_def)
    ultimately have "entry_term e = Some e1"
      using entry_term_decodes [of e "fst x"] h(1) False small unfolding e1_def front_def by simp
    with False show ?thesis by simp
  qed
  note seen = this
  have docs: "snd x \<noteq> []" "length (snd x) \<le> last_doc - ?first + 1"
    using fits docs_count [of "snd x" ?first last_doc] by (simp_all add: fits_entry_def)
  with last_doc have df: "length (snd x) < 2 ^ 64" "\<not> (length (snd x) = 0 \<or> en_span e1 + 1 < length (snd x))"
    by (simp_all add: e1_def span)
  define e2 where "e2 = e1\<lparr>en_at := en_at e1 + length (put_nat (length (snd x)))\<rparr>"
  have read_df: "take_nat (en_bytes e1) (en_at e1) = Some (length (snd x), en_at e2)"
    using take_nat_holds [OF h(2) df(1)] by (simp add: e1_def e2_def)
  have first2: "en_first e2 = ?first" "en_bytes e2 = ?bs" "en_postings e2 = en_postings e" "en_span e2 = en_span e"
    "en_postings_end e2 = en_postings_end e" by (simp_all add: e1_def e2_def)
  define e3 where "e3 = e2\<lparr>en_at := en_at e2 + length ?loc, en_postings := en_postings e + length (list_bytes pf ?first (snd x))\<rparr>"
  have loc: "entry_location pf e2 (length (snd x)) = Some (te_location (entry_of pf ?first (en_postings e) (snd x)), e3)"
    using entry_location_decodes [OF pf, of e2 last_doc x] fits last_doc span h(3) posts small(2)
    unfolding first2 e3_def by (simp add: e2_def)
  define e' where "e' = e3\<lparr>en_remaining := en_remaining e3 - 1, en_seen := en_seen e3 + 1\<rparr>"
  have flat: "en_bytes e' = ?bs" "en_first e' = ?first" "en_term e' = fst x" "en_remaining e' = length es" "0 < en_seen e'"
    "en_at e' = en_at e1 + length (put_nat (length (snd x))) + length ?loc" "en_postings_end e' = en_postings_end e"
    "en_postings e' = en_postings e + length (list_bytes pf ?first (snd x))" "en_span e' = en_span e"
    by (simp_all add: e'_def e3_def e2_def e1_def remaining)
  have at: "en_at e' + length ?rest = length ?bs"
    using all(2) unfolding flat(6) by (simp add: e1_def tail_bytes_def)
  have ok': "entries_ok pf last_doc e' es"
    using ok h(4) at posts small fits flat unfolding entries_ok_def Let_def by (simp add: fits_entry_def)
  have done_ok: "\<not> (en_remaining e' = 0 \<and> (en_postings e' \<noteq> en_postings_end e' \<or> en_at e' \<noteq> length (en_bytes e')))"
    using posts at by (auto simp: flat)
  have "entries_entry pf e = Some (entry_of pf ?first (en_postings e) (snd x), e')"
    unfolding entries_entry_def seen bind.bind_lunit read_df prod.case Let_def
    using loc done_ok df(2) unfolding e2_def [symmetric] by (auto simp: e'_def entry_of_def e1_def e2_def)
  from that [OF this flat(3) ok' flat(8,2,5)] show ?thesis .
qed

lemma scan_entries_finds:
  "pfor_ok pf \<Longrightarrow> entries_ok pf last_doc e es \<Longrightarrow> scan_entries pf e t = Inr (find_entry pf (en_first e) (en_postings e) es t)"
proof (induction es arbitrary: e)
  case Nil
  then have "en_remaining e = 0" by (simp add: entries_ok_def)
  then show ?case by (simp add: scan_entries.simps [of pf e t])
next
  case (Cons x es)
  from entries_entry_decodes [OF Cons.prems] obtain e' where
    step: "entries_entry pf e = Some (entry_of pf (en_first e) (en_postings e) (snd x), e')"
      "en_term e' = fst x" "entries_ok pf last_doc e' es"
      "en_postings e' = en_postings e + length (list_bytes pf (en_first e) (snd x))" "en_first e' = en_first e" .
  have "en_remaining e \<noteq> 0" using Cons.prems(2) by (simp add: entries_ok_def)
  then show ?case
    using Cons.IH [OF Cons.prems(1) step(3)] by (subst scan_entries.simps) (simp add: step)
qed

end
