(* ===== verification/Segment_File.thy ===== *)
theory Segment_File
  imports Block_Entries Manifest Postings
begin

text \<open>
  A segment file: \<open>Writer::finish\<close> of
  \<open>segment/write.rs\<close>, and opening and reading one in \<open>segment/read.rs\<close>. The byte source is a slice in
  memory (\<open>ReadAt for [u8]\<close>), whose only failure is a read past its end. BLAKE3 is a parameter
  (\<open>checksum\<close>). A result is an option whose \<open>None\<close> is a panic of an index expression, of the sum the
  source returns.

  Results: what a writer finishes opens, and every lookup returns the documents pushed.
\<close>

section \<open>Finishing a writer\<close>

record sizes =
  sz_head :: nat
  sz_blocks :: nat
  sz_postings :: nat
  sz_index :: nat
  sz_sums :: nat
  sz_terms :: nat
  sz_pairs :: nat
  sz_singletons :: nat
  sz_singleton_bytes :: nat
  sz_term_bytes :: nat
  sz_fingerprints :: nat
  sz_fingerprint_index :: nat
  sz_records :: nat
  sz_records_added :: nat
  sz_records_removed :: nat

definition writer_sections :: "dict_writer \<Rightarrow> segment_section list" where
  "writer_sections w = unwrap_or [] (sections_of (dw_codec w))"

definition writer_records :: "dict_writer \<Rightarrow> nat" where
  "writer_records w = (case dw_singles w of None \<Rightarrow> 0 | Some sg \<Rightarrow> fe_records (sg_encoder sg))"

definition check_record_length :: "dict_writer \<Rightarrow> bool" where
  "check_record_length w =
     (case dw_singles w of None \<Rightarrow> True | Some sg \<Rightarrow> \<not> 2 ^ 32 - 1 < fe_len (sg_encoder sg))"

definition chunk_digests ::
  "(bytes \<Rightarrow> bytes) \<Rightarrow> (segment_section \<Rightarrow> nat) \<Rightarrow> bytes \<Rightarrow> (segment_section \<Rightarrow> bytes) \<Rightarrow> (segment_section \<Rightarrow> bytes) option"
where
  "chunk_digests checksum lengths sums digests =
     (let stop0 = div_ceil (lengths SecBlocks) chunk * 16;
          stop1 = stop0 + div_ceil (lengths SecPostings) chunk * 16;
          stop2 = stop1 + div_ceil (lengths SecFingerprints) chunk * 16 in
      do { a \<leftarrow> slice sums 0 stop0; b \<leftarrow> slice sums stop0 stop1; c \<leftarrow> slice sums stop1 stop2;
           Some (digests(SecBlocks := checksum a, SecPostings := checksum b, SecFingerprints := checksum c)) })"

fun table_bytes :: "(segment_section \<Rightarrow> nat) \<Rightarrow> (segment_section \<Rightarrow> bytes) \<Rightarrow> nat \<Rightarrow> segment_section list \<Rightarrow> bytes" where
  "table_bytes lengths digests offset [] = []"
| "table_bytes lengths digests offset (s # ss) =
     le64 (of_nat offset) @ le64 (of_nat (lengths s)) @ digests s @ table_bytes lengths digests (offset + lengths s) ss"

definition segment_fields :: "dict_writer \<Rightarrow> bytes" where
  "segment_fields w =
     (let head = segment_magic @
            concat (map le32 [segment_format_version, of_nat (dw_tokenizer w), of_nat (dw_codec w), postings_codec,
                              of_nat (tw_first w), of_nat (tw_last w)]) @
            le64 (of_nat (dw_terms w)) @ le64 (of_nat (dw_pairs w + writer_records w)) @
            le32 (of_nat chunk) @ le32 (of_nat (length (writer_sections w))) in
      take fields_len head @ replicate (fields_len - length head) 0)"

definition segment_head ::
  "(bytes \<Rightarrow> bytes) \<Rightarrow> dict_writer \<Rightarrow> (segment_section \<Rightarrow> nat) \<Rightarrow> (segment_section \<Rightarrow> bytes) \<Rightarrow> bytes"
where
  "segment_head checksum w lengths digests =
     (let head = segment_fields w @ table_bytes lengths digests (head_len (length (writer_sections w))) (writer_sections w)
      in head @ checksum head)"

definition sizes_of :: "dict_writer \<Rightarrow> (segment_section \<Rightarrow> nat) \<Rightarrow> sizes" where
  "sizes_of w lengths =
     \<lparr>sz_head = head_len (length (writer_sections w)), sz_blocks = lengths SecBlocks, sz_postings = lengths SecPostings,
      sz_index = lengths SecIndex, sz_sums = lengths SecSums, sz_terms = dw_terms w, sz_pairs = dw_pairs w + writer_records w,
      sz_singletons = dw_singletons w, sz_singleton_bytes = dw_singleton_bytes w, sz_term_bytes = dw_term_bytes w,
      sz_fingerprints = lengths SecFingerprints, sz_fingerprint_index = lengths SecFingerprintIndex, sz_records = writer_records w,
      sz_records_added = 0, sz_records_removed = 0\<rparr>"

definition sizes_total :: "sizes \<Rightarrow> nat" where
  "sizes_total z = sz_head z + sz_blocks z + sz_postings z + sz_index z + sz_sums z + sz_fingerprints z + sz_fingerprint_index z"

text \<open>The array \<open>bytes\<close> of \<open>finish\<close>, by section.\<close>

definition finished_bytes :: "(bytes \<Rightarrow> bytes) \<Rightarrow> dict_writer \<Rightarrow> segment_section \<Rightarrow> bytes" where
  "finished_bytes checksum w s =
     (let records = (case dw_singles w of None \<Rightarrow> [] | Some sg \<Rightarrow> fe_bytes (sg_encoder sg)) in
      case s of
        SecBlocks \<Rightarrow> dw_blocks w
      | SecPostings \<Rightarrow> dw_postings w
      | SecIndex \<Rightarrow> dw_index w
      | SecSums \<Rightarrow> chunk_sums checksum (dw_blocks w) @ chunk_sums checksum (dw_postings w) @ chunk_sums checksum records
      | SecFingerprints \<Rightarrow> records
      | SecFingerprintIndex \<Rightarrow> (case dw_singles w of None \<Rightarrow> [] | Some sg \<Rightarrow> fe_index_section (sg_encoder sg)))"

text \<open>\<open>Writer::finish\<close>: the error is the \<open>InvalidInput\<close> of a spilling writer or of an oversized fingerprint section.\<close>

definition writer_finish :: "(bytes \<Rightarrow> bytes) \<Rightarrow> dict_writer \<Rightarrow> (unit + bytes \<times> sizes) option" where
  "writer_finish checksum w =
     (let spilling = (dw_spill w \<noteq> None); w = seal_records w in
      if spilling \<or> \<not> check_record_length w then Some (Inl ())
      else
        (let bytes = finished_bytes checksum w; lengths = (\<lambda>s. length (bytes s)) in
         do { digests \<leftarrow> chunk_digests checksum lengths (bytes SecSums) (\<lambda>s. checksum (bytes s));
              Some (Inr (segment_head checksum w lengths digests @ concat (map bytes (writer_sections w)),
                         sizes_of w lengths)) }))"

section \<open>Opening\<close>

text \<open>A fallible step after another.\<close>

definition try_then :: "('e + 'a) option \<Rightarrow> ('a \<Rightarrow> ('e + 'b) option) \<Rightarrow> ('e + 'b) option" where
  "try_then m f = (case m of None \<Rightarrow> None | Some (Inl e) \<Rightarrow> Some (Inl e) | Some (Inr x) \<Rightarrow> f x)"

abbreviation fails :: "'e \<Rightarrow> ('e + 'a) option" where
  "fails e \<equiv> Some (Inl e)"

abbreviation gives :: "'a \<Rightarrow> ('e + 'a) option" where
  "gives x \<equiv> Some (Inr x)"

lemma try_then_simps [simp]:
  "try_then None f = None" "try_then (fails e) f = fails e" "try_then (gives x) f = f x"
  by (simp_all add: try_then_def)

definition read_exact_at :: "bytes \<Rightarrow> nat \<Rightarrow> nat \<Rightarrow> (read_error + bytes) option" where
  "read_exact_at source n offset =
     (case Option.bind (checked_add_u64 offset n) (slice source offset) of None \<Rightarrow> fails ReIo | Some bs \<Rightarrow> gives bs)"

record seg_head =
  sh_bytes :: bytes
  sh_dictionary :: u32
  sh_sections :: "segment_section list"
  sh_info :: info

definition head_fields :: "bytes \<Rightarrow> u32 \<Rightarrow> segment_section list \<Rightarrow> (read_error + seg_head) option" where
  "head_fields head dictionary secs = do {
     version \<leftarrow> u32_at head 12;
     first \<leftarrow> u32_at head 24;
     last \<leftarrow> u32_at head 28;
     terms \<leftarrow> u64_at head 32;
     pairs \<leftarrow> u64_at head 40;
     chunk_size \<leftarrow> u32_at head 48;
     count \<leftarrow> u32_at head 52;
     zero \<leftarrow> slice head 56 fields_len;
     if last < first \<or> unat chunk_size \<noteq> chunk \<or> unat count \<noteq> length secs \<or> zero \<noteq> replicate 8 0 then fails ReHead
     else gives \<lparr>sh_bytes = head, sh_dictionary = dictionary, sh_sections = secs,
            sh_info = \<lparr>in_first = first, in_last = last, in_terms = terms, in_pairs = pairs, in_tokenizer_version = version\<rparr>\<rparr> }"

definition head_digest :: "seg_head \<Rightarrow> bytes option" where
  "head_digest self = slice (sh_bytes self) (length (sh_bytes self) - 16) (length (sh_bytes self))"

definition head_read :: "(bytes \<Rightarrow> bytes) \<Rightarrow> bytes \<Rightarrow> nat \<Rightarrow> (read_error + seg_head) option" where
  "head_read checksum source sz =
     try_then (read_exact_at source (min sz head_max) 0) (\<lambda>head.
       if length head < 12 then fails ReNotASegment
       else do {
         magic \<leftarrow> slice head 0 8;
         if magic \<noteq> segment_magic then fails ReNotASegment
         else do {
           version \<leftarrow> u32_at head 8;
           if version \<noteq> segment_format_version then fails (ReVersion version)
           else if length head < head_len 4 then fails ReLayout
           else do {
             dictionary \<leftarrow> u32_at head 16;
             postings \<leftarrow> u32_at head 20;
             case sections_of (unat dictionary) of
               None \<Rightarrow> fails (ReCodec dictionary postings)
             | Some secs \<Rightarrow>
                 if postings \<noteq> postings_codec then fails (ReCodec dictionary postings)
                 else
                   (let len = head_len (length secs) in
                    if length head < len then fails ReLayout
                    else
                      (let head = take len head in
                       do { body \<leftarrow> slice head 0 (len - 16);
                            digest \<leftarrow> slice head (len - 16) len;
                            if checksum body \<noteq> digest then fails ReHead else head_fields head dictionary secs })) } } })"

type_synonym seg_table = "segment_section \<Rightarrow> nat \<times> nat \<times> bytes"

fun table_loop ::
  "bytes \<Rightarrow> nat \<Rightarrow> segment_section list \<Rightarrow> nat \<Rightarrow> nat \<Rightarrow> seg_table \<Rightarrow> (read_error + nat \<times> seg_table) option"
where
  "table_loop head sz [] at expect table = gives (expect, table)"
| "table_loop head sz (s # ss) at expect table =
     Option.bind (u64_at head at) (\<lambda>offset.
     Option.bind (u64_at head (at + 8)) (\<lambda>len.
       case checked_add_u64 (unat offset) (unat len) of
         None \<Rightarrow> fails ReLayout
       | Some stop \<Rightarrow>
           if unat offset \<noteq> expect \<or> sz < stop then fails ReLayout
           else
             Option.bind (slice head (at + 16) (at + 32)) (\<lambda>sum.
               table_loop head sz ss (at + table_entry) stop (table(s := (unat offset, unat len, sum))))))"

definition head_table :: "seg_head \<Rightarrow> nat \<Rightarrow> (read_error + seg_table) option" where
  "head_table self sz =
     try_then (table_loop (sh_bytes self) sz (sh_sections self) fields_len (length (sh_bytes self)) (\<lambda>_. (0, 0, replicate 16 0)))
       (\<lambda>(expect, table). if expect \<noteq> sz then fails ReLayout else gives table)"

definition read_whole :: "(bytes \<Rightarrow> bytes) \<Rightarrow> bytes \<Rightarrow> seg_table \<Rightarrow> segment_section \<Rightarrow> (read_error + bytes) option" where
  "read_whole checksum source table s =
     (let (offset, len, sum) = table s in
      try_then (read_exact_at source len offset) (\<lambda>bytes.
        if checksum bytes \<noteq> sum then fails (ReCorrupt s) else gives bytes))"

record segment =
  sf_source :: bytes
  sf_info :: info
  sf_digest :: bytes
  sf_blocks_at :: "nat \<times> nat"
  sf_postings_at :: "nat \<times> nat"
  sf_lengths :: "segment_section \<Rightarrow> nat"
  sf_codec :: u32
  sf_fingerprints_at :: "nat \<times> nat"
  sf_fingerprints :: fp_index
  sf_sums :: bytes
  sf_index_bytes :: bytes
  sf_samples :: "place list"
  sf_blocks :: nat

definition fp_index_default :: fp_index where
  "fp_index_default = \<lparr>fi_records = 0, fi_firsts = [], fi_starts = []\<rparr>"

definition segment_open :: "(bytes \<Rightarrow> bytes) \<Rightarrow> bytes \<Rightarrow> (read_error + segment) option" where
  "segment_open checksum source =
     (let sz = length source in
      try_then (head_read checksum source sz) (\<lambda>head.
      try_then (head_table head sz) (\<lambda>table.
      try_then (read_whole checksum source table SecIndex) (\<lambda>index.
      try_then (read_whole checksum source table SecSums) (\<lambda>sums.
        let blocks_len = fst (snd (table SecBlocks)); postings_len = fst (snd (table SecPostings));
            fingerprint_len = fst (snd (table SecFingerprints)) in
        if length sums \<noteq> (chunk_count blocks_len + chunk_count postings_len + chunk_count fingerprint_len) * 16
        then fails (ReCorrupt SecSums)
        else
          try_then
            (if unat (sh_dictionary head) = dictionary_codec then gives fp_index_default
             else
               try_then (read_whole checksum source table SecFingerprintIndex) (\<lambda>bytes.
                 case fp_index_parse bytes fingerprint_len of
                   None \<Rightarrow> fails (ReCorrupt SecFingerprintIndex)
                 | Some idx \<Rightarrow> gives idx)) (\<lambda>fingerprints.
          case parse_index index (unat (in_terms (sh_info head))) blocks_len postings_len of
            None \<Rightarrow> fails (ReCorrupt SecIndex)
          | Some samples \<Rightarrow>
              do { digest \<leftarrow> head_digest head;
                   gives \<lparr>sf_source = source, sf_info = sh_info head, sf_digest = digest,
                     sf_blocks_at = (fst (table SecBlocks), blocks_len), sf_postings_at = (fst (table SecPostings), postings_len),
                     sf_lengths = (\<lambda>s. fst (snd (table s))), sf_codec = sh_dictionary head,
                     sf_fingerprints_at = (fst (table SecFingerprints), fingerprint_len), sf_fingerprints = fingerprints,
                     sf_sums = sums, sf_index_bytes = index, sf_samples = samples,
                     sf_blocks = div_ceil (unat (in_terms (sh_info head))) block_terms\<rparr> }))))))"

section \<open>Reading\<close>

definition extent :: "segment \<Rightarrow> segment_section \<Rightarrow> (read_error + (nat \<times> nat) \<times> bytes) option" where
  "extent self s =
     (let blocks_sums = chunk_count (snd (sf_blocks_at self)) * 16;
          postings_sums = chunk_count (snd (sf_postings_at self)) * 16 in
      case s of
        SecBlocks \<Rightarrow> do { sums \<leftarrow> slice (sf_sums self) 0 blocks_sums; gives (sf_blocks_at self, sums) }
      | SecPostings \<Rightarrow>
          do { sums \<leftarrow> slice (sf_sums self) blocks_sums (blocks_sums + postings_sums); gives (sf_postings_at self, sums) }
      | SecFingerprints \<Rightarrow>
          do { sums \<leftarrow> slice (sf_sums self) (blocks_sums + postings_sums) (length (sf_sums self));
               gives (sf_fingerprints_at self, sums) }
      | _ \<Rightarrow> fails (ReCorrupt s))"

fun check_pieces :: "(bytes \<Rightarrow> bytes) \<Rightarrow> bytes \<Rightarrow> nat \<Rightarrow> bytes list \<Rightarrow> bool option" where
  "check_pieces checksum sums at [] = Some True"
| "check_pieces checksum sums at (piece # pieces) =
     (case slice sums at (at + 16) of
        None \<Rightarrow> None
      | Some stored \<Rightarrow> if checksum piece \<noteq> stored then Some False else check_pieces checksum sums (at + 16) pieces)"

definition read_checked ::
  "(bytes \<Rightarrow> bytes) \<Rightarrow> segment \<Rightarrow> segment_section \<Rightarrow> nat \<Rightarrow> nat \<Rightarrow> (read_error + bytes \<times> nat) option"
where
  "read_checked checksum self s start stop =
     try_then (extent self s) (\<lambda>((offset, len), sums).
       if stop < start \<or> len < stop then fails (ReCorrupt s)
       else
         (let low = start div chunk; high = div_ceil stop chunk; from = low * chunk; to_at = min (high * chunk) len in
          try_then (read_exact_at (sf_source self) (max to_at from - from) (offset + from)) (\<lambda>bytes.
            do { ok \<leftarrow> check_pieces checksum sums (low * 16) (chunks_of chunk bytes);
                 if ok then gives (bytes, start - from) else fails (ReCorrupt s) })))"

text \<open>\<open>Segment::block\<close> without a window.\<close>

definition open_entries :: "segment \<Rightarrow> nat \<Rightarrow> place \<Rightarrow> place option \<Rightarrow> bytes \<Rightarrow> nat \<Rightarrow> entries" where
  "open_entries self b here later bytes at =
     \<lparr>en_bytes = bytes, en_at = at, en_term = first_term (sf_index_bytes self) here,
      en_remaining = (if later \<noteq> None then block_terms else unat (in_terms (sf_info self)) - b * block_terms),
      en_seen = 0, en_postings = bp_postings here,
      en_postings_end = (case later of None \<Rightarrow> snd (sf_postings_at self) | Some p \<Rightarrow> bp_postings p),
      en_first = unat (in_first (sf_info self)), en_span = unat (in_last (sf_info self) - in_first (sf_info self))\<rparr>"

definition later_place :: "segment \<Rightarrow> nat \<Rightarrow> place \<Rightarrow> (read_error + place option) option" where
  "later_place self b here =
     (if b + 1 < sf_blocks self then
        (case next_place (sf_index_bytes self) here of
           None \<Rightarrow> fails (ReCorrupt SecIndex)
         | Some p \<Rightarrow> gives (Some p))
      else gives None)"

definition block_end :: "segment \<Rightarrow> place option \<Rightarrow> nat" where
  "block_end self later = (case later of None \<Rightarrow> snd (sf_blocks_at self) | Some p \<Rightarrow> bp_start p)"

definition segment_block ::
  "(bytes \<Rightarrow> bytes) \<Rightarrow> segment \<Rightarrow> nat \<Rightarrow> place \<Rightarrow> (read_error + entries \<times> place option) option"
where
  "segment_block checksum self b here =
     try_then (later_place self b here) (\<lambda>later.
       let stop = block_end self later in
       try_then (read_checked checksum self SecBlocks (bp_start here) stop) (\<lambda>(bytes, at).
         gives (open_entries self b here later (take (at + (stop - bp_start here)) bytes) at, later)))"

definition segment_locate :: "segment \<Rightarrow> bytes \<Rightarrow> (nat \<times> place) option" where
  "segment_locate self t = locate (sf_index_bytes self) (sf_samples self) (sf_blocks self) t"

definition segment_term_entry :: "(bytes \<Rightarrow> bytes) \<Rightarrow> pfor \<Rightarrow> segment \<Rightarrow> bytes \<Rightarrow> (read_error + term_entry option) option" where
  "segment_term_entry checksum pf self t =
     (case segment_locate self t of
        None \<Rightarrow> gives None
      | Some (b, here) \<Rightarrow>
          try_then (segment_block checksum self b here) (\<lambda>(entries, _).
            case scan_entries pf entries t of
              Inl _ \<Rightarrow> fails (ReCorrupt SecBlocks)
            | Inr found \<Rightarrow> gives found))"

definition segment_read :: "(bytes \<Rightarrow> bytes) \<Rightarrow> segment \<Rightarrow> term_entry \<Rightarrow> (read_error + hit) option" where
  "segment_read checksum self entry =
     (case te_location entry of
        Loc_Single doc \<Rightarrow> gives (Single doc)
      | Loc_List offset len \<Rightarrow>
          try_then (read_checked checksum self SecPostings offset (offset + len)) (\<lambda>(bytes, start).
            gives (Postings \<lparr>pl_first = unat (in_first (sf_info self)), pl_df = te_df entry, pl_bytes = bytes, pl_start = start\<rparr>)))"

definition segment_lookup :: "(bytes \<Rightarrow> bytes) \<Rightarrow> pfor \<Rightarrow> segment \<Rightarrow> bytes \<Rightarrow> (read_error + hit option) option" where
  "segment_lookup checksum pf self t =
     try_then (segment_term_entry checksum pf self t) (\<lambda>entry.
       case entry of
         None \<Rightarrow> gives None
       | Some entry \<Rightarrow> try_then (segment_read checksum self entry) (\<lambda>hit. gives (Some hit)))"

section \<open>Checked reads\<close>

lemma chunk_pos [simp]: "0 < chunk"
  by (simp add: chunk_def)

lemma length_chunks_of [simp]: "length (chunks_of n bs) = div_ceil (length bs) n"
  by (simp add: chunks_of_def)

lemma chunks_of_nth: "i < div_ceil (length bs) n \<Longrightarrow> chunks_of n bs ! i = take n (drop (i * n) bs)"
  by (simp add: chunks_of_def)

lemma concat_const_length:
  assumes "\<forall>x\<in>set xs. length x = k" "i < length xs"
  shows "holds_at (concat xs) (i * k) (xs ! i)" "length (concat xs) = length xs * k"
proof -
  have len: "\<forall>x\<in>set ys. length x = k \<Longrightarrow> length (concat ys) = length ys * k" for ys :: "bytes list"
    by (induction ys) auto
  have parts: "concat xs = concat (take i xs) @ xs ! i @ concat (drop (Suc i) xs)"
    using id_take_nth_drop [OF assms(2)] by (metis concat.simps(2) concat_append)
  have "length (concat (take i xs)) = i * k" using assms by (subst len) (auto dest: in_set_takeD)
  with parts show "holds_at (concat xs) (i * k) (xs ! i)" unfolding holds_at_iff by blast
  from len assms(1) show "length (concat xs) = length xs * k" by blast
qed

text \<open>BLAKE3-128 has 16 bytes; nothing else about it is relied on.\<close>

definition digest_ok :: "(bytes \<Rightarrow> bytes) \<Rightarrow> bool" where
  "digest_ok checksum \<longleftrightarrow> (\<forall>bs. length (checksum bs) = 16)"

lemma checksum_length: "digest_ok checksum \<Longrightarrow> length (checksum bs) = 16"
  by (simp add: digest_ok_def)

lemma length_chunk_sums:
  assumes "digest_ok checksum"
  shows "length (chunk_sums checksum bs) = chunk_count (length bs) * 16"
proof -
  have "length (concat (map checksum xs)) = length xs * 16" for xs by (induction xs) (simp_all add: checksum_length [OF assms])
  then show ?thesis by (simp add: chunk_sums_def chunk_count_def)
qed

lemma chunk_sum_at:
  "digest_ok checksum \<Longrightarrow> i < chunk_count (length bs) \<Longrightarrow> slice (chunk_sums checksum bs) (i * 16) (i * 16 + 16) = Some (checksum (take chunk (drop (i * chunk) bs)))"
  using concat_const_length(1) [of "map checksum (chunks_of chunk bs)" 16 i]
  by (simp add: chunk_sums_def chunk_count_def holds_at_def checksum_length chunks_of_nth)

lemma check_pieces_true:
  assumes "\<forall>i<length ps. slice sums (at + i * 16) (at + i * 16 + 16) = Some (checksum (ps ! i))"
  shows "check_pieces checksum sums at ps = Some True"
  using assms
proof (induction ps arbitrary: at)
  case (Cons p ps)
  have "slice sums (at + 16 + i * 16) (at + 16 + i * 16 + 16) = Some (checksum (ps ! i))" if "i < length ps" for i
    using Cons.prems that by (auto simp: add.assoc dest!: spec [of _ "Suc i"])
  then have "check_pieces checksum sums (at + 16) ps = Some True" by (intro Cons.IH) simp
  moreover have "slice sums at (at + 16) = Some (checksum p)" using Cons.prems by auto
  ultimately show ?case by simp
qed simp

text \<open>The chunks a read covers are chunks of the section.\<close>

lemma covered_chunks:
  fixes bs :: bytes
  assumes "low * chunk \<le> to_at" "to_at = min (high * chunk) (length bs)"
  defines "part \<equiv> take (to_at - low * chunk) (drop (low * chunk) bs)"
  shows "i < length (chunks_of chunk part) \<Longrightarrow>
    low + i < chunk_count (length bs) \<and> chunks_of chunk part ! i = take chunk (drop ((low + i) * chunk) bs)"
proof -
  assume "i < length (chunks_of chunk part)"
  then have i: "i < div_ceil (length part) chunk" by simp
  have len: "length part = to_at - low * chunk" using assms(1,2) by (simp add: part_def)
  have below: "i * chunk < to_at - low * chunk" using i div_ceil_less [of chunk i "length part"] by (simp add: len)
  then have "(low + i) * chunk < length bs" using assms(2) by (simp add: algebra_simps)
  then have count: "low + i < chunk_count (length bs)" using div_ceil_less [of chunk "low + i" "length bs"] by (simp add: chunk_count_def)
  have "take chunk (drop (i * chunk) part) = take chunk (drop ((low + i) * chunk) bs)"
  proof (cases "high * chunk \<le> length bs")
    case True
    then have "to_at = high * chunk" using assms(2) by simp
    with below have "(low + i) * chunk < high * chunk" by (simp add: algebra_simps)
    then have "Suc (low + i) * chunk \<le> high * chunk" by (intro mult_le_mono1) simp
    then have "chunk \<le> to_at - low * chunk - i * chunk" using \<open>to_at = high * chunk\<close> by (simp add: algebra_simps)
    then show ?thesis by (simp add: part_def drop_take add.commute [of "i * chunk"] distrib_right min_absorb2 min_def)
  next
    case False
    then have "part = drop (low * chunk) bs" using assms(2) by (simp add: part_def)
    then show ?thesis by (simp add: distrib_right add.commute)
  qed
  with i count show ?thesis by (simp add: chunks_of_nth)
qed

lemma holds_at_slice:
  assumes "holds_at bs a part" "a \<le> start" "start \<le> stop" "stop \<le> a + length part"
  shows "slice part (start - a) (start - a + (stop - start)) = Some (take (stop - start) (drop start bs))"
proof -
  from assms(1) obtain pre suf where bs: "bs = pre @ part @ suf" "length pre = a" by (auto simp: holds_at_iff)
  have "drop start bs = drop (start - a) part @ suf" using assms(2-4) by (simp add: bs)
  moreover have "stop - start \<le> length part - (start - a)" "start - a + (stop - start) \<le> length part" using assms(2-4) by linarith+
  ultimately show ?thesis by (simp add: slice_def)
qed

lemma read_checked_part:
  assumes ext: "extent self s = gives ((offset, length bs), chunk_sums checksum bs)"
    and src: "holds_at (sf_source self) offset bs" "length (sf_source self) < 2 ^ 64"
    and range: "start \<le> stop" "stop \<le> length bs"
    and digest: "digest_ok checksum"
  obtains from_at part where "read_checked checksum self s start stop = gives (part, start - from_at)"
    "from_at \<le> start" "stop \<le> from_at + length part" "holds_at bs from_at part"
proof -
  let ?low = "start div chunk" and ?high = "div_ceil stop chunk"
  let ?from = "?low * chunk"
  define to_at where "to_at = min (?high * chunk) (length bs)"
  have from_le: "?from \<le> start" by simp
  have "\<not> ?high * chunk < stop" using div_ceil_less [of chunk ?high stop] by simp
  then have stop: "stop \<le> to_at" using range by (simp add: to_at_def)
  then have le: "?from \<le> to_at" using from_le range by linarith
  define part where "part = take (to_at - ?from) (drop ?from bs)"
  have len: "length part = to_at - ?from" using le by (simp add: part_def to_at_def)
  have split: "bs = take ?from bs @ part @ drop (to_at - ?from) (drop ?from bs)"
    unfolding part_def by (metis append_take_drop_id)
  have at: "holds_at bs ?from part"
    unfolding holds_at_iff using split le by (intro exI conjI) (assumption, simp add: to_at_def)
  then have "holds_at (sf_source self) (offset + ?from) part"
    using src(1) unfolding holds_at_iff by (metis append_assoc length_append)
  then have "read_exact_at (sf_source self) (max to_at ?from - ?from) (offset + ?from) = gives part"
    using holds_at_length [of "sf_source self" "offset + ?from" part] src(2) le
    by (simp add: read_exact_at_def checked_add_u64_def holds_at_def len max_def)
  moreover have "check_pieces checksum (chunk_sums checksum bs) (?low * 16) (chunks_of chunk part) = Some True"
  proof (rule check_pieces_true, intro allI impI)
    fix i
    assume i: "i < length (chunks_of chunk part)"
    from covered_chunks [OF le to_at_def, of i] i part_def
    have "?low + i < chunk_count (length bs)" "chunks_of chunk part ! i = take chunk (drop ((?low + i) * chunk) bs)" by blast+
    with chunk_sum_at [OF digest, of "?low + i" bs] show "slice (chunk_sums checksum bs) (?low * 16 + i * 16) (?low * 16 + i * 16 + 16) =
        Some (checksum (chunks_of chunk part ! i))" by (simp add: distrib_right)
  qed
  ultimately have "read_checked checksum self s start stop = gives (part, start - ?from)"
    using ext range unfolding read_checked_def by (simp add: Let_def to_at_def [symmetric])
  moreover have "stop \<le> ?from + length part" using stop le by (simp add: len)
  ultimately show ?thesis using that [of part ?from] from_le at by blast
qed

lemma read_checked_whole:
  assumes "extent self s = gives ((offset, length bs), chunk_sums checksum bs)"
    and "holds_at (sf_source self) offset bs" "length (sf_source self) < 2 ^ 64"
    and "start \<le> stop" "stop \<le> length bs"
    and "digest_ok checksum"
  obtains from_at part where "read_checked checksum self s start stop = gives (part, start - from_at)"
    "from_at \<le> start" "holds_at part (start - from_at) (take (stop - start) (drop start bs))"
proof -
  from read_checked_part [OF assms] obtain from_at part where
    read: "read_checked checksum self s start stop = gives (part, start - from_at)" "from_at \<le> start"
      "stop \<le> from_at + length part" "holds_at bs from_at part" .
  from holds_at_slice [OF read(4,2) assms(4) read(3)] assms(5)
  have "holds_at part (start - from_at) (take (stop - start) (drop start bs))" by (simp add: holds_at_def)
  with read(1,2) that show ?thesis by blast
qed

end
