(* ===== verification/Segment_Open.thy ===== *)
theory Segment_Open
  imports Segment_File
begin

text \<open>
  Opening what a writer finished: the head reads back, its table gives every section its place in the
  file, and the index, the chunk sums and the fingerprint index pass their checks.
\<close>

section \<open>The head\<close>

lemma segment_fields_eq:
  "segment_fields w =
     segment_magic @ le32 segment_format_version @ le32 (of_nat (dw_tokenizer w)) @ le32 (of_nat (dw_codec w)) @
     le32 postings_codec @ le32 (of_nat (tw_first w)) @ le32 (of_nat (tw_last w)) @ le64 (of_nat (dw_terms w)) @
     le64 (of_nat (dw_pairs w + writer_records w)) @ le32 (of_nat chunk) @ le32 (of_nat (length (writer_sections w))) @
     replicate 8 0"
  by (simp add: segment_fields_def Let_def fields_len_def segment_magic_def)

lemma length_segment_magic [simp]: "length segment_magic = 8"
  by (simp add: segment_magic_def)

lemma length_segment_fields [simp]: "length (segment_fields w) = fields_len"
  by (simp add: segment_fields_eq fields_len_def)

lemma length_table_bytes:
  "(\<And>s. s \<in> set ss \<Longrightarrow> length (digests s) = 16) \<Longrightarrow> length (table_bytes lengths digests offset ss) = length ss * table_entry"
  by (induction ss arbitrary: offset) (simp_all add: table_entry_def)

text \<open>The table of sections laid end to end from an offset.\<close>

fun laid_table :: "(segment_section \<Rightarrow> nat) \<Rightarrow> (segment_section \<Rightarrow> bytes) \<Rightarrow> nat \<Rightarrow> segment_section list \<Rightarrow> seg_table \<Rightarrow> seg_table" where
  "laid_table lengths digests offset [] table = table"
| "laid_table lengths digests offset (s # ss) table =
     laid_table lengths digests (offset + lengths s) ss (table(s := (offset, lengths s, digests s)))"

lemma table_loop_laid:
  assumes "holds_at head at (table_bytes lengths digests offset ss)" "offset + sum_list (map lengths ss) \<le> sz" "sz < 2 ^ 64"
    and "\<And>s. s \<in> set ss \<Longrightarrow> length (digests s) = 16"
  shows "table_loop head sz ss at offset table = gives (offset + sum_list (map lengths ss), laid_table lengths digests offset ss table)"
  using assms
proof (induction ss arbitrary: at offset table)
  case (Cons s ss)
  have h: "holds_at head at (le64 (of_nat offset))" "holds_at head (at + 8) (le64 (of_nat (lengths s)))"
    "holds_at head (at + 16) (digests s)" "holds_at head (at + table_entry) (table_bytes lengths digests (offset + lengths s) ss)"
    using Cons.prems(1,4) by (simp_all add: holds_at_append add.assoc table_entry_def)
  have small: "offset < 2 ^ 64" "lengths s < 2 ^ 64" "offset + lengths s < 2 ^ 64" "offset + lengths s \<le> sz"
    using Cons.prems(2,3) by simp_all
  have fields: "u64_at head at = Some (of_nat offset)" "u64_at head (at + 8) = Some (of_nat (lengths s))"
    "slice head (at + 16) (at + 32) = Some (digests s)"
    using h Cons.prems(4) [of s] by (simp_all add: u64_at_Some slice_eq_Some)
  have "checked_add_u64 offset (lengths s) = Some (offset + lengths s)" using small by (simp add: checked_add_u64_def)
  then have "table_loop head sz (s # ss) at offset table =
      table_loop head sz ss (at + table_entry) (offset + lengths s) (table(s := (offset, lengths s, digests s)))"
    using small by (simp only: table_loop.simps fields bind.bind_lunit unat_u64 option.case) simp
  also have "\<dots> = gives (offset + lengths s + sum_list (map lengths ss),
      laid_table lengths digests (offset + lengths s) ss (table(s := (offset, lengths s, digests s))))"
    by (rule Cons.IH) (use h(4) Cons.prems in simp_all)
  finally show ?case by (simp add: add.assoc)
qed simp

lemma laid_table_other: "s \<notin> set ss \<Longrightarrow> laid_table lengths digests offset ss table s = table s"
  by (induction ss arbitrary: offset table) simp_all

lemma laid_table_at:
  assumes "holds_at file offset (concat (map bytes ss))" "distinct ss" "s \<in> set ss"
  shows "\<exists>at. laid_table (\<lambda>s. length (bytes s)) digests offset ss table s = (at, length (bytes s), digests s) \<and>
    holds_at file at (bytes s)"
  using assms
proof (induction ss arbitrary: offset table)
  case (Cons s' ss)
  have h: "holds_at file offset (bytes s')" "holds_at file (offset + length (bytes s')) (concat (map bytes ss))"
    using Cons.prems(1) by (simp_all add: holds_at_append)
  show ?case
  proof (cases "s = s'")
    case True
    with h(1) Cons.prems(2) show ?thesis by (simp add: laid_table_other)
  next
    case False
    with Cons.IH [OF h(2)] Cons.prems show ?thesis by simp
  qed
qed simp

lemma sections_of_ok: "sections_of c = Some ss \<Longrightarrow> distinct ss \<and> length ss \<in> {4, 6} \<and> {SecBlocks, SecPostings, SecIndex, SecSums} \<subseteq> set ss"
  by (auto simp: sections_of_def split: if_splits)

definition finished_info :: "dict_writer \<Rightarrow> info" where
  "finished_info w =
     \<lparr>in_first = of_nat (tw_first w), in_last = of_nat (tw_last w), in_terms = of_nat (dw_terms w),
      in_pairs = of_nat (dw_pairs w + writer_records w), in_tokenizer_version = of_nat (dw_tokenizer w)\<rparr>"

lemma length_segment_head:
  "digest_ok checksum \<Longrightarrow> (\<And>s. length (digests s) = 16) \<Longrightarrow> length (segment_head checksum w lengths digests) = head_len (length (writer_sections w))"
  by (simp add: segment_head_def Let_def length_table_bytes checksum_length head_len_def)

lemma head_read_finished:
  assumes whole: "file = segment_head checksum w lengths digests @ rest" and secs: "sections_of (dw_codec w) = Some ss"
    and range: "tw_first w \<le> tw_last w" "tw_last w < 2 ^ 32" and digests: "\<And>s. length (digests s) = 16"
    and small: "length file < 2 ^ 64" and digest: "digest_ok checksum"
  shows "head_read checksum file (length file) =
    gives \<lparr>sh_bytes = segment_head checksum w lengths digests, sh_dictionary = of_nat (dw_codec w), sh_sections = ss,
           sh_info = finished_info w\<rparr>"
proof -
  let ?H = "segment_head checksum w lengths digests" and ?n = "length ss"
  let ?T = "table_bytes lengths digests (head_len ?n) ss"
  have ss: "writer_sections w = ss" by (simp add: writer_sections_def secs unwrap_or_def)
  have n: "?n = 4 \<or> ?n = 6" using sections_of_ok [OF secs] by auto
  have H: "?H = segment_fields w @ ?T @ checksum (segment_fields w @ ?T)" by (simp add: segment_head_def Let_def ss)
  have len: "length ?H = head_len ?n" using length_segment_head [OF digest digests, of w lengths] by (simp add: ss)
  have T: "length ?T = ?n * table_entry" by (rule length_table_bytes) (rule digests)
  define head where "head = take (min (length file) head_max) file"
  have head: "read_exact_at file (min (length file) head_max) 0 = gives head"
    using small by (simp add: read_exact_at_def checked_add_u64_def slice_def head_def)
  have long: "head_len ?n \<le> length head" using n len by (auto simp: head_def whole head_max_def head_len_def table_entry_def)
  have take: "take (head_len ?n) head = ?H"
    using n len by (auto simp: head_def whole head_max_def head_len_def table_entry_def min_def)
  have at: "holds_at head a x" if "holds_at ?H a x" for a x
    using that append_take_drop_id [of "head_len ?n" head] unfolding take holds_at_iff by (metis append_assoc)
  have F: "holds_at ?H 0 (segment_fields w)" unfolding H holds_at_append by (simp add: holds_at_iff)
  have f: "holds_at ?H 0 segment_magic" "holds_at ?H 8 (le32 segment_format_version)" "holds_at ?H 12 (le32 (of_nat (dw_tokenizer w)))"
    "holds_at ?H 16 (le32 (of_nat (dw_codec w)))" "holds_at ?H 20 (le32 postings_codec)" "holds_at ?H 24 (le32 (of_nat (tw_first w)))"
    "holds_at ?H 28 (le32 (of_nat (tw_last w)))" "holds_at ?H 32 (le64 (of_nat (dw_terms w)))"
    "holds_at ?H 40 (le64 (of_nat (dw_pairs w + writer_records w)))" "holds_at ?H 48 (le32 (of_nat chunk))"
    "holds_at ?H 52 (le32 (of_nat ?n))" "holds_at ?H 56 (replicate 8 0)"
    using F unfolding segment_fields_eq ss holds_at_append by simp_all
  have codec_id: "dw_codec w = dictionary_codec \<or> dw_codec w = fingerprint_codec" using secs by (auto simp: sections_of_def split: if_splits)
  then have unat_codec: "unat (of_nat (dw_codec w) :: u32) = dw_codec w" by (auto simp: dictionary_codec_def fingerprint_codec_def)
  define A where "A = segment_fields w @ ?T"
  have HA: "?H = A @ checksum A" by (simp add: H A_def)
  have lenA: "head_len ?n = length A + 16" using len by (simp add: HA checksum_length [OF digest])
  have body: "slice (A @ checksum A) 0 (head_len ?n - 16) = Some A" "slice (A @ checksum A) (head_len ?n - 16) (head_len ?n) = Some (checksum A)"
    unfolding lenA by (simp_all add: slice_def checksum_length [OF digest])
  have words: "u32_at head 8 = Some segment_format_version" "u32_at head 16 = Some (of_nat (dw_codec w))"
    "u32_at head 20 = Some postings_codec" "slice head 0 8 = Some segment_magic"
    using f at by (simp_all add: u32_at_Some slice_eq_Some)
  have order: "\<not> (of_nat (tw_last w) :: u32) < of_nat (tw_first w)"
    using range by (simp add: word_less_nat_alt unat_of_nat)
  have count: "unat (of_nat ?n :: u32) = ?n" "unat (of_nat chunk :: u32) = chunk" using n by (auto simp: chunk_def)
  have fixed: "head_fields ?H (of_nat (dw_codec w)) ss =
      gives \<lparr>sh_bytes = ?H, sh_dictionary = of_nat (dw_codec w), sh_sections = ss, sh_info = finished_info w\<rparr>"
  proof -
    have "u32_at ?H 12 = Some (of_nat (dw_tokenizer w))" "u32_at ?H 24 = Some (of_nat (tw_first w))" "u32_at ?H 28 = Some (of_nat (tw_last w))"
      "u64_at ?H 32 = Some (of_nat (dw_terms w))" "u64_at ?H 40 = Some (of_nat (dw_pairs w + writer_records w))"
      "u32_at ?H 48 = Some (of_nat chunk)" "u32_at ?H 52 = Some (of_nat ?n)" "slice ?H 56 fields_len = Some (replicate 8 0)"
      using f by (simp_all add: u32_at_Some u64_at_Some slice_eq_Some fields_len_def)
    then show ?thesis unfolding head_fields_def finished_info_def by (simp only: bind.bind_lunit count) (simp add: order)
  qed
  have "12 \<le> length head" "head_len 4 \<le> length head" using long n by (auto simp: head_len_def fields_len_def table_entry_def)
  then show ?thesis
    unfolding head_read_def head try_then_simps words bind.bind_lunit unat_codec secs
    using long body fixed by (simp add: Let_def take HA)
qed


section \<open>The index of a layout\<close>

fun items_of :: "pfor \<Rightarrow> nat \<Rightarrow> nat \<Rightarrow> nat \<Rightarrow> dentry list list \<Rightarrow> index_item list" where
  "items_of pf first_doc step postings_step [] = []"
| "items_of pf first_doc step postings_step (b # bl) =
     (fst (hd b), step, postings_step) # items_of pf first_doc (length (dblock pf first_doc b)) (length (dposts pf first_doc b)) bl"

abbreviation dict_items :: "pfor \<Rightarrow> nat \<Rightarrow> dentry list list \<Rightarrow> index_item list" where
  "dict_items pf first_doc bl \<equiv> items_of pf first_doc 0 0 bl"

lemma dindex_items: "dindex pf first_doc step postings_step bl = index_of (items_of pf first_doc step postings_step bl)"
  by (induction bl arbitrary: step postings_step) simp_all

lemma length_items_of [simp]: "length (items_of pf first_doc step postings_step bl) = length bl"
  by (induction bl arbitrary: step postings_step) simp_all

lemma items_of_Nil_iff [simp]: "items_of pf first_doc step postings_step bl = [] \<longleftrightarrow> bl = []"
  by (cases bl) simp_all

lemma items_terms: "map fst (items_of pf first_doc step postings_step bl) = map (fst \<circ> hd) bl"
  by (induction bl arbitrary: step postings_step) simp_all

lemma items_term_nth: "i < length bl \<Longrightarrow> fst (items_of pf first_doc step postings_step bl ! i) = fst (hd (bl ! i))"
  by (induction bl arbitrary: i step postings_step) (auto simp: nth_Cons split: nat.splits)

lemma items_sums:
  "i < length bl \<Longrightarrow> steps_sum (take (Suc i) (items_of pf first_doc step postings_step bl)) = step + length (dblocks pf first_doc (take i bl))"
  "i < length bl \<Longrightarrow> postings_sum (take (Suc i) (items_of pf first_doc step postings_step bl)) = postings_step + length (dpostings pf first_doc (take i bl))"
proof (induction bl arbitrary: i step postings_step)
  case (Cons b bl)
  {
    case 1
    with Cons.IH(1) show ?case by (cases i) (simp_all add: dblocks_def)
  next
    case 2
    with Cons.IH(2) show ?case by (cases i) (simp_all add: dpostings_def)
  }
qed simp_all

lemma items_steps:
  "i < length bl \<Longrightarrow> fst (snd (items_of pf first_doc step postings_step bl ! i)) = (if i = 0 then step else length (dblock pf first_doc (bl ! (i - 1))))"
  by (induction bl arbitrary: i step postings_step) (auto simp: nth_Cons split: nat.splits)

lemma layout_take_le:
  "length (dblocks pf first_doc (take i bl)) \<le> length (dblocks pf first_doc bl)"
  "length (dpostings pf first_doc (take i bl)) \<le> length (dpostings pf first_doc bl)"
  by (metis append_take_drop_id layout_append(1,4) length_append le_add1)+

lemma sorted_firsts_of_blocks:
  fixes bl :: "('a::linorder \<times> 'b) list list"
  assumes "sorted_wrt (<) (map fst (concat bl))" "\<forall>b\<in>set bl. b \<noteq> []"
  shows "sorted_wrt (<) (map (fst \<circ> hd) bl)"
  using assms
proof (induction bl)
  case (Cons b bl)
  have "fst (hd b) < fst (hd b')" if "b' \<in> set bl" for b'
    using Cons.prems that by (force simp: sorted_wrt_append)
  with Cons show ?case by (simp add: sorted_wrt_append)
qed simp

lemma dict_items_ok:
  assumes "sorted_wrt (<) (map fst (concat bl))" "\<forall>b\<in>set bl. b \<noteq> []"
    and "length (dblocks pf first_doc bl) < 2 ^ 64" "length (dpostings pf first_doc bl) < 2 ^ 64" "length (dindex pf first_doc 0 0 bl) < 2 ^ 64"
  shows "index_ok (dict_items pf first_doc bl) (length (dblocks pf first_doc bl)) (length (dpostings pf first_doc bl))"
proof -
  let ?xs = "dict_items pf first_doc bl"
  have sums: "steps_sum ?xs < length (dblocks pf first_doc bl) \<and> postings_sum ?xs \<le> length (dpostings pf first_doc bl)" if "bl \<noteq> []"
  proof -
    from that obtain bl' b where bl: "bl = bl' @ [b]" by (metis rev_exhaust)
    have "take (Suc (length bl')) ?xs = ?xs" by (simp add: bl)
    then have "steps_sum ?xs = length (dblocks pf first_doc bl')" "postings_sum ?xs = length (dpostings pf first_doc bl')"
      using items_sums [of "length bl'" bl pf first_doc 0 0] by (simp_all add: bl)
    moreover have "dblock pf first_doc b \<noteq> []" using assms(2) by (intro dblock_nonempty) (simp add: bl)
    ultimately show ?thesis by (simp add: bl)
  qed
  have steps: "fst (snd (?xs ! i)) = 0 \<longleftrightarrow> i = 0" if "i < length ?xs" for i
  proof (cases i)
    case (Suc j)
    then have "bl ! j \<noteq> []" using that assms(2) by (auto dest!: nth_mem)
    from dblock_nonempty [OF this] Suc that show ?thesis by (simp add: items_steps)
  qed (use that in \<open>simp add: items_steps\<close>)
  show ?thesis
    unfolding index_ok_def items_terms
    using sums steps sorted_firsts_of_blocks [OF assms(1,2)] assms(3-) by (cases bl) (auto simp: dindex_items)
qed

lemma length_dblock_ge: "length b \<le> length (dblock pf first_doc b)"
proof -
  have tail: "1 \<le> length (tail_bytes pf first_doc docs)" for docs
    using length_put(1) [of "of_nat (length docs)"] unfolding tail_bytes_def length_append by linarith
  have "length es \<le> length (rest_bytes pf first_doc prev es)" for prev es
  proof (induction es arbitrary: prev)
    case (Cons e es)
    from Cons.IH [of "fst e"] tail [of "snd e"] show ?case by simp
  qed simp
  with tail show ?thesis by (cases b) (simp_all add: add_mono Suc_le_eq add_strict_increasing)
qed

lemma length_dblocks_ge: "length (concat bl) \<le> length (dblocks pf first_doc bl)"
  by (induction bl) (simp_all add: dblocks_def length_dblock_ge add_mono)

section \<open>Opening\<close>

definition section_at :: "(bytes \<Rightarrow> bytes) \<Rightarrow> segment \<Rightarrow> segment_section \<Rightarrow> bytes \<Rightarrow> bool" where
  "section_at checksum self s bs \<longleftrightarrow>
     (\<exists>offset. extent self s = gives ((offset, length bs), chunk_sums checksum bs) \<and> holds_at (sf_source self) offset bs)"

text \<open>An open segment that holds the terms \<open>es\<close> and the records \<open>rs\<close>.\<close>

definition segment_holds ::
  "(bytes \<Rightarrow> bytes) \<Rightarrow> pfor \<Rightarrow> nat \<Rightarrow> nat \<Rightarrow> dentry list \<Rightarrow> fp_record list \<Rightarrow> segment \<Rightarrow> bool"
where
  "segment_holds checksum pf first_doc last_doc es rs self \<longleftrightarrow>
     (let bl = dict_blocks es in
      unat (in_first (sf_info self)) = first_doc \<and> unat (in_last (sf_info self)) = last_doc \<and>
      unat (in_terms (sf_info self)) = length es \<and> length (sf_source self) < 2 ^ 64 \<and>
      section_at checksum self SecBlocks (dblocks pf first_doc bl) \<and> section_at checksum self SecPostings (dpostings pf first_doc bl) \<and>
      section_at checksum self SecFingerprints (section_bytes (record_blocks rs)) \<and>
      snd (sf_blocks_at self) = length (dblocks pf first_doc bl) \<and> snd (sf_postings_at self) = length (dpostings pf first_doc bl) \<and>
      snd (sf_fingerprints_at self) = section_len rs \<and> section_len rs < 2 ^ 32 \<and> sf_fingerprints self = parsed_index rs \<and>
      sf_index_bytes self = index_of (dict_items pf first_doc bl) \<and> sf_samples self = index_samples (dict_items pf first_doc bl) \<and>
      sf_blocks self = length bl \<and> length (sf_index_bytes self) < 2 ^ 64)"

abbreviation written_records :: "(bytes \<Rightarrow> u32) \<Rightarrow> dict_writer \<Rightarrow> writer_call list \<Rightarrow> fp_record list" where
  "written_records fingerprint w cs \<equiv> sorted_list_of_set (set (demoted fingerprint w) \<union> set (carried_records w cs))"

lemma sealed_writer:
  assumes "writer_inv pf fingerprint w cs"
  defines "w' \<equiv> seal_records w" and "rs \<equiv> written_records fingerprint w cs"
  shows "finished_bytes checksum w' SecFingerprints = section_bytes (record_blocks rs)"
    and "dw_singles w' \<noteq> None \<Longrightarrow> \<exists>e. encodes [] e rs \<and> finished_bytes checksum w' SecFingerprintIndex = fe_index_section e \<and>
           fe_len e = section_len rs \<and> (check_record_length w' \<longrightarrow> section_len rs < 2 ^ 32)"
    and "dw_singles w' = None \<Longrightarrow> rs = []"
    and "sections_of (dw_codec w') = Some (writer_sections w')"
    and "dw_codec w' = dictionary_codec \<longleftrightarrow> dw_singles w' = None"
    and "SecFingerprintIndex \<in> set (writer_sections w') \<longleftrightarrow> dw_singles w' \<noteq> None"
    and "SecFingerprints \<in> set (writer_sections w') \<longleftrightarrow> dw_singles w' \<noteq> None"
    and "check_record_length w' \<longleftrightarrow> section_len rs < 2 ^ 32"
    and "writer_records w' = length rs"
proof -
  consider (plain) "dw_singles w = None" "dw_codec w = dictionary_codec" "call_records cs = []"
    | (records) sg where "dw_singles w = Some sg" "dw_codec w = fingerprint_codec" "records_ok sg (demoted fingerprint w) (carried_records w cs)"
    using assms(1) by (auto simp: writer_inv_def split: option.splits)
  note cases = this
  have enc: "encodes [] (sg_encoder (flush_below None (singles_seal sg))) rs" if "records_ok sg (demoted fingerprint w) (carried_records w cs)" for sg
    unfolding rs_def by (rule seal_records_ok [OF that])
  note defs = w'_def seal_records_def writer_sections_def sections_of_def unwrap_or_def dictionary_codec_def fingerprint_codec_def
  show "finished_bytes checksum w' SecFingerprints = section_bytes (record_blocks rs)"
  proof (cases rule: cases)
    case plain
    then show ?thesis by (simp add: defs rs_def finished_bytes_def demoted_def carried_records_def blocks_of_def)
  next
    case records
    with enc [OF records(3)] show ?thesis by (simp add: defs finished_bytes_def encodes_def)
  qed
  show "\<exists>e. encodes [] e rs \<and> finished_bytes checksum w' SecFingerprintIndex = fe_index_section e \<and>
           fe_len e = section_len rs \<and> (check_record_length w' \<longrightarrow> section_len rs < 2 ^ 32)" if "dw_singles w' \<noteq> None"
  proof (cases rule: cases)
    case plain
    with that show ?thesis by (simp add: defs)
  next
    case records
    let ?e = "sg_encoder (flush_below None (singles_seal sg))"
    have len: "fe_len ?e = section_len rs" using enc [OF records(3)] by (simp add: fe_len_def encodes_def)
    then have "check_record_length w' \<longrightarrow> section_len rs < 2 ^ 32" using records(1) by (simp add: check_record_length_def defs)
    moreover have "finished_bytes checksum w' SecFingerprintIndex = fe_index_section ?e" using records(1) by (simp add: finished_bytes_def defs)
    ultimately show ?thesis using enc [OF records(3)] len by blast
  qed
  show "rs = []" if "dw_singles w' = None"
    using that by (cases rule: cases) (auto simp: defs rs_def demoted_def carried_records_def)
  show "sections_of (dw_codec w') = Some (writer_sections w')"
    "dw_codec w' = dictionary_codec \<longleftrightarrow> dw_singles w' = None"
    "SecFingerprintIndex \<in> set (writer_sections w') \<longleftrightarrow> dw_singles w' \<noteq> None"
    "SecFingerprints \<in> set (writer_sections w') \<longleftrightarrow> dw_singles w' \<noteq> None"
    by (cases rule: cases; auto simp: defs)+
  have len: "fe_len e = section_len rs" "fe_records e = length rs" if "encodes [] e rs" for e
    using that by (simp_all add: fe_len_def encodes_def)
  show "check_record_length w' \<longleftrightarrow> section_len rs < 2 ^ 32"
  proof (cases rule: cases)
    case plain
    then show ?thesis by (simp add: defs check_record_length_def rs_def demoted_def carried_records_def blocks_of_def)
  next
    case records
    then show ?thesis using len(1) [OF enc [OF records(3)]] by (auto simp: check_record_length_def defs)
  qed
  show "writer_records w' = length rs"
  proof (cases rule: cases)
    case plain
    then show ?thesis by (simp add: defs writer_records_def rs_def demoted_def carried_records_def)
  next
    case records
    then show ?thesis using len(2) [OF enc [OF records(3)]] by (simp add: writer_records_def defs)
  qed
qed

lemma holds_at_end: "holds_at (a @ x) (length a) x"
  by (simp add: holds_at_def slice_def)

lemma chunk_digests_finished:
  assumes "bytes = finished_bytes checksum w" "lengths = (\<lambda>s. length (bytes s))" and digest: "digest_ok checksum"
  obtains d where "chunk_digests checksum lengths (bytes SecSums) (\<lambda>s. checksum (bytes s)) = Some d"
    "\<And>s. length (d s) = 16" "\<And>s. s \<notin> {SecBlocks, SecPostings, SecFingerprints} \<Longrightarrow> d s = checksum (bytes s)"
proof -
  let ?a = "chunk_sums checksum (bytes SecBlocks)" and ?b = "chunk_sums checksum (bytes SecPostings)" and ?c = "chunk_sums checksum (bytes SecFingerprints)"
  have sums: "bytes SecSums = ?a @ ?b @ ?c" by (simp add: assms(1) finished_bytes_def Let_def)
  have lens: "div_ceil (lengths SecBlocks) chunk * 16 = length ?a" "div_ceil (lengths SecPostings) chunk * 16 = length ?b"
    "div_ceil (lengths SecFingerprints) chunk * 16 = length ?c"
    by (simp_all add: assms(2) length_chunk_sums [OF digest] chunk_count_def)
  have "slice (bytes SecSums) 0 (length ?a) = Some ?a" "slice (bytes SecSums) (length ?a) (length ?a + length ?b) = Some ?b"
    "slice (bytes SecSums) (length ?a + length ?b) (length ?a + length ?b + length ?c) = Some ?c"
    unfolding sums by (simp_all add: slice_def)
  then have "chunk_digests checksum lengths (bytes SecSums) (\<lambda>s. checksum (bytes s)) =
      Some ((\<lambda>s. checksum (bytes s))(SecBlocks := checksum ?a, SecPostings := checksum ?b, SecFingerprints := checksum ?c))"
    unfolding chunk_digests_def lens Let_def by simp
  from that [OF this] show ?thesis by (simp add: checksum_length [OF digest])
qed

lemma read_whole_at:
  assumes "table s = (at, length bs, checksum bs)" "holds_at source at bs" "length source < 2 ^ 64"
  shows "read_whole checksum source table s = gives bs"
proof -
  have "at + length bs < 2 ^ 64" using holds_at_length [OF assms(2)] assms(3) by linarith
  then have "read_exact_at source (length bs) at = gives bs"
    using assms(2) by (simp add: read_exact_at_def checked_add_u64_def holds_at_def)
  then show ?thesis by (simp add: read_whole_def assms(1))
qed

lemma segment_open_finished:
  assumes inv: "writer_inv pf fingerprint w cs" and fin: "writer_finish checksum w = Some (Inr (file, z))"
    and last_doc: "tw_last w < 2 ^ 32" and small: "length file < 2 ^ 64" and digest: "digest_ok checksum"
  obtains self where "segment_open checksum file = gives self"
    "segment_holds checksum pf (tw_first w) (tw_last w) (dict_entries w) (written_records fingerprint w cs) self"
proof -
  define w' where "w' = seal_records w"
  define bytes where "bytes = finished_bytes checksum w'"
  define lengths where "lengths = (\<lambda>s. length (bytes s))"
  define ss where "ss = writer_sections w'"
  define rs where "rs = written_records fingerprint w cs"
  note fps = sealed_writer(1,2) [OF inv, where checksum = checksum, folded w'_def rs_def, folded bytes_def]
    and codecs = sealed_writer(3-7) [OF inv, folded w'_def rs_def, folded ss_def]
  obtain d where d: "chunk_digests checksum lengths (bytes SecSums) (\<lambda>s. checksum (bytes s)) = Some d"
    "\<And>s. length (d s) = 16" "\<And>s. s \<notin> {SecBlocks, SecPostings, SecFingerprints} \<Longrightarrow> d s = checksum (bytes s)"
    using chunk_digests_finished [OF bytes_def lengths_def digest] by blast
  have checked: "check_record_length w'" and whole: "file = segment_head checksum w' lengths d @ concat (map bytes ss)"
    using fin d(1) unfolding writer_finish_def Let_def w'_def [symmetric] bytes_def [symmetric] lengths_def [symmetric] ss_def [symmetric]
    by (auto split: if_splits)
  have same: "tw_first w' = tw_first w" "tw_last w' = tw_last w" "dw_terms w' = dw_terms w"
    by (simp_all add: w'_def seal_records_def)
  have range: "tw_first w' \<le> tw_last w'" "tw_last w' < 2 ^ 32"
    using inv last_doc by (simp_all add: same writer_inv_def accepted_terms_def)
  define H where "H = segment_head checksum w' lengths d"
  have head: "head_read checksum file (length file) =
      gives \<lparr>sh_bytes = H, sh_dictionary = of_nat (dw_codec w'), sh_sections = ss, sh_info = finished_info w'\<rparr>"
    unfolding H_def by (rule head_read_finished [OF whole codecs(2) range d(2) small digest])
  have len: "length H = head_len (length ss)" using length_segment_head [OF digest d(2), of w' lengths] by (simp add: H_def ss_def)
  have secs: "distinct ss" "{SecBlocks, SecPostings, SecIndex, SecSums} \<subseteq> set ss" using sections_of_ok [OF codecs(2)] by auto
  have total: "length (concat (map bytes ss)) = sum_list (map lengths ss)" by (simp add: length_concat lengths_def o_def)
  define table where "table = laid_table lengths d (head_len (length ss)) ss (\<lambda>_. (0, 0, replicate 16 0))"
  have "holds_at H fields_len (table_bytes lengths d (head_len (length ss)) ss)"
    by (simp add: H_def segment_head_def Let_def holds_at_iff ss_def [symmetric])
       (metis length_segment_fields append_assoc)
  then have "table_loop H (length file) ss fields_len (head_len (length ss)) (\<lambda>_. (0, 0, replicate 16 0)) =
      gives (head_len (length ss) + sum_list (map lengths ss), table)"
    unfolding table_def using len total small d(2) by (intro table_loop_laid) (simp_all add: whole H_def [symmetric])
  then have table: "head_table \<lparr>sh_bytes = H, sh_dictionary = of_nat (dw_codec w'), sh_sections = ss, sh_info = finished_info w'\<rparr> (length file) = gives table"
    using len total by (simp add: head_table_def whole H_def [symmetric])
  have at: "\<exists>offset. table s = (offset, length (bytes s), d s) \<and> holds_at file offset (bytes s)" if "s \<in> set ss" for s
    unfolding table_def lengths_def
    by (rule laid_table_at [OF _ secs(1) that]) (simp add: whole H_def [symmetric] len [symmetric] holds_at_end)
  define bl where "bl = dict_blocks (dict_entries w)"
  define items where "items = dict_items pf (tw_first w) bl"
  have lays: "dw_blocks w = dblocks pf (tw_first w) bl" "dw_postings w = dpostings pf (tw_first w) bl"
    "dw_index w = index_of items" "dw_terms w = length (dict_entries w)" "accepted_terms w"
    using inv by (simp_all add: writer_inv_def lays_out_def Let_def bl_def items_def dindex_items)
  have laid: "bytes SecBlocks = dblocks pf (tw_first w) bl" "bytes SecPostings = dpostings pf (tw_first w) bl" "bytes SecIndex = index_of items"
    by (simp_all add: bytes_def finished_bytes_def Let_def w'_def seal_records_def lays)
  let ?A = "chunk_sums checksum (bytes SecBlocks)" and ?B = "chunk_sums checksum (bytes SecPostings)" and ?C = "chunk_sums checksum (bytes SecFingerprints)"
  have sums: "bytes SecSums = ?A @ ?B @ ?C" by (simp add: bytes_def finished_bytes_def Let_def)
  have le: "length (bytes s) \<le> length file" if "s \<in> set ss" for s
    using at [OF that] holds_at_length by fastforce
  have lens: "length (dblocks pf (tw_first w) bl) < 2 ^ 64" "length (dpostings pf (tw_first w) bl) < 2 ^ 64" "length (index_of items) < 2 ^ 64"
    using le [of SecBlocks] le [of SecPostings] le [of SecIndex] secs(2) small unfolding laid by auto
  have whole_read: "read_whole checksum file table s = gives (bytes s)" if "s \<in> set ss" "s \<notin> {SecBlocks, SecPostings, SecFingerprints}" for s
    using at [OF that(1)] d(3) [OF that(2)] small by (auto intro: read_whole_at)
  obtain b p f where places: "table SecBlocks = (b, length (bytes SecBlocks), d SecBlocks)" "holds_at file b (bytes SecBlocks)"
    "table SecPostings = (p, length (bytes SecPostings), d SecPostings)" "holds_at file p (bytes SecPostings)"
    "fst (table SecFingerprints) = f" "fst (snd (table SecFingerprints)) = length (bytes SecFingerprints)" "holds_at file f (bytes SecFingerprints)"
  proof -
    have "\<exists>f. fst (table SecFingerprints) = f \<and> fst (snd (table SecFingerprints)) = length (bytes SecFingerprints) \<and> holds_at file f (bytes SecFingerprints)"
    proof (cases "SecFingerprints \<in> set ss")
      case True
      from at [OF True] show ?thesis by auto
    next
      case False
      then have "bytes SecFingerprints = []" using codecs(1,5) fps(1) by (simp add: blocks_of_def)
      with False show ?thesis by (simp add: table_def laid_table_other holds_at_Nil)
    qed
    with at [of SecBlocks] at [of SecPostings] secs(2) that show ?thesis by auto
  qed
  have counts: "chunk_count (length (bytes SecBlocks)) * 16 = length ?A" "chunk_count (length (bytes SecPostings)) * 16 = length ?B"
    "chunk_count (length (bytes SecFingerprints)) * 16 = length ?C"
    by (simp_all add: length_chunk_sums [OF digest])
  have sums_len: "length (bytes SecSums) = (chunk_count (length (bytes SecBlocks)) + chunk_count (length (bytes SecPostings)) + chunk_count (length (bytes SecFingerprints))) * 16"
    by (simp add: sums counts [symmetric] distrib_right)
  have terms: "unat (of_nat (dw_terms w) :: u64) = length (dict_entries w)"
    using length_dblocks_ge [of bl pf "tw_first w"] lens(1) by (simp add: lays(4) bl_def term_blocks.blocks_of_ok(2))
  have blocks: "div_ceil (length (dict_entries w)) block_terms = length bl"
  proof (cases "bl = []")
    case True
    then have "dict_entries w = []" by (simp add: bl_def term_blocks.blocks_of_eq_Nil)
    with True show ?thesis by (simp add: div_ceil_def block_terms_def)
  next
    case False
    then have "0 < length (dict_blocks (dict_entries w))" by (simp add: bl_def)
    from term_blocks.wf_blocks_lengths(2) [OF term_blocks.blocks_of_ok(1) this] show ?thesis
      by (simp add: div_ceil_def bl_def term_blocks.blocks_of_ok(2))
  qed
  have "sorted_wrt (<) (map fst (dict_entries w))"
    using lays(5) by (simp add: accepted_terms_def dict_entries_def sorted_wrt_map sorted_wrt_filter)
  then have "sorted_wrt (<) (map fst (concat bl))" by (simp add: bl_def term_blocks.blocks_of_ok(2))
  moreover have "\<forall>b\<in>set bl. b \<noteq> []" using term_blocks.blocks_of_ok(1) [of "dict_entries w"] by (simp add: bl_def wf_blocks_def)
  ultimately have ok: "index_ok items (length (bytes SecBlocks)) (length (bytes SecPostings))"
    unfolding items_def laid using lens by (intro dict_items_ok) (simp_all add: dindex_items items_def)
  have parse: "parse_index (index_of items) (length (dict_entries w)) (length (bytes SecBlocks)) (length (bytes SecPostings)) = Some (index_samples items)"
    by (rule parse_index_ok [OF ok]) (simp_all add: blocks items_def laid)
  let ?fps = "if unat (of_nat (dw_codec w') :: u32) = dictionary_codec then gives fp_index_default
     else try_then (read_whole checksum file table SecFingerprintIndex) (\<lambda>bs.
       case fp_index_parse bs (length (bytes SecFingerprints)) of None \<Rightarrow> fails (ReCorrupt SecFingerprintIndex) | Some idx \<Rightarrow> gives idx)"
  have codec_word: "unat (of_nat (dw_codec w') :: u32) = dw_codec w'"
    using codecs(2) by (auto simp: sections_of_def dictionary_codec_def fingerprint_codec_def split: if_splits)
  have records: "?fps = gives (parsed_index rs)"
  proof (cases "dw_singles w' = None")
    case True
    then have "rs = []" "dw_codec w' = dictionary_codec" using codecs by simp_all
    then show ?thesis unfolding codec_word by (simp add: fp_index_default_def parsed_index_def blocks_of_def)
  next
    case False
    then obtain e where e: "encodes [] e rs" "bytes SecFingerprintIndex = fe_index_section e" "fe_len e = section_len rs" "section_len rs < 2 ^ 32"
      using fps(2) checked by blast
    have "sorted_records rs" by (simp add: sorted_records_iff rs_def)
    with fp_index_parse_encoded [OF e(1)] e(3,4) have "fp_index_parse (bytes SecFingerprintIndex) (length (bytes SecFingerprints)) = Some (parsed_index rs)"
      by (simp add: fps(1) e(2) parsed_index_def)
    moreover have "read_whole checksum file table SecFingerprintIndex = gives (bytes SecFingerprintIndex)"
      by (rule whole_read) (use codecs(4) False in simp_all)
    ultimately show ?thesis unfolding codec_word using codecs(3) False by simp
  qed
  have records_len: "section_len rs < 2 ^ 32"
    using fps(2) codecs(1) checked by (cases "dw_singles w' = None") (auto simp: blocks_of_def)
  have "16 \<le> length H" by (simp add: len head_len_def)
  then obtain dg where dg: "head_digest \<lparr>sh_bytes = H, sh_dictionary = of_nat (dw_codec w'), sh_sections = ss, sh_info = finished_info w'\<rparr> = Some dg"
    by (simp add: head_digest_def slice_def)
  define self where "self = \<lparr>sf_source = file, sf_info = finished_info w', sf_digest = dg,
    sf_blocks_at = (b, length (bytes SecBlocks)), sf_postings_at = (p, length (bytes SecPostings)),
    sf_lengths = (\<lambda>s. fst (snd (table s))), sf_codec = of_nat (dw_codec w'),
    sf_fingerprints_at = (f, length (bytes SecFingerprints)), sf_fingerprints = parsed_index rs,
    sf_sums = bytes SecSums, sf_index_bytes = index_of items, sf_samples = index_samples items, sf_blocks = length bl\<rparr>"
  have info: "unat (in_terms (finished_info w')) = length (dict_entries w)" using terms by (simp add: finished_info_def same)
  have reads: "read_whole checksum file table SecIndex = gives (index_of items)" "read_whole checksum file table SecSums = gives (bytes SecSums)"
    using whole_read [of SecIndex] whole_read [of SecSums] secs(2) by (simp_all add: laid(3))
  have "segment_open checksum file = gives self"
    by (simp only: segment_open_def Let_def head try_then_simps table seg_head.select_convs reads places(1,3,5,6) fst_conv snd_conv
        sums_len records parse info dg blocks option.case bind.bind_lunit simp_thms if_False self_def)
  moreover have "section_at checksum self SecBlocks (bytes SecBlocks)" "section_at checksum self SecPostings (bytes SecPostings)"
    "section_at checksum self SecFingerprints (bytes SecFingerprints)"
    using places(2,4,7) unfolding section_at_def extent_def Let_def
    by (simp_all add: self_def counts) (simp_all add: sums slice_def)
  then have "segment_holds checksum pf (tw_first w) (tw_last w) (dict_entries w) rs self"
    using range lens small terms records_len unfolding segment_holds_def Let_def bl_def [symmetric] items_def [symmetric] laid fps(1)
    by (simp add: self_def finished_info_def same unat_of_nat laid fps(1))
  ultimately show ?thesis using that unfolding rs_def by blast
qed

lemma writer_finish_result:
  assumes inv: "writer_inv pf fingerprint w cs" and digest: "digest_ok checksum"
  shows "if section_len (written_records fingerprint w cs) < 2 ^ 32
    then \<exists>file z. writer_finish checksum w = Some (Inr (file, z)) \<and> sizes_total z = length file \<and>
      sz_terms z = length (dict_entries w) \<and>
      sz_pairs z = sum_list (map (length \<circ> snd) (dict_entries w)) + length (written_records fingerprint w cs) \<and>
      sz_blocks z = length (dw_blocks w) \<and> sz_postings z = length (dw_postings w) \<and> sz_index z = length (dw_index w) \<and>
      sz_fingerprints z = section_len (written_records fingerprint w cs) \<and> sz_head z \<le> head_max \<and>
      sz_sums z = (chunk_count (sz_blocks z) + chunk_count (sz_postings z) + chunk_count (sz_fingerprints z)) * 16 \<and>
      sz_fingerprint_index z \<le> 10 + 8 * length (record_blocks (written_records fingerprint w cs))
    else writer_finish checksum w = Some (Inl ())"
proof -
  define w' where "w' = seal_records w"
  define bytes where "bytes = finished_bytes checksum w'"
  define rs where "rs = written_records fingerprint w cs"
  note fps = sealed_writer(1) [OF inv, where checksum = checksum, folded w'_def rs_def, folded bytes_def]
    and codecs = sealed_writer(4-9) [OF inv, folded w'_def rs_def]
  define lengths where "lengths = (\<lambda>s. length (bytes s))"
  obtain d where d: "chunk_digests checksum lengths (bytes SecSums) (\<lambda>s. checksum (bytes s)) = Some d" "\<And>s. length (d s) = 16"
    and "\<And>s. s \<notin> {SecBlocks, SecPostings, SecFingerprints} \<Longrightarrow> d s = checksum (bytes s)"
    using chunk_digests_finished [OF bytes_def lengths_def digest] by blast
  let ?file = "segment_head checksum w' lengths d @ concat (map bytes (writer_sections w'))"
  have fin: "writer_finish checksum w =
      (if section_len rs < 2 ^ 32 then Some (Inr (?file, sizes_of w' lengths)) else Some (Inl ()))"
    using writer_inv_unspilled [OF inv] by (simp add: writer_finish_def Let_def w'_def [symmetric] bytes_def [symmetric]
        lengths_def [symmetric] codecs(5) d(1))
  have gone: "bytes SecFingerprints = [] \<and> bytes SecFingerprintIndex = []" if "dw_singles w' = None"
    using that by (simp add: bytes_def finished_bytes_def)
  have total: "sizes_total (sizes_of w' lengths) = length ?file"
  proof -
    have "writer_sections w' = [SecBlocks, SecPostings, SecIndex, SecSums] \<and> dw_singles w' = None \<or>
        writer_sections w' = [SecBlocks, SecPostings, SecFingerprints, SecIndex, SecFingerprintIndex, SecSums]"
      using codecs(1,2) by (auto simp: sections_of_def split: if_splits)
    then show ?thesis
      using gone by (elim disjE) (simp_all add: sizes_total_def sizes_of_def length_segment_head [OF digest d(2)], simp_all add: lengths_def)
  qed
  have "dw_terms w' = length (dict_entries w)" "dw_pairs w' = sum_list (map (length \<circ> snd) (dict_entries w))"
    "bytes SecBlocks = dw_blocks w" "bytes SecPostings = dw_postings w" "bytes SecIndex = dw_index w"
    using inv by (simp_all add: w'_def seal_records_def writer_inv_def lays_out_def Let_def bytes_def finished_bytes_def)
  moreover have "length (bytes SecFingerprintIndex) \<le> 10 + 8 * length (record_blocks rs)"
  proof (cases "dw_singles w' = None")
    case False
    then obtain e where "encodes [] e rs" "bytes SecFingerprintIndex = fe_index_section e"
      using sealed_writer(2) [OF inv, where checksum = checksum, folded w'_def rs_def, folded bytes_def] by blast
    then show ?thesis using length_put(2) [of "of_nat (fe_records e)"] by (simp add: fe_index_section_def encodes_def length_index_bytes)
  qed (simp add: gone)
  moreover have "head_len (length (writer_sections w')) \<le> head_max"
    using sections_of_ok [OF codecs(1)] by (auto simp: head_max_def head_len_def table_entry_def)
  moreover have "length (bytes SecSums) =
      (chunk_count (length (bytes SecBlocks)) + chunk_count (length (bytes SecPostings)) + chunk_count (length (bytes SecFingerprints))) * 16"
    by (simp add: bytes_def finished_bytes_def Let_def length_chunk_sums [OF digest])
  ultimately show ?thesis
    unfolding rs_def [symmetric] fin using total by (simp add: sizes_of_def lengths_def codecs(6) fps)
qed

end
