(* ===== verification/Segment_Lookup.thy ===== *)
theory Segment_Lookup
  imports Segment_Open
begin

text \<open>
  Lookups in an open segment that holds what a writer laid out (\<open>segment_holds\<close>): a block is read and
  decoded, an entry points at its list, a hit decodes to the documents pushed, and the records with a
  term's fingerprint are found beside the dictionary.

  Results: the round trip from the calls of a writer through the bytes of its file to the answers of a
  reader, for both dictionary codecs.
\<close>

section \<open>One block\<close>

definition entries_fit :: "nat \<Rightarrow> nat \<Rightarrow> dentry list \<Rightarrow> bool" where
  "entries_fit first_doc last_doc es \<longleftrightarrow>
     sorted_wrt (<) (map fst es) \<and> (\<forall>e\<in>set es. fits_entry first_doc last_doc e) \<and> first_doc \<le> last_doc \<and> last_doc < 2 ^ 32"

lemma dict_block_parts:
  assumes "j < length (dict_blocks es)"
  shows "es = concat (take j (dict_blocks es)) @ dict_blocks es ! j @ concat (drop (Suc j) (dict_blocks es))"
    and "dict_blocks es ! j \<noteq> []"
proof -
  show "es = concat (take j (dict_blocks es)) @ dict_blocks es ! j @ concat (drop (Suc j) (dict_blocks es))"
    using term_blocks.blocks_of_ok(2) [of es] id_take_nth_drop [OF assms] by (metis concat.simps(2) concat_append)
  show "dict_blocks es ! j \<noteq> []" using term_blocks.blocks_of_ok(1) [of es] nth_mem [OF assms] by (auto simp: wf_blocks_def)
qed

lemma dblocks_nth:
  assumes "j < length bl"
  shows "take (length (dblocks pf first_doc (take (Suc j) bl)) - length (dblocks pf first_doc (take j bl)))
      (drop (length (dblocks pf first_doc (take j bl))) (dblocks pf first_doc bl)) = dblock pf first_doc (bl ! j)"
    "length (dblocks pf first_doc (take (Suc j) bl)) = length (dblocks pf first_doc (take j bl)) + length (dblock pf first_doc (bl ! j))"
    "length (dpostings pf first_doc (take (Suc j) bl)) = length (dpostings pf first_doc (take j bl)) + length (dposts pf first_doc (bl ! j))"
proof -
  show len: "length (dblocks pf first_doc (take (Suc j) bl)) = length (dblocks pf first_doc (take j bl)) + length (dblock pf first_doc (bl ! j))"
    "length (dpostings pf first_doc (take (Suc j) bl)) = length (dpostings pf first_doc (take j bl)) + length (dposts pf first_doc (bl ! j))"
    using assms by (simp_all add: take_Suc_conv_app_nth)
  have "dblocks pf first_doc bl = dblocks pf first_doc (take j bl) @ dblock pf first_doc (bl ! j) @ dblocks pf first_doc (drop (Suc j) bl)"
    using id_take_nth_drop [OF assms] by (metis layout_append(1,3) append_Cons append_Nil)
  with len(1) show "take (length (dblocks pf first_doc (take (Suc j) bl)) - length (dblocks pf first_doc (take j bl)))
      (drop (length (dblocks pf first_doc (take j bl))) (dblocks pf first_doc bl)) = dblock pf first_doc (bl ! j)" by simp
qed

lemma holds_items_ok:
  assumes "segment_holds checksum pf first_doc last_doc es rs self" "entries_fit first_doc last_doc es"
  shows "index_ok (dict_items pf first_doc (dict_blocks es)) (length (dblocks pf first_doc (dict_blocks es)))
    (length (dpostings pf first_doc (dict_blocks es)))"
proof -
  let ?bl = "dict_blocks es"
  have le: "length bs < 2 ^ 64" if "section_at checksum self s bs" for s bs
    using that assms(1) holds_at_length by (fastforce simp: section_at_def segment_holds_def Let_def)
  show ?thesis
  proof (rule dict_items_ok)
    show "sorted_wrt (<) (map fst (concat ?bl))" using assms(2) by (simp add: entries_fit_def term_blocks.blocks_of_ok(2))
    show "\<forall>b\<in>set ?bl. b \<noteq> []" using term_blocks.blocks_of_ok(1) [of es] by (simp add: wf_blocks_def)
    show "length (dindex pf first_doc 0 0 ?bl) < 2 ^ 64" using assms(1) by (auto simp: segment_holds_def Let_def dindex_items)
  qed (use assms(1) le in \<open>auto simp: segment_holds_def Let_def\<close>)
qed

text \<open>The place after a block, and the bytes and lists the two places bound.\<close>

definition place_after :: "index_item list \<Rightarrow> nat \<Rightarrow> place option" where
  "place_after items j = (if Suc j < length items then Some (place_at items (Suc j)) else None)"

lemma block_places:
  assumes holds: "segment_holds checksum pf first_doc last_doc es rs self" and fit: "entries_fit first_doc last_doc es"
    and j: "j < length (dict_blocks es)"
  defines "items \<equiv> dict_items pf first_doc (dict_blocks es)"
  shows "later_place self j (place_at items j) = gives (place_after items j)"
    "bp_start (place_at items j) = length (dblocks pf first_doc (take j (dict_blocks es)))"
    "bp_postings (place_at items j) = length (dpostings pf first_doc (take j (dict_blocks es)))"
    "block_end self (place_after items j) = length (dblocks pf first_doc (take (Suc j) (dict_blocks es)))"
    "(case place_after items j of None \<Rightarrow> snd (sf_postings_at self) | Some p \<Rightarrow> bp_postings p) =
      length (dpostings pf first_doc (take (Suc j) (dict_blocks es)))"
proof -
  let ?bl = "dict_blocks es"
  note items = holds_items_ok [OF holds fit, folded items_def]
  have self: "snd (sf_blocks_at self) = length (dblocks pf first_doc ?bl)" "snd (sf_postings_at self) = length (dpostings pf first_doc ?bl)"
    "sf_index_bytes self = index_of items" "sf_blocks self = length ?bl"
    using holds by (simp_all add: segment_holds_def Let_def items_def)
  show "later_place self j (place_at items j) = gives (place_after items j)"
    using next_place_at [OF items, of j] by (simp add: later_place_def self place_after_def items_def)
  show "bp_start (place_at items j) = length (dblocks pf first_doc (take j ?bl))"
    "bp_postings (place_at items j) = length (dpostings pf first_doc (take j ?bl))"
    using items_sums [OF j, of pf first_doc 0 0] by (simp_all add: place_at_def items_def)
  have "take (Suc j) ?bl = ?bl" if "\<not> Suc j < length ?bl" using that j by simp
  then show "block_end self (place_after items j) = length (dblocks pf first_doc (take (Suc j) ?bl))"
    "(case place_after items j of None \<Rightarrow> snd (sf_postings_at self) | Some p \<Rightarrow> bp_postings p) = length (dpostings pf first_doc (take (Suc j) ?bl))"
    using items_sums [of "Suc j" ?bl pf first_doc 0 0]
    by (auto simp: block_end_def place_after_def self place_at_def items_def)
qed

lemma block_count:
  assumes "j < length (dict_blocks es)"
  shows "(if Suc j < length (dict_blocks es) then block_terms else length es - j * block_terms) = length (dict_blocks es ! j)"
proof -
  let ?bl = "dict_blocks es"
  have "length ?bl = div_ceil (length es) block_terms"
    using term_blocks.wf_blocks_lengths(2) [OF term_blocks.blocks_of_ok(1) assms] by (simp add: div_ceil_def term_blocks.blocks_of_ok(2))
  then have "Suc j < length ?bl \<longleftrightarrow> Suc j * block_terms < length es" using div_ceil_less [of block_terms "Suc j" "length es"]
    by (simp add: block_terms_def)
  with term_blocks.wf_blocks_lengths(1) [OF term_blocks.blocks_of_ok(1) assms] show ?thesis
    by (auto simp: term_blocks.blocks_of_ok(2))
qed

lemma block_fits:
  assumes "entries_fit first_doc last_doc es" and j: "j < length (dict_blocks es)"
  shows "sorted_wrt (<) (map fst (dict_blocks es ! j))" "\<forall>x\<in>set (dict_blocks es ! j). fits_entry first_doc last_doc x"
proof -
  let ?bl = "dict_blocks es"
  have "sorted_wrt (<) (map fst (concat (take j ?bl) @ ?bl ! j @ concat (drop (Suc j) ?bl)))"
    using assms(1) dict_block_parts(1) [OF j] by (simp add: entries_fit_def)
  then show "sorted_wrt (<) (map fst (?bl ! j))" by (simp add: sorted_wrt_append)
  have "set (?bl ! j) \<subseteq> set es" using dict_block_parts(1) [OF j] by (metis UnCI set_append subsetI)
  with assms(1) show "\<forall>x\<in>set (?bl ! j). fits_entry first_doc last_doc x" by (auto simp: entries_fit_def)
qed

lemma open_entries_ok:
  assumes holds: "segment_holds checksum pf first_doc last_doc es rs self" and fit: "entries_fit first_doc last_doc es"
    and j: "j < length (dict_blocks es)"
    and bytes: "holds_at bytes at (dblock pf first_doc (dict_blocks es ! j))"
      "length bytes = at + length (dblock pf first_doc (dict_blocks es ! j))" "length bytes < 2 ^ 64"
  defines "items \<equiv> dict_items pf first_doc (dict_blocks es)"
  defines "e \<equiv> open_entries self j (place_at items j) (place_after items j) bytes at"
  shows "entries_ok pf last_doc e (dict_blocks es ! j)" "en_first e = first_doc"
    "en_postings e = length (dpostings pf first_doc (take j (dict_blocks es)))"
proof -
  let ?bl = "dict_blocks es"
  note items = holds_items_ok [OF holds fit, folded items_def] and places = block_places [OF holds fit j, folded items_def]
  have self: "unat (in_first (sf_info self)) = first_doc" "unat (in_last (sf_info self)) = last_doc"
    "unat (in_terms (sf_info self)) = length es" "sf_index_bytes self = index_of items"
    using holds by (simp_all add: segment_holds_def Let_def items_def)
  have first_t: "first_term (index_of items) (place_at items j) = fst (hd (?bl ! j))"
    using first_term_at [OF items, of j] j by (simp add: items_def items_term_nth)
  have count: "(if place_after items j \<noteq> None then block_terms else length es - j * block_terms) = length (?bl ! j)"
    using block_count [OF j] by (auto simp: place_after_def items_def split: if_splits)
  have flat: "en_bytes e = bytes" "en_at e = at" "en_term e = fst (hd (?bl ! j))" "en_seen e = 0" "en_first e = first_doc"
    "en_postings e = length (dpostings pf first_doc (take j ?bl))" "en_remaining e = length (?bl ! j)"
    "en_postings_end e = length (dpostings pf first_doc (take (Suc j) ?bl))"
    by (simp_all only: e_def open_entries_def entries.select_convs self first_t places count)
  have span: "en_span e = last_doc - first_doc"
    using self(1,2) fit by (simp add: e_def open_entries_def entries_fit_def unat_sub word_le_nat_alt)
  have ne: "?bl ! j \<noteq> []" by (rule dict_block_parts(2) [OF j])
  then have "length (fst (hd (?bl ! j))) < 2 ^ 64" using block_fits(2) [OF fit j] by (simp add: fits_entry_def)
  moreover have "length (dpostings pf first_doc (take (Suc j) ?bl)) < 2 ^ 64"
    using layout_take_le(2) [of pf first_doc "Suc j" ?bl] items by (simp add: index_ok_def)
  moreover have "last_doc < 2 ^ 32" using fit by (simp add: entries_fit_def)
  ultimately show "entries_ok pf last_doc e (?bl ! j)"
    using block_fits [OF fit j] span ne bytes unfolding entries_ok_def Let_def
    by (simp add: flat dblocks_nth(3) [OF j])
  show "en_first e = first_doc" "en_postings e = length (dpostings pf first_doc (take j ?bl))" by (simp_all only: flat)
qed

text \<open>The bytes of a block within its section.\<close>

lemma block_bytes_within:
  assumes "segment_holds checksum pf first_doc last_doc es rs self" "j < length (dict_blocks es)"
  defines "start \<equiv> length (dblocks pf first_doc (take j (dict_blocks es)))"
    and "stop \<equiv> length (dblocks pf first_doc (take (Suc j) (dict_blocks es)))"
  shows "start \<le> stop" "stop \<le> length (dblocks pf first_doc (dict_blocks es))"
    "take (stop - start) (drop start (dblocks pf first_doc (dict_blocks es))) = dblock pf first_doc (dict_blocks es ! j)"
    "stop - start = length (dblock pf first_doc (dict_blocks es ! j))" "stop < 2 ^ 64"
proof -
  show "start \<le> stop" "stop - start = length (dblock pf first_doc (dict_blocks es ! j))"
    "take (stop - start) (drop start (dblocks pf first_doc (dict_blocks es))) = dblock pf first_doc (dict_blocks es ! j)"
    using dblocks_nth(1,2) [OF assms(2), of pf first_doc] by (simp_all add: start_def stop_def)
  show le: "stop \<le> length (dblocks pf first_doc (dict_blocks es))" unfolding stop_def by (rule layout_take_le)
  have "length (dblocks pf first_doc (dict_blocks es)) \<le> length (sf_source self)" "length (sf_source self) < 2 ^ 64"
    using assms(1) holds_at_length by (fastforce simp: section_at_def segment_holds_def Let_def)+
  with le show "stop < 2 ^ 64" by linarith
qed

lemma segment_block_ok:
  assumes holds: "segment_holds checksum pf first_doc last_doc es rs self" and fit: "entries_fit first_doc last_doc es"
    and j: "j < length (dict_blocks es)" and digest: "digest_ok checksum"
  defines "items \<equiv> dict_items pf first_doc (dict_blocks es)"
  obtains e where
    "segment_block checksum self j (place_at items j) = gives (e, place_after items j)"
    "entries_ok pf last_doc e (dict_blocks es ! j)" "en_first e = first_doc"
    "en_postings e = length (dpostings pf first_doc (take j (dict_blocks es)))"
proof -
  let ?bl = "dict_blocks es"
  note places = block_places [OF holds fit j, folded items_def] and within = block_bytes_within [OF holds j]
  define start where "start = length (dblocks pf first_doc (take j ?bl))"
  define stop where "stop = length (dblocks pf first_doc (take (Suc j) ?bl))"
  define b where "b = dblock pf first_doc (?bl ! j)"
  from holds obtain offset where ext: "extent self SecBlocks = gives ((offset, length (dblocks pf first_doc ?bl)), chunk_sums checksum (dblocks pf first_doc ?bl))"
    and src: "holds_at (sf_source self) offset (dblocks pf first_doc ?bl)" "length (sf_source self) < 2 ^ 64"
    by (auto simp: section_at_def segment_holds_def Let_def)
  from read_checked_whole [OF ext src within(1,2) digest, folded start_def stop_def b_def] obtain from_at part where
    read: "read_checked checksum self SecBlocks start stop = gives (part, start - from_at)"
      and part: "holds_at part (start - from_at) b"
    unfolding within(3) [folded start_def stop_def b_def] by blast
  define at where "at = start - from_at"
  have cut: "holds_at (take (at + length b) part) at b" "length (take (at + length b) part) = at + length b"
    using part holds_at_length [OF part] by (simp_all add: at_def holds_at_def slice_def drop_take)
  have "start + length b = stop" "stop < 2 ^ 64"
    using within(1,4,5) [folded start_def stop_def b_def] by linarith+
  then have small: "length (take (at + length b) part) < 2 ^ 64" unfolding cut(2) by (simp add: at_def)
  have "segment_block checksum self j (place_at items j) =
      gives (open_entries self j (place_at items j) (place_after items j) (take (at + length b) part) at, place_after items j)"
    using read within(4) by (simp add: segment_block_def places at_def start_def stop_def b_def)
  from that [OF this] open_entries_ok [OF holds fit j cut [unfolded b_def] small [unfolded b_def], folded items_def, folded b_def]
  show ?thesis by blast
qed


section \<open>One term\<close>

lemma dpostings_concat: "dpostings pf first_doc bl = dposts pf first_doc (concat bl)"
  by (induction bl) (simp_all add: dpostings_def dposts_def)

text \<open>Where the lists of the terms before a term end.\<close>

definition list_place :: "pfor \<Rightarrow> nat \<Rightarrow> dentry list \<Rightarrow> bytes \<Rightarrow> nat" where
  "list_place pf first_doc es t = length (dposts pf first_doc (takeWhile (\<lambda>e. fst e < t) es))"

definition expected_entry :: "pfor \<Rightarrow> nat \<Rightarrow> nat \<Rightarrow> dentry list \<Rightarrow> bytes \<Rightarrow> term_entry option" where
  "expected_entry pf first_doc at es t = map_option (entry_of pf first_doc (at + list_place pf first_doc es t)) (map_of es t)"

lemma map_of_beyond: "\<forall>e\<in>set es. t < fst e \<Longrightarrow> map_of es t = None" "\<forall>e\<in>set es. fst e < t \<Longrightarrow> map_of es t = None" for t :: bytes
  by (auto simp: map_of_eq_None_iff)

lemma find_entry_expected:
  "sorted_wrt (<) (map fst es) \<Longrightarrow> find_entry pf first_doc at es t = expected_entry pf first_doc at es t"
proof (induction es arbitrary: at)
  case (Cons e es)
  then have IH: "find_entry pf first_doc at' es t = expected_entry pf first_doc at' es t" for at' by simp
  consider "fst e < t" | "fst e = t" | "t < fst e" by force
  then show ?case
  proof cases
    case 3
    then have "map_of es t = None" using Cons.prems by (intro map_of_beyond(1)) auto
    with 3 show ?thesis by (cases e) (auto simp: expected_entry_def)
  qed (auto simp: IH expected_entry_def list_place_def dposts_def add.assoc split_beta)
qed (simp add: expected_entry_def)

lemma list_at_place:
  assumes "sorted_wrt (<) (map fst es)" "map_of es t = Some docs"
  shows "holds_at (dposts pf first_doc es) (list_place pf first_doc es t) (list_bytes pf first_doc docs)"
  using assms
proof (induction es)
  case (Cons e es)
  show ?case
  proof (cases "fst e = t")
    case True
    with Cons.prems(2) show ?thesis by (auto simp: list_place_def dposts_def holds_at_iff intro: exI [of _ "[]"])
  next
    case False
    then have "map_of es t = Some docs" using Cons.prems(2) by (simp split: if_splits)
    moreover from this have "t \<in> fst ` set es" by (metis domI dom_map_of_conv_image_fst)
    then have "fst e < t" using Cons.prems(1) by auto
    ultimately show ?thesis using Cons.IH Cons.prems(1)
      by (simp add: list_place_def dposts_def holds_at_iff) (metis append_assoc length_append)
  qed
qed simp

lemma takeWhile_stops: "(\<And>y. y \<in> set ys \<Longrightarrow> \<not> P y) \<Longrightarrow> takeWhile P (xs @ ys) = takeWhile P xs"
  by (induction xs) (auto simp: takeWhile_eq_Nil_iff)

lemma sorted_hd_le: "sorted_wrt (<) (map fst xs) \<Longrightarrow> e \<in> set xs \<Longrightarrow> fst (hd xs) \<le> fst e" for xs :: "dentry list"
  by (cases xs) (auto intro: order_less_imp_le)

lemma block_splits:
  assumes sorted: "sorted_wrt (<) (map fst es)" and ok: "index_ok items blocks_len postings_len"
    and items: "items = dict_items pf first_doc (dict_blocks es)" and m: "blocks_upto items t = Suc j"
  shows "j < length (dict_blocks es)" "\<forall>e\<in>set (concat (take j (dict_blocks es))). fst e < t"
    "\<forall>e\<in>set (concat (drop (Suc j) (dict_blocks es))). t < fst e"
proof -
  let ?bl = "dict_blocks es"
  show j: "j < length ?bl" using m blocks_upto_length [of items t] by (simp add: items)
  note parts = dict_block_parts [OF j]
  have all: "sorted_wrt (<) (map fst (concat (take j ?bl) @ ?bl ! j @ concat (drop (Suc j) ?bl)))" using sorted parts(1) by simp
  have "fst (hd (?bl ! j)) \<le> t" using blocks_upto_le [OF ok, of j t] j m by (simp add: items items_term_nth)
  moreover have "fst e < fst (hd (?bl ! j))" if "e \<in> set (concat (take j ?bl))" for e
    using all parts(2) that by (auto simp: sorted_wrt_append)
  ultimately show "\<forall>e\<in>set (concat (take j ?bl)). fst e < t" by (meson order_less_le_trans)
  show "\<forall>e\<in>set (concat (drop (Suc j) ?bl)). t < fst e"
  proof
    fix e
    assume e: "e \<in> set (concat (drop (Suc j) ?bl))"
    then have Sj: "Suc j < length ?bl" by (cases "Suc j < length ?bl") simp_all
    then have "t < fst (hd (?bl ! Suc j))" using blocks_upto_le [OF ok, of "Suc j" t] m by (simp add: items items_term_nth)
    moreover have "fst (hd (?bl ! Suc j)) \<le> fst e"
    proof -
      have split: "concat (drop (Suc j) ?bl) = ?bl ! Suc j @ concat (drop (Suc (Suc j)) ?bl)" using Sj by (metis Cons_nth_drop_Suc concat.simps(2))
      have ne: "?bl ! Suc j \<noteq> []" by (rule dict_block_parts(2) [OF Sj])
      have "sorted_wrt (<) (map fst (concat (drop (Suc j) ?bl)))" using all by (simp add: sorted_wrt_append)
      from sorted_hd_le [OF this e] show ?thesis by (simp add: split hd_append2 [OF ne])
    qed
    ultimately show "t < fst e" by (rule order_less_le_trans)
  qed
qed

lemma before_every_block:
  assumes sorted: "sorted_wrt (<) (map fst es)" and ok: "index_ok items blocks_len postings_len"
    and items: "items = dict_items pf first_doc (dict_blocks es)" and m: "blocks_upto items t = 0" and e: "e \<in> set es"
  shows "t < fst e"
proof -
  let ?bl = "dict_blocks es"
  have ne: "0 < length ?bl" using e by (auto simp: term_blocks.blocks_of_eq_Nil)
  have "t < fst (hd (?bl ! 0))" using blocks_upto_le [OF ok, of 0 t] m ne by (simp add: items items_term_nth)
  moreover have "hd es = hd (?bl ! 0)" using dict_block_parts [OF ne] by (metis concat.simps(1) hd_append2 append_Nil take_0)
  ultimately show ?thesis using sorted_hd_le [OF sorted e] by simp
qed

lemma block_of_term:
  assumes sorted: "sorted_wrt (<) (map fst es)" and ok: "index_ok items blocks_len postings_len"
    and items: "items = dict_items pf first_doc (dict_blocks es)" and m: "blocks_upto items t = Suc j"
  shows "map_of es t = map_of (dict_blocks es ! j) t"
    "list_place pf first_doc es t = length (dpostings pf first_doc (take j (dict_blocks es))) + list_place pf first_doc (dict_blocks es ! j) t"
proof -
  let ?bl = "dict_blocks es"
  note split = block_splits [OF assms]
  note parts = dict_block_parts [OF split(1)] and before_t = split(2) and after_t = split(3)
  show "map_of es t = map_of (?bl ! j) t"
    by (subst parts(1)) (simp add: map_add_def map_of_beyond(2) [OF before_t] map_of_beyond(1) [OF after_t] split: option.splits)
  have "takeWhile (\<lambda>e. fst e < t) es = concat (take j ?bl) @ takeWhile (\<lambda>e. fst e < t) (?bl ! j)"
  proof -
    have "takeWhile (\<lambda>e. fst e < t) (?bl ! j @ concat (drop (Suc j) ?bl)) = takeWhile (\<lambda>e. fst e < t) (?bl ! j)"
      by (rule takeWhile_stops) (use after_t in \<open>auto dest: order_less_imp_not_less\<close>)
    moreover have "takeWhile (\<lambda>e. fst e < t) (concat (take j ?bl) @ ys) = concat (take j ?bl) @ takeWhile (\<lambda>e. fst e < t) ys" for ys
      by (rule takeWhile_append2) (use before_t in blast)
    ultimately show ?thesis by (subst parts(1)) (simp only:)
  qed
  then show "list_place pf first_doc es t = length (dpostings pf first_doc (take j ?bl)) + list_place pf first_doc (?bl ! j) t"
    by (simp add: list_place_def dpostings_concat)
qed

text \<open>A hit's documents, as \<open>Postings::decode\<close> gives them, and a hit that holds the documents of an entry.\<close>

definition hit_docs :: "pfor \<Rightarrow> hit \<Rightarrow> nat list" where
  "hit_docs pf hit =
     (case hit of
        Single doc \<Rightarrow> [doc]
      | Postings l \<Rightarrow> map (\<lambda>doc. wrapping_add_u32 doc (pl_first l)) (pf_decode pf (pl_df l) (drop (pl_start l) (pl_bytes l))))"

definition hit_holds :: "pfor \<Rightarrow> nat \<Rightarrow> nat list \<Rightarrow> hit \<Rightarrow> bool" where
  "hit_holds pf first_doc docs hit \<longleftrightarrow>
     (case hit of
        Single doc \<Rightarrow> docs = [doc]
      | Postings l \<Rightarrow> pl_first l = first_doc \<and> pl_df l = length docs \<and>
          pf_decode pf (pl_df l) (drop (pl_start l) (pl_bytes l)) = map (\<lambda>d. d - first_doc) docs)"

lemma hit_holds_docs:
  assumes "hit_holds pf first_doc docs hit" "\<forall>d\<in>set docs. first_doc \<le> d \<and> d < 2 ^ 32"
  shows "hit_docs pf hit = docs"
  using assms by (auto simp: hit_holds_def hit_docs_def wrapping_add_u32_def o_def intro!: map_idI split: hit.splits)

lemma locate_holds:
  assumes "segment_holds checksum pf first_doc last_doc es rs self" "entries_fit first_doc last_doc es"
  defines "items \<equiv> dict_items pf first_doc (dict_blocks es)"
  shows "segment_locate self t =
    (if blocks_upto items t = 0 then None else Some (blocks_upto items t - 1, place_at items (blocks_upto items t - 1)))"
  using assms(1) locate_ok [OF holds_items_ok [OF assms(1,2)], of t] by (simp add: segment_locate_def segment_holds_def Let_def items_def)

lemma segment_entry_ok:
  assumes pf: "pfor_ok pf" and holds: "segment_holds checksum pf first_doc last_doc es rs self" and fit: "entries_fit first_doc last_doc es"
    and digest: "digest_ok checksum"
  shows "segment_term_entry checksum pf self t = gives (expected_entry pf first_doc 0 es t)"
proof -
  let ?bl = "dict_blocks es"
  define items where "items = dict_items pf first_doc ?bl"
  note ok = holds_items_ok [OF holds fit, folded items_def]
  note loc = locate_holds [OF holds fit, of t, folded items_def]
  have sorted: "sorted_wrt (<) (map fst es)" using fit by (simp add: entries_fit_def)
  show ?thesis
  proof (cases "blocks_upto items t")
    case 0
    then have "map_of es t = None" using before_every_block [OF sorted ok items_def 0] by (intro map_of_beyond(1)) blast
    with 0 loc show ?thesis by (simp add: segment_term_entry_def expected_entry_def)
  next
    case (Suc j)
    note block = block_of_term [OF sorted ok items_def Suc]
    from segment_block_ok [OF holds fit block_splits(1) [OF sorted ok items_def Suc] digest, folded items_def] obtain e where
      e: "segment_block checksum self j (place_at items j) = gives (e, place_after items j)"
        "entries_ok pf last_doc e (?bl ! j)" "en_first e = first_doc" "en_postings e = length (dpostings pf first_doc (take j ?bl))" .
    have "sorted_wrt (<) (map fst (?bl ! j))" using e(2) by (simp add: entries_ok_def)
    from find_entry_expected [OF this] scan_entries_finds [OF pf e(2)]
    have "scan_entries pf e t = Inr (expected_entry pf first_doc (en_postings e) (?bl ! j) t)" by (simp add: e(3))
    with loc Suc e show ?thesis by (simp add: segment_term_entry_def expected_entry_def block)
  qed
qed

lemma segment_read_ok:
  assumes pf: "pfor_ok pf" and holds: "segment_holds checksum pf first_doc last_doc es rs self" and fit: "entries_fit first_doc last_doc es"
    and digest: "digest_ok checksum" and mem: "map_of es t = Some docs" and few: "length docs < 2 ^ 32"
  obtains hit where "segment_read checksum self (entry_of pf first_doc (list_place pf first_doc es t) docs) = gives hit" "hit_holds pf first_doc docs hit"
proof (cases "length docs = 1")
  case True
  then obtain d where "docs = [d]" by (auto simp: length_Suc_conv)
  then show ?thesis using that by (simp add: segment_read_def entry_of_def hit_holds_def)
next
  case False
  let ?at = "list_place pf first_doc es t" and ?list = "list_bytes pf first_doc docs" and ?bs = "dpostings pf first_doc (dict_blocks es)"
  have fits: "fits_entry first_doc last_doc (t, docs)" and last_doc: "last_doc < 2 ^ 32" and sorted: "sorted_wrt (<) (map fst es)"
    using fit map_of_SomeD [OF mem] by (auto simp: entries_fit_def)
  have h: "holds_at ?bs ?at ?list"
    unfolding dpostings_concat term_blocks.blocks_of_ok(2) by (rule list_at_place [OF sorted mem])
  have cut: "take (?at + length ?list - ?at) (drop ?at ?bs) = ?list" "?at + length ?list \<le> length ?bs"
    using h by (auto simp: holds_at_iff)
  have self: "section_at checksum self SecPostings ?bs" "length (sf_source self) < 2 ^ 64" "unat (in_first (sf_info self)) = first_doc"
    using holds by (simp_all add: segment_holds_def Let_def)
  then obtain offset where ext: "extent self SecPostings = gives ((offset, length ?bs), chunk_sums checksum ?bs)" "holds_at (sf_source self) offset ?bs"
    by (auto simp: section_at_def)
  from read_checked_whole [OF ext self(2) le_add1 cut(2) digest] obtain from_at part where
    read: "read_checked checksum self SecPostings ?at (?at + length ?list) = gives (part, ?at - from_at)"
      and part: "holds_at part (?at - from_at) ?list" unfolding cut(1) by blast
  define l where "l = \<lparr>pl_first = first_doc, pl_df = length docs mod 2 ^ 32, pl_bytes = part, pl_start = ?at - from_at\<rparr>"
  have "segment_read checksum self (entry_of pf first_doc ?at docs) = gives (Postings l)"
    using read by (simp add: segment_read_def entry_of_def case_not_single [OF False] l_def self(3))
  moreover from part obtain suf where "drop (?at - from_at) part = ?list @ suf" by (auto simp: holds_at_iff)
  then have "hit_holds pf first_doc docs (Postings l)"
    using list_bytes_ok(3) [OF pf last_doc fits] False few by (simp add: hit_holds_def l_def)
  ultimately show ?thesis using that by blast
qed

lemma segment_lookup_ok:
  assumes "pfor_ok pf" "segment_holds checksum pf first_doc last_doc es rs self" "entries_fit first_doc last_doc es" "digest_ok checksum"
    and "\<forall>e\<in>set es. length (snd e) < 2 ^ 32"
  shows "case map_of es t of
      None \<Rightarrow> segment_lookup checksum pf self t = gives None
    | Some docs \<Rightarrow> \<exists>hit. segment_lookup checksum pf self t = gives (Some hit) \<and> hit_docs pf hit = docs"
proof (cases "map_of es t")
  case None
  then show ?thesis by (simp add: segment_lookup_def segment_entry_ok [OF assms(1-4)] expected_entry_def)
next
  case (Some docs)
  have "length docs < 2 ^ 32" using assms(5) map_of_SomeD [OF Some] by auto
  from segment_read_ok [OF assms(1-4) Some this] obtain hit where
    read: "segment_read checksum self (entry_of pf first_doc (list_place pf first_doc es t) docs) = gives hit" and "hit_holds pf first_doc docs hit" .
  moreover have "fits_entry first_doc last_doc (t, docs)" "last_doc < 2 ^ 32"
    using map_of_SomeD [OF Some] assms(3) by (simp_all add: entries_fit_def)
  then have "\<forall>d\<in>set docs. first_doc \<le> d \<and> d < 2 ^ 32" by (auto simp: fits_entry_def)
  ultimately have "hit_docs pf hit = docs" by (intro hit_holds_docs)
  then show ?thesis using Some read by (simp add: segment_lookup_def segment_entry_ok [OF assms(1-4)] expected_entry_def)
qed


section \<open>The records\<close>

text \<open>\<open>Segment::fingerprint_docs_until\<close>, reading through \<open>read_checked\<close>; the reader's error \<open>None\<close> is a panic.\<close>

definition records_reader :: "(bytes \<Rightarrow> bytes) \<Rightarrow> segment \<Rightarrow> nat \<Rightarrow> nat \<Rightarrow> read_error option + bytes" where
  "records_reader checksum self start stop =
     (case read_checked checksum self SecFingerprints start stop of
        None \<Rightarrow> Inl None
      | Some (Inl e) \<Rightarrow> Inl (Some e)
      | Some (Inr (bytes, at)) \<Rightarrow>
          (case slice bytes at (at + (stop - start)) of None \<Rightarrow> Inl None | Some bs \<Rightarrow> Inr bs))"

definition segment_fingerprint_docs ::
  "(bytes \<Rightarrow> bytes) \<Rightarrow> (bytes \<Rightarrow> u32) \<Rightarrow> segment \<Rightarrow> bytes \<Rightarrow> (nat \<Rightarrow> bool) \<Rightarrow> read_error option fp_error + u32 list"
where
  "segment_fingerprint_docs checksum fingerprint self t cancelled =
     fingerprint_docs_until (records_reader checksum self) (sf_fingerprints self) (snd (sf_fingerprints_at self))
       (in_first (sf_info self)) (in_last (sf_info self)) (fingerprint t) cancelled"

lemma records_reader_ok:
  assumes "section_at checksum self SecFingerprints bs" "length (sf_source self) < 2 ^ 64" "a \<le> b" "b \<le> length bs" "digest_ok checksum"
  shows "records_reader checksum self a b = Inr (take (b - a) (drop a bs))"
proof -
  from assms(1) obtain offset where ext: "extent self SecFingerprints = gives ((offset, length bs), chunk_sums checksum bs)"
    and src: "holds_at (sf_source self) offset bs" by (auto simp: section_at_def)
  from read_checked_whole [OF ext src assms(2-5)] obtain from_at part where
    read: "read_checked checksum self SecFingerprints a b = gives (part, a - from_at)"
      and part: "holds_at part (a - from_at) (take (b - a) (drop a bs))" .
  moreover have "length (take (b - a) (drop a bs)) = b - a" using assms(4) by simp
  ultimately show ?thesis unfolding records_reader_def holds_at_def by simp
qed

lemma record_offsets:
  assumes "segment_holds checksum pf first_doc last_doc es rs self" "\<forall>r\<in>set rs. first_doc + unat (snd r) \<le> last_doc" "r \<in> set rs"
  shows "snd r \<le> in_last (sf_info self) - in_first (sf_info self)"
proof -
  have ends: "unat (in_first (sf_info self)) = first_doc" "unat (in_last (sf_info self)) = last_doc"
    using assms(1) by (simp_all add: segment_holds_def Let_def)
  have le: "first_doc + unat (snd r) \<le> last_doc" using assms(2,3) by blast
  then have "in_first (sf_info self) \<le> in_last (sf_info self)" by (simp add: word_le_nat_alt ends)
  then have "unat (in_last (sf_info self) - in_first (sf_info self)) = last_doc - first_doc" by (simp add: unat_sub ends)
  with le show ?thesis by (simp add: word_le_nat_alt)
qed
lemma segment_fingerprint_docs_ok:
  assumes holds: "segment_holds checksum pf first_doc last_doc es rs self" and sorted: "sorted_wrt (<) rs"
    and digest: "digest_ok checksum" and range: "\<forall>r\<in>set rs. first_doc + unat (snd r) \<le> last_doc"
  shows "segment_fingerprint_docs checksum fingerprint self t (\<lambda>_. False) =
    Inr (map (\<lambda>r. of_nat first_doc + snd r) (filter (\<lambda>r. fst r = fingerprint t) rs))"
proof -
  have self: "section_at checksum self SecFingerprints (section_bytes (record_blocks rs))" "length (sf_source self) < 2 ^ 64"
    "section_len rs < 2 ^ 32" "snd (sf_fingerprints_at self) = section_len rs" "sf_fingerprints self = parsed_index rs"
    and first_doc: "unat (in_first (sf_info self)) = first_doc"
    using holds by (simp_all add: segment_holds_def Let_def)
  have "holds_records rs (records_reader checksum self) (in_first (sf_info self)) (in_last (sf_info self))"
    using record_offsets [OF holds range] records_reader_ok [OF self(1,2) _ _ digest] sorted self(3) by (simp add: holds_records_def sorted_records_iff)
  from fingerprint_docs_exact [OF this, of "\<lambda>_. False"] show ?thesis
    by (simp add: segment_fingerprint_docs_def self(4,5) run_docs_def first_doc [symmetric])
qed


section \<open>The round trip\<close>

lemma dict_entries_fit:
  assumes inv: "writer_inv pf fingerprint w cs" and "tw_last w < 2 ^ 32" "\<forall>(t, docs)\<in>set (call_terms cs). length t < 2 ^ 64"
  shows "entries_fit (tw_first w) (tw_last w) (dict_entries w)"
proof -
  have acc: "accepted_terms w" and out: "tw_out w = call_terms cs" using inv by (simp_all add: writer_inv_def)
  then have "sorted_wrt (<) (map fst (dict_entries w))"
    by (simp add: accepted_terms_def dict_entries_def sorted_wrt_map sorted_wrt_filter)
  moreover have "fits_entry (tw_first w) (tw_last w) e" if "e \<in> set (dict_entries w)" for e
    using that acc assms(3) unfolding out [symmetric]
    by (auto simp: fits_entry_def accepted_terms_def dict_entries_def docs_fit_def term_writer.truncate_def)
  ultimately show ?thesis using acc assms(2) by (simp add: entries_fit_def accepted_terms_def)
qed

lemma map_of_dict_entries:
  assumes "sorted_wrt (<) (map fst (tw_out w))"
  shows "map_of (dict_entries w) t =
    (case map_of (tw_out w) t of None \<Rightarrow> None | Some docs \<Rightarrow> if dw_singles w = None \<or> length docs \<noteq> 1 then Some docs else None)"
proof -
  have dist: "distinct (map fst (tw_out w))" using assms by (simp add: strict_sorted_iff)
  then have dist': "distinct (map fst (dict_entries w))" unfolding dict_entries_def by (rule distinct_map_filter)
  show ?thesis
  proof (cases "map_of (tw_out w) t")
    case None
    then have "map_of (dict_entries w) t = None" by (auto simp: dict_entries_def map_of_eq_None_iff)
    with None show ?thesis by simp
  next
    case (Some docs)
    then have mem: "(t, docs) \<in> set (tw_out w)" by (rule map_of_SomeD)
    show ?thesis
    proof (cases "dw_singles w = None \<or> length docs \<noteq> 1")
      case True
      then have "(t, docs) \<in> set (dict_entries w)" using mem by (auto simp: dict_entries_def)
      with True Some show ?thesis by (simp add: map_of_is_SomeI [OF dist'])
    next
      case False
      have "docs' = docs" if "(t, docs') \<in> set (tw_out w)" for docs' using dist that mem by (metis map_of_is_SomeI option.inject)
      with False have "map_of (dict_entries w) t = None" by (auto simp: map_of_eq_None_iff dict_entries_def)
      with False Some show ?thesis by auto
    qed
  qed
qed

lemma run_calls_range:
  assumes "writer_inv pf fingerprint w cs"
  shows "tw_first w \<le> tw_last w"
  using assms by (simp add: writer_inv_def accepted_terms_def)

lemma run_keeps_codec:
  assumes "writer_inv pf fingerprint w cs"
  shows "dw_singles w \<noteq> None \<longleftrightarrow> dw_codec w = fingerprint_codec"
  using assms by (auto simp: writer_inv_def dictionary_codec_def fingerprint_codec_def split: option.splits)

text \<open>The fields a writer is built with stay.\<close>

lemma make_call_frame:
  assumes "make_call pf fingerprint w c = Inr w'" "writer_inv pf fingerprint w cs"
  shows "tw_first w' = tw_first w \<and> tw_last w' = tw_last w \<and> dw_codec w' = dw_codec w \<and> dw_tokenizer w' = dw_tokenizer w"
proof (cases c)
  case (Call_push t docs)
  then obtain n where push: "dict_push pf fingerprint w t docs = Inr (w', n)" using assms(1) by (auto split: sum.splits)
  have "lays_out pf w" using assms(2) by (simp add: writer_inv_def)
  from dict_push_cases(2) [OF push this] show ?thesis
    by (auto simp: remember_def entry_pushed_def term_writer.truncate_def)
next
  case (Call_record fp doc)
  with assms(1) show ?thesis by (auto simp: push_record_def Let_def split: option.splits if_splits)
qed

lemma run_calls_frame:
  "writer_inv pf fingerprint w before \<Longrightarrow> run_calls pf fingerprint w cs = (w', accepted) \<Longrightarrow>
   tw_first w' = tw_first w \<and> tw_last w' = tw_last w \<and> dw_codec w' = dw_codec w \<and> dw_tokenizer w' = dw_tokenizer w"
proof (induction cs arbitrary: w before accepted)
  case (Cons c cs)
  show ?case
  proof (cases "make_call pf fingerprint w c")
    case (Inl e)
    with Cons show ?thesis by simp
  next
    case (Inr w1)
    then have "writer_inv pf fingerprint w1 (before @ [c])"
      using Cons.prems(1) by (cases c) (auto split: sum.splits intro: writer_inv_push writer_inv_record)
    moreover obtain later where "run_calls pf fingerprint w1 cs = (w', later)"
      using Cons.prems(2) Inr by (auto split: prod.splits)
    ultimately have "tw_first w' = tw_first w1 \<and> tw_last w' = tw_last w1 \<and> dw_codec w' = dw_codec w1 \<and> dw_tokenizer w' = dw_tokenizer w1"
      by (rule Cons.IH)
    with make_call_frame [OF Inr Cons.prems(1)] show ?thesis by simp
  qed
qed simp

lemma built_run:
  assumes "writer_build first_doc last_doc version codec_id = Inr w0" "run_calls pf fingerprint w0 calls = (w, accepted)"
  shows "writer_inv pf fingerprint w accepted" "tw_first w = first_doc" "tw_last w = last_doc"
    "dw_singles w \<noteq> None \<longleftrightarrow> codec_id = fingerprint_codec" "tw_out w = call_terms accepted" "first_doc \<le> last_doc"
proof -
  note inv0 = writer_inv_build [OF assms(1)]
  show inv: "writer_inv pf fingerprint w accepted" using run_calls_inv [OF inv0 assms(2)] by simp
  have w0: "tw_first w0 = first_doc" "tw_last w0 = last_doc" "dw_codec w0 = codec_id"
    using assms(1) by (auto simp: writer_build_def split: if_splits)
  note frame = run_calls_frame [OF inv0 assms(2)]
  show "tw_first w = first_doc" "tw_last w = last_doc" using frame w0 by simp_all
  with run_calls_range [OF inv] show "first_doc \<le> last_doc" by simp
  show "dw_singles w \<noteq> None \<longleftrightarrow> codec_id = fingerprint_codec" using run_keeps_codec [OF inv] frame w0 by simp
  show "tw_out w = call_terms accepted" using inv by (simp add: writer_inv_def)
qed

lemma record_doc:
  assumes "first_doc \<le> d" "d \<le> last_doc" "last_doc < 2 ^ 32"
  shows "unat (of_nat (d - first_doc) :: u32) = d - first_doc" "unat (of_nat first_doc + of_nat (d - first_doc) :: u32) = d"
proof -
  show "unat (of_nat (d - first_doc) :: u32) = d - first_doc"
    using assms by (simp add: unat_of_nat del: of_nat_diff)
  have "of_nat first_doc + of_nat (d - first_doc) = (of_nat d :: u32)" using assms(1) by (simp only: of_nat_add [symmetric]) simp
  with assms show "unat (of_nat first_doc + of_nat (d - first_doc) :: u32) = d" by (simp add: unat_of_nat del: of_nat_diff)
qed

lemma call_docs_range:
  assumes inv: "writer_inv pf fingerprint w cs"
  shows "(t, [d]) \<in> set (call_terms cs) \<Longrightarrow> tw_first w \<le> d \<and> d \<le> tw_last w"
    "(fp, d) \<in> set (call_records cs) \<Longrightarrow> tw_first w \<le> d \<and> d \<le> tw_last w"
  using inv by (force simp: writer_inv_def accepted_terms_def docs_fit_def term_writer.truncate_def)+

text \<open>The records written, as documents.\<close>

lemma written_records_mem:
  assumes inv: "writer_inv pf fingerprint w cs" and singles: "dw_singles w \<noteq> None"
  shows "r \<in> set (written_records fingerprint w cs) \<longleftrightarrow>
    (\<exists>d. r = (fst r, of_nat (d - tw_first w)) \<and> tw_first w \<le> d \<and> d \<le> tw_last w \<and>
      ((\<exists>t. (t, [d]) \<in> set (call_terms cs) \<and> fingerprint t = fst r) \<or> (fst r, d) \<in> set (call_records cs)))"
proof -
  have out: "tw_out w = call_terms cs" using inv by (simp add: writer_inv_def)
  define rel :: "nat \<Rightarrow> u32" where "rel d = of_nat (d - tw_first w)" for d
  have dem: "set (demoted fingerprint w) = {(fingerprint t, rel d) | t d. (t, [d]) \<in> set (call_terms cs)}"
  proof -
    have "demoted fingerprint w = map (\<lambda>(t, docs). (fingerprint t, rel (hd docs))) (filter (\<lambda>(t, docs). length docs = 1) (call_terms cs))"
      using singles by (auto simp: demoted_def out rel_def)
    moreover have "{x \<in> set (call_terms cs). length (snd x) = 1} = {(t, [d]) | t d. (t, [d]) \<in> set (call_terms cs)}"
      by (auto simp: length_Suc_conv)
    ultimately show ?thesis by (force simp: split_beta)
  qed
  have car: "set (carried_records w cs) = {(fp, rel d) | fp d. (fp, d) \<in> set (call_records cs)}"
    by (force simp: carried_records_def rel_def simp del: of_nat_diff)
  have "set (written_records fingerprint w cs) = set (demoted fingerprint w) \<union> set (carried_records w cs)" by simp
  also have "r \<in> \<dots> \<longleftrightarrow> (\<exists>d. r = (fst r, rel d) \<and>
      ((\<exists>t. (t, [d]) \<in> set (call_terms cs) \<and> fingerprint t = fst r) \<or> (fst r, d) \<in> set (call_records cs)))"
    unfolding dem car by (cases r) auto
  finally show ?thesis unfolding rel_def using call_docs_range [OF inv] by blast
qed

lemma run_opens:
  assumes "writer_build first_doc last_doc version codec_id = Inr w0" "run_calls pf fingerprint w0 calls = (w, accepted)"
    and "writer_finish checksum w = Some (Inr (file, z))" "digest_ok checksum" "last_doc < 2 ^ 32" "length file < 2 ^ 64"
    and "\<forall>(t, docs)\<in>set (call_terms accepted). length t < 2 ^ 64 \<and> length docs < 2 ^ 32"
  obtains self where "segment_open checksum file = gives self"
    "segment_holds checksum pf first_doc last_doc (dict_entries w) (written_records fingerprint w accepted) self"
    "entries_fit first_doc last_doc (dict_entries w)" "\<forall>e\<in>set (dict_entries w). length (snd e) < 2 ^ 32"
proof -
  note run = built_run [OF assms(1,2)]
  have last_w: "tw_last w < 2 ^ 32" using run(3) assms(5) by simp
  from segment_open_finished [OF run(1) assms(3) last_w assms(6,4)] obtain self where
    self: "segment_open checksum file = gives self"
      "segment_holds checksum pf (tw_first w) (tw_last w) (dict_entries w) (written_records fingerprint w accepted) self" .
  have fit: "entries_fit (tw_first w) (tw_last w) (dict_entries w)"
    by (rule dict_entries_fit [OF run(1) last_w]) (use assms(7) in auto)
  have few: "\<forall>e\<in>set (dict_entries w). length (snd e) < 2 ^ 32"
    using assms(7) unfolding run(5) [symmetric] by (auto simp: dict_entries_def)
  from that [OF self(1)] self(2) fit few show ?thesis by (simp add: run(2,3))
qed

lemma run_entries:
  assumes "writer_build first_doc last_doc version codec_id = Inr w0" "run_calls pf fingerprint w0 calls = (w, accepted)"
  shows "map_of (dict_entries w) t = (case map_of (call_terms accepted) t of None \<Rightarrow> None
    | Some docs \<Rightarrow> if codec_id = fingerprint_codec \<and> length docs = 1 then None else Some docs)"
proof -
  note run = built_run [OF assms]
  have "sorted_wrt (<) (map fst (tw_out w))" using run(1) unfolding writer_inv_def accepted_terms_def by blast
  from map_of_dict_entries [OF this, of t] run(4) show ?thesis unfolding run(5) by (auto split: option.splits)
qed

text \<open>The records a writer wrote, as pairs of a fingerprint and a document.\<close>

lemma written_records_range:
  assumes build: "writer_build first_doc last_doc version codec_id = Inr w0" "run_calls pf fingerprint w0 calls = (w, accepted)"
    and last_doc: "last_doc < 2 ^ 32" and r: "r \<in> set (written_records fingerprint w accepted)"
  shows "first_doc + unat (snd r) \<le> last_doc"
proof -
  note run = built_run [OF build]
  have singles: "dw_singles w \<noteq> None"
  proof
    assume none: "dw_singles w = None"
    moreover from none have "call_records accepted = []" using run(1) by (simp add: writer_inv_def)
    ultimately show False using r by (simp add: demoted_def carried_records_def)
  qed
  from r written_records_mem [OF run(1) singles, unfolded run(2,3)] obtain d where
    d: "r = (fst r, of_nat (d - first_doc))" "first_doc \<le> d" "d \<le> last_doc" by blast
  then have "snd r = of_nat (d - first_doc)" by (metis snd_conv)
  with d(2,3) record_doc(1) [OF d(2,3) last_doc] show ?thesis by (simp del: of_nat_diff)
qed

lemma written_records_docs:
  assumes build: "writer_build first_doc last_doc version codec_id = Inr w0" "run_calls pf fingerprint w0 calls = (w, accepted)"
    and last_doc: "last_doc < 2 ^ 32"
  defines "rs \<equiv> map (\<lambda>r. (fst r, of_nat first_doc + snd r)) (written_records fingerprint w accepted)"
  shows "sorted_wrt (<) rs"
    "(\<lambda>(fp, d). (fp, unat d)) ` set rs =
      (if codec_id = fingerprint_codec
       then {(fingerprint t, d) | t d. (t, [d]) \<in> set (call_terms accepted)} \<union> set (call_records accepted) else {})"
proof -
  let ?rs = "written_records fingerprint w accepted"
  note run = built_run [OF build]
  have doc: "unat (of_nat first_doc + snd r :: u32) = first_doc + unat (snd r)" if "r \<in> set ?rs" for r
    using written_records_range [OF build last_doc that] last_doc record_doc(2) [of first_doc "first_doc + unat (snd r)" last_doc] by simp
  have "sorted_wrt (<) ?rs" by simp
  then show "sorted_wrt (<) rs"
    unfolding rs_def sorted_wrt_map
    by (rule sorted_wrt_mono_rel [rotated]) (auto simp: word_less_nat_alt less_prod_def doc)
  show "(\<lambda>(fp, d). (fp, unat d)) ` set rs =
      (if codec_id = fingerprint_codec
       then {(fingerprint t, d) | t d. (t, [d]) \<in> set (call_terms accepted)} \<union> set (call_records accepted) else {})"
  proof (cases "codec_id = fingerprint_codec")
    case False
    then have none: "dw_singles w = None" using run(4) by simp
    moreover from none have "call_records accepted = []" using run(1) by (simp add: writer_inv_def)
    ultimately have "?rs = []" by (simp add: demoted_def carried_records_def)
    with False show ?thesis by (simp add: rs_def)
  next
    case True
    then have singles: "dw_singles w \<noteq> None" using run(4) by simp
    note mem = written_records_mem [OF run(1) singles, unfolded run(2,3)]
    have "(fp, d) \<in> (\<lambda>(fp, d). (fp, unat d)) ` set rs \<longleftrightarrow>
        (\<exists>t. (t, [d]) \<in> set (call_terms accepted) \<and> fingerprint t = fp) \<or> (fp, d) \<in> set (call_records accepted)" for fp d
    proof -
      have "(fp, d) \<in> (\<lambda>(fp, d). (fp, unat d)) ` set rs \<longleftrightarrow> (\<exists>off. (fp, off) \<in> set ?rs \<and> d = first_doc + unat off)"
        using doc by (force simp: image_iff rs_def)
      also have "\<dots> \<longleftrightarrow> (\<exists>d'. first_doc \<le> d' \<and> d' \<le> last_doc \<and> d = first_doc + unat (of_nat (d' - first_doc) :: u32) \<and>
          ((\<exists>t. (t, [d']) \<in> set (call_terms accepted) \<and> fingerprint t = fp) \<or> (fp, d') \<in> set (call_records accepted)))"
        unfolding mem by auto
      also have "\<dots> \<longleftrightarrow> (\<exists>d'. first_doc \<le> d' \<and> d' \<le> last_doc \<and> d = d' \<and>
          ((\<exists>t. (t, [d']) \<in> set (call_terms accepted) \<and> fingerprint t = fp) \<or> (fp, d') \<in> set (call_records accepted)))"
        using record_doc(1) [OF _ _ last_doc, of first_doc] by (auto simp del: of_nat_diff)
      finally show ?thesis using call_docs_range [OF run(1), unfolded run(2,3)] by blast
    qed
    then have "x \<in> (\<lambda>(fp, d). (fp, unat d)) ` set rs \<longleftrightarrow>
        x \<in> {(fingerprint t, d) | t d. (t, [d]) \<in> set (call_terms accepted)} \<union> set (call_records accepted)" for x
      by (cases x, simp only:) blast
    then show ?thesis unfolding if_P [OF True] by (rule set_eqI)
  qed
qed

lemma run_records:
  assumes build: "writer_build first_doc last_doc version codec_id = Inr w0" "run_calls pf fingerprint w0 calls = (w, accepted)"
    and holds: "segment_holds checksum pf first_doc last_doc es (written_records fingerprint w accepted) self"
    and digest: "digest_ok checksum" and last_doc: "last_doc < 2 ^ 32"
  obtains ds where "segment_fingerprint_docs checksum fingerprint self t (\<lambda>_. False) = Inr ds" "sorted_wrt (<) ds"
    "unat ` set ds = (if codec_id = fingerprint_codec then
       {d. \<exists>t'. (t', [d]) \<in> set (call_terms accepted) \<and> fingerprint t' = fingerprint t} \<union>
       {d. (fingerprint t, d) \<in> set (call_records accepted)} else {})"
proof -
  define rs where "rs = map (\<lambda>r. (fst r, of_nat first_doc + snd r :: u32)) (written_records fingerprint w accepted)"
  note docs = written_records_docs [OF build last_doc, folded rs_def]
  define ds where "ds = map snd (filter (\<lambda>r. fst r = fingerprint t) rs)"
  have found: "segment_fingerprint_docs checksum fingerprint self t (\<lambda>_. False) = Inr ds"
    using segment_fingerprint_docs_ok [OF holds _ digest, of fingerprint t] written_records_range [OF build last_doc]
    by (simp add: ds_def rs_def filter_map o_def)
  have "sorted_wrt (<) ds"
    unfolding ds_def sorted_wrt_map
    by (rule sorted_wrt_mono_rel [OF _ sorted_wrt_filter [OF docs(1)]]) (auto simp: less_prod_def)
  moreover have "unat ` set ds = {d. (fingerprint t, d) \<in> (\<lambda>(fp, d). (fp, unat d)) ` set rs}"
    by (force simp: ds_def)
  then have "unat ` set ds = (if codec_id = fingerprint_codec then
       {d. \<exists>t'. (t', [d]) \<in> set (call_terms accepted) \<and> fingerprint t' = fingerprint t} \<union>
       {d. (fingerprint t, d) \<in> set (call_records accepted)} else {})"
    unfolding docs(2) by (auto; metis)
  ultimately show ?thesis using that found by blast
qed

section \<open>Properties\<close>

text \<open>
  C3: The segment round trip. Build a writer for either dictionary codec, make any calls of \<open>push\<close> and
  \<open>push_record\<close> on it, and finish it. The bytes written open as a segment, and looking any term up in it
  returns the documents the term was pushed with, in order, by an accepted call, and nothing for a term never
  accepted, or whose only document the fingerprint codec keeps as a record. No lookup fails or panics. What is relied on: the list
  codec decodes what it encodes, a digest has 16 bytes, and sizes fit their types (documents in a \<open>u32\<close>, the file
  and each term in a \<open>usize\<close>, fewer than \<open>2 ^ 32\<close> documents in a term).
\<close>

theorem segment_roundtrip:
  assumes "writer_build first_doc last_doc version codec_id = Inr w0"
    and "run_calls pf fingerprint w0 calls = (w, accepted)"
    and "writer_finish checksum w = Some (Inr (file, z))"
    and "pfor_ok pf" "digest_ok checksum" "last_doc < 2 ^ 32" "length file < 2 ^ 64"
    and "\<forall>(t, docs)\<in>set (call_terms accepted). length t < 2 ^ 64 \<and> length docs < 2 ^ 32"
  shows "\<exists>self. segment_open checksum file = Some (Inr self) \<and>
    (\<forall>t. case map_of (call_terms accepted) t of
       None \<Rightarrow> segment_lookup checksum pf self t = Some (Inr None)
     | Some docs \<Rightarrow>
         if codec_id = fingerprint_codec \<and> length docs = 1 then segment_lookup checksum pf self t = Some (Inr None)
         else \<exists>hit. segment_lookup checksum pf self t = Some (Inr (Some hit)) \<and> hit_docs pf hit = docs)"
proof -
  from run_opens [OF assms(1-3,5-8)] obtain self where self: "segment_open checksum file = gives self"
    "segment_holds checksum pf first_doc last_doc (dict_entries w) (written_records fingerprint w accepted) self"
    "entries_fit first_doc last_doc (dict_entries w)" "\<forall>e\<in>set (dict_entries w). length (snd e) < 2 ^ 32" .
  have "case map_of (call_terms accepted) t of
       None \<Rightarrow> segment_lookup checksum pf self t = Some (Inr None)
     | Some docs \<Rightarrow>
         if codec_id = fingerprint_codec \<and> length docs = 1 then segment_lookup checksum pf self t = Some (Inr None)
         else \<exists>hit. segment_lookup checksum pf self t = Some (Inr (Some hit)) \<and> hit_docs pf hit = docs" for t
    using segment_lookup_ok [OF assms(4) self(2,3) assms(5) self(4), of t] run_entries [OF assms(1,2), of t]
    by (auto split: option.splits if_splits)
  with self(1) show ?thesis by blast
qed

text \<open>
  C12: The fingerprint records. With the fingerprint codec, looking the fingerprint of any term up in the
  segment written returns, in increasing order and without duplicates, exactly the documents of the accepted
  single-document terms with that fingerprint and of the accepted records with it. So a term that was pushed is
  always found, in the dictionary or here, although the pending terms are sorted and merged with the carried records
  only when the writer is sealed.
\<close>

theorem segment_records_exact:
  assumes "writer_build first_doc last_doc version fingerprint_codec = Inr w0"
    and "run_calls pf fingerprint w0 calls = (w, accepted)"
    and "writer_finish checksum w = Some (Inr (file, z))"
    and "digest_ok checksum" "last_doc < 2 ^ 32" "length file < 2 ^ 64"
    and "\<forall>(t, docs)\<in>set (call_terms accepted). length t < 2 ^ 64 \<and> length docs < 2 ^ 32"
  shows "\<exists>self. segment_open checksum file = Some (Inr self) \<and>
    (\<forall>t. \<exists>ds. segment_fingerprint_docs checksum fingerprint self t (\<lambda>_. False) = Inr ds \<and> sorted_wrt (<) ds \<and>
       unat ` set ds = {d. \<exists>t'. (t', [d]) \<in> set (call_terms accepted) \<and> fingerprint t' = fingerprint t} \<union>
         {d. (fingerprint t, d) \<in> set (call_records accepted)})"
proof -
  from run_opens [OF assms] obtain self where self: "segment_open checksum file = gives self"
    "segment_holds checksum pf first_doc last_doc (dict_entries w) (written_records fingerprint w accepted) self" .
  have "\<exists>ds. segment_fingerprint_docs checksum fingerprint self t (\<lambda>_. False) = Inr ds \<and> sorted_wrt (<) ds \<and>
       unat ` set ds = {d. \<exists>t'. (t', [d]) \<in> set (call_terms accepted) \<and> fingerprint t' = fingerprint t} \<union>
         {d. (fingerprint t, d) \<in> set (call_records accepted)}" for t
    by (rule run_records [OF assms(1,2) self(2) assms(4,5), of t]) auto
  with self(1) show ?thesis by blast
qed

text \<open>A list codec that stores every id in four bytes, and a digest, to run the model with.\<close>

definition plain_pfor :: pfor where
  "plain_pfor =
     \<lparr>pf_encode = (\<lambda>ids. concat (map (\<lambda>i. le32 (of_nat i)) ids)),
      pf_decode = (\<lambda>n bs. map (\<lambda>i. unat (from_le_bytes (take 4 (drop (i * 4) bs)) :: u32)) [0..<n]),
      pf_aux_len = (\<lambda>_. 0)\<rparr>"

definition plain_digest :: "bytes \<Rightarrow> bytes" where
  "plain_digest bs = replicate 15 0 @ [of_nat (length bs)]"

lemma plain_pfor_ok: "pfor_ok plain_pfor"
proof -
  have "map (\<lambda>i. unat (from_le_bytes (take 4 (drop (i * 4) (concat (map (\<lambda>i. le32 (of_nat i)) ids) @ suf))) :: u32)) [0..<length ids] = ids"
    if small: "\<forall>i\<in>set ids. i < 2 ^ 32" for ids :: "nat list" and suf
  proof (rule nth_equalityI)
    fix i
    assume "i < length (map (\<lambda>i. unat (from_le_bytes (take 4 (drop (i * 4) (concat (map (\<lambda>i. le32 (of_nat i)) ids) @ suf))) :: u32)) [0..<length ids])"
    then have i: "i < length ids" by simp
    have "holds_at (concat (map (\<lambda>i. le32 (of_nat i)) ids)) (i * 4) (le32 (of_nat (ids ! i)))"
      using concat_const_length(1) [of "map (\<lambda>i. le32 (of_nat i)) ids" 4 i] i by simp
    then have "take 4 (drop (i * 4) (concat (map (\<lambda>i. le32 (of_nat i)) ids) @ suf)) = le32 (of_nat (ids ! i))"
      by (auto simp: holds_at_iff)
    with i small show "map (\<lambda>i. unat (from_le_bytes (take 4 (drop (i * 4) (concat (map (\<lambda>i. le32 (of_nat i)) ids) @ suf))) :: u32)) [0..<length ids] ! i = ids ! i"
      by (simp add: unat_of_nat)
  qed simp
  moreover have "concat (map (\<lambda>i. le32 (of_nat i)) ids) \<noteq> []" if "2 \<le> length ids" for ids :: "nat list"
  proof -
    have "length (concat (map (\<lambda>i. le32 (of_nat i)) ids)) = length ids * 4" by (induction ids) simp_all
    with that show ?thesis by (metis list.size(3) mult_eq_0_iff numeral_neq_zero not_numeral_le_zero)
  qed
  ultimately show ?thesis unfolding pfor_ok_def plain_pfor_def by simp
qed

lemma plain_digest_ok: "digest_ok plain_digest"
  by (simp add: digest_ok_def plain_digest_def)

definition plain_fingerprint :: "bytes \<Rightarrow> u32" where
  "plain_fingerprint t = of_nat (length t)"

definition sample_calls :: "writer_call list" where
  "sample_calls = [Call_push [97] [12], Call_push [97, 98] [11, 15], Call_push [97] [13], Call_push [98] [30], Call_record 1 14]"

definition sample_run :: "nat \<Rightarrow> dict_writer \<times> writer_call list" where
  "sample_run codec_id = run_calls plain_pfor plain_fingerprint (projr (writer_build 10 20 2 codec_id)) sample_calls"

lemma sample_run_accepted:
  "snd (sample_run 1) = [Call_push [97] [12], Call_push [97, 98] [11, 15]]"
  by code_simp

lemma sample_run_sections:
  "(length (dw_blocks (fst (sample_run 1))), length (dw_postings (fst (sample_run 1))), length (dw_index (fst (sample_run 1)))) = (7, 8, 4)"
  by code_simp

lemma sample_build: "writer_build 10 20 2 1 = Inr (projr (writer_build 10 20 2 1))" "writer_build 10 20 2 2 = Inr (projr (writer_build 10 20 2 2))"
  by (simp_all add: writer_build_def dictionary_codec_def fingerprint_codec_def)

theorem segment_roundtrip_witness:
  "\<exists>file z self hit. writer_finish plain_digest (fst (sample_run 1)) = Some (Inr (file, z)) \<and>
     segment_open plain_digest file = Some (Inr self) \<and>
     segment_lookup plain_digest plain_pfor self [97, 98] = Some (Inr (Some hit)) \<and> hit_docs plain_pfor hit = [11, 15] \<and>
     segment_lookup plain_digest plain_pfor self [98] = Some (Inr None)"
proof -
  obtain w where run: "sample_run 1 = (w, [Call_push [97] [12], Call_push [97, 98] [11, 15]])"
    using sample_run_accepted by (metis prod.collapse)
  note calls = run [unfolded sample_run_def]
  note built = built_run [OF sample_build(1) calls]
  have none: "dw_singles w = None" using built(4) by (simp add: fingerprint_codec_def)
  then have "written_records plain_fingerprint w [Call_push [97] [12], Call_push [97, 98] [11, 15]] = []"
    by (simp add: demoted_def carried_records_def call_records_def map_filter_def)
  with writer_finish_result [OF built(1) plain_digest_ok] obtain out z where
    fin: "writer_finish plain_digest w = Some (Inr (out, z))" and len: "sizes_total z = length out"
      "sz_blocks z = length (dw_blocks w)" "sz_postings z = length (dw_postings w)" "sz_index z = length (dw_index w)"
      "sz_fingerprints z = 0" "sz_head z \<le> head_max" "sz_fingerprint_index z \<le> 10"
      "sz_sums z = (chunk_count (sz_blocks z) + chunk_count (sz_postings z) + chunk_count (sz_fingerprints z)) * 16"
    by (auto simp: blocks_of_def)
  have "length (dw_blocks w) = 7" "length (dw_postings w) = 8" "length (dw_index w) = 4"
    using sample_run_sections unfolding run by simp_all
  with len have small: "length out < 2 ^ 64"
    by (simp add: sizes_total_def head_max_def head_len_def fields_len_def table_entry_def chunk_count_def div_ceil_def chunk_def)
  have terms: "call_terms [Call_push [97] [12], Call_push [97, 98] [11, 15]] = [([97], [12]), ([97, 98], [11, 15])]"
    by (simp add: call_terms_def map_filter_def)
  from segment_roundtrip [OF sample_build(1) calls fin plain_pfor_ok plain_digest_ok _ small] obtain self where
    self: "segment_open plain_digest out = Some (Inr self)"
    and all: "\<forall>t. case map_of [([97], [12]), ([97, 98], [11, 15])] t of
       None \<Rightarrow> segment_lookup plain_digest plain_pfor self t = Some (Inr None)
     | Some docs \<Rightarrow>
         if 1 = fingerprint_codec \<and> length docs = 1 then segment_lookup plain_digest plain_pfor self t = Some (Inr None)
         else \<exists>hit. segment_lookup plain_digest plain_pfor self t = Some (Inr (Some hit)) \<and> hit_docs plain_pfor hit = docs"
    unfolding terms by auto
  from all [THEN spec, of "[97, 98]"] all [THEN spec, of "[98]"] obtain hit where
    "segment_lookup plain_digest plain_pfor self [97, 98] = Some (Inr (Some hit))" "hit_docs plain_pfor hit = [11, 15]"
    "segment_lookup plain_digest plain_pfor self [98] = Some (Inr None)" by auto
  with fin self show ?thesis unfolding run by auto
qed

lemma sample_records_accepted:
  "snd (sample_run 2) = [Call_push [97] [12], Call_push [97, 98] [11, 15], Call_record 1 14]"
  by code_simp

lemma sample_records_sections:
  "(length (dw_blocks (fst (sample_run 2))), length (dw_postings (fst (sample_run 2))), length (dw_index (fst (sample_run 2)))) = (2, 8, 5)"
  by code_simp

lemma sample_records_len:
  "section_len [(1, 2), (1, 4)] = 10" "length (record_blocks [(1 :: u32, 2 :: u32), (1, 4)]) = 1"
  by code_simp+

definition sample_accepted :: "writer_call list" where
  "sample_accepted = [Call_push [97] [12], Call_push [97, 98] [11, 15], Call_record 1 14]"

lemma sample_accepted_calls:
  "call_terms sample_accepted = [([97], [12]), ([97, 98], [11, 15])]" "call_records sample_accepted = [(1, 14)]"
  by (simp_all add: sample_accepted_def call_terms_def call_records_def map_filter_def)

lemma sample_records_finish:
  obtains w0 w out z where "writer_build 10 20 2 fingerprint_codec = Inr w0"
    "run_calls plain_pfor plain_fingerprint w0 sample_calls = (w, sample_accepted)"
    "writer_finish plain_digest w = Some (Inr (out, z))" "length out < 2 ^ 64"
proof -
  obtain w where run: "sample_run 2 = (w, sample_accepted)"
    using sample_records_accepted unfolding sample_accepted_def by (metis prod.collapse)
  note calls = run [unfolded sample_run_def]
  have build: "writer_build 10 20 2 fingerprint_codec = Inr (projr (writer_build 10 20 2 2))"
    using sample_build(2) by (simp add: fingerprint_codec_def)
  note built = built_run [OF build calls]
  have "set (demoted plain_fingerprint w) \<union> set (carried_records w sample_accepted) = set [(1, 2), (1, 4)]"
    using built(2,4,5) by (auto simp: demoted_def carried_records_def sample_accepted_calls plain_fingerprint_def)
  then have "written_records plain_fingerprint w sample_accepted = sorted_list_of_set (set [(1, 2), (1, 4)])" by (simp only:)
  also have "\<dots> = [(1, 2), (1, 4)]"
    by (rule sorted_list_of_set.idem_if_sorted_distinct) simp_all
  finally have rs: "written_records plain_fingerprint w sample_accepted = [(1, 2), (1, 4)]" .
  from writer_finish_result [OF built(1) plain_digest_ok, unfolded rs sample_records_len] obtain out z where
    fin: "writer_finish plain_digest w = Some (Inr (out, z))" and len: "sizes_total z = length out"
      "sz_blocks z = length (dw_blocks w)" "sz_postings z = length (dw_postings w)" "sz_index z = length (dw_index w)"
      "sz_fingerprints z = 10" "sz_head z \<le> head_max" "sz_fingerprint_index z \<le> 18"
      "sz_sums z = (chunk_count (sz_blocks z) + chunk_count (sz_postings z) + chunk_count (sz_fingerprints z)) * 16"
    by auto
  have "length (dw_blocks w) = 2" "length (dw_postings w) = 8" "length (dw_index w) = 5"
    using sample_records_sections unfolding run by simp_all
  with len have "length out < 2 ^ 64"
    by (simp add: sizes_total_def head_max_def head_len_def fields_len_def table_entry_def chunk_count_def div_ceil_def chunk_def)
  with that [OF build calls fin] show ?thesis .
qed

theorem segment_records_exact_witness:
  "\<exists>file self ds. segment_open plain_digest file = Some (Inr self) \<and>
     segment_fingerprint_docs plain_digest plain_fingerprint self [97] (\<lambda>_. False) = Inr ds \<and> unat ` set ds = {12, 14}"
proof -
  obtain w0 w out z where run: "writer_build 10 20 2 fingerprint_codec = Inr w0"
    "run_calls plain_pfor plain_fingerprint w0 sample_calls = (w, sample_accepted)"
    "writer_finish plain_digest w = Some (Inr (out, z))" "length out < 2 ^ 64" by (rule sample_records_finish)
  from segment_records_exact [OF run(1-3) plain_digest_ok _ run(4)] sample_accepted_calls obtain self where
    self: "segment_open plain_digest out = Some (Inr self)"
    and all: "\<forall>t. \<exists>ds. segment_fingerprint_docs plain_digest plain_fingerprint self t (\<lambda>_. False) = Inr ds \<and> sorted_wrt (<) ds \<and>
       unat ` set ds = {d. \<exists>t'. (t', [d]) \<in> set (call_terms sample_accepted) \<and> plain_fingerprint t' = plain_fingerprint t} \<union>
         {d. (plain_fingerprint t, d) \<in> set (call_records sample_accepted)}"
    by auto
  from all [THEN spec, of "[97]"] obtain ds where
    ds: "segment_fingerprint_docs plain_digest plain_fingerprint self [97] (\<lambda>_. False) = Inr ds"
      "unat ` set ds = {d. \<exists>t'. (t', [d]) \<in> set (call_terms sample_accepted) \<and> plain_fingerprint t' = plain_fingerprint [97]} \<union>
         {d. (plain_fingerprint [97], d) \<in> set (call_records sample_accepted)}" by blast
  have "unat ` set ds = {12, 14}" unfolding ds(2) sample_accepted_calls by (auto simp: plain_fingerprint_def)
  with self ds(1) show ?thesis by blast
qed

text \<open>
  C39: Finishing never panics. It fails only when the fingerprint section passes what \<open>u32\<close> offsets can address; otherwise the
  size it reports is the number of bytes written, the terms are those kept in the dictionary, and the pairs are their
  documents and the distinct records.
\<close>

theorem finish_reports_sizes:
  assumes "writer_build first_doc last_doc version codec_id = Inr w0"
    and "run_calls pf fingerprint w0 calls = (w, accepted)" and "digest_ok checksum"
  shows "case writer_finish checksum w of
      None \<Rightarrow> False
    | Some (Inl _) \<Rightarrow> codec_id = fingerprint_codec \<and> 2 ^ 32 \<le> section_len (written_records fingerprint w accepted)
    | Some (Inr (file, z)) \<Rightarrow>
        sizes_total z = length file \<and> sz_terms z = length (dict_entries w) \<and>
        sz_pairs z = sum_list (map (length \<circ> snd) (dict_entries w)) + length (written_records fingerprint w accepted)"
proof -
  note run = built_run [OF assms(1,2)]
  have "codec_id = fingerprint_codec" if "\<not> section_len (written_records fingerprint w accepted) < 2 ^ 32"
  proof (rule ccontr)
    assume "codec_id \<noteq> fingerprint_codec"
    then have "dw_singles w = None" using run(4) by simp
    moreover from this have "call_records accepted = []" using run(1) by (simp add: writer_inv_def)
    ultimately have "written_records fingerprint w accepted = []" by (simp add: demoted_def carried_records_def)
    with that show False by (simp add: blocks_of_def)
  qed
  with writer_finish_result [OF run(1) assms(3)] show ?thesis
    by (cases "section_len (written_records fingerprint w accepted) < 2 ^ 32") auto
qed

theorem finish_reports_sizes_witness:
  "case writer_finish plain_digest (fst (sample_run 1)) of
      None \<Rightarrow> False
    | Some (Inl _) \<Rightarrow> (1 :: nat) = fingerprint_codec
    | Some (Inr (file, z)) \<Rightarrow> sizes_total z = length file"
  using finish_reports_sizes [OF sample_build(1) prod.collapse [symmetric] plain_digest_ok, where pf = plain_pfor and fingerprint = plain_fingerprint and calls = sample_calls]
  by (auto simp: sample_run_def split: option.splits sum.splits prod.splits)

end
