(* ===== verification/Spill.thy ===== *)
theory Spill
  imports Segment_Lookup
begin

text \<open>
  The spilling writer (\<open>Writer::spill\<close>, \<open>Writer::finish_spilled\<close> and \<open>write_paced\<close> of
  \<open>segment/write.rs\<close>): whole chunks of the sections leave memory while terms are still pushed, blocks and records
  into the segment file at their final offsets, postings into a scratch file that is copied at the end. A file is its bytes;
  a write past its end fills the gap with zeros. The callback \<open>pace\<close> is asked with the number of the call and the size of the
  write, and may refuse: that is the only error of a write here.

  Result: whenever the writer is spilled, the finished file and its reported sizes are those of a writer
  that kept everything in memory, byte by byte, unless \<open>pace\<close> refused.
\<close>

section \<open>Files\<close>

definition spill_len :: nat where "spill_len = 2 ^ 20"

definition paced_len :: nat where "paced_len = 2 ^ 16"

text \<open>\<open>write_all_at\<close>.\<close>

definition write_at :: "bytes \<Rightarrow> nat \<Rightarrow> bytes \<Rightarrow> bytes" where
  "write_at out at bs =
     (if bs = [] then out
      else take at (out @ replicate (at - length out) 0) @ bs @ drop (at + length bs) out)"

fun write_pieces :: "(nat \<Rightarrow> nat \<Rightarrow> bool) \<Rightarrow> bytes \<Rightarrow> nat \<Rightarrow> bytes list \<Rightarrow> nat \<Rightarrow> (unit + bytes \<times> nat) option" where
  "write_pieces pace out at [] k = gives (out, k)"
| "write_pieces pace out at (piece # pieces) k =
     (if pace k (length piece) then write_pieces pace (write_at out at piece) (at + paced_len) pieces (k + 1) else fails ())"

definition write_paced :: "(nat \<Rightarrow> nat \<Rightarrow> bool) \<Rightarrow> bytes \<Rightarrow> bytes \<Rightarrow> nat \<Rightarrow> nat \<Rightarrow> (unit + bytes \<times> nat) option" where
  "write_paced pace out bs at k = write_pieces pace out at (chunks_of paced_len bs) k"

section \<open>Spilling\<close>

definition spilling_from :: "dict_writer \<Rightarrow> dict_writer" where
  "spilling_from w =
     w\<lparr>dw_spill := Some \<lparr>sp_out = [], sp_postings = [], sp_blocks_written = 0, sp_postings_written = 0,
                         sp_blocks_sums = [], sp_postings_sums = []\<rparr>\<rparr>"

text \<open>The part of a buffer that is written out: its whole chunks.\<close>

definition whole_chunks :: "bytes \<Rightarrow> nat" where
  "whole_chunks bs = length bs div chunk * chunk"

definition spill_records ::
  "(bytes \<Rightarrow> bytes) \<Rightarrow> (nat \<Rightarrow> nat \<Rightarrow> bool) \<Rightarrow> nat \<Rightarrow> spill \<Rightarrow> singles option \<Rightarrow> nat \<Rightarrow> (unit + spill \<times> singles option \<times> nat) option"
where
  "spill_records checksum pace base sp sgs k =
     (case sgs of
        None \<Rightarrow> gives (sp, None, k)
      | Some sg \<Rightarrow>
          (let e = sg_encoder sg in
           if sg_sealed sg \<and> spill_len \<le> length (fe_bytes e) then
             (let whole = whole_chunks (fe_bytes e); bytes = take whole (fe_bytes e);
                  sums = sg_sums sg @ chunk_sums checksum bytes;
                  at = base + fe_len e - length (fe_bytes e) in
              try_then (write_paced pace (sp_out sp) bytes at k) (\<lambda>(out, k).
                gives (sp\<lparr>sp_out := out\<rparr>, Some (sg\<lparr>sg_sums := sums, sg_encoder := fe_drain e whole\<rparr>), k)))
           else gives (sp, Some sg, k)))"

definition spill_blocks ::
  "(bytes \<Rightarrow> bytes) \<Rightarrow> (nat \<Rightarrow> nat \<Rightarrow> bool) \<Rightarrow> nat \<Rightarrow> spill \<Rightarrow> bytes \<Rightarrow> nat \<Rightarrow> (unit + spill \<times> bytes \<times> nat) option"
where
  "spill_blocks checksum pace head sp blocks k =
     (if spill_len \<le> length blocks then
        (let whole = whole_chunks blocks; sp = sp\<lparr>sp_blocks_sums := sp_blocks_sums sp @ chunk_sums checksum (take whole blocks)\<rparr> in
         try_then (write_paced pace (sp_out sp) (take whole blocks) (head + sp_blocks_written sp) k) (\<lambda>(out, k).
           gives (sp\<lparr>sp_out := out, sp_blocks_written := sp_blocks_written sp + whole\<rparr>, drop whole blocks, k)))
      else gives (sp, blocks, k))"

definition spill_postings ::
  "(bytes \<Rightarrow> bytes) \<Rightarrow> (nat \<Rightarrow> nat \<Rightarrow> bool) \<Rightarrow> spill \<Rightarrow> bytes \<Rightarrow> nat \<Rightarrow> (unit + spill \<times> bytes \<times> nat) option"
where
  "spill_postings checksum pace sp postings k =
     (if spill_len \<le> length postings then
        (let whole = whole_chunks postings; sp = sp\<lparr>sp_postings_sums := sp_postings_sums sp @ chunk_sums checksum (take whole postings)\<rparr> in
         try_then (write_paced pace (sp_postings sp) (take whole postings) (sp_postings_written sp) k) (\<lambda>(out, k).
           gives (sp\<lparr>sp_postings := out, sp_postings_written := sp_postings_written sp + whole\<rparr>, drop whole postings, k)))
      else gives (sp, postings, k))"

definition writer_head_len :: "dict_writer \<Rightarrow> nat" where
  "writer_head_len w = head_len (length (writer_sections w))"

definition writer_spill ::
  "(bytes \<Rightarrow> bytes) \<Rightarrow> (nat \<Rightarrow> nat \<Rightarrow> bool) \<Rightarrow> dict_writer \<Rightarrow> nat \<Rightarrow> (unit + dict_writer \<times> nat) option"
where
  "writer_spill checksum pace w k =
     (let head = writer_head_len w; (blocks_len, postings_len) = writer_lengths w in
      case dw_spill w of
        None \<Rightarrow> gives (w, k)
      | Some sp \<Rightarrow>
          try_then (spill_records checksum pace (head + blocks_len + postings_len) sp (dw_singles w) k) (\<lambda>(sp, sgs, k).
          try_then (spill_blocks checksum pace head sp (dw_blocks w) k) (\<lambda>(sp, blocks, k).
          try_then (spill_postings checksum pace sp (dw_postings w) k) (\<lambda>(sp, postings, k).
            gives (w\<lparr>dw_spill := Some sp, dw_singles := sgs, dw_blocks := blocks, dw_postings := postings\<rparr>, k)))))"

section \<open>Finishing\<close>

text \<open>The loop that copies the scratch file, a \<open>spill_len\<close> at a time.\<close>

function copy_postings ::
  "(nat \<Rightarrow> nat \<Rightarrow> bool) \<Rightarrow> bytes \<Rightarrow> bytes \<Rightarrow> nat \<Rightarrow> nat \<Rightarrow> nat \<Rightarrow> nat \<Rightarrow> (unit + bytes \<times> nat \<times> nat) option"
where
  "copy_postings pace postings out at start stop k =
     (if start < stop then
        (let n = min (stop - start) spill_len in
         if \<not> pace k n then fails ()
         else
           (case slice postings start (start + n) of
              None \<Rightarrow> fails ()
            | Some piece \<Rightarrow>
                try_then (write_paced pace out piece at (k + 1)) (\<lambda>(out, k).
                  copy_postings pace postings out (at + n) (start + n) stop k)))
      else gives (out, at, k))"
  by pat_completeness auto
termination
  by (relation "measure (\<lambda>(pace, postings, out, at, start, stop, k). stop - start)") (auto simp: spill_len_def)

declare copy_postings.simps [simp del]

text \<open>The sections written whole, where the codec has them.\<close>

fun write_tails ::
  "(nat \<Rightarrow> nat \<Rightarrow> bool) \<Rightarrow> segment_section list \<Rightarrow> bytes \<Rightarrow> nat \<Rightarrow> (segment_section \<Rightarrow> nat) \<Rightarrow> (segment_section \<times> bytes) list \<Rightarrow>
   nat \<Rightarrow> (unit + bytes \<times> (segment_section \<Rightarrow> nat) \<times> nat) option"
where
  "write_tails pace sections out at lengths [] k = gives (out, lengths, k)"
| "write_tails pace sections out at lengths ((s, bs) # rest) k =
     (if s \<in> set sections then
        try_then (write_paced pace out bs at k) (\<lambda>(out, k).
          write_tails pace sections out (at + length bs) (lengths(s := length bs)) rest k)
      else write_tails pace sections out at lengths rest k)"

text \<open>The records of the fingerprint codec: the sums of what is left, and its bytes behind those drained.\<close>

definition finish_records ::
  "(bytes \<Rightarrow> bytes) \<Rightarrow> (nat \<Rightarrow> nat \<Rightarrow> bool) \<Rightarrow> singles option \<Rightarrow> bytes \<Rightarrow> nat \<Rightarrow> bytes \<Rightarrow> (segment_section \<Rightarrow> nat) \<Rightarrow> nat \<Rightarrow>
   (unit + bytes \<times> nat \<times> bytes \<times> (segment_section \<Rightarrow> nat) \<times> nat) option"
where
  "finish_records checksum pace sgs out at sums lengths k =
     (case sgs of
        None \<Rightarrow> gives (out, at, sums, lengths, k)
      | Some sg \<Rightarrow>
          (let e = sg_encoder sg; sums = sums @ sg_sums sg @ chunk_sums checksum (fe_bytes e);
               drained = fe_len e - length (fe_bytes e) in
           try_then (write_paced pace out (fe_bytes e) (at + drained) k) (\<lambda>(out, k).
             gives (out, at + fe_len e, sums, lengths(SecFingerprints := fe_len e), k))))"

text \<open>The two chunked sections and the records: their offset behind them, the sums and the lengths so far.\<close>

definition finish_sections ::
  "(bytes \<Rightarrow> bytes) \<Rightarrow> (nat \<Rightarrow> nat \<Rightarrow> bool) \<Rightarrow> dict_writer \<Rightarrow> spill \<Rightarrow> nat \<Rightarrow>
   (unit + bytes \<times> nat \<times> bytes \<times> (segment_section \<Rightarrow> nat) \<times> nat) option"
where
  "finish_sections checksum pace w sp k =
     (let blocks_sums = sp_blocks_sums sp @ chunk_sums checksum (dw_blocks w);
          postings_sums = sp_postings_sums sp @ chunk_sums checksum (dw_postings w);
          blocks_len = sp_blocks_written sp + length (dw_blocks w);
          postings_len = sp_postings_written sp + length (dw_postings w) in
      try_then (write_paced pace (sp_out sp) (dw_blocks w) (writer_head_len w + sp_blocks_written sp) k) (\<lambda>(out, k).
      try_then (copy_postings pace (sp_postings sp) out (writer_head_len w + blocks_len) 0 (sp_postings_written sp) k)
        (\<lambda>(out, at, k).
      try_then (write_paced pace out (dw_postings w) at k) (\<lambda>(out, k).
        finish_records checksum pace (dw_singles w) out (at + length (dw_postings w)) (blocks_sums @ postings_sums)
          ((\<lambda>_. 0)(SecBlocks := blocks_len, SecPostings := postings_len)) k))))"

text \<open>The sections that are read whole, and the head.\<close>

definition finish_tails ::
  "(bytes \<Rightarrow> bytes) \<Rightarrow> (nat \<Rightarrow> nat \<Rightarrow> bool) \<Rightarrow> dict_writer \<Rightarrow> bytes \<times> nat \<times> bytes \<times> (segment_section \<Rightarrow> nat) \<times> nat \<Rightarrow>
   (unit + bytes \<times> sizes) option"
where
  "finish_tails checksum pace w = (\<lambda>(out, at, sums, lengths, k).
     let record_index = (case dw_singles w of None \<Rightarrow> [] | Some sg \<Rightarrow> fe_index_section (sg_encoder sg)) in
     try_then (write_tails pace (writer_sections w) out at lengths
         [(SecIndex, dw_index w), (SecFingerprintIndex, record_index), (SecSums, sums)] k) (\<lambda>(out, lengths, k).
       do { digests \<leftarrow> chunk_digests checksum lengths sums
              ((\<lambda>_. replicate 16 0)(SecIndex := checksum (dw_index w), SecFingerprintIndex := checksum record_index,
                 SecSums := checksum sums));
            gives (write_at out 0 (segment_head checksum w lengths digests), sizes_of w lengths) }))"

definition finish_spilled ::
  "(bytes \<Rightarrow> bytes) \<Rightarrow> (nat \<Rightarrow> nat \<Rightarrow> bool) \<Rightarrow> dict_writer \<Rightarrow> nat \<Rightarrow> (unit + bytes \<times> sizes) option"
where
  "finish_spilled checksum pace w k =
     (let w = seal_records w in
      if \<not> check_record_length w then fails ()
      else
        try_then (writer_spill checksum pace w k) (\<lambda>(w, k).
          case dw_spill w of
            None \<Rightarrow> fails ()
          | Some sp \<Rightarrow> try_then (finish_sections checksum pace w sp k) (finish_tails checksum pace w)))"

section \<open>Bytes at an offset of a file\<close>

definition at_file :: "bytes \<Rightarrow> nat \<Rightarrow> bytes \<Rightarrow> bool" where
  "at_file out at bs \<longleftrightarrow> take (length bs) (drop at out) = bs"

lemma at_file_nth: "at_file out at bs \<longleftrightarrow> bs = [] \<or> at + length bs \<le> length out \<and> (\<forall>i<length bs. out ! (at + i) = bs ! i)"
proof (cases "bs = []")
  case False
  have "take (length bs) (drop at out) = bs \<longleftrightarrow>
      length (take (length bs) (drop at out)) = length bs \<and> (\<forall>i<length bs. take (length bs) (drop at out) ! i = bs ! i)"
    by (auto simp: list_eq_iff_nth_eq)
  moreover have "0 < length bs" using False by simp
  then have "length (take (length bs) (drop at out)) = length bs \<longleftrightarrow> at + length bs \<le> length out"
    unfolding length_take length_drop by arith
  ultimately show ?thesis using False by (auto simp: at_file_def)
qed (simp add: at_file_def)

lemma take_append_iff:
  "take (length a + length b) xs = a @ b \<longleftrightarrow> take (length a) xs = a \<and> take (length b) (drop (length a) xs) = b"
proof (induction a arbitrary: xs)
  case (Cons x a)
  then show ?case by (cases xs) auto
qed simp

lemma at_file_append: "at_file out at (a @ b) \<longleftrightarrow> at_file out at a \<and> at_file out (at + length a) b"
  by (simp add: at_file_def take_append_iff add.commute)

lemma length_write_at [simp]: "length (write_at out at bs) = (if bs = [] then length out else max (length out) (at + length bs))"
  by (auto simp: write_at_def)

lemma nth_write_at:
  "i < length (write_at out at bs) \<Longrightarrow>
   write_at out at bs ! i = (if at \<le> i \<and> i < at + length bs then bs ! (i - at) else if i < length out then out ! i else 0)"
  by (cases "bs = []") (auto simp: write_at_def nth_append min_def)

lemma at_file_written: "at_file (write_at out at bs) at bs"
  by (cases "bs = []") (auto simp: at_file_nth nth_write_at)

lemma at_file_kept: "at_file out a x \<Longrightarrow> a + length x \<le> at \<or> at + length bs \<le> a \<Longrightarrow> at_file (write_at out at bs) a x"
  by (cases "x = []") (auto simp: at_file_nth nth_write_at)

lemma write_at_append: "write_at (write_at out at a) (at + length a) b = write_at out at (a @ b)"
proof (cases "a = [] \<or> b = []")
  case False
  then show ?thesis by (intro nth_equalityI) (auto simp: nth_write_at nth_append)
qed (auto simp: write_at_def)

lemma at_file_whole: "at_file out 0 bs \<Longrightarrow> length out \<le> length bs \<Longrightarrow> out = bs"
  by (simp add: at_file_def)

text \<open>A file that holds \<open>body\<close> behind its head, and nothing more.\<close>

definition body_is :: "bytes \<Rightarrow> nat \<Rightarrow> bytes \<Rightarrow> bool" where
  "body_is out head body \<longleftrightarrow> at_file out head body \<and> length out \<le> head + length body"

lemma body_is_grows: "body_is out head body \<Longrightarrow> at = head + length body \<Longrightarrow> body_is (write_at out at bs) head (body @ bs)"
  by (auto simp: body_is_def at_file_append at_file_written at_file_kept)

lemma body_is_done:
  assumes "body_is out head body" "length hd_bs = head" "hd_bs \<noteq> []"
  shows "write_at out 0 hd_bs = hd_bs @ body"
proof -
  have "at_file (write_at out 0 hd_bs) 0 (hd_bs @ body)"
    using assms at_file_written [of out 0 hd_bs] at_file_kept [of out head body 0 hd_bs] by (simp add: at_file_append body_is_def)
  then show ?thesis by (rule at_file_whole) (use assms in \<open>auto simp: body_is_def\<close>)
qed

section \<open>Results of paced writes\<close>

text \<open>Either the callback refused, or the result satisfies \<open>P\<close>.\<close>

definition paced :: "(nat \<Rightarrow> nat \<Rightarrow> bool) \<Rightarrow> (unit + 'a) option \<Rightarrow> ('a \<Rightarrow> bool) \<Rightarrow> bool" where
  "paced pace r P \<longleftrightarrow> r = fails () \<and> (\<exists>k n. \<not> pace k n) \<or> (\<exists>x. r = gives x \<and> P x)"

lemma paced_gives [simp]: "paced pace (gives x) P \<longleftrightarrow> P x"
  by (auto simp: paced_def)

lemma paced_fails [simp]: "paced pace (fails ()) P \<longleftrightarrow> \<not> (\<forall>k n. pace k n)"
  by (auto simp: paced_def)

lemma paced_then:
  assumes "paced pace r P" "\<And>x. P x \<Longrightarrow> paced pace (f x) Q"
  shows "paced pace (try_then r f) Q"
proof (cases "r = fails ()")
  case True
  with assms(1) show ?thesis by (simp add: paced_def)
next
  case False
  with assms(1) obtain x where "r = gives x" "P x" by (auto simp: paced_def)
  with assms(2) show ?thesis by simp
qed

lemma paced_mono: "paced pace r P \<Longrightarrow> (\<And>x. P x \<Longrightarrow> Q x) \<Longrightarrow> paced pace r Q"
  by (auto simp: paced_def)

lemma chunks_of_step: "0 < n \<Longrightarrow> bs \<noteq> [] \<Longrightarrow> chunks_of n bs = take n bs # chunks_of n (drop n bs)"
proof -
  assume n: "0 < n" and bs: "bs \<noteq> []"
  obtain m where m: "length bs = Suc m" using bs by (cases bs) auto
  have "(m + n) div n = Suc (m div n)" using n by (metis div_add_self2 less_not_refl2 Suc_eq_plus1)
  moreover have "(Suc m - n + n - 1) div n = m div n" using n by (cases "n \<le> Suc m") auto
  ultimately have "div_ceil (length bs) n = Suc (div_ceil (length bs - n) n)" by (simp add: m div_ceil_def)
  then show ?thesis
    unfolding chunks_of_def length_drop by (simp add: upt_conv_Cons map_Suc_upt [symmetric] add.commute del: upt_Suc map_Suc_upt)
qed

lemma chunks_of_Nil [simp]: "chunks_of n [] = []"
  by (cases "n = 0") (simp_all add: chunks_of_def div_ceil_def)

lemma write_paced_ok: "paced pace (write_paced pace out bs at k) (\<lambda>(out', _). out' = write_at out at bs)"
  unfolding write_paced_def
proof (induction "length bs" arbitrary: bs out at k rule: less_induct)
  case less
  show ?case
  proof (cases "bs = []")
    case False
    let ?n = "paced_len"
    have step: "chunks_of ?n bs = take ?n bs # chunks_of ?n (drop ?n bs)" using False by (intro chunks_of_step) (simp_all add: paced_len_def)
    have "paced pace (write_pieces pace (write_at out at (take ?n bs)) (at + ?n) (chunks_of ?n (drop ?n bs)) (k + 1))
        (\<lambda>(out', _). out' = write_at (write_at out at (take ?n bs)) (at + ?n) (drop ?n bs))"
      using False by (intro less) (simp add: paced_len_def)
    moreover have "write_at (write_at out at (take ?n bs)) (at + ?n) (drop ?n bs) = write_at out at bs"
    proof (cases "?n \<le> length bs")
      case True
      with write_at_append [of out at "take ?n bs" "drop ?n bs"] show ?thesis by simp
    qed (simp add: write_at_def)
    ultimately show ?thesis by (auto simp: step paced_def)
  qed (simp add: write_at_def)
qed

lemma chunk_sums_append:
  assumes "chunk dvd length a"
  shows "chunk_sums checksum (a @ b) = chunk_sums checksum a @ chunk_sums checksum b"
  using assms
proof (induction "length a" arbitrary: a rule: less_induct)
  case less
  show ?case
  proof (cases "a = []")
    case False
    then have len: "chunk \<le> length a" using less.prems by (simp add: dvd_imp_le)
    then have "chunk_sums checksum (drop chunk a @ b) = chunk_sums checksum (drop chunk a) @ chunk_sums checksum b"
      using False less.prems by (intro less) (auto simp: chunk_def dvd_minus_self)
    with False len show ?thesis by (simp add: chunk_sums_def chunks_of_step)
  qed (simp add: chunk_sums_def)
qed

section \<open>What the writer would hold in memory\<close>

definition restore :: "bytes \<Rightarrow> fp_encoder \<Rightarrow> fp_encoder" where
  "restore pr e = e\<lparr>fe_bytes := pr @ fe_bytes e, fe_drained := 0\<rparr>"

definition restore_singles :: "bytes \<Rightarrow> singles \<Rightarrow> singles" where
  "restore_singles pr sg = sg\<lparr>sg_encoder := restore pr (sg_encoder sg), sg_sums := []\<rparr>"

text \<open>The writer with the bytes \<open>pb\<close> of its blocks, \<open>pp\<close> of its postings and \<open>pr\<close> of its records put back.\<close>

definition unspilled :: "bytes \<Rightarrow> bytes \<Rightarrow> bytes \<Rightarrow> dict_writer \<Rightarrow> dict_writer" where
  "unspilled pb pp pr w =
     w\<lparr>dw_spill := None, dw_blocks := pb @ dw_blocks w, dw_postings := pp @ dw_postings w,
       dw_singles := map_option (restore_singles pr) (dw_singles w)\<rparr>"

definition written_lens :: "dict_writer \<Rightarrow> bytes \<Rightarrow> bytes \<Rightarrow> bytes \<Rightarrow> bool" where
  "written_lens w pb pp pr \<longleftrightarrow>
     (\<exists>sp. dw_spill w = Some sp \<and> sp_blocks_written sp = length pb \<and> sp_postings_written sp = length pp) \<and>
     (\<forall>sg. dw_singles w = Some sg \<longrightarrow> fe_drained (sg_encoder sg) = length pr)"

lemma unspilled_simps [simp]:
  "dw_spill (unspilled pb pp pr w) = None" "dw_blocks (unspilled pb pp pr w) = pb @ dw_blocks w"
  "dw_postings (unspilled pb pp pr w) = pp @ dw_postings w" "dw_index (unspilled pb pp pr w) = dw_index w"
  "dw_singles (unspilled pb pp pr w) = map_option (restore_singles pr) (dw_singles w)"
  "dw_codec (unspilled pb pp pr w) = dw_codec w" "dw_terms (unspilled pb pp pr w) = dw_terms w"
  "dw_in_block (unspilled pb pp pr w) = dw_in_block w" "term_writer.truncate (unspilled pb pp pr w) = term_writer.truncate w"
  "tw_first (unspilled pb pp pr w) = tw_first w" "tw_last (unspilled pb pp pr w) = tw_last w"
  by (simp_all add: unspilled_def term_writer.truncate_def)

lemma restore_len [simp]: "fe_drained e = length pr \<Longrightarrow> fe_len (restore pr e) = fe_len e"
  by (simp add: fe_len_def restore_def)

lemma fe_push_restore:
  assumes "fe_drained e = length pr"
  shows "fe_push (restore pr e) fp doc = map_prod id (restore pr) (fe_push e fp doc)" "fe_drained (snd (fe_push e fp doc)) = fe_drained e"
  using assms by (simp_all add: fe_push_def restore_def Let_def fe_len_def)

lemma restore_singles_simps [simp]:
  "sg_pending (restore_singles pr sg) = sg_pending sg" "sg_next (restore_singles pr sg) = sg_next sg"
  "sg_sealed (restore_singles pr sg) = sg_sealed sg" "sg_carried (restore_singles pr sg) = sg_carried sg"
  "sg_encoder (restore_singles pr sg) = restore pr (sg_encoder sg)"
  by (simp_all add: restore_singles_def)

lemma flush_loop_restore:
  "fe_drained (sg_encoder sg) = length pr \<Longrightarrow>
   flush_loop bound (restore_singles pr sg) = restore_singles pr (flush_loop bound sg) \<and>
   fe_drained (sg_encoder (flush_loop bound sg)) = length pr \<and> sg_sealed (flush_loop bound sg) = sg_sealed sg \<and>
   sg_sums (flush_loop bound sg) = sg_sums sg"
proof (induction bound sg rule: flush_loop.induct)
  case (1 bound sg)
  let ?go = "sg_next sg < length (sg_pending sg) \<and> (case bound of None \<Rightarrow> True | Some b \<Rightarrow> sg_pending sg ! sg_next sg < b)"
  let ?r = "sg_pending sg ! sg_next sg"
  let ?sg' = "sg\<lparr>sg_encoder := snd (fe_push (sg_encoder sg) (fst ?r) (snd ?r)), sg_next := sg_next sg + 1\<rparr>"
  show ?case
  proof (cases ?go)
    case True
    have step: "flush_loop bound sg = flush_loop bound ?sg'" using True by (subst flush_loop.simps) (simp add: Let_def)
    have eq: "(restore_singles pr sg)\<lparr>sg_encoder := snd (fe_push (sg_encoder (restore_singles pr sg)) (fst ?r) (snd ?r)), sg_next := sg_next sg + 1\<rparr> =
        restore_singles pr ?sg'"
      using "1.prems" by (simp add: restore_singles_def fe_push_restore)
    have "flush_loop bound (restore_singles pr sg) = flush_loop bound (restore_singles pr ?sg')"
      by (subst flush_loop.simps, unfold restore_singles_simps(1,2) Let_def, subst if_P [OF True]) (simp only: eq)
    with "1.IH" [OF True refl] "1.prems" show ?thesis by (simp add: step fe_push_restore)
  next
    case False
    then have "flush_loop bound sg = sg" by (subst flush_loop.simps) (simp only: if_False)
    moreover from False have "flush_loop bound (restore_singles pr sg) = restore_singles pr sg"
      by (subst flush_loop.simps) (simp only: restore_singles_simps if_False)
    ultimately show ?thesis using "1.prems" by simp
  qed
qed

lemma flush_below_restore:
  assumes "fe_drained (sg_encoder sg) = length pr"
  shows "flush_below bound (singles_seal (restore_singles pr sg)) = restore_singles pr (flush_below bound (singles_seal sg))"
    "fe_drained (sg_encoder (flush_below bound (singles_seal sg))) = length pr" "sg_sealed (flush_below bound (singles_seal sg))"
    "sg_sums (flush_below bound (singles_seal sg)) = sg_sums sg"
proof -
  have seal: "singles_seal (restore_singles pr sg) = restore_singles pr (singles_seal sg)"
    "fe_drained (sg_encoder (singles_seal sg)) = length pr" "sg_sealed (singles_seal sg)" "sg_sums (singles_seal sg) = sg_sums sg"
    using assms by (simp_all add: singles_seal_def restore_singles_def)
  note loop = flush_loop_restore [OF seal(2), of bound]
  show "flush_below bound (singles_seal (restore_singles pr sg)) = restore_singles pr (flush_below bound (singles_seal sg))"
    unfolding seal(1) flush_below_def Let_def using loop by (simp add: restore_singles_def)
  show "fe_drained (sg_encoder (flush_below bound (singles_seal sg))) = length pr" "sg_sealed (flush_below bound (singles_seal sg))"
    "sg_sums (flush_below bound (singles_seal sg)) = sg_sums sg"
    using loop seal by (simp_all add: flush_below_def Let_def)
qed

text \<open>\<open>push\<close> after the block is open.\<close>

definition entry_rest :: "pfor \<Rightarrow> dict_writer \<Rightarrow> bytes \<Rightarrow> nat list \<Rightarrow> dict_writer" where
  "entry_rest pf w t docs =
     (let shared = shared_len t (dw_previous w); old = 0 < dw_in_block w;
          front = (if old then put_nat shared @ put_nat (length t - shared) @ drop shared t else []) in
      remember
        (w\<lparr>dw_blocks := dw_blocks w @ front @ tail_bytes pf (tw_first w) docs,
           dw_postings := dw_postings w @ list_bytes pf (tw_first w) docs,
           dw_term_bytes := (if old then dw_term_bytes w + (length t - shared) else dw_term_bytes w),
           dw_singletons := (if length docs = 1 then dw_singletons w + 1 else dw_singletons w),
           dw_singleton_bytes :=
             (if length docs = 1 then dw_singleton_bytes w + length (front @ tail_bytes pf (tw_first w) docs) else dw_singleton_bytes w),
           dw_previous := t, dw_in_block := dw_in_block w + 1, dw_terms := dw_terms w + 1, dw_pairs := dw_pairs w + length docs\<rparr>) t docs)"

lemma push_entry_rest:
  "push_entry pf w t docs =
     (let w1 = (if dw_terms w = 0 \<or> dw_in_block w = block_terms then open_block w t else w); w2 = entry_rest pf w1 t docs
      in (w2, length (dw_blocks w2) - length (dw_blocks w1)))"
proof -
  have eq: "(let entry = length (dw_blocks w);
          w = (if 0 < dw_in_block w then
                 (let shared = shared_len t (dw_previous w) in
                  w\<lparr>dw_blocks := dw_blocks w @ put_nat shared @ put_nat (length t - shared) @ drop shared t,
                    dw_term_bytes := dw_term_bytes w + (length t - shared)\<rparr>)
               else w);
          w = w\<lparr>dw_blocks := dw_blocks w @ put_nat (length docs)\<rparr>;
          w = (case docs of
                 [doc] \<Rightarrow>
                   (let w = w\<lparr>dw_blocks := dw_blocks w @ put_nat (doc - tw_first w)\<rparr> in
                    w\<lparr>dw_singletons := dw_singletons w + 1,
                      dw_singleton_bytes := dw_singleton_bytes w + (length (dw_blocks w) - entry)\<rparr>)
               | _ \<Rightarrow>
                   (let list = pf_encode pf (map (\<lambda>doc. doc - tw_first w) docs) in
                    w\<lparr>dw_postings := dw_postings w @ list, dw_blocks := dw_blocks w @ put_nat (length list)\<rparr>));
          w = remember (w\<lparr>dw_previous := t\<rparr>) t docs;
          w = w\<lparr>dw_in_block := dw_in_block w + 1, dw_terms := dw_terms w + 1, dw_pairs := dw_pairs w + length docs\<rparr>
      in (w, length (dw_blocks w) - entry)) =
    (entry_rest pf w t docs, length (dw_blocks (entry_rest pf w t docs)) - length (dw_blocks w))" for w
  proof (cases "length docs = 1")
    case True
    then obtain d where "docs = [d]" by (auto simp: length_Suc_conv)
    then show ?thesis by (cases "0 < dw_in_block w") (simp_all add: Let_def entry_rest_def remember_def tail_bytes_def list_bytes_def)
  next
    case False
    then show ?thesis
      by (cases "0 < dw_in_block w") (simp_all add: Let_def entry_rest_def remember_def tail_bytes_def list_bytes_def case_not_single)
  qed
  show ?thesis unfolding push_entry_def by (subst Let_def, subst eq) (simp add: Let_def)
qed

lemma open_block_unspilled:
  assumes "written_lens w pb pp pr"
  shows "open_block (unspilled pb pp pr w) t = unspilled pb pp pr (open_block w t)" "written_lens (open_block w t) pb pp pr"
    "dw_spill (open_block w t) = dw_spill w" "dw_singles (open_block w t) = dw_singles w" "dw_blocks (open_block w t) = dw_blocks w"
    "dw_postings (open_block w t) = dw_postings w" "dw_codec (open_block w t) = dw_codec w"
  using assms by (auto simp: open_block_def writer_lengths_def unspilled_def written_lens_def)

lemma entry_rest_unspilled:
  "entry_rest pf (unspilled pb pp pr w) t docs = unspilled pb pp pr (entry_rest pf w t docs)"
  "dw_spill (entry_rest pf w t docs) = dw_spill w" "dw_singles (entry_rest pf w t docs) = dw_singles w"
  "dw_codec (entry_rest pf w t docs) = dw_codec w"
  "length (dw_blocks w) \<le> length (dw_blocks (entry_rest pf w t docs))"
  "length (dw_postings w) \<le> length (dw_postings (entry_rest pf w t docs))"
  by (simp_all add: entry_rest_def Let_def remember_def unspilled_def)

lemma push_entry_unspilled:
  assumes "written_lens w pb pp pr"
  shows "push_entry pf (unspilled pb pp pr w) t docs = map_prod (unspilled pb pp pr) id (push_entry pf w t docs)"
    "dw_spill (fst (push_entry pf w t docs)) = dw_spill w" "dw_singles (fst (push_entry pf w t docs)) = dw_singles w"
    "length (dw_blocks w) \<le> length (dw_blocks (fst (push_entry pf w t docs)))"
    "length (dw_postings w) \<le> length (dw_postings (fst (push_entry pf w t docs)))"
    "dw_codec (fst (push_entry pf w t docs)) = dw_codec w"
  using open_block_unspilled [OF assms] entry_rest_unspilled
    entry_rest_unspilled(5) [of "open_block w t" pf t docs] entry_rest_unspilled(6) [of "open_block w t" pf t docs]
  by (simp_all add: push_entry_rest Let_def)

section \<open>The simulation\<close>

definition body_base :: "dict_writer \<Rightarrow> bytes \<Rightarrow> bytes \<Rightarrow> nat" where
  "body_base w pb pp = writer_head_len w + length (pb @ dw_blocks w) + length (pp @ dw_postings w)"

definition singles_ok :: "(bytes \<Rightarrow> bytes) \<Rightarrow> singles option \<Rightarrow> nat \<Rightarrow> bytes \<Rightarrow> bool" where
  "singles_ok checksum sgs codec_id pr \<longleftrightarrow>
     (case sgs of
        None \<Rightarrow> pr = [] \<and> codec_id = dictionary_codec
      | Some sg \<Rightarrow> fe_drained (sg_encoder sg) = length pr \<and> sg_sums sg = chunk_sums checksum pr \<and> chunk dvd length pr \<and>
          (pr \<noteq> [] \<longrightarrow> sg_sealed sg) \<and> codec_id = fingerprint_codec)"

lemma singles_ok_simps [simp]:
  "singles_ok checksum None codec_id pr \<longleftrightarrow> pr = [] \<and> codec_id = dictionary_codec"
  "singles_ok checksum (Some sg) codec_id pr \<longleftrightarrow>
     fe_drained (sg_encoder sg) = length pr \<and> sg_sums sg = chunk_sums checksum pr \<and> chunk dvd length pr \<and>
     (pr \<noteq> [] \<longrightarrow> sg_sealed sg) \<and> codec_id = fingerprint_codec"
  by (simp_all add: singles_ok_def)

text \<open>What has left memory is where it belongs, whole chunks with their sums.\<close>

definition spill_ok :: "(bytes \<Rightarrow> bytes) \<Rightarrow> dict_writer \<Rightarrow> spill \<Rightarrow> bytes \<Rightarrow> bytes \<Rightarrow> bytes \<Rightarrow> bool" where
  "spill_ok checksum w sp pb pp pr \<longleftrightarrow>
     sp_blocks_written sp = length pb \<and> sp_blocks_sums sp = chunk_sums checksum pb \<and> chunk dvd length pb \<and>
     at_file (sp_out sp) (writer_head_len w) pb \<and>
     sp_postings_written sp = length pp \<and> sp_postings_sums sp = chunk_sums checksum pp \<and> chunk dvd length pp \<and> sp_postings sp = pp \<and>
     length (sp_out sp) \<le> body_base w pb pp + length pr \<and> at_file (sp_out sp) (body_base w pb pp) pr \<and>
     singles_ok checksum (dw_singles w) (dw_codec w) pr"

definition spilled :: "(bytes \<Rightarrow> bytes) \<Rightarrow> dict_writer \<Rightarrow> dict_writer \<Rightarrow> bool" where
  "spilled checksum w v \<longleftrightarrow> (\<exists>sp pb pp pr. dw_spill w = Some sp \<and> v = unspilled pb pp pr w \<and> spill_ok checksum w sp pb pp pr)"

lemma spill_ok_lens: "dw_spill w = Some sp \<Longrightarrow> spill_ok checksum w sp pb pp pr \<Longrightarrow> written_lens w pb pp pr"
  by (auto simp: spill_ok_def written_lens_def)

lemma writer_head_len_codec: "dw_codec w' = dw_codec w \<Longrightarrow> writer_head_len w' = writer_head_len w"
  by (simp add: writer_head_len_def writer_sections_def)

text \<open>A push on a writer that has no record on disk: the sections only grow.\<close>

lemma spill_ok_grows:
  assumes "spill_ok checksum w sp pb pp pr" "pr = []" "dw_codec w' = dw_codec w" "dw_singles w' = None \<longleftrightarrow> dw_singles w = None"
    and "length (dw_blocks w) \<le> length (dw_blocks w')" "length (dw_postings w) \<le> length (dw_postings w')"
    and "\<And>sg sg'. dw_singles w = Some sg \<Longrightarrow> dw_singles w' = Some sg' \<Longrightarrow> sg_encoder sg' = sg_encoder sg \<and> sg_sums sg' = sg_sums sg"
  shows "spill_ok checksum w' sp pb pp pr"
proof -
  note head = writer_head_len_codec [OF assms(3)]
  have len: "length (sp_out sp) \<le> body_base w' pb pp + length pr"
    using assms(1,5,6) unfolding spill_ok_def body_base_def head by simp
  have none: "at_file (sp_out sp) n pr" for n using assms(2) by (simp add: at_file_def)
  show ?thesis
  proof (cases "dw_singles w")
    case None
    with assms(4) have "dw_singles w' = None" by simp
    with None assms(1,3) len none show ?thesis unfolding spill_ok_def head by simp
  next
    case (Some sg)
    with assms(4) obtain sg' where sg': "dw_singles w' = Some sg'" by auto
    from assms(7) [OF Some sg'] assms(1,3) Some sg' len none show ?thesis
      unfolding spill_ok_def head by (simp add: assms(2))
  qed
qed

lemma spilled_push:
  assumes "spilled checksum w v"
  shows "case dict_push pf fingerprint w t docs of
      Inl e \<Rightarrow> dict_push pf fingerprint v t docs = Inl e
    | Inr (w', n) \<Rightarrow> \<exists>v'. dict_push pf fingerprint v t docs = Inr (v', n) \<and> spilled checksum w' v'"
proof -
  from assms obtain sp pb pp pr where sp: "dw_spill w = Some sp" and v: "v = unspilled pb pp pr w" and ok: "spill_ok checksum w sp pb pp pr"
    by (auto simp: spilled_def)
  note lens = spill_ok_lens [OF sp ok]
  note entry = push_entry_unspilled [OF lens]
  have kept: "spilled checksum (fst (push_entry pf w t docs)) (unspilled pb pp pr (fst (push_entry pf w t docs)))" if "pr = []"
    using spill_ok_grows [OF ok that, of "fst (push_entry pf w t docs)"] entry sp unfolding spilled_def by auto
  show ?thesis
  proof (cases "check_term (term_writer.truncate w) t docs")
    case (Inr u)
    show ?thesis
    proof (cases "dw_singles w")
      case None
      with ok have "pr = []" by (simp add: spill_ok_def)
      with None Inr kept entry(1) show ?thesis by (auto simp: dict_push_def v split: prod.splits)
    next
      case (Some sg)
      show ?thesis
      proof (cases "sg_sealed sg")
        case False
        with ok Some have pr: "pr = []" by (auto simp: spill_ok_def)
        let ?f = "\<lambda>w sg doc. remember (w\<lparr>dw_singles := Some (sg\<lparr>sg_pending := sg_pending sg @ [(fingerprint t, of_nat (doc - tw_first w))]\<rparr>),
                           dw_singletons := dw_singletons w + 1\<rparr>) t docs"
        show ?thesis
        proof (cases "length docs = 1")
          case True
          then obtain doc where docs: "docs = [doc]" by (auto simp: length_Suc_conv)
          have "spill_ok checksum (?f w sg doc) sp pb pp pr" using Some by (intro spill_ok_grows [OF ok pr]) (auto simp: remember_def)
          moreover have "?f v (restore_singles pr sg) doc = unspilled pb pp pr (?f w sg doc)" "dw_spill (?f w sg doc) = Some sp"
            using sp by (simp_all add: v unspilled_def remember_def restore_singles_def)
          ultimately show ?thesis
            using Some Inr False unfolding spilled_def by (auto simp: dict_push_def v docs)
        next
          case single: False
          with False Some Inr kept [OF pr] entry(1) show ?thesis by (auto simp: dict_push_def v case_not_single split: prod.splits)
        qed
      qed (use Some Inr in \<open>simp add: dict_push_def v\<close>)
    qed
  qed (simp add: dict_push_def v)
qed

lemma spill_ok_records:
  assumes "spill_ok checksum w sp pb pp pr" "dw_singles w = Some sg" "sg_sealed sg'" "sg_sums sg' = sg_sums sg"
    "fe_drained (sg_encoder sg') = length pr"
  shows "spill_ok checksum (w\<lparr>dw_singles := Some sg'\<rparr>) sp pb pp pr"
proof -
  have "writer_head_len (w\<lparr>dw_singles := Some sg'\<rparr>) = writer_head_len w" by (simp add: writer_head_len_def writer_sections_def)
  with assms show ?thesis by (simp add: spill_ok_def body_base_def)
qed

lemma spilled_record:
  assumes "spilled checksum w v"
  shows "case push_record w fp doc of
      Inl e \<Rightarrow> push_record v fp doc = Inl e
    | Inr w' \<Rightarrow> \<exists>v'. push_record v fp doc = Inr v' \<and> spilled checksum w' v'"
proof -
  from assms obtain sp pb pp pr where sp: "dw_spill w = Some sp" and v: "v = unspilled pb pp pr w" and ok: "spill_ok checksum w sp pb pp pr"
    by (auto simp: spilled_def)
  show ?thesis
  proof (cases "dw_singles w")
    case (Some sg)
    define r where "r = ((fp, of_nat (doc - tw_first w)) :: fp_record)"
    have drained: "fe_drained (sg_encoder sg) = length pr" using ok Some by (simp add: spill_ok_def)
    note flush = flush_below_restore [OF drained, of "Some r"]
    define sg1 where "sg1 = flush_below (Some r) (singles_seal sg)"
    define add where "add s = s\<lparr>sg_encoder := snd (fe_push (sg_encoder s) (fst r) (snd r)), sg_carried := Some r\<rparr>" for s :: singles
    let ?w = "w\<lparr>dw_singles := Some (add sg1)\<rparr>"
    have add: "add (restore_singles pr sg1) = restore_singles pr (add sg1)"
      using fe_push_restore(1) [OF flush(2) [folded sg1_def]] by (simp add: add_def restore_singles_def)
    have "spill_ok checksum ?w sp pb pp pr"
      using flush(2-4) fe_push_restore(2) [OF flush(2)] by (intro spill_ok_records [OF ok Some]) (simp_all add: sg1_def add_def)
    then have sim: "spilled checksum ?w (unspilled pb pp pr ?w)" using sp unfolding spilled_def by auto
    have same: "(unspilled pb pp pr w)\<lparr>dw_singles := Some (restore_singles pr (add sg1))\<rparr> = unspilled pb pp pr ?w"
      by (simp add: unspilled_def)
    have out: "push_record w fp doc =
        (if \<not> (tw_first w \<le> doc \<and> doc \<le> tw_last w) then Inl (DocRange doc)
         else if (case sg_carried sg of None \<Rightarrow> False | Some carried \<Rightarrow> r \<le> carried) then Inl RecordOrder else Inr ?w)"
      by (simp only: push_record_def Some option.case Let_def r_def [symmetric] sg1_def [symmetric] add_def)
    have "push_record v fp doc =
        (if \<not> (tw_first w \<le> doc \<and> doc \<le> tw_last w) then Inl (DocRange doc)
         else if (case sg_carried sg of None \<Rightarrow> False | Some carried \<Rightarrow> r \<le> carried) then Inl RecordOrder else Inr (unspilled pb pp pr ?w))"
      unfolding same [symmetric] add [symmetric]
      by (simp only: push_record_def v unspilled_simps Some option.map option.case Let_def restore_singles_simps r_def [symmetric] flush(1)
          sg1_def [symmetric] add_def)
    with out sim show ?thesis by simp
  qed (simp add: push_record_def v)
qed

text \<open>Moving whole chunks out of memory changes nothing of what the writer would hold.\<close>

lemma whole_chunks_le [simp]: "whole_chunks bs \<le> length bs" and whole_chunks_dvd [simp]: "chunk dvd whole_chunks bs"
  by (simp_all add: whole_chunks_def)

lemma write_at_end: "write_at out (length out) bs = out @ bs"
  by (simp add: write_at_def)

definition same_writer :: "(bytes \<Rightarrow> bytes) \<Rightarrow> dict_writer \<Rightarrow> dict_writer \<Rightarrow> spill \<Rightarrow> bool" where
  "same_writer checksum v w sp \<longleftrightarrow> (\<exists>pb pp pr. v = unspilled pb pp pr w \<and> spill_ok checksum w sp pb pp pr)"

lemma same_writer_records:
  assumes "same_writer checksum v w sp"
  shows "paced pace (spill_records checksum pace (writer_head_len w + fst (writer_lengths (w\<lparr>dw_spill := Some sp\<rparr>)) + snd (writer_lengths (w\<lparr>dw_spill := Some sp\<rparr>)))
      sp (dw_singles w) k) (\<lambda>(sp', sgs, _). same_writer checksum v (w\<lparr>dw_singles := sgs\<rparr>) sp')"
proof -
  from assms obtain pb pp pr where v: "v = unspilled pb pp pr w" and ok: "spill_ok checksum w sp pb pp pr" by (auto simp: same_writer_def)
  have base: "writer_head_len w + fst (writer_lengths (w\<lparr>dw_spill := Some sp\<rparr>)) + snd (writer_lengths (w\<lparr>dw_spill := Some sp\<rparr>)) = body_base w pb pp"
    using ok by (simp add: writer_lengths_def spill_ok_def body_base_def)
  show ?thesis
  proof (cases "dw_singles w")
    case None
    then have keep: "w\<lparr>dw_singles := None\<rparr> = w" by simp
    show ?thesis using assms by (simp only: spill_records_def None option.case paced_gives prod.case keep)
  next
    case (Some sg)
    then have keep: "w\<lparr>dw_singles := Some sg\<rparr> = w" by simp
    let ?e = "sg_encoder sg"
    show ?thesis
    proof (cases "sg_sealed sg \<and> spill_len \<le> length (fe_bytes ?e)")
      case False
      then show ?thesis using assms keep by (simp only: spill_records_def Some option.case Let_def if_False paced_gives prod.case)
    next
      case True
      let ?n = "whole_chunks (fe_bytes ?e)"
      let ?x = "take ?n (fe_bytes ?e)"
      let ?sg = "sg\<lparr>sg_sums := sg_sums sg @ chunk_sums checksum ?x, sg_encoder := fe_drain ?e ?n\<rparr>"
      let ?w = "w\<lparr>dw_singles := Some ?sg\<rparr>"
      have pr: "fe_drained ?e = length pr" "sg_sums sg = chunk_sums checksum pr" "chunk dvd length pr" "dw_codec w = fingerprint_codec"
        using ok Some by (simp_all add: spill_ok_def)
      have at: "body_base w pb pp + fe_len ?e - length (fe_bytes ?e) = body_base w pb pp + length pr" using pr(1) by (simp add: fe_len_def)
      have head: "writer_head_len ?w = writer_head_len w" by (simp add: writer_head_len_def writer_sections_def)
      then have base': "body_base ?w pb pp = body_base w pb pp" by (simp add: body_base_def)
      have x: "length ?x = ?n" by simp
      let ?out = "write_at (sp_out sp) (body_base w pb pp + length pr) ?x"
      have files: "length (sp_out sp) \<le> body_base w pb pp + length pr" "at_file (sp_out sp) (body_base w pb pp) pr"
        "at_file (sp_out sp) (writer_head_len w) pb" using ok by (simp_all add: spill_ok_def)
      have "at_file ?out (body_base w pb pp) (pr @ ?x)" using files(2) by (simp add: at_file_append at_file_written at_file_kept)
      moreover have "at_file ?out (writer_head_len w) pb" using files(3) by (rule at_file_kept) (simp add: body_base_def)
      moreover have "length ?out \<le> body_base w pb pp + length (pr @ ?x)" using files(1) by simp
      moreover have "chunk_sums checksum (pr @ ?x) = chunk_sums checksum pr @ chunk_sums checksum ?x" "chunk dvd length (pr @ ?x)"
        using pr(3) by (simp_all add: chunk_sums_append)
      ultimately have "spill_ok checksum ?w (sp\<lparr>sp_out := ?out\<rparr>) pb pp (pr @ ?x)"
        using ok pr True Some unfolding spill_ok_def base' head by (simp add: fe_drain_def)
      moreover have "v = unspilled pb pp (pr @ ?x) ?w"
        by (simp add: v unspilled_def Some restore_singles_def restore_def fe_drain_def)
      ultimately have "same_writer checksum v ?w (sp\<lparr>sp_out := ?out\<rparr>)" unfolding same_writer_def by blast
      then show ?thesis
        unfolding base spill_records_def Some option.case Let_def at if_P [OF True]
        by (intro paced_then [OF write_paced_ok]) (auto simp: Some)
    qed
  qed
qed

lemma same_writer_blocks:
  assumes "same_writer checksum v w sp"
  shows "paced pace (spill_blocks checksum pace (writer_head_len w) sp (dw_blocks w) k)
    (\<lambda>(sp', blocks, _). same_writer checksum v (w\<lparr>dw_blocks := blocks\<rparr>) sp')"
proof (cases "spill_len \<le> length (dw_blocks w)")
  case False
  have "w\<lparr>dw_blocks := dw_blocks w\<rparr> = w" by simp
  with False assms show ?thesis by (simp add: spill_blocks_def)
next
  case True
  from assms obtain pb pp pr where v: "v = unspilled pb pp pr w" and ok: "spill_ok checksum w sp pb pp pr" by (auto simp: same_writer_def)
  let ?n = "whole_chunks (dw_blocks w)"
  let ?x = "take ?n (dw_blocks w)" and ?w = "w\<lparr>dw_blocks := drop ?n (dw_blocks w)\<rparr>"
  let ?out = "write_at (sp_out sp) (writer_head_len w + length pb) ?x"
  let ?sp = "sp\<lparr>sp_blocks_sums := sp_blocks_sums sp @ chunk_sums checksum ?x, sp_out := ?out, sp_blocks_written := sp_blocks_written sp + ?n\<rparr>"
  have head: "writer_head_len ?w = writer_head_len w" by (simp add: writer_head_len_def writer_sections_def)
  have "length (pb @ ?x) + length (drop ?n (dw_blocks w)) = length (pb @ dw_blocks w)" by simp
  then have base: "body_base ?w (pb @ ?x) pp = body_base w pb pp" by (simp add: body_base_def head)
  have fit: "writer_head_len w + length pb + length ?x \<le> body_base w pb pp"
    using whole_chunks_le [of "dw_blocks w"] unfolding body_base_def length_take length_append by linarith
  have files: "length (sp_out sp) \<le> body_base w pb pp + length pr" "at_file (sp_out sp) (body_base w pb pp) pr"
    "at_file (sp_out sp) (writer_head_len w) pb" "chunk dvd length pb" "sp_blocks_written sp = length pb" using ok by (simp_all add: spill_ok_def)
  have "at_file ?out (writer_head_len w) (pb @ ?x)" using files(3) by (simp add: at_file_append at_file_written at_file_kept)
  moreover have "at_file ?out (body_base w pb pp) pr" using fit by (intro at_file_kept [OF files(2)]) simp
  moreover have "length ?out \<le> body_base w pb pp + length pr" using files(1) fit by simp
  moreover have "chunk_sums checksum (pb @ ?x) = chunk_sums checksum pb @ chunk_sums checksum ?x" "chunk dvd length (pb @ ?x)"
    using files(4) by (simp_all add: chunk_sums_append)
  ultimately have "spill_ok checksum ?w ?sp (pb @ ?x) pp pr"
    using ok unfolding spill_ok_def base head by simp
  moreover have "v = unspilled (pb @ ?x) pp pr ?w" by (simp add: v unspilled_def)
  ultimately have "same_writer checksum v ?w ?sp" unfolding same_writer_def by blast
  with True show ?thesis unfolding spill_blocks_def Let_def if_P [OF True]
    by (intro paced_then [OF write_paced_ok]) (auto simp: files(5))
qed

lemma same_writer_postings:
  assumes "same_writer checksum v w sp"
  shows "paced pace (spill_postings checksum pace sp (dw_postings w) k)
    (\<lambda>(sp', postings, _). same_writer checksum v (w\<lparr>dw_postings := postings\<rparr>) sp')"
proof (cases "spill_len \<le> length (dw_postings w)")
  case False
  have "w\<lparr>dw_postings := dw_postings w\<rparr> = w" by simp
  with False assms show ?thesis by (simp add: spill_postings_def)
next
  case True
  from assms obtain pb pp pr where v: "v = unspilled pb pp pr w" and ok: "spill_ok checksum w sp pb pp pr" by (auto simp: same_writer_def)
  let ?n = "whole_chunks (dw_postings w)"
  let ?x = "take ?n (dw_postings w)" and ?w = "w\<lparr>dw_postings := drop ?n (dw_postings w)\<rparr>"
  let ?sp = "sp\<lparr>sp_postings_sums := sp_postings_sums sp @ chunk_sums checksum ?x, sp_postings := pp @ ?x,
    sp_postings_written := sp_postings_written sp + ?n\<rparr>"
  have head: "writer_head_len ?w = writer_head_len w" by (simp add: writer_head_len_def writer_sections_def)
  have "length (pp @ ?x) + length (drop ?n (dw_postings w)) = length (pp @ dw_postings w)" by simp
  then have base: "body_base ?w pb (pp @ ?x) = body_base w pb pp" by (simp add: body_base_def head)
  have pp: "sp_postings sp = pp" "sp_postings_written sp = length pp" "chunk dvd length pp" using ok by (simp_all add: spill_ok_def)
  then have "chunk_sums checksum (pp @ ?x) = chunk_sums checksum pp @ chunk_sums checksum ?x" "chunk dvd length (pp @ ?x)"
    by (simp_all add: chunk_sums_append)
  then have "spill_ok checksum ?w ?sp pb (pp @ ?x) pr" using ok unfolding spill_ok_def base head by simp
  moreover have "v = unspilled pb (pp @ ?x) pr ?w" by (simp add: v unspilled_def)
  ultimately have "same_writer checksum v ?w ?sp" unfolding same_writer_def by blast
  with True show ?thesis unfolding spill_postings_def Let_def if_P [OF True]
    by (intro paced_then [OF write_paced_ok]) (auto simp: pp(1,2) write_at_end)
qed

lemma spilled_spill:
  assumes "spilled checksum w v"
  shows "paced pace (writer_spill checksum pace w k) (\<lambda>(w', _). spilled checksum w' v)"
proof -
  from assms obtain sp where sp: "dw_spill w = Some sp" and same: "same_writer checksum v w sp"
    by (auto simp: spilled_def same_writer_def)
  have self: "w\<lparr>dw_spill := Some sp\<rparr> = w" using sp by simp
  obtain blocks_len postings_len where lens: "writer_lengths w = (blocks_len, postings_len)" by force
  have head: "writer_head_len (w\<lparr>dw_singles := sgs\<rparr>) = writer_head_len w" for sgs
    by (simp add: writer_head_len_def writer_sections_def)
  have joined: "spilled checksum (w'\<lparr>dw_spill := Some sp'\<rparr>) v" if same': "same_writer checksum v w' sp'" for w' sp'
  proof -
    from same' obtain pb pp pr where v: "v = unspilled pb pp pr w'" and ok: "spill_ok checksum w' sp' pb pp pr" by (auto simp: same_writer_def)
    have "spill_ok checksum (w'\<lparr>dw_spill := Some sp'\<rparr>) sp' pb pp pr"
      using ok by (simp add: spill_ok_def body_base_def writer_head_len_def writer_sections_def)
    moreover have "v = unspilled pb pp pr (w'\<lparr>dw_spill := Some sp'\<rparr>)" by (simp add: v unspilled_def)
    ultimately show ?thesis unfolding spilled_def by auto
  qed
  have reorder: "w\<lparr>dw_spill := Some sp', dw_singles := sgs, dw_blocks := blocks, dw_postings := postings\<rparr> =
      w\<lparr>dw_singles := sgs, dw_blocks := blocks, dw_postings := postings, dw_spill := Some sp'\<rparr>" for sp' sgs blocks postings
    by (rule dict_writer.equality) simp_all
  have postings: "paced pace (try_then (spill_postings checksum pace sp2 (dw_postings w) k2) (\<lambda>(sp, postings, k).
        gives (w\<lparr>dw_spill := Some sp, dw_singles := sgs, dw_blocks := blocks, dw_postings := postings\<rparr>, k)))
      (\<lambda>(w', _). spilled checksum w' v)" if "same_writer checksum v (w\<lparr>dw_singles := sgs, dw_blocks := blocks\<rparr>) sp2" for sp2 sgs blocks k2
    using same_writer_postings [OF that, of pace k2]
    by (intro paced_then [where P = "\<lambda>(sp', postings, _). same_writer checksum v (w\<lparr>dw_singles := sgs, dw_blocks := blocks, dw_postings := postings\<rparr>) sp'"])
      (auto simp: reorder intro: joined)
  have blocks: "paced pace (try_then (spill_blocks checksum pace (writer_head_len w) sp1 (dw_blocks w) k1) (\<lambda>(sp, blocks, k).
        try_then (spill_postings checksum pace sp (dw_postings w) k) (\<lambda>(sp, postings, k).
        gives (w\<lparr>dw_spill := Some sp, dw_singles := sgs, dw_blocks := blocks, dw_postings := postings\<rparr>, k))))
      (\<lambda>(w', _). spilled checksum w' v)" if "same_writer checksum v (w\<lparr>dw_singles := sgs\<rparr>) sp1" for sp1 sgs k1
    using same_writer_blocks [OF that, of pace k1] postings
    by (intro paced_then [where P = "\<lambda>(sp', blocks, _). same_writer checksum v (w\<lparr>dw_singles := sgs, dw_blocks := blocks\<rparr>) sp'"])
      (auto simp: head)
  show ?thesis
    unfolding writer_spill_def Let_def lens prod.case sp option.case
    using same_writer_records [OF same, of pace k] blocks
    by (intro paced_then [where P = "\<lambda>(sp', sgs, _). same_writer checksum v (w\<lparr>dw_singles := sgs\<rparr>) sp'"])
      (auto simp: self lens)
qed

section \<open>Finishing writes the same file\<close>

lemma spilled_seal:
  assumes "spilled checksum w v"
  shows "spilled checksum (seal_records w) (seal_records v)" "check_record_length (seal_records w) = check_record_length (seal_records v)"
    "dw_spill v = None"
proof -
  from assms obtain sp pb pp pr where sp: "dw_spill w = Some sp" and v: "v = unspilled pb pp pr w" and ok: "spill_ok checksum w sp pb pp pr"
    by (auto simp: spilled_def)
  show "dw_spill v = None" by (simp add: v)
  have "spilled checksum (seal_records w) (seal_records v) \<and> check_record_length (seal_records w) = check_record_length (seal_records v)"
  proof (cases "dw_singles w")
    case None
    then have "seal_records w = w" "seal_records v = v" by (simp_all add: seal_records_def v)
    moreover have "check_record_length w = check_record_length v" using None by (simp add: check_record_length_def v)
    ultimately show ?thesis using assms by simp
  next
    case (Some sg)
    let ?sg = "flush_below None (singles_seal sg)"
    have drained: "fe_drained (sg_encoder sg) = length pr" using ok Some by (simp add: spill_ok_def)
    note flush = flush_below_restore [OF drained, of None]
    have w: "seal_records w = w\<lparr>dw_singles := Some ?sg\<rparr>" by (simp add: seal_records_def Some)
    have v': "seal_records v = unspilled pb pp pr (seal_records w)" by (simp add: seal_records_def v Some unspilled_def flush(1))
    have "spill_ok checksum (seal_records w) sp pb pp pr"
      unfolding w by (rule spill_ok_records [OF ok Some flush(3,4,2)])
    moreover have "dw_spill (seal_records w) = Some sp" using sp by (simp add: w)
    ultimately have "spilled checksum (seal_records w) (seal_records v)" unfolding spilled_def v' by blast
    moreover have "check_record_length (seal_records w) = check_record_length (seal_records v)"
      using flush(2) unfolding v' by (simp add: check_record_length_def w)
    ultimately show ?thesis by blast
  qed
  then show "spilled checksum (seal_records w) (seal_records v)" "check_record_length (seal_records w) = check_record_length (seal_records v)"
    by simp_all
qed

lemma copy_postings_ok:
  "start \<le> length pp \<Longrightarrow> paced pace (copy_postings pace pp out at start (length pp) k)
     (\<lambda>(out', at', _). out' = write_at out at (drop start pp) \<and> at' = at + (length pp - start))"
proof (induction "length pp - start" arbitrary: out at start k rule: less_induct)
  case less
  show ?case
  proof (cases "start < length pp")
    case True
    let ?n = "min (length pp - start) spill_len"
    let ?x = "take ?n (drop start pp)"
    have n: "0 < ?n" "start + ?n \<le> length pp" using True by (simp_all add: spill_len_def)
    have x: "slice pp start (start + ?n) = Some ?x" "length ?x = ?n" "drop start pp = ?x @ drop (start + ?n) pp"
      using n by (simp_all add: slice_def) (metis append_take_drop_id drop_drop add.commute)
    have "paced pace (copy_postings pace pp (write_at out at ?x) (at + ?n) (start + ?n) (length pp) k')
        (\<lambda>(out', at', _). out' = write_at (write_at out at ?x) (at + ?n) (drop (start + ?n) pp) \<and> at' = at + ?n + (length pp - (start + ?n)))" for k'
      using n(2) True by (intro less) (simp_all add: spill_len_def)
    moreover have "write_at (write_at out at ?x) (at + ?n) (drop (start + ?n) pp) = write_at out at (drop start pp)"
      using write_at_append [of out at ?x "drop (start + ?n) pp"] x(2,3) by (simp del: take_drop)
    moreover have "at + ?n + (length pp - (start + ?n)) = at + (length pp - start)" using n by simp
    ultimately have rest: "paced pace (copy_postings pace pp (write_at out at ?x) (at + ?n) (start + ?n) (length pp) k')
        (\<lambda>(out', at', _). out' = write_at out at (drop start pp) \<and> at' = at + (length pp - start))" for k' by simp
    show ?thesis
    proof (cases "pace k ?n")
      case ok: True
      have "copy_postings pace pp out at start (length pp) k =
          try_then (write_paced pace out ?x at (k + 1)) (\<lambda>(out, k). copy_postings pace pp out (at + ?n) (start + ?n) (length pp) k)"
        by (subst copy_postings.simps) (simp only: True ok x(1) Let_def if_True if_False not_True_eq_False option.case)
      then show ?thesis using rest by (auto intro!: paced_then [OF write_paced_ok])
    next
      case False
      then have "copy_postings pace pp out at start (length pp) k = fails ()"
        by (subst copy_postings.simps) (simp only: True Let_def if_True not_False_eq_True)
      with False show ?thesis by auto
    qed
  next
    case False
    then have "copy_postings pace pp out at start (length pp) k = gives (out, at, k)" by (subst copy_postings.simps) simp
    with False less.prems show ?thesis by (simp add: write_at_def)
  qed
qed

lemma write_tails_ok:
  "body_is out head body \<Longrightarrow> at = head + length body \<Longrightarrow>
   paced pace (write_tails pace secs out at lengths xs k)
     (\<lambda>(out', lengths', _). body_is out' head (body @ concat (map snd (filter (\<lambda>(s, _). s \<in> set secs) xs))) \<and>
        lengths' = foldl (\<lambda>l (s, bs). l(s := length bs)) lengths (filter (\<lambda>(s, _). s \<in> set secs) xs))"
proof (induction xs arbitrary: out at body lengths k)
  case (Cons x xs)
  obtain s bs where x: "x = (s, bs)" by force
  show ?case
  proof (cases "s \<in> set secs")
    case True
    have "body_is (write_at out at bs) head (body @ bs)" by (rule body_is_grows [OF Cons.prems])
    then have rest: "paced pace (write_tails pace secs (write_at out at bs) (at + length bs) (lengths(s := length bs)) xs k')
      (\<lambda>(out', lengths', _). body_is out' head (body @ concat (map snd (filter (\<lambda>(s, _). s \<in> set secs) (x # xs)))) \<and>
        lengths' = foldl (\<lambda>l (s, bs). l(s := length bs)) lengths (filter (\<lambda>(s, _). s \<in> set secs) (x # xs)))" for k'
      using Cons.IH [of "write_at out at bs" "body @ bs" "at + length bs" "lengths(s := length bs)" k'] Cons.prems(2) True by (simp add: x del: fun_upd_apply)
    show ?thesis
      unfolding x write_tails.simps if_P [OF True] by (intro paced_then [OF write_paced_ok]) (use rest [unfolded x] in \<open>auto simp del: fun_upd_apply\<close>)
  next
    case False
    with Cons.IH [OF Cons.prems, of lengths k] show ?thesis by (simp add: x)
  qed
qed simp

text \<open>The file while the blocks and postings are completed: \<open>a\<close> behind the head, and the records drained at \<open>base\<close>.\<close>

definition filled :: "nat \<Rightarrow> nat \<Rightarrow> bytes \<Rightarrow> bytes \<Rightarrow> bytes \<Rightarrow> bool" where
  "filled head base pr a out \<longleftrightarrow> at_file out head a \<and> at_file out base pr \<and> length out \<le> base + length pr"

lemma filled_grows: "filled head base pr a out \<Longrightarrow> at = head + length a \<Longrightarrow> at + length x \<le> base \<Longrightarrow> filled head base pr (a @ x) (write_at out at x)"
  by (auto simp: filled_def at_file_append at_file_written at_file_kept)

lemma filled_done:
  assumes "filled head base pr a out" "base = head + length a"
  shows "body_is (write_at out (base + length pr) x) head (a @ pr @ x)"
proof -
  have "body_is out head (a @ pr)" using assms by (simp add: filled_def body_is_def at_file_append)
  from body_is_grows [OF this, of "base + length pr" x] assms(2) show ?thesis by simp
qed

lemma finish_records_ok:
  assumes "filled head base pr a out" "base = head + length a" "singles_ok checksum sgs codec_id pr"
  defines "rest \<equiv> case sgs of None \<Rightarrow> [] | Some sg \<Rightarrow> fe_bytes (sg_encoder sg)"
  shows "paced pace (finish_records checksum pace sgs out base sums lengths k) (\<lambda>(out', at, sums', lengths', _).
    body_is out' head (a @ pr @ rest) \<and> at = base + length (pr @ rest) \<and> sums' = sums @ chunk_sums checksum (pr @ rest) \<and>
    lengths' = (if sgs = None then lengths else lengths(SecFingerprints := length (pr @ rest))))"
proof (cases sgs)
  case None
  with assms have "pr = []" "rest = []" by simp_all
  moreover from this filled_done [OF assms(1,2), of "[]"] have "body_is out head a" by (simp add: write_at_def)
  ultimately show ?thesis using None by (simp add: finish_records_def chunk_sums_def)
next
  case (Some sg)
  let ?e = "sg_encoder sg"
  have e: "fe_drained ?e = length pr" "sg_sums sg = chunk_sums checksum pr" "chunk dvd length pr" using assms(3) Some by simp_all
  then have len: "fe_len ?e - length (fe_bytes ?e) = length pr" "fe_len ?e = length (pr @ rest)" by (simp_all add: fe_len_def rest_def Some)
  have sums: "sg_sums sg @ chunk_sums checksum (fe_bytes ?e) = chunk_sums checksum (pr @ rest)"
    using e by (simp add: chunk_sums_append rest_def Some)
  show ?thesis
    unfolding finish_records_def Some option.case Let_def len(1)
    using filled_done [OF assms(1,2), of rest] sums len(2)
    by (intro paced_then [OF write_paced_ok]) (auto simp: rest_def Some simp del: fun_upd_apply length_append)
qed

lemma chunk_digests_cong:
  assumes "\<And>s. s \<notin> {SecBlocks, SecPostings, SecFingerprints} \<Longrightarrow> d s = d' s"
  shows "chunk_digests checksum lengths sums d = chunk_digests checksum lengths sums d'"
proof -
  have "d(SecBlocks := a, SecPostings := b, SecFingerprints := c) = d'(SecBlocks := a, SecPostings := b, SecFingerprints := c)" for a b c
    using assms by (auto simp: fun_eq_iff)
  then show ?thesis by (simp only: chunk_digests_def)
qed

text \<open>What \<open>finish\<close> writes, by section, in terms of the spilling writer.\<close>

lemma finished_unspilled:
  assumes ok: "spill_ok checksum w sp pb pp pr"
  defines "rest \<equiv> case dw_singles w of None \<Rightarrow> [] | Some sg \<Rightarrow> fe_bytes (sg_encoder sg)"
    and "record_index \<equiv> case dw_singles w of None \<Rightarrow> [] | Some sg \<Rightarrow> fe_index_section (sg_encoder sg)"
    and "bytes \<equiv> finished_bytes checksum (unspilled pb pp pr w)"
  shows "bytes SecBlocks = pb @ dw_blocks w" "bytes SecPostings = pp @ dw_postings w" "bytes SecFingerprints = pr @ rest"
    "bytes SecIndex = dw_index w" "bytes SecFingerprintIndex = record_index"
    "bytes SecSums = chunk_sums checksum (pb @ dw_blocks w) @ chunk_sums checksum (pp @ dw_postings w) @ chunk_sums checksum (pr @ rest)"
    "concat (map bytes (writer_sections w)) = (pb @ dw_blocks w) @ (pp @ dw_postings w) @ (pr @ rest) @
       concat (map snd (filter (\<lambda>(s, _). s \<in> set (writer_sections w))
         [(SecIndex, dw_index w), (SecFingerprintIndex, record_index), (SecSums, bytes SecSums)]))"
    "foldl (\<lambda>l (s, bs). l(s := length bs))
       (if dw_singles w = None then (\<lambda>_. 0)(SecBlocks := length (pb @ dw_blocks w), SecPostings := length (pp @ dw_postings w))
        else (\<lambda>_. 0)(SecBlocks := length (pb @ dw_blocks w), SecPostings := length (pp @ dw_postings w), SecFingerprints := length (pr @ rest)))
       (filter (\<lambda>(s, _). s \<in> set (writer_sections w))
         [(SecIndex, dw_index w), (SecFingerprintIndex, record_index), (SecSums, bytes SecSums)]) = (\<lambda>s. length (bytes s))"
proof -
  have singles: "singles_ok checksum (dw_singles w) (dw_codec w) pr" using ok by (simp add: spill_ok_def)
  show b: "bytes SecBlocks = pb @ dw_blocks w" "bytes SecPostings = pp @ dw_postings w" "bytes SecFingerprints = pr @ rest"
    "bytes SecIndex = dw_index w" "bytes SecFingerprintIndex = record_index"
    "bytes SecSums = chunk_sums checksum (pb @ dw_blocks w) @ chunk_sums checksum (pp @ dw_postings w) @ chunk_sums checksum (pr @ rest)"
    using singles by (cases "dw_singles w";
      simp add: bytes_def finished_bytes_def rest_def record_index_def restore_def fe_index_section_def chunk_sums_def)+
  have cases: "writer_sections w = [SecBlocks, SecPostings, SecIndex, SecSums] \<and> dw_singles w = None \<and> pr @ rest = [] \<and> record_index = [] \<or>
      writer_sections w = [SecBlocks, SecPostings, SecFingerprints, SecIndex, SecFingerprintIndex, SecSums] \<and> dw_singles w \<noteq> None"
    using singles by (cases "dw_singles w")
      (auto simp: writer_sections_def sections_of_def dictionary_codec_def fingerprint_codec_def rest_def record_index_def unwrap_or_def)
  then show "concat (map bytes (writer_sections w)) = (pb @ dw_blocks w) @ (pp @ dw_postings w) @ (pr @ rest) @
       concat (map snd (filter (\<lambda>(s, _). s \<in> set (writer_sections w))
         [(SecIndex, dw_index w), (SecFingerprintIndex, record_index), (SecSums, bytes SecSums)]))"
    by (elim disjE conjE) (simp_all add: b)
  have all: "(\<forall>s. P s) \<longleftrightarrow> P SecBlocks \<and> P SecPostings \<and> P SecIndex \<and> P SecSums \<and> P SecFingerprints \<and> P SecFingerprintIndex"
    for P :: "segment_section \<Rightarrow> bool" by (metis segment_section.exhaust)
  from cases show "foldl (\<lambda>l (s, bs). l(s := length bs))
       (if dw_singles w = None then (\<lambda>_. 0)(SecBlocks := length (pb @ dw_blocks w), SecPostings := length (pp @ dw_postings w))
        else (\<lambda>_. 0)(SecBlocks := length (pb @ dw_blocks w), SecPostings := length (pp @ dw_postings w), SecFingerprints := length (pr @ rest)))
       (filter (\<lambda>(s, _). s \<in> set (writer_sections w))
         [(SecIndex, dw_index w), (SecFingerprintIndex, record_index), (SecSums, bytes SecSums)]) = (\<lambda>s. length (bytes s))"
    unfolding fun_eq_iff all by (elim disjE conjE) (auto simp: b)
qed

text \<open>What the two halves of \<open>finish_spilled\<close> have written.\<close>

definition sections_done ::
  "(bytes \<Rightarrow> bytes) \<Rightarrow> dict_writer \<Rightarrow> bytes \<Rightarrow> bytes \<Rightarrow> bytes \<Rightarrow> bytes \<times> nat \<times> bytes \<times> (segment_section \<Rightarrow> nat) \<times> nat \<Rightarrow> bool"
where
  "sections_done checksum w x y r = (\<lambda>(out, at, sums, lengths, _).
     body_is out (writer_head_len w) (x @ y @ r) \<and> at = writer_head_len w + length (x @ y @ r) \<and>
     sums = chunk_sums checksum x @ chunk_sums checksum y @ chunk_sums checksum r \<and>
     lengths = (if dw_singles w = None then (\<lambda>_. 0)(SecBlocks := length x, SecPostings := length y)
       else (\<lambda>_. 0)(SecBlocks := length x, SecPostings := length y, SecFingerprints := length r)))"

lemma finish_sections_ok:
  assumes ok: "spill_ok checksum w sp pb pp pr"
  shows "paced pace (finish_sections checksum pace w sp k) (sections_done checksum w (pb @ dw_blocks w) (pp @ dw_postings w)
    (pr @ (case dw_singles w of None \<Rightarrow> [] | Some sg \<Rightarrow> fe_bytes (sg_encoder sg))))"
proof -
  let ?X = "pb @ dw_blocks w" and ?Y = "pp @ dw_postings w" and ?head = "writer_head_len w" and ?base = "body_base w pb pp"
  let ?Q = "sections_done checksum w ?X ?Y (pr @ (case dw_singles w of None \<Rightarrow> [] | Some sg \<Rightarrow> fe_bytes (sg_encoder sg)))"
  have sp: "sp_blocks_written sp = length pb" "sp_blocks_sums sp = chunk_sums checksum pb" "sp_postings_written sp = length pp"
    "sp_postings_sums sp = chunk_sums checksum pp" "sp_postings sp = pp" "chunk dvd length pb" "chunk dvd length pp"
    and singles: "singles_ok checksum (dw_singles w) (dw_codec w) pr" using ok by (simp_all add: spill_ok_def)
  have start: "filled ?head ?base pr pb (sp_out sp)" using ok by (simp add: spill_ok_def filled_def)
  have base: "?base = ?head + length (?X @ ?Y)" by (simp add: body_base_def)
  let ?records = "\<lambda>at (out, k). finish_records checksum pace (dw_singles w) out at (chunk_sums checksum ?X @ chunk_sums checksum ?Y)
    ((\<lambda>_. 0)(SecBlocks := length ?X, SecPostings := length ?Y)) k"
  have records: "paced pace (?records ?base (out, k)) ?Q" if "filled ?head ?base pr (?X @ ?Y) out" for out k
    by (rule paced_mono, unfold prod.case, rule finish_records_ok [OF that base singles])
      (auto simp: sections_done_def base simp del: fun_upd_apply)
  have postings: "paced pace (try_then (write_paced pace out (dw_postings w) at k) (?records (at + length (dw_postings w)))) ?Q"
    if "filled ?head ?base pr (?X @ pp) out" "at = ?head + length (?X @ pp)" for out at k
  proof (rule paced_then [OF write_paced_ok])
    fix x :: "bytes \<times> nat"
    assume "case x of (out', _) \<Rightarrow> out' = write_at out at (dw_postings w)"
    moreover have "filled ?head ?base pr (?X @ ?Y) (write_at out at (dw_postings w))"
      using filled_grows [OF that, of "dw_postings w"] that(2) by (simp add: body_base_def)
    moreover have "at + length (dw_postings w) = ?base" using that(2) by (simp add: body_base_def)
    ultimately show "paced pace (?records (at + length (dw_postings w)) x) ?Q" using records by (cases x) (simp del: fun_upd_apply)
  qed
  have copy: "paced pace (try_then (copy_postings pace pp out (?head + length ?X) 0 (length pp) k) (\<lambda>(out, at, k).
      try_then (write_paced pace out (dw_postings w) at k) (?records (at + length (dw_postings w))))) ?Q"
    if "filled ?head ?base pr ?X out" for out k
  proof (rule paced_then [OF copy_postings_ok])
    fix x :: "bytes \<times> nat \<times> nat"
    assume x: "case x of (out', at', _) \<Rightarrow> out' = write_at out (?head + length ?X) (drop 0 pp) \<and> at' = ?head + length ?X + (length pp - 0)"
    obtain out' at' k' where out: "x = (out', at', k')" by (cases x)
    have "filled ?head ?base pr (?X @ pp) out'" "at' = ?head + length (?X @ pp)"
      using x filled_grows [OF that refl, of pp] by (simp_all add: out body_base_def)
    from postings [OF this] show "paced pace (case x of (out, at, k) \<Rightarrow>
        try_then (write_paced pace out (dw_postings w) at k) (?records (at + length (dw_postings w)))) ?Q"
      unfolding out prod.case .
  qed simp
  have "filled ?head ?base pr ?X (write_at (sp_out sp) (?head + length pb) (dw_blocks w))"
    by (rule filled_grows [OF start refl]) (simp add: body_base_def)
  then have "paced pace (try_then (write_paced pace (sp_out sp) (dw_blocks w) (?head + length pb) k) (\<lambda>(out, k).
      try_then (copy_postings pace pp out (?head + length ?X) 0 (length pp) k) (\<lambda>(out, at, k).
      try_then (write_paced pace out (dw_postings w) at k) (?records (at + length (dw_postings w)))))) ?Q"
    using copy by (intro paced_then [OF write_paced_ok]) (auto simp del: fun_upd_apply)
  then show ?thesis
    unfolding finish_sections_def Let_def sp(1-5) by (simp add: chunk_sums_append sp(6,7) del: fun_upd_apply)
qed

lemma unspilled_head:
  "writer_sections (unspilled pb pp pr w) = writer_sections w"
  "segment_head checksum (unspilled pb pp pr w) = segment_head checksum w" "sizes_of (unspilled pb pp pr w) = sizes_of w"
proof -
  let ?v = "unspilled pb pp pr w"
  show secs: "writer_sections ?v = writer_sections w" by (simp add: writer_sections_def)
  have recs: "writer_records ?v = writer_records w" by (cases "dw_singles w") (simp_all add: writer_records_def restore_def)
  have "segment_fields ?v = segment_fields w" unfolding segment_fields_def secs recs by (simp add: unspilled_def)
  then show "segment_head checksum ?v = segment_head checksum w" by (simp add: segment_head_def secs fun_eq_iff)
  show "sizes_of ?v = sizes_of w" unfolding sizes_of_def secs recs by (simp add: unspilled_def fun_eq_iff)
qed

text \<open>The result of \<open>finish\<close> once the records are sealed and fit.\<close>

definition finished :: "(bytes \<Rightarrow> bytes) \<Rightarrow> dict_writer \<Rightarrow> (unit + bytes \<times> sizes) option" where
  "finished checksum v =
     (let bytes = finished_bytes checksum v; lengths = (\<lambda>s. length (bytes s)) in
      do { digests \<leftarrow> chunk_digests checksum lengths (bytes SecSums) (\<lambda>s. checksum (bytes s));
           gives (segment_head checksum v lengths digests @ concat (map bytes (writer_sections v)), sizes_of v lengths) })"

lemma finish_tails_ok:
  assumes ok: "spill_ok checksum w sp pb pp pr" and digest: "digest_ok checksum"
    and x: "sections_done checksum w (pb @ dw_blocks w) (pp @ dw_postings w)
      (pr @ (case dw_singles w of None \<Rightarrow> [] | Some sg \<Rightarrow> fe_bytes (sg_encoder sg))) x"
  shows "paced pace (finish_tails checksum pace w x) (\<lambda>r. finished checksum (unspilled pb pp pr w) = gives r)"
proof -
  let ?X = "pb @ dw_blocks w" and ?Y = "pp @ dw_postings w" and ?head = "writer_head_len w" and ?v = "unspilled pb pp pr w"
  define rest where "rest = (case dw_singles w of None \<Rightarrow> [] | Some sg \<Rightarrow> fe_bytes (sg_encoder sg))"
  define record_index where "record_index = (case dw_singles w of None \<Rightarrow> [] | Some sg \<Rightarrow> fe_index_section (sg_encoder sg))"
  define bytes where "bytes = finished_bytes checksum ?v"
  define lengths where "lengths = (\<lambda>s. length (bytes s))"
  note fin = finished_unspilled [OF ok, folded rest_def record_index_def, folded bytes_def]
  obtain out at sums lens k where out: "x = (out, at, sums, lens, k)" by (cases x)
  note done_x = x [unfolded sections_done_def out prod.case, folded rest_def]
  from chunk_digests_finished [OF bytes_def lengths_def digest] obtain d where
    d: "chunk_digests checksum lengths (bytes SecSums) (\<lambda>s. checksum (bytes s)) = Some d" "\<And>s. length (d s) = 16" by blast
  have fins: "finished checksum ?v = gives (segment_head checksum w lengths d @ concat (map bytes (writer_sections w)), sizes_of w lengths)"
    by (simp add: finished_def Let_def unspilled_head bytes_def [symmetric] lengths_def [symmetric] d(1))
  let ?digests = "(\<lambda>_. replicate 16 0)(SecIndex := checksum (dw_index w), SecFingerprintIndex := checksum record_index, SecSums := checksum (bytes SecSums))"
  have digests: "chunk_digests checksum lengths (bytes SecSums) ?digests = Some d"
    unfolding d(1) [symmetric] using fin(4,5) by (intro chunk_digests_cong) (auto, metis segment_section.exhaust)
  have "length (segment_head checksum w lengths d) = ?head" unfolding writer_head_len_def by (rule length_segment_head [OF digest d(2)])
  moreover have "0 < ?head" by (simp add: writer_head_len_def head_len_def)
  ultimately have whole: "write_at out' 0 (segment_head checksum w lengths d) = segment_head checksum w lengths d @ body"
    if "body_is out' ?head body" for out' body using body_is_done [OF that] by force
  have sums: "sums = bytes SecSums" using done_x unfolding fin(6) by blast
  have tails: "paced pace (write_tails pace (writer_sections w) out at lens
      [(SecIndex, dw_index w), (SecFingerprintIndex, record_index), (SecSums, bytes SecSums)] k)
     (\<lambda>(out', lengths', _). body_is out' ?head (concat (map bytes (writer_sections w))) \<and> lengths' = lengths)"
    using write_tails_ok [OF done_x [THEN conjunct1] done_x [THEN conjunct2, THEN conjunct1], of pace "writer_sections w" lens
        "[(SecIndex, dw_index w), (SecFingerprintIndex, record_index), (SecSums, bytes SecSums)]" k]
    using fin(7,8) done_x unfolding lengths_def by (simp only: append_assoc)
  show ?thesis
    unfolding finish_tails_def out prod.case Let_def record_index_def [symmetric] sums
  proof (rule paced_then [OF tails])
    fix y :: "bytes \<times> (segment_section \<Rightarrow> nat) \<times> nat"
    assume y: "case y of (out', lengths', _) \<Rightarrow> body_is out' ?head (concat (map bytes (writer_sections w))) \<and> lengths' = lengths"
    obtain out' lengths' k' where eq: "y = (out', lengths', k')" by (cases y)
    from y show "paced pace (case y of (out, lengths, k) \<Rightarrow>
        do { digests \<leftarrow> chunk_digests checksum lengths (bytes SecSums) ?digests;
             gives (write_at out 0 (segment_head checksum w lengths digests), sizes_of w lengths) }) (\<lambda>r. finished checksum ?v = gives r)"
      unfolding eq prod.case fins by (auto simp: digests whole simp del: fun_upd_apply)
  qed
qed

lemma finish_spilled_ok:
  assumes sim: "spilled checksum w v" and digest: "digest_ok checksum"
  shows "finish_spilled checksum pace w k = writer_finish checksum v \<or> finish_spilled checksum pace w k = fails () \<and> \<not> (\<forall>k n. pace k n)"
proof -
  note seal = spilled_seal [OF sim]
  have fin: "writer_finish checksum v = (if check_record_length (seal_records w) then finished checksum (seal_records v) else fails ())"
    by (simp add: writer_finish_def finished_def Let_def seal(2,3))
  show ?thesis
  proof (cases "check_record_length (seal_records w)")
    case True
    have "paced pace (try_then (writer_spill checksum pace (seal_records w) k) (\<lambda>(w, k).
        case dw_spill w of None \<Rightarrow> fails () | Some sp \<Rightarrow> try_then (finish_sections checksum pace w sp k) (finish_tails checksum pace w)))
      (\<lambda>r. finished checksum (seal_records v) = gives r)"
    proof (rule paced_then [OF spilled_spill [OF seal(1)]])
      fix x :: "dict_writer \<times> nat"
      assume "case x of (w', _) \<Rightarrow> spilled checksum w' (seal_records v)"
      then obtain w' k' sp pb pp pr where x: "x = (w', k')" and sp: "dw_spill w' = Some sp" and v: "seal_records v = unspilled pb pp pr w'"
        and ok: "spill_ok checksum w' sp pb pp pr" unfolding spilled_def by (cases x) auto
      show "paced pace (case x of (w, k) \<Rightarrow> case dw_spill w of None \<Rightarrow> fails ()
          | Some sp \<Rightarrow> try_then (finish_sections checksum pace w sp k) (finish_tails checksum pace w)) (\<lambda>r. finished checksum (seal_records v) = gives r)"
        unfolding x prod.case sp option.case v
        by (rule paced_then [OF finish_sections_ok [OF ok] finish_tails_ok [OF ok digest]])
    qed
    with True show ?thesis unfolding fin by (auto simp: paced_def finish_spilled_def)
  next
    case False
    then show ?thesis by (simp add: fin finish_spilled_def)
  qed
qed

section \<open>A run that spills\<close>

text \<open>Calls of a spilling writer, with \<open>None\<close> a call of \<open>spill\<close> between them, as a merge makes them. An error of
  \<open>spill\<close> ends the run.\<close>

fun run_spilling ::
  "pfor \<Rightarrow> (bytes \<Rightarrow> u32) \<Rightarrow> (bytes \<Rightarrow> bytes) \<Rightarrow> (nat \<Rightarrow> nat \<Rightarrow> bool) \<Rightarrow> dict_writer \<Rightarrow> nat \<Rightarrow> writer_call option list \<Rightarrow>
   (unit + dict_writer \<times> writer_call list \<times> nat) option"
where
  "run_spilling pf fingerprint checksum pace w k [] = gives (w, [], k)"
| "run_spilling pf fingerprint checksum pace w k (None # cs) =
     try_then (writer_spill checksum pace w k) (\<lambda>(w, k). run_spilling pf fingerprint checksum pace w k cs)"
| "run_spilling pf fingerprint checksum pace w k (Some c # cs) =
     (case make_call pf fingerprint w c of
        Inl _ \<Rightarrow> run_spilling pf fingerprint checksum pace w k cs
      | Inr w \<Rightarrow> try_then (run_spilling pf fingerprint checksum pace w k cs) (\<lambda>(w, accepted, k). gives (w, c # accepted, k)))"

definition pushed_calls :: "writer_call option list \<Rightarrow> writer_call list" where
  "pushed_calls cs = concat (map (\<lambda>c. case c of None \<Rightarrow> [] | Some c \<Rightarrow> [c]) cs)"

lemma pushed_calls_simps [simp]:
  "pushed_calls [] = []" "pushed_calls (None # cs) = pushed_calls cs" "pushed_calls (Some c # cs) = c # pushed_calls cs"
  by (simp_all add: pushed_calls_def)

lemma spilled_call:
  assumes "spilled checksum w v"
  shows "case make_call pf fingerprint w c of
      Inl e \<Rightarrow> make_call pf fingerprint v c = Inl e
    | Inr w' \<Rightarrow> \<exists>v'. make_call pf fingerprint v c = Inr v' \<and> spilled checksum w' v'"
proof (cases c)
  case (Call_push t docs)
  with spilled_push [OF assms, of pf fingerprint t docs] show ?thesis by (auto split: sum.splits prod.splits)
next
  case (Call_record fp doc)
  with spilled_record [OF assms, of fp doc] show ?thesis by (auto split: sum.splits)
qed

lemma run_spilling_ok:
  "spilled checksum w v \<Longrightarrow>
   paced pace (run_spilling pf fingerprint checksum pace w k cs) (\<lambda>(w', accepted, _). \<exists>v'.
     run_calls pf fingerprint v (pushed_calls cs) = (v', accepted) \<and> spilled checksum w' v')"
proof (induction cs arbitrary: w v k)
  case (Cons c cs)
  show ?case
  proof (cases c)
    case None
    have "paced pace (try_then (writer_spill checksum pace w k) (\<lambda>(w, k). run_spilling pf fingerprint checksum pace w k cs))
       (\<lambda>(w', accepted, _). \<exists>v'. run_calls pf fingerprint v (pushed_calls cs) = (v', accepted) \<and> spilled checksum w' v')"
      by (rule paced_then [OF spilled_spill [OF Cons.prems]]) (use Cons.IH in auto)
    with None show ?thesis by simp
  next
    case (Some call)
    show ?thesis
    proof (cases "make_call pf fingerprint w call")
      case (Inl e)
      with spilled_call [OF Cons.prems, of pf fingerprint call] Cons.IH [OF Cons.prems, of k] Some show ?thesis
        by simp
    next
      case (Inr w1)
      with spilled_call [OF Cons.prems, of pf fingerprint call] obtain v1 where
        v1: "make_call pf fingerprint v call = Inr v1" "spilled checksum w1 v1" by auto
      have "paced pace (try_then (run_spilling pf fingerprint checksum pace w1 k cs) (\<lambda>(w, accepted, k). gives (w, call # accepted, k)))
         (\<lambda>(w', accepted, _). \<exists>v'. run_calls pf fingerprint v (call # pushed_calls cs) = (v', accepted) \<and> spilled checksum w' v')"
        by (rule paced_then [OF Cons.IH [OF v1(2)]]) (auto simp: v1(1))
      with Some Inr show ?thesis by simp
    qed
  qed
qed simp

lemma spilled_start:
  assumes "writer_build first_doc last_doc version codec_id = Inr w0"
  shows "spilled checksum (spilling_from w0) w0"
proof -
  have w0: "dw_spill w0 = None" "dw_blocks w0 = []" "dw_postings w0 = []"
    "dw_singles w0 = (if codec_id = fingerprint_codec then Some singles_default else None)" "dw_codec w0 = codec_id"
    "codec_id = dictionary_codec \<or> codec_id = fingerprint_codec"
    using assms by (auto simp: writer_build_def split: if_splits)
  have none: "restore_singles [] singles_default = singles_default"
    by (simp add: restore_singles_def restore_def singles_default_def fp_encoder_default_def)
  have "spill_ok checksum (spilling_from w0) (the (dw_spill (spilling_from w0))) [] [] []"
    using w0(4-6) by (auto simp: spill_ok_def spilling_from_def at_file_def chunk_sums_def singles_default_def fp_encoder_default_def
        dictionary_codec_def fingerprint_codec_def)
  moreover have "w0 = unspilled [] [] [] (spilling_from w0)" 
    by (rule dict_writer.equality) (simp_all add: unspilled_def spilling_from_def w0 none)
  ultimately show ?thesis unfolding spilled_def by (auto simp: spilling_from_def)
qed

text \<open>
  C7: Spilling changes nothing. Whatever terms and records are pushed into a spilling writer, and wherever \<open>spill\<close> is called
  between them, it accepts the calls that a writer keeping everything in memory accepts, and finishing it writes the
  same file and reports the same sizes, byte by byte. Only a refusal of \<open>pace\<close> makes it fail where the other does not.
\<close>

theorem spilling_writes_the_same_file:
  assumes "writer_build first_doc last_doc version codec_id = Inr w0" "digest_ok checksum"
  shows "run_spilling pf fingerprint checksum pace (spilling_from w0) 0 cs = Some (Inl ()) \<and> \<not> (\<forall>k n. pace k n) \<or>
    (\<exists>w k accepted v. run_spilling pf fingerprint checksum pace (spilling_from w0) 0 cs = Some (Inr (w, accepted, k)) \<and>
       run_calls pf fingerprint w0 (pushed_calls cs) = (v, accepted) \<and>
       (finish_spilled checksum pace w k = writer_finish checksum v \<or>
        finish_spilled checksum pace w k = Some (Inl ()) \<and> \<not> (\<forall>k n. pace k n)))"
  using run_spilling_ok [OF spilled_start [OF assms(1), of checksum], of pace pf fingerprint 0 cs]
    finish_spilled_ok [OF _ assms(2)] unfolding paced_def by auto

lemma plain_section: "section_len [(1, 2)] = 8"
  by code_simp

theorem spilling_writes_the_same_file_witness:
  "\<exists>w k v out z. run_spilling plain_pfor plain_fingerprint plain_digest (\<lambda>_ _. True) (spilling_from (projr (writer_build 10 20 2 2))) 0
       [Some (Call_push [97] [12]), None, Some (Call_push [97, 98] [11, 15]), None] =
       Some (Inr (w, [Call_push [97] [12], Call_push [97, 98] [11, 15]], k)) \<and>
     writer_finish plain_digest v = Some (Inr (out, z)) \<and> finish_spilled plain_digest (\<lambda>_ _. True) w k = Some (Inr (out, z))"
proof -
  let ?cs = "[Some (Call_push [97] [12]), None, Some (Call_push [97, 98] [11, 15]), None]"
  let ?w0 = "projr (writer_build 10 20 2 2)"
  have build: "writer_build 10 20 2 2 = Inr ?w0" by (rule sample_build(2))
  from spilling_writes_the_same_file [OF build plain_digest_ok, of plain_pfor plain_fingerprint "\<lambda>_ _. True" ?cs]
  obtain w k accepted v where
    run: "run_spilling plain_pfor plain_fingerprint plain_digest (\<lambda>_ _. True) (spilling_from ?w0) 0 ?cs = Some (Inr (w, accepted, k))"
      "run_calls plain_pfor plain_fingerprint ?w0 (pushed_calls ?cs) = (v, accepted)"
      "finish_spilled plain_digest (\<lambda>_ _. True) w k = writer_finish plain_digest v" by blast
  have "snd (run_calls plain_pfor plain_fingerprint ?w0 (pushed_calls ?cs)) = [Call_push [97] [12], Call_push [97, 98] [11, 15]]" by code_simp
  then have acc: "accepted = [Call_push [97] [12], Call_push [97, 98] [11, 15]]" using run(2) by simp
  note built = built_run [OF build run(2)]
  have "set (demoted plain_fingerprint v) \<union> set (carried_records v accepted) = set [(1, 2)]"
    using built(2,4,5) by (auto simp: acc demoted_def carried_records_def call_terms_def call_records_def map_filter_def
        plain_fingerprint_def fingerprint_codec_def)
  then have "written_records plain_fingerprint v accepted = [(1, 2)]" by (simp only: set_simps) simp
  with writer_finish_result [OF built(1) plain_digest_ok] obtain out z where "writer_finish plain_digest v = Some (Inr (out, z))"
    by (auto simp: plain_section)
  with run(1,3) show ?thesis unfolding acc by auto
qed

end
