(* ===== verification/Segment_Streams.thy ===== *)
theory Segment_Streams
  imports Segment_Lookup
begin

text \<open>
  Streams over a segment (\<open>segment/read/streams.rs\<close> and \<open>Segment::terms\<close>, \<open>terms_from\<close>, \<open>records\<close> and \<open>read_through\<close> of
  \<open>segment/read.rs\<close>): every term in order with its documents, and every fingerprint record, each read through a window of
  checked chunks that is filled ahead of the read that misses it. A stream that returned an error is not asked again.

  Results: a window never changes what is read; over a written segment the streams return exactly its
  dictionary and its records, in order, and a stream from a term skips only blocks that end before it.
\<close>

section \<open>Windows\<close>

record window =
  wi_from :: nat
  wi_bytes :: bytes

definition window_default :: window where
  "window_default = \<lparr>wi_from = 0, wi_bytes = []\<rparr>"

definition read_ahead :: nat where
  "read_ahead = 16 * chunk"

text \<open>\<open>read_through\<close>, its slice with the window it leaves.\<close>

definition read_through ::
  "(bytes \<Rightarrow> bytes) \<Rightarrow> segment \<Rightarrow> segment_section \<Rightarrow> nat \<Rightarrow> nat \<Rightarrow> window \<Rightarrow> (read_error + bytes \<times> window) option"
where
  "read_through checksum self s start stop window =
     (if stop < start then fails (ReCorrupt s)
      else
        try_then
          (if start < wi_from window \<or> wi_from window + length (wi_bytes window) < stop then
             try_then (extent self s) (\<lambda>((_, len), _).
               let ahead = max stop (min (min (start + read_ahead) (2 ^ 64 - 1)) len) in
               try_then (read_checked checksum self s start ahead) (\<lambda>(bytes, at).
                 gives \<lparr>wi_from = start - at, wi_bytes = bytes\<rparr>))
           else gives window)
          (\<lambda>window.
             let at = start - wi_from window in
             do { bs \<leftarrow> slice (wi_bytes window) at (at + (stop - start)); gives (bs, window) }))"

section \<open>The terms\<close>

record terms_stream =
  ts_window :: window
  ts_blocks :: window
  ts_next :: "(nat \<times> place) option"
  ts_entries :: "entries option"

text \<open>\<open>Segment::block\<close> with a window.\<close>

definition segment_block_through ::
  "(bytes \<Rightarrow> bytes) \<Rightarrow> segment \<Rightarrow> nat \<Rightarrow> place \<Rightarrow> window \<Rightarrow> (read_error + (entries \<times> place option) \<times> window) option"
where
  "segment_block_through checksum self b here window =
     try_then (later_place self b here) (\<lambda>later.
       try_then (read_through checksum self SecBlocks (bp_start here) (block_end self later) window) (\<lambda>(bytes, window).
         gives ((open_entries self b here later bytes 0, later), window)))"

definition first_place :: "segment \<Rightarrow> (nat \<times> place) option" where
  "first_place self = (case sf_samples self of [] \<Rightarrow> None | p # _ \<Rightarrow> Some (0, p))"

definition segment_terms :: "segment \<Rightarrow> terms_stream" where
  "segment_terms self =
     \<lparr>ts_window = window_default, ts_blocks = window_default, ts_next = first_place self, ts_entries = None\<rparr>"

definition segment_terms_from :: "segment \<Rightarrow> bytes \<Rightarrow> terms_stream" where
  "segment_terms_from self start =
     \<lparr>ts_window = window_default, ts_blocks = window_default,
      ts_next = (case segment_locate self start of Some next \<Rightarrow> Some next | None \<Rightarrow> first_place self), ts_entries = None\<rparr>"

definition next_entry :: "pfor \<Rightarrow> entries \<Rightarrow> read_error + (bytes \<times> term_entry) option \<times> entries" where
  "next_entry pf e =
     (if en_remaining e = 0 then Inr (None, e)
      else
        (case entries_entry pf e of
           None \<Rightarrow> Inl (ReCorrupt SecBlocks)
         | Some (entry, e) \<Rightarrow> Inr (Some (en_term e, entry), e)))"

definition exhausted :: "terms_stream \<Rightarrow> bool" where
  "exhausted st = (case ts_entries st of None \<Rightarrow> True | Some e \<Rightarrow> en_remaining e = 0)"

text \<open>Blocks left to open: the loop of \<open>next_term\<close> ends because each turn opens one.\<close>

definition blocks_left :: "segment \<Rightarrow> (nat \<times> place) option \<Rightarrow> nat" where
  "blocks_left self next = (case next of None \<Rightarrow> 0 | Some (b, _) \<Rightarrow> Suc (sf_blocks self - b))"

lemma later_place_next: "later_place self b here = gives (Some p) \<Longrightarrow> b + 1 < sf_blocks self"
  by (simp add: later_place_def split: if_splits)

lemma segment_block_through_left:
  assumes "segment_block_through checksum self b here window = gives ((e, later), window')"
  shows "blocks_left self (map_option (\<lambda>p. (b + 1, p)) later) < blocks_left self (Some (b, here))"
proof (cases later)
  case (Some p)
  obtain l where l: "later_place self b here = gives l"
    using assms by (auto simp: segment_block_through_def try_then_def split: option.splits sum.splits)
  with assms have "l = later" by (auto simp: segment_block_through_def try_then_def split: option.splits sum.splits prod.splits)
  with l Some later_place_next show ?thesis by (fastforce simp: blocks_left_def)
qed (simp add: blocks_left_def)

function terms_next ::
  "(bytes \<Rightarrow> bytes) \<Rightarrow> pfor \<Rightarrow> segment \<Rightarrow> terms_stream \<Rightarrow> (read_error + (bytes \<times> term_entry) option \<times> terms_stream) option"
where
  "terms_next checksum pf self st =
     (if exhausted st then
        (case ts_next st of
           None \<Rightarrow> gives (None, st)
         | Some (b, here) \<Rightarrow>
             (case segment_block_through checksum self b here (ts_blocks st) of
                None \<Rightarrow> None
              | Some (Inl e) \<Rightarrow> fails e
              | Some (Inr ((entries, later), window)) \<Rightarrow>
                  terms_next checksum pf self
                    (st\<lparr>ts_blocks := window, ts_entries := Some entries, ts_next := map_option (\<lambda>p. (b + 1, p)) later\<rparr>)))
      else
        (case ts_entries st of
           None \<Rightarrow> gives (None, st)
         | Some entries \<Rightarrow>
             (case next_entry pf entries of
                Inl e \<Rightarrow> fails e
              | Inr (found, entries) \<Rightarrow> gives (found, st\<lparr>ts_entries := Some entries\<rparr>))))"
  by pat_completeness auto
termination
  by (relation "measure (\<lambda>(checksum, pf, self, st). blocks_left self (ts_next st))")
     (auto dest: segment_block_through_left)

declare terms_next.simps [simp del]

definition terms_read ::
  "(bytes \<Rightarrow> bytes) \<Rightarrow> segment \<Rightarrow> terms_stream \<Rightarrow> term_entry \<Rightarrow> (read_error + hit \<times> terms_stream) option"
where
  "terms_read checksum self st entry =
     (case te_location entry of
        Loc_Single doc \<Rightarrow> gives (Single doc, st)
      | Loc_List offset len \<Rightarrow>
          try_then (read_through checksum self SecPostings offset (offset + len) (ts_window st)) (\<lambda>(bytes, window).
            gives (Postings \<lparr>pl_first = unat (in_first (sf_info self)), pl_df = te_df entry, pl_bytes = bytes, pl_start = 0\<rparr>,
                   st\<lparr>ts_window := window\<rparr>)))"

section \<open>The records\<close>

record records_stream =
  rc_window :: window
  rc_block :: nat
  rc_records :: "(u32 \<times> u32) list"
  rc_at :: nat

definition segment_records :: records_stream where
  "segment_records = \<lparr>rc_window = window_default, rc_block = 0, rc_records = [], rc_at = 0\<rparr>"

text \<open>\<open>record_block\<close> with a window.\<close>

definition record_block_through ::
  "(bytes \<Rightarrow> bytes) \<Rightarrow> segment \<Rightarrow> nat \<Rightarrow> window \<Rightarrow> (u32 \<Rightarrow> u32 \<Rightarrow> 's \<Rightarrow> bool \<times> 's) \<Rightarrow> 's \<Rightarrow> (read_error + 's \<times> window) option"
where
  "record_block_through checksum self b window each s =
     (let idx = sf_fingerprints self; first_doc = in_first (sf_info self); last_doc = in_last (sf_info self) in
      if length (fi_starts idx) \<le> b \<or> length (fi_firsts idx) \<le> b then None
      else
        (let start = unat (fi_starts idx ! b);
             stop = (if b + 1 < length (fi_starts idx) then unat (fi_starts idx ! (b + 1)) else snd (sf_fingerprints_at self)) in
         try_then (read_through checksum self SecFingerprints start stop window) (\<lambda>(bytes, window).
           let (ok, s) = decode_block bytes (fi_firsts idx ! b) (fi_count idx b) (last_doc - first_doc)
                           (\<lambda>fp doc. each fp (first_doc + doc)) s in
           if ok then gives (s, window) else fails (ReCorrupt SecFingerprints))))"

definition next_record ::
  "(bytes \<Rightarrow> bytes) \<Rightarrow> segment \<Rightarrow> records_stream \<Rightarrow> (read_error + (u32 \<times> u32) option \<times> records_stream) option"
where
  "next_record checksum self st =
     (let take_one = (\<lambda>st. if rc_at st < length (rc_records st)
                           then gives (Some (rc_records st ! rc_at st), st\<lparr>rc_at := rc_at st + 1\<rparr>) else None) in
      if rc_at st = length (rc_records st) then
        (if rc_block st = length (fi_firsts (sf_fingerprints self)) then gives (None, st)
         else
           try_then (record_block_through checksum self (rc_block st) (rc_window st)
               (\<lambda>fp doc records. (True, records @ [(fp, doc)])) []) (\<lambda>(records, window).
             take_one \<lparr>rc_window = window, rc_block = rc_block st + 1, rc_records = records, rc_at = 0\<rparr>))
      else take_one st)"


section \<open>What a stream yields\<close>

text \<open>
  The terms a stream yields, each read as it is reached, up to the first failure; \<open>None\<close> is a panic. This is what
  the merge takes as an input.
\<close>

definition entries_left :: "terms_stream \<Rightarrow> nat" where
  "entries_left st = (case ts_entries st of None \<Rightarrow> 0 | Some e \<Rightarrow> en_remaining e)"

lemma next_entry_left: "next_entry pf e = Inr (Some x, e') \<Longrightarrow> en_remaining e' < en_remaining e"
  by (auto simp: next_entry_def dest: entries_entry_remaining split: if_splits option.splits)

lemma terms_next_left:
  "terms_next checksum pf self st = gives (Some x, st') \<Longrightarrow>
   blocks_left self (ts_next st') < blocks_left self (ts_next st) \<or>
   blocks_left self (ts_next st') = blocks_left self (ts_next st) \<and> entries_left st' < entries_left st"
proof (induction checksum pf self st rule: terms_next.induct)
  case (1 checksum pf self st)
  show ?case
  proof (cases "exhausted st")
    case True
    with "1.prems" obtain b here entries later window where
      opened: "ts_next st = Some (b, here)" "segment_block_through checksum self b here (ts_blocks st) = gives ((entries, later), window)"
      and rest: "terms_next checksum pf self
        (st\<lparr>ts_blocks := window, ts_entries := Some entries, ts_next := map_option (\<lambda>p. (b + 1, p)) later\<rparr>) = gives (Some x, st')"
      by (subst (asm) terms_next.simps) (auto split: option.splits sum.splits)
    from "1.IH" [OF True opened(1) refl opened(2) refl refl refl rest] segment_block_through_left [OF opened(2)] opened(1) show ?thesis by auto
  next
    case False
    with "1.prems" show ?thesis
      by (subst (asm) terms_next.simps) (auto simp: entries_left_def dest: next_entry_left split: option.splits sum.splits)
  qed
qed

lemma terms_read_keeps: "terms_read checksum self st entry = gives (hit, st') \<Longrightarrow> ts_next st' = ts_next st \<and> ts_entries st' = ts_entries st"
  by (auto simp: terms_read_def try_then_def split: location.splits option.splits sum.splits prod.splits)

function stream_items ::
  "(bytes \<Rightarrow> bytes) \<Rightarrow> pfor \<Rightarrow> segment \<Rightarrow> terms_stream \<Rightarrow> read_error option term_item list"
where
  "stream_items checksum pf self st =
     (case terms_next checksum pf self st of
        None \<Rightarrow> [Inl None]
      | Some (Inl e) \<Rightarrow> [Inl (Some e)]
      | Some (Inr (None, _)) \<Rightarrow> []
      | Some (Inr (Some (t, entry), st)) \<Rightarrow>
          (case terms_read checksum self st entry of
             None \<Rightarrow> [Inr (t, Inl None)]
           | Some (Inl e) \<Rightarrow> [Inr (t, Inl (Some e))]
           | Some (Inr (hit, st)) \<Rightarrow> Inr (t, Inr (hit_docs pf hit)) # stream_items checksum pf self st))"
  by pat_completeness auto
termination
  by (relation "measures [\<lambda>(checksum, pf, self, st). blocks_left self (ts_next st), \<lambda>(checksum, pf, self, st). entries_left st]")
     (auto dest!: terms_next_left terms_read_keeps simp: entries_left_def)

declare stream_items.simps [simp del]

definition records_left :: "segment \<Rightarrow> records_stream \<Rightarrow> nat" where
  "records_left self st = length (fi_firsts (sf_fingerprints self)) - rc_block st"

lemma next_record_left:
  assumes "next_record checksum self st = gives (Some x, st')"
  shows "records_left self st' < records_left self st \<or>
    records_left self st' = records_left self st \<and> length (rc_records st') - rc_at st' < length (rc_records st) - rc_at st"
proof (cases "rc_at st = length (rc_records st)")
  case True
  with assms obtain records window where
    block: "record_block_through checksum self (rc_block st) (rc_window st) (\<lambda>fp doc records. (True, records @ [(fp, doc)])) [] = gives (records, window)"
      and st': "rc_block st' = rc_block st + 1"
    by (auto simp: next_record_def Let_def try_then_def split: if_splits option.splits sum.splits)
  have "rc_block st < length (fi_firsts (sf_fingerprints self))"
    using block by (auto simp: record_block_through_def Let_def split: if_splits)
  then have "records_left self st' < records_left self st" by (simp add: records_left_def st' diff_less_mono2)
  then show ?thesis ..
next
  case False
  with assms show ?thesis by (auto simp: next_record_def records_left_def split: if_splits)
qed

function record_items :: "(bytes \<Rightarrow> bytes) \<Rightarrow> segment \<Rightarrow> records_stream \<Rightarrow> (read_error option + u32 \<times> u32) list" where
  "record_items checksum self st =
     (case next_record checksum self st of
        None \<Rightarrow> [Inl None]
      | Some (Inl e) \<Rightarrow> [Inl (Some e)]
      | Some (Inr (None, _)) \<Rightarrow> []
      | Some (Inr (Some r, st)) \<Rightarrow> Inr r # record_items checksum self st)"
  by pat_completeness auto
termination
  by (relation "measures [\<lambda>(checksum, self, st). records_left self st, \<lambda>(checksum, self, st). length (rc_records st) - rc_at st]")
     (auto dest!: next_record_left)

declare record_items.simps [simp del]

section \<open>Reads through a window\<close>

definition window_ok :: "bytes \<Rightarrow> window \<Rightarrow> bool" where
  "window_ok bs w \<longleftrightarrow> holds_at bs (wi_from w) (wi_bytes w)"

lemma window_ok_default [simp]: "window_ok bs window_default"
  by (simp add: window_ok_def window_default_def holds_at_Nil)

text \<open>Whatever the window holds, the bytes read are those of the section.\<close>

lemma read_through_ok:
  assumes at: "section_at checksum self s bs" and src: "length (sf_source self) < 2 ^ 64"
    and range: "start \<le> stop" "stop \<le> length bs" and w: "window_ok bs w" and digest: "digest_ok checksum"
  obtains w' where "read_through checksum self s start stop w = gives (take (stop - start) (drop start bs), w')" "window_ok bs w'"
proof -
  from at obtain offset where ext: "extent self s = gives ((offset, length bs), chunk_sums checksum bs)"
    and held: "holds_at (sf_source self) offset bs" by (auto simp: section_at_def)
  show ?thesis
  proof (cases "start < wi_from w \<or> wi_from w + length (wi_bytes w) < stop")
    case True
    define ahead where "ahead = max stop (min (min (start + read_ahead) (2 ^ 64 - 1)) (length bs))"
    have ahead: "start \<le> ahead" "stop \<le> ahead" "ahead \<le> length bs" using range by (auto simp: ahead_def)
    from read_checked_part [OF ext held src ahead(1,3) digest] obtain from_at part where
      read: "read_checked checksum self s start ahead = gives (part, start - from_at)" "from_at \<le> start"
        "ahead \<le> from_at + length part" "holds_at bs from_at part" .
    from read(2) have from_is: "start - (start - from_at) = from_at" by simp
    have "stop \<le> from_at + length part" using ahead(2) read(3) by linarith
    from holds_at_slice [OF read(4,2) range(1) this] True range(1) have
      "read_through checksum self s start stop w = gives (take (stop - start) (drop start bs), \<lparr>wi_from = from_at, wi_bytes = part\<rparr>)"
      unfolding read_through_def ext try_then_simps prod.case Let_def ahead_def [symmetric] read(1) by (simp add: from_is)
    with that read(4) show ?thesis by (simp add: window_ok_def)
  next
    case False
    then have "wi_from w \<le> start" "stop \<le> wi_from w + length (wi_bytes w)" by simp_all
    from holds_at_slice [OF w [unfolded window_ok_def] this(1) range(1) this(2)] False range(1) have
      "read_through checksum self s start stop w = gives (take (stop - start) (drop start bs), w)"
      unfolding read_through_def by (simp add: Let_def)
    with that w show ?thesis by blast
  qed
qed

section \<open>The terms of a written segment\<close>

text \<open>A stream at the entries \<open>rest\<close> of a segment that holds \<open>es\<close>.\<close>

definition stream_at :: "pfor \<Rightarrow> nat \<Rightarrow> nat \<Rightarrow> dentry list \<Rightarrow> terms_stream \<Rightarrow> dentry list \<Rightarrow> bool" where
  "stream_at pf first_doc last_doc es st rest \<longleftrightarrow>
     (let bl = dict_blocks es in
      window_ok (dblocks pf first_doc bl) (ts_blocks st) \<and> window_ok (dpostings pf first_doc bl) (ts_window st) \<and>
      (\<exists>j cur. j \<le> length bl \<and> rest = cur @ concat (drop j bl) \<and>
         ts_next st = (if j < length bl then Some (j, place_at (dict_items pf first_doc bl) j) else None) \<and>
         (case ts_entries st of
            None \<Rightarrow> cur = []
          | Some e \<Rightarrow> entries_ok pf last_doc e cur \<and> en_first e = first_doc \<and>
              (\<exists>pre. es = pre @ rest \<and> en_postings e = length (dposts pf first_doc pre)))))"

lemma stream_atE:
  assumes "stream_at pf first_doc last_doc es st rest"
  obtains j cur where "j \<le> length (dict_blocks es)" "rest = cur @ concat (drop j (dict_blocks es))"
    "ts_next st = (if j < length (dict_blocks es) then Some (j, place_at (dict_items pf first_doc (dict_blocks es)) j) else None)"
    "case ts_entries st of
       None \<Rightarrow> cur = []
     | Some e \<Rightarrow> entries_ok pf last_doc e cur \<and> en_first e = first_doc \<and>
         (\<exists>pre. es = pre @ rest \<and> en_postings e = length (dposts pf first_doc pre))"
    "window_ok (dblocks pf first_doc (dict_blocks es)) (ts_blocks st)" "window_ok (dpostings pf first_doc (dict_blocks es)) (ts_window st)"
  using assms unfolding stream_at_def Let_def by blast

lemma stream_atI:
  assumes "j \<le> length (dict_blocks es)" "rest = cur @ concat (drop j (dict_blocks es))"
    "ts_next st = (if j < length (dict_blocks es) then Some (j, place_at (dict_items pf first_doc (dict_blocks es)) j) else None)"
    "ts_entries st = Some e" "entries_ok pf last_doc e cur" "en_first e = first_doc" "es = pre @ rest"
    "en_postings e = length (dposts pf first_doc pre)"
    "window_ok (dblocks pf first_doc (dict_blocks es)) (ts_blocks st)" "window_ok (dpostings pf first_doc (dict_blocks es)) (ts_window st)"
  shows "stream_at pf first_doc last_doc es st rest"
  unfolding stream_at_def Let_def assms(4) option.case using assms(1-3,5-) by blast

lemma segment_block_through_ok:
  assumes holds: "segment_holds checksum pf first_doc last_doc es rs self" and fit: "entries_fit first_doc last_doc es"
    and j: "j < length (dict_blocks es)" and digest: "digest_ok checksum"
    and w: "window_ok (dblocks pf first_doc (dict_blocks es)) w"
  defines "items \<equiv> dict_items pf first_doc (dict_blocks es)"
  obtains e w' where
    "segment_block_through checksum self j (place_at items j) w = gives ((e, place_after items j), w')"
    "window_ok (dblocks pf first_doc (dict_blocks es)) w'"
    "entries_ok pf last_doc e (dict_blocks es ! j)" "en_first e = first_doc"
    "en_postings e = length (dpostings pf first_doc (take j (dict_blocks es)))"
proof -
  let ?b = "dblock pf first_doc (dict_blocks es ! j)"
  note places = block_places [OF holds fit j, folded items_def] and within = block_bytes_within [OF holds j]
  have self: "section_at checksum self SecBlocks (dblocks pf first_doc (dict_blocks es))" "length (sf_source self) < 2 ^ 64"
    using holds by (simp_all add: segment_holds_def Let_def)
  from read_through_ok [OF self within(1,2) w digest, unfolded within(3)] obtain w' where
    read: "read_through checksum self SecBlocks (length (dblocks pf first_doc (take j (dict_blocks es))))
      (length (dblocks pf first_doc (take (Suc j) (dict_blocks es)))) w = gives (?b, w')"
    and w': "window_ok (dblocks pf first_doc (dict_blocks es)) w'" .
  have "holds_at ?b 0 ?b" by (simp add: holds_at_iff)
  moreover have "length ?b < 2 ^ 64" using within(4,5) by linarith
  ultimately have ok: "entries_ok pf last_doc (open_entries self j (place_at items j) (place_after items j) ?b 0) (dict_blocks es ! j)"
    "en_first (open_entries self j (place_at items j) (place_after items j) ?b 0) = first_doc"
    "en_postings (open_entries self j (place_at items j) (place_after items j) ?b 0) = length (dpostings pf first_doc (take j (dict_blocks es)))"
    using open_entries_ok [OF holds fit j, of ?b 0] by (simp_all add: items_def)
  have "segment_block_through checksum self j (place_at items j) w =
      gives ((open_entries self j (place_at items j) (place_after items j) ?b 0, place_after items j), w')"
    using read by (simp add: segment_block_through_def places)
  from that [OF this w' ok] show ?thesis .
qed


lemma dposts_append [simp]: "dposts pf first_doc (a @ b) = dposts pf first_doc a @ dposts pf first_doc b"
  by (simp add: dposts_def)

text \<open>A stream with nothing left of its block opens the next one.\<close>

lemma stream_at_opens:
  assumes holds: "segment_holds checksum pf first_doc last_doc es rs self" and fit: "entries_fit first_doc last_doc es"
    and digest: "digest_ok checksum" and at: "stream_at pf first_doc last_doc es st rest" and spent: "exhausted st"
  shows "ts_next st = None \<and> rest = [] \<or>
    (\<exists>b here entries later window. ts_next st = Some (b, here) \<and>
       segment_block_through checksum self b here (ts_blocks st) = gives ((entries, later), window) \<and>
       stream_at pf first_doc last_doc es
         (st\<lparr>ts_blocks := window, ts_entries := Some entries, ts_next := map_option (\<lambda>p. (b + 1, p)) later\<rparr>) rest)"
proof -
  let ?bl = "dict_blocks es"
  let ?items = "dict_items pf first_doc ?bl"
  from stream_atE [OF at] obtain j cur where j: "j \<le> length ?bl" "rest = cur @ concat (drop j ?bl)"
      "ts_next st = (if j < length ?bl then Some (j, place_at ?items j) else None)"
    and cur: "case ts_entries st of None \<Rightarrow> cur = [] | Some e \<Rightarrow> entries_ok pf last_doc e cur \<and> en_first e = first_doc \<and>
         (\<exists>pre. es = pre @ rest \<and> en_postings e = length (dposts pf first_doc pre))"
    and w: "window_ok (dblocks pf first_doc ?bl) (ts_blocks st)" "window_ok (dpostings pf first_doc ?bl) (ts_window st)" .
  have "cur = []" using cur spent by (auto simp: exhausted_def entries_ok_def split: option.splits)
  then have rest: "rest = concat (drop j ?bl)" using j(2) by simp
  show ?thesis
  proof (cases "j < length ?bl")
    case True
    from segment_block_through_ok [OF holds fit True digest w(1)] obtain e window where
      e: "segment_block_through checksum self j (place_at ?items j) (ts_blocks st) = gives ((e, place_after ?items j), window)"
        "window_ok (dblocks pf first_doc ?bl) window" "entries_ok pf last_doc e (?bl ! j)" "en_first e = first_doc"
        "en_postings e = length (dpostings pf first_doc (take j ?bl))" .
    have "rest = ?bl ! j @ concat (drop (Suc j) ?bl)" unfolding rest by (metis True Cons_nth_drop_Suc concat.simps(2))
    moreover have "es = concat (take j ?bl) @ rest"
      unfolding rest by (metis append_take_drop_id concat_append term_blocks.blocks_of_ok(2))
    moreover have "map_option (\<lambda>p. (j + 1, p)) (place_after ?items j) = (if Suc j < length ?bl then Some (Suc j, place_at ?items (Suc j)) else None)"
      by (simp add: place_after_def)
    ultimately have "stream_at pf first_doc last_doc es
        (st\<lparr>ts_blocks := window, ts_entries := Some e, ts_next := map_option (\<lambda>p. (j + 1, p)) (place_after ?items j)\<rparr>) rest"
      using e True w(2) by (intro stream_atI [where j = "Suc j"]) (simp_all add: dpostings_concat)
    with True e(1) j(3) show ?thesis by auto
  qed (use j(3) rest in simp)
qed

lemma terms_next_ok:
  assumes pf: "pfor_ok pf" and holds: "segment_holds checksum pf first_doc last_doc es rs self" and fit: "entries_fit first_doc last_doc es"
    and digest: "digest_ok checksum" and "stream_at pf first_doc last_doc es st rest"
  shows "case rest of
      [] \<Rightarrow> \<exists>st'. terms_next checksum pf self st = gives (None, st')
    | x # later \<Rightarrow> \<exists>st' pre. terms_next checksum pf self st =
          gives (Some (fst x, entry_of pf first_doc (length (dposts pf first_doc pre)) (snd x)), st') \<and>
        es = pre @ x # later \<and> stream_at pf first_doc last_doc es st' later"
  using assms(5)
proof (induction "blocks_left self (ts_next st)" arbitrary: st rule: less_induct)
  case less
  show ?case
  proof (cases "exhausted st")
    case True
    from stream_at_opens [OF holds fit digest less.prems True] show ?thesis
    proof (elim disjE exE conjE)
      assume "ts_next st = None" "rest = []"
      with True show ?thesis by (simp add: terms_next.simps [of checksum pf self st])
    next
      fix b here entries later window
      assume opened: "ts_next st = Some (b, here)" "segment_block_through checksum self b here (ts_blocks st) = gives ((entries, later), window)"
      let ?st = "st\<lparr>ts_blocks := window, ts_entries := Some entries, ts_next := map_option (\<lambda>p. (b + 1, p)) later\<rparr>"
      assume at: "stream_at pf first_doc last_doc es ?st rest"
      have "blocks_left self (ts_next ?st) < blocks_left self (ts_next st)"
        using segment_block_through_left [OF opened(2)] opened(1) by simp
      moreover have "terms_next checksum pf self st = terms_next checksum pf self ?st"
        using True opened by (subst terms_next.simps) simp
      ultimately show ?thesis using less.hyps [OF _ at] by (simp only:)
    qed
  next
    case False
    then obtain e where e: "ts_entries st = Some e" "en_remaining e \<noteq> 0" by (auto simp: exhausted_def split: option.splits)
    from stream_atE [OF less.prems] obtain j cur where j: "j \<le> length (dict_blocks es)" "rest = cur @ concat (drop j (dict_blocks es))"
        "ts_next st = (if j < length (dict_blocks es) then Some (j, place_at (dict_items pf first_doc (dict_blocks es)) j) else None)"
      and here: "case ts_entries st of None \<Rightarrow> cur = [] | Some e \<Rightarrow> entries_ok pf last_doc e cur \<and> en_first e = first_doc \<and>
         (\<exists>pre. es = pre @ rest \<and> en_postings e = length (dposts pf first_doc pre))"
      and w: "window_ok (dblocks pf first_doc (dict_blocks es)) (ts_blocks st)" "window_ok (dpostings pf first_doc (dict_blocks es)) (ts_window st)" .
    from here obtain pre where cur: "entries_ok pf last_doc e cur" "en_first e = first_doc" "es = pre @ rest" "en_postings e = length (dposts pf first_doc pre)"
      unfolding e(1) by auto
    from cur(1) e(2) obtain x cur' where x: "cur = x # cur'" by (cases cur) (auto simp: entries_ok_def)
    from entries_entry_decodes [OF pf cur(1) [unfolded x]] obtain e' where
      e': "entries_entry pf e = Some (entry_of pf first_doc (length (dposts pf first_doc pre)) (snd x), e')" "en_term e' = fst x"
        "entries_ok pf last_doc e' cur'" "en_postings e' = length (dposts pf first_doc pre) + length (list_bytes pf first_doc (snd x))"
        "en_first e' = first_doc"
      unfolding cur(2,4) .
    define later where "later = cur' @ concat (drop j (dict_blocks es))"
    have rest: "rest = x # later" by (simp add: j(2) x later_def)
    have es: "es = (pre @ [x]) @ later" using cur(3) by (simp add: rest)
    have at: "stream_at pf first_doc last_doc es (st\<lparr>ts_entries := Some e'\<rparr>) later"
      by (rule stream_atI [OF j(1) later_def _ _ e'(3) e'(5) es]) (simp_all add: j(3) w e'(4) dposts_def)
    have "terms_next checksum pf self st =
        gives (Some (fst x, entry_of pf first_doc (length (dposts pf first_doc pre)) (snd x)), st\<lparr>ts_entries := Some e'\<rparr>)"
      using False e e'(1,2) by (subst terms_next.simps) (simp add: next_entry_def)
    with at es show ?thesis by (auto simp: rest)
  qed
qed

lemma terms_read_ok:
  assumes pf: "pfor_ok pf" and holds: "segment_holds checksum pf first_doc last_doc es rs self" and fit: "entries_fit first_doc last_doc es"
    and digest: "digest_ok checksum" and at: "stream_at pf first_doc last_doc es st later" and es: "es = pre @ x # later" and few: "length (snd x) < 2 ^ 32"
  obtains hit st' where "terms_read checksum self st (entry_of pf first_doc (length (dposts pf first_doc pre)) (snd x)) = gives (hit, st')"
    "hit_docs pf hit = snd x" "stream_at pf first_doc last_doc es st' later"
proof -
  have fits: "fits_entry first_doc last_doc x" and last_doc: "last_doc < 2 ^ 32" using fit by (auto simp: entries_fit_def es)
  show ?thesis
  proof (cases "length (snd x) = 1")
    case True
    then obtain d where "snd x = [d]" by (auto simp: length_Suc_conv)
    then show ?thesis using that at by (simp add: terms_read_def entry_of_def hit_docs_def)
  next
    case False
    let ?at = "length (dposts pf first_doc pre)" and ?list = "list_bytes pf first_doc (snd x)" and ?bs = "dpostings pf first_doc (dict_blocks es)"
    have bs: "?bs = dposts pf first_doc pre @ ?list @ dposts pf first_doc later"
      unfolding dpostings_concat term_blocks.blocks_of_ok(2) by (simp add: es dposts_def)
    have self: "section_at checksum self SecPostings ?bs" "length (sf_source self) < 2 ^ 64" "unat (in_first (sf_info self)) = first_doc"
      using holds by (simp_all add: segment_holds_def Let_def)
    have w: "window_ok ?bs (ts_window st)" using at unfolding stream_at_def Let_def by blast
    have "?at + length ?list \<le> length ?bs" "take (?at + length ?list - ?at) (drop ?at ?bs) = ?list" by (simp_all add: bs)
    from read_through_ok [OF self(1,2) le_add1 this(1) w digest] this(2) obtain w' where
      read: "read_through checksum self SecPostings ?at (?at + length ?list) (ts_window st) = gives (?list, w')" and w': "window_ok ?bs w'" by metis
    define hit where "hit = Postings \<lparr>pl_first = first_doc, pl_df = length (snd x) mod 2 ^ 32, pl_bytes = ?list, pl_start = 0\<rparr>"
    have "terms_read checksum self st (entry_of pf first_doc ?at (snd x)) = gives (hit, st\<lparr>ts_window := w'\<rparr>)"
      using read by (simp add: terms_read_def entry_of_def case_not_single [OF False] hit_def self(3))
    moreover have "hit_holds pf first_doc (snd x) hit"
      using list_bytes_ok(3) [OF pf last_doc fits False, of "[]"] few by (simp add: hit_holds_def hit_def)
    then have "hit_docs pf hit = snd x" by (rule hit_holds_docs) (use fits last_doc in \<open>auto simp: fits_entry_def\<close>)
    moreover have "stream_at pf first_doc last_doc es (st\<lparr>ts_window := w'\<rparr>) later" using at w' unfolding stream_at_def Let_def by simp
    ultimately show ?thesis by (rule that)
  qed
qed

lemma stream_items_ok:
  assumes "pfor_ok pf" "segment_holds checksum pf first_doc last_doc es rs self" "entries_fit first_doc last_doc es" "digest_ok checksum"
    and few: "\<forall>e\<in>set es. length (snd e) < 2 ^ 32" and "stream_at pf first_doc last_doc es st rest"
  shows "stream_items checksum pf self st = map stream_item rest"
  using assms(6)
proof (induction rest arbitrary: st)
  case Nil
  with terms_next_ok [OF assms(1-4) Nil] show ?case by (subst stream_items.simps) auto
next
  case (Cons x later)
  from terms_next_ok [OF assms(1-4) Cons.prems] obtain st1 pre where
    step: "terms_next checksum pf self st = gives (Some (fst x, entry_of pf first_doc (length (dposts pf first_doc pre)) (snd x)), st1)"
      "es = pre @ x # later" "stream_at pf first_doc last_doc es st1 later" by auto
  have "length (snd x) < 2 ^ 32" using few by (simp add: step(2))
  from terms_read_ok [OF assms(1-4) step(3,2) this] obtain hit st2 where
    read: "terms_read checksum self st1 (entry_of pf first_doc (length (dposts pf first_doc pre)) (snd x)) = gives (hit, st2)"
      "hit_docs pf hit = snd x" "stream_at pf first_doc last_doc es st2 later" .
  from Cons.IH [OF read(3)] show ?case by (subst stream_items.simps) (simp add: step(1) read(1,2) stream_item_def)
qed


text \<open>The stream from the start, and from the block a term may be in.\<close>

lemma stream_at_start:
  assumes "j \<le> length (dict_blocks es)"
  shows "stream_at pf first_doc last_doc es
    \<lparr>ts_window = window_default, ts_blocks = window_default,
     ts_next = (if j < length (dict_blocks es) then Some (j, place_at (dict_items pf first_doc (dict_blocks es)) j) else None),
     ts_entries = None\<rparr> (concat (drop j (dict_blocks es)))"
  unfolding stream_at_def Let_def using assms by (simp, blast)

lemma first_place_ok:
  assumes "segment_holds checksum pf first_doc last_doc es rs self"
  shows "first_place self = (if 0 < length (dict_blocks es) then Some (0, place_at (dict_items pf first_doc (dict_blocks es)) 0) else None)"
proof -
  let ?items = "dict_items pf first_doc (dict_blocks es)"
  have "sf_samples self = index_samples ?items" using assms by (simp add: segment_holds_def Let_def)
  moreover have "0 < div_ceil (length ?items) sample_every" if "dict_blocks es \<noteq> []"
    using that div_ceil_less [of sample_every 0 "length ?items"] by (simp add: sample_every_def)
  ultimately show ?thesis
    by (auto simp: first_place_def index_samples_def upt_conv_Cons div_ceil_def sample_every_def)
qed

lemma segment_terms_at:
  assumes "segment_holds checksum pf first_doc last_doc es rs self"
  shows "stream_at pf first_doc last_doc es (segment_terms self) es"
  using stream_at_start [of 0 es pf first_doc last_doc]
  by (simp add: segment_terms_def first_place_ok [OF assms] term_blocks.blocks_of_ok(2))

lemma segment_terms_from_at:
  assumes holds: "segment_holds checksum pf first_doc last_doc es rs self" and fit: "entries_fit first_doc last_doc es"
  obtains pre post where "es = pre @ post" "stream_at pf first_doc last_doc es (segment_terms_from self t) post"
    "\<forall>e\<in>set pre. fst e < t" "length (filter (\<lambda>e. fst e < t) post) \<le> block_terms"
proof -
  let ?bl = "dict_blocks es"
  define items where "items = dict_items pf first_doc ?bl"
  note ok = holds_items_ok [OF holds fit, folded items_def]
  have sorted: "sorted_wrt (<) (map fst es)" using fit by (simp add: entries_fit_def)
  define j where "j = blocks_upto items t - 1"
  have whole: "es = concat (take j ?bl) @ concat (drop j ?bl)" by (metis append_take_drop_id concat_append term_blocks.blocks_of_ok(2))
  have j: "j \<le> length ?bl" using blocks_upto_length [of items t] by (simp add: j_def items_def)
  have lt: "j < length ?bl" if "blocks_upto items t \<noteq> 0" using that blocks_upto_length [of items t] by (simp add: j_def items_def)
  have "(case segment_locate self t of Some next \<Rightarrow> Some next | None \<Rightarrow> first_place self) = (if j < length ?bl then Some (j, place_at items j) else None)"
    using lt first_place_ok [OF holds, folded items_def] locate_holds [OF holds fit, of t, folded items_def] by (auto simp: j_def)
  with stream_at_start [OF j, of pf first_doc last_doc, folded items_def]
  have "stream_at pf first_doc last_doc es (segment_terms_from self t) (concat (drop j ?bl))" by (simp only: segment_terms_from_def)
  moreover have "(\<forall>e\<in>set (concat (take j ?bl)). fst e < t) \<and> length (filter (\<lambda>e. fst e < t) (concat (drop j ?bl))) \<le> block_terms"
  proof (cases "blocks_upto items t")
    case 0
    then have "filter (\<lambda>e. fst e < t) es = []"
      using before_every_block [OF sorted ok items_def 0] by (auto simp: filter_empty_conv dest: order_less_imp_not_less)
    with 0 show ?thesis by (simp add: j_def term_blocks.blocks_of_ok(2))
  next
    case (Suc i)
    note split = block_splits [OF sorted ok items_def Suc]
    have i: "j = i" by (simp add: j_def Suc)
    have "filter (\<lambda>e. fst e < t) (concat (drop (Suc i) ?bl)) = []" using split(3) by (auto simp: filter_empty_conv dest: order_less_imp_not_less)
    moreover have "concat (drop i ?bl) = ?bl ! i @ concat (drop (Suc i) ?bl)" by (metis split(1) Cons_nth_drop_Suc concat.simps(2))
    ultimately have "length (filter (\<lambda>e. fst e < t) (concat (drop i ?bl))) \<le> length (?bl ! i)" by simp
    also have "\<dots> \<le> block_terms"
      using term_blocks.wf_blocks_lengths(1) [OF term_blocks.blocks_of_ok(1) split(1)] by simp
    finally show ?thesis using split(2) i by simp
  qed
  ultimately show ?thesis using that [OF whole] by blast
qed

section \<open>The records of a written segment\<close>

definition records_at :: "u32 \<Rightarrow> fp_record list \<Rightarrow> records_stream \<Rightarrow> (u32 \<times> u32) list \<Rightarrow> bool" where
  "records_at first_doc rs st rest \<longleftrightarrow>
     window_ok (section_bytes (record_blocks rs)) (rc_window st) \<and> rc_block st \<le> length (record_blocks rs) \<and>
     rc_at st \<le> length (rc_records st) \<and>
     rest = drop (rc_at st) (rc_records st) @ map (\<lambda>r. (fst r, first_doc + snd r)) (concat (drop (rc_block st) (record_blocks rs)))"

lemma visit_collects:
  "visit (\<lambda>fp doc records. (True, records @ [(fp, first_doc + doc)])) b s = s @ map (\<lambda>r. (fst r, first_doc + snd r)) b"
  by (induction b arbitrary: s) simp_all

lemma record_block_through_ok:
  assumes holds: "segment_holds checksum pf first_doc last_doc es rs self" and sorted: "sorted_wrt (<) rs"
    and range: "\<forall>r\<in>set rs. first_doc + unat (snd r) \<le> last_doc" and digest: "digest_ok checksum"
    and b: "b < length (record_blocks rs)" and w: "window_ok (section_bytes (record_blocks rs)) w"
  obtains w' where "record_block_through checksum self b w (\<lambda>fp doc records. (True, records @ [(fp, doc)])) [] =
      gives (map (\<lambda>r. (fst r, in_first (sf_info self) + snd r)) (record_blocks rs ! b), w')" "window_ok (section_bytes (record_blocks rs)) w'"
proof -
  let ?bs = "section_bytes (record_blocks rs)" and ?first = "in_first (sf_info self)" and ?last = "in_last (sf_info self)"
  let ?each = "\<lambda>fp doc records. (True, records @ [(fp, doc)])"
  have self: "section_at checksum self SecFingerprints ?bs" "length (sf_source self) < 2 ^ 64"
    "section_len rs < 2 ^ 32" "snd (sf_fingerprints_at self) = section_len rs" "sf_fingerprints self = parsed_index rs"
    using holds by (simp_all add: segment_holds_def Let_def)
  define start where "start = unat (fi_starts (parsed_index rs) ! b)"
  define stop where "stop = (if b + 1 < length (fi_starts (parsed_index rs)) then unat (fi_starts (parsed_index rs) ! (b + 1)) else section_len rs)"
  have unat: "unat (of_nat (length (section_bytes (take k (record_blocks rs)))) :: u32) = length (section_bytes (take k (record_blocks rs)))" for k
    using section_take_le [of k "record_blocks rs"] self(3) by (simp add: unat_of_nat)
  have "start = length (section_bytes (take b (record_blocks rs)))" "stop = length (section_bytes (take (Suc b) (record_blocks rs)))"
    using b unat by (auto simp: start_def stop_def block_starts_nth not_less parsed_index_def)
  then have within: "start \<le> stop" "stop \<le> length ?bs" using section_bytes_take_Suc [OF b] section_take_le [of "Suc b" "record_blocks rs"] by simp_all
  from read_through_ok [OF self(1,2) within w digest] obtain w' where
    read: "read_through checksum self SecFingerprints start stop w = gives (take (stop - start) (drop start ?bs), w')" and w': "window_ok ?bs w'" .
  have "holds_records rs (\<lambda>a c. Inr (take (c - a) (drop a ?bs)) :: unit + bytes) ?first ?last"
    using record_offsets [OF holds range] sorted self(3) by (simp add: holds_records_def sorted_records_iff)
  from record_block_visits [OF this b, of ?each "[]"] have
    "decode_block (take (stop - start) (drop start ?bs)) (fi_firsts (parsed_index rs) ! b) (fi_count (parsed_index rs) b) (?last - ?first)
      (\<lambda>fp doc. ?each fp (?first + doc)) [] = (True, map (\<lambda>r. (fst r, ?first + snd r)) (record_blocks rs ! b))"
    unfolding record_block_def Let_def start_def [symmetric] stop_def [symmetric] visit_collects
    by (auto split: prod.splits if_splits)
  with read b have "record_block_through checksum self b w ?each [] = gives (map (\<lambda>r. (fst r, ?first + snd r)) (record_blocks rs ! b), w')"
    unfolding record_block_through_def Let_def self(4,5) start_def [symmetric] stop_def [symmetric]
    by (simp add: parsed_index_def)
  with that w' show ?thesis by blast
qed

lemma next_record_ok:
  assumes holds: "segment_holds checksum pf first_doc last_doc es rs self" and sorted: "sorted_wrt (<) rs"
    and range: "\<forall>r\<in>set rs. first_doc + unat (snd r) \<le> last_doc" and digest: "digest_ok checksum"
    and at: "records_at (in_first (sf_info self)) rs st rest"
  shows "case rest of
      [] \<Rightarrow> next_record checksum self st = gives (None, st)
    | r # later \<Rightarrow> \<exists>st'. next_record checksum self st = gives (Some r, st') \<and> records_at (in_first (sf_info self)) rs st' later"
proof -
  let ?bl = "record_blocks rs" and ?abs = "\<lambda>r. (fst r, in_first (sf_info self) + snd r)"
  have firsts: "length (fi_firsts (sf_fingerprints self)) = length ?bl"
    using holds by (simp add: segment_holds_def Let_def parsed_index_def)
  consider (inside) "rc_at st < length (rc_records st)" | (ended) "rc_at st = length (rc_records st)" "rc_block st = length ?bl"
    | (block) "rc_at st = length (rc_records st)" "rc_block st < length ?bl"
    using at by (auto simp: records_at_def le_less)
  then show ?thesis
  proof cases
    case inside
    with at show ?thesis by (auto simp: records_at_def next_record_def Let_def Cons_nth_drop_Suc [symmetric])
  next
    case ended
    with at show ?thesis by (simp add: records_at_def next_record_def firsts)
  next
    case block
    have w: "window_ok (section_bytes ?bl) (rc_window st)" using at by (simp add: records_at_def)
    from record_block_through_ok [OF holds sorted range digest block(2) w] obtain w' where
      read: "record_block_through checksum self (rc_block st) (rc_window st) (\<lambda>fp doc records. (True, records @ [(fp, doc)])) [] =
        gives (map ?abs (?bl ! rc_block st), w')" and w': "window_ok (section_bytes ?bl) w'" .
    have ne: "?bl ! rc_block st \<noteq> []" using record_blocks_ok(1) [of rs] nth_mem [OF block(2)] by (auto simp: wf_blocks_def)
    then obtain r b where b: "?bl ! rc_block st = r # b" by (cases "?bl ! rc_block st") auto
    have "rest = map ?abs (?bl ! rc_block st) @ map ?abs (concat (drop (Suc (rc_block st)) ?bl))"
      using at block by (simp add: records_at_def Cons_nth_drop_Suc [OF block(2), symmetric])
    then show ?thesis using block w' by (auto simp: next_record_def Let_def firsts read b records_at_def)
  qed
qed

lemma record_items_ok:
  assumes "segment_holds checksum pf first_doc last_doc es rs self" "sorted_wrt (<) rs"
    and "\<forall>r\<in>set rs. first_doc + unat (snd r) \<le> last_doc" "digest_ok checksum"
    and "records_at (in_first (sf_info self)) rs st rest"
  shows "record_items checksum self st = map Inr rest"
  using assms(5)
proof (induction rest arbitrary: st)
  case Nil
  with next_record_ok [OF assms(1-4) Nil] show ?case by (subst record_items.simps) simp
next
  case (Cons r later)
  from next_record_ok [OF assms(1-4) Cons.prems] obtain st' where
    "next_record checksum self st = gives (Some r, st')" "records_at (in_first (sf_info self)) rs st' later" by auto
  with Cons.IH show ?case by (subst record_items.simps) simp
qed

lemma segment_records_at: "records_at first_doc rs segment_records (map (\<lambda>r. (fst r, first_doc + snd r)) rs)"
  by (simp add: records_at_def segment_records_def record_blocks_ok(2))


section \<open>Properties\<close>

definition dictionary_terms :: "nat \<Rightarrow> writer_call list \<Rightarrow> (bytes \<times> nat list) list" where
  "dictionary_terms codec_id accepted =
     filter (\<lambda>(t, docs). \<not> (codec_id = fingerprint_codec \<and> length docs = 1)) (call_terms accepted)"

lemma run_dictionary:
  assumes "writer_build first_doc last_doc version codec_id = Inr w0" "run_calls pf fingerprint w0 calls = (w, accepted)"
  shows "dict_entries w = dictionary_terms codec_id accepted"
  using built_run(4,5) [OF assms] by (auto simp: dict_entries_def dictionary_terms_def intro!: filter_cong)

text \<open>What the streams of a written segment yield.\<close>

lemma run_streams:
  assumes build: "writer_build first_doc last_doc version codec_id = Inr w0" "run_calls pf fingerprint w0 calls = (w, accepted)"
    and "last_doc < 2 ^ 32" "pfor_ok pf" "digest_ok checksum"
    and holds: "segment_holds checksum pf first_doc last_doc (dict_entries w) (written_records fingerprint w accepted) self"
    and fit: "entries_fit first_doc last_doc (dict_entries w)" "\<forall>e\<in>set (dict_entries w). length (snd e) < 2 ^ 32"
  shows "stream_items checksum pf self (segment_terms self) = map stream_item (dictionary_terms codec_id accepted)"
    "\<exists>rs. record_items checksum self segment_records = map Inr rs \<and> sorted_wrt (<) rs \<and>
      (\<lambda>(fp, d). (fp, unat d)) ` set rs =
        (if codec_id = fingerprint_codec
         then {(fingerprint t, d) | t d. (t, [d]) \<in> set (call_terms accepted)} \<union> set (call_records accepted) else {})"
proof -
  let ?rs = "written_records fingerprint w accepted"
  show "stream_items checksum pf self (segment_terms self) = map stream_item (dictionary_terms codec_id accepted)"
    using stream_items_ok [OF assms(4) holds fit(1) assms(5) fit(2) segment_terms_at [OF holds]] by (simp add: run_dictionary [OF build])
  have first_doc: "in_first (sf_info self) = of_nat first_doc" using holds by (auto simp: segment_holds_def Let_def)
  have "record_items checksum self segment_records = map Inr (map (\<lambda>r. (fst r, of_nat first_doc + snd r)) ?rs)"
    by (rule record_items_ok [OF holds _ _ assms(5)])
       (use written_records_range [OF build assms(3)] segment_records_at in \<open>simp_all add: first_doc\<close>)
  with written_records_docs [OF build assms(3)] show "\<exists>rs. record_items checksum self segment_records = map Inr rs \<and> sorted_wrt (<) rs \<and>
      (\<lambda>(fp, d). (fp, unat d)) ` set rs =
        (if codec_id = fingerprint_codec
         then {(fingerprint t, d) | t d. (t, [d]) \<in> set (call_terms accepted)} \<union> set (call_records accepted) else {})" by blast
qed

text \<open>
  C13: The streams of a segment yield what its writer was given. Over a segment written by any accepted calls, the stream of terms,
  reading each list as it reaches the term, returns every dictionary term once, in order, with the documents it was pushed with, then
  ends; the stream of records returns in strictly increasing order exactly the accepted records and those of the single-document terms of the
  fingerprint codec. No step fails or panics, whatever the windows read ahead.
\<close>

theorem streams_yield_the_segment:
  assumes "writer_build first_doc last_doc version codec_id = Inr w0"
    and "run_calls pf fingerprint w0 calls = (w, accepted)"
    and "writer_finish checksum w = Some (Inr (file, z))"
    and "pfor_ok pf" "digest_ok checksum" "last_doc < 2 ^ 32" "length file < 2 ^ 64"
    and "\<forall>(t, docs)\<in>set (call_terms accepted). length t < 2 ^ 64 \<and> length docs < 2 ^ 32"
  shows "\<exists>self rs. segment_open checksum file = Some (Inr self) \<and>
    stream_items checksum pf self (segment_terms self) = map (\<lambda>(t, docs). Inr (t, Inr docs)) (dictionary_terms codec_id accepted) \<and>
    record_items checksum self segment_records = map Inr rs \<and> sorted_wrt (<) rs \<and>
    (\<lambda>(fp, d). (fp, unat d)) ` set rs =
      (if codec_id = fingerprint_codec
       then {(fingerprint t, d) | t d. (t, [d]) \<in> set (call_terms accepted)} \<union> set (call_records accepted) else {})"
proof -
  from run_opens [OF assms(1-3,5-8)] obtain self where self: "segment_open checksum file = gives self"
    "segment_holds checksum pf first_doc last_doc (dict_entries w) (written_records fingerprint w accepted) self"
    "entries_fit first_doc last_doc (dict_entries w)" "\<forall>e\<in>set (dict_entries w). length (snd e) < 2 ^ 32" .
  note streams = run_streams [OF assms(1,2,6,4,5) self(2-4)]
  have "stream_items checksum pf self (segment_terms self) = map (\<lambda>(t, docs). Inr (t, Inr docs)) (dictionary_terms codec_id accepted)"
    using streams(1) by (simp add: stream_item_def split_beta)
  with streams(2) self(1) show ?thesis by blast
qed

text \<open>
  C14: Seeking a stream. From any term, the stream of a written segment yields a suffix of its dictionary, which holds every
  term from there on and at most one block of smaller ones.
\<close>

theorem terms_from_skips_blocks:
  assumes "writer_build first_doc last_doc version codec_id = Inr w0"
    and "run_calls pf fingerprint w0 calls = (w, accepted)"
    and "writer_finish checksum w = Some (Inr (file, z))"
    and "pfor_ok pf" "digest_ok checksum" "last_doc < 2 ^ 32" "length file < 2 ^ 64"
    and "\<forall>(t, docs)\<in>set (call_terms accepted). length t < 2 ^ 64 \<and> length docs < 2 ^ 32"
  shows "\<exists>self. segment_open checksum file = Some (Inr self) \<and>
    (\<forall>start. \<exists>pre post. dictionary_terms codec_id accepted = pre @ post \<and>
       stream_items checksum pf self (segment_terms_from self start) = map (\<lambda>(t, docs). Inr (t, Inr docs)) post \<and>
       (\<forall>x\<in>set pre. fst x < start) \<and> length (filter (\<lambda>x. fst x < start) post) \<le> block_terms)"
proof -
  from run_opens [OF assms(1-3,5-8)] obtain self where self: "segment_open checksum file = gives self"
    "segment_holds checksum pf first_doc last_doc (dict_entries w) (written_records fingerprint w accepted) self"
    "entries_fit first_doc last_doc (dict_entries w)" "\<forall>e\<in>set (dict_entries w). length (snd e) < 2 ^ 32" .
  have "\<exists>pre post. dictionary_terms codec_id accepted = pre @ post \<and>
       stream_items checksum pf self (segment_terms_from self start) = map (\<lambda>(t, docs). Inr (t, Inr docs)) post \<and>
       (\<forall>x\<in>set pre. fst x < start) \<and> length (filter (\<lambda>x. fst x < start) post) \<le> block_terms" for start
  proof -
    from segment_terms_from_at [OF self(2,3), of start] obtain pre post where
      at: "dict_entries w = pre @ post" "stream_at pf first_doc last_doc (dict_entries w) (segment_terms_from self start) post"
        "\<forall>e\<in>set pre. fst e < start" "length (filter (\<lambda>e. fst e < start) post) \<le> block_terms" .
    have "stream_items checksum pf self (segment_terms_from self start) = map (\<lambda>(t, docs). Inr (t, Inr docs)) post"
      using stream_items_ok [OF assms(4) self(2,3) assms(5) self(4) at(2)] by (simp add: stream_item_def split_beta)
    with at(1,3,4) show ?thesis unfolding run_dictionary [OF assms(1,2)] by blast
  qed
  with self(1) show ?thesis by blast
qed

theorem streams_yield_the_segment_witness:
  "\<exists>file self rs. segment_open plain_digest file = Some (Inr self) \<and>
     stream_items plain_digest plain_pfor self (segment_terms self) = [Inr ([97, 98], Inr [11, 15])] \<and>
     record_items plain_digest self segment_records = map Inr rs \<and> (\<lambda>(fp, d). (fp, unat d)) ` set rs = {(1, 12), (1, 14)}"
proof -
  obtain w0 w out z where run: "writer_build 10 20 2 fingerprint_codec = Inr w0"
    "run_calls plain_pfor plain_fingerprint w0 sample_calls = (w, sample_accepted)"
    "writer_finish plain_digest w = Some (Inr (out, z))" "length out < 2 ^ 64" by (rule sample_records_finish)
  have terms: "dictionary_terms fingerprint_codec sample_accepted = [([97, 98], [11, 15])]"
    by (simp add: dictionary_terms_def sample_accepted_calls)
  have records: "{(plain_fingerprint t, d) | t d. (t, [d]) \<in> set (call_terms sample_accepted)} \<union> set (call_records sample_accepted) = {(1, 12), (1, 14)}"
    by (auto simp: sample_accepted_calls plain_fingerprint_def)
  from streams_yield_the_segment [OF run(1-3) plain_pfor_ok plain_digest_ok _ run(4), unfolded terms if_P [OF refl] records]
  show ?thesis by (fastforce simp: sample_accepted_calls)
qed

theorem terms_from_skips_blocks_witness:
  "\<exists>file self. segment_open plain_digest file = Some (Inr self) \<and>
     length (stream_items plain_digest plain_pfor self (segment_terms_from self [97, 98])) = 1"
proof -
  obtain w0 w out z where run: "writer_build 10 20 2 fingerprint_codec = Inr w0"
    "run_calls plain_pfor plain_fingerprint w0 sample_calls = (w, sample_accepted)"
    "writer_finish plain_digest w = Some (Inr (out, z))" "length out < 2 ^ 64" by (rule sample_records_finish)
  have terms: "dictionary_terms fingerprint_codec sample_accepted = [([97, 98], [11, 15])]"
    by (simp add: dictionary_terms_def sample_accepted_calls)
  from terms_from_skips_blocks [OF run(1-3) plain_pfor_ok plain_digest_ok _ run(4), unfolded terms] obtain self where
    self: "segment_open plain_digest out = Some (Inr self)"
    and all: "\<forall>start. \<exists>pre post. [([97, 98], [11, 15])] = pre @ post \<and>
       stream_items plain_digest plain_pfor self (segment_terms_from self start) = map (\<lambda>(t, docs). Inr (t, Inr docs)) post \<and>
       (\<forall>x\<in>set pre. fst x < start) \<and> length (filter (\<lambda>x. fst x < start) post) \<le> block_terms"
    by (auto simp: sample_accepted_calls)
  from all [THEN spec, of "[97, 98]"] obtain pre post where
    "[([97, 98], [11, 15])] = pre @ post" "\<forall>x\<in>set pre. fst x < [97, 98 :: byte]"
    "stream_items plain_digest plain_pfor self (segment_terms_from self [97, 98]) = map (\<lambda>(t, docs). Inr (t, Inr docs)) post" by blast
  then have "length (stream_items plain_digest plain_pfor self (segment_terms_from self [97, 98])) = 1"
    by (cases pre) auto
  with self show ?thesis by blast
qed

end
