(* ===== verification/Term_Read.thy ===== *)
theory Term_Read
  imports Segment_Lookup Cursor_Walk
begin

text \<open>
  Reading one term from the segments of a view (\<open>Term::read_until\<close> of \<open>ferret-index/src/postings.rs\<close>):
  per segment the dictionary entry, its list, and the fingerprint documents become a part of the term, which
  the postings cursor then walks. The answers of \<open>cancelled\<close> are a function of the segment and of the
  question asked while that segment is read.

  Results: over segments that writers produced, with ascending disjoint ranges, reading a term succeeds and
  the cursor over it may yield exactly the documents the term was pushed with, certain where the dictionary holds
  them and possible where a record with its fingerprint does.
\<close>

section \<open>Reading\<close>

definition hit_count :: "hit option \<Rightarrow> nat" where
  "hit_count hit = (case hit of None \<Rightarrow> 0 | Some (Single _) \<Rightarrow> 1 | Some (hit.Postings l) \<Rightarrow> pl_df l)"

definition hit_bytes :: "hit option \<Rightarrow> nat" where
  "hit_bytes hit = (case hit of Some (hit.Postings l) \<Rightarrow> length (pl_bytes l) | _ \<Rightarrow> 0)"

text \<open>\<open>entry.map(..).transpose()?\<close>, and the error of the fingerprint lookup as the reader's.\<close>

definition read_entry :: "(bytes \<Rightarrow> bytes) \<Rightarrow> segment \<Rightarrow> term_entry option \<Rightarrow> (read_error + hit option) option" where
  "read_entry checksum self entry =
     (case entry of
        None \<Rightarrow> gives None
      | Some entry \<Rightarrow> try_then (segment_read checksum self entry) (\<lambda>hit. gives (Some hit)))"

definition fp_result :: "read_error option fp_error + 'a \<Rightarrow> (read_error + 'a) option" where
  "fp_result r =
     (case r of
        Inr x \<Rightarrow> gives x
      | Inl Cancelled \<Rightarrow> fails ReCancelled
      | Inl (Read None) \<Rightarrow> None
      | Inl (Read (Some e)) \<Rightarrow> fails e
      | Inl CorruptFingerprints \<Rightarrow> fails (ReCorrupt SecFingerprints))"

fun term_read_loop ::
  "(bytes \<Rightarrow> bytes) \<Rightarrow> pfor \<Rightarrow> (bytes \<Rightarrow> u32) \<Rightarrow> (nat \<Rightarrow> nat \<Rightarrow> bool) \<Rightarrow> bytes \<Rightarrow> segment list \<Rightarrow> nat \<Rightarrow> nat \<Rightarrow> term_docs \<Rightarrow>
   (read_error + term_docs) option"
where
  "term_read_loop checksum pf fingerprint cancelled t [] i floor found = gives found"
| "term_read_loop checksum pf fingerprint cancelled t (self # segments) i floor found =
     (if cancelled i 0 then fails ReCancelled
      else if unat (in_first (sf_info self)) < floor then fails ReLayout
      else
        try_then (segment_term_entry checksum pf self t) (\<lambda>entry.
          if cancelled i 1 then fails ReCancelled
          else
            try_then (read_entry checksum self entry) (\<lambda>hit.
            try_then (fp_result (segment_fingerprint_docs checksum fingerprint self t (\<lambda>k. cancelled i (k + 2)))) (\<lambda>maybe.
              let found = found\<lparr>td_records := td_records found + length maybe,
                                td_docs := td_docs found + length maybe + hit_count hit,
                                td_bytes := td_bytes found + hit_bytes hit\<rparr>;
                  last = unat (in_last (sf_info self)) in
              term_read_loop checksum pf fingerprint cancelled t segments (i + 1) (last + 1)
                (if hit = None \<and> maybe = [] then found
                 else found\<lparr>td_parts := td_parts found @ [\<lparr>part_last = last, part_hit = hit, part_maybe = map unat maybe\<rparr>]\<rparr>)))))"

definition term_read_until ::
  "(bytes \<Rightarrow> bytes) \<Rightarrow> pfor \<Rightarrow> (bytes \<Rightarrow> u32) \<Rightarrow> (nat \<Rightarrow> nat \<Rightarrow> bool) \<Rightarrow> segment list \<Rightarrow> bytes \<Rightarrow> (read_error + term_docs) option"
where
  "term_read_until checksum pf fingerprint cancelled segments t =
     term_read_loop checksum pf fingerprint cancelled t segments 0 0 \<lparr>td_parts = [], td_docs = 0, td_bytes = 0, td_records = 0\<rparr>"

definition term_read ::
  "(bytes \<Rightarrow> bytes) \<Rightarrow> pfor \<Rightarrow> (bytes \<Rightarrow> u32) \<Rightarrow> segment list \<Rightarrow> bytes \<Rightarrow> (read_error + term_docs) option"
where
  "term_read checksum pf fingerprint segments t = term_read_until checksum pf fingerprint (\<lambda>_ _. False) segments t"

definition term_exact :: "term_docs \<Rightarrow> bool" where
  "term_exact self \<longleftrightarrow> td_records self = 0"

section \<open>What a segment was written with\<close>

text \<open>A segment that a writer produced from the accepted calls \<open>accepted\<close>.\<close>

record written =
  wn_first :: nat
  wn_last :: nat
  wn_codec :: nat
  wn_accepted :: "writer_call list"

definition written_by :: "(bytes \<Rightarrow> bytes) \<Rightarrow> pfor \<Rightarrow> (bytes \<Rightarrow> u32) \<Rightarrow> segment \<Rightarrow> written \<Rightarrow> bool" where
  "written_by checksum pf fingerprint self wn \<longleftrightarrow>
     (\<exists>version w0 calls w file z.
        writer_build (wn_first wn) (wn_last wn) version (wn_codec wn) = Inr w0 \<and>
        run_calls pf fingerprint w0 calls = (w, wn_accepted wn) \<and> writer_finish checksum w = Some (Inr (file, z)) \<and>
        length file < 2 ^ 64 \<and> segment_open checksum file = gives self) \<and>
     wn_last wn < 2 ^ 32 \<and> (\<forall>(t, docs)\<in>set (call_terms (wn_accepted wn)). length t < 2 ^ 64 \<and> length docs < 2 ^ 32)"

text \<open>The documents its dictionary holds for a term, and those of its records with the term's fingerprint.\<close>

definition kept_docs :: "written \<Rightarrow> bytes \<Rightarrow> nat list" where
  "kept_docs wn t =
     (case map_of (call_terms (wn_accepted wn)) t of
        None \<Rightarrow> []
      | Some docs \<Rightarrow> if wn_codec wn = fingerprint_codec \<and> length docs = 1 then [] else docs)"

definition maybe_docs :: "(bytes \<Rightarrow> u32) \<Rightarrow> written \<Rightarrow> bytes \<Rightarrow> nat set" where
  "maybe_docs fingerprint wn t =
     (if wn_codec wn = fingerprint_codec then
        {d. \<exists>t'. (t', [d]) \<in> set (call_terms (wn_accepted wn)) \<and> fingerprint t' = fingerprint t} \<union>
        {d. (fingerprint t, d) \<in> set (call_records (wn_accepted wn))}
      else {})"

section \<open>One part\<close>

text \<open>The part a written segment gives for a term.\<close>

definition part_of :: "pfor \<Rightarrow> (bytes \<Rightarrow> u32) \<Rightarrow> written \<Rightarrow> bytes \<Rightarrow> hit option \<Rightarrow> u32 list \<Rightarrow> bool" where
  "part_of pf fingerprint wn t hit ds \<longleftrightarrow>
     (case hit of None \<Rightarrow> kept_docs wn t = [] | Some h \<Rightarrow> kept_docs wn t \<noteq> [] \<and> hit_holds pf (wn_first wn) (kept_docs wn t) h) \<and>
     sorted_wrt (<) ds \<and> unat ` set ds = maybe_docs fingerprint wn t"

lemma written_by_part:
  assumes wn: "written_by checksum pf fingerprint self wn" and pf: "pfor_ok pf" and digest: "digest_ok checksum"
  obtains entry hit ds where
    "segment_term_entry checksum pf self t = gives entry" "read_entry checksum self entry = gives hit"
    "segment_fingerprint_docs checksum fingerprint self t (\<lambda>_. False) = Inr ds" "part_of pf fingerprint wn t hit ds"
    "unat (in_first (sf_info self)) = wn_first wn" "unat (in_last (sf_info self)) = wn_last wn"
proof -
  from wn obtain version w0 calls w out z where
    build: "writer_build (wn_first wn) (wn_last wn) version (wn_codec wn) = Inr w0" "run_calls pf fingerprint w0 calls = (w, wn_accepted wn)"
    and fin: "writer_finish checksum w = Some (Inr (out, z))" "length out < 2 ^ 64" "segment_open checksum out = gives self"
    and fits: "wn_last wn < 2 ^ 32" "\<forall>(t, docs)\<in>set (call_terms (wn_accepted wn)). length t < 2 ^ 64 \<and> length docs < 2 ^ 32"
    unfolding written_by_def by blast
  from run_opens [OF build fin(1) digest fits(1) fin(2) fits(2)] fin(3) have
    holds: "segment_holds checksum pf (wn_first wn) (wn_last wn) (dict_entries w) (written_records fingerprint w (wn_accepted wn)) self"
    and fit: "entries_fit (wn_first wn) (wn_last wn) (dict_entries w)" "\<forall>e\<in>set (dict_entries w). length (snd e) < 2 ^ 32" by auto
  let ?es = "dict_entries w"
  have kept: "kept_docs wn t = (case map_of ?es t of None \<Rightarrow> [] | Some docs \<Rightarrow> docs)"
    unfolding kept_docs_def run_entries [OF build] by (auto split: option.splits)
  note entry = segment_entry_ok [OF pf holds fit(1) digest, of t]
  obtain hit where hit: "read_entry checksum self (expected_entry pf (wn_first wn) 0 ?es t) = gives hit"
    "case hit of None \<Rightarrow> kept_docs wn t = [] | Some h \<Rightarrow> kept_docs wn t \<noteq> [] \<and> hit_holds pf (wn_first wn) (kept_docs wn t) h"
  proof (cases "map_of ?es t")
    case None
    with that [of None] kept show ?thesis by (simp add: read_entry_def expected_entry_def)
  next
    case (Some docs)
    then have "length docs < 2 ^ 32" "docs \<noteq> []" using fit map_of_SomeD [OF Some] by (auto simp: entries_fit_def fits_entry_def)
    note docs = this
    from segment_read_ok [OF pf holds fit(1) digest Some docs(1)] obtain h where
      "segment_read checksum self (entry_of pf (wn_first wn) (list_place pf (wn_first wn) ?es t) docs) = gives h"
      "hit_holds pf (wn_first wn) docs h" .
    with docs(2) Some kept show ?thesis by (intro that [of "Some h"]) (simp_all add: read_entry_def expected_entry_def)
  qed
  from run_records [OF build holds digest fits(1), of t] obtain ds where
    ds: "segment_fingerprint_docs checksum fingerprint self t (\<lambda>_. False) = Inr ds" "sorted_wrt (<) ds"
      "unat ` set ds = maybe_docs fingerprint wn t" unfolding maybe_docs_def .
  have "unat (in_first (sf_info self)) = wn_first wn" "unat (in_last (sf_info self)) = wn_last wn"
    using holds by (simp_all add: segment_holds_def Let_def)
  with that [OF entry hit(1) ds(1)] hit(2) ds(2,3) show ?thesis by (simp add: part_of_def)
qed

lemma written_by_range:
  assumes "written_by checksum pf fingerprint self wn"
  shows "wn_first wn \<le> wn_last wn" "wn_last wn < 2 ^ 32"
    "d \<in> set (kept_docs wn t) \<Longrightarrow> wn_first wn \<le> d \<and> d \<le> wn_last wn" "sorted_wrt (<) (kept_docs wn t)"
    "d \<in> maybe_docs fingerprint wn t \<Longrightarrow> wn_first wn \<le> d \<and> d \<le> wn_last wn"
proof -
  from assms obtain version w0 calls w where
    build: "writer_build (wn_first wn) (wn_last wn) version (wn_codec wn) = Inr w0" "run_calls pf fingerprint w0 calls = (w, wn_accepted wn)"
    unfolding written_by_def by blast
  note run = built_run [OF build]
  show "wn_first wn \<le> wn_last wn" by (rule run(6))
  show "wn_last wn < 2 ^ 32" using assms by (simp add: written_by_def)
  have "sorted_wrt (<) docs \<and> (\<forall>d\<in>set docs. wn_first wn \<le> d \<and> d \<le> wn_last wn)" if "(t', docs) \<in> set (call_terms (wn_accepted wn))" for t' docs
    using run(1) that unfolding writer_inv_def accepted_terms_def run(5)
    by (force simp: docs_fit_def term_writer.truncate_def run(2,3))
  then have terms: "sorted_wrt (<) docs" "d \<in> set docs \<Longrightarrow> wn_first wn \<le> d \<and> d \<le> wn_last wn"
    if "map_of (call_terms (wn_accepted wn)) t = Some docs" for docs d using map_of_SomeD [OF that] by blast+
  then show "d \<in> set (kept_docs wn t) \<Longrightarrow> wn_first wn \<le> d \<and> d \<le> wn_last wn" "sorted_wrt (<) (kept_docs wn t)"
    by (cases "map_of (call_terms (wn_accepted wn)) t"; auto simp: kept_docs_def split: if_splits)+
  show "d \<in> maybe_docs fingerprint wn t \<Longrightarrow> wn_first wn \<le> d \<and> d \<le> wn_last wn"
    using call_docs_range [OF run(1)] by (auto simp: maybe_docs_def run(2,3) split: if_splits)
qed

section \<open>All parts\<close>

fun ascending :: "nat \<Rightarrow> written list \<Rightarrow> bool" where
  "ascending low [] \<longleftrightarrow> True"
| "ascending low (wn # wns) \<longleftrightarrow> low \<le> wn_first wn \<and> ascending (wn_last wn + 1) wns"

definition all_kept :: "written list \<Rightarrow> bytes \<Rightarrow> nat set" where
  "all_kept wns t = (\<Union>wn\<in>set wns. set (kept_docs wn t))"

definition all_maybe :: "(bytes \<Rightarrow> u32) \<Rightarrow> written list \<Rightarrow> bytes \<Rightarrow> nat set" where
  "all_maybe fingerprint wns t = (\<Union>wn\<in>set wns. maybe_docs fingerprint wn t)"

definition verdict :: "nat set \<Rightarrow> nat set \<Rightarrow> docs" where
  "verdict yes maybe d = (if d \<in> yes then Some Yes else if d \<in> maybe then Some Maybe else None)"

lemma verdict_max: "max (verdict a b d) (verdict a' b' d) = verdict (a \<union> a') (b \<union> b') d"
  by (auto simp: verdict_def max_def less_eq_option_def)

lemma verdict_empty [simp]: "verdict {} {} d = None"
  by (simp add: verdict_def)

lemma wf_parts_mono: "wf_parts ip low ps inner \<Longrightarrow> low' \<le> low \<Longrightarrow> wf_parts ip low' ps inner"
  by (cases ps) (auto intro: order_trans)

text \<open>The cursor's codec decodes what the writer's does.\<close>

lemma part_of_left:
  assumes part: "part_of pf fingerprint wn t hit ds" and ip: "intpack_ok ip" "ip_decode ip = pf_decode pf"
    and range: "\<And>d. d \<in> set (kept_docs wn t) \<Longrightarrow> wn_first wn \<le> d" "sorted_wrt (<) (kept_docs wn t)"
  defines "p \<equiv> \<lparr>part_last = wn_last wn, part_hit = hit, part_maybe = map unat ds\<rparr>"
  shows "hit_ok ip p None" "part_left ip p None d = verdict (set (kept_docs wn t)) (maybe_docs fingerprint wn t) d" "sorted (part_maybe p)"
proof -
  have maybe: "set (part_maybe p) = maybe_docs fingerprint wn t" using part by (simp add: p_def part_of_def)
  have hits: "hit_ok ip p None \<and> hit_left ip p None = set (kept_docs wn t)"
  proof (cases hit)
    case None
    with part show ?thesis by (simp add: part_of_def p_def hit_ok_def hit_left_def)
  next
    case (Some h)
    show ?thesis
    proof (cases h)
      case (Single doc)
      with Some part show ?thesis by (simp add: part_of_def p_def hit_ok_def hit_left_def hit_holds_def)
    next
      case (Postings l)
      let ?bs = "drop (pl_start l) (pl_bytes l)"
      have l: "pl_first l = wn_first wn" "ip_decode ip (pl_df l) ?bs = map (\<lambda>d. d - wn_first wn) (kept_docs wn t)"
        using part unfolding Some Postings part_of_def hit_holds_def option.case hit.case ip(2) by blast+
      have sorted: "sorted_wrt (<) (ip_decode ip (pl_df l) ?bs)"
        unfolding l(2) sorted_wrt_map using range by (intro sorted_wrt_mono_rel [OF _ range(2)]) (auto intro: diff_less_mono)
      then have "ip_left ip (ip_new ip (pl_df l) ?bs) = (\<lambda>d. d - wn_first wn) ` set (kept_docs wn t)"
        using ip(1) l(2) by (simp add: intpack_ok_def)
      moreover have "(\<lambda>d. d + wn_first wn) ` (\<lambda>d. d - wn_first wn) ` set (kept_docs wn t) = set (kept_docs wn t)"
        using range(1) by (force simp: image_iff)
      ultimately show ?thesis
        using sorted by (simp add: Some Postings p_def hit_ok_def hit_left_def posting_left_def plist_cursor_def l(1))
    qed
  qed
  then show "hit_ok ip p None" by blast
  show "part_left ip p None d = verdict (set (kept_docs wn t)) (maybe_docs fingerprint wn t) d"
    using hits maybe by (simp add: part_left_def verdict_def)
  have "sorted_wrt (<) (map unat ds)"
    unfolding sorted_wrt_map word_less_nat_alt [symmetric] using part by (simp add: part_of_def)
  then show "sorted (part_maybe p)" unfolding p_def by (simp add: strict_sorted_imp_sorted)
qed

lemma all_written:
  assumes "list_all2 (written_by checksum pf fingerprint) segments wns" "wn \<in> set wns"
  obtains self where "written_by checksum pf fingerprint self wn"
  using assms by (metis in_set_conv_nth list_all2_conv_all_nth)

lemma part_of_kept: "part_of pf fingerprint wn t hit ds \<Longrightarrow> hit_count hit = length (kept_docs wn t)"
  by (auto simp: part_of_def hit_count_def hit_holds_def split: option.splits hit.splits)

lemma part_of_maybe: "part_of pf fingerprint wn t hit ds \<Longrightarrow> length ds = card (maybe_docs fingerprint wn t)"
proof -
  assume part: "part_of pf fingerprint wn t hit ds"
  then have "distinct ds" by (simp add: part_of_def strict_sorted_iff)
  moreover have "card (unat ` set ds) = card (set ds)" by (intro card_image inj_onI) (simp add: word_unat_eq_iff)
  ultimately show ?thesis using part by (simp add: part_of_def distinct_card)
qed

lemma part_of_none:
  "part_of pf fingerprint wn t hit ds \<Longrightarrow> hit = None \<and> ds = [] \<longleftrightarrow> kept_docs wn t = [] \<and> maybe_docs fingerprint wn t = {}"
  by (auto simp: part_of_def split: option.splits)

text \<open>The fingerprint codec makes a term of one document a record, and the plain one has no records.\<close>

lemma part_of_apart:
  assumes "part_of pf fingerprint wn t hit ds"
  shows "part_apart \<lparr>part_last = l, part_hit = hit, part_maybe = map unat ds\<rparr>"
proof (cases "\<exists>doc. hit = Some (Single doc)")
  case True
  with assms have "length (kept_docs wn t) = 1" by (auto simp: part_of_def hit_holds_def)
  then have "wn_codec wn \<noteq> fingerprint_codec" by (auto simp: kept_docs_def split: option.splits if_splits)
  with assms show ?thesis by (simp add: part_of_def maybe_docs_def part_apart_def)
qed (simp add: part_apart_def)

text \<open>What the loop has added to \<open>found\<close> once it is done.\<close>

definition reads_all :: "'p intpack \<Rightarrow> (bytes \<Rightarrow> u32) \<Rightarrow> nat \<Rightarrow> written list \<Rightarrow> bytes \<Rightarrow> term_docs \<Rightarrow> term_docs \<Rightarrow> bool" where
  "reads_all ip fingerprint low wns t found found' \<longleftrightarrow>
     (\<exists>ps. td_parts found' = td_parts found @ ps \<and> wf_parts ip low ps None \<and> list_all part_apart ps \<and>
        parts_left ip ps None = verdict (all_kept wns t) (all_maybe fingerprint wns t)) \<and>
     td_docs found' = td_docs found + (\<Sum>wn\<leftarrow>wns. length (kept_docs wn t) + card (maybe_docs fingerprint wn t)) \<and>
     td_records found' = td_records found + (\<Sum>wn\<leftarrow>wns. card (maybe_docs fingerprint wn t))"

lemma reads_all_Nil: "reads_all ip fingerprint low [] t found found"
  by (auto simp: reads_all_def all_kept_def all_maybe_def)

lemma reads_all_Cons:
  assumes part: "part_of pf fingerprint wn t hit ds" and ip: "intpack_ok ip" "ip_decode ip = pf_decode pf"
    and wn: "written_by checksum pf fingerprint self wn" and low: "low \<le> wn_first wn"
    and rest: "reads_all ip fingerprint (wn_last wn + 1) wns t
      (if hit = None \<and> ds = [] then found1
       else found1\<lparr>td_parts := td_parts found1 @ [\<lparr>part_last = wn_last wn, part_hit = hit, part_maybe = map unat ds\<rparr>]\<rparr>) found'"
    and found1: "td_parts found1 = td_parts found" "td_docs found1 = td_docs found + length ds + hit_count hit"
      "td_records found1 = td_records found + length ds"
  shows "reads_all ip fingerprint low (wn # wns) t found found'"
proof -
  let ?p = "\<lparr>part_last = wn_last wn, part_hit = hit, part_maybe = map unat ds\<rparr>"
  let ?new = "if hit = None \<and> ds = [] then [] else [?p]"
  note range = written_by_range [OF wn]
  have left: "hit_ok ip ?p None" "part_left ip ?p None d = verdict (set (kept_docs wn t)) (maybe_docs fingerprint wn t) d"
    "sorted (part_maybe ?p)" for d
    using part_of_left [OF part ip _ range(4)] range(3) by auto
  from rest obtain ps where ps: "td_parts found' = (td_parts found @ ?new) @ ps" "wf_parts ip (wn_last wn + 1) ps None"
    "parts_left ip ps None = verdict (all_kept wns t) (all_maybe fingerprint wns t)" "list_all part_apart ps"
    by (auto simp: reads_all_def found1 split: if_splits)
  have "wf_parts ip low (?new @ ps) None"
    using ps(2) left range low
    by (auto simp: verdict_def intro: wf_parts_mono split: if_splits dest: range(3,5))
  moreover have "parts_left ip (?new @ ps) None = verdict (all_kept (wn # wns) t) (all_maybe fingerprint (wn # wns) t)"
    using ps(3) part_of_none [OF part] left(2)
    by (auto simp: fun_eq_iff verdict_max all_kept_def all_maybe_def)
  moreover have "list_all part_apart (?new @ ps)" using ps(4) part_of_apart [OF part] by simp
  ultimately show ?thesis
    using rest ps(1) part_of_kept [OF part] part_of_maybe [OF part] by (auto simp: reads_all_def found1)
qed

lemma term_read_loop_ok:
  assumes pf: "pfor_ok pf" and digest: "digest_ok checksum" and ip: "intpack_ok ip" "ip_decode ip = pf_decode pf"
  shows "list_all2 (written_by checksum pf fingerprint) segments wns \<Longrightarrow> ascending low wns \<Longrightarrow>
    \<exists>found'. term_read_loop checksum pf fingerprint (\<lambda>_ _. False) t segments i low found = gives found' \<and>
      reads_all ip fingerprint low wns t found found'"
proof (induction segments wns arbitrary: i low found rule: list_all2_induct)
  case Nil
  then show ?case by (simp add: reads_all_Nil)
next
  case (Cons self segments wn wns)
  from written_by_part [OF Cons.hyps(1) pf digest, of t] obtain entry hit ds where
    seg: "segment_term_entry checksum pf self t = gives entry" "read_entry checksum self entry = gives hit"
      "segment_fingerprint_docs checksum fingerprint self t (\<lambda>_. False) = Inr ds" "part_of pf fingerprint wn t hit ds"
      "unat (in_first (sf_info self)) = wn_first wn" "unat (in_last (sf_info self)) = wn_last wn" .
  let ?found1 = "found\<lparr>td_records := td_records found + length ds, td_docs := td_docs found + length ds + hit_count hit,
    td_bytes := td_bytes found + hit_bytes hit\<rparr>"
  let ?found2 = "if hit = None \<and> ds = [] then ?found1
    else ?found1\<lparr>td_parts := td_parts ?found1 @ [\<lparr>part_last = wn_last wn, part_hit = hit, part_maybe = map unat ds\<rparr>]\<rparr>"
  have low: "low \<le> wn_first wn" "ascending (wn_last wn + 1) wns" using Cons.prems by simp_all
  from Cons.IH [OF low(2), of "i + 1" ?found2] obtain found' where
    rest: "term_read_loop checksum pf fingerprint (\<lambda>_ _. False) t segments (i + 1) (wn_last wn + 1) ?found2 = gives found'"
      "reads_all ip fingerprint (wn_last wn + 1) wns t ?found2 found'" by blast
  have "term_read_loop checksum pf fingerprint (\<lambda>_ _. False) t (self # segments) i low found = gives found'"
    using rest(1) low(1) seg by (simp add: fp_result_def Let_def)
  with reads_all_Cons [OF seg(4) ip Cons.hyps(1) low(1) rest(2)] show ?case by auto
qed

lemma term_read_loop_disorder:
  assumes pf: "pfor_ok pf" and digest: "digest_ok checksum"
  shows "list_all2 (written_by checksum pf fingerprint) segments wns \<Longrightarrow> \<not> ascending low wns \<Longrightarrow>
    term_read_loop checksum pf fingerprint (\<lambda>_ _. False) t segments i low found = fails ReLayout"
proof (induction segments wns arbitrary: i low found rule: list_all2_induct)
  case (Cons self segments wn wns)
  from written_by_part [OF Cons.hyps(1) pf digest, of t] obtain entry hit ds where
    seg: "segment_term_entry checksum pf self t = gives entry" "read_entry checksum self entry = gives hit"
      "segment_fingerprint_docs checksum fingerprint self t (\<lambda>_. False) = Inr ds"
      "unat (in_first (sf_info self)) = wn_first wn" "unat (in_last (sf_info self)) = wn_last wn" .
  with Cons.IH Cons.prems show ?case by (auto simp: fp_result_def Let_def not_le)
qed simp

lemma all_docs_card:
  assumes "\<And>wn. wn \<in> set wns \<Longrightarrow> finite (maybe_docs fingerprint wn t)"
  shows "card (all_kept wns t \<union> all_maybe fingerprint wns t) \<le> (\<Sum>wn\<leftarrow>wns. length (kept_docs wn t) + card (maybe_docs fingerprint wn t))"
  using assms
proof (induction wns)
  case (Cons wn wns)
  let ?new = "set (kept_docs wn t) \<union> maybe_docs fingerprint wn t"
  let ?rest = "all_kept wns t \<union> all_maybe fingerprint wns t"
  have "all_kept (wn # wns) t \<union> all_maybe fingerprint (wn # wns) t = ?new \<union> ?rest" by (auto simp: all_kept_def all_maybe_def)
  also have "card \<dots> \<le> card ?new + card ?rest" by (rule card_Un_le)
  also have "card ?new \<le> length (kept_docs wn t) + card (maybe_docs fingerprint wn t)"
    by (rule order_trans [OF card_Un_le]) (simp add: card_length)
  finally show ?case using Cons by simp
qed (simp add: all_kept_def all_maybe_def)

lemma accepted_docs_found:
  assumes wn: "written_by checksum pf fingerprint self wn" and docs: "(t, docs) \<in> set (call_terms (wn_accepted wn))" "d \<in> set docs"
  shows "d \<in> set (kept_docs wn t) \<or> d \<in> maybe_docs fingerprint wn t"
proof -
  from wn obtain version w0 calls w where
    build: "writer_build (wn_first wn) (wn_last wn) version (wn_codec wn) = Inr w0" "run_calls pf fingerprint w0 calls = (w, wn_accepted wn)"
    unfolding written_by_def by blast
  have "sorted_wrt (<) (map fst (call_terms (wn_accepted wn)))"
    using built_run(1,5) [OF build] unfolding writer_inv_def accepted_terms_def by metis
  then have "map_of (call_terms (wn_accepted wn)) t = Some docs" using docs(1) by (intro map_of_is_SomeI) (simp_all add: strict_sorted_iff)
  with docs show ?thesis
    by (cases "wn_codec wn = fingerprint_codec \<and> length docs = 1") (auto simp: kept_docs_def maybe_docs_def length_Suc_conv)
qed

lemma least_from_here: "least_from m t r \<Longrightarrow> m t \<noteq> None \<Longrightarrow> \<exists>x. r = Some (t, x)"
  by (cases r) (auto simp: le_less)

section \<open>Cancellation\<close>

lemma lookup_blocks_cancel:
  "lookup_blocks reader idx len first_doc last_doc fp cancelled calls bl docs = Inl Cancelled \<or>
   lookup_blocks reader idx len first_doc last_doc fp cancelled calls bl docs =
     lookup_blocks reader idx len first_doc last_doc fp (\<lambda>_. False) calls' bl docs"
  by (induction bl arbitrary: calls calls' docs) (auto split: sum.splits option.splits prod.splits simp: Let_def)

lemma segment_fingerprint_docs_cancel:
  "segment_fingerprint_docs checksum fingerprint self t cancelled = Inl Cancelled \<or>
   segment_fingerprint_docs checksum fingerprint self t cancelled = segment_fingerprint_docs checksum fingerprint self t (\<lambda>_. False)"
proof -
  obtain lo hi where "fingerprint_blocks (sf_fingerprints self) (fingerprint t) = (lo, hi)" by force
  with lookup_blocks_cancel [of "records_reader checksum self" "sf_fingerprints self" "snd (sf_fingerprints_at self)"
      "in_first (sf_info self)" "in_last (sf_info self)" "fingerprint t" cancelled 1 "[lo..<hi]" "[]" 1]
  show ?thesis by (auto simp: segment_fingerprint_docs_def fingerprint_docs_until_def)
qed

lemma try_then_cancel:
  assumes "r = fails ReCancelled \<or> r = r'" "\<And>x. r = gives x \<Longrightarrow> k x = fails ReCancelled \<or> k x = k' x"
  shows "try_then r k = fails ReCancelled \<or> try_then r k = try_then r' k'"
  using assms by (cases r rule: option.exhaust) (auto simp: try_then_def split: sum.splits option.splits)

lemma if_cancel:
  "(\<not> b \<Longrightarrow> x = fails ReCancelled \<or> x = y) \<Longrightarrow>
   (if b then fails ReCancelled else x) = fails ReCancelled \<or> (if b then fails ReCancelled else x) = y"
  by simp

lemma term_read_loop_cancel:
  "term_read_loop checksum pf fingerprint cancelled t segments i low found = fails ReCancelled \<or>
   term_read_loop checksum pf fingerprint cancelled t segments i low found =
     term_read_loop checksum pf fingerprint (\<lambda>_ _. False) t segments i low found"
proof (induction segments arbitrary: i low found)
  case (Cons self segments)
  have docs: "fp_result (segment_fingerprint_docs checksum fingerprint self t (\<lambda>k. cancelled i (k + 2))) = fails ReCancelled \<or>
      fp_result (segment_fingerprint_docs checksum fingerprint self t (\<lambda>k. cancelled i (k + 2))) =
        fp_result (segment_fingerprint_docs checksum fingerprint self t (\<lambda>_. False))"
    using segment_fingerprint_docs_cancel [of checksum fingerprint self t "\<lambda>k. cancelled i (k + 2)"] by (auto simp: fp_result_def)
  show ?case
  proof (cases "cancelled i 0 \<or> unat (in_first (sf_info self)) < low")
    case False
    then have "cancelled i 0 = False" "(unat (in_first (sf_info self)) < low) = False" by simp_all
    then show ?thesis
      unfolding term_read_loop.simps if_False Let_def
      by (simp only: if_False) (rule try_then_cancel [OF docs] try_then_cancel [OF disjI2 [OF refl]] if_cancel Cons.IH)+
  qed auto
qed simp

section \<open>Properties\<close>

text \<open>
  The term read over the segments, and the cursor over it: well formed, fresh, and with the meaning the written
  documents give it.
\<close>

lemma term_read_cursor:
  fixes ip :: "'p intpack"
  assumes "list_all2 (written_by checksum pf fingerprint) segments wns" "ascending 0 wns"
    and "pfor_ok pf" "digest_ok checksum" "intpack_ok ip" "ip_decode ip = pf_decode pf"
    and B: "\<forall>wn\<in>set wns. wn_last wn < B"
  obtains td where "term_read checksum pf fingerprint segments t = gives td"
    "wf_cursor ip B (Postings (term_cursor td))" "apart (Postings (term_cursor td) :: 'p cursor)"
    "meaning ip (Postings (term_cursor td)) = verdict (all_kept wns t) (all_maybe fingerprint wns t)"
    "td_docs td = (\<Sum>wn\<leftarrow>wns. length (kept_docs wn t) + card (maybe_docs fingerprint wn t))"
    "td_records td = (\<Sum>wn\<leftarrow>wns. card (maybe_docs fingerprint wn t))"
proof -
  from term_read_loop_ok [OF assms(3-6,1,2), of t 0 "\<lparr>td_parts = [], td_docs = 0, td_bytes = 0, td_records = 0\<rparr>"]
  obtain td where td: "term_read checksum pf fingerprint segments t = gives td"
    and all: "reads_all ip fingerprint 0 wns t \<lparr>td_parts = [], td_docs = 0, td_bytes = 0, td_records = 0\<rparr> td"
    unfolding term_read_def term_read_until_def by blast
  let ?m = "verdict (all_kept wns t) (all_maybe fingerprint wns t)"
  have parts: "wf_parts ip 0 (td_parts td) None" "parts_left ip (td_parts td) None = ?m" "list_all part_apart (td_parts td)" using all by (auto simp: reads_all_def)
  have below: "d < B" if "?m d \<noteq> None" for d
  proof -
    from that obtain wn where wn: "wn \<in> set wns" "d \<in> set (kept_docs wn t) \<or> d \<in> maybe_docs fingerprint wn t"
      by (auto simp: verdict_def all_kept_def all_maybe_def split: if_splits)
    from all_written [OF assms(1) wn(1)] obtain self where "written_by checksum pf fingerprint self wn" .
    from written_by_range(3,5) [OF this, of d t] wn B show ?thesis by auto
  qed
  have left: "pcursor_left ip (term_cursor td) = ?m" using parts(2) by (simp add: pcursor_left_def term_cursor_def)
  moreover have "wf_pcursor ip (term_cursor td)" using parts(1) by (auto simp: wf_pcursor_def term_cursor_def)
  ultimately have "wf_cursor ip B (Postings (term_cursor td))" using below by simp
  moreover have "meaning ip (Postings (term_cursor td)) = ?m" using parts(2) by (simp add: term_cursor_def)
  moreover have "td_docs td = (\<Sum>wn\<leftarrow>wns. length (kept_docs wn t) + card (maybe_docs fingerprint wn t))"
    "td_records td = (\<Sum>wn\<leftarrow>wns. card (maybe_docs fingerprint wn t))" using all by (simp_all add: reads_all_def)
  moreover have "apart (Postings (term_cursor td) :: 'p cursor)" using parts(3) by (simp add: term_cursor_def)
  ultimately show ?thesis using that [OF td] by blast
qed

lemma term_read_walk:
  fixes ip :: "'p intpack"
  assumes "list_all2 (written_by checksum pf fingerprint) segments wns" "ascending 0 wns"
    and "pfor_ok pf" "digest_ok checksum" "intpack_ok ip" "ip_decode ip = pf_decode pf"
    and "\<forall>wn\<in>set wns. wn_last wn < B" "B \<le> 2 ^ 32" "B + 1 < n" "sorted ts"
  obtains td rs where "term_read checksum pf fingerprint segments t = gives td"
    "seek_all ip n (Postings (term_cursor td)) ts = Some rs"
    "list_all2 (least_from (verdict (all_kept wns t) (all_maybe fingerprint wns t))) ts rs"
    "td_docs td = (\<Sum>wn\<leftarrow>wns. length (kept_docs wn t) + card (maybe_docs fingerprint wn t))"
    "td_records td = (\<Sum>wn\<leftarrow>wns. card (maybe_docs fingerprint wn t))"
proof -
  from term_read_cursor [OF assms(1-7), of t] obtain td where td: "term_read checksum pf fingerprint segments t = gives td"
    "wf_cursor ip B (Postings (term_cursor td))" "apart (Postings (term_cursor td) :: 'p cursor)"
    "meaning ip (Postings (term_cursor td)) = verdict (all_kept wns t) (all_maybe fingerprint wns t)"
    "td_docs td = (\<Sum>wn\<leftarrow>wns. length (kept_docs wn t) + card (maybe_docs fingerprint wn t))"
    "td_records td = (\<Sum>wn\<leftarrow>wns. card (maybe_docs fingerprint wn t))" .
  have "fits False False (Postings (term_cursor td) :: 'p cursor)" "fresh (Postings (term_cursor td) :: 'p cursor)"
    by (simp_all add: fits_def term_cursor_def)
  note cursor = this
  have "walkable False ip B n (Postings (term_cursor td))" using assms(5,8,9) by (simp add: walkable_def)
  from seek_all_ok [OF this td(2) cursor(1), of ts] standing_fresh [OF td(2) cursor] in_step_sorted [OF assms(10)]
  obtain rs where "seek_all ip n (Postings (term_cursor td)) ts = Some rs"
    "list_all2 (least_from (verdict (all_kept wns t) (all_maybe fingerprint wns t))) ts rs"
    unfolding td(4) finds_False by blast
  with that td(1,5,6) show ?thesis by blast
qed

text \<open>
  C4: From the writer to the cursor. Take segments opened from files that writers produced, with disjoint ascending ranges, and any
  term. Reading the term succeeds, and walking the cursor over it with targets that never decrease returns at every
  step the least document at or above the target that the dictionaries hold for the term, as certain, or that a
  fingerprint record gives it, as possible. The count of documents reported is an upper bound of those
  documents, and the term is called exact when no segment has a record for it.
\<close>

theorem term_read_exact:
  assumes "list_all2 (written_by checksum pf fingerprint) segments wns" "ascending 0 wns"
    and "pfor_ok pf" "digest_ok checksum" "intpack_ok ip" "ip_decode ip = pf_decode pf"
    and "\<forall>wn\<in>set wns. wn_last wn < B" "B \<le> 2 ^ 32" "B + 1 < n" "sorted ts"
  shows "\<exists>td rs. term_read checksum pf fingerprint segments t = Some (Inr td) \<and>
    seek_all ip n (Postings (term_cursor td)) ts = Some rs \<and>
    list_all2 (least_from (verdict (all_kept wns t) (all_maybe fingerprint wns t))) ts rs \<and>
    card (all_kept wns t \<union> all_maybe fingerprint wns t) \<le> td_docs td \<and>
    (term_exact td \<longleftrightarrow> all_maybe fingerprint wns t = {})"
proof -
  from term_read_walk [OF assms, of t] obtain td rs where td: "term_read checksum pf fingerprint segments t = gives td"
    "seek_all ip n (Postings (term_cursor td)) ts = Some rs"
    "list_all2 (least_from (verdict (all_kept wns t) (all_maybe fingerprint wns t))) ts rs"
    "td_docs td = (\<Sum>wn\<leftarrow>wns. length (kept_docs wn t) + card (maybe_docs fingerprint wn t))"
    "td_records td = (\<Sum>wn\<leftarrow>wns. card (maybe_docs fingerprint wn t))" .
  have fin: "finite (maybe_docs fingerprint wn t)" if "wn \<in> set wns" for wn
  proof -
    from all_written [OF assms(1) that] obtain self where "written_by checksum pf fingerprint self wn" .
    from written_by_range(5) [OF this, of _ t] show ?thesis by (intro finite_subset [OF _ finite_atMost [of "wn_last wn"]]) auto
  qed
  then have "card (all_kept wns t \<union> all_maybe fingerprint wns t) \<le> td_docs td"
    unfolding td(4) by (rule all_docs_card)
  moreover have "term_exact td \<longleftrightarrow> all_maybe fingerprint wns t = {}"
    using fin unfolding term_exact_def td(5) by (auto simp: all_maybe_def)
  ultimately show ?thesis using td(1-3) by blast
qed

text \<open>
  C8: Nothing indexed is lost. Whatever document a term was pushed with in an accepted call of any of the writers, seeking
  the cursor over the term to that document returns it, whether the dictionary or a fingerprint record holds it.
\<close>

theorem indexed_document_found:
  assumes "list_all2 (written_by checksum pf fingerprint) segments wns" "ascending 0 wns"
    and "pfor_ok pf" "digest_ok checksum" "intpack_ok ip" "ip_decode ip = pf_decode pf"
    and "\<forall>wn\<in>set wns. wn_last wn < B" "B \<le> 2 ^ 32" "B + 1 < n"
    and "wn \<in> set wns" "(t, docs) \<in> set (call_terms (wn_accepted wn))" "d \<in> set docs"
  shows "\<exists>td x. term_read checksum pf fingerprint segments t = Some (Inr td) \<and>
    seek_all ip n (Postings (term_cursor td)) [d] = Some [Some (d, x)]"
proof -
  from term_read_walk [OF assms(1-9), of "[d]" t] obtain td rs where td: "term_read checksum pf fingerprint segments t = gives td"
    "seek_all ip n (Postings (term_cursor td)) [d] = Some rs"
    "list_all2 (least_from (verdict (all_kept wns t) (all_maybe fingerprint wns t))) [d] rs"
    by (metis sorted1)
  from all_written [OF assms(1,10)] obtain self where "written_by checksum pf fingerprint self wn" .
  from accepted_docs_found [OF this assms(11,12)] assms(10)
  have "verdict (all_kept wns t) (all_maybe fingerprint wns t) d \<noteq> None" by (auto simp: verdict_def all_kept_def all_maybe_def)
  with td(3) obtain x where "rs = [Some (d, x)]" by (auto simp: list_all2_Cons1 dest!: least_from_here)
  with td(1,2) show ?thesis by blast
qed

text \<open>
  C40: Segments out of order are refused. When the ranges of the segments overlap or descend, reading a term
  is the error \<open>Layout\<close>, never an answer with documents out of order or missing.
\<close>

theorem segments_out_of_order_refused:
  assumes "list_all2 (written_by checksum pf fingerprint) segments wns" "\<not> ascending 0 wns" "pfor_ok pf" "digest_ok checksum"
  shows "term_read checksum pf fingerprint segments t = Some (Inl ReLayout)"
  unfolding term_read_def term_read_until_def by (rule term_read_loop_disorder [OF assms(3,4,1,2)])

text \<open>
  A cancellable read of any segments either reports cancellation or is the read that nobody cancelled, with its answer or its error.
\<close>

theorem cancelled_term_read:
  "term_read_until checksum pf fingerprint cancelled segments t = Some (Inl ReCancelled) \<or>
   term_read_until checksum pf fingerprint cancelled segments t = term_read checksum pf fingerprint segments t"
  unfolding term_read_def term_read_until_def by (rule term_read_loop_cancel)

section \<open>A read on concrete segments\<close>

text \<open>The codec of the sample segments, as a cursor: the decoded ids, from the current one on.\<close>

definition plain_intpack :: "nat list intpack" where
  "plain_intpack = byte_intpack\<lparr>ip_new := pf_decode plain_pfor, ip_decode := pf_decode plain_pfor\<rparr>"

lemma plain_intpack_ok: "intpack_ok plain_intpack" "ip_decode plain_intpack = pf_decode plain_pfor"
  by (rule list_intpack_ok) (simp_all add: plain_intpack_def)

definition sample_written :: written where
  "sample_written = \<lparr>wn_first = 10, wn_last = 20, wn_codec = fingerprint_codec, wn_accepted = sample_accepted\<rparr>"

lemma sample_written_segment:
  obtains self where "written_by plain_digest plain_pfor plain_fingerprint self sample_written"
proof -
  obtain w0 w out z where run: "writer_build 10 20 2 fingerprint_codec = Inr w0"
    "run_calls plain_pfor plain_fingerprint w0 sample_calls = (w, sample_accepted)"
    "writer_finish plain_digest w = Some (Inr (out, z))" "length out < 2 ^ 64" by (rule sample_records_finish)
  have small: "\<forall>(t, docs)\<in>set (call_terms sample_accepted). length t < 2 ^ 64 \<and> length docs < 2 ^ 32"
    by (simp add: sample_accepted_calls)
  from run_opens [OF run(1-3) plain_digest_ok _ run(4) small] obtain self where self: "segment_open plain_digest out = gives self" by auto
  have "written_by plain_digest plain_pfor plain_fingerprint self sample_written"
    unfolding written_by_def sample_written_def written.simps using run self small
    by (intro conjI exI [of _ 2] exI [of _ w0] exI [of _ sample_calls] exI [of _ w] exI [of _ out] exI [of _ z]) simp_all
  then show ?thesis by (rule that)
qed

lemma sample_written_docs:
  "kept_docs sample_written [97, 98] = [11, 15]" "maybe_docs plain_fingerprint sample_written [97, 98] = {}"
  by (auto simp: sample_written_def kept_docs_def maybe_docs_def sample_accepted_calls plain_fingerprint_def)

theorem term_read_exact_witness:
  "\<exists>self td. term_read plain_digest plain_pfor plain_fingerprint [self] [97, 98] = Some (Inr td) \<and>
     seek_all plain_intpack 40 (Postings (term_cursor td)) [0, 12] = Some [Some (11, Yes), Some (15, Yes)] \<and> term_exact td"
proof -
  obtain self where self: "written_by plain_digest plain_pfor plain_fingerprint self sample_written" by (rule sample_written_segment)
  let ?m = "verdict (all_kept [sample_written] [97, 98]) (all_maybe plain_fingerprint [sample_written] [97, 98])"
  from term_read_exact [of plain_digest plain_pfor plain_fingerprint "[self]" "[sample_written]" plain_intpack 30 40 "[0, 12]" "[97, 98]"]
    self plain_pfor_ok plain_digest_ok plain_intpack_ok
  obtain td rs where td: "term_read plain_digest plain_pfor plain_fingerprint [self] [97, 98] = Some (Inr td)"
    "seek_all plain_intpack 40 (Postings (term_cursor td)) [0, 12] = Some rs" "list_all2 (least_from ?m) [0, 12] rs"
    "term_exact td \<longleftrightarrow> all_maybe plain_fingerprint [sample_written] [97, 98] = {}"
    by (auto simp: sample_written_def)
  have m: "?m = (\<lambda>d. if d = 11 \<or> d = 15 then Some Yes else None)"
    by (auto simp: fun_eq_iff verdict_def all_kept_def all_maybe_def sample_written_docs)
  from td(3) obtain r r' where rs: "rs = [r, r']" "least_from ?m 0 r" "least_from ?m 12 r'" by (auto simp: list_all2_Cons1)
  have "r = Some (11, Yes)" "r' = Some (15, Yes)"
    by (rule least_from_unique [OF rs(2)], simp add: m, rule least_from_unique [OF rs(3)], simp add: m)
  with td rs(1) show ?thesis by (auto simp: all_maybe_def sample_written_docs)
qed

theorem indexed_document_found_witness:
  "\<exists>self td x. term_read plain_digest plain_pfor plain_fingerprint [self] [97] = Some (Inr td) \<and>
     seek_all plain_intpack 40 (Postings (term_cursor td)) [12] = Some [Some (12, x)]"
proof -
  obtain self where self: "written_by plain_digest plain_pfor plain_fingerprint self sample_written" by (rule sample_written_segment)
  have "\<exists>td x. term_read plain_digest plain_pfor plain_fingerprint [self] [97] = Some (Inr td) \<and>
     seek_all plain_intpack 40 (Postings (term_cursor td)) [12] = Some [Some (12, x)]"
    by (rule indexed_document_found [where wns = "[sample_written]" and wn = sample_written and B = 30 and docs = "[12]"])
      (use self plain_pfor_ok plain_digest_ok plain_intpack_ok sample_accepted_calls in \<open>simp_all add: sample_written_def\<close>)
  then show ?thesis by blast
qed

theorem segments_out_of_order_refused_witness:
  "\<exists>self. term_read plain_digest plain_pfor plain_fingerprint [self, self] [97] = Some (Inl ReLayout)"
proof -
  obtain self where self: "written_by plain_digest plain_pfor plain_fingerprint self sample_written" by (rule sample_written_segment)
  have "term_read plain_digest plain_pfor plain_fingerprint [self, self] [97] = Some (Inl ReLayout)"
    by (rule segments_out_of_order_refused [where wns = "[sample_written, sample_written]"])
      (use self plain_pfor_ok plain_digest_ok in \<open>simp_all add: sample_written_def\<close>)
  then show ?thesis by blast
qed

end
