(* ===== verification/Merge_File.thy ===== *)
theory Merge_File
  imports Merge_Records Spill Segment_Streams Term_Read
begin

text \<open>
  The merge as a whole (\<open>stream\<close> of \<open>ferret-index/src/merge.rs\<close>): the terms and then the fingerprint records of
  adjacent segments, read through their streams, are pushed into a spilling writer, which spills after each and is then finished. The
  points of fault injection are left out.

  Results: the file written is that of a writer in memory which is pushed the live terms and records of the inputs, and the segment
  in it holds for every term exactly their live documents.
\<close>

section \<open>The whole merge\<close>

text \<open>A writer's call and the \<open>spill\<close> after it, on a writer and the number of calls of \<open>pace\<close>.\<close>

definition call_and_spill ::
  "pfor \<Rightarrow> (bytes \<Rightarrow> u32) \<Rightarrow> (bytes \<Rightarrow> bytes) \<Rightarrow> (nat \<Rightarrow> nat \<Rightarrow> bool) \<Rightarrow> writer_call \<Rightarrow> dict_writer \<times> nat \<Rightarrow>
   'e merge_error + dict_writer \<times> nat"
where
  "call_and_spill pf fingerprint checksum pace c s =
     (case make_call pf fingerprint (fst s) c of
        Inl e \<Rightarrow> Inl (MergeWrite e)
      | Inr w \<Rightarrow>
          (case writer_spill checksum pace w (snd s) of
             None \<Rightarrow> Inl MergePanic
           | Some (Inl _) \<Rightarrow> Inl MergeIo
           | Some (Inr s) \<Rightarrow> Inr s))"

definition segment_input :: "(bytes \<Rightarrow> bytes) \<Rightarrow> pfor \<Rightarrow> segment \<Rightarrow> read_error option merge_input" where
  "segment_input checksum pf self =
     \<lparr>mi_first = unat (in_first (sf_info self)), mi_last = unat (in_last (sf_info self)),
      mi_items = stream_items checksum pf self (segment_terms self)\<rparr>"

text \<open>\<open>stream\<close>. The callback \<open>cancelled\<close> is asked in the merge of the terms and again in that of the records.\<close>

definition merge_stream ::
  "pfor \<Rightarrow> (bytes \<Rightarrow> u32) \<Rightarrow> (bytes \<Rightarrow> bytes) \<Rightarrow> (nat \<Rightarrow> nat \<Rightarrow> bool) \<Rightarrow> segment list \<Rightarrow> docset \<Rightarrow> (nat \<Rightarrow> bool) \<Rightarrow> (nat \<Rightarrow> bool) \<Rightarrow>
   dict_writer \<Rightarrow> read_error option merge_error + bytes \<times> sizes"
where
  "merge_stream pf fingerprint checksum pace inputs live cancelled cancelled_records w =
     (case merge_terms (map (segment_input checksum pf) inputs) live cancelled
         (\<lambda>s t docs. call_and_spill pf fingerprint checksum pace (Call_push t docs) s) (w, 0) of
        Inl e \<Rightarrow> Inl e
      | Inr s \<Rightarrow>
          (case merge_records (map (\<lambda>self. record_items checksum self segment_records) inputs) live cancelled_records
              (\<lambda>s fp doc. call_and_spill pf fingerprint checksum pace (Call_record fp (unat doc)) s) s of
             Inl e \<Rightarrow> Inl e
           | Inr (carried, removed, w, k) \<Rightarrow>
               (case finish_spilled checksum pace w k of
                  None \<Rightarrow> Inl MergePanic
                | Some (Inl _) \<Rightarrow> Inl MergeIo
                | Some (Inr (file, z)) \<Rightarrow>
                    Inr (file, z\<lparr>sz_records_added := sz_records z - carried, sz_records_removed := removed\<rparr>))))"


section \<open>Calls that are all accepted\<close>

fun make_calls :: "pfor \<Rightarrow> (bytes \<Rightarrow> u32) \<Rightarrow> dict_writer \<Rightarrow> writer_call list \<Rightarrow> write_error + dict_writer" where
  "make_calls pf fingerprint w [] = Inr w"
| "make_calls pf fingerprint w (c # cs) =
     (case make_call pf fingerprint w c of Inl e \<Rightarrow> Inl e | Inr w \<Rightarrow> make_calls pf fingerprint w cs)"

lemma make_calls_append:
  "make_calls pf fingerprint w (cs @ ds) =
    (case make_calls pf fingerprint w cs of Inl e \<Rightarrow> Inl e | Inr w \<Rightarrow> make_calls pf fingerprint w ds)"
  by (induction cs arbitrary: w) (auto split: sum.splits)

lemma make_calls_run: "make_calls pf fingerprint w cs = Inr w' \<Longrightarrow> run_calls pf fingerprint w cs = (w', cs)"
  by (induction cs arbitrary: w) (auto split: sum.splits)

text \<open>Spilling after each call keeps the writer in step with one in memory, unless \<open>pace\<close> refuses.\<close>

lemma put_all_spilled:
  assumes "spilled checksum w v" "make_calls pf fingerprint v (map (\<lambda>x. c (fst x) (snd x)) xs) = Inr v'"
  shows "put_all (\<lambda>s a b. call_and_spill pf fingerprint checksum pace (c a b) s) (w, k) xs = (Inl MergeIo :: 'e merge_error + _) \<and>
      \<not> (\<forall>k n. pace k n) \<or>
    (\<exists>w' k'. put_all (\<lambda>s a b. call_and_spill pf fingerprint checksum pace (c a b) s) (w, k) xs = (Inr (w', k') :: 'e merge_error + _) \<and>
      spilled checksum w' v')"
  using assms
proof (induction xs arbitrary: w v k)
  case (Cons x xs)
  let ?c = "c (fst x) (snd x)"
  from Cons.prems(2) obtain v1 where v1: "make_call pf fingerprint v ?c = Inr v1"
    "make_calls pf fingerprint v1 (map (\<lambda>x. c (fst x) (snd x)) xs) = Inr v'" by (auto split: sum.splits)
  with spilled_call [OF Cons.prems(1), of pf fingerprint ?c] obtain w1 where
    w1: "make_call pf fingerprint w ?c = Inr w1" "spilled checksum w1 v1" by (auto split: sum.splits)
  from spilled_spill [OF w1(2), of pace k] consider
      (refused) "writer_spill checksum pace w1 k = fails ()" "\<not> (\<forall>k n. pace k n)"
    | (spilt) w2 k2 where "writer_spill checksum pace w1 k = gives (w2, k2)" "spilled checksum w2 v1" by (auto simp: paced_def)
  then show ?case
  proof cases
    case refused
    then show ?thesis by (simp add: call_and_spill_def w1(1))
  next
    case (spilt w2 k2)
    with Cons.IH [OF spilt(2) v1(2), of k2] show ?thesis by (simp add: call_and_spill_def w1(1))
  qed
qed auto

lemma make_calls_terms:
  assumes "writer_inv pf fingerprint w cs" "call_records cs = []" "sorted_wrt (<) (map fst xs)"
    "tw_pushed w = 0 \<or> (\<forall>x\<in>set xs. tw_last_term w < fst x)"
    "\<forall>x\<in>set xs. snd x \<noteq> [] \<and> docs_fit (term_writer.truncate w) (snd x)"
  shows "\<exists>w'. make_calls pf fingerprint w (map (\<lambda>x. Call_push (fst x) (snd x)) xs) = Inr w' \<and>
    writer_inv pf fingerprint w' (cs @ map (\<lambda>x. Call_push (fst x) (snd x)) xs) \<and> (dw_singles w' = None \<longleftrightarrow> dw_singles w = None) \<and>
    tw_first w' = tw_first w \<and> tw_last w' = tw_last w"
  using assms
proof (induction xs arbitrary: w cs)
  case (Cons x xs)
  let ?c = "Call_push (fst x) (snd x)"
  have lays: "lays_out pf w" using Cons.prems(1) by (simp add: writer_inv_def)
  have pushed: "writer_push (term_writer.truncate w) (fst x) (snd x) =
      Inr ((term_writer.truncate w)\<lparr>tw_last_term := fst x, tw_pushed := tw_pushed w + 1, tw_out := tw_out w @ [(fst x, snd x)]\<rparr>)"
    using Cons.prems(4,5) writer_push_ok [of "term_writer.truncate w" "fst x" "snd x"] by (auto simp: term_writer.truncate_def)
  then have check: "check_term (term_writer.truncate w) (fst x) (snd x) = Inr ()" by (auto simp: writer_push_def split: sum.splits)
  have "\<not> sg_sealed sg" if "dw_singles w = Some sg" for sg
    using Cons.prems(1,2) that by (auto simp: writer_inv_def records_ok_def carried_records_def)
  with check have "\<exists>y. dict_push pf fingerprint w (fst x) (snd x) = Inr y"
    by (cases "dw_singles w") (auto simp: dict_push_def split: list.splits)
  then obtain w1 n where push: "dict_push pf fingerprint w (fst x) (snd x) = Inr (w1, n)" by force
  then have call: "make_call pf fingerprint w ?c = Inr w1" by simp
  note frame = make_call_frame [OF call Cons.prems(1)] and inv = writer_inv_push [OF Cons.prems(1) push]
  from dict_push_out(1) [OF push lays] pushed have "tw_last_term w1 = fst x" by (simp add: term_writer.truncate_def)
  moreover have "docs_fit (term_writer.truncate w1) = docs_fit (term_writer.truncate w)"
    using frame by (simp add: fun_eq_iff docs_fit_def term_writer.truncate_def)
  ultimately have "\<exists>w'. make_calls pf fingerprint w1 (map (\<lambda>x. Call_push (fst x) (snd x)) xs) = Inr w' \<and>
      writer_inv pf fingerprint w' ((cs @ [?c]) @ map (\<lambda>x. Call_push (fst x) (snd x)) xs) \<and> (dw_singles w' = None \<longleftrightarrow> dw_singles w1 = None) \<and>
      tw_first w' = tw_first w1 \<and> tw_last w' = tw_last w1"
    using inv Cons.prems(2,3,5) by (intro Cons.IH) auto
  moreover have "dw_singles w1 = None \<longleftrightarrow> dw_singles w = None"
    using run_keeps_codec [OF inv] run_keeps_codec [OF Cons.prems(1)] frame by auto
  ultimately show ?case using call frame by simp
qed simp

lemma relative_less:
  assumes "(fp', d') < (fp, d)" "first_doc \<le> d'" "first_doc \<le> d" "d' \<le> last_doc" "d \<le> last_doc" "last_doc < 2 ^ 32"
  shows "(fp' :: u32, of_nat (d' - first_doc) :: u32) < (fp, of_nat (d - first_doc))"
  using assms record_doc(1) [of first_doc d last_doc] record_doc(1) [of first_doc d' last_doc]
  by (auto simp: less_prod_def word_less_nat_alt simp del: of_nat_diff)

lemma make_calls_records:
  assumes "writer_inv pf fingerprint w cs" "dw_singles w \<noteq> None" "sorted_wrt (<) (call_records cs @ xs)"
    "\<forall>x\<in>set xs. tw_first w \<le> snd x \<and> snd x \<le> tw_last w" "tw_last w < 2 ^ 32"
  shows "\<exists>w'. make_calls pf fingerprint w (map (\<lambda>x. Call_record (fst x) (snd x)) xs) = Inr w'"
  using assms
proof (induction xs arbitrary: w cs)
  case (Cons x xs)
  let ?c = "Call_record (fst x) (snd x)"
  let ?r = "(fst x, of_nat (snd x - tw_first w)) :: fp_record"
  from Cons.prems(2) obtain sg where sg: "dw_singles w = Some sg" by blast
  have ok: "records_ok sg (demoted fingerprint w) (carried_records w cs)" using Cons.prems(1) sg by (simp add: writer_inv_def)
  have range: "\<forall>(fp, doc)\<in>set (call_records cs). tw_first w \<le> doc \<and> doc \<le> tw_last w" using Cons.prems(1) by (simp add: writer_inv_def)
  have "last (carried_records w cs) < ?r" if "carried_records w cs \<noteq> []"
  proof -
    have ne: "call_records cs \<noteq> []" using that by (auto simp: carried_records_def)
    obtain fp d where y: "last (call_records cs) = (fp, d)" by fastforce
    have mem: "(fp, d) \<in> set (call_records cs)" using last_in_set [OF ne] by (simp add: y)
    have "(fp, d) < (fst x, snd x)" using Cons.prems(3) mem by (auto simp: sorted_wrt_append)
    moreover have "tw_first w \<le> d" "d \<le> tw_last w" using range mem by auto
    ultimately have "(fp, of_nat (d - tw_first w)) < ?r" using Cons.prems(4,5) by (intro relative_less) auto
    then show ?thesis using ne y by (simp add: carried_records_def last_map del: of_nat_diff)
  qed
  then have "\<not> (case sg_carried sg of None \<Rightarrow> False | Some carried \<Rightarrow> ?r \<le> carried)"
    using ok by (auto simp: records_ok_def)
  with sg Cons.prems(4) have "\<exists>w1. push_record w (fst x) (snd x) = Inr w1"
    by (simp add: push_record_def Let_def del: of_nat_diff)
  then obtain w1 where push: "push_record w (fst x) (snd x) = Inr w1" ..
  then have call: "make_call pf fingerprint w ?c = Inr w1" by simp
  note frame = make_call_frame [OF call Cons.prems(1)] and inv = writer_inv_record [OF Cons.prems(1) push]
  have "dw_singles w1 \<noteq> None" using run_keeps_codec [OF inv] run_keeps_codec [OF Cons.prems(1)] frame Cons.prems(2) by simp
  with inv frame Cons.prems have "\<exists>w'. make_calls pf fingerprint w1 (map (\<lambda>x. Call_record (fst x) (snd x)) xs) = Inr w'"
    by (intro Cons.IH) auto
  with call show ?case by simp
qed simp

section \<open>What the inputs hold\<close>

definition wn_terms :: "written \<Rightarrow> stream" where
  "wn_terms wn = dictionary_terms (wn_codec wn) (wn_accepted wn)"

definition wn_records :: "(bytes \<Rightarrow> u32) \<Rightarrow> written \<Rightarrow> (u32 \<times> nat) set" where
  "wn_records fingerprint wn =
     (if wn_codec wn = fingerprint_codec
      then {(fingerprint t, d) | t d. (t, [d]) \<in> set (call_terms (wn_accepted wn))} \<union> set (call_records (wn_accepted wn)) else {})"

lemma docs_of_terms:
  assumes "written_by checksum pf fingerprint self wn"
  shows "docs_of (wn_terms wn) t = kept_docs wn t"
proof -
  from assms obtain version w0 calls w where
    build: "writer_build (wn_first wn) (wn_last wn) version (wn_codec wn) = Inr w0" "run_calls pf fingerprint w0 calls = (w, wn_accepted wn)"
    unfolding written_by_def by blast
  have "map_of (wn_terms wn) t = (case map_of (call_terms (wn_accepted wn)) t of None \<Rightarrow> None
      | Some docs \<Rightarrow> if wn_codec wn = fingerprint_codec \<and> length docs = 1 then None else Some docs)"
    unfolding wn_terms_def run_dictionary [OF build, symmetric] by (rule run_entries [OF build])
  then show ?thesis by (auto simp: docs_of_def kept_docs_def split: option.splits)
qed

lemma wn_terms_ok:
  assumes "written_by checksum pf fingerprint self wn"
  shows "sorted_stream (wn_terms wn)"
    "x \<in> set (wn_terms wn) \<Longrightarrow> sorted_wrt (<) (snd x) \<and> (\<forall>d\<in>set (snd x). wn_first wn \<le> d \<and> d \<le> wn_last wn) \<and> length (fst x) < 2 ^ 64"
    "(fp, d) \<in> wn_records fingerprint wn \<Longrightarrow> wn_first wn \<le> d \<and> d \<le> wn_last wn"
proof -
  from assms obtain version w0 calls w where
    build: "writer_build (wn_first wn) (wn_last wn) version (wn_codec wn) = Inr w0" "run_calls pf fingerprint w0 calls = (w, wn_accepted wn)"
    and fits: "wn_last wn < 2 ^ 32" "\<forall>(t, docs)\<in>set (call_terms (wn_accepted wn)). length t < 2 ^ 64 \<and> length docs < 2 ^ 32"
    unfolding written_by_def by blast
  note run = built_run [OF build]
  have "entries_fit (wn_first wn) (wn_last wn) (wn_terms wn)"
    using dict_entries_fit [OF run(1)] fits unfolding run(2,3) run_dictionary [OF build] wn_terms_def by auto
  then show "sorted_stream (wn_terms wn)"
    "x \<in> set (wn_terms wn) \<Longrightarrow> sorted_wrt (<) (snd x) \<and> (\<forall>d\<in>set (snd x). wn_first wn \<le> d \<and> d \<le> wn_last wn) \<and> length (fst x) < 2 ^ 64"
    by (auto simp: entries_fit_def fits_entry_def)
  show "(fp, d) \<in> wn_records fingerprint wn \<Longrightarrow> wn_first wn \<le> d \<and> d \<le> wn_last wn"
    using call_docs_range [OF run(1), unfolded run(2,3)] by (auto simp: wn_records_def split: if_splits)
qed

lemma written_streams:
  assumes wn: "written_by checksum pf fingerprint self wn" and pf: "pfor_ok pf" and digest: "digest_ok checksum"
  shows "segment_input checksum pf self = \<lparr>mi_first = wn_first wn, mi_last = wn_last wn, mi_items = map stream_item (wn_terms wn)\<rparr>"
    "\<exists>rs. record_items checksum self segment_records = map Inr rs \<and> sorted_wrt (<) rs \<and>
      (\<lambda>(fp, d). (fp, unat d)) ` set rs = wn_records fingerprint wn"
proof -
  from wn obtain version w0 calls w out z where
    build: "writer_build (wn_first wn) (wn_last wn) version (wn_codec wn) = Inr w0" "run_calls pf fingerprint w0 calls = (w, wn_accepted wn)"
    and fin: "writer_finish checksum w = Some (Inr (out, z))" "length out < 2 ^ 64" "segment_open checksum out = gives self"
    and fits: "wn_last wn < 2 ^ 32" "\<forall>(t, docs)\<in>set (call_terms (wn_accepted wn)). length t < 2 ^ 64 \<and> length docs < 2 ^ 32"
    unfolding written_by_def by blast
  from run_opens [OF build fin(1) digest fits(1) fin(2) fits(2)] fin(3) have
    holds: "segment_holds checksum pf (wn_first wn) (wn_last wn) (dict_entries w) (written_records fingerprint w (wn_accepted wn)) self"
    and fit: "entries_fit (wn_first wn) (wn_last wn) (dict_entries w)" "\<forall>e\<in>set (dict_entries w). length (snd e) < 2 ^ 32" by auto
  note streams = run_streams [OF build fits(1) pf digest holds fit]
  have "unat (in_first (sf_info self)) = wn_first wn" "unat (in_last (sf_info self)) = wn_last wn"
    using holds by (simp_all add: segment_holds_def Let_def)
  with streams(1) show "segment_input checksum pf self = \<lparr>mi_first = wn_first wn, mi_last = wn_last wn, mi_items = map stream_item (wn_terms wn)\<rparr>"
    by (simp add: segment_input_def wn_terms_def)
  show "\<exists>rs. record_items checksum self segment_records = map Inr rs \<and> sorted_wrt (<) rs \<and>
      (\<lambda>(fp, d). (fp, unat d)) ` set rs = wn_records fingerprint wn"
    using streams(2) by (simp add: wn_records_def)
qed

text \<open>Segments with ascending ranges are well-formed inputs.\<close>

lemma ascending_ranges:
  assumes "ascending low wns" "\<forall>wn\<in>set wns. wn_first wn \<le> wn_last wn"
  shows "sorted_wrt (\<lambda>a b. wn_last a < wn_first b) wns" "\<forall>wn\<in>set wns. low \<le> wn_first wn"
  using assms
proof (induction wns arbitrary: low)
  case (Cons wn wns)
  {
    case 1
    then show ?case using Cons.IH [of "wn_last wn + 1"] by (auto simp: Suc_le_eq)
  next
    case 2
    then show ?case using Cons.IH(2) [of "wn_last wn + 1"] by fastforce
  }
qed simp_all

lemma written_inputs:
  assumes "list_all2 (written_by checksum pf fingerprint) segments wns" "ascending low wns" "pfor_ok pf" "digest_ok checksum"
  shows "wf_inputs (map (segment_input checksum pf) segments) (map wn_terms wns)"
    "map mi_first (map (segment_input checksum pf) segments) = map wn_first wns"
    "map mi_last (map (segment_input checksum pf) segments) = map wn_last wns"
proof -
  have each: "segment_input checksum pf (segments ! i) = \<lparr>mi_first = wn_first (wns ! i), mi_last = wn_last (wns ! i), mi_items = map stream_item (wn_terms (wns ! i))\<rparr>"
    "written_by checksum pf fingerprint (segments ! i) (wns ! i)" if "i < length wns" for i
    using assms(1) that written_streams(1) [OF _ assms(3,4)] by (auto simp: list_all2_conv_all_nth)
  have len: "length segments = length wns" using assms(1) by (rule list_all2_lengthD)
  have inputs: "map (segment_input checksum pf) segments =
      map (\<lambda>wn. \<lparr>mi_first = wn_first wn, mi_last = wn_last wn, mi_items = map stream_item (wn_terms wn)\<rparr>) wns"
    using each(1) len by (intro nth_equalityI) simp_all
  show "map mi_first (map (segment_input checksum pf) segments) = map wn_first wns"
    "map mi_last (map (segment_input checksum pf) segments) = map wn_last wns" unfolding inputs by simp_all
  have "\<forall>wn\<in>set wns. wn_first wn \<le> wn_last wn" using written_by_range(1) [OF each(2)] by (metis in_set_conv_nth)
  note ascend = ascending_ranges(1) [OF assms(2) this] and ranges = this
  show "wf_inputs (map (segment_input checksum pf) segments) (map wn_terms wns)"
    unfolding wf_inputs_def inputs
  proof (intro conjI ballI allI impI)
    fix s
    assume "s \<in> set (map wn_terms wns)"
    then obtain i where "i < length wns" "s = wn_terms (wns ! i)" by (auto simp: in_set_conv_nth)
    with wn_terms_ok(1) [OF each(2)] show "sorted_stream s" by simp
  next
    fix i x
    assume "i < length (map wn_terms wns)" "x \<in> set (map wn_terms wns ! i)"
    then have i: "i < length wns" "x \<in> set (wn_terms (wns ! i))" by simp_all
    note x = wn_terms_ok(2) [OF each(2) [OF i(1)] i(2)]
    from x show "sorted_wrt (<) (snd x)" ..
    fix d
    assume "d \<in> set (snd x)"
    with x i(1) show "mi_first (map (\<lambda>wn. \<lparr>mi_first = wn_first wn, mi_last = wn_last wn, mi_items = map stream_item (wn_terms wn)\<rparr>) wns ! i) \<le> d"
      "d \<le> mi_last (map (\<lambda>wn. \<lparr>mi_first = wn_first wn, mi_last = wn_last wn, mi_items = map stream_item (wn_terms wn)\<rparr>) wns ! i)" by simp_all
  qed (use ascend ranges in \<open>simp_all add: sorted_wrt_map\<close>)
qed

section \<open>What a merge writes\<close>

definition merged_records :: "(bytes \<Rightarrow> u32) \<Rightarrow> docset \<Rightarrow> written list \<Rightarrow> (u32 \<times> nat) list" where
  "merged_records fingerprint live wns =
     sorted_list_of_set {r \<in> (\<Union>wn\<in>set wns. wn_records fingerprint wn). snd r \<in> members live}"

definition dead_records :: "(bytes \<Rightarrow> u32) \<Rightarrow> docset \<Rightarrow> written list \<Rightarrow> nat" where
  "dead_records fingerprint live wns = (\<Sum>wn\<leftarrow>wns. card {r \<in> wn_records fingerprint wn. snd r \<notin> members live})"

text \<open>The calls of a writer in memory that is pushed what survives of the inputs.\<close>

definition merged_calls :: "(bytes \<Rightarrow> u32) \<Rightarrow> docset \<Rightarrow> written list \<Rightarrow> writer_call list" where
  "merged_calls fingerprint live wns =
     map (\<lambda>x. Call_push (fst x) (snd x)) (merged (live_docs live) (map wn_terms wns)) @
     map (\<lambda>x. Call_record (fst x) (snd x)) (merged_records fingerprint live wns)"

abbreviation record_docs :: "(u32 \<times> u32) set \<Rightarrow> (u32 \<times> nat) set" where
  "record_docs rs \<equiv> (\<lambda>(fp, d). (fp, unat d)) ` rs"

lemma live_record_members: "wf_docset live \<Longrightarrow> live_record live r \<longleftrightarrow> unat (snd r) \<in> members live"
  by (simp add: live_record_def docset_contains_members)

lemma due_records:
  assumes rss: "list_all2 (\<lambda>rs wn. sorted_wrt (<) rs \<and> record_docs (set rs) = wn_records fingerprint wn) rss wns" and live: "wf_docset live"
  shows "map (\<lambda>r. (fst r, unat (snd r))) (records_due live None rss) = merged_records fingerprint live wns"
    "dead_count live rss = dead_records fingerprint live wns"
proof -
  let ?f = "\<lambda>r :: u32 \<times> u32. (fst r, unat (snd r))"
  have f: "record_docs A = ?f ` A" for A by (simp add: split_beta)
  have inj: "inj ?f" by (auto simp: inj_def prod_eq_iff word_unat_eq_iff)
  have mono: "?f r < ?f r'" if "r < r'" for r r' using that by (auto simp: less_prod_def word_less_nat_alt)
  have all: "?f ` all_records rss = (\<Union>wn\<in>set wns. wn_records fingerprint wn)"
    using rss unfolding all_records_def f by (induction rule: list_all2_induct) (auto simp: image_Un)
  have "sorted_wrt (<) (map ?f (records_due live None rss))"
    unfolding sorted_wrt_map by (rule sorted_wrt_mono_rel [of _ "(<)"], rule mono, assumption, simp add: records_due_def)
  moreover have "set (map ?f (records_due live None rss)) = set (merged_records fingerprint live wns)"
  proof -
    have "finite {r \<in> (\<Union>wn\<in>set wns. wn_records fingerprint wn). snd r \<in> members live}" unfolding all [symmetric] by simp
    moreover have "?f ` {r \<in> all_records rss. live_record live r} = {r \<in> ?f ` all_records rss. snd r \<in> members live}"
      by (auto simp: live_record_members [OF live])
    ultimately show ?thesis by (simp add: records_due_def merged_records_def all)
  qed
  moreover have "sorted_wrt (<) (merged_records fingerprint live wns)" by (simp add: merged_records_def)
  ultimately show "map ?f (records_due live None rss) = merged_records fingerprint live wns"
    by (intro sorted_distinct_set_unique) (simp_all add: strict_sorted_iff)
  have "length (filter (\<lambda>r. \<not> live_record live r) rs) = card {r \<in> wn_records fingerprint wn. snd r \<notin> members live}"
    if "sorted_wrt (<) rs" "record_docs (set rs) = wn_records fingerprint wn" for rs wn
  proof -
    have "length (filter (\<lambda>r. \<not> live_record live r) rs) = card {r \<in> set rs. \<not> live_record live r}"
      using that(1) distinct_card [of "filter (\<lambda>r. \<not> live_record live r) rs"] by (simp add: strict_sorted_iff)
    also have "\<dots> = card (?f ` {r \<in> set rs. \<not> live_record live r})" by (rule card_image [symmetric]) (rule inj_on_subset [OF inj], simp)
    also have "?f ` {r \<in> set rs. \<not> live_record live r} = {r \<in> record_docs (set rs). snd r \<notin> members live}"
      unfolding f by (auto simp: live_record_members [OF live])
    finally show ?thesis by (simp add: that(2))
  qed
  with rss show "dead_count live rss = dead_records fingerprint live wns"
    unfolding dead_count_def dead_records_def by (induction rule: list_all2_induct) auto
qed

lemma written_records_streams:
  assumes "list_all2 (written_by checksum pf fingerprint) segments wns" "pfor_ok pf" "digest_ok checksum"
  obtains rss where "map (\<lambda>self. record_items checksum self segment_records) segments = map (map Inr) rss"
    "list_all2 (\<lambda>rs wn. sorted_wrt (<) rs \<and> record_docs (set rs) = wn_records fingerprint wn) rss wns"
proof -
  from assms(1) have "\<exists>rss. map (\<lambda>self. record_items checksum self segment_records) segments = map (map Inr) rss \<and>
    list_all2 (\<lambda>rs wn. sorted_wrt (<) rs \<and> record_docs (set rs) = wn_records fingerprint wn) rss wns"
  proof (induction rule: list_all2_induct)
    case (Cons self segments wn wns)
    then obtain rss where "map (\<lambda>self. record_items checksum self segment_records) segments = map (map Inr) rss"
      "list_all2 (\<lambda>rs wn. sorted_wrt (<) rs \<and> record_docs (set rs) = wn_records fingerprint wn) rss wns" by blast
    moreover obtain rs where "record_items checksum self segment_records = map Inr rs" "sorted_wrt (<) rs" "record_docs (set rs) = wn_records fingerprint wn"
      using written_streams(2) [OF Cons.hyps(1) assms(2,3)] by blast
    ultimately show ?case by (intro exI [of _ "rs # rss"]) simp
  qed simp
  with that show ?thesis by blast
qed

text \<open>A writer whose range covers the inputs, of their codec, accepts all of them.\<close>

lemma merged_calls_accepted:
  assumes wns: "list_all2 (written_by checksum pf fingerprint) segments wns" "ascending first_doc wns" "wns \<noteq> []"
    and codec: "\<forall>wn\<in>set wns. wn_codec wn = codec_id \<and> wn_last wn \<le> last_doc" and pf: "pfor_ok pf" "digest_ok checksum"
    and build: "writer_build first_doc last_doc version codec_id = Inr w0" and last_doc: "last_doc < 2 ^ 32"
  obtains v where "make_calls pf fingerprint w0 (merged_calls fingerprint live wns) = Inr v"
proof -
  let ?inputs = "map (segment_input checksum pf) segments" and ?ss = "map wn_terms wns"
  let ?xs = "merged (live_docs live) ?ss" and ?rs = "merged_records fingerprint live wns"
  note inputs = written_inputs [OF wns(1,2) pf]
  have each: "\<exists>self. written_by checksum pf fingerprint self wn" if "wn \<in> set wns" for wn
    using that wns(1) by (metis in_set_conv_nth list_all2_conv_all_nth)
  then have firsts: "\<forall>wn\<in>set wns. first_doc \<le> wn_first wn" using ascending_ranges(2) [OF wns(2)] written_by_range(1) by blast
  note inv = writer_inv_build [OF build, of pf fingerprint]
  have w0: "tw_first w0 = first_doc" "tw_last w0 = last_doc" "dw_singles w0 = None \<longleftrightarrow> codec_id \<noteq> fingerprint_codec" "tw_pushed w0 = 0"
    using build by (auto simp: writer_build_def split: if_splits)
  have ne: "segments \<noteq> []" using wns(1,3) by auto
  have "mi_first (hd ?inputs) = wn_first (hd wns)" "mi_last (last ?inputs) = wn_last (last wns)"
    using inputs(2,3) ne wns(3) by (metis hd_map last_map Nil_is_map_conv)+
  with firsts codec wns(3) w0 have cover: "tw_first (term_writer.truncate w0) \<le> mi_first (hd ?inputs)"
    "mi_last (last ?inputs) \<le> tw_last (term_writer.truncate w0)" by (simp_all add: term_writer.truncate_def)
  have fits: "\<forall>x\<in>set ?xs. snd x \<noteq> [] \<and> docs_fit (term_writer.truncate w0) (snd x)"
    using merged_fits [OF inputs(1) _ cover] ne merged_terms(2) by blast
  from make_calls_terms [OF inv _ merged_terms(1) _ fits] w0(4) obtain v1 where
    v1: "make_calls pf fingerprint w0 (map (\<lambda>x. Call_push (fst x) (snd x)) ?xs) = Inr v1"
      "writer_inv pf fingerprint v1 (map (\<lambda>x. Call_push (fst x) (snd x)) ?xs)" "dw_singles v1 = None \<longleftrightarrow> dw_singles w0 = None"
      "tw_first v1 = first_doc" "tw_last v1 = last_doc" unfolding w0(1,2) by auto
  have "\<exists>v. make_calls pf fingerprint v1 (map (\<lambda>x. Call_record (fst x) (snd x)) ?rs) = Inr v"
  proof (cases "codec_id = fingerprint_codec")
    case True
    have range: "first_doc \<le> d \<and> d \<le> last_doc" if mem: "(fp, d) \<in> wn_records fingerprint wn" and wn: "wn \<in> set wns" for wn fp d
    proof -
      from each [OF wn] obtain self where "written_by checksum pf fingerprint self wn" ..
      from wn_terms_ok(3) [OF this mem] firsts codec wn show ?thesis by fastforce
    qed
    have "\<forall>x\<in>set ?rs. tw_first v1 \<le> snd x \<and> snd x \<le> tw_last v1"
    proof -
      have "set ?rs \<subseteq> {r \<in> (\<Union>wn\<in>set wns. wn_records fingerprint wn). snd r \<in> members live}"
        unfolding merged_records_def by (cases "finite {r \<in> (\<Union>wn\<in>set wns. wn_records fingerprint wn). snd r \<in> members live}") simp_all
      with range show ?thesis unfolding v1(4,5) by fastforce
    qed
    moreover have "call_records (map (\<lambda>x. Call_push (fst x) (snd x)) ?xs) = []" by (simp add: call_records_def map_filter_def)
    moreover have "sorted_wrt (<) ?rs" by (simp add: merged_records_def)
    ultimately show ?thesis using v1(3,5) w0(3) True last_doc by (intro make_calls_records [OF v1(2)]) simp_all
  next
    case False
    then have "?rs = []" using codec by (simp add: merged_records_def wn_records_def)
    then show ?thesis by simp
  qed
  then show ?thesis using that v1(1) by (auto simp: merged_calls_def make_calls_append)
qed

lemma merge_stream_calls:
  assumes wns: "list_all2 (written_by checksum pf fingerprint) segments wns" "ascending first_doc wns" "wns \<noteq> []"
    and pf: "pfor_ok pf" "digest_ok checksum" and live: "wf_docset live"
    and build: "writer_build first_doc last_doc version codec_id = Inr w0"
    and calls: "make_calls pf fingerprint w0 (merged_calls fingerprint live wns) = Inr v"
  shows "merge_stream pf fingerprint checksum pace segments live (\<lambda>_. False) (\<lambda>_. False) (spilling_from w0) =
      (case writer_finish checksum v of
         None \<Rightarrow> Inl MergePanic
       | Some (Inl _) \<Rightarrow> Inl MergeIo
       | Some (Inr (file, z)) \<Rightarrow>
           Inr (file, z\<lparr>sz_records_added := sz_records z - length (merged_records fingerprint live wns),
                        sz_records_removed := dead_records fingerprint live wns\<rparr>)) \<or>
    merge_stream pf fingerprint checksum pace segments live (\<lambda>_. False) (\<lambda>_. False) (spilling_from w0) = Inl MergeIo \<and>
      \<not> (\<forall>k n. pace k n)"
proof -
  let ?terms = "\<lambda>s t docs. call_and_spill pf fingerprint checksum pace (Call_push t docs) s :: read_error option merge_error + _"
    and ?records = "\<lambda>s fp doc. call_and_spill pf fingerprint checksum pace (Call_record fp (unat doc)) s :: read_error option merge_error + _"
  let ?xs = "merged (live_docs live) (map wn_terms wns)"
  have ne: "map (segment_input checksum pf) segments \<noteq> []" using wns(1,3) by auto
  obtain rss where rss: "map (\<lambda>self. record_items checksum self segment_records) segments = map (map Inr) rss"
    "list_all2 (\<lambda>rs wn. sorted_wrt (<) rs \<and> record_docs (set rs) = wn_records fingerprint wn) rss wns"
    by (rule written_records_streams [OF wns(1) pf])
  have sorted: "\<forall>rs\<in>set rss. sorted_wrt (<) rs" using rss(2) by (auto simp: list_all2_conv_all_nth in_set_conv_nth)
  note due = due_records [OF rss(2) live]
  define ds where "ds = records_due live None rss"
  have records: "map (\<lambda>x. Call_record (fst x) (unat (snd x))) ds = map (\<lambda>x. Call_record (fst x) (snd x)) (merged_records fingerprint live wns)"
    "length ds = length (merged_records fingerprint live wns)"
    unfolding due(1) [symmetric] ds_def by simp_all
  from calls obtain v1 where v1: "make_calls pf fingerprint w0 (map (\<lambda>x. Call_push (fst x) (snd x)) ?xs) = Inr v1"
    "make_calls pf fingerprint v1 (map (\<lambda>x. Call_record (fst x) (unat (snd x))) ds) = Inr v"
    unfolding merged_calls_def records(1) make_calls_append by (auto split: sum.splits)
  have terms: "merge_terms (map (segment_input checksum pf) segments) live (\<lambda>_. False) ?terms (spilling_from w0, 0) = put_all ?terms (spilling_from w0, 0) ?xs"
    by (rule merge_terms_puts [OF written_inputs(1) [OF wns(1,2) pf] live ne])
  have merge: "merge_records (map (\<lambda>self. record_items checksum self segment_records) segments) live (\<lambda>_. False) ?records s =
      (case put_all ?records s ds of Inl e \<Rightarrow> Inl e
       | Inr w \<Rightarrow> Inr (length (merged_records fingerprint live wns), dead_records fingerprint live wns, w))" for s
    using merge_records_puts [OF sorted, of "\<lambda>_. False" live ?records s] unfolding rss(1) ds_def [symmetric] records(2) due(2) by simp
  from put_all_spilled [where c = Call_push and pace = pace and k = 0 and 'e = "read_error option",
      OF spilled_start [OF build, of checksum] v1(1)] show ?thesis
  proof (elim disjE exE conjE)
    assume "put_all ?terms (spilling_from w0, 0) ?xs = Inl MergeIo" "\<not> (\<forall>k n. pace k n)"
    then show ?thesis by (simp add: merge_stream_def terms)
  next
    fix w1 k1
    assume one: "put_all ?terms (spilling_from w0, 0) ?xs = Inr (w1, k1)" "spilled checksum w1 v1"
    have whole: "merge_stream pf fingerprint checksum pace segments live (\<lambda>_. False) (\<lambda>_. False) (spilling_from w0) =
        (case put_all ?records (w1, k1) ds of Inl e \<Rightarrow> Inl e
         | Inr (w, k) \<Rightarrow>
             (case finish_spilled checksum pace w k of None \<Rightarrow> Inl MergePanic | Some (Inl _) \<Rightarrow> Inl MergeIo
              | Some (Inr (file, z)) \<Rightarrow>
                  Inr (file, z\<lparr>sz_records_added := sz_records z - length (merged_records fingerprint live wns),
                               sz_records_removed := dead_records fingerprint live wns\<rparr>)))"
      unfolding merge_stream_def terms one(1) sum.case merge by (simp split: sum.splits)
    from put_all_spilled [where c = "\<lambda>fp doc. Call_record fp (unat doc)" and pace = pace and k = k1 and 'e = "read_error option",
        OF one(2) v1(2)] show ?thesis
    proof (elim disjE exE conjE)
      assume "put_all ?records (w1, k1) ds = Inl MergeIo" "\<not> (\<forall>k n. pace k n)"
      then show ?thesis by (simp add: whole)
    next
      fix w2 k2
      assume "put_all ?records (w1, k1) ds = Inr (w2, k2)" and two: "spilled checksum w2 v"
      with whole finish_spilled_ok [OF two pf(2), of pace k2] show ?thesis by auto
    qed
  qed
qed

section \<open>What a merged segment holds\<close>

text \<open>The live documents that the dictionaries of the inputs hold for a term, in order.\<close>

definition surviving :: "docset \<Rightarrow> written list \<Rightarrow> bytes \<Rightarrow> nat list" where
  "surviving live wns t = concat (map (\<lambda>wn. filter (\<lambda>d. d \<in> members live) (kept_docs wn t)) wns)"

lemma map_of_filtered_terms:
  "map_of (filter (\<lambda>x. snd x \<noteq> []) (map (\<lambda>t. (t, f t)) ts)) t = (if t \<in> set ts \<and> f t \<noteq> [] then Some (f t) else None)"
  by (induction ts) auto

lemma merged_calls_kinds:
  "call_terms (merged_calls fingerprint live wns) = merged (live_docs live) (map wn_terms wns)"
  "call_records (merged_calls fingerprint live wns) = merged_records fingerprint live wns"
  by (induction "merged_records fingerprint live wns") (simp_all add: merged_calls_def call_terms_def call_records_def map_filter_def o_def)

lemma merged_lookup:
  assumes "list_all2 (written_by checksum pf fingerprint) segments wns"
  shows "map_of (merged (live_docs live) (map wn_terms wns)) t = (if surviving live wns t = [] then None else Some (surviving live wns t))"
proof -
  have each: "docs_of (wn_terms (wns ! i)) t = kept_docs (wns ! i) t" if "i < length wns" for i
    using that assms docs_of_terms by (auto simp: list_all2_conv_all_nth)
  have "term_docs (live_docs live) (map wn_terms wns) t = concat (map (\<lambda>i. filter (\<lambda>d. d \<in> members live) (kept_docs (wns ! i) t)) [0..<length wns])"
    unfolding term_docs_def by (intro arg_cong [where f = concat] map_cong) (auto simp: each)
  also have "\<dots> = surviving live wns t"
    unfolding surviving_def by (intro arg_cong [where f = concat] nth_equalityI) simp_all
  finally have docs: "term_docs (live_docs live) (map wn_terms wns) t = surviving live wns t" .
  moreover have "t \<in> all_terms (map wn_terms wns)" if ne: "surviving live wns t \<noteq> []"
  proof -
    from ne obtain wn where wn: "wn \<in> set wns" "kept_docs wn t \<noteq> []" by (auto simp: surviving_def) (metis filter.simps(1))
    then obtain i where i: "i < length wns" "wn = wns ! i" by (auto simp: in_set_conv_nth)
    with wn(2) each docs_of_member [of "wn_terms wn" t] have "(t, kept_docs wn t) \<in> set (wn_terms wn)" by auto
    with wn(1) show ?thesis unfolding all_terms_def by force
  qed
  ultimately show ?thesis unfolding merged_def map_of_filtered_terms by auto
qed

lemma finite_wn_records: "finite (wn_records fingerprint wn)"
proof -
  have "{(fingerprint t, d) | t d. (t, [d]) \<in> set (call_terms (wn_accepted wn))} \<subseteq>
      (\<lambda>(t, ds). (fingerprint t, hd ds)) ` set (call_terms (wn_accepted wn))" by force
  then show ?thesis unfolding wn_records_def using finite_subset by fastforce
qed

lemma merged_records_docs:
  "{d. (fingerprint t, d) \<in> set (merged_records fingerprint live wns)} = members live \<inter> all_maybe fingerprint wns t"
proof -
  have "maybe_docs fingerprint wn t = {d. (fingerprint t, d) \<in> wn_records fingerprint wn}" for wn
    by (auto simp: maybe_docs_def wn_records_def; metis)
  then show ?thesis by (auto simp: merged_records_def all_maybe_def finite_wn_records)
qed

lemma surviving_fits:
  assumes "list_all2 (written_by checksum pf fingerprint) segments wns" "ascending first_doc wns" "wns \<noteq> []" "pfor_ok pf" "digest_ok checksum"
    and "\<forall>wn\<in>set wns. wn_last wn \<le> last_doc" "last_doc + 1 < 2 ^ 32"
    and x: "x \<in> set (merged (live_docs live) (map wn_terms wns))"
  shows "length (fst x) < 2 ^ 64" "length (snd x) < 2 ^ 32"
proof -
  let ?inputs = "map (segment_input checksum pf) segments"
  note inputs = written_inputs [OF assms(1,2,4,5)]
  have ne: "?inputs \<noteq> []" using assms(1,3) by auto
  have "mi_last (last ?inputs) = wn_last (last wns)" using inputs(3) ne assms(3) by (metis last_map Nil_is_map_conv)
  then have top: "mi_last (last ?inputs) \<le> last_doc" using assms(3,6) by simp
  define w where "w = \<lparr>tw_first = 0, tw_last = last_doc, tw_pushed = 0, tw_last_term = [], tw_out = []\<rparr>"
  have "docs_fit w (snd x)" by (rule merged_fits [OF inputs(1) ne _ _ x]) (use top in \<open>simp_all add: w_def\<close>)
  then have "length (snd x) \<le> last_doc - 0 + 1" by (intro docs_count) (simp_all add: docs_fit_def w_def)
  then show "length (snd x) < 2 ^ 32" using assms(7) by simp
  from x obtain wn y where "wn \<in> set wns" "y \<in> set (wn_terms wn)" "fst x = fst y" by (auto simp: merged_def all_terms_def)
  moreover from this(1) obtain self where "written_by checksum pf fingerprint self wn"
    using assms(1) by (metis in_set_conv_nth list_all2_conv_all_nth)
  ultimately show "length (fst x) < 2 ^ 64" using wn_terms_ok(2) by metis
qed

section \<open>Properties\<close>

text \<open>
  C5: The whole merge, from the bytes of its inputs to the bytes of its output. Merging segments that writers produced, with ascending ranges, into
  a spilling writer of the same codec whose range covers them, never breaks a contract: a writer in memory accepts the
  live terms of the inputs in order, each with its live documents, and then their live records, and the merge writes the file that this writer
  would finish, byte by byte, with the same sizes and the right counts of records added and removed. It fails only where that writer does, for a
  fingerprint section too long, or when \<open>pace\<close> refuses.
\<close>

theorem merge_writes_what_survives:
  assumes "list_all2 (written_by checksum pf fingerprint) segments wns" "ascending first_doc wns" "wns \<noteq> []"
    and "\<forall>wn\<in>set wns. wn_codec wn = codec_id \<and> wn_last wn \<le> last_doc"
    and "pfor_ok pf" "digest_ok checksum" "wf_docset live" "last_doc < 2 ^ 32"
    and "writer_build first_doc last_doc version codec_id = Inr w0"
  shows "\<exists>v. make_calls pf fingerprint w0 (merged_calls fingerprint live wns) = Inr v \<and>
    (merge_stream pf fingerprint checksum pace segments live (\<lambda>_. False) (\<lambda>_. False) (spilling_from w0) =
       (case writer_finish checksum v of
          None \<Rightarrow> Inl MergePanic
        | Some (Inl _) \<Rightarrow> Inl MergeIo
        | Some (Inr (file, z)) \<Rightarrow>
            Inr (file, z\<lparr>sz_records_added := sz_records z - length (merged_records fingerprint live wns),
                         sz_records_removed := dead_records fingerprint live wns\<rparr>)) \<or>
     merge_stream pf fingerprint checksum pace segments live (\<lambda>_. False) (\<lambda>_. False) (spilling_from w0) = Inl MergeIo \<and>
       \<not> (\<forall>k n. pace k n))"
proof -
  obtain v where v: "make_calls pf fingerprint w0 (merged_calls fingerprint live wns) = Inr v"
    by (rule merged_calls_accepted [OF assms(1-6,9,8)])
  with merge_stream_calls [OF assms(1-3,5-7,9) v, of pace] show ?thesis by blast
qed

text \<open>
  C6: A merge keeps exactly the live documents. When the merge of written segments returns, the file opens as a segment, and looking any term
  up in it gives the live documents its inputs held for the term, in order, and no others; a term left with one document moves to the
  fingerprint records with that codec. The records found for a term are the live ones of the inputs and those moved there.
\<close>

theorem merge_keeps_the_live_documents:
  assumes "list_all2 (written_by checksum pf fingerprint) segments wns" "ascending first_doc wns" "wns \<noteq> []"
    and "\<forall>wn\<in>set wns. wn_codec wn = codec_id \<and> wn_last wn \<le> last_doc"
    and "pfor_ok pf" "digest_ok checksum" "wf_docset live" "last_doc + 1 < 2 ^ 32"
    and "writer_build first_doc last_doc version codec_id = Inr w0"
    and "merge_stream pf fingerprint checksum pace segments live (\<lambda>_. False) (\<lambda>_. False) (spilling_from w0) = Inr (file, z)" "length file < 2 ^ 64"
  shows "\<exists>self. segment_open checksum file = Some (Inr self) \<and>
    (\<forall>t. (if surviving live wns t = [] \<or> codec_id = fingerprint_codec \<and> length (surviving live wns t) = 1
           then segment_lookup checksum pf self t = Some (Inr None)
           else \<exists>hit. segment_lookup checksum pf self t = Some (Inr (Some hit)) \<and> hit_docs pf hit = surviving live wns t) \<and>
         (\<exists>ds. segment_fingerprint_docs checksum fingerprint self t (\<lambda>_. False) = Inr ds \<and> sorted_wrt (<) ds \<and>
            unat ` set ds = (if codec_id = fingerprint_codec then
              {d. \<exists>t'. surviving live wns t' = [d] \<and> fingerprint t' = fingerprint t} \<union> members live \<inter> all_maybe fingerprint wns t else {})))"
proof -
  let ?calls = "merged_calls fingerprint live wns"
  have last_doc: "last_doc < 2 ^ 32" using assms(8) by simp
  obtain v where v: "make_calls pf fingerprint w0 ?calls = Inr v" by (rule merged_calls_accepted [OF assms(1-6,9) last_doc])
  note run = make_calls_run [OF v]
  from merge_stream_calls [OF assms(1-3,5-7,9) v, of pace] assms(10) obtain z' where fin: "writer_finish checksum v = Some (Inr (file, z'))"
    by (auto split: option.splits sum.splits)
  have last_docs: "\<forall>wn\<in>set wns. wn_last wn \<le> last_doc" using assms(4) by blast
  have fits: "\<forall>(t, docs)\<in>set (call_terms ?calls). length t < 2 ^ 64 \<and> length docs < 2 ^ 32"
    using surviving_fits [OF assms(1-3,5,6) last_docs assms(8)] unfolding merged_calls_kinds by fastforce
  from run_opens [OF assms(9) run fin assms(6) last_doc assms(11) fits] obtain self where self: "segment_open checksum file = gives self"
    "segment_holds checksum pf first_doc last_doc (dict_entries v) (written_records fingerprint v ?calls) self"
    "entries_fit first_doc last_doc (dict_entries v)" "\<forall>e\<in>set (dict_entries v). length (snd e) < 2 ^ 32" .
  note found = merged_lookup [OF assms(1), of live]
  have single: "(t, [d]) \<in> set (call_terms ?calls) \<longleftrightarrow> surviving live wns t = [d]" for t d
  proof -
    have "distinct (map fst (call_terms ?calls))" using merged_terms(1) unfolding merged_calls_kinds by (simp add: strict_sorted_iff)
    then have "(t, [d]) \<in> set (call_terms ?calls) \<longleftrightarrow> map_of (call_terms ?calls) t = Some [d]" by (simp add: map_of_eq_Some_iff)
    then show ?thesis unfolding merged_calls_kinds found by auto
  qed
  have "(if surviving live wns t = [] \<or> codec_id = fingerprint_codec \<and> length (surviving live wns t) = 1
           then segment_lookup checksum pf self t = Some (Inr None)
           else \<exists>hit. segment_lookup checksum pf self t = Some (Inr (Some hit)) \<and> hit_docs pf hit = surviving live wns t)" for t
    using segment_lookup_ok [OF assms(5) self(2,3) assms(6) self(4), of t] run_entries [OF assms(9) run, of t]
    unfolding merged_calls_kinds found by (auto split: if_splits)
  moreover have "\<exists>ds. segment_fingerprint_docs checksum fingerprint self t (\<lambda>_. False) = Inr ds \<and> sorted_wrt (<) ds \<and>
      unat ` set ds = (if codec_id = fingerprint_codec then
        {d. \<exists>t'. surviving live wns t' = [d] \<and> fingerprint t' = fingerprint t} \<union> members live \<inter> all_maybe fingerprint wns t else {})" for t
    by (rule run_records [OF assms(9) run self(2) assms(6) last_doc, of t])
       (auto simp only: single [unfolded merged_calls_kinds] merged_calls_kinds merged_records_docs)
  ultimately show ?thesis using self(1) by blast
qed

section \<open>A merge on a concrete segment\<close>

definition sample_live :: docset where
  "sample_live = docset_new 21 [11, 12, 15]"

lemma sample_live_ok: "wf_docset sample_live" "members sample_live = {11, 12, 15}"
  by (auto simp: sample_live_def docset_new_members)

lemma sample_survives:
  "merged_records plain_fingerprint sample_live [sample_written] = [(1, 12)]" "dead_records plain_fingerprint sample_live [sample_written] = 1"
  "merged_calls plain_fingerprint sample_live [sample_written] = [Call_push [97, 98] [11, 15], Call_record 1 12]"
  "surviving sample_live [sample_written] [97, 98] = [11, 15]"
proof -
  have records: "wn_records plain_fingerprint sample_written = {(1, 12), (1, 14)}"
    by (auto simp: wn_records_def sample_written_def sample_accepted_calls plain_fingerprint_def)
  have "{r \<in> (\<Union>wn\<in>set [sample_written]. wn_records plain_fingerprint wn). snd r \<in> members sample_live} = {(1, 12)}"
    by (auto simp: records sample_live_ok)
  then show merged: "merged_records plain_fingerprint sample_live [sample_written] = [(1, 12)]" by (simp add: merged_records_def)
  have "{r \<in> wn_records plain_fingerprint sample_written. snd r \<notin> members sample_live} = {(1, 14)}" by (auto simp: records sample_live_ok)
  then show "dead_records plain_fingerprint sample_live [sample_written] = 1" by (simp add: dead_records_def)
  have terms: "wn_terms sample_written = [([97, 98], [11, 15])]"
    by (simp add: wn_terms_def dictionary_terms_def sample_written_def sample_accepted_calls)
  then show "merged_calls plain_fingerprint sample_live [sample_written] = [Call_push [97, 98] [11, 15], Call_record 1 12]"
    unfolding merged_calls_def merged by (simp add: merged_def all_terms_def term_docs_def docs_of_def sample_live_ok)
  show "surviving sample_live [sample_written] [97, 98] = [11, 15]" by (simp add: surviving_def sample_written_docs sample_live_ok)
qed

lemma sample_merge_sections:
  "(case make_calls plain_pfor plain_fingerprint (projr (writer_build 10 20 2 2)) [Call_push [97, 98] [11, 15], Call_record 1 12] of
      Inl _ \<Rightarrow> None | Inr v \<Rightarrow> Some (length (dw_blocks v), length (dw_postings v), length (dw_index v))) = Some (2, 8, 5)"
  by code_simp

lemma sample_merge:
  obtains self w0 v out z where "written_by plain_digest plain_pfor plain_fingerprint self sample_written"
    "writer_build 10 20 2 fingerprint_codec = Inr w0"
    "make_calls plain_pfor plain_fingerprint w0 (merged_calls plain_fingerprint sample_live [sample_written]) = Inr v"
    "writer_finish plain_digest v = Some (Inr (out, z))" "length out < 2 ^ 64"
proof -
  let ?calls = "[Call_push [97, 98] [11, 15], Call_record 1 12]"
  obtain self where self: "written_by plain_digest plain_pfor plain_fingerprint self sample_written" by (rule sample_written_segment)
  let ?w0 = "projr (writer_build 10 20 2 2)"
  have build: "writer_build 10 20 2 fingerprint_codec = Inr ?w0" using sample_build(2) by (simp add: fingerprint_codec_def)
  from sample_merge_sections obtain v where v: "make_calls plain_pfor plain_fingerprint ?w0 ?calls = Inr v"
    "length (dw_blocks v) = 2" "length (dw_postings v) = 8" "length (dw_index v) = 5" by (auto split: sum.splits)
  note built = built_run [OF build make_calls_run [OF v(1)]]
  have "set (demoted plain_fingerprint v) \<union> set (carried_records v ?calls) = set [(1, 2)]"
    using built(2,4,5) by (auto simp: demoted_def carried_records_def call_terms_def call_records_def map_filter_def)
  then have "written_records plain_fingerprint v ?calls = [(1, 2)]" by (simp only: set_simps) simp
  moreover have "length (record_blocks [(1 :: u32, 2 :: u32)]) = 1" by code_simp
  ultimately obtain out z where
    fin: "writer_finish plain_digest v = Some (Inr (out, z))" and len: "sizes_total z = length out"
      "sz_blocks z = 2" "sz_postings z = 8" "sz_index z = 5"
      "sz_fingerprints z = 8" "sz_head z \<le> head_max" "sz_fingerprint_index z \<le> 18"
      "sz_sums z = (chunk_count (sz_blocks z) + chunk_count (sz_postings z) + chunk_count (sz_fingerprints z)) * 16"
    using writer_finish_result [OF built(1) plain_digest_ok] by (auto simp: plain_section v)
  from len have "length out < 2 ^ 64"
    by (simp add: sizes_total_def head_max_def head_len_def fields_len_def table_entry_def chunk_count_def div_ceil_def chunk_def)
  with that [OF self build _ fin] v(1) show ?thesis unfolding sample_survives by blast
qed

theorem merge_writes_what_survives_witness:
  "\<exists>self w0 v file z. make_calls plain_pfor plain_fingerprint w0 [Call_push [97, 98] [11, 15], Call_record 1 12] = Inr v \<and>
     writer_finish plain_digest v = Some (Inr (file, z)) \<and>
     merge_stream plain_pfor plain_fingerprint plain_digest (\<lambda>_ _. True) [self] sample_live (\<lambda>_. False) (\<lambda>_. False) (spilling_from w0) =
       Inr (file, z\<lparr>sz_records_added := sz_records z - 1, sz_records_removed := 1\<rparr>)"
proof -
  obtain self w0 v out z where s: "written_by plain_digest plain_pfor plain_fingerprint self sample_written"
    "writer_build 10 20 2 fingerprint_codec = Inr w0"
    "make_calls plain_pfor plain_fingerprint w0 (merged_calls plain_fingerprint sample_live [sample_written]) = Inr v"
    "writer_finish plain_digest v = Some (Inr (out, z))" by (rule sample_merge)
  have list: "list_all2 (written_by plain_digest plain_pfor plain_fingerprint) [self] [sample_written]" "ascending 10 [sample_written]"
    "\<forall>wn\<in>set [sample_written]. wn_codec wn = fingerprint_codec \<and> wn_last wn \<le> 20"
    using s(1) by (simp_all add: sample_written_def)
  from merge_writes_what_survives [OF list(1,2) _ list(3) plain_pfor_ok plain_digest_ok sample_live_ok(1) _ s(2), of "\<lambda>_ _. True"] s(3)
  have "merge_stream plain_pfor plain_fingerprint plain_digest (\<lambda>_ _. True) [self] sample_live (\<lambda>_. False) (\<lambda>_. False) (spilling_from w0) =
       Inr (out, z\<lparr>sz_records_added := sz_records z - 1, sz_records_removed := 1\<rparr>)"
    unfolding sample_survives(1,2) by (auto simp: s(4))
  with s(3,4) show ?thesis unfolding sample_survives by blast
qed

theorem merge_keeps_the_live_documents_witness:
  "\<exists>self w0 file z merged hit. merge_stream plain_pfor plain_fingerprint plain_digest (\<lambda>_ _. True) [self] sample_live (\<lambda>_. False) (\<lambda>_. False) (spilling_from w0) =
       Inr (file, z) \<and>
     segment_open plain_digest file = Some (Inr merged) \<and>
     segment_lookup plain_digest plain_pfor merged [97, 98] = Some (Inr (Some hit)) \<and> hit_docs plain_pfor hit = [11, 15]"
proof -
  obtain self w0 v out z where s: "written_by plain_digest plain_pfor plain_fingerprint self sample_written"
    "writer_build 10 20 2 fingerprint_codec = Inr w0"
    "make_calls plain_pfor plain_fingerprint w0 (merged_calls plain_fingerprint sample_live [sample_written]) = Inr v"
    "writer_finish plain_digest v = Some (Inr (out, z))" "length out < 2 ^ 64" by (rule sample_merge)
  have list: "list_all2 (written_by plain_digest plain_pfor plain_fingerprint) [self] [sample_written]" "ascending 10 [sample_written]"
    "\<forall>wn\<in>set [sample_written]. wn_codec wn = fingerprint_codec \<and> wn_last wn \<le> 20"
    using s(1) by (simp_all add: sample_written_def)
  from merge_stream_calls [OF list(1,2) _ plain_pfor_ok plain_digest_ok sample_live_ok(1) s(2,3), of "\<lambda>_ _. True"] s(4) obtain z' where
    merge: "merge_stream plain_pfor plain_fingerprint plain_digest (\<lambda>_ _. True) [self] sample_live (\<lambda>_. False) (\<lambda>_. False) (spilling_from w0) = Inr (out, z')"
    by auto
  from merge_keeps_the_live_documents [OF list(1,2) _ list(3) plain_pfor_ok plain_digest_ok sample_live_ok(1) _ s(2) merge s(5)] obtain merged where
    opens: "segment_open plain_digest out = Some (Inr merged)"
    and all: "\<forall>t. if surviving sample_live [sample_written] t = [] \<or> fingerprint_codec = fingerprint_codec \<and> length (surviving sample_live [sample_written] t) = 1
           then segment_lookup plain_digest plain_pfor merged t = Some (Inr None)
           else \<exists>hit. segment_lookup plain_digest plain_pfor merged t = Some (Inr (Some hit)) \<and> hit_docs plain_pfor hit = surviving sample_live [sample_written] t"
    by auto
  from all [THEN spec, of "[97, 98]"] obtain hit where
    "segment_lookup plain_digest plain_pfor merged [97, 98] = Some (Inr (Some hit))" "hit_docs plain_pfor hit = [11, 15]"
    unfolding sample_survives by auto
  with merge opens show ?thesis by blast
qed

end
