(* ===== verification/Merge_Choice.thy ===== *)
theory Merge_Choice
  imports Complex_Main Manifest
begin

text \<open>
  Which adjacent segments to merge next (\<open>level\<close> and \<open>choose\<close> of \<open>ferret-index/src/merge.rs\<close>). No value here is infinite or
  NaN, so an \<open>f64\<close> is the real number it denotes: comparisons and \<open>f64::max\<close> are those of the reals. How results are rounded, and the
  \<open>log10\<close> of the platform, are parameters.

  Result: the choice is the one the policy documents, stated on the levels and counts themselves: groups by the largest level remaining and the
  span below it, the lowest full group first, else the segment with the largest dead fraction above a quarter.
\<close>

section \<open>Floating-point numbers\<close>

record f64_ops =
  f64_round :: "real \<Rightarrow> real"
  f64_log10 :: "real \<Rightarrow> real"

text \<open>
  What is relied on: rounding keeps the order and the integers up to \<open>2 ^ 53\<close>; a logarithm is an \<open>f64\<close>, and from 1 on it is not
  negative, at 1 it is 0.
\<close>

definition f64_ok :: "f64_ops \<Rightarrow> bool" where
  "f64_ok F \<longleftrightarrow>
     (\<forall>x y. x \<le> y \<longrightarrow> f64_round F x \<le> f64_round F y) \<and> (\<forall>n\<le>2 ^ 53. f64_round F (real n) = real n) \<and>
     (\<forall>x\<ge>1. 0 \<le> f64_log10 F x \<and> f64_round F (f64_log10 F x) = f64_log10 F x) \<and> f64_log10 F 1 = 0"

section \<open>The policy\<close>

definition merge_factor :: nat where "merge_factor = 10"

definition tier_floor :: nat where "tier_floor = 2 ^ 20"

definition dead_fraction :: "nat \<times> nat" where "dead_fraction = (1, 4)"

definition level_span :: real where "level_span = 3 / 4"

definition level :: "f64_ops \<Rightarrow> nat \<Rightarrow> real" where
  "level F bytes = f64_log10 F (f64_round F (f64_round F (real (max bytes tier_floor)) / f64_round F (real tier_floor)))"

definition group_top :: "real list \<Rightarrow> nat \<Rightarrow> real" where
  "group_top levels start = foldl max 0 (drop start levels)"

definition group_end :: "f64_ops \<Rightarrow> real list \<Rightarrow> nat \<Rightarrow> nat" where
  "group_end F levels start =
     (let lower = f64_round F (group_top levels start - level_span) in
      1 + (case find (\<lambda>i. lower \<le> levels ! i) (rev [start..<length levels]) of Some i \<Rightarrow> i | None \<Rightarrow> start))"

lemma group_end_bounds:
  "start < group_end F levels start" "start < length levels \<Longrightarrow> group_end F levels start \<le> length levels"
  by (auto simp: group_end_def Let_def find_Some_iff rev_nth split: option.splits)

definition better_group :: "f64_ops \<Rightarrow> real list \<Rightarrow> nat \<Rightarrow> (real \<times> nat) option \<Rightarrow> (real \<times> nat) option" where
  "better_group F levels start best =
     (let top = group_top levels start in
      if merge_factor \<le> group_end F levels start - start \<and> (case best of None \<Rightarrow> True | Some (best_top, _) \<Rightarrow> top < best_top)
      then Some (top, start) else best)"

function choose_group :: "f64_ops \<Rightarrow> real list \<Rightarrow> nat \<Rightarrow> (real \<times> nat) option \<Rightarrow> (real \<times> nat) option" where
  "choose_group F levels start best =
     (if start < length levels then choose_group F levels (group_end F levels start) (better_group F levels start best) else best)"
  by pat_completeness auto
termination
  by (relation "measure (\<lambda>(F, levels, start, best). length levels - start)") (auto simp: group_end_bounds diff_less_mono2)

declare choose_group.simps [simp del]

text \<open>\<open>Iterator::max_by\<close>: the last of the elements that no other is greater than.\<close>

definition max_by :: "('a \<Rightarrow> 'a \<Rightarrow> bool) \<Rightarrow> 'a list \<Rightarrow> 'a option" where
  "max_by over xs = (case xs of [] \<Rightarrow> None | x # xs \<Rightarrow> Some (foldl (\<lambda>x y. if over x y then x else y) x xs))"

definition dead_docs :: "(segment_entry \<Rightarrow> nat) \<Rightarrow> segment_entry \<Rightarrow> nat" where
  "dead_docs alive s = unat (se_docs s) - alive s"

definition mostly_dead :: "(segment_entry \<Rightarrow> nat) \<Rightarrow> segment_entry \<Rightarrow> bool" where
  "mostly_dead alive s \<longleftrightarrow> unat (se_docs s) * fst dead_fraction < dead_docs alive s * snd dead_fraction"

definition fraction :: "f64_ops \<Rightarrow> (segment_entry \<Rightarrow> nat) \<Rightarrow> segment_entry \<Rightarrow> real" where
  "fraction F alive s = f64_round F (real (dead_docs alive s) / real (max (unat (se_docs s)) 1))"

definition merge_choose :: "f64_ops \<Rightarrow> segment_entry list \<Rightarrow> (segment_entry \<Rightarrow> nat) \<Rightarrow> (nat \<times> nat) option" where
  "merge_choose F segments alive =
     (case choose_group F (map (\<lambda>s. level F (unat (total_bytes s))) segments) 0 None of
        Some (_, start) \<Rightarrow> Some (start, start + merge_factor)
      | None \<Rightarrow>
          map_option (\<lambda>x. (fst x, fst x + 1))
            (max_by (\<lambda>a b. fraction F alive (snd a) > fraction F alive (snd b))
              (filter (\<lambda>x. mostly_dead alive (snd x)) (enumerate 0 segments))))"

section \<open>The documented policy\<close>

text \<open>A segment's level: 0 up to one MiB, the logarithm of its size in MiB above.\<close>

definition documented_level :: "f64_ops \<Rightarrow> nat \<Rightarrow> real" where
  "documented_level F bytes =
     (if bytes \<le> 1048576 then 0 else f64_log10 F (f64_round F (f64_round F (real bytes) / 1048576)))"

text \<open>
  A group from \<open>s\<close>: every segment up to the last one whose level is within 0.75 of the largest level remaining.
  The groups: the first from the left, and one from the end of each.
\<close>

definition is_group :: "f64_ops \<Rightarrow> real list \<Rightarrow> nat \<Rightarrow> nat \<Rightarrow> bool" where
  "is_group F levels s e \<longleftrightarrow> s < e \<and> e \<le> length levels \<and>
     (let lower = f64_round F (Max (set (drop s levels)) - 0.75) in
      lower \<le> levels ! (e - 1) \<and> (\<forall>i. e \<le> i \<and> i < length levels \<longrightarrow> levels ! i < lower))"

inductive group_at :: "f64_ops \<Rightarrow> real list \<Rightarrow> nat \<Rightarrow> nat \<Rightarrow> bool" for F levels where
  first: "is_group F levels 0 e \<Longrightarrow> group_at F levels 0 e"
| next_one: "group_at F levels s e \<Longrightarrow> is_group F levels e e' \<Longrightarrow> group_at F levels e e'"

definition full_group :: "f64_ops \<Rightarrow> real list \<Rightarrow> nat \<Rightarrow> bool" where
  "full_group F levels s \<longleftrightarrow> (\<exists>e. group_at F levels s e \<and> s + 10 \<le> e)"

text \<open>A segment more than a quarter dead, and its dead fraction.\<close>

definition due_alone :: "(segment_entry \<Rightarrow> nat) \<Rightarrow> segment_entry \<Rightarrow> bool" where
  "due_alone alive s \<longleftrightarrow> unat (se_docs s) < 4 * (unat (se_docs s) - alive s)"

definition dead_part :: "f64_ops \<Rightarrow> (segment_entry \<Rightarrow> nat) \<Rightarrow> segment_entry \<Rightarrow> real" where
  "dead_part F alive s = f64_round F ((real (unat (se_docs s)) - real (min (alive s) (unat (se_docs s)))) / real (unat (se_docs s)))"

section \<open>Levels\<close>

lemma f64_exact: "f64_ok F \<Longrightarrow> n \<le> 2 ^ 53 \<Longrightarrow> f64_round F (real n) = real n"
  by (simp add: f64_ok_def)

lemma f64_mono: "f64_ok F \<Longrightarrow> x \<le> y \<Longrightarrow> f64_round F x \<le> f64_round F y"
  by (simp add: f64_ok_def)

lemma level_documented: "f64_ok F \<Longrightarrow> level F bytes = documented_level F bytes"
proof -
  assume F: "f64_ok F"
  have mib: "f64_round F (real 1048576) = real 1048576" "f64_round F (real 1) = real 1"
    using F f64_exact [of F 1048576] f64_exact [of F 1] by simp_all
  show ?thesis
  proof (cases "bytes \<le> 1048576")
    case True
    then have "max bytes tier_floor = 1048576" by (simp add: tier_floor_def)
    with mib F True show ?thesis by (simp add: level_def documented_level_def tier_floor_def f64_ok_def)
  next
    case False
    with mib show ?thesis by (simp add: level_def documented_level_def tier_floor_def)
  qed
qed

definition level_values :: "f64_ops \<Rightarrow> real list \<Rightarrow> bool" where
  "level_values F levels \<longleftrightarrow> (\<forall>x\<in>set levels. 0 \<le> x \<and> f64_round F x = x)"

lemma documented_level_value:
  assumes "f64_ok F"
  shows "0 \<le> documented_level F bytes" "f64_round F (documented_level F bytes) = documented_level F bytes"
proof -
  have int: "f64_round F (real n) = real n" if "n \<le> 2 ^ 53" for n using assms that by (simp add: f64_ok_def)
  have mono: "f64_round F x \<le> f64_round F y" if "x \<le> y" for x y using assms that by (simp add: f64_ok_def)
  have "1 \<le> f64_round F (f64_round F (real bytes) / 1048576)" if "1048576 < bytes"
  proof -
    have "real 1048576 \<le> f64_round F (real bytes)" using mono [of "real 1048576" "real bytes"] int [of 1048576] that by simp
    then have "f64_round F (real 1) \<le> f64_round F (f64_round F (real bytes) / 1048576)" by (intro mono) simp
    then show ?thesis using int [of 1] by simp
  qed
  with assms int [of 0] show "0 \<le> documented_level F bytes" "f64_round F (documented_level F bytes) = documented_level F bytes"
    by (auto simp: documented_level_def f64_ok_def)
qed

section \<open>Groups\<close>

lemma foldl_max: "foldl max (a :: real) xs = Max (insert a (set xs))"
proof (induction xs arbitrary: a)
  case (Cons x xs)
  then have "foldl max a (x # xs) = Max (insert (max a x) (set xs))" by simp
  also have "\<dots> = Max (insert a (insert x (set xs)))" by (cases "set xs = {}") (simp_all add: max.assoc)
  finally show ?case by simp
qed simp

lemma group_top_Max:
  assumes "level_values F levels" "start < length levels"
  shows "group_top levels start = Max (set (drop start levels))"
proof -
  have "set (drop start levels) \<noteq> {}" "\<forall>x\<in>set (drop start levels). 0 \<le> x"
    using assms by (auto simp: level_values_def dest: in_set_dropD)
  then have "max 0 (Max (set (drop start levels))) = Max (set (drop start levels))"
    by (meson List.finite_set Max_in max_absorb2)
  with \<open>set (drop start levels) \<noteq> {}\<close> show ?thesis by (simp add: group_top_def foldl_max)
qed

lemma group_end_is_group:
  assumes "f64_ok F" "level_values F levels" "start < length levels"
  shows "is_group F levels start (group_end F levels start)"
proof -
  define lower where "lower = f64_round F (Max (set (drop start levels)) - 0.75)"
  have lower: "f64_round F (group_top levels start - level_span) = lower"
    using group_top_Max [OF assms(2,3)] by (simp add: lower_def level_span_def)
  let ?found = "find (\<lambda>i. lower \<le> levels ! i) (rev [start..<length levels])"
  have "Max (set (drop start levels)) \<in> set (drop start levels)" using assms(3) by (intro Max_in) auto
  then obtain k where k: "start + k < length levels" "levels ! (start + k) = Max (set (drop start levels))"
    by (auto simp: in_set_conv_nth less_diff_conv add.commute)
  then have "f64_round F (levels ! (start + k)) = levels ! (start + k)" using assms(2) unfolding level_values_def by (metis nth_mem)
  with assms(1) k(2) have "lower \<le> levels ! (start + k)" 
    using f64_mono [OF assms(1), of "Max (set (drop start levels)) - 0.75" "Max (set (drop start levels))"] by (simp add: lower_def)
  with k(1) have "?found \<noteq> None" by (auto simp: find_None_iff intro!: bexI [of _ "start + k"])
  then obtain i where i: "?found = Some i" by blast
  then obtain j where j: "j < length levels - start" "i = rev [start..<length levels] ! j" "lower \<le> levels ! i"
    "\<forall>j'<j. \<not> lower \<le> levels ! (rev [start..<length levels] ! j')" by (auto simp: find_Some_iff)
  then have ij: "i = length levels - Suc j" "start \<le> i" "i < length levels" by (auto simp: rev_nth)
  have "levels ! m < lower" if "i < m" "m < length levels" for m
  proof -
    from that ij have "length levels - Suc m < j" "rev [start..<length levels] ! (length levels - Suc m) = m" by (auto simp: rev_nth)
    with j(4) show ?thesis by (metis not_le)
  qed
  moreover have "group_end F levels start = 1 + i" unfolding group_end_def Let_def lower i by simp
  ultimately show ?thesis using ij j(3) by (simp add: is_group_def Let_def lower_def)
qed

lemma is_group_unique: "is_group F levels s e \<Longrightarrow> is_group F levels s e' \<Longrightarrow> e = e'"
proof (induction e e' rule: linorder_wlog)
  case (le e e')
  show ?case
  proof (rule ccontr)
    assume "e \<noteq> e'"
    with le have "e \<le> e' - 1" "e' - 1 < length levels" by (auto simp: is_group_def)
    with le(2) have "levels ! (e' - 1) < f64_round F (Max (set (drop s levels)) - 0.75)" unfolding is_group_def Let_def by blast
    with le(3) show False by (simp add: is_group_def Let_def)
  qed
qed auto

text \<open>The starts of the groups, from the left.\<close>

function group_starts :: "f64_ops \<Rightarrow> real list \<Rightarrow> nat \<Rightarrow> nat list" where
  "group_starts F levels start = (if start < length levels then start # group_starts F levels (group_end F levels start) else [])"
  by pat_completeness auto
termination
  by (relation "measure (\<lambda>(F, levels, start). length levels - start)") (auto simp: group_end_bounds diff_less_mono2)

declare group_starts.simps [simp del]

lemma choose_group_foldl: "choose_group F levels start best = foldl (\<lambda>best start. better_group F levels start best) best (group_starts F levels start)"
proof (induction F levels start best rule: choose_group.induct)
  case (1 F levels start best)
  then show ?case by (subst choose_group.simps, subst group_starts.simps) simp
qed

lemma group_starts_range: "sorted_wrt (<) (group_starts F levels start) \<and> (\<forall>g\<in>set (group_starts F levels start). start \<le> g \<and> g < length levels)"
proof (induction F levels start rule: group_starts.induct)
  case (1 F levels start)
  then show ?case using group_end_bounds(1) [of start F levels]
    by (subst group_starts.simps, subst (2) group_starts.simps) (fastforce split: if_splits)
qed

lemma group_starts_groups:
  assumes F: "f64_ok F" and "level_values F levels"
  shows "g \<in> set (group_starts F levels start) \<Longrightarrow> start = 0 \<or> (\<exists>s. group_at F levels s start) \<Longrightarrow>
    group_at F levels g (group_end F levels g)"
  using assms
proof (induction F levels start rule: group_starts.induct)
  case (1 F levels start)
  from "1.prems"(1) have start: "start < length levels" "g = start \<or> g \<in> set (group_starts F levels (group_end F levels start))"
    by (subst (asm) group_starts.simps, simp split: if_splits)+
  have "is_group F levels start (group_end F levels start)" using group_end_is_group [OF "1.prems"(3,4) start(1)] .
  with "1.prems"(2) have here: "group_at F levels start (group_end F levels start)" by (auto intro: group_at.intros)
  with start "1.IH" [OF start(1)] "1.prems"(3,4) show ?case by blast
qed

lemma group_starts_closed:
  "g \<in> set (group_starts F levels start) \<Longrightarrow> group_end F levels g < length levels \<Longrightarrow> group_end F levels g \<in> set (group_starts F levels start)"
proof (induction F levels start rule: group_starts.induct)
  case (1 F levels start)
  from "1.prems"(1) have start: "start < length levels" "g = start \<or> g \<in> set (group_starts F levels (group_end F levels start))"
    by (subst (asm) group_starts.simps, simp split: if_splits)+
  have here: "set (group_starts F levels s) = insert s (set (group_starts F levels (group_end F levels s)))" if "s < length levels" for s
    using that by (subst group_starts.simps) simp
  from start(2) show ?case
  proof
    assume "g = start"
    then show ?case using here [OF start(1)] here [OF "1.prems"(2)] by auto
  next
    assume "g \<in> set (group_starts F levels (group_end F levels start))"
    then show ?case using "1.IH" [OF start(1)] "1.prems"(2) here [OF start(1)] by blast
  qed
qed

lemma group_at_starts:
  assumes "f64_ok F" "level_values F levels"
  shows "group_at F levels s e \<longleftrightarrow> s \<in> set (group_starts F levels 0) \<and> e = group_end F levels s"
proof
  show "s \<in> set (group_starts F levels 0) \<and> e = group_end F levels s" if "group_at F levels s e"
    using that
  proof (induction rule: group_at.induct)
    case (first e)
    then have "0 < length levels" by (auto simp: is_group_def)
    with first group_end_is_group [OF assms] is_group_unique show ?case by (subst group_starts.simps) auto
  next
    case (next_one s e e')
    then have "e < length levels" by (auto simp: is_group_def)
    with next_one group_starts_closed group_end_is_group [OF assms] is_group_unique show ?case by blast
  qed
qed (use group_starts_groups [OF assms, of s 0] in auto)

lemma full_group_starts:
  assumes "f64_ok F" "level_values F levels"
  shows "full_group F levels s \<longleftrightarrow> s \<in> set (group_starts F levels 0) \<and> merge_factor \<le> group_end F levels s - s"
  using group_end_bounds(1) [of s F levels] by (auto simp: full_group_def group_at_starts [OF assms] merge_factor_def)

text \<open>The best full group among those visited: the leftmost with the lowest top level.\<close>

definition best_of :: "f64_ops \<Rightarrow> real list \<Rightarrow> nat set \<Rightarrow> (real \<times> nat) option \<Rightarrow> bool" where
  "best_of F levels gs best \<longleftrightarrow>
     (case best of
        None \<Rightarrow> \<forall>g\<in>gs. group_end F levels g - g < merge_factor
      | Some (t, s) \<Rightarrow> s \<in> gs \<and> merge_factor \<le> group_end F levels s - s \<and> t = group_top levels s \<and>
          (\<forall>g\<in>gs. merge_factor \<le> group_end F levels g - g \<longrightarrow> t \<le> group_top levels g \<and> (g < s \<longrightarrow> t < group_top levels g)))"

lemma better_group_best:
  "best_of F levels gs best \<Longrightarrow> (\<And>g. g \<in> gs \<Longrightarrow> g < start) \<Longrightarrow> best_of F levels (insert start gs) (better_group F levels start best)"
  by (cases best) (fastforce simp: best_of_def better_group_def Let_def not_less not_le)+

lemma better_groups_best:
  "best_of F levels gs best \<Longrightarrow> sorted_wrt (<) starts \<Longrightarrow> (\<And>g s. g \<in> gs \<Longrightarrow> s \<in> set starts \<Longrightarrow> g < s) \<Longrightarrow>
   best_of F levels (gs \<union> set starts) (foldl (\<lambda>best start. better_group F levels start best) best starts)"
proof (induction starts arbitrary: gs best)
  case (Cons start starts)
  have "best_of F levels (insert start gs) (better_group F levels start best)" using Cons.prems by (intro better_group_best) auto
  then have "best_of F levels (insert start gs \<union> set starts) (foldl (\<lambda>best start. better_group F levels start best) (better_group F levels start best) starts)"
    using Cons.prems by (intro Cons.IH) auto
  then show ?case by simp
qed simp

lemma choose_group_best: "best_of F levels (set (group_starts F levels 0)) (choose_group F levels 0 None)"
  using better_groups_best [of F levels "{}" None "group_starts F levels 0"] group_starts_range [of F levels 0]
  by (simp add: choose_group_foldl best_of_def)

section \<open>Dead documents\<close>

lemma max_by_last:
  fixes f :: "'a \<Rightarrow> real"
  assumes "sorted_wrt (<) (map fst (xs :: (nat \<times> 'a) list))"
  shows "case max_by (\<lambda>a b. f (snd a) > f (snd b)) xs of None \<Rightarrow> xs = []
    | Some m \<Rightarrow> m \<in> set xs \<and> (\<forall>x\<in>set xs. f (snd x) \<le> f (snd m) \<and> (fst m < fst x \<longrightarrow> f (snd x) < f (snd m)))"
proof (cases xs)
  case (Cons x ys)
  let ?last = "\<lambda>xs m. m \<in> set xs \<and> (\<forall>x\<in>set xs. f (snd x) \<le> f (snd m) \<and> (fst m < fst x \<longrightarrow> f (snd x) < f (snd m)))"
  let ?pick = "\<lambda>x y. if f (snd x) > f (snd y) then x else y"
  have "sorted_wrt (<) (map fst (zs @ ys)) \<Longrightarrow> ?last zs m \<Longrightarrow> ?last (zs @ ys) (foldl ?pick m ys)" for zs m
  proof (induction ys arbitrary: zs m)
    case (Cons y ys)
    then have "fst z < fst y" if "z \<in> set zs" for z using that by (auto simp: sorted_wrt_append)
    with Cons.prems(2) have "?last (zs @ [y]) (?pick m y)" by (force simp: not_less)
    with Cons.IH [of "zs @ [y]" "?pick m y"] Cons.prems(1) show ?case by simp
  qed simp
  from this [of "[x]" x] assms Cons show ?thesis by (simp add: max_by_def)
qed (simp add: max_by_def)

lemma mostly_dead_due: "mostly_dead alive s \<longleftrightarrow> due_alone alive s"
  by (simp add: mostly_dead_def due_alone_def dead_docs_def dead_fraction_def mult.commute)

lemma fraction_dead_part: "due_alone alive s \<Longrightarrow> fraction F alive s = dead_part F alive s"
proof -
  assume "due_alone alive s"
  then have "max (unat (se_docs s)) 1 = unat (se_docs s)" by (auto simp: due_alone_def)
  then show ?thesis by (simp add: fraction_def dead_part_def dead_docs_def of_nat_diff min_def)
qed

lemma choose_dead:
  fixes segments :: "segment_entry list" and alive :: "segment_entry \<Rightarrow> nat"
  defines "due \<equiv> filter (\<lambda>x. mostly_dead alive (snd x)) (enumerate 0 segments)"
  shows "case map_option fst (max_by (\<lambda>a b. fraction F alive (snd a) > fraction F alive (snd b)) due) of
      None \<Rightarrow> \<forall>s\<in>set segments. \<not> due_alone alive s
    | Some a \<Rightarrow> a < length segments \<and> due_alone alive (segments ! a) \<and>
        (\<forall>j<length segments. due_alone alive (segments ! j) \<longrightarrow> dead_part F alive (segments ! j) \<le> dead_part F alive (segments ! a) \<and>
           (a < j \<longrightarrow> dead_part F alive (segments ! j) < dead_part F alive (segments ! a)))"
proof -
  have due: "(i, s) \<in> set due \<longleftrightarrow> i < length segments \<and> s = segments ! i \<and> due_alone alive s" for i s
    by (auto simp: due_def in_set_enumerate_eq mostly_dead_due)
  have "sorted_wrt (<) (map fst (enumerate 0 segments))" by (simp add: map_fst_enumerate sorted_wrt_upt)
  then have "sorted_wrt (<) (map fst due)"
    unfolding due_def sorted_wrt_map by (rule sorted_wrt_filter)
  note pick = max_by_last [OF this, of "fraction F alive"]
  show ?thesis
  proof (cases "max_by (\<lambda>a b. fraction F alive (snd a) > fraction F alive (snd b)) due")
    case None
    with pick have "due = []" by simp
    then show ?thesis using due None by (auto simp: in_set_conv_nth)
  next
    case (Some m)
    obtain a s where m: "m = (a, s)" by fastforce
    with Some pick due have a: "a < length segments" "s = segments ! a" "due_alone alive s"
      and most: "\<And>x. x \<in> set due \<Longrightarrow> fraction F alive (snd x) \<le> fraction F alive s \<and> (a < fst x \<longrightarrow> fraction F alive (snd x) < fraction F alive s)"
      by auto
    have "dead_part F alive (segments ! j) \<le> dead_part F alive s \<and> (a < j \<longrightarrow> dead_part F alive (segments ! j) < dead_part F alive s)"
      if "j < length segments" "due_alone alive (segments ! j)" for j
      using most [of "(j, segments ! j)"] due that a by (simp add: fraction_dead_part)
    with Some m a show ?thesis by simp
  qed
qed

section \<open>Properties\<close>

text \<open>
  C33: The merge policy chooses what it documents. A segment of at most one MiB has level 0, a larger one the logarithm of its size in MiB. From
  the left, a group is every segment up to the last whose level is within 0.75 of the largest level remaining, and the next group starts
  where it ends. If some group has ten segments or more, the first ten of one are chosen: of the group with the lowest
  top level, the leftmost of those. Otherwise, if some segment has more than a quarter of its documents dead, the one with the largest
  dead fraction is chosen alone, the last of those. Otherwise nothing is chosen. Sums, quotients and conversions are
  rounded by a function that keeps the order and the integers up to \<open>2 ^ 53\<close>; the logarithm is that of the platform.
\<close>

theorem merge_choice_sound:
  assumes "f64_ok F"
  shows "let levels = map (\<lambda>s. documented_level F (unat (total_bytes s))) segments in
    case merge_choose F segments alive of
      None \<Rightarrow> (\<forall>s. \<not> full_group F levels s) \<and> (\<forall>s\<in>set segments. \<not> due_alone alive s)
    | Some (a, b) \<Rightarrow> b \<le> length segments \<and>
        (if \<exists>s. full_group F levels s then
           b = a + 10 \<and> full_group F levels a \<and>
           (\<forall>s. full_group F levels s \<longrightarrow> Max (set (drop a levels)) \<le> Max (set (drop s levels)) \<and>
              (s < a \<longrightarrow> Max (set (drop a levels)) < Max (set (drop s levels))))
         else b = a + 1 \<and> due_alone alive (segments ! a) \<and>
           (\<forall>j<length segments. due_alone alive (segments ! j) \<longrightarrow> dead_part F alive (segments ! j) \<le> dead_part F alive (segments ! a) \<and>
              (a < j \<longrightarrow> dead_part F alive (segments ! j) < dead_part F alive (segments ! a))))"
proof -
  define levels where "levels = map (\<lambda>s. documented_level F (unat (total_bytes s))) segments"
  have code: "map (\<lambda>s. level F (unat (total_bytes s))) segments = levels" by (simp add: levels_def level_documented [OF assms])
  have ok: "level_values F levels" using documented_level_value [OF assms] by (auto simp: level_values_def levels_def)
  note full = full_group_starts [OF assms ok]
  note best = choose_group_best [of F levels]
  show ?thesis
  proof (cases "choose_group F levels 0 None")
    case (Some x)
    obtain peak a where x: "x = (peak, a)" by fastforce
    with Some best have a: "full_group F levels a" "peak = group_top levels a"
      "\<And>s. full_group F levels s \<Longrightarrow> peak \<le> group_top levels s \<and> (s < a \<longrightarrow> peak < group_top levels s)" by (auto simp: best_of_def full)
    have inside: "s < length levels" if "full_group F levels s" for s using that group_starts_range by (auto simp: full)
    have top: "group_top levels s = Max (set (drop s levels))" if "full_group F levels s" for s
      using group_top_Max [OF ok inside [OF that]] .
    have "merge_factor \<le> group_end F levels a - a" using a(1) by (simp add: full)
    with group_end_bounds(2) [OF inside [OF a(1)], of F] have "a + 10 \<le> length segments" by (simp add: levels_def merge_factor_def)
    moreover have "merge_choose F segments alive = Some (a, a + 10)" using Some x by (simp add: merge_choose_def code merge_factor_def)
    ultimately show ?thesis using a(1) a(2,3) top unfolding levels_def [symmetric] Let_def by auto
  next
    case None
    then have none: "\<not> full_group F levels s" for s using best by (auto simp: best_of_def full not_le)
    from None none show ?thesis using choose_dead [where F = F and alive = alive and segments = segments]
      unfolding levels_def [symmetric] Let_def
      by (auto simp: merge_choose_def code split: option.splits)
  qed
qed

text \<open>Exact arithmetic and a logarithm by its tangent at 1; three segments of ten documents.\<close>

definition sample_f64 :: f64_ops where
  "sample_f64 = \<lparr>f64_round = (\<lambda>x. x), f64_log10 = (\<lambda>x. x - 1)\<rparr>"

lemma sample_f64_ok: "f64_ok sample_f64"
  by (simp add: f64_ok_def sample_f64_def)

definition sample_segments :: "segment_entry list" where
  "sample_segments = map (\<lambda>n. \<lparr>se_number = n, se_first = 0, se_last = 9, se_docs = 10, se_terms = 1, se_pairs = 1, se_bytes = 0, se_digest = [],
     se_trigram_bytes = 0, se_trigram_keys = 0, se_trigram_pairs = 0, se_trigram_digest = []\<rparr>) [0, 1, 2]"

definition sample_alive :: "segment_entry \<Rightarrow> nat" where
  "sample_alive s = (if se_number s = 1 then 3 else 7)"

lemma sample_levels:
  "map (\<lambda>s. level sample_f64 (unat (total_bytes s))) sample_segments = [0, 0, 0]"
  "map (\<lambda>s. documented_level sample_f64 (unat (total_bytes s))) sample_segments = [0, 0, 0]"
  by (simp_all add: level_def documented_level_def sample_f64_def tier_floor_def total_bytes_def sample_segments_def)

lemma sample_group: "choose_group sample_f64 [0, 0, 0] 0 None = None"
proof -
  have "group_end sample_f64 [0, 0, 0] 0 = 3"
    by (simp add: group_end_def group_top_def level_span_def sample_f64_def numeral_3_eq_3 upt_rec)
  then show ?thesis by (simp add: choose_group.simps better_group_def merge_factor_def)
qed

lemma sample_choice: "merge_choose sample_f64 sample_segments sample_alive = Some (1, 2)"
  unfolding merge_choose_def sample_levels sample_group
  by (simp add: max_by_def mostly_dead_def dead_docs_def fraction_def dead_fraction_def sample_f64_def sample_segments_def sample_alive_def)

lemma sample_no_group: "\<not> full_group sample_f64 [0, 0, 0] s"
proof
  assume "full_group sample_f64 [0, 0, 0] s"
  then obtain e where "group_at sample_f64 [0, 0, 0] s e" "s + 10 \<le> e" by (auto simp: full_group_def)
  then show False by (cases rule: group_at.cases) (auto simp: is_group_def)
qed

theorem merge_choice_sound_witness:
  "merge_choose sample_f64 sample_segments sample_alive = Some (1, 2) \<and> due_alone sample_alive (sample_segments ! 1) \<and>
   dead_part sample_f64 sample_alive (sample_segments ! 2) < dead_part sample_f64 sample_alive (sample_segments ! 1)"
proof -
  have "due_alone sample_alive (sample_segments ! 2)" "2 < length sample_segments"
    by (simp_all add: due_alone_def sample_segments_def sample_alive_def)
  then show ?thesis
    using merge_choice_sound [OF sample_f64_ok, of sample_segments sample_alive] by (simp add: Let_def sample_choice sample_levels sample_no_group)
qed

end
