(* ===== verification/Spec2Isabelle.thy ===== *)
theory Spec2Isabelle
  imports Dir_Walk Cursor_Build Merge_File Merge_Choice
begin

text \<open>
  A verification development for ferret, an indexing file finder. Two crates carry its own logic and are
  modelled here: \<open>crates/ferret-policy\<close>, which decides from ignore files which entries of a tree are visited,
  and \<open>crates/ferret-index\<close>, which keeps an inverted index in immutable segment files and answers queries
  from it. A crawl asks the policy about every entry; the documents it admits become \<open>(term, document)\<close> pairs
  that a segment writer lays out; a query opens the segments of a view, reads its terms, and walks a tree of
  cursors over them.

  \<^bold>\<open>Shared theories.\<close> \<open>Ferret_Prelude\<close> (bytes and slices), \<open>Bit_Words\<close> (bit sets in
  \<open>u64\<close> words, used by pattern marks and document sets), \<open>Blocking\<close> (sequences cut in blocks).

  \<^bold>\<open>Policy\<close> (\<open>ferret-policy/src\<close>).
  \<^item> \<open>Glob\<close>: \<open>gitignore/pattern/glob.rs\<close>. The retry loop terminates within a product bound and decides the declarative
    relation; the compiler of a component is correct.
  \<^item> \<open>Pattern\<close>: \<open>gitignore/pattern.rs\<close>. Lines, cursors, projections; stepping decides a pattern on whole paths.
  \<^item> \<open>Gitignore\<close>: \<open>gitignore/mod.rs\<close>. The bucketed index finds the last match.
  \<^item> \<open>Rule_Lists\<close>: \<open>lists.rs\<close>. Interned rules and lists; threads as a step relation.
  \<^item> \<open>Dir_Rules\<close>, \<open>Dir_Walk\<close>: \<open>rules.rs\<close> and the types of \<open>lib.rs\<close>. \<open>root\<close>, \<open>enter\<close>, \<open>traverse\<close>, \<open>decide_child\<close>;
    every walk refines the precedence of ignore files taken on whole paths, with nothing compiled or interned.

  \<^bold>\<open>Index\<close> (\<open>ferret-index/src\<close>).
  \<^item> \<open>Doc_Set\<close>: \<open>live.rs\<close>, bitmaps of documents refining sets.
  \<^item> \<open>Byte_Codec\<close>, \<open>Segment_Format\<close>: \<open>segment/mod.rs\<close>, the integer codecs (locale \<open>codec\<close>) and the constants, sections
    and errors of a segment file.
  \<^item> \<open>Manifest\<close>: \<open>manifest.rs\<close>, a manifest decodes exactly from its own encoding.
  \<^item> \<open>Fingerprints\<close>: \<open>segment/fingerprint.rs\<close> and the run lookup of \<open>segment/read.rs\<close>.
  \<^item> \<open>Tournament\<close>, \<open>Merge\<close>, \<open>Merge_Records\<close>, \<open>Merge_File\<close>: \<open>merge.rs\<close>, the loser tree (locale \<open>strict_order\<close>), the merge of
    terms, the merge of fingerprint records through a heap, and \<open>stream\<close>, which runs both over the streams of the inputs into a spilling
    writer. From the bytes of the inputs to the bytes of the output, a merge keeps exactly the live documents.
  \<^item> \<open>Merge_Choice\<close>: \<open>level\<close> and \<open>choose\<close> of \<open>merge.rs\<close>, the policy that picks segments to merge. It picks what its
    documentation says, stated on the levels and dead counts of the segments alone.
  \<^item> \<open>Dictionary\<close>: \<open>segment/write.rs\<close>, the writer: \<open>push\<close>, \<open>push_record\<close>, blocks, block index, records. Its sections are
    always the layout of what it accepted (\<open>writer_inv\<close>).
  \<^item> \<open>Block_Index\<close>, \<open>Block_Entries\<close>: \<open>segment/read/block_index.rs\<close> and \<open>segment/read/streams.rs\<close>, the two levels of a
    dictionary lookup.
  \<^item> \<open>Segment_File\<close>, \<open>Segment_Open\<close>, \<open>Segment_Lookup\<close>: \<open>Writer::finish\<close>, \<open>Segment::open\<close>, checked reads and lookups. The
    round trip from the calls on a writer through the bytes of its file to a reader's answers.
  \<^item> \<open>Segment_Streams\<close>: \<open>segment/read/streams.rs\<close>. The streams over all terms and records of a segment, read through
    windows of checked chunks, return what its writer was given.
  \<^item> \<open>Spill\<close>: the other half of \<open>segment/write.rs\<close>, a writer that spills its sections to a temporary file and copies them back at a
    pace. It writes the same bytes as the writer in memory, unless the pace refuses. A file is its bytes; a disk's
    failure appears only as that refusal.
  \<^item> \<open>Postings\<close>, \<open>Term_Read\<close>: \<open>postings.rs\<close>. A term read over the segments of a view, and the cursor over it; nothing
    indexed is lost on the way.
  \<^item> \<open>Cursor\<close>, \<open>Cursor_Walk\<close>, \<open>Cursor_Build\<close>: \<open>cursor.rs\<close> and the liveness and coverage arms of \<open>candidate.rs\<close>. A walk over
    a tree returns the documents of its meaning in three-valued logic: exactly, if no negation is tested on targets
    that a cursor over fingerprint documents answers by stepping back, and for every tree without losing a
    document or calling one certain that is not.

  \<^bold>\<open>Conventions.\<close> A \<open>usize\<close> or a document id is a natural number, and a theorem says where it must fit its width;
  field values read from or written to bytes, fingerprints and bitmap words are words. A slice expression that
  would panic is an option whose \<open>None\<close> is the panic; an error is the left of a sum. A callback that may answer
  differently at each call (cancellation, checkpoints) is a function of the number of the call or of an explicit state.
  Hash maps are maps, locks make an access one step, and an \<open>Arc\<close> is its content.

  \<^bold>\<open>Parameters.\<close> The crate \<open>intpack\<close> (a record of functions, with \<open>intpack_ok\<close> and \<open>pfor_ok\<close> what is relied on:
  decoding inverts encoding, and a list cursor returns the least remaining id from its target on; \<open>intpack_ends\<close>: past its last id
  it stays there), and BLAKE3
  (a function with digests of 16 bytes, \<open>digest_ok\<close>; the fingerprint of a term is any function). The merge policy takes the
  rounding and the logarithm of \<open>f64\<close> as a record (\<open>f64_ok\<close>: rounding keeps the order and small integers); its values are reals. The witnesses run all with concrete functions.

  \<^bold>\<open>Fuel.\<close> Only the loops of \<open>Cursor\<close> run on fuel. Each iteration raises the target, so one unit for every
  document id below the bound and for every level of the tree is enough, and the theorems of
  \<open>Cursor_Walk\<close>, \<open>Cursor_Build\<close> and \<open>Term_Read\<close> say so: they conclude that a result is returned. The retry loop of \<open>Glob\<close>
  is bounded by the product of pattern and name. Every other loop is a total function.

  \<^bold>\<open>Not modelled.\<close> Points of fault injection; inversion and the tokenizer, which feed the writer; the
  store's publication of files; the catalog, the crawler, the query planner, the verifier, the command line and the
  benchmarks. These are operating-system calls, threads, third-party tables and regular expressions, or separate engines;
  the manifest lists each with its reason.
\<close>

end
